(* ===== verification/Prelude.thy ===== *)
theory Prelude
  imports Main "HOL-Library.Word"
begin

text \<open>
  What the components of the development share: the machine integer types, a
  byte-addressed little-endian memory with its 32-bit accesses (the x86 memory
  that the kernels and the OSPFS disk image use), the errno values that the
  Linux modules return, and the collections of rewrite rules of the library.
\<close>

unbundle bit_operations_syntax

named_theorems mem_simps \<open>reads over writes of the byte memory\<close>
named_theorems layout_simps \<open>constants of the on-disk and in-memory layouts\<close>

section \<open>Machine integers\<close>

type_synonym u8 = "8 word"
type_synonym u16 = "16 word"
type_synonym u32 = "32 word"

text \<open>
  The two readings of a 32-bit register: \<open>unat\<close> for \<open>uint32_t\<close>,
  \<open>sint\<close> for \<open>int\<close>, \<open>int32_t\<close> and \<open>pid_t\<close>.
\<close>

lemma unat_add_no_wrap:
  "unat (a :: u32) + unat b < 2 ^ 32 \<Longrightarrow> unat (a + b) = unat a + unat b"
  by (simp add: unat_word_ariths)

lemma unat_sub_no_wrap: "b \<le> (a :: u32) \<Longrightarrow> unat (a - b) = unat a - unat b"
  by (simp add: unat_sub_if' word_le_nat_alt)

lemma unat_mult_no_wrap:
  "unat (a :: u32) * unat b < 2 ^ 32 \<Longrightarrow> unat (a * b) = unat a * unat b"
  by (simp add: unat_word_ariths)

lemma unat_u32_less: "unat (w :: u32) < 4294967296"
  using unsigned_less [where w = w and ?'a = nat] by simp

lemma of_nat_u32_inj:
  "x < 4294967296 \<Longrightarrow> y < 4294967296 \<Longrightarrow> (of_nat x :: u32) = of_nat y \<longleftrightarrow> x = y"
  by (auto simp: word_unat_eq_iff unat_of_nat take_bit_nat_eq_self)

lemma ex_ge_Suc: "(\<exists>i. (a :: nat) \<le> i \<and> Q i) \<longleftrightarrow> Q a \<or> (\<exists>i. a + 1 \<le> i \<and> Q i)"
proof -
  have "a \<le> i \<longleftrightarrow> i = a \<or> a + 1 \<le> i" for i by auto
  then show ?thesis by auto
qed

section \<open>Byte memory\<close>

text \<open>
  A memory maps byte addresses to bytes. It is total: an access outside the
  array the C code declares is an access outside the addresses a
  well-formedness predicate admits, not an undefined term.
\<close>

type_synonym mem = "nat \<Rightarrow> u8"

definition ld32 :: "mem \<Rightarrow> nat \<Rightarrow> u32" where
  "ld32 m a = ucast (m a) OR push_bit 8 (ucast (m (a + 1)))
     OR push_bit 16 (ucast (m (a + 2))) OR push_bit 24 (ucast (m (a + 3)))"

definition st32 :: "mem \<Rightarrow> nat \<Rightarrow> u32 \<Rightarrow> mem" where
  "st32 m a v = m(a := ucast v, a + 1 := ucast (drop_bit 8 v),
     a + 2 := ucast (drop_bit 16 v), a + 3 := ucast (drop_bit 24 v))"

definition mem_set :: "mem \<Rightarrow> nat \<Rightarrow> u8 \<Rightarrow> nat \<Rightarrow> mem" where
  "mem_set m a c n = (\<lambda>x. if a \<le> x \<and> x < a + n then c else m x)"

definition mem_put :: "mem \<Rightarrow> nat \<Rightarrow> u8 list \<Rightarrow> mem" where
  "mem_put m a bs = (\<lambda>x. if a \<le> x \<and> x < a + length bs then bs ! (x - a) else m x)"

definition mem_get :: "mem \<Rightarrow> nat \<Rightarrow> nat \<Rightarrow> u8 list" where
  "mem_get m a n = map m [a ..< a + n]"

lemma ld32_st32_same [mem_simps]: "ld32 (st32 m a v) a = v"
proof (rule bit_eqI)
  fix n
  assume "possible_bit TYPE(32 word) n"
  then have "n < 32" by simp
  then consider "n < 8" | "8 \<le> n" "n < 16" | "16 \<le> n" "n < 24" | "24 \<le> n" "n < 32"
    by linarith
  then show "bit (ld32 (st32 m a v) a) n = bit v n"
    by cases (auto simp: ld32_def st32_def bit_simps)
qed

lemma ld32_cong:
  "m a = m' a \<Longrightarrow> m (a + 1) = m' (a + 1) \<Longrightarrow> m (a + 2) = m' (a + 2) \<Longrightarrow>
   m (a + 3) = m' (a + 3) \<Longrightarrow> ld32 m a = ld32 m' a"
  by (simp add: ld32_def)

lemma st32_other_byte [mem_simps]: "x < a \<or> a + 4 \<le> x \<Longrightarrow> st32 m a v x = m x"
  by (auto simp: st32_def)

lemma ld32_st32_apart [mem_simps]:
  "a' + 4 \<le> a \<or> a + 4 \<le> a' \<Longrightarrow> ld32 (st32 m a v) a' = ld32 m a'"
  by (rule ld32_cong; rule st32_other_byte; linarith)

lemma ld32_st32_aligned:
  assumes "4 dvd a" "4 dvd a'" "a \<noteq> a'"
  shows "ld32 (st32 m a v) a' = ld32 m a'"
  using assms by (intro ld32_st32_apart) (auto elim!: dvdE)

lemma mem_set_in [mem_simps]: "a \<le> x \<Longrightarrow> x < a + n \<Longrightarrow> mem_set m a c n x = c"
  by (simp add: mem_set_def)

lemma mem_set_out [mem_simps]: "x < a \<or> a + n \<le> x \<Longrightarrow> mem_set m a c n x = m x"
  by (auto simp: mem_set_def)

lemma ld32_mem_set_apart [mem_simps]:
  "x + 4 \<le> a \<or> a + n \<le> x \<Longrightarrow> ld32 (mem_set m a c n) x = ld32 m x"
  by (rule ld32_cong; rule mem_set_out; linarith)

lemma ld32_mem_set_zero [mem_simps]:
  "a \<le> x \<Longrightarrow> x + 4 \<le> a + n \<Longrightarrow> ld32 (mem_set m a 0 n) x = 0"
  by (simp add: ld32_def mem_set_def)

lemma mem_put_in [mem_simps]: "i < length bs \<Longrightarrow> mem_put m a bs (a + i) = bs ! i"
  by (simp add: mem_put_def)

lemma mem_put_out [mem_simps]: "x < a \<or> a + length bs \<le> x \<Longrightarrow> mem_put m a bs x = m x"
  by (auto simp: mem_put_def)

lemma ld32_mem_put_apart [mem_simps]:
  "x + 4 \<le> a \<or> a + length bs \<le> x \<Longrightarrow> ld32 (mem_put m a bs) x = ld32 m x"
  by (rule ld32_cong; rule mem_put_out; linarith)

lemma length_mem_get [simp]: "length (mem_get m a n) = n"
  by (simp add: mem_get_def)

lemma nth_mem_get [simp]: "i < n \<Longrightarrow> mem_get m a n ! i = m (a + i)"
  by (simp add: mem_get_def)

lemma mem_get_put [mem_simps]: "mem_get (mem_put m a bs) a (length bs) = bs"
  by (rule nth_equalityI) (simp_all add: mem_simps)

lemma mem_get_cong: "(\<And>x. a \<le> x \<Longrightarrow> x < a + n \<Longrightarrow> m x = m' x) \<Longrightarrow> mem_get m a n = mem_get m' a n"
  by (simp add: mem_get_def)

section \<open>C strings\<close>

text \<open>
  \<open>strlen\<close> of a NUL-terminated string at an address, bounded by the size of the
  array that holds it: an unterminated array reads as its whole length.
\<close>

fun cstr :: "u8 list \<Rightarrow> u8 list" where
  "cstr [] = []"
| "cstr (c # cs) = (if c = 0 then [] else c # cstr cs)"

lemma cstr_length_le: "length (cstr cs) \<le> length cs"
  by (induction cs) auto

lemma cstr_append_nul: "0 \<notin> set cs \<Longrightarrow> cstr (cs @ 0 # ds) = cs"
  by (induction cs) auto

lemma cstr_no_nul: "0 \<notin> set (cstr cs)"
  by (induction cs) auto

section \<open>Errors\<close>

text \<open>The negative return values of the Linux modules.\<close>

datatype errno = ENOSPC | EIO | EPERM | EEXIST | ENAMETOOLONG | ENOENT | ENOMEM
  | EFAULT | EINVAL | EDEADLK | EBUSY | ERESTARTSYS | ENOTTY | ENODEV

end
