(* ===== verification/WeensyLib.thy ===== *)
theory WeensyLib
  imports Prelude
begin

text \<open>
  The byte routines of the WeensyOS kernel library (weensyos1/lib.c; weensyos2/lib.c
  is the same file): \<open>memcpy\<close>, \<open>memmove\<close>, \<open>memset\<close>, \<open>strlen\<close> and
  \<open>strnlen\<close>, each as the loop the C code runs over a byte memory.
\<close>

section \<open>memcpy, memmove, memset\<close>

fun memcpy_loop :: "mem \<Rightarrow> nat \<Rightarrow> nat \<Rightarrow> nat \<Rightarrow> mem" where
  "memcpy_loop m d s 0 = m"
| "memcpy_loop m d s (Suc n) = memcpy_loop (m(d := m s)) (Suc d) (Suc s) n"

definition lib_memcpy :: "mem \<Rightarrow> nat \<Rightarrow> nat \<Rightarrow> nat \<Rightarrow> mem" where
  "lib_memcpy m dst src n = memcpy_loop m dst src n"

text \<open>The loop of \<open>memmove\<close> that runs down from the ends of both regions.\<close>

fun memmove_down :: "mem \<Rightarrow> nat \<Rightarrow> nat \<Rightarrow> nat \<Rightarrow> mem" where
  "memmove_down m d s 0 = m"
| "memmove_down m d s (Suc n) = memmove_down (m(d - 1 := m (s - 1))) (d - 1) (s - 1) n"

definition lib_memmove :: "mem \<Rightarrow> nat \<Rightarrow> nat \<Rightarrow> nat \<Rightarrow> mem" where
  "lib_memmove m dst src n =
     (if src < dst \<and> src + n > dst then memmove_down m (dst + n) (src + n) n
      else memcpy_loop m dst src n)"

fun memset_loop :: "mem \<Rightarrow> nat \<Rightarrow> u8 \<Rightarrow> nat \<Rightarrow> mem" where
  "memset_loop m p c 0 = m"
| "memset_loop m p c (Suc n) = memset_loop (m(p := c)) (Suc p) c n"

definition lib_memset :: "mem \<Rightarrow> nat \<Rightarrow> u32 \<Rightarrow> nat \<Rightarrow> mem" where
  "lib_memset m v c n = memset_loop m v (ucast c) n"

lemma memcpy_loop_apply:
  assumes "d \<le> s \<or> s + n \<le> d"
  shows "memcpy_loop m d s n x = (if d \<le> x \<and> x < d + n then m (s + (x - d)) else m x)"
  using assms
proof (induction n arbitrary: m d s)
  case 0
  then show ?case by auto
next
  case (Suc n)
  have "Suc d \<le> Suc s \<or> Suc s + n \<le> Suc d"
    using Suc.prems by linarith
  show ?case
    unfolding memcpy_loop.simps Suc.IH [OF \<open>Suc d \<le> Suc s \<or> Suc s + n \<le> Suc d\<close>]
    using Suc.prems by (auto simp: Suc_diff_Suc not_le le_less)
qed

lemma memmove_down_apply:
  assumes "s < d"
  shows "memmove_down m (d + n) (s + n) n x =
    (if d \<le> x \<and> x < d + n then m (s + (x - d)) else m x)"
proof (induction n arbitrary: m)
  case 0
  then show ?case by auto
next
  case (Suc n)
  have step: "memmove_down m (d + Suc n) (s + Suc n) (Suc n) =
      memmove_down (m(d + n := m (s + n))) (d + n) (s + n) n"
    by simp
  show ?case
    unfolding step Suc.IH using assms by (auto simp: less_Suc_eq)
qed

lemma memset_loop_eq: "memset_loop m p c n = mem_set m p c n"
proof (induction n arbitrary: m p)
  case 0
  show ?case by (rule ext) (auto simp: mem_set_def)
next
  case (Suc n)
  then show ?case by (auto simp: mem_set_def)
qed

lemma mem_put_get_apply:
  "mem_put m d (mem_get m s n) x = (if d \<le> x \<and> x < d + n then m (s + (x - d)) else m x)"
  by (auto simp: mem_put_def)

text \<open>
  Without an overlap that the forward loop would destroy, \<open>memcpy\<close> writes the source
  bytes at the destination and nothing else.
\<close>

lemma lib_memcpy_eq:
  "d \<le> s \<or> s + n \<le> d \<Longrightarrow> lib_memcpy m d s n = mem_put m d (mem_get m s n)"
  by (rule ext) (simp add: lib_memcpy_def memcpy_loop_apply mem_put_get_apply)

lemma lib_memmove_eq: "lib_memmove m d s n = mem_put m d (mem_get m s n)"
proof (rule ext)
  fix x
  show "lib_memmove m d s n x = mem_put m d (mem_get m s n) x"
    by (auto simp: lib_memmove_def memmove_down_apply memcpy_loop_apply mem_put_get_apply)
qed

lemma lib_memset_eq: "lib_memset m v c n = mem_set m v (ucast c) n"
  by (simp add: lib_memset_def memset_loop_eq)

text \<open>
  The copy routine for overlapping regions is right for every pair of regions: after
  \<open>memmove(dst, src, n)\<close> the \<open>n\<close> bytes at \<open>dst\<close> are the bytes that were at
  \<open>src\<close> before the call, and every byte outside the destination is unchanged.
\<close>

theorem memmove_simultaneous_copy:
  "mem_get (lib_memmove m dst src n) dst n = mem_get m src n \<and>
   (\<forall>x. lib_memmove m dst src n x = (if dst \<le> x \<and> x < dst + n then m (src + (x - dst)) else m x))"
proof -
  have "mem_get (mem_put m dst (mem_get m src n)) dst n = mem_get m src n"
    using mem_get_put [of m dst "mem_get m src n"] by simp
  then show ?thesis
    by (simp add: lib_memmove_eq mem_put_get_apply)
qed

section \<open>strlen, strnlen\<close>

text \<open>
  \<open>strlen\<close> scans until a NUL byte; a memory without one makes the loop run for ever,
  which the option type shows.
\<close>

partial_function (option) strlen_loop :: "mem \<Rightarrow> nat \<Rightarrow> nat \<Rightarrow> nat option" where
  "strlen_loop m s n = (if m s = 0 then Some n else strlen_loop m (Suc s) (Suc n))"

definition lib_strlen :: "mem \<Rightarrow> nat \<Rightarrow> nat option" where
  "lib_strlen m s = strlen_loop m s 0"

function strnlen_loop :: "mem \<Rightarrow> nat \<Rightarrow> nat \<Rightarrow> nat \<Rightarrow> nat" where
  "strnlen_loop m s n maxlen =
     (if n < maxlen \<and> m s \<noteq> 0 then strnlen_loop m (Suc s) (Suc n) maxlen else n)"
  by pat_completeness auto
termination
  by (relation "measure (\<lambda>(m, s, n, maxlen). maxlen - n)") auto

declare strnlen_loop.simps [simp del]

text \<open>The C loop tests \<open>n != maxlen\<close>; it starts at 0 and counts up by one.\<close>

definition lib_strnlen :: "mem \<Rightarrow> nat \<Rightarrow> nat \<Rightarrow> nat" where
  "lib_strnlen m s maxlen = strnlen_loop m s 0 maxlen"

lemma strlen_loop_nul:
  "\<forall>i < k. m (s + i) \<noteq> 0 \<Longrightarrow> m (s + k) = 0 \<Longrightarrow> strlen_loop m s n = Some (n + k)"
proof (induction k arbitrary: s n)
  case 0
  then show ?case by (simp add: strlen_loop.simps)
next
  case (Suc k)
  have "m s \<noteq> 0" using Suc.prems(1) [rule_format, of 0] by simp
  moreover have "\<forall>i < k. m (Suc s + i) \<noteq> 0"
  proof (intro allI impI)
    fix i assume "i < k"
    then show "m (Suc s + i) \<noteq> 0" using Suc.prems(1) [rule_format, of "Suc i"] by simp
  qed
  moreover have "m (Suc s + k) = 0" using Suc.prems(2) by simp
  ultimately show ?case
    using Suc.IH [of "Suc s" "Suc n"] by (simp add: strlen_loop.simps [of m s n])
qed

lemma strnlen_loop_le:
  "n \<le> maxlen \<Longrightarrow> n \<le> strnlen_loop m s n maxlen \<and> strnlen_loop m s n maxlen \<le> maxlen"
proof (induction m s n maxlen rule: strnlen_loop.induct)
  case (1 m s n maxlen)
  show ?case
  proof (cases "n < maxlen \<and> m s \<noteq> 0")
    case True
    with 1 show ?thesis by (auto simp: strnlen_loop.simps [of m s n maxlen])
  next
    case False
    with 1 show ?thesis by (auto simp: strnlen_loop.simps [of m s n maxlen])
  qed
qed

lemma strnlen_loop_nul:
  assumes "\<forall>i < k. m (s + i) \<noteq> 0" "m (s + k) = 0" "n \<le> maxlen"
  shows "strnlen_loop m s n maxlen = min maxlen (n + k)"
  using assms
proof (induction k arbitrary: s n)
  case 0
  then show ?case by (simp add: strnlen_loop.simps)
next
  case (Suc k)
  have "m s \<noteq> 0" using Suc.prems(1) [rule_format, of 0] by simp
  have tl: "\<forall>i < k. m (Suc s + i) \<noteq> 0"
  proof (intro allI impI)
    fix i assume "i < k"
    then show "m (Suc s + i) \<noteq> 0" using Suc.prems(1) [rule_format, of "Suc i"] by simp
  qed
  have nul: "m (Suc s + k) = 0" using Suc.prems(2) by simp
  show ?case
  proof (cases "n < maxlen")
    case True
    then have "strnlen_loop m (Suc s) (Suc n) maxlen = min maxlen (Suc n + k)"
      by (intro Suc.IH [OF tl nul]) simp
    with True \<open>m s \<noteq> 0\<close> show ?thesis
      by (simp add: strnlen_loop.simps [of m s n maxlen])
  next
    case False
    with Suc.prems(3) show ?thesis
      by (simp add: strnlen_loop.simps [of m s maxlen maxlen])
  qed
qed

text \<open>
  On a NUL-terminated string of \<open>k\<close> characters \<open>strlen\<close> stops and returns
  \<open>k\<close>, and \<open>strnlen\<close> returns \<open>k\<close> capped at its bound.
\<close>

theorem strlen_strnlen_of_string:
  assumes "\<forall>i < k. m (s + i) \<noteq> 0" and "m (s + k) = 0"
  shows "lib_strlen m s = Some k \<and> lib_strnlen m s maxlen = min maxlen k"
  using strlen_loop_nul [OF assms, of 0] strnlen_loop_nul [OF assms, of 0 maxlen]
  by (simp add: lib_strlen_def lib_strnlen_def)

theorem strlen_strnlen_of_string_witness:
  "lib_strlen ((\<lambda>_. 0)(7 := 104, 8 := 105)) 7 = Some 2
   \<and> lib_strnlen ((\<lambda>_. 0)(7 := 104, 8 := 105)) 7 1 = min 1 2"
proof (rule strlen_strnlen_of_string)
  show "\<forall>i < 2. ((\<lambda>_. 0 :: u8)(7 := 104, 8 := 105)) (7 + i :: nat) \<noteq> 0"
    by (auto simp: less_2_cases_iff)
qed simp

end
