(* ===== verification/WeensyPrint.thy ===== *)
theory WeensyPrint
  imports WeensyLib
begin

text \<open>
  The console printer of the WeensyOS library (\<open>weensyos1/lib.c\<close>, the same in \<open>weensyos2\<close>). The screen is
  its cells from \<open>CONSOLE_BEGIN\<close> on, the cursor the number of a cell. A format and a string argument
  are the bytes up to their nul; the arguments are a list. \<open>None\<close> is undefined behaviour: an argument
  that is missing or of the other kind, and an \<open>int\<close> that overflows.
\<close>

section \<open>Characters\<close>

type_synonym screen = "nat \<Rightarrow> u16"

abbreviation console_cells :: nat where
  "console_cells \<equiv> 80 * 25"

fun blank_row :: "nat \<Rightarrow> u32 \<Rightarrow> nat \<times> screen \<Rightarrow> nat \<times> screen" where
  "blank_row 0 color (cursor, scr) = (cursor, scr)"
| "blank_row (Suc k) color (cursor, scr) = blank_row k color (cursor + 1, scr(cursor := ucast (32 OR color)))"

definition console_putc :: "u8 \<Rightarrow> u32 \<Rightarrow> nat \<times> screen \<Rightarrow> nat \<times> screen" where
  "console_putc c color st =
     (let (cursor, scr) = st; cursor = (if cursor \<ge> console_cells then 0 else cursor) in
      if c = 10 then blank_row (80 - cursor mod 80) color (cursor, scr)
      else (cursor + 1, scr(cursor := ucast (ucast c OR color))))"

definition put_text :: "u8 list \<Rightarrow> u32 \<Rightarrow> nat \<times> screen \<Rightarrow> nat \<times> screen" where
  "put_text cs color st = fold (\<lambda>c. console_putc c color) cs st"

section \<open>Numbers\<close>

definition upper_digits :: "u8 list" where
  "upper_digits = [48, 49, 50, 51, 52, 53, 54, 55, 56, 57, 65, 66, 67, 68, 69, 70]"

definition lower_digits :: "u8 list" where
  "lower_digits = [48, 49, 50, 51, 52, 53, 54, 55, 56, 57, 97, 98, 99, 100, 101, 102]"

text \<open>The loop writes downwards from the nul; the bases are 10 and 16.\<close>

function fill_digits :: "u32 \<Rightarrow> nat \<Rightarrow> u8 list \<Rightarrow> u8 list \<Rightarrow> u8 list" where
  "fill_digits val base digits buf =
     (let buf = digits ! (unat val mod base) # buf; rest = unat val div base in
      if rest = 0 \<or> base < 2 then buf else fill_digits (of_nat rest) base digits buf)"
  by pat_completeness auto
termination
proof (relation "measure (\<lambda>(val, base, digits, buf). unat val)", goal_cases)
  case (2 val base digits buf x xa)
  have less: "unat val div base < unat val" using 2 by (intro div_less_dividend) (auto simp: div_eq_0_iff)
  then have "unat val div base < 2 ^ 32" using unat_u32_less [of val] by simp
  then have "unat (of_nat (unat val div base) :: u32) = unat val div base" unfolding unat_of_nat by (simp add: take_bit_nat_eq_self)
  then show ?case using less 2 by simp
qed simp

declare fill_digits.simps [simp del]

definition fill_numbuf :: "u32 \<Rightarrow> nat \<Rightarrow> u8 list \<Rightarrow> int \<Rightarrow> u8 list" where
  "fill_numbuf val base digits precision = (if precision \<noteq> 0 \<or> val \<noteq> 0 then fill_digits val base digits [] else [])"

section \<open>The parts of a conversion\<close>

datatype printf_arg = IntArg u32 | StrArg "u8 list"

fun next_int :: "printf_arg list \<Rightarrow> (u32 \<times> printf_arg list) option" where
  "next_int (IntArg x # args) = Some (x, args)"
| "next_int args = None"

fun next_str :: "printf_arg list \<Rightarrow> (u8 list \<times> printf_arg list) option" where
  "next_str (StrArg s # args) = Some (s, args)"
| "next_str args = None"

definition flag_chars :: "u8 list" where
  "flag_chars = [35, 48, 45, 32, 43]"

definition FLAG_ZERO :: u32 where "FLAG_ZERO = 2"
definition FLAG_LEFTJUSTIFY :: u32 where "FLAG_LEFTJUSTIFY = 4"
definition FLAG_SPACEPOSITIVE :: u32 where "FLAG_SPACEPOSITIVE = 8"
definition FLAG_PLUSPOSITIVE :: u32 where "FLAG_PLUSPOSITIVE = 16"

fun read_flags :: "u32 \<Rightarrow> u8 list \<Rightarrow> u32 \<times> u8 list" where
  "read_flags flags [] = (flags, [])"
| "read_flags flags (c # cs) =
     (case List.find (\<lambda>i. flag_chars ! i = c) [0 ..< 5] of
        None \<Rightarrow> (flags, c # cs)
      | Some i \<Rightarrow> read_flags (flags OR push_bit i 1) cs)"

definition int_max :: int where "int_max = 2 ^ 31 - 1"

definition is_digit :: "u8 \<Rightarrow> bool" where
  "is_digit c \<longleftrightarrow> 48 \<le> c \<and> c \<le> 57"

text \<open>\<open>10 * n + *format++ - '0'\<close>, evaluated from the left.\<close>

fun read_number :: "int \<Rightarrow> u8 list \<Rightarrow> (int \<times> u8 list) option" where
  "read_number n [] = Some (n, [])"
| "read_number n (c # cs) =
     (if is_digit c then
        if 10 * n + uint c > int_max then None else read_number (10 * n + uint c - 48) cs
      else Some (n, c # cs))"

definition read_width :: "u8 list \<Rightarrow> printf_arg list \<Rightarrow> (int \<times> u8 list \<times> printf_arg list) option" where
  "read_width format args =
     (case format of
        [] \<Rightarrow> Some (-1, [], args)
      | c # cs \<Rightarrow>
          if 49 \<le> c \<and> c \<le> 57 then map_option (\<lambda>(w, r). (w, r, args)) (read_number 0 format)
          else if c = 42 then map_option (\<lambda>(x, args). (sint x, cs, args)) (next_int args)
          else Some (-1, format, args))"

definition read_precision :: "u8 list \<Rightarrow> printf_arg list \<Rightarrow> (int \<times> u8 list \<times> printf_arg list) option" where
  "read_precision format args =
     (case format of
        [] \<Rightarrow> Some (-1, [], args)
      | c # cs \<Rightarrow>
          if c \<noteq> 46 then Some (-1, format, args)
          else
            map_option (\<lambda>(p, r, args). (if p < 0 then 0 else p, r, args))
              (case cs of
                 [] \<Rightarrow> Some (-1, [], args)
               | d # ds \<Rightarrow>
                   if is_digit d then map_option (\<lambda>(p, r). (p, r, args)) (read_number 0 cs)
                   else if d = 42 then map_option (\<lambda>(x, args). (sint x, ds, args)) (next_int args)
                   else Some (-1, cs, args)))"

datatype conversion = Field "u8 list" bool bool | Colour u32

text \<open>
  The main character: the data, whether it is negative and whether it is a number, or a new colour.
  At the end of the format a percent sign is printed and the format ends.
\<close>

definition convert :: "int \<Rightarrow> u8 list \<Rightarrow> printf_arg list \<Rightarrow> (conversion \<times> u8 list \<times> printf_arg list) option" where
  "convert precision format args =
     (case format of
        [] \<Rightarrow> Some (Field [37] False False, [], args)
      | c # cs \<Rightarrow>
          if c = 100 then
            (case next_int args of
               None \<Rightarrow> None
             | Some (x, args) \<Rightarrow>
                 if x = 0x80000000 then None
                 else Some (Field (fill_numbuf (if 0 <s x then x else - x) 10 upper_digits precision) (x <s 0) True, cs, args))
          else if c = 117 then
            map_option (\<lambda>(x, args). (Field (fill_numbuf x 10 upper_digits precision) False True, cs, args)) (next_int args)
          else if c = 120 then
            map_option (\<lambda>(x, args). (Field (fill_numbuf x 16 lower_digits precision) False True, cs, args)) (next_int args)
          else if c = 88 then
            map_option (\<lambda>(x, args). (Field (fill_numbuf x 16 upper_digits precision) False True, cs, args)) (next_int args)
          else if c = 115 then map_option (\<lambda>(s, args). (Field s False False, cs, args)) (next_str args)
          else if c = 67 then map_option (\<lambda>(x, args). (Colour x, cs, args)) (next_int args)
          else if c = 99 then map_option (\<lambda>(x, args). (Field (cstr [ucast x]) False False, cs, args)) (next_int args)
          else Some (Field [c] False False, cs, args))"

section \<open>A field\<close>

definition sign_of :: "u32 \<Rightarrow> bool \<Rightarrow> bool \<Rightarrow> u8 list" where
  "sign_of flags numeric negative =
     (if numeric \<and> negative then [45]
      else if flags AND FLAG_PLUSPOSITIVE \<noteq> 0 then [43]
      else if flags AND FLAG_SPACEPOSITIVE \<noteq> 0 then [32]
      else [])"

definition zeros_of :: "u32 \<Rightarrow> bool \<Rightarrow> int \<Rightarrow> int \<Rightarrow> int \<Rightarrow> int \<Rightarrow> int" where
  "zeros_of flags numeric width precision len sign =
     (if numeric \<and> precision > len then precision - len
      else if flags AND (FLAG_ZERO OR FLAG_LEFTJUSTIFY) = FLAG_ZERO \<and> numeric \<and> precision < 0 \<and> len + sign < width
      then width - len - sign
      else 0)"

text \<open>The characters of a field in the order they are put: blanks, sign, zeros, data, blanks.\<close>

definition field_text :: "u32 \<Rightarrow> int \<Rightarrow> int \<Rightarrow> u8 list \<Rightarrow> bool \<Rightarrow> bool \<Rightarrow> u8 list option" where
  "field_text flags width precision data negative numeric =
     (let len = (if precision \<ge> 0 then min (int (length data)) precision else int (length data));
          sign = sign_of flags numeric negative;
          zeros = zeros_of flags numeric width precision len (int (length sign));
          total = len + zeros + int (length sign);
          left = (flags AND FLAG_LEFTJUSTIFY \<noteq> 0);
          pad = replicate (nat (width - total)) 32
      in if total > int_max \<or> width - total < - int_max - 1 then None
         else Some ((if left then [] else pad) @ sign @ replicate (nat zeros) 48 @ take (nat len) data @ (if left then pad else [])))"

section \<open>The printer\<close>

lemma read_flags_length: "length (snd (read_flags flags cs)) \<le> length cs"
  by (induction flags cs rule: read_flags.induct) (auto split: option.splits)

lemma read_number_length: "read_number n cs = Some (m, r) \<Longrightarrow> length r \<le> length cs"
  by (induction n cs rule: read_number.induct) (auto split: if_splits)

lemma read_width_length: "read_width cs args = Some (w, r, args') \<Longrightarrow> length r \<le> length cs"
  by (auto simp: read_width_def split: list.splits if_splits dest: read_number_length)

lemma read_precision_length: "read_precision cs args = Some (p, r, args') \<Longrightarrow> length r \<le> length cs"
  by (fastforce simp: read_precision_def split: list.splits if_splits dest: read_number_length)

lemma convert_length: "convert p cs args = Some (c, r, args') \<Longrightarrow> length r \<le> length cs"
  by (auto simp: convert_def split: list.splits if_splits option.splits)

text \<open>What stands behind a percent sign: flags, width, precision and the conversion, and the rest of the format.\<close>

definition read_conversion ::
  "u8 list \<Rightarrow> printf_arg list \<Rightarrow> (u32 \<times> int \<times> int \<times> conversion \<times> u8 list \<times> printf_arg list) option" where
  "read_conversion format args =
     (case read_flags 0 format of (flags, f1) \<Rightarrow>
      (case read_width f1 args of
         None \<Rightarrow> None
       | Some (width, f2, args) \<Rightarrow>
      (case read_precision f2 args of
         None \<Rightarrow> None
       | Some (precision, f3, args) \<Rightarrow>
           map_option (\<lambda>(c, f4, args). (flags, width, precision, c, f4, args)) (convert precision f3 args))))"

lemma read_conversion_length:
  assumes "read_conversion format args = Some (flags, width, precision, c, f4, args')"
  shows "length f4 \<le> length format"
proof -
  obtain f1 where f1: "read_flags 0 format = (flags, f1)"
    using assms by (auto simp: read_conversion_def split: prod.splits option.splits)
  then obtain f2 args1 f3 args2 where r: "read_width f1 args = Some (width, f2, args1)"
    "read_precision f2 args1 = Some (precision, f3, args2)" "convert precision f3 args2 = Some (c, f4, args')"
    using assms by (auto simp: read_conversion_def split: prod.splits option.splits)
  show ?thesis
    using read_flags_length [of 0 format] read_width_length [OF r(1)] read_precision_length [OF r(2)] convert_length [OF r(3)] f1
    by simp
qed

function console_vprintf :: "u32 \<Rightarrow> u8 list \<Rightarrow> printf_arg list \<Rightarrow> nat \<times> screen \<Rightarrow> (nat \<times> screen) option" where
  "console_vprintf color [] args st = Some st"
| "console_vprintf color (c # format) args st =
     (if c \<noteq> 37 then console_vprintf color format args (console_putc c color st)
      else
        case read_conversion format args of
          None \<Rightarrow> None
        | Some (flags, width, precision, Colour color, rest, args) \<Rightarrow> console_vprintf color rest args st
        | Some (flags, width, precision, Field data negative numeric, rest, args) \<Rightarrow>
            (case field_text flags width precision data negative numeric of
               None \<Rightarrow> None
             | Some text \<Rightarrow> console_vprintf color rest args (put_text text color st)))"
  by pat_completeness auto
termination
  by (relation "measure (\<lambda>(color, format, args, st). length format)")
    (auto simp: less_Suc_eq_le dest!: read_conversion_length)

declare console_vprintf.simps [simp del]

definition console_printf :: "u32 \<Rightarrow> u8 list \<Rightarrow> printf_arg list \<Rightarrow> nat \<times> screen \<Rightarrow> (nat \<times> screen) option" where
  "console_printf color format args st = console_vprintf color format args st"

section \<open>The printer stays on the screen\<close>

lemma blank_row_eq:
  "blank_row k color (cursor, scr) = (cursor + k, \<lambda>x. if cursor \<le> x \<and> x < cursor + k then ucast (32 OR color) else scr x)"
  by (induction k arbitrary: cursor scr) (auto simp: fun_eq_iff)

definition on_screen :: "screen \<Rightarrow> nat \<times> screen \<Rightarrow> bool" where
  "on_screen scr st \<longleftrightarrow> fst st \<le> console_cells \<and> (\<forall>x \<ge> console_cells. snd st x = scr x)"

lemma putc_on_screen:
  assumes "on_screen scr st"
  shows "on_screen scr (console_putc c color st)"
proof -
  obtain cur scr1 where st: "st = (cur, scr1)" by (cases st)
  define p where "p = (if cur \<ge> 2000 then 0 else cur)"
  have p: "p < 2000" by (simp add: p_def)
  have "p + (80 - p mod 80) \<le> 2000"
  proof -
    have "p mod 80 < 80" "p div 80 < 25" "p = 80 * (p div 80) + p mod 80" using p by (simp_all add: less_mult_imp_div_less)
    then show ?thesis by linarith
  qed
  then show ?thesis
    using assms p by (auto simp: on_screen_def st console_putc_def Let_def p_def [symmetric] blank_row_eq)
qed

lemma put_text_on_screen: "on_screen scr st \<Longrightarrow> on_screen scr (put_text cs color st)"
  unfolding put_text_def by (induction cs arbitrary: st) (simp_all add: putc_on_screen)



section \<open>Numbers as text\<close>

lemma uint_nonneg: "0 \<le> sint (x :: u32) \<Longrightarrow> uint x = sint x"
  using sint_less [of x] by (simp add: uint_sint take_bit_int_eq_self)

lemma uint_minus:
  assumes "sint (x :: u32) \<le> 0" "x \<noteq> 0x80000000"
  shows "uint (- x) = - sint x"
proof -
  have "sint x \<noteq> - (2 ^ 31)"
  proof
    assume "sint x = - (2 ^ 31)"
    then have "of_int (sint x) = (of_int (- (2 ^ 31)) :: u32)" by simp
    then show False using assms(2) by simp
  qed
  moreover have "- (2 ^ 31) \<le> sint x" using sint_greater_eq [of x] by simp
  ultimately have "sint (- x) = - sint x" using assms(1) by (simp add: sint_word_minus signed_take_bit_int_eq_self)
  then show ?thesis using uint_nonneg [of "- x"] assms(1) by simp
qed

text \<open>The decimal digits of a number, the most significant first.\<close>

fun decimal :: "nat \<Rightarrow> u8 list" where
  "decimal n = (if n < 10 then [of_nat (48 + n)] else decimal (n div 10) @ [of_nat (48 + n mod 10)])"

declare decimal.simps [simp del]

lemma upper_digit: "k < 10 \<Longrightarrow> upper_digits ! k = of_nat (48 + k)"
  by (simp add: upper_digits_def numeral_eq_Suc less_Suc_eq) auto

lemma fill_digits_decimal: "fill_digits val 10 upper_digits buf = decimal (unat val) @ buf"
proof (induction "unat val" arbitrary: val buf rule: less_induct)
  case less
  have u: "unat (of_nat (unat val div 10) :: u32) = unat val div 10"
  proof -
    have "unat val div 10 < 2 ^ 32" using unat_u32_less [of val] by simp
    then show ?thesis unfolding unat_of_nat by (simp add: take_bit_nat_eq_self)
  qed
  show ?case
  proof (cases "unat val < 10")
    case True
    then show ?thesis by (simp add: fill_digits.simps [of val] decimal.simps [of "unat val"] upper_digit)
  next
    case False
    then have "fill_digits (of_nat (unat val div 10)) 10 upper_digits (upper_digits ! (unat val mod 10) # buf) =
        decimal (unat val div 10) @ upper_digits ! (unat val mod 10) # buf"
      using less [of "of_nat (unat val div 10)"] u by simp
    then show ?thesis
      using False upper_digit [of "unat val mod 10"]
      by (simp add: fill_digits.simps [of val] decimal.simps [of "unat val"] Let_def div_eq_0_iff)
  qed
qed

lemma decimal_length: "n < 10 ^ Suc k \<Longrightarrow> length (decimal n) \<le> Suc k"
proof (induction k arbitrary: n)
  case (Suc k)
  show ?case
  proof (cases "n < 10")
    case False
    have "n div 10 < 10 ^ Suc k" using Suc.prems by (simp add: less_mult_imp_div_less)
    then show ?thesis using Suc.IH [of "n div 10"] False by (simp add: decimal.simps [of n])
  qed (simp add: decimal.simps)
qed (simp add: decimal.simps)

lemma magnitude:
  assumes "x \<noteq> (0x80000000 :: u32)"
  shows "unat (if 0 <s x then x else - x) = nat \<bar>sint x\<bar>"
proof (cases "0 <s x")
  case True
  then have "0 < sint x" by (simp add: word_sless_alt)
  then show ?thesis using True uint_nonneg [of x] by (simp add: unat_eq_nat_uint)
next
  case False
  then have "sint x \<le> 0" by (simp add: word_sless_alt)
  then show ?thesis using False uint_minus [OF _ assms] by (simp add: unat_eq_nat_uint)
qed

lemma plain_conversion:
  "read_conversion [100] [IntArg x] = map_option (\<lambda>(c, r, args). (0, -1, -1, c, r, args)) (convert (-1) [100] [IntArg x])"
proof -
  have "List.find (\<lambda>i. flag_chars ! i = 100) [0 ..< 5] = None"
    by (simp add: flag_chars_def upt_rec)
  then have "read_flags 0 [100] = (0, [100])" by simp
  then show ?thesis by (simp add: read_conversion_def read_width_def read_precision_def)
qed

text \<open>
  C40: \<open>%d\<close> prints an \<open>int\<close> as the decimal digits of its magnitude, most significant first and with
  no leading zeros, behind a minus sign when it is negative. The smallest \<open>int\<close>, which the code
  negates, is left out.
\<close>

theorem console_printf_decimal:
  assumes "x \<noteq> 0x80000000"
  shows "console_printf color [37, 100] [IntArg x] st =
    Some (put_text ((if sint x < 0 then [45] else []) @ decimal (nat \<bar>sint x\<bar>)) color st)"
proof -
  let ?v = "if 0 <s x then x else - x" and ?n = "nat \<bar>sint x\<bar>"
  have data: "fill_numbuf ?v 10 upper_digits (-1) = decimal ?n"
    using fill_digits_decimal [of ?v "[]"] magnitude [OF assms] by (simp add: fill_numbuf_def)
  have "?n < 10 ^ Suc 9" using unat_u32_less [of ?v] unfolding magnitude [OF assms] by simp
  then have len: "length (decimal ?n) \<le> 10" using decimal_length [of ?n 9] by simp
  have neg: "x <s 0 \<longleftrightarrow> sint x < 0" by (simp add: word_sless_alt)
  have conv: "read_conversion [100] [IntArg x] = Some (0, -1, -1, Field (decimal ?n) (sint x < 0) True, [], [])"
    unfolding plain_conversion using assms data neg by (simp add: convert_def)
  have "field_text 0 (-1) (-1) ds neg True = Some ((if neg then [45] else []) @ ds)" if "length ds \<le> 10" for ds neg
    using that by (simp add: field_text_def Let_def sign_of_def zeros_of_def int_max_def FLAG_ZERO_def FLAG_LEFTJUSTIFY_def
        FLAG_PLUSPOSITIVE_def FLAG_SPACEPOSITIVE_def)
  from this [OF len] show ?thesis by (simp add: console_printf_def console_vprintf.simps conv)
qed

theorem console_printf_decimal_witness:
  "console_printf 0x700 [37, 100] [IntArg (- 5)] (0, \<lambda>_. 0) = Some (put_text [45, 53] 0x700 (0, \<lambda>_. 0))"
  using console_printf_decimal [of "- 5" "0x700" "(0, \<lambda>_. 0)"] by (simp add: decimal.simps)

end
