(* ===== verification/X86.thy ===== *)
theory X86
  imports Prelude
begin

text \<open>
  What the two WeensyOS kernels share: the register block the trap handlers push,
  x86.h, and the process states of mpos-kern.h and schedos-kern.h.
\<close>

section \<open>Registers and process states\<close>

record registers =
  reg_edi :: u32
  reg_esi :: u32
  reg_ebp :: u32
  reg_original_esp :: u32
  reg_ebx :: u32
  reg_edx :: u32
  reg_ecx :: u32
  reg_eax :: u32
  reg_es :: u16
  reg_padding1 :: u16
  reg_ds :: u16
  reg_padding2 :: u16
  reg_intno :: u32
  reg_err :: u32
  reg_eip :: u32
  reg_cs :: u16
  reg_padding3 :: u16
  reg_eflags :: u32
  reg_esp :: u32
  reg_ss :: u16
  reg_padding4 :: u16

definition zero_registers :: registers where
  "zero_registers = \<lparr>reg_edi = 0, reg_esi = 0, reg_ebp = 0, reg_original_esp = 0,
     reg_ebx = 0, reg_edx = 0, reg_ecx = 0, reg_eax = 0, reg_es = 0, reg_padding1 = 0,
     reg_ds = 0, reg_padding2 = 0, reg_intno = 0, reg_err = 0, reg_eip = 0, reg_cs = 0,
     reg_padding3 = 0, reg_eflags = 0, reg_esp = 0, reg_ss = 0, reg_padding4 = 0\<rparr>"

datatype procstate = P_EMPTY | P_RUNNABLE | P_BLOCKED | P_ZOMBIE

text \<open>Registers at a trap: its number, \<open>%eax\<close> and \<open>%esp\<close>, the rest zero.\<close>

definition trap_regs :: "u32 \<Rightarrow> u32 \<Rightarrow> u32 \<Rightarrow> registers" where
  "trap_regs intno eax esp = zero_registers\<lparr>reg_intno := intno, reg_eax := eax, reg_esp := esp\<rparr>"

lemma trap_regs_fields [simp]:
  "reg_intno (trap_regs n a e) = n" "reg_eax (trap_regs n a e) = a" "reg_esp (trap_regs n a e) = e"
  by (simp_all add: trap_regs_def)

end
