(* ===== verification/RoundRobin.thy ===== *)
theory RoundRobin
  imports Prelude
begin

text \<open>
  The contract of a round-robin process scan, which both WeensyOS kernels run in
  their \<open>schedule\<close>: starting after process \<open>pid\<close>, look at the descriptors
  in cyclic order until one is ready. What the client relies on is proved once here:
  the scan returns exactly when some process is ready, and it returns the first ready
  one in cyclic order, so every ready process is reached within one round.
\<close>

locale round_robin =
  fixes n :: nat
    and ready :: "nat \<Rightarrow> bool"
    and scan :: "nat \<Rightarrow> nat option"
  assumes slots: "0 < n"
    and scan_hit: "ready ((pid + 1) mod n) \<Longrightarrow> scan pid = Some ((pid + 1) mod n)"
    and scan_miss: "\<not> ready ((pid + 1) mod n) \<Longrightarrow> scan pid = scan ((pid + 1) mod n)"
    and scan_spins: "\<forall>i < n. \<not> ready i \<Longrightarrow> scan pid = None"
begin

lemma scan_first:
  assumes "ready ((pid + k) mod n)" "0 < k"
    and "\<forall>j. 0 < j \<and> j < k \<longrightarrow> \<not> ready ((pid + j) mod n)"
  shows "scan pid = Some ((pid + k) mod n)"
  using assms
proof (induction k arbitrary: pid)
  case 0
  then show ?case by simp
next
  case (Suc k)
  show ?case
  proof (cases "k = 0")
    case True
    with Suc.prems show ?thesis by (simp add: scan_hit)
  next
    case False
    let ?p = "(pid + 1) mod n"
    have "\<not> ready ?p" using Suc.prems(3) [rule_format, of 1] False by simp
    then have "scan pid = scan ?p" by (rule scan_miss)
    have shift: "(?p + j) mod n = (pid + Suc j) mod n" for j
      by (simp add: mod_add_left_eq)
    have "scan ?p = Some ((?p + k) mod n)"
    proof (rule Suc.IH)
      show "ready ((?p + k) mod n)" using Suc.prems(1) by (simp only: shift)
      show "0 < k" using False by simp
      show "\<forall>j. 0 < j \<and> j < k \<longrightarrow> \<not> ready ((?p + j) mod n)"
        using Suc.prems(3) unfolding shift by (metis Suc_mono zero_less_Suc)
    qed
    with \<open>scan pid = scan ?p\<close> show ?thesis by (simp only: shift)
  qed
qed

lemma ready_within_round:
  assumes "ready i" "i < n"
  obtains k where "0 < k" "k \<le> n" "(pid + k) mod n = i"
proof -
  let ?p = "pid mod n"
  let ?k = "if ?p < i then i - ?p else n + i - ?p"
  have lt: "?p < n" using slots by simp
  have "(pid + ?k) mod n = (?p + ?k) mod n" by (simp add: mod_add_left_eq)
  also have "?p + ?k = (if ?p < i then i else n + i)" using lt by simp
  also have "\<dots> mod n = i" using assms(2) by simp
  finally have eq: "(pid + ?k) mod n = i" .
  have "0 < ?k" "?k \<le> n" using lt assms(2) by (auto simp: not_less trans_less_add1)
  then show thesis using eq by (rule that)
qed

lemma scan_returns:
  assumes "ready i" "i < n"
  shows "\<exists>k. 0 < k \<and> k \<le> n \<and> ready ((pid + k) mod n) \<and>
    (\<forall>j. 0 < j \<and> j < k \<longrightarrow> \<not> ready ((pid + j) mod n)) \<and> scan pid = Some ((pid + k) mod n)"
proof -
  let ?P = "\<lambda>k. 0 < k \<and> ready ((pid + k) mod n)"
  obtain k0 where k0: "0 < k0" "k0 \<le> n" "(pid + k0) mod n = i"
    using ready_within_round [OF assms] .
  with assms have P0: "?P k0" by simp
  let ?k = "LEAST k. ?P k"
  have P: "?P ?k" using P0 by (rule LeastI)
  have le: "?k \<le> n" using Least_le [of ?P, OF P0] k0(2) by simp
  have first: "\<forall>j. 0 < j \<and> j < ?k \<longrightarrow> \<not> ready ((pid + j) mod n)"
    using not_less_Least [of _ ?P] by blast
  with P have "scan pid = Some ((pid + ?k) mod n)" by (intro scan_first) simp_all
  with P le first show ?thesis by blast
qed

lemma scan_spec:
  "scan pid = Some i \<longleftrightarrow>
    (\<exists>k. 0 < k \<and> k \<le> n \<and> i = (pid + k) mod n \<and> ready i \<and>
       (\<forall>j. 0 < j \<and> j < k \<longrightarrow> \<not> ready ((pid + j) mod n)))"
proof
  assume some: "scan pid = Some i"
  then obtain r where "ready r" "r < n" using scan_spins [of pid] by force
  from scan_returns [OF this, of pid] some
  show "\<exists>k. 0 < k \<and> k \<le> n \<and> i = (pid + k) mod n \<and> ready i \<and>
       (\<forall>j. 0 < j \<and> j < k \<longrightarrow> \<not> ready ((pid + j) mod n))"
    by (metis option.inject)
next
  assume "\<exists>k. 0 < k \<and> k \<le> n \<and> i = (pid + k) mod n \<and> ready i \<and>
       (\<forall>j. 0 < j \<and> j < k \<longrightarrow> \<not> ready ((pid + j) mod n))"
  then show "scan pid = Some i" using scan_first by blast
qed

lemma scan_defined_iff: "(\<exists>i. scan pid = Some i) \<longleftrightarrow> (\<exists>i < n. ready i)"
  using scan_returns [of _ pid] scan_spins [of pid] by (metis option.distinct(1))

lemma scan_in_range: "scan pid = Some i \<Longrightarrow> i < n \<and> ready i"
  using slots by (auto simp: scan_spec)

end

end
