(* ===== verification/MposKern.thy ===== *)
theory MposKern
  imports WeensyLib X86 RoundRobin
begin

text \<open>
  The MiniprocOS kernel, weensyos1/mpos-kern.c, with the descriptor types of
  mpos-kern.h and \<open>special_registers_init\<close> and
  \<open>run\<close> of mpos-x86.c. The state is the descriptor table, the index of the
  running process and the byte memory that holds the stacks. A trap takes the
  registers the hardware pushed and ends in \<open>run(p)\<close>, which never returns: the
  model returns the state in which process \<open>current\<close> continues, or \<open>None\<close>
  where the kernel loops for ever.
\<close>

section \<open>Process descriptors\<close>

text \<open>
  \<open>p_pid\<close> and \<open>wait_queue\<close> only ever hold table indices, so they are naturals;
  \<open>p_exit_status\<close> is an \<open>int\<close> that is copied between registers, so it is the
  32-bit pattern.
\<close>

record process =
  p_pid :: nat
  p_registers :: registers
  p_state :: procstate
  p_exit_status :: u32
  wait_queue :: nat

record mpos =
  proc_array :: "process list"
  current :: nat
  memory :: mem

abbreviation NPROCS :: nat where "NPROCS \<equiv> 16"
definition PROC1_STACK_ADDR :: u32 where "PROC1_STACK_ADDR = 0x280000"
definition PROC_STACK_SIZE :: u32 where "PROC_STACK_SIZE = 0x040000"

text \<open>Updates of one descriptor, of its registers and of its \<open>%eax\<close>.\<close>

definition upd_proc :: "nat \<Rightarrow> (process \<Rightarrow> process) \<Rightarrow> mpos \<Rightarrow> mpos" where
  "upd_proc i f k = k\<lparr>proc_array := (proc_array k)[i := f (proc_array k ! i)]\<rparr>"

definition set_eax :: "u32 \<Rightarrow> process \<Rightarrow> process" where
  "set_eax v p = p\<lparr>p_registers := (p_registers p)\<lparr>reg_eax := v\<rparr>\<rparr>"

definition cur_proc :: "mpos \<Rightarrow> process" where
  "cur_proc k = proc_array k ! current k"

section \<open>start\<close>

definition special_registers_init :: registers where
  "special_registers_init = zero_registers\<lparr>reg_cs := 0x18 OR 3, reg_ds := 0x20 OR 3,
     reg_es := 0x20 OR 3, reg_ss := 0x20 OR 3\<rparr>"

definition empty_proc :: "nat \<Rightarrow> process" where
  "empty_proc i = \<lparr>p_pid = i, p_registers = zero_registers, p_state = P_EMPTY,
     p_exit_status = 0, wait_queue = 0\<rparr>"

text \<open>
  The boot state. The program loader's result, the entry point, is an argument; so is
  the memory after the program image has been copied in. The console prompt and its
  digit loop only choose the image.
\<close>

definition mpos_start :: "u32 \<Rightarrow> mem \<Rightarrow> mpos" where
  "mpos_start entry m =
     (let ps = map empty_proc [0 ..< NPROCS];
          first = (ps ! 1)\<lparr>p_registers := special_registers_init
            \<lparr>reg_eip := entry, reg_esp := PROC1_STACK_ADDR + PROC_STACK_SIZE\<rparr>,
            p_state := P_RUNNABLE\<rparr>
      in \<lparr>proc_array = ps[1 := first], current = 1, memory = m\<rparr>)"

section \<open>schedule\<close>

partial_function (option) schedule_loop :: "process list \<Rightarrow> nat \<Rightarrow> nat option" where
  "schedule_loop ps pid =
     (let pid' = (pid + 1) mod NPROCS
      in if p_state (ps ! pid') = P_RUNNABLE then Some pid' else schedule_loop ps pid')"

declare schedule_loop.simps [code]

definition run :: "nat \<Rightarrow> mpos \<Rightarrow> mpos" where
  "run i k = k\<lparr>current := i\<rparr>"

definition schedule :: "mpos \<Rightarrow> mpos option" where
  "schedule k = map_option (\<lambda>i. run i k) (schedule_loop (proc_array k) (p_pid (cur_proc k)))"

section \<open>do_fork, copy_stack, do_newthread\<close>

text \<open>
  The search for an empty descriptor of \<open>do_fork\<close> and \<open>do_newthread\<close>:
  \<open>None\<close> is their \<open>return -1\<close> at \<open>i == 15\<close>.
\<close>

function find_empty :: "process list \<Rightarrow> nat \<Rightarrow> nat option" where
  "find_empty ps i =
     (if i < 16 then
        if p_state (ps ! i) = P_EMPTY then Some i
        else if i = 15 then None
        else find_empty ps (i + 1)
      else Some i)"
  by pat_completeness auto
termination
  by (relation "measure (\<lambda>(ps, i). 16 - i)") auto

declare find_empty.simps [simp del]

definition copy_stack :: "nat \<Rightarrow> nat \<Rightarrow> mpos \<Rightarrow> mpos" where
  "copy_stack dest src k =
     (let sp = proc_array k ! src; dp = proc_array k ! dest;
          src_stack_top = PROC1_STACK_ADDR + of_nat (p_pid sp) * PROC_STACK_SIZE;
          src_stack_bottom = reg_esp (p_registers sp);
          dest_stack_top = PROC1_STACK_ADDR + of_nat (p_pid dp) * PROC_STACK_SIZE;
          dest_stack_bottom = dest_stack_top + src_stack_bottom - src_stack_top;
          k1 = k\<lparr>memory := lib_memcpy (memory k) (unat dest_stack_bottom)
                 (unat src_stack_bottom) (unat (src_stack_top - src_stack_bottom))\<rparr>
      in upd_proc dest
           (\<lambda>p. p\<lparr>p_registers := (p_registers p)\<lparr>reg_esp := dest_stack_bottom\<rparr>\<rparr>) k1)"

definition do_fork :: "nat \<Rightarrow> mpos \<Rightarrow> u32 \<times> mpos" where
  "do_fork parent k =
     (case find_empty (proc_array k) 1 of
        None \<Rightarrow> (- 1, k)
      | Some i \<Rightarrow>
          (let k1 = upd_proc i (\<lambda>p. p\<lparr>p_state := P_RUNNABLE\<rparr>) k;
               k2 = upd_proc i (\<lambda>p. p\<lparr>p_registers := p_registers (proc_array k1 ! parent)\<rparr>) k1;
               k3 = copy_stack i parent k2;
               k4 = upd_proc i (set_eax 0) k3;
               k5 = upd_proc i (\<lambda>p. p\<lparr>wait_queue := 0\<rparr>) k4
           in (of_nat i, k5)))"

definition do_newthread :: "nat \<Rightarrow> u32 \<Rightarrow> mpos \<Rightarrow> u32 \<times> mpos" where
  "do_newthread parent start_func_addr k =
     (case find_empty (proc_array k) 1 of
        None \<Rightarrow> (- 1, k)
      | Some i \<Rightarrow>
          (let k1 = upd_proc i (\<lambda>p. p\<lparr>p_state := P_RUNNABLE\<rparr>) k;
               k2 = upd_proc i (\<lambda>p. p\<lparr>p_registers := p_registers (proc_array k1 ! parent)\<rparr>) k1;
               k3 = upd_proc i (\<lambda>p. p\<lparr>p_registers := (p_registers p)\<lparr>reg_eip := start_func_addr\<rparr>\<rparr>) k2;
               k4 = upd_proc i (set_eax 0) k3;
               k5 = upd_proc i (\<lambda>p. p\<lparr>wait_queue := 0\<rparr>) k4;
               k6 = upd_proc i (\<lambda>p. p\<lparr>p_registers := (p_registers p)
                      \<lparr>reg_esp := PROC1_STACK_ADDR + (of_nat i - 1) * PROC_STACK_SIZE\<rparr>\<rparr>) k5
           in (of_nat i, k6)))"

section \<open>interrupt\<close>

text \<open>Waking the process in \<open>wait_queue\<close> of a descriptor with a result in its \<open>%eax\<close>.\<close>

definition wake :: "nat \<Rightarrow> u32 \<Rightarrow> mpos \<Rightarrow> mpos" where
  "wake q v k = upd_proc q (set_eax v) (upd_proc q (\<lambda>p. p\<lparr>p_state := P_RUNNABLE\<rparr>) k)"

definition sys_exit :: "mpos \<Rightarrow> mpos option" where
  "sys_exit k =
     (let c = current k;
          k1 = upd_proc c (\<lambda>p. p\<lparr>p_state := P_ZOMBIE\<rparr>) k;
          k2 = upd_proc c (\<lambda>p. p\<lparr>p_exit_status := reg_eax (p_registers p)\<rparr>) k1;
          q = wait_queue (cur_proc k2);
          k3 = (if q \<noteq> 0 then wake q (p_exit_status (cur_proc k2)) k2 else k2)
      in schedule k3)"

text \<open>
  A process number passed in \<open>%eax\<close> is out of range, the caller itself or an empty
  descriptor: the error test that \<open>sys_kill\<close> and \<open>sys_wait\<close> share.
\<close>

definition bad_target :: "int \<Rightarrow> mpos \<Rightarrow> bool" where
  "bad_target p k \<longleftrightarrow> p \<le> 0 \<or> p \<ge> int NPROCS \<or> p = int (p_pid (cur_proc k))
     \<or> p_state (proc_array k ! nat p) = P_EMPTY"

definition sys_kill :: "mpos \<Rightarrow> mpos option" where
  "sys_kill k =
     (let c = current k;
          p = sint (reg_eax (p_registers (cur_proc k)));
          v = nat p
      in Some (run c
        (if bad_target p k then upd_proc c (set_eax (- 1)) k
         else if p_state (proc_array k ! v) = P_ZOMBIE then
           (let k1 = upd_proc c (set_eax 0) k;
                k2 = upd_proc v (\<lambda>x. x\<lparr>p_exit_status := 0\<rparr>) k1;
                q = wait_queue (proc_array k2 ! v)
            in if q \<noteq> 0
               then upd_proc v (\<lambda>x. x\<lparr>p_state := P_EMPTY\<rparr>) (wake q 0 k2)
               else k2)
         else
           (let k1 = upd_proc v (\<lambda>x. x\<lparr>p_state := P_EMPTY\<rparr>) k;
                k2 = upd_proc v (\<lambda>x. x\<lparr>p_exit_status := - 1\<rparr>) k1;
                k3 = upd_proc c (set_eax 0) k2;
                q = wait_queue (proc_array k3 ! v)
            in if q \<noteq> 0
               then upd_proc v (\<lambda>x. x\<lparr>p_state := P_EMPTY\<rparr>) (wake q 0 k3)
               else k3))))"

definition sys_wait :: "mpos \<Rightarrow> mpos option" where
  "sys_wait k =
     (let c = current k;
          p = sint (reg_eax (p_registers (cur_proc k)));
          v = nat p
      in schedule
        (if bad_target p k then upd_proc c (set_eax (- 1)) k
         else if p_state (proc_array k ! v) = P_ZOMBIE then
           upd_proc v (\<lambda>x. x\<lparr>p_state := P_EMPTY\<rparr>)
             (upd_proc c (set_eax (p_exit_status (proc_array k ! v))) k)
         else
           upd_proc v (\<lambda>x. x\<lparr>wait_queue := p_pid (proc_array k ! c)\<rparr>)
             (upd_proc c (\<lambda>x. x\<lparr>p_state := P_BLOCKED\<rparr>) k)))"

definition interrupt :: "registers \<Rightarrow> mpos \<Rightarrow> mpos option" where
  "interrupt reg k0 =
     (let c = current k0;
          k = upd_proc c (\<lambda>p. p\<lparr>p_registers := reg\<rparr>) k0;
          intno = reg_intno reg
      in if intno = 48 then
           Some (run c (upd_proc c (set_eax (of_nat (p_pid (cur_proc k)))) k))
         else if intno = 49 then
           (let (r, k1) = do_fork c k in Some (run c (upd_proc c (set_eax r) k1)))
         else if intno = 54 then
           (let (r, k1) = do_newthread c (reg_eax (p_registers (cur_proc k))) k
            in Some (run c (upd_proc c (set_eax r) k1)))
         else if intno = 50 then schedule k
         else if intno = 51 then sys_exit k
         else if intno = 53 then sys_kill k
         else if intno = 52 then sys_wait k
         else None)"

section \<open>Library: descriptor updates\<close>

named_theorems upd_simps \<open>reads of the kernel state over descriptor updates\<close>

lemma upd_proc_fields [simp]:
  "current (upd_proc i f k) = current k"
  "memory (upd_proc i f k) = memory k"
  "length (proc_array (upd_proc i f k)) = length (proc_array k)"
  by (simp_all add: upd_proc_def)

lemma nth_upd_proc [upd_simps]:
  "j < length (proc_array k) \<Longrightarrow> proc_array (upd_proc i f k) ! j =
     (if i = j then f (proc_array k ! j) else proc_array k ! j)"
  by (auto simp: upd_proc_def)

lemma set_eax_fields [simp]:
  "p_pid (set_eax v p) = p_pid p"
  "p_state (set_eax v p) = p_state p"
  "p_exit_status (set_eax v p) = p_exit_status p"
  "wait_queue (set_eax v p) = wait_queue p"
  "p_registers (set_eax v p) = (p_registers p)\<lparr>reg_eax := v\<rparr>"
  by (simp_all add: set_eax_def)

lemma run_fields [simp]:
  "proc_array (run i k) = proc_array k" "current (run i k) = i" "memory (run i k) = memory k"
  by (simp_all add: run_def)

lemma wake_fields [simp]:
  "current (wake q v k) = current k" "memory (wake q v k) = memory k"
  "length (proc_array (wake q v k)) = length (proc_array k)"
  by (simp_all add: wake_def)

lemma nth_wake [upd_simps]:
  "j < length (proc_array k) \<Longrightarrow> proc_array (wake q v k) ! j =
     (if q = j then set_eax v ((proc_array k ! j)\<lparr>p_state := P_RUNNABLE\<rparr>) else proc_array k ! j)"
  by (simp add: wake_def nth_upd_proc)

section \<open>The invariant of the descriptor table\<close>

text \<open>
  Descriptor \<open>i\<close> has process number \<open>i\<close>, every \<open>wait_queue\<close> is a table
  index, and descriptor 0 stays empty, since 0 in \<open>wait_queue\<close> means nobody waits.
\<close>

definition table_ok :: "mpos \<Rightarrow> bool" where
  "table_ok k \<longleftrightarrow> length (proc_array k) = NPROCS
     \<and> (\<forall>i < NPROCS. p_pid (proc_array k ! i) = i \<and> wait_queue (proc_array k ! i) < NPROCS)
     \<and> p_state (proc_array k ! 0) = P_EMPTY"

definition mpos_ok :: "mpos \<Rightarrow> bool" where
  "mpos_ok k \<longleftrightarrow> table_ok k \<and> 0 < current k \<and> current k < NPROCS
     \<and> p_state (cur_proc k) = P_RUNNABLE"

lemma table_okD:
  assumes "table_ok k"
  shows "length (proc_array k) = NPROCS"
    and "i < NPROCS \<Longrightarrow> p_pid (proc_array k ! i) = i"
    and "i < NPROCS \<Longrightarrow> wait_queue (proc_array k ! i) < NPROCS"
    and "p_state (proc_array k ! 0) = P_EMPTY"
  using assms by (auto simp: table_ok_def)

lemma table_ok_upd_proc:
  assumes "table_ok k"
    and "\<And>p. p_pid (f p) = p_pid p"
    and "\<And>p. wait_queue p < NPROCS \<Longrightarrow> wait_queue (f p) < NPROCS"
    and "p_state (proc_array k ! 0) = P_EMPTY \<Longrightarrow> i = 0 \<Longrightarrow>
      p_state (f (proc_array k ! 0)) = P_EMPTY"
  shows "table_ok (upd_proc i f k)"
  using assms by (auto simp: table_ok_def nth_upd_proc)

lemma table_ok_wake: "table_ok k \<Longrightarrow> q \<noteq> 0 \<Longrightarrow> table_ok (wake q v k)"
  unfolding wake_def by (intro table_ok_upd_proc) auto

lemma table_ok_memory [simp]: "table_ok (k\<lparr>memory := m\<rparr>) = table_ok k"
  by (simp add: table_ok_def)

lemma table_ok_run [simp]: "table_ok (run i k) = table_ok k"
  by (simp add: table_ok_def)

section \<open>The scheduler meets the round-robin contract\<close>

lemma schedule_loop_sound:
  "schedule_loop ps pid = Some i \<Longrightarrow> i < NPROCS \<and> p_state (ps ! i) = P_RUNNABLE"
proof (rule schedule_loop.raw_induct [where P = "\<lambda>ps pid i. i < NPROCS \<and> p_state (ps ! i) = P_RUNNABLE"])
  fix f ps pid i
  assume IH: "\<And>ps pid i. f ps pid = Some i \<Longrightarrow> i < NPROCS \<and> p_state (ps ! i) = P_RUNNABLE"
    and eq: "(let pid' = (pid + 1) mod NPROCS
        in if p_state (ps ! pid') = P_RUNNABLE then Some pid' else f ps pid') = Some i"
  show "i < NPROCS \<and> p_state (ps ! i) = P_RUNNABLE"
    using eq IH by (auto simp: Let_def split: if_splits)
qed

interpretation mpos_rr: round_robin NPROCS "\<lambda>i. p_state (ps ! i) = P_RUNNABLE" "schedule_loop ps"
  for ps
proof
  show "schedule_loop ps pid = None" if "\<forall>i < NPROCS. p_state (ps ! i) \<noteq> P_RUNNABLE" for pid
    using schedule_loop_sound [of ps pid] that by (cases "schedule_loop ps pid") auto
  show "schedule_loop ps pid = Some ((pid + 1) mod NPROCS)"
    if "p_state (ps ! ((pid + 1) mod NPROCS)) = P_RUNNABLE" for pid
    using that by (subst schedule_loop.simps) (simp add: Let_def)
  show "schedule_loop ps pid = schedule_loop ps ((pid + 1) mod NPROCS)"
    if "p_state (ps ! ((pid + 1) mod NPROCS)) \<noteq> P_RUNNABLE" for pid
    using that by (subst schedule_loop.simps) (simp add: Let_def)
qed simp

lemma schedule_ok:
  assumes "table_ok k" "schedule k = Some k'"
  shows "mpos_ok k'"
proof -
  obtain i where i: "schedule_loop (proc_array k) (p_pid (cur_proc k)) = Some i" "k' = run i k"
    using assms(2) by (auto simp: schedule_def)
  have "i < NPROCS" "p_state (proc_array k ! i) = P_RUNNABLE"
    using mpos_rr.scan_in_range [OF i(1)] by auto
  moreover have "i \<noteq> 0"
    using calculation(2) table_okD(4) [OF assms(1)] by (metis procstate.distinct(1))
  ultimately show ?thesis
    using assms(1) i(2) by (simp add: mpos_ok_def cur_proc_def)
qed

lemma schedule_returns:
  assumes "p_state (proc_array k ! i) = P_RUNNABLE" "i < NPROCS"
  shows "\<exists>j. schedule k = Some (run j k)"
  using mpos_rr.scan_returns [where ps = "proc_array k", OF assms, of "p_pid (cur_proc k)"]
  by (auto simp: schedule_def)

section \<open>Concrete tables\<close>

text \<open>
  A table given by the states and waiters of its descriptors, with process 1 running:
  the concrete inputs at which the theorems below are applied.
\<close>

definition demo :: "(nat \<Rightarrow> procstate) \<Rightarrow> (nat \<Rightarrow> nat) \<Rightarrow> mpos" where
  "demo st wq = \<lparr>proc_array = map (\<lambda>i. (empty_proc i)\<lparr>p_state := st i, wait_queue := wq i\<rparr>)
     [0 ..< NPROCS], current = 1, memory = (\<lambda>_. 0)\<rparr>"

lemma demo_fields [simp]:
  "length (proc_array (demo st wq)) = NPROCS" "current (demo st wq) = 1"
  by (simp_all add: demo_def)

lemma nth_demo:
  "i < NPROCS \<Longrightarrow> proc_array (demo st wq) ! i = (empty_proc i)\<lparr>p_state := st i, wait_queue := wq i\<rparr>"
  by (simp add: demo_def nth_map [of i "[0 ..< NPROCS]"] del: upt_rec_numeral)

lemma demo_ok:
  "st 0 = P_EMPTY \<Longrightarrow> st 1 = P_RUNNABLE \<Longrightarrow> \<forall>i < NPROCS. wq i < NPROCS \<Longrightarrow> mpos_ok (demo st wq)"
  by (simp add: mpos_ok_def table_ok_def nth_demo cur_proc_def empty_proc_def)

text \<open>
  C30: \<open>schedule\<close> is round robin: it switches to the first runnable process after
  the current one in cyclic order of the table (the current process last), without
  changing the table or the memory, and it loops for ever exactly when no process is
  runnable.
\<close>

theorem mpos_schedule_round_robin:
  assumes "table_ok k" and "current k < NPROCS"
  shows "(schedule k = Some k' \<longleftrightarrow>
      (\<exists>d. 0 < d \<and> d \<le> NPROCS \<and> k' = run ((current k + d) mod NPROCS) k
         \<and> p_state (proc_array k ! ((current k + d) mod NPROCS)) = P_RUNNABLE
         \<and> (\<forall>j. 0 < j \<and> j < d \<longrightarrow>
              p_state (proc_array k ! ((current k + j) mod NPROCS)) \<noteq> P_RUNNABLE)))
    \<and> (schedule k = None \<longleftrightarrow> (\<forall>i < NPROCS. p_state (proc_array k ! i) \<noteq> P_RUNNABLE))"
proof -
  have pid: "p_pid (cur_proc k) = current k"
    using assms by (simp add: cur_proc_def table_ok_def)
  have "schedule k = Some k' \<longleftrightarrow>
      (\<exists>i. schedule_loop (proc_array k) (current k) = Some i \<and> k' = run i k)"
    by (auto simp: schedule_def pid)
  also have "\<dots> \<longleftrightarrow> (\<exists>d. 0 < d \<and> d \<le> NPROCS \<and> k' = run ((current k + d) mod NPROCS) k
         \<and> p_state (proc_array k ! ((current k + d) mod NPROCS)) = P_RUNNABLE
         \<and> (\<forall>j. 0 < j \<and> j < d \<longrightarrow>
              p_state (proc_array k ! ((current k + j) mod NPROCS)) \<noteq> P_RUNNABLE))"
    unfolding mpos_rr.scan_spec by (rule iffI; elim exE conjE; hypsubst?; intro exI conjI; assumption?; rule refl)
  finally have some: "schedule k = Some k' \<longleftrightarrow> \<dots>" .
  have "schedule k = None \<longleftrightarrow> \<not> (\<exists>i. schedule_loop (proc_array k) (current k) = Some i)"
    by (auto simp: schedule_def pid)
  also have "\<dots> \<longleftrightarrow> (\<forall>i < NPROCS. p_state (proc_array k ! i) \<noteq> P_RUNNABLE)"
    by (simp add: mpos_rr.scan_defined_iff)
  finally have "schedule k = None \<longleftrightarrow> (\<forall>i < NPROCS. p_state (proc_array k ! i) \<noteq> P_RUNNABLE)" .
  with some show ?thesis by (rule conjI)
qed

theorem mpos_schedule_round_robin_witness:
  "schedule (demo (\<lambda>i. if i = 1 \<or> i = 3 then P_RUNNABLE else P_EMPTY) (\<lambda>_. 0)) \<noteq> None"
proof -
  let ?k = "demo (\<lambda>i. if i = 1 \<or> i = 3 then P_RUNNABLE else P_EMPTY) (\<lambda>_. 0)"
  have "mpos_ok ?k" by (rule demo_ok) simp_all
  then have "table_ok ?k" "current ?k < NPROCS" by (simp_all add: mpos_ok_def)
  note rr = mpos_schedule_round_robin [OF this, of undefined]
  have "p_state (proc_array ?k ! 3) = P_RUNNABLE" by (simp add: nth_demo)
  then have "\<not> (\<forall>i < NPROCS. p_state (proc_array ?k ! i) \<noteq> P_RUNNABLE)"
    by (intro notI) (drule spec [of _ 3], simp)
  with rr show ?thesis by blast
qed

section \<open>The search for an empty descriptor\<close>

lemma find_empty_Some:
  "find_empty ps i = Some j \<Longrightarrow> i < 16 \<Longrightarrow>
   i \<le> j \<and> j < 16 \<and> p_state (ps ! j) = P_EMPTY \<and> (\<forall>l. i \<le> l \<and> l < j \<longrightarrow> p_state (ps ! l) \<noteq> P_EMPTY)"
proof (induction ps i rule: find_empty.induct)
  case (1 ps i)
  show ?case
  proof (cases "p_state (ps ! i) = P_EMPTY")
    case True
    with "1.prems" show ?thesis by (auto simp: find_empty.simps [of ps i])
  next
    case False
    with "1.prems" have "i \<noteq> 15" "find_empty ps (i + 1) = Some j"
      by (auto simp: find_empty.simps [of ps i] split: if_splits)
    with "1.prems" have IH: "i + 1 \<le> j \<and> j < 16 \<and> p_state (ps ! j) = P_EMPTY
        \<and> (\<forall>l. i + 1 \<le> l \<and> l < j \<longrightarrow> p_state (ps ! l) \<noteq> P_EMPTY)"
      by (intro "1.IH") (use False in simp_all)
    have "p_state (ps ! l) \<noteq> P_EMPTY" if "i \<le> l \<and> l < j" for l
      using IH False that by (cases "l = i") auto
    with IH show ?thesis by auto
  qed
qed

lemma find_empty_None:
  "find_empty ps i = None \<Longrightarrow> i \<le> l \<Longrightarrow> l < 16 \<Longrightarrow> p_state (ps ! l) \<noteq> P_EMPTY"
proof (induction ps i rule: find_empty.induct)
  case (1 ps i)
  from "1.prems" have ne: "p_state (ps ! i) \<noteq> P_EMPTY" "i < 16"
    by (auto simp: find_empty.simps [of ps i] split: if_splits)
  show ?case
  proof (cases "l = i")
    case True
    with ne show ?thesis by simp
  next
    case False
    with "1.prems" have "i \<noteq> 15" by simp
    with ne "1.prems" have "find_empty ps (i + 1) = None"
      by (auto simp: find_empty.simps [of ps i] split: if_splits)
    then show ?thesis using "1.IH" ne \<open>i \<noteq> 15\<close> "1.prems" False by simp
  qed
qed

section \<open>Every trap keeps the invariant\<close>

lemma table_ok_copy_stack: "table_ok k \<Longrightarrow> table_ok (copy_stack d s k)"
  unfolding copy_stack_def Let_def by (intro table_ok_upd_proc) auto

lemma copy_stack_fields [simp]:
  "current (copy_stack d s k) = current k"
  "length (proc_array (copy_stack d s k)) = length (proc_array k)"
  by (simp_all add: copy_stack_def Let_def)

lemma copy_stack_state:
  "j < length (proc_array k) \<Longrightarrow>
   p_state (proc_array (copy_stack d s k) ! j) = p_state (proc_array k ! j)"
  by (simp add: copy_stack_def Let_def nth_upd_proc)

lemma do_fork_ok:
  assumes "table_ok k" "do_fork c k = (r, k')"
  shows "table_ok k' \<and> current k' = current k \<and>
    (\<forall>j < NPROCS. p_state (proc_array k ! j) \<noteq> P_EMPTY \<longrightarrow>
       p_state (proc_array k' ! j) = p_state (proc_array k ! j))"
proof (cases "find_empty (proc_array k) 1")
  case None
  with assms show ?thesis by (auto simp: do_fork_def)
next
  case (Some i)
  note slot = find_empty_Some [OF Some]
  have nz: "i \<noteq> 0" using slot by simp
  have "table_ok k'"
    using assms Some nz unfolding do_fork_def Let_def
    by (auto intro!: table_ok_upd_proc table_ok_copy_stack)
  with assms Some nz slot show ?thesis
    by (auto simp: do_fork_def Let_def nth_upd_proc copy_stack_state table_okD)
qed

lemma do_newthread_ok:
  assumes "table_ok k" "do_newthread c f k = (r, k')"
  shows "table_ok k' \<and> current k' = current k \<and>
    (\<forall>j < NPROCS. p_state (proc_array k ! j) \<noteq> P_EMPTY \<longrightarrow>
       p_state (proc_array k' ! j) = p_state (proc_array k ! j))"
proof (cases "find_empty (proc_array k) 1")
  case None
  with assms show ?thesis by (auto simp: do_newthread_def)
next
  case (Some i)
  note slot = find_empty_Some [OF Some]
  have nz: "i \<noteq> 0" using slot by simp
  have "table_ok k'"
    using assms Some nz unfolding do_newthread_def Let_def
    by (auto intro!: table_ok_upd_proc)
  with assms Some nz slot show ?thesis
    by (auto simp: do_newthread_def Let_def nth_upd_proc table_okD)
qed

lemma sys_exit_ok:
  assumes "mpos_ok k" "sys_exit k = Some k'"
  shows "mpos_ok k'"
proof -
  have "table_ok k" "0 < current k" using assms(1) by (auto simp: mpos_ok_def)
  then show ?thesis
    using assms(2) unfolding sys_exit_def Let_def
    by (elim schedule_ok [rotated]) (auto intro!: table_ok_wake table_ok_upd_proc)
qed

lemma sys_wait_ok:
  assumes "mpos_ok k" "sys_wait k = Some k'"
  shows "mpos_ok k'"
proof -
  have ok: "table_ok k" "0 < current k" "current k < NPROCS"
    using assms(1) by (auto simp: mpos_ok_def)
  moreover have "p_pid (proc_array k ! current k) < NPROCS"
    using ok by (simp add: table_okD)
  ultimately show ?thesis
    using assms(2) unfolding sys_wait_def Let_def
    by (elim schedule_ok [rotated]) (auto simp: bad_target_def intro!: table_ok_upd_proc)
qed

lemma mpos_ok_run_current:
  "table_ok k' \<Longrightarrow> 0 < c \<Longrightarrow> c < NPROCS \<Longrightarrow> p_state (proc_array k' ! c) = P_RUNNABLE \<Longrightarrow>
   mpos_ok (run c k')"
  by (simp add: mpos_ok_def cur_proc_def)

lemma sys_kill_ok:
  assumes "mpos_ok k" "sys_kill k = Some k'"
  shows "mpos_ok k'"
proof -
  let ?c = "current k" and ?v = "nat (sint (reg_eax (p_registers (cur_proc k))))"
  have ok: "table_ok k" "0 < ?c" "?c < NPROCS" "p_state (proc_array k ! ?c) = P_RUNNABLE"
      "length (proc_array k) = NPROCS"
    using assms(1) by (auto simp: mpos_ok_def cur_proc_def table_okD)
  have diff: "\<not> bad_target (sint (reg_eax (p_registers (cur_proc k)))) k \<Longrightarrow> ?v \<noteq> ?c \<and> ?v < NPROCS \<and> 0 < ?v"
    using ok by (auto simp: bad_target_def cur_proc_def table_okD)
  show ?thesis
    using assms(2) diff unfolding sys_kill_def Let_def
    by (auto intro!: mpos_ok_run_current table_ok_wake table_ok_upd_proc
        simp: ok nth_upd_proc nth_wake split: if_splits)
qed

lemma interrupt_ok:
  assumes "mpos_ok k" "interrupt reg k = Some k'"
  shows "mpos_ok k'"
proof -
  let ?c = "current k"
  let ?k = "upd_proc ?c (\<lambda>p. p\<lparr>p_registers := reg\<rparr>) k"
  have ok: "table_ok k" "0 < ?c" "?c < NPROCS" "p_state (proc_array k ! ?c) = P_RUNNABLE"
      "length (proc_array k) = NPROCS"
    using assms(1) by (auto simp: mpos_ok_def cur_proc_def table_okD)
  have t: "table_ok ?k" using ok by (intro table_ok_upd_proc) auto
  have m: "mpos_ok ?k" using ok t by (simp add: mpos_ok_def cur_proc_def nth_upd_proc)
  have st: "p_state (proc_array ?k ! ?c) = P_RUNNABLE" using ok by (simp add: nth_upd_proc)
  have ret: "mpos_ok (run ?c (upd_proc ?c (set_eax v) k2))"
    if "table_ok k2" "p_state (proc_array k2 ! ?c) = P_RUNNABLE" for v k2
    using that ok by (intro mpos_ok_run_current table_ok_upd_proc) (auto simp: nth_upd_proc table_okD)
  have frk: "mpos_ok (run ?c (upd_proc ?c (set_eax r) k2))" if "do_fork ?c ?k = (r, k2)" for r k2
    using do_fork_ok [OF t that] st ok by (intro ret) auto
  have thr: "mpos_ok (run ?c (upd_proc ?c (set_eax r) k2))"
    if "do_newthread ?c f ?k = (r, k2)" for f r k2
    using do_newthread_ok [OF t that] st ok by (intro ret) auto
  show ?thesis
    using assms(2) m t st unfolding interrupt_def Let_def
    by (auto split: if_splits prod.splits
        intro: ret frk thr schedule_ok sys_exit_ok sys_kill_ok sys_wait_ok)
qed

text \<open>
  The states the kernel can be in when a process runs: after boot, after the process has
  written memory, after a trap. (MiniprocOS has no memory protection; a process is
  assumed not to write the kernel's descriptor table.)
\<close>

inductive mpos_reachable :: "mpos \<Rightarrow> bool" where
  boot: "mpos_reachable (mpos_start entry m)"
| user_write: "mpos_reachable k \<Longrightarrow> mpos_reachable (k\<lparr>memory := m\<rparr>)"
| trap: "mpos_reachable k \<Longrightarrow> interrupt reg k = Some k' \<Longrightarrow> mpos_reachable k'"

lemma mpos_start_ok: "mpos_ok (mpos_start entry m)"
proof -
  have len: "length (map empty_proc [0 ..< NPROCS]) = NPROCS" by simp
  have nth: "i < NPROCS \<Longrightarrow> map empty_proc [0 ..< NPROCS] ! i = empty_proc i" for i
    by (simp add: nth_map [of i "[0 ..< NPROCS]"] del: upt_rec_numeral)
  show ?thesis
    unfolding mpos_start_def Let_def mpos_ok_def table_ok_def cur_proc_def
    using len nth by (auto simp: nth_list_update empty_proc_def simp del: upt_rec_numeral list.map)
qed



section \<open>Stacks\<close>

text \<open>
  The memory map of the kernel's opening comment: the stack of process \<open>p\<close> grows
  down from \<open>stack_top p\<close> and has 256 KB.
\<close>

definition stack_top :: "nat \<Rightarrow> nat" where
  "stack_top p = 0x280000 + p * 0x40000"

definition in_stack :: "nat \<Rightarrow> nat \<Rightarrow> bool" where
  "in_stack p a \<longleftrightarrow> stack_top p \<le> a + 0x40000 \<and> a \<le> stack_top p"

lemma stack_top_word:
  assumes "p < NPROCS"
  shows "unat (PROC1_STACK_ADDR + of_nat p * PROC_STACK_SIZE) = stack_top p"
proof -
  have p: "unat (of_nat p :: u32) = p" using assms by (simp add: unat_of_nat take_bit_nat_eq_self)
  have m: "unat (of_nat p * PROC_STACK_SIZE :: u32) = p * 0x40000"
    using assms p by (subst unat_mult_no_wrap) (simp_all add: PROC_STACK_SIZE_def)
  show ?thesis
    using assms m by (subst unat_add_no_wrap) (simp_all add: PROC1_STACK_ADDR_def stack_top_def)
qed

lemma in_stack_word_diff:
  assumes "p < NPROCS" "in_stack p (unat e)"
  shows "unat (PROC1_STACK_ADDR + of_nat p * PROC_STACK_SIZE - e) = stack_top p - unat e"
  using assms by (subst unat_sub_no_wrap) (auto simp: word_le_nat_alt stack_top_word in_stack_def)

lemma child_stack_word:
  assumes "p < NPROCS" "q < NPROCS" "in_stack p (unat e)"
  shows "unat (PROC1_STACK_ADDR + of_nat q * PROC_STACK_SIZE + e -
      (PROC1_STACK_ADDR + of_nat p * PROC_STACK_SIZE)) = stack_top q - (stack_top p - unat e)"
proof -
  let ?q = "PROC1_STACK_ADDR + of_nat q * PROC_STACK_SIZE"
  let ?p = "PROC1_STACK_ADDR + of_nat p * PROC_STACK_SIZE"
  have "?q + e - ?p = ?q - (?p - e)" by simp
  moreover have "?p - e \<le> ?q"
  proof -
    have "stack_top p - unat e \<le> 0x40000" "0x40000 \<le> stack_top q"
      using assms(3) by (auto simp: in_stack_def stack_top_def)
    then show ?thesis
      using assms by (simp add: word_le_nat_alt in_stack_word_diff stack_top_word)
  qed
  ultimately show ?thesis
    by (simp only: unat_sub_no_wrap in_stack_word_diff [OF assms(1,3)] stack_top_word [OF assms(2)])
qed

section \<open>What the system calls do\<close>

lemma find_empty_least:
  assumes "0 < i" "i < 16" "p_state (ps ! i) = P_EMPTY"
    and "\<forall>l. 0 < l \<and> l < i \<longrightarrow> p_state (ps ! l) \<noteq> P_EMPTY"
  shows "find_empty ps 1 = Some i"
proof (cases "find_empty ps 1")
  case None
  with find_empty_None [OF None, of i] assms show ?thesis by simp
next
  case (Some j)
  with find_empty_Some [OF Some] assms show ?thesis
    by (cases i j rule: linorder_cases) force+
qed

lemma copy_stack_effect:
  assumes ok: "table_ok k" and bounds: "s < NPROCS" "d < NPROCS" "d \<noteq> s"
    and esp: "in_stack s (unat (reg_esp (p_registers (proc_array k ! s))))"
  defines "top_s \<equiv> PROC1_STACK_ADDR + of_nat s * PROC_STACK_SIZE"
    and "top_d \<equiv> PROC1_STACK_ADDR + of_nat d * PROC_STACK_SIZE"
    and "e \<equiv> reg_esp (p_registers (proc_array k ! s))"
  shows "copy_stack d s k = upd_proc d
      (\<lambda>p. p\<lparr>p_registers := (p_registers p)\<lparr>reg_esp := top_d + e - top_s\<rparr>\<rparr>)
      (k\<lparr>memory := mem_put (memory k) (stack_top d - (stack_top s - unat e))
           (mem_get (memory k) (unat e) (stack_top s - unat e))\<rparr>)"
proof -
  have pids: "p_pid (proc_array k ! s) = s" "p_pid (proc_array k ! d) = d"
    using ok bounds by (auto simp: table_okD)
  have "in_stack s (unat e)" using esp by (simp add: e_def)
  note w = in_stack_word_diff [OF bounds(1) this] child_stack_word [OF bounds(1,2) this]
  have "stack_top d - (stack_top s - unat e) \<le> unat e \<or>
      unat e + (stack_top s - unat e) \<le> stack_top d - (stack_top s - unat e)"
    using bounds(3) \<open>in_stack s (unat e)\<close>
    by (cases d s rule: linorder_cases) (auto simp: in_stack_def stack_top_def)
  note cp = lib_memcpy_eq [OF this]
  show ?thesis
    unfolding copy_stack_def Let_def pids e_def [symmetric] top_s_def [symmetric] top_d_def [symmetric]
      w [folded top_s_def top_d_def] cp by simp
qed

text \<open>
  C29: \<open>sys_fork\<close> with a free descriptor and a stack pointer inside the caller's stack:
  the child gets the lowest free descriptor, is runnable, waits for nobody and has the
  parent's registers except \<open>%eax = 0\<close> and a stack pointer as deep in its own stack as
  the parent's; its stack holds a copy of the parent's live stack and no other byte of
  memory changes; the parent continues with the child's number in \<open>%eax\<close>; every other
  descriptor is unchanged.
\<close>

theorem mpos_fork_copies_parent:
  assumes "mpos_ok k" and "reg_intno reg = 49"
    and "in_stack (current k) (unat (reg_esp reg))"
    and slot: "0 < i" "i < NPROCS" "p_state (proc_array k ! i) = P_EMPTY"
      "\<forall>l. 0 < l \<and> l < i \<longrightarrow> p_state (proc_array k ! l) \<noteq> P_EMPTY"
  shows "\<exists>k' e'. interrupt reg k = Some k' \<and> current k' = current k
    \<and> proc_array k' ! current k = (cur_proc k)\<lparr>p_registers := reg\<lparr>reg_eax := of_nat i\<rparr>\<rparr>
    \<and> proc_array k' ! i = (proc_array k ! i)\<lparr>p_registers := reg\<lparr>reg_eax := 0, reg_esp := e'\<rparr>,
         p_state := P_RUNNABLE, wait_queue := 0\<rparr>
    \<and> unat e' = stack_top i - (stack_top (current k) - unat (reg_esp reg))
    \<and> (\<forall>j < NPROCS. j \<noteq> i \<and> j \<noteq> current k \<longrightarrow> proc_array k' ! j = proc_array k ! j)
    \<and> memory k' = mem_put (memory k) (unat e')
         (mem_get (memory k) (unat (reg_esp reg)) (stack_top (current k) - unat (reg_esp reg)))"
proof -
  let ?c = "current k" and ?top = "\<lambda>p. PROC1_STACK_ADDR + of_nat p * PROC_STACK_SIZE"
  let ?k = "upd_proc ?c (\<lambda>p. p\<lparr>p_registers := reg\<rparr>) k"
  let ?e = "?top i + reg_esp reg - ?top ?c"
  let ?k1 = "upd_proc i (\<lambda>p. p\<lparr>p_state := P_RUNNABLE\<rparr>) ?k"
  let ?k2 = "upd_proc i (\<lambda>p. p\<lparr>p_registers := p_registers (proc_array ?k1 ! ?c)\<rparr>) ?k1"
  have ok: "table_ok k" "0 < ?c" "?c < NPROCS" "length (proc_array k) = NPROCS"
    using assms(1) by (auto simp: mpos_ok_def table_okD)
  have ne: "i \<noteq> ?c" using assms(1) slot(3) by (auto simp: mpos_ok_def cur_proc_def)
  have fe: "find_empty (proc_array ?k) 1 = Some i"
    using slot ok ne by (intro find_empty_least) (auto simp: nth_upd_proc)
  have t2: "table_ok ?k2" using ok slot(1) by (intro table_ok_upd_proc) auto
  have r2: "p_registers (proc_array ?k2 ! ?c) = reg"
    using ok ne by (simp add: nth_upd_proc)
  have "in_stack ?c (unat (reg_esp (p_registers (proc_array ?k2 ! ?c))))"
    unfolding r2 by (rule assms(3))
  note cs = copy_stack_effect [OF t2 ok(3) slot(2) ne this, unfolded r2]
  have e: "unat ?e = stack_top i - (stack_top ?c - unat (reg_esp reg))"
    by (rule child_stack_word [OF ok(3) slot(2) assms(3)])
  let ?k3 = "upd_proc i (\<lambda>p. p\<lparr>p_registers := (p_registers p)\<lparr>reg_esp := ?e\<rparr>\<rparr>)
      (?k2\<lparr>memory := mem_put (memory k) (unat ?e)
           (mem_get (memory k) (unat (reg_esp reg)) (stack_top ?c - unat (reg_esp reg)))\<rparr>)"
  let ?k5 = "upd_proc i (\<lambda>p. p\<lparr>wait_queue := 0\<rparr>) (upd_proc i (set_eax 0) ?k3)"
  let ?k6 = "run ?c (upd_proc ?c (set_eax (of_nat i)) ?k5)"
  have "do_fork ?c ?k = (of_nat i, ?k5)"
    by (simp only: do_fork_def fe option.case Let_def cs e upd_proc_fields)
  then have "interrupt reg k = Some ?k6"
    by (simp add: interrupt_def Let_def assms(2))
  moreover have "proc_array ?k6 ! ?c = (cur_proc k)\<lparr>p_registers := reg\<lparr>reg_eax := of_nat i\<rparr>\<rparr>"
    using ok ne slot(2) by (simp add: nth_upd_proc cur_proc_def set_eax_def)
  moreover have "proc_array ?k6 ! i = (proc_array k ! i)
      \<lparr>p_registers := reg\<lparr>reg_eax := 0, reg_esp := ?e\<rparr>, p_state := P_RUNNABLE, wait_queue := 0\<rparr>"
    using ok ne slot(2) by (simp add: nth_upd_proc set_eax_def)
  moreover have "\<forall>j < NPROCS. j \<noteq> i \<and> j \<noteq> ?c \<longrightarrow> proc_array ?k6 ! j = proc_array k ! j"
    using ok by (simp add: nth_upd_proc)
  ultimately show ?thesis
    using e by (intro exI [of _ ?k6] exI [of _ ?e]) simp
qed

theorem mpos_fork_copies_parent_witness:
  "\<exists>k'. interrupt (trap_regs 49 7 0x2BFFF0)
      (demo (\<lambda>i. if i = 1 then P_RUNNABLE else P_EMPTY) (\<lambda>_. 0)) = Some k'
    \<and> p_state (proc_array k' ! 2) = P_RUNNABLE \<and> reg_eax (p_registers (proc_array k' ! 2)) = 0
    \<and> unat (reg_esp (p_registers (proc_array k' ! 2))) = 0x2FFFF0"
proof -
  let ?k = "demo (\<lambda>i. if i = 1 then P_RUNNABLE else P_EMPTY) (\<lambda>_. 0)"
  let ?r = "trap_regs 49 7 0x2BFFF0"
  have ok: "mpos_ok ?k" by (rule demo_ok) simp_all
  have a: "reg_intno ?r = 49" by simp
  have b: "in_stack (current ?k) (unat (reg_esp ?r))" by (simp add: in_stack_def stack_top_def)
  have c: "(0::nat) < 2" "(2::nat) < NPROCS" "p_state (proc_array ?k ! 2) = P_EMPTY"
    by (simp_all add: nth_demo)
  have d: "\<forall>l. 0 < l \<and> l < 2 \<longrightarrow> p_state (proc_array ?k ! l) \<noteq> P_EMPTY"
    by (auto simp: nth_demo less_2_cases_iff)
  from mpos_fork_copies_parent [OF ok a b c d] show ?thesis
    by (auto simp: stack_top_def)
qed

text \<open>
  When every descriptor from 1 to 15 is in use, \<open>sys_fork\<close> returns -1 to the
  caller and changes nothing else, so the process table can fill up but not overflow.
\<close>

theorem mpos_fork_full:
  assumes "mpos_ok k" and "reg_intno reg = 49"
    and "\<forall>i < NPROCS. 0 < i \<longrightarrow> p_state (proc_array k ! i) \<noteq> P_EMPTY"
  shows "interrupt reg k = Some (upd_proc (current k) (\<lambda>p. p\<lparr>p_registers := reg\<lparr>reg_eax := - 1\<rparr>\<rparr>) k)"
proof -
  let ?k = "upd_proc (current k) (\<lambda>p. p\<lparr>p_registers := reg\<rparr>) k"
  have len: "length (proc_array k) = NPROCS" "current k < NPROCS"
    using assms(1) by (auto simp: mpos_ok_def table_okD)
  have "find_empty (proc_array ?k) 1 = None"
  proof (cases "find_empty (proc_array ?k) 1")
    case (Some i)
    from find_empty_Some [OF Some] assms(3) len show ?thesis
      by (auto simp: nth_upd_proc split: if_splits)
  qed simp
  then show ?thesis
    using len by (simp add: interrupt_def do_fork_def assms(2) run_def upd_proc_def set_eax_def Let_def)
qed

theorem mpos_fork_full_witness:
  "\<exists>k'. interrupt (trap_regs 49 7 0x2BFFF0)
      (demo (\<lambda>i. if i = 0 then P_EMPTY else P_RUNNABLE) (\<lambda>_. 0)) = Some k'
    \<and> reg_eax (p_registers (proc_array k' ! 1)) = - 1"
proof -
  let ?k = "demo (\<lambda>i. if i = 0 then P_EMPTY else P_RUNNABLE) (\<lambda>_. 0)"
  have ok: "mpos_ok ?k" by (rule demo_ok) simp_all
  have a: "reg_intno (trap_regs 49 7 0x2BFFF0) = 49" by simp
  have b: "\<forall>i < NPROCS. 0 < i \<longrightarrow> p_state (proc_array ?k ! i) \<noteq> P_EMPTY" by (simp add: nth_demo)
  show ?thesis by (simp add: mpos_fork_full [OF ok a b] nth_upd_proc)
qed

text \<open>
  The \<open>sys_wait\<close> / \<open>sys_exit\<close> handshake. When the running process exits with status
  \<open>s\<close> while process \<open>q\<close> is recorded in its \<open>wait_queue\<close>, the kernel never
  hangs: \<open>q\<close> becomes runnable with \<open>s\<close> as the result of its \<open>sys_wait\<close>, the
  exiting process becomes a zombie that keeps \<open>s\<close>, no other descriptor changes.
\<close>

theorem mpos_exit_wakes_waiter:
  assumes "mpos_ok k" and "reg_intno reg = 51"
    and "wait_queue (cur_proc k) = q" and "0 < q" and "q \<noteq> current k"
  shows "\<exists>k'. interrupt reg k = Some k'
    \<and> p_state (proc_array k' ! q) = P_RUNNABLE
    \<and> reg_eax (p_registers (proc_array k' ! q)) = reg_eax reg
    \<and> p_state (proc_array k' ! current k) = P_ZOMBIE
    \<and> p_exit_status (proc_array k' ! current k) = reg_eax reg
    \<and> (\<forall>j < NPROCS. j \<noteq> q \<and> j \<noteq> current k \<longrightarrow> proc_array k' ! j = proc_array k ! j)"
proof -
  let ?c = "current k"
  let ?k1 = "upd_proc ?c (\<lambda>p. p\<lparr>p_state := P_ZOMBIE\<rparr>) (upd_proc ?c (\<lambda>p. p\<lparr>p_registers := reg\<rparr>) k)"
  let ?k2 = "upd_proc ?c (\<lambda>p. p\<lparr>p_exit_status := reg_eax (p_registers p)\<rparr>) ?k1"
  let ?k3 = "wake q (reg_eax reg) ?k2"
  have ok: "?c < NPROCS" "length (proc_array k) = NPROCS" "q < NPROCS"
    using assms(1,3) by (auto simp: mpos_ok_def table_okD cur_proc_def)
  have wq: "wait_queue (cur_proc ?k2) = q" "p_exit_status (cur_proc ?k2) = reg_eax reg"
    using ok assms(3) by (auto simp: cur_proc_def nth_upd_proc)
  have "p_state (proc_array ?k3 ! q) = P_RUNNABLE"
    using ok by (simp add: nth_wake)
  then obtain j where j: "schedule ?k3 = Some (run j ?k3)"
    using schedule_returns [of ?k3 q] ok by auto
  have "interrupt reg k = schedule ?k3"
    using assms(4) by (simp add: interrupt_def assms(2) Let_def sys_exit_def wq [simplified])
  with j have "interrupt reg k = Some (run j ?k3)" by simp
  then show ?thesis
    using ok assms(4,5) by (intro exI [of _ "run j ?k3"]) (simp add: nth_wake nth_upd_proc)
qed

theorem mpos_exit_wakes_waiter_witness:
  "\<exists>k'. interrupt (trap_regs 51 42 0)
      (demo (\<lambda>i. if i = 1 then P_RUNNABLE else if i = 2 then P_BLOCKED else P_EMPTY)
         (\<lambda>i. if i = 1 then 2 else 0)) = Some k'
    \<and> p_state (proc_array k' ! 2) = P_RUNNABLE \<and> reg_eax (p_registers (proc_array k' ! 2)) = 42
    \<and> p_state (proc_array k' ! 1) = P_ZOMBIE"
proof -
  let ?k = "demo (\<lambda>i. if i = 1 then P_RUNNABLE else if i = 2 then P_BLOCKED else P_EMPTY)
         (\<lambda>i. if i = 1 then 2 else 0)"
  have ok: "mpos_ok ?k" by (rule demo_ok) simp_all
  have a: "reg_intno (trap_regs 51 42 0) = 51" by simp
  have b: "wait_queue (cur_proc ?k) = 2" "(0::nat) < 2" "2 \<noteq> current ?k"
    by (simp_all add: cur_proc_def nth_demo)
  from mpos_exit_wakes_waiter [OF ok a b] show ?thesis by auto
qed

text \<open>
  \<open>sys_wait\<close> on a process that has exited: the caller gets the exit status, the
  waited-for descriptor becomes empty and so can be used again, no other descriptor
  changes, and the kernel does not hang.
\<close>

theorem mpos_wait_reaps_zombie:
  assumes "mpos_ok k" and "reg_intno reg = 52"
    and "sint (reg_eax reg) = int v" and "0 < v" and "v < NPROCS"
    and "p_state (proc_array k ! v) = P_ZOMBIE"
  shows "\<exists>j. interrupt reg k = Some (run j
     (upd_proc v (\<lambda>p. p\<lparr>p_state := P_EMPTY\<rparr>)
       (upd_proc (current k)
          (\<lambda>p. p\<lparr>p_registers := reg\<lparr>reg_eax := p_exit_status (proc_array k ! v)\<rparr>\<rparr>) k)))"
proof -
  let ?c = "current k"
  let ?k = "upd_proc ?c (\<lambda>p. p\<lparr>p_registers := reg\<rparr>) k"
  have ok: "?c < NPROCS" "length (proc_array k) = NPROCS" "p_pid (proc_array k ! ?c) = ?c"
      "p_state (proc_array k ! ?c) = P_RUNNABLE"
    using assms(1) by (auto simp: mpos_ok_def table_okD cur_proc_def)
  then have ne: "v \<noteq> ?c" using assms(6) by auto
  have eax: "reg_eax (p_registers (cur_proc ?k)) = reg_eax reg"
    using ok by (simp add: cur_proc_def nth_upd_proc)
  have good: "\<not> bad_target (int v) ?k"
    using assms(4-6) ok ne by (simp add: bad_target_def cur_proc_def nth_upd_proc)
  let ?s = "p_exit_status (proc_array k ! v)"
  have same: "upd_proc ?c (set_eax ?s) ?k = upd_proc ?c (\<lambda>p. p\<lparr>p_registers := reg\<lparr>reg_eax := ?s\<rparr>\<rparr>) k"
    using ok by (simp add: upd_proc_def set_eax_def)
  let ?k2 = "upd_proc v (\<lambda>p. p\<lparr>p_state := P_EMPTY\<rparr>) (upd_proc ?c (set_eax ?s) ?k)"
  have "interrupt reg k = schedule ?k2"
    using ok ne assms(5,6) good
    by (simp add: interrupt_def assms(2) Let_def sys_wait_def eax [simplified] assms(3) nth_upd_proc)
  moreover have "\<exists>j. schedule ?k2 = Some (run j ?k2)"
    using ok ne by (intro schedule_returns [of _ ?c]) (simp_all add: nth_upd_proc)
  ultimately show ?thesis by (simp only: same)
qed

theorem mpos_wait_reaps_zombie_witness:
  "\<exists>k'. interrupt (trap_regs 52 2 0)
      (demo (\<lambda>i. if i = 1 then P_RUNNABLE else if i = 2 then P_ZOMBIE else P_EMPTY) (\<lambda>_. 0)) = Some k'
    \<and> p_state (proc_array k' ! 2) = P_EMPTY"
proof -
  let ?k = "demo (\<lambda>i. if i = 1 then P_RUNNABLE else if i = 2 then P_ZOMBIE else P_EMPTY) (\<lambda>_. 0)"
  have ok: "mpos_ok ?k" by (rule demo_ok) simp_all
  have a: "reg_intno (trap_regs 52 2 0) = 52" "sint (reg_eax (trap_regs 52 2 0)) = int 2" by simp_all
  have b: "(0::nat) < 2" "(2::nat) < NPROCS" "p_state (proc_array ?k ! 2) = P_ZOMBIE"
    by (simp_all add: nth_demo)
  from mpos_wait_reaps_zombie [OF ok a b] show ?thesis by (auto simp: nth_upd_proc)
qed

text \<open>
  \<open>sys_newthread\<close> puts the new thread's stack pointer at the top of the stack of the
  process before it in the table: the four bytes its first push writes lie inside
  the stack of process \<open>i - 1\<close>, not inside its own.
\<close>

theorem mpos_newthread_stack_of_neighbour:
  assumes "mpos_ok k" and "reg_intno reg = 54"
    and slot: "1 < i" "i < NPROCS" "p_state (proc_array k ! i) = P_EMPTY"
      "\<forall>l. 0 < l \<and> l < i \<longrightarrow> p_state (proc_array k ! l) \<noteq> P_EMPTY"
  shows "\<exists>k' e. interrupt reg k = Some k'
    \<and> proc_array k' ! i = (proc_array k ! i)\<lparr>p_registers :=
         reg\<lparr>reg_eip := reg_eax reg, reg_eax := 0, reg_esp := e\<rparr>,
         p_state := P_RUNNABLE, wait_queue := 0\<rparr>
    \<and> unat e = stack_top (i - 1) \<and> (\<forall>b \<in> {unat e - 4 ..< unat e}. in_stack (i - 1) b)
    \<and> (\<forall>b \<in> {unat e - 4 ..< unat e}. \<not> in_stack i b)"
proof -
  let ?c = "current k"
  let ?k = "upd_proc ?c (\<lambda>p. p\<lparr>p_registers := reg\<rparr>) k"
  let ?e = "PROC1_STACK_ADDR + (of_nat i - 1) * PROC_STACK_SIZE"
  have ok: "table_ok k" "0 < ?c" "?c < NPROCS" "length (proc_array k) = NPROCS"
    using assms(1) by (auto simp: mpos_ok_def table_okD)
  have ne: "i \<noteq> ?c" using assms(1) slot(3) by (auto simp: mpos_ok_def cur_proc_def)
  have fe: "find_empty (proc_array ?k) 1 = Some i"
    using slot ok ne by (intro find_empty_least) (auto simp: nth_upd_proc)
  have "(of_nat i :: u32) - 1 = of_nat (i - 1)" using slot(1) by (simp add: of_nat_diff)
  then have e: "unat ?e = stack_top (i - 1)"
    using slot(2) by (simp only: stack_top_word)
  have eax: "reg_eax (p_registers (cur_proc ?k)) = reg_eax reg"
    using ok by (simp add: cur_proc_def nth_upd_proc)
  obtain k' where k': "interrupt reg k = Some k'" and
      child: "proc_array k' ! i = (proc_array k ! i)\<lparr>p_registers :=
         reg\<lparr>reg_eip := reg_eax reg, reg_eax := 0, reg_esp := ?e\<rparr>,
         p_state := P_RUNNABLE, wait_queue := 0\<rparr>"
    using ok ne slot(2)
    by (simp add: interrupt_def assms(2) Let_def do_newthread_def fe [simplified] eax [simplified]
        nth_upd_proc set_eax_def)
  show ?thesis
    using k' child e slot(1)
    by (intro exI [of _ k'] exI [of _ ?e]) (auto simp: stack_top_def in_stack_def)
qed

theorem mpos_newthread_stack_of_neighbour_witness:
  "\<exists>k'. interrupt (trap_regs 54 0x201000 0x2BFFF0)
      (demo (\<lambda>i. if i = 1 then P_RUNNABLE else P_EMPTY) (\<lambda>_. 0)) = Some k'
    \<and> unat (reg_esp (p_registers (proc_array k' ! 2))) = stack_top 1"
proof -
  let ?k = "demo (\<lambda>i. if i = 1 then P_RUNNABLE else P_EMPTY) (\<lambda>_. 0)"
  have ok: "mpos_ok ?k" by (rule demo_ok) simp_all
  have a: "reg_intno (trap_regs 54 0x201000 0x2BFFF0) = 54" by simp
  have c: "(1::nat) < 2" "(2::nat) < NPROCS" "p_state (proc_array ?k ! 2) = P_EMPTY"
    by (simp_all add: nth_demo)
  have d: "\<forall>l. 0 < l \<and> l < 2 \<longrightarrow> p_state (proc_array ?k ! l) \<noteq> P_EMPTY"
    by (auto simp: nth_demo less_2_cases_iff)
  from mpos_newthread_stack_of_neighbour [OF ok a c d] show ?thesis by auto
qed

end
