(* ===== verification/MposTable.thy ===== *)
theory MposTable
  imports MposKern
begin

text \<open>
  What the MiniprocOS kernel promises about the process table, without registers, stacks
  and memory: an abstract table holds the state and the waiter of every slot and the slot
  that runs, and one abstract step per system call. The kernel of \<open>MposKern\<close>
  refines it, so facts about the life of processes can be computed on the abstract table.
\<close>

section \<open>The abstract table\<close>

record ptab =
  states :: "procstate list"
  waits :: "nat list"
  running :: nat

definition next_runnable :: "procstate list \<Rightarrow> nat \<Rightarrow> nat option" where
  "next_runnable st pid =
     find (\<lambda>i. st ! i = P_RUNNABLE) (map (\<lambda>d. (pid + d) mod NPROCS) [1 ..< NPROCS + 1])"

definition free_slot :: "procstate list \<Rightarrow> nat option" where
  "free_slot st = find (\<lambda>i. st ! i = P_EMPTY) [1 ..< NPROCS]"

definition tab_schedule :: "ptab \<Rightarrow> ptab option" where
  "tab_schedule t = map_option (\<lambda>i. t\<lparr>running := i\<rparr>) (next_runnable (states t) (running t))"

definition tab_spawn :: "ptab \<Rightarrow> ptab" where
  "tab_spawn t = (case free_slot (states t) of None \<Rightarrow> t
     | Some i \<Rightarrow> t\<lparr>states := (states t)[i := P_RUNNABLE], waits := (waits t)[i := 0]\<rparr>)"

definition tab_wake :: "nat \<Rightarrow> ptab \<Rightarrow> ptab" where
  "tab_wake q t = (if q = 0 then t else t\<lparr>states := (states t)[q := P_RUNNABLE]\<rparr>)"

definition tab_bad :: "int \<Rightarrow> ptab \<Rightarrow> bool" where
  "tab_bad p t \<longleftrightarrow> p \<le> 0 \<or> p \<ge> int NPROCS \<or> p = int (running t) \<or> states t ! nat p = P_EMPTY"

definition tab_exit :: "ptab \<Rightarrow> ptab option" where
  "tab_exit t = tab_schedule (tab_wake (waits t ! running t)
     (t\<lparr>states := (states t)[running t := P_ZOMBIE]\<rparr>))"

definition tab_kill :: "int \<Rightarrow> ptab \<Rightarrow> ptab" where
  "tab_kill p t =
     (if tab_bad p t then t
      else let v = nat p; q = waits t ! v; gone = (\<lambda>t. t\<lparr>states := (states t)[v := P_EMPTY]\<rparr>) in
        if states t ! v = P_ZOMBIE
        then (if q = 0 then t else gone (tab_wake q t))
        else gone (tab_wake q (gone t)))"

definition tab_wait :: "int \<Rightarrow> ptab \<Rightarrow> ptab option" where
  "tab_wait p t = tab_schedule
     (if tab_bad p t then t
      else if states t ! nat p = P_ZOMBIE then t\<lparr>states := (states t)[nat p := P_EMPTY]\<rparr>
      else t\<lparr>states := (states t)[running t := P_BLOCKED], waits := (waits t)[nat p := running t]\<rparr>)"

definition tab_step :: "u32 \<Rightarrow> int \<Rightarrow> ptab \<Rightarrow> ptab option" where
  "tab_step intno arg t =
     (if intno = 48 then Some t
      else if intno = 49 \<or> intno = 54 then Some (tab_spawn t)
      else if intno = 50 then tab_schedule t
      else if intno = 51 then tab_exit t
      else if intno = 53 then Some (tab_kill arg t)
      else if intno = 52 then tab_wait arg t
      else None)"

definition tab_of :: "mpos \<Rightarrow> ptab" where
  "tab_of k = \<lparr>states = map p_state (proc_array k), waits = map wait_queue (proc_array k),
     running = current k\<rparr>"

section \<open>The scans agree\<close>

lemma find_first:
  assumes "P (xs ! i)" "i < length xs" "\<forall>j < i. \<not> P (xs ! j)"
  shows "find P xs = Some (xs ! i)"
  using assms by (auto simp: find_Some_iff)

lemma next_runnable_eq:
  assumes "length ps = NPROCS" "pid < NPROCS"
  shows "next_runnable (map p_state ps) pid = schedule_loop ps pid"
proof (cases "schedule_loop ps pid")
  case None
  then have "\<forall>i < NPROCS. p_state (ps ! i) \<noteq> P_RUNNABLE"
    using mpos_rr.scan_defined_iff [of ps pid] by auto
  then show ?thesis
    using assms None by (auto simp: next_runnable_def find_None_iff simp del: upt_Suc upt_rec_numeral)
next
  case (Some i)
  then obtain d where d: "0 < d" "d \<le> NPROCS" "i = (pid + d) mod NPROCS" "p_state (ps ! i) = P_RUNNABLE"
      "\<forall>j. 0 < j \<and> j < d \<longrightarrow> p_state (ps ! ((pid + j) mod NPROCS)) \<noteq> P_RUNNABLE"
    unfolding mpos_rr.scan_spec by blast
  let ?xs = "map (\<lambda>d. (pid + d) mod NPROCS) [1 ..< NPROCS + 1]"
  have nth: "j < NPROCS \<Longrightarrow> ?xs ! j = (pid + Suc j) mod NPROCS" for j
    by (simp add: nth_map [of j "[1 ..< NPROCS + 1]"] del: upt_Suc upt_rec_numeral)
  have "next_runnable (map p_state ps) pid = Some (?xs ! (d - 1))"
    unfolding next_runnable_def
  proof (rule find_first)
    show "map p_state ps ! (?xs ! (d - 1)) = P_RUNNABLE"
      using d nth [of "d - 1"] assms by simp
    show "\<forall>j < d - 1. map p_state ps ! (?xs ! j) \<noteq> P_RUNNABLE"
      using d nth assms by simp
    show "d - 1 < length ?xs" using d by simp
  qed
  then show ?thesis using Some d nth [of "d - 1"] by simp
qed

lemma free_slot_eq:
  assumes "length ps = NPROCS"
  shows "free_slot (map p_state ps) = find_empty ps 1"
proof (cases "find_empty ps 1")
  case None
  then show ?thesis
    using assms find_empty_None [OF None]
    by (auto simp: free_slot_def find_None_iff simp del: upt_rec_numeral)
next
  case (Some i)
  note slot = find_empty_Some [OF Some]
  have nth: "j < 15 \<Longrightarrow> [1 ..< NPROCS] ! j = Suc j" for j
    by (simp add: nth_upt del: upt_rec_numeral)
  have "free_slot (map p_state ps) = Some ([1 ..< NPROCS] ! (i - 1))"
    unfolding free_slot_def
    by (rule find_first) (use slot nth assms in \<open>auto simp del: upt_rec_numeral\<close>)
  then show ?thesis using Some slot nth [of "i - 1"] by simp
qed

section \<open>Refinement\<close>

lemma tab_of_fields [simp]:
  "states (tab_of k) = map p_state (proc_array k)"
  "waits (tab_of k) = map wait_queue (proc_array k)"
  "running (tab_of k) = current k"
  by (simp_all add: tab_of_def)

lemma tab_of_upd_state [simp]:
  "tab_of (upd_proc i (\<lambda>p. p\<lparr>p_state := s\<rparr>) k)
     = (tab_of k)\<lparr>states := (states (tab_of k))[i := s]\<rparr>"
  by (cases "i < length (proc_array k)")
    (simp_all add: tab_of_def upd_proc_def map_update list_update_same_conv list_update_beyond)

lemma tab_of_upd_wait [simp]:
  "tab_of (upd_proc i (\<lambda>p. p\<lparr>wait_queue := q\<rparr>) k)
     = (tab_of k)\<lparr>waits := (waits (tab_of k))[i := q]\<rparr>"
  by (cases "i < length (proc_array k)")
    (simp_all add: tab_of_def upd_proc_def map_update list_update_same_conv list_update_beyond)

lemma tab_of_upd_other:
  assumes "\<And>p. p_state (f p) = p_state p" "\<And>p. wait_queue (f p) = wait_queue p"
  shows "tab_of (upd_proc i f k) = tab_of k"
  using assms by (cases "i < length (proc_array k)")
    (simp_all add: tab_of_def upd_proc_def map_update list_update_same_conv list_update_beyond)

lemma tab_of_upd_regs [simp]:
  "tab_of (upd_proc i (set_eax v) k) = tab_of k"
  "tab_of (upd_proc i (\<lambda>p. p\<lparr>p_registers := r p\<rparr>) k) = tab_of k"
  "tab_of (upd_proc i (\<lambda>p. p\<lparr>p_exit_status := x p\<rparr>) k) = tab_of k"
  by (rule tab_of_upd_other; simp)+

lemma tab_of_run [simp]: "tab_of (run i k) = (tab_of k)\<lparr>running := i\<rparr>"
  by (simp add: tab_of_def)

lemma tab_of_memory [simp]: "tab_of (k\<lparr>memory := m\<rparr>) = tab_of k"
  by (simp add: tab_of_def)

lemma tab_of_wake [simp]: "q \<noteq> 0 \<Longrightarrow> tab_of (wake q v k) = tab_wake q (tab_of k)"
  by (simp add: wake_def tab_wake_def)

lemma tab_schedule_refines:
  assumes "table_ok k" "current k < NPROCS"
  shows "map_option tab_of (schedule k) = tab_schedule (tab_of k)"
proof -
  have "p_pid (cur_proc k) = current k" using assms by (simp add: cur_proc_def table_okD)
  then show ?thesis
    using next_runnable_eq [OF table_okD(1) [OF assms(1)] assms(2)]
    by (simp add: schedule_def tab_schedule_def option.map_comp comp_def)
qed

lemma tab_spawn_refines:
  assumes "table_ok k"
  shows "tab_of (snd (do_fork c k)) = tab_spawn (tab_of k)"
    and "tab_of (snd (do_newthread c a k)) = tab_spawn (tab_of k)"
  using free_slot_eq [OF table_okD(1) [OF assms]]
  by (simp_all add: do_fork_def do_newthread_def copy_stack_def Let_def tab_spawn_def
      split: option.splits)

lemma tab_bad_refines:
  assumes "table_ok k" "current k < NPROCS"
  shows "tab_bad p (tab_of k) = bad_target p k"
  using assms by (auto simp: tab_bad_def bad_target_def cur_proc_def table_okD nat_less_iff)

text \<open>One step of the kernel, on the state in which the registers are saved.\<close>

definition table_trap :: "mpos \<Rightarrow> bool" where
  "table_trap k \<longleftrightarrow> table_ok k \<and> current k < NPROCS \<and> 0 < current k"

lemma sys_exit_refines:
  assumes "table_trap k"
  shows "map_option tab_of (sys_exit k) = tab_exit (tab_of k)"
proof -
  let ?c = "current k"
  let ?k2 = "upd_proc ?c (\<lambda>p. p\<lparr>p_exit_status := reg_eax (p_registers p)\<rparr>)
    (upd_proc ?c (\<lambda>p. p\<lparr>p_state := P_ZOMBIE\<rparr>) k)"
  let ?q = "wait_queue (cur_proc ?k2)"
  let ?k3 = "if ?q \<noteq> 0 then wake ?q (p_exit_status (cur_proc ?k2)) ?k2 else ?k2"
  have ok: "table_ok ?k2" "?c < NPROCS" "length (proc_array k) = NPROCS"
    using assms by (auto simp: table_trap_def table_okD intro!: table_ok_upd_proc)
  then have q: "?q = waits (tab_of k) ! ?c"
    by (simp add: cur_proc_def nth_upd_proc)
  have a: "tab_of ?k3 = tab_wake ?q ((tab_of k)\<lparr>states := (states (tab_of k))[?c := P_ZOMBIE]\<rparr>)"
    by (simp add: tab_wake_def)
  have b: "map_option tab_of (schedule ?k3) = tab_schedule (tab_of ?k3)"
    using ok by (intro tab_schedule_refines) (auto intro: table_ok_wake)
  show ?thesis
    unfolding sys_exit_def tab_exit_def Let_def
    unfolding b a
    unfolding q by simp
qed

lemma sys_kill_refines:
  assumes "table_trap k"
  shows "map_option tab_of (sys_kill k)
    = Some (tab_kill (sint (reg_eax (p_registers (cur_proc k)))) (tab_of k))"
proof -
  let ?c = "current k"
  let ?p = "sint (reg_eax (p_registers (cur_proc k)))"
  let ?v = "nat ?p"
  have ok: "table_ok k" "?c < NPROCS" "length (proc_array k) = NPROCS"
    using assms by (auto simp: table_trap_def table_okD)
  have cur: "t\<lparr>running := current k\<rparr> = t" if "running t = current k" for t :: ptab
    using that by simp
  have keep: "running (tab_wake q t) = running t" for q t by (simp add: tab_wake_def)
  show ?thesis
  proof (cases "bad_target ?p k")
    case True
    then show ?thesis
      by (simp add: sys_kill_def tab_kill_def tab_bad_refines Let_def ok cur)
  next
    case False
    then have v: "?v < NPROCS" "?v < length (proc_array k)" using ok by (auto simp: bad_target_def nat_less_iff)
    then show ?thesis using False ok
      by (simp add: sys_kill_def tab_kill_def tab_bad_refines Let_def nth_upd_proc cur keep)
        (auto simp: tab_wake_def)
  qed
qed

lemma sys_wait_refines:
  assumes "table_trap k"
  shows "map_option tab_of (sys_wait k)
    = tab_wait (sint (reg_eax (p_registers (cur_proc k)))) (tab_of k)"
proof -
  let ?c = "current k"
  let ?p = "sint (reg_eax (p_registers (cur_proc k)))"
  let ?v = "nat ?p"
  let ?k = "if bad_target ?p k then upd_proc ?c (set_eax (- 1)) k
     else if p_state (proc_array k ! ?v) = P_ZOMBIE then
       upd_proc ?v (\<lambda>x. x\<lparr>p_state := P_EMPTY\<rparr>)
         (upd_proc ?c (set_eax (p_exit_status (proc_array k ! ?v))) k)
     else
       upd_proc ?v (\<lambda>x. x\<lparr>wait_queue := p_pid (proc_array k ! ?c)\<rparr>)
         (upd_proc ?c (\<lambda>x. x\<lparr>p_state := P_BLOCKED\<rparr>) k)"
  have ok: "table_ok k" "?c < NPROCS" "0 < ?c" "length (proc_array k) = NPROCS"
    "p_pid (proc_array k ! ?c) = ?c"
    using assms by (auto simp: table_trap_def table_okD)
  have tk: "table_ok ?k" using ok by (auto intro!: table_ok_upd_proc)
  have "map_option tab_of (sys_wait k) = map_option tab_of (schedule ?k)"
    by (simp add: sys_wait_def Let_def)
  also have "\<dots> = tab_schedule (tab_of ?k)"
    using tk ok by (intro tab_schedule_refines) auto
  also have "\<dots> = tab_wait ?p (tab_of k)"
    using ok unfolding tab_wait_def tab_bad_refines [OF ok(1,2)]
    by (auto simp: bad_target_def)
  finally show ?thesis .
qed

section \<open>The kernel refines the table\<close>

lemma interrupt_refines:
  assumes "mpos_ok k"
  shows "map_option tab_of (interrupt reg k)
    = tab_step (reg_intno reg) (sint (reg_eax reg)) (tab_of k)"
proof -
  let ?k = "upd_proc (current k) (\<lambda>p. p\<lparr>p_registers := reg\<rparr>) k"
  have ok: "table_ok ?k" "table_trap ?k" and c: "current k < NPROCS"
    and len: "length (proc_array k) = NPROCS"
    using assms by (auto simp: mpos_ok_def table_trap_def table_okD intro!: table_ok_upd_proc)
  have eax: "reg_eax (p_registers (cur_proc ?k)) = reg_eax reg"
    using c len by (simp add: cur_proc_def nth_upd_proc)
  have same: "tab_of ?k = tab_of k" by simp
  have cur: "t\<lparr>running := current k\<rparr> = t" if "running t = current k" for t :: ptab
    using that by simp
  have spawn_running: "running (tab_spawn t) = running t" for t
    by (simp add: tab_spawn_def split: option.splits)
  note spawn = tab_spawn_refines [OF ok(1), unfolded same]
  note calls = sys_exit_refines [OF ok(2)] sys_kill_refines [OF ok(2), unfolded eax]
    sys_wait_refines [OF ok(2), unfolded eax] tab_schedule_refines [OF ok(1)]
  show ?thesis
    using calls c
    by (auto simp: interrupt_def tab_step_def Let_def spawn cur spawn_running split_beta)
qed

text \<open>A sequence of traps, and the steps they are on the table.\<close>

fun mpos_run :: "registers list \<Rightarrow> mpos \<Rightarrow> mpos option" where
  "mpos_run [] k = Some k"
| "mpos_run (r # rs) k = (case interrupt r k of None \<Rightarrow> None | Some k' \<Rightarrow> mpos_run rs k')"

fun tab_run :: "(u32 \<times> int) list \<Rightarrow> ptab \<Rightarrow> ptab option" where
  "tab_run [] t = Some t"
| "tab_run ((n, a) # cs) t = (case tab_step n a t of None \<Rightarrow> None | Some t' \<Rightarrow> tab_run cs t')"

abbreviation call_of :: "registers \<Rightarrow> u32 \<times> int" where
  "call_of r \<equiv> (reg_intno r, sint (reg_eax r))"

lemma mpos_run_refines:
  "mpos_ok k \<Longrightarrow> map_option tab_of (mpos_run rs k) = tab_run (map call_of rs) (tab_of k)"
proof (induction rs arbitrary: k)
  case (Cons r rs)
  show ?case
  proof (cases "interrupt r k")
    case None
    then show ?thesis using interrupt_refines [OF Cons.prems, of r] by (simp split: option.splits)
  next
    case (Some k')
    then have "mpos_ok k'" using Cons.prems by (blast intro: interrupt_ok)
    then show ?thesis
      using Some Cons.IH interrupt_refines [OF Cons.prems, of r]
      by (auto split: option.splits)
  qed
qed simp



lemma tab_of_start:
  "tab_of (mpos_start e m) = \<lparr>states = [P_EMPTY, P_RUNNABLE] @ replicate 14 P_EMPTY,
     waits = replicate 16 0, running = 1\<rparr>"
  by (simp add: tab_of_def mpos_start_def Let_def empty_proc_def numeral_eq_Suc)

lemma mpos_run_append:
  "mpos_run (rs @ rs') k = (case mpos_run rs k of None \<Rightarrow> None | Some k' \<Rightarrow> mpos_run rs' k')"
  by (induction rs arbitrary: k) (auto split: option.splits)

lemma mpos_run_ok: "mpos_ok k \<Longrightarrow> mpos_run rs k = Some k' \<Longrightarrow> mpos_ok k'"
  by (induction rs arbitrary: k) (auto split: option.splits dest: interrupt_ok)

lemma zombie_trace:
  "map call_of [trap_regs 49 0 0, trap_regs 49 0 0, trap_regs 52 2 0, trap_regs 51 0 0,
     trap_regs 50 0 0, trap_regs 51 0 0] = [(49, 0), (49, 0), (52, 2), (51, 0), (50, 0), (51, 0)]"
  by simp

lemma zombie_trace_kill:
  "map call_of ([trap_regs 49 0 0, trap_regs 49 0 0, trap_regs 52 2 0, trap_regs 51 0 0,
     trap_regs 50 0 0, trap_regs 51 0 0] @ [trap_regs 53 2 0])
   = [(49, 0), (49, 0), (52, 2), (51, 0), (50, 0), (51, 0), (53, 2)]"
  by simp

lemma tab_run_zombie:
  "map_option (\<lambda>t. (running t, states t ! 1))
     (tab_run [(49, 0), (49, 0), (52, 2), (51, 0), (50, 0), (51, 0)]
       \<lparr>states = [P_EMPTY, P_RUNNABLE] @ replicate 14 P_EMPTY, waits = replicate 16 0, running = 1\<rparr>)
   = Some (3, P_ZOMBIE)"
  by code_simp

lemma tab_run_revived:
  "map_option (\<lambda>t. states t ! 1)
     (tab_run [(49, 0), (49, 0), (52, 2), (51, 0), (50, 0), (51, 0), (53, 2)]
       \<lparr>states = [P_EMPTY, P_RUNNABLE] @ replicate 14 P_EMPTY, waits = replicate 16 0, running = 1\<rparr>)
   = Some P_RUNNABLE"
  by code_simp

text \<open>
  \<open>sys_kill\<close> brings an exited process back to life. Process 1 forks 2 and 3 and
  waits for 2; process 2 exits, which wakes 1; 1 exits too. \<open>sys_kill(2)\<close> by
  process 3 then follows the stale \<open>wait_queue\<close> of the zombie 2 and makes the zombie 1
  runnable.
\<close>

theorem mpos_kill_revives_zombie:
  "\<exists>k k'. mpos_run [trap_regs 49 0 0, trap_regs 49 0 0, trap_regs 52 2 0, trap_regs 51 0 0,
        trap_regs 50 0 0, trap_regs 51 0 0] (mpos_start e m) = Some k
    \<and> p_state (proc_array k ! 1) = P_ZOMBIE \<and> current k = 3
    \<and> interrupt (trap_regs 53 2 0) k = Some k'
    \<and> p_state (proc_array k' ! 1) = P_RUNNABLE"
proof -
  let ?rs = "[trap_regs 49 0 0, trap_regs 49 0 0, trap_regs 52 2 0, trap_regs 51 0 0,
        trap_regs 50 0 0, trap_regs 51 0 0]"
  let ?s = "mpos_start e m"
  have dead: "map_option (\<lambda>t. (running t, states t ! 1)) (tab_run (map call_of ?rs) (tab_of ?s))
      = Some (3, P_ZOMBIE)"
    unfolding tab_of_start zombie_trace by (rule tab_run_zombie)
  have alive: "map_option (\<lambda>t. states t ! 1)
      (tab_run (map call_of (?rs @ [trap_regs 53 2 0])) (tab_of ?s)) = Some P_RUNNABLE"
    unfolding tab_of_start zombie_trace_kill by (rule tab_run_revived)
  obtain k where k: "mpos_run ?rs ?s = Some k" "current k = 3" "map p_state (proc_array k) ! 1 = P_ZOMBIE"
    using dead by (auto simp only: mpos_run_refines [OF mpos_start_ok, symmetric]
        option.map_comp comp_def tab_of_fields prod.inject option.map_sel map_option_eq_Some)
  have split: "mpos_run (?rs @ [trap_regs 53 2 0]) ?s
      = (case interrupt (trap_regs 53 2 0) k of None \<Rightarrow> None | Some k' \<Rightarrow> Some k')"
    unfolding mpos_run_append k(1) by (simp split: option.split)
  obtain k' where k': "interrupt (trap_regs 53 2 0) k = Some k'" "map p_state (proc_array k') ! 1 = P_RUNNABLE"
    using alive by (auto simp only: mpos_run_refines [OF mpos_start_ok, symmetric] split
        option.map_comp comp_def tab_of_fields map_option_eq_Some split: option.splits)
  have "length (proc_array k) = NPROCS" "length (proc_array k') = NPROCS"
    using mpos_run_ok [OF mpos_start_ok k(1)] interrupt_ok [OF _ k'(1)]
    by (auto simp: mpos_ok_def table_okD)
  then show ?thesis using k k' by auto
qed

end
