(* ===== verification/SchedosKern.thy ===== *)
theory SchedosKern
  imports X86 RoundRobin
begin

text \<open>
  The SchedOS kernel, weensyos2/schedos-kern.c with the descriptor type of
  schedos-kern.h and \<open>special_registers_init\<close> and \<open>run\<close> of schedos-x86.c: five
  processes, no blocking, and a \<open>schedule\<close> with five algorithms chosen by
  \<open>scheduling_algorithm\<close>. The scheduling loops are \<open>while (1)\<close> loops that leave
  through \<open>run\<close>, so they are \<open>partial_function (option)\<close>, and \<open>None\<close> is a
  kernel that spins for ever.
\<close>

section \<open>Process descriptors and the boot state\<close>

text \<open>
  The \<open>int\<close> fields are 32-bit patterns: the kernel copies them from registers,
  compares them for equality, increments the run count, and compares the priority with an
  \<open>unsigned int\<close>, which makes the comparison unsigned.
\<close>

record sproc =
  sp_pid :: nat
  sp_registers :: registers
  sp_state :: procstate
  sp_exit_status :: u32
  sp_priority :: u32
  sp_share :: u32
  sp_run_count :: u32

record sched =
  sprocs :: "sproc list"
  scurrent :: nat
  algorithm :: nat
  cursorpos :: u32
  slock :: u32
  smemory :: mem

abbreviation SPROCS :: nat where "SPROCS \<equiv> 5"
definition PROC1_START :: u32 where "PROC1_START = 0x200000"
definition PROC_SIZE :: u32 where "PROC_SIZE = 0x100000"

definition sched_registers_init :: registers where
  "sched_registers_init = zero_registers\<lparr>reg_cs := 0x18 OR 3, reg_ds := 0x20 OR 3,
     reg_es := 0x20 OR 3, reg_ss := 0x20 OR 3, reg_eflags := 0x200\<rparr>"

definition sproc_empty :: "nat \<Rightarrow> sproc" where
  "sproc_empty i = \<lparr>sp_pid = i, sp_registers = zero_registers, sp_state = P_EMPTY,
     sp_exit_status = 0, sp_priority = 0, sp_share = 0, sp_run_count = 0\<rparr>"

text \<open>The program loader's entry points and the loaded memory are arguments.\<close>

definition sched_start :: "(nat \<Rightarrow> u32) \<Rightarrow> mem \<Rightarrow> sched" where
  "sched_start entry m =
     \<lparr>sprocs = map (\<lambda>i. if i = 0 then sproc_empty i
        else (sproc_empty i)\<lparr>
          sp_registers := sched_registers_init\<lparr>
            reg_esp := PROC1_START + of_nat i * PROC_SIZE, reg_eip := entry (i - 1)\<rparr>,
          sp_state := P_RUNNABLE, sp_priority := 0, sp_share := - 1, sp_run_count := 0\<rparr>)
        [0 ..< SPROCS],
      scurrent = 1, algorithm = 4, cursorpos = 0xB8000, slock = 0, smemory = m\<rparr>"

section \<open>schedule\<close>

abbreviation runnable :: "sproc list \<Rightarrow> nat \<Rightarrow> bool" where
  "runnable ps i \<equiv> sp_state (ps ! i) = P_RUNNABLE"

definition set_run_count :: "nat \<Rightarrow> u32 \<Rightarrow> sproc list \<Rightarrow> sproc list" where
  "set_run_count i c ps = ps[i := (ps ! i)\<lparr>sp_run_count := c\<rparr>]"

text \<open>Algorithm 0, round robin.\<close>

partial_function (option) rr_loop :: "sproc list \<Rightarrow> nat \<Rightarrow> nat option" where
  "rr_loop ps pid =
     (let pid' = (pid + 1) mod SPROCS in if runnable ps pid' then Some pid' else rr_loop ps pid')"

text \<open>Algorithm 1, strict priority by process number: the \<open>for\<close> loop with its \<open>break\<close>.\<close>

definition first_runnable :: "sproc list \<Rightarrow> nat \<Rightarrow> nat" where
  "first_runnable ps highest =
     (case find (runnable ps) [1 ..< SPROCS] of Some i \<Rightarrow> i | None \<Rightarrow> highest)"

partial_function (option) strict_loop :: "sproc list \<Rightarrow> nat \<Rightarrow> nat option" where
  "strict_loop ps highest =
     (let h = first_runnable ps highest in if h \<noteq> 0 then Some h else strict_loop ps h)"

text \<open>
  Algorithm 2, the priorities set by \<open>sys_setpriority\<close>: one pass over all descriptors from
  the current one, which keeps the last one whose priority is at most the least so far.
\<close>

definition prio_step :: "sproc list \<Rightarrow> nat \<Rightarrow> nat \<Rightarrow> nat \<times> u32 \<Rightarrow> nat \<times> u32" where
  "prio_step ps currentpid i acc =
     (let pid = (currentpid + i) mod SPROCS
      in if runnable ps pid \<and> sp_priority (ps ! pid) \<le> snd acc
         then (pid, sp_priority (ps ! pid)) else acc)"

definition prio_pass :: "sproc list \<Rightarrow> nat \<Rightarrow> nat \<times> u32 \<Rightarrow> nat \<times> u32" where
  "prio_pass ps currentpid acc = fold (prio_step ps currentpid) [0 ..< 5] acc"

partial_function (option) prio_loop :: "sproc list \<Rightarrow> nat \<Rightarrow> nat \<times> u32 \<Rightarrow> nat option" where
  "prio_loop ps currentpid acc =
     (let acc' = prio_pass ps currentpid acc
      in if fst acc' \<noteq> 0 then Some (fst acc') else prio_loop ps currentpid acc')"

text \<open>Algorithm 3, proportional share.\<close>

partial_function (option) share_loop :: "sproc list \<Rightarrow> nat \<Rightarrow> (sproc list \<times> nat) option" where
  "share_loop ps pid =
     (let p = ps ! pid in
      if sp_state p = P_RUNNABLE then
        if sp_share p = - 1 then Some (ps, pid)
        else if sp_run_count p \<noteq> sp_share p then
          Some (set_run_count pid (sp_run_count p + 1) ps, pid)
        else share_loop (set_run_count pid 0 ps) ((pid + 1) mod SPROCS)
      else share_loop ps ((pid + 1) mod SPROCS))"

text \<open>Algorithm 4, multi-level queues: shares within the best priority.\<close>

definition best_priority :: "sproc list \<Rightarrow> u32 \<Rightarrow> u32" where
  "best_priority ps priority =
     fold (\<lambda>i pr. if runnable ps i \<and> sp_priority (ps ! i) \<le> pr then sp_priority (ps ! i) else pr)
       [1 ..< SPROCS] priority"

partial_function (option) level_loop ::
  "sproc list \<Rightarrow> nat \<Rightarrow> u32 \<Rightarrow> (sproc list \<times> nat) option" where
  "level_loop ps pid priority =
     (let p = ps ! pid in
      if sp_state p = P_RUNNABLE \<and> sp_share p = - 1 then Some (ps, pid)
      else let pr = best_priority ps priority in
        if sp_state p = P_RUNNABLE \<and> sp_priority p \<le> pr then
          if sp_run_count p \<noteq> sp_share p then
            Some (set_run_count pid (sp_run_count p + 1) ps, pid)
          else level_loop (set_run_count pid 0 ps) ((pid + 1) mod SPROCS) pr
        else level_loop ps ((pid + 1) mod SPROCS) pr)"

definition sched_run :: "nat \<Rightarrow> sched \<Rightarrow> sched" where
  "sched_run i k = k\<lparr>scurrent := i\<rparr>"

definition sched_schedule :: "sched \<Rightarrow> sched option" where
  "sched_schedule k =
     (let ps = sprocs k; pid = sp_pid (ps ! scurrent k) in
      if algorithm k = 0 then map_option (\<lambda>i. sched_run i k) (rr_loop ps pid)
      else if algorithm k = 1 then map_option (\<lambda>i. sched_run i k) (strict_loop ps 0)
      else if algorithm k = 2 then
        map_option (\<lambda>i. sched_run i k) (prio_loop ps pid (0, 0xFFFFFFFF))
      else if algorithm k = 3 then
        map_option (\<lambda>(ps', i). sched_run i (k\<lparr>sprocs := ps'\<rparr>)) (share_loop ps pid)
      else if algorithm k = 4 then
        map_option (\<lambda>(ps', i). sched_run i (k\<lparr>sprocs := ps'\<rparr>)) (level_loop ps pid 0xFFFFFFFF)
      else None)"

section \<open>interrupt\<close>

definition upd_cur :: "(sproc \<Rightarrow> sproc) \<Rightarrow> sched \<Rightarrow> sched" where
  "upd_cur f k = k\<lparr>sprocs := (sprocs k)[scurrent k := f (sprocs k ! scurrent k)]\<rparr>"

text \<open>\<open>*cursorpos++ = v\<close>: a 16-bit store at the cursor, which moves on by two bytes.\<close>

definition put_cell :: "u32 \<Rightarrow> sched \<Rightarrow> sched" where
  "put_cell v k = k\<lparr>smemory := (smemory k)(unat (cursorpos k) := ucast v,
       unat (cursorpos k + 1) := ucast (drop_bit 8 v)), cursorpos := cursorpos k + 2\<rparr>"

definition sched_interrupt :: "registers \<Rightarrow> sched \<Rightarrow> sched option" where
  "sched_interrupt reg k0 =
     (let k = upd_cur (\<lambda>p. p\<lparr>sp_registers := reg\<rparr>) k0; intno = reg_intno reg in
      if intno = 48 then sched_schedule k
      else if intno = 49 then
        sched_schedule (upd_cur (\<lambda>p. p\<lparr>sp_state := P_ZOMBIE, sp_exit_status := reg_eax reg\<rparr>) k)
      else if intno = 50 then
        Some (sched_run (scurrent k) (upd_cur (\<lambda>p. p\<lparr>sp_priority := reg_eax reg\<rparr>) k))
      else if intno = 51 then
        Some (sched_run (scurrent k) (upd_cur (\<lambda>p. p\<lparr>sp_share := reg_eax reg\<rparr>) k))
      else if intno = 52 then Some (sched_run (scurrent k) (put_cell (reg_eax reg) k))
      else if intno = 32 then sched_schedule k
      else None)"

section \<open>The table and the invariant\<close>

definition sched_ok :: "sched \<Rightarrow> bool" where
  "sched_ok k \<longleftrightarrow> length (sprocs k) = SPROCS \<and> (\<forall>i < SPROCS. sp_pid (sprocs k ! i) = i)
     \<and> sp_state (sprocs k ! 0) = P_EMPTY
     \<and> scurrent k < SPROCS \<and> runnable (sprocs k) (scurrent k)"

text \<open>The tables that differ from a table in run counts only.\<close>

definition same_but_counts :: "sproc list \<Rightarrow> sproc list \<Rightarrow> bool" where
  "same_but_counts ps ps' \<longleftrightarrow> length ps' = length ps
     \<and> (\<forall>i < length ps. \<exists>c. ps' ! i = (ps ! i)\<lparr>sp_run_count := c\<rparr>)"

lemma same_but_counts_refl [simp]: "same_but_counts ps ps"
  unfolding same_but_counts_def by (metis sproc.surjective sproc.update_convs(7))

lemma length_set_run_count [simp]: "length (set_run_count i c ps) = length ps"
  by (simp add: set_run_count_def)

lemma nth_set_run_count:
  "j < length ps \<Longrightarrow> set_run_count i c ps ! j =
     (if i = j then (ps ! j)\<lparr>sp_run_count := c\<rparr> else ps ! j)"
  by (simp add: set_run_count_def nth_list_update)

lemma nth_set_run_count_fields [simp]:
  "sp_state (set_run_count i c ps ! j) = sp_state (ps ! j)"
  "sp_share (set_run_count i c ps ! j) = sp_share (ps ! j)"
  "sp_priority (set_run_count i c ps ! j) = sp_priority (ps ! j)"
  "sp_pid (set_run_count i c ps ! j) = sp_pid (ps ! j)"
  by (cases "i < length ps"; cases "i = j"; simp add: set_run_count_def list_update_beyond)+

lemma same_but_counts_set:
  assumes "same_but_counts (set_run_count i c ps) ps'"
  shows "same_but_counts ps ps'"
  unfolding same_but_counts_def
proof (intro conjI allI impI)
  show "length ps' = length ps" using assms by (simp add: same_but_counts_def)
  fix j assume j: "j < length ps"
  then obtain d where "ps' ! j = (set_run_count i c ps ! j)\<lparr>sp_run_count := d\<rparr>"
    using assms by (auto simp: same_but_counts_def)
  then show "\<exists>c. ps' ! j = (ps ! j)\<lparr>sp_run_count := c\<rparr>"
    using j by (intro exI [of _ d]) (simp add: nth_set_run_count)
qed

lemma same_but_counts_set_run_count [simp]: "same_but_counts ps (set_run_count i c ps)"
  by (rule same_but_counts_set [of i c]) (rule same_but_counts_refl)

lemma same_but_countsD:
  assumes "same_but_counts ps ps'" "i < length ps"
  shows "sp_state (ps' ! i) = sp_state (ps ! i)" "sp_pid (ps' ! i) = sp_pid (ps ! i)"
    "sp_priority (ps' ! i) = sp_priority (ps ! i)" "sp_share (ps' ! i) = sp_share (ps ! i)"
  using assms by (auto simp: same_but_counts_def)

section \<open>What each loop returns\<close>

lemma rr_loop_sound: "rr_loop ps pid = Some i \<Longrightarrow> i < SPROCS \<and> runnable ps i"
  by (rule rr_loop.raw_induct [where P = "\<lambda>ps pid i. i < SPROCS \<and> runnable ps i"])
    (auto simp: Let_def split: if_splits)

interpretation sched_rr: round_robin SPROCS "runnable ps" "rr_loop ps" for ps
proof
  show "rr_loop ps pid = None" if "\<forall>i < SPROCS. \<not> runnable ps i" for pid
    using rr_loop_sound [of ps pid] that by (cases "rr_loop ps pid") auto
  show "rr_loop ps pid = Some ((pid + 1) mod SPROCS)" if "runnable ps ((pid + 1) mod SPROCS)" for pid
    using that by (subst rr_loop.simps) (simp add: Let_def)
  show "rr_loop ps pid = rr_loop ps ((pid + 1) mod SPROCS)"
    if "\<not> runnable ps ((pid + 1) mod SPROCS)" for pid
    using that by (subst rr_loop.simps) (simp add: Let_def)
qed simp

lemma first_runnable_cases:
  obtains (found) i where "0 < i" "i < SPROCS" "runnable ps i"
      "\<forall>j. 0 < j \<and> j < i \<longrightarrow> \<not> runnable ps j" "first_runnable ps h = i"
  | (none) "\<forall>j. 0 < j \<and> j < SPROCS \<longrightarrow> \<not> runnable ps j" "first_runnable ps h = h"
proof (cases "find (runnable ps) [1 ..< SPROCS]")
  case None
  then have "\<not> (\<exists>j. j \<in> set [1 ..< SPROCS] \<and> runnable ps j)" by (simp only: find_None_iff not_False_eq_True)
  then have "\<forall>j. 0 < j \<and> j < SPROCS \<longrightarrow> \<not> runnable ps j" by (auto simp del: upt_rec_numeral)
  moreover have "first_runnable ps h = h" unfolding first_runnable_def None by simp
  ultimately show thesis by (rule none)
next
  case (Some i)
  then obtain d where d: "d < length [1 ..< SPROCS]" "runnable ps ([1 ..< SPROCS] ! d)"
      "i = [1 ..< SPROCS] ! d" "\<forall>j < d. \<not> runnable ps ([1 ..< SPROCS] ! j)"
    unfolding find_Some_iff by blast
  have nth: "j < 4 \<Longrightarrow> [1 ..< SPROCS] ! j = Suc j" for j
    by (simp add: nth_upt del: upt_rec_numeral)
  have d4: "d < 4" using d(1) by simp
  show thesis
  proof (rule found [of "Suc d"])
    show "\<forall>j. 0 < j \<and> j < Suc d \<longrightarrow> \<not> runnable ps j"
    proof (intro allI impI)
      fix j assume "0 < j \<and> j < Suc d"
      then show "\<not> runnable ps j" using d(4) d4 nth [of "j - 1"] by (auto dest: spec [of _ "j - 1"])
    qed
    show "first_runnable ps h = Suc d" unfolding first_runnable_def Some using d(3) nth d4 by simp
  qed (use d d4 nth in auto)
qed

lemma strict_loop_sound:
  "strict_loop ps h = Some i \<Longrightarrow> h = 0 \<Longrightarrow>
     0 < i \<and> i < SPROCS \<and> runnable ps i \<and> (\<forall>j. 0 < j \<and> j < i \<longrightarrow> \<not> runnable ps j)"
proof (rule strict_loop.raw_induct [where P = "\<lambda>ps h i. h = 0 \<longrightarrow>
     0 < i \<and> i < SPROCS \<and> runnable ps i \<and> (\<forall>j. 0 < j \<and> j < i \<longrightarrow> \<not> runnable ps j)", rule_format])
  fix loop ps h i
  assume IH: "\<And>ps h i. loop ps h = Some i \<Longrightarrow> h = 0 \<Longrightarrow>
      0 < i \<and> i < SPROCS \<and> runnable ps i \<and> (\<forall>j. 0 < j \<and> j < i \<longrightarrow> \<not> runnable ps j)"
    and eq: "(let h = first_runnable ps h in if h \<noteq> 0 then Some h else loop ps h) = Some i"
    and h: "h = 0"
  show "0 < i \<and> i < SPROCS \<and> runnable ps i \<and> (\<forall>j. 0 < j \<and> j < i \<longrightarrow> \<not> runnable ps j)"
    by (rule first_runnable_cases [of ps h]) (use eq h IH in \<open>auto simp: Let_def\<close>)
qed

text \<open>Algorithm 2: the pass keeps the last descriptor of least priority.\<close>

definition last_least :: "sproc list \<Rightarrow> nat \<Rightarrow> nat \<Rightarrow> nat \<Rightarrow> bool" where
  "last_least ps c n d \<longleftrightarrow> d < n \<and> runnable ps ((c + d) mod SPROCS)
     \<and> (\<forall>i < n. runnable ps ((c + i) mod SPROCS) \<longrightarrow>
          sp_priority (ps ! ((c + d) mod SPROCS)) \<le> sp_priority (ps ! ((c + i) mod SPROCS))
          \<and> (d < i \<longrightarrow>
             sp_priority (ps ! ((c + d) mod SPROCS)) < sp_priority (ps ! ((c + i) mod SPROCS))))"

definition prio_inv :: "sproc list \<Rightarrow> nat \<Rightarrow> nat \<Rightarrow> nat \<times> u32 \<Rightarrow> bool" where
  "prio_inv ps c n acc \<longleftrightarrow>
     (\<forall>i < n. \<not> runnable ps ((c + i) mod SPROCS)) \<and> acc = (0, 0xFFFFFFFF)
     \<or> (\<exists>d. last_least ps c n d
          \<and> acc = ((c + d) mod SPROCS, sp_priority (ps ! ((c + d) mod SPROCS))))"

lemma last_least_skip:
  "last_least ps c n d \<Longrightarrow> \<not> runnable ps ((c + n) mod SPROCS) \<Longrightarrow> last_least ps c (Suc n) d"
  by (auto simp: last_least_def less_Suc_eq)

lemma last_least_keep:
  "last_least ps c n d \<Longrightarrow>
   sp_priority (ps ! ((c + d) mod SPROCS)) < sp_priority (ps ! ((c + n) mod SPROCS)) \<Longrightarrow>
   last_least ps c (Suc n) d"
  by (auto simp: last_least_def less_Suc_eq)

lemma last_least_take:
  "last_least ps c n d \<Longrightarrow> runnable ps ((c + n) mod SPROCS) \<Longrightarrow>
   sp_priority (ps ! ((c + n) mod SPROCS)) \<le> sp_priority (ps ! ((c + d) mod SPROCS)) \<Longrightarrow>
   last_least ps c (Suc n) n"
  unfolding last_least_def by (auto simp: less_Suc_eq intro: order_trans)

lemma last_least_first:
  "\<forall>i < n. \<not> runnable ps ((c + i) mod SPROCS) \<Longrightarrow> runnable ps ((c + n) mod SPROCS) \<Longrightarrow>
   last_least ps c (Suc n) n"
  by (auto simp: last_least_def less_Suc_eq)

lemma prio_inv_step:
  assumes "prio_inv ps c n acc"
  shows "prio_inv ps c (Suc n) (prio_step ps c n acc)"
proof -
  have top: "(v::u32) \<le> 0xFFFFFFFF" for v
    using unat_u32_less [of v] by (simp add: word_le_nat_alt)
  from assms consider (none) "\<forall>i < n. \<not> runnable ps ((c + i) mod SPROCS)" "acc = (0, 0xFFFFFFFF)"
    | (some) d where "last_least ps c n d"
        "acc = ((c + d) mod SPROCS, sp_priority (ps ! ((c + d) mod SPROCS)))"
    unfolding prio_inv_def by blast
  then show ?thesis
  proof cases
    case none
    then show ?thesis
    proof (cases "runnable ps ((c + n) mod SPROCS)")
      case True
      have "prio_step ps c n acc = ((c + n) mod SPROCS, sp_priority (ps ! ((c + n) mod SPROCS)))"
        using none(2) True top by (simp add: prio_step_def Let_def)
      then show ?thesis
        using last_least_first [OF none(1) True] unfolding prio_inv_def by blast
    qed (auto simp: prio_inv_def prio_step_def Let_def less_Suc_eq)
  next
    case some
    then show ?thesis
      unfolding prio_inv_def prio_step_def Let_def
      by (auto simp: not_le intro: last_least_skip last_least_keep last_least_take)
  qed
qed

lemma prio_pass_inv: "prio_inv ps c 5 (prio_pass ps c (0, 0xFFFFFFFF))"
proof -
  have "prio_inv ps c n (fold (prio_step ps c) [0 ..< n] (0, 0xFFFFFFFF))" for n
  proof (induction n)
    case (Suc n)
    then show ?case using prio_inv_step [OF Suc] by simp
  qed (simp add: prio_inv_def)
  then show ?thesis unfolding prio_pass_def .
qed

text \<open>Algorithms 3 and 4 pick a runnable process and change run counts only.\<close>

lemma share_loop_sound:
  "share_loop ps pid = Some (ps', j) \<Longrightarrow>
     (pid < SPROCS \<longrightarrow> j < SPROCS) \<and> runnable ps j \<and> same_but_counts ps ps'"
proof (rule share_loop.raw_induct [where P = "\<lambda>ps pid r. (pid < SPROCS \<longrightarrow> snd r < SPROCS)
    \<and> runnable ps (snd r) \<and> same_but_counts ps (fst r)", of ps pid "(ps', j)", simplified fst_conv snd_conv])
  fix loop ps pid r
  assume IH: "\<And>ps pid r. loop ps pid = Some r \<Longrightarrow> (pid < SPROCS \<longrightarrow> snd r < SPROCS)
      \<and> runnable ps (snd r) \<and> same_but_counts ps (fst r)"
    and eq: "(let p = ps ! pid in
      if sp_state p = P_RUNNABLE then
        if sp_share p = - 1 then Some (ps, pid)
        else if sp_run_count p \<noteq> sp_share p then Some (set_run_count pid (sp_run_count p + 1) ps, pid)
        else loop (set_run_count pid 0 ps) ((pid + 1) mod SPROCS)
      else loop ps ((pid + 1) mod SPROCS)) = Some r"
  then show "(pid < SPROCS \<longrightarrow> snd r < SPROCS) \<and> runnable ps (snd r) \<and> same_but_counts ps (fst r)"
    by (auto simp: Let_def split: if_splits dest!: IH intro: same_but_counts_set)
qed

lemma level_loop_sound:
  "level_loop ps pid pr = Some (ps', j) \<Longrightarrow>
     (pid < SPROCS \<longrightarrow> j < SPROCS) \<and> runnable ps j \<and> same_but_counts ps ps'"
proof (rule level_loop.raw_induct [where P = "\<lambda>ps pid pr r. (pid < SPROCS \<longrightarrow> snd r < SPROCS)
    \<and> runnable ps (snd r) \<and> same_but_counts ps (fst r)", of ps pid pr "(ps', j)", simplified fst_conv snd_conv])
  fix loop ps pid pr r
  assume IH: "\<And>ps pid pr r. loop ps pid pr = Some r \<Longrightarrow> (pid < SPROCS \<longrightarrow> snd r < SPROCS)
      \<and> runnable ps (snd r) \<and> same_but_counts ps (fst r)"
    and eq: "(let p = ps ! pid in
      if sp_state p = P_RUNNABLE \<and> sp_share p = - 1 then Some (ps, pid)
      else let pr = best_priority ps pr in
        if sp_state p = P_RUNNABLE \<and> sp_priority p \<le> pr then
          if sp_run_count p \<noteq> sp_share p then
            Some (set_run_count pid (sp_run_count p + 1) ps, pid)
          else loop (set_run_count pid 0 ps) ((pid + 1) mod SPROCS) pr
        else loop ps ((pid + 1) mod SPROCS) pr) = Some r"
  then show "(pid < SPROCS \<longrightarrow> snd r < SPROCS) \<and> runnable ps (snd r) \<and> same_but_counts ps (fst r)"
    by (auto simp: Let_def split: if_splits dest!: IH intro: same_but_counts_set)
qed

section \<open>When the share loop returns\<close>

text \<open>A descriptor that the share loop runs when it reaches it.\<close>

definition has_quantum :: "sproc list \<Rightarrow> nat \<Rightarrow> bool" where
  "has_quantum ps i \<longleftrightarrow> runnable ps i
     \<and> (sp_share (ps ! i) = - 1 \<or> sp_run_count (ps ! i) \<noteq> sp_share (ps ! i))"

lemma share_loop_hit:
  "has_quantum ps pid \<Longrightarrow> \<exists>c. share_loop ps pid = Some (set_run_count pid c ps, pid)"
proof (subst share_loop.simps)
  assume "has_quantum ps pid"
  moreover have "set_run_count pid (sp_run_count (ps ! pid)) ps = ps"
    by (simp add: set_run_count_def)
  ultimately show "\<exists>c. (let p = ps ! pid in
      if sp_state p = P_RUNNABLE then
        if sp_share p = - 1 then Some (ps, pid)
        else if sp_run_count p \<noteq> sp_share p then
          Some (set_run_count pid (sp_run_count p + 1) ps, pid)
        else share_loop (set_run_count pid 0 ps) ((pid + 1) mod SPROCS)
      else share_loop ps ((pid + 1) mod SPROCS)) = Some (set_run_count pid c ps, pid)"
    by (auto simp: has_quantum_def Let_def intro: exI [of _ "sp_run_count (ps ! pid)"])
qed

lemma share_loop_miss:
  assumes "\<not> has_quantum ps pid"
  shows "share_loop ps pid = share_loop
    (if runnable ps pid then set_run_count pid 0 ps else ps) ((pid + 1) mod SPROCS)"
  using assms by (subst share_loop.simps) (auto simp: has_quantum_def Let_def)

lemma cyclic_succ: "((pid + 1) mod SPROCS + e) mod SPROCS = (pid + Suc e) mod SPROCS"
  by (simp add: mod_add_left_eq)

text \<open>The loop runs a process no further away than the first with a quantum left.\<close>

lemma share_loop_reaches:
  assumes "has_quantum ps ((pid + d) mod SPROCS)" "d < SPROCS" "pid < SPROCS" "length ps = SPROCS"
  shows "\<exists>ps' e. e \<le> d \<and> share_loop ps pid = Some (ps', (pid + e) mod SPROCS)
    \<and> (\<forall>x < SPROCS. (\<forall>f \<le> e. x \<noteq> (pid + f) mod SPROCS) \<longrightarrow> ps' ! x = ps ! x)"
  using assms
proof (induction d arbitrary: ps pid)
  case 0
  then obtain c where "share_loop ps pid = Some (set_run_count pid c ps, pid)"
    using share_loop_hit [of ps pid] by auto
  then show ?case using 0 by (intro exI [of _ "set_run_count pid c ps"] exI [of _ 0])
      (simp add: nth_set_run_count)
next
  case (Suc d)
  show ?case
  proof (cases "has_quantum ps pid")
    case True
    then obtain c where "share_loop ps pid = Some (set_run_count pid c ps, pid)"
      using share_loop_hit by blast
    then show ?thesis using Suc.prems(3,4)
      by (intro exI [of _ "set_run_count pid c ps"] exI [of _ 0]) (simp add: nth_set_run_count)
  next
    case False
    let ?ps = "if runnable ps pid then set_run_count pid 0 ps else ps"
    have keep: "?ps ! x = ps ! x" if "x < SPROCS" "x \<noteq> pid" for x
      using that Suc.prems(4) by (simp add: nth_set_run_count)
    have "pid \<noteq> (pid + Suc d) mod SPROCS" using False Suc.prems(1) by metis
    then have "has_quantum ?ps ((pid + Suc d) mod SPROCS)"
      using Suc.prems(1) keep [of "(pid + Suc d) mod SPROCS"] by (simp add: has_quantum_def)
    then have "\<exists>ps' e. e \<le> d \<and> share_loop ?ps ((pid + 1) mod SPROCS)
        = Some (ps', ((pid + 1) mod SPROCS + e) mod SPROCS)
      \<and> (\<forall>x < SPROCS. (\<forall>f \<le> e. x \<noteq> ((pid + 1) mod SPROCS + f) mod SPROCS) \<longrightarrow> ps' ! x = ?ps ! x)"
      using Suc.prems by (intro Suc.IH) (simp_all only: cyclic_succ, simp_all)
    then obtain ps' e where e: "e \<le> d"
      "share_loop ?ps ((pid + 1) mod SPROCS) = Some (ps', ((pid + 1) mod SPROCS + e) mod SPROCS)"
      "\<forall>x < SPROCS. (\<forall>f \<le> e. x \<noteq> (pid + Suc f) mod SPROCS) \<longrightarrow> ps' ! x = ?ps ! x"
      unfolding cyclic_succ by blast
    have "share_loop ps pid = Some (ps', (pid + Suc e) mod SPROCS)"
      by (simp only: share_loop_miss [OF False] e(2) cyclic_succ)
    moreover have "ps' ! x = ps ! x"
      if "x < SPROCS" "\<forall>f \<le> Suc e. x \<noteq> (pid + f) mod SPROCS" for x
    proof -
      have "x \<noteq> pid" using that(2) [rule_format, of 0] Suc.prems(3) by simp
      moreover have "ps' ! x = ?ps ! x" using e(3) that by (meson Suc_le_mono)
      ultimately show ?thesis using keep that(1) by simp
    qed
    ultimately show ?thesis using e(1) by (intro exI [of _ ps'] exI [of _ "Suc e"]) simp
  qed
qed

lemma cyclic_distance:
  assumes "i < SPROCS" "pid < SPROCS"
  obtains d where "d < SPROCS" "(pid + d) mod SPROCS = i"
proof (cases "pid \<le> i")
  case True
  then show thesis using that [of "i - pid"] assms by simp
next
  case False
  then show thesis using that [of "SPROCS + i - pid"] assms by simp
qed

lemma share_loop_returns:
  assumes "runnable ps ((pid + d) mod SPROCS)" "sp_share (ps ! ((pid + d) mod SPROCS)) \<noteq> 0"
    "d < SPROCS" "pid < SPROCS" "length ps = SPROCS"
  shows "share_loop ps pid \<noteq> None"
  using assms
proof (induction d arbitrary: ps pid)
  case 0
  show ?case
  proof (cases "has_quantum ps pid")
    case True
    then show ?thesis using share_loop_hit [OF True] by auto
  next
    case False
    let ?ps = "set_run_count pid 0 ps"
    have "has_quantum ?ps pid" using 0 by (simp add: has_quantum_def nth_set_run_count)
    then have "has_quantum ?ps (((pid + 1) mod SPROCS + 4) mod SPROCS)"
      using 0(4) by (simp only: cyclic_succ) simp
    then obtain ps' e where "share_loop ?ps ((pid + 1) mod SPROCS) = Some (ps', e)"
      using share_loop_reaches [of ?ps "(pid + 1) mod SPROCS" 4] 0 by auto
    then show ?thesis using 0 by (simp add: share_loop_miss [OF False])
  qed
next
  case (Suc d)
  show ?case
  proof (cases "has_quantum ps pid")
    case True
    then show ?thesis using share_loop_hit [OF True] by auto
  next
    case False
    let ?ps = "if runnable ps pid then set_run_count pid 0 ps else ps"
    have "share_loop ?ps ((pid + 1) mod SPROCS) \<noteq> None"
      using Suc.prems by (intro Suc.IH) (simp_all only: cyclic_succ, simp_all)
    then show ?thesis by (simp only: share_loop_miss [OF False] not_False_eq_True)
  qed
qed

lemma share_loop_spins:
  assumes "share_loop ps pid = Some r" "length ps = SPROCS" "pid < SPROCS"
  shows "\<exists>i < SPROCS. runnable ps i \<and> \<not> (sp_share (ps ! i) = 0 \<and> sp_run_count (ps ! i) = 0)"
proof -
  have "length ps = SPROCS \<longrightarrow> pid < SPROCS \<longrightarrow>
    (\<exists>i < SPROCS. runnable ps i \<and> \<not> (sp_share (ps ! i) = 0 \<and> sp_run_count (ps ! i) = 0))"
  proof (rule share_loop.raw_induct [where P = "\<lambda>ps pid r. length ps = SPROCS \<longrightarrow> pid < SPROCS \<longrightarrow>
    (\<exists>i < SPROCS. runnable ps i \<and> \<not> (sp_share (ps ! i) = 0 \<and> sp_run_count (ps ! i) = 0))", OF _ assms(1)])
    fix loop ps pid r
    let ?live = "\<lambda>ps. \<exists>i < SPROCS. runnable ps i \<and> \<not> (sp_share (ps ! i) = 0 \<and> sp_run_count (ps ! i) = 0)"
    assume IH: "\<And>ps pid r. loop ps pid = Some r \<Longrightarrow> length ps = SPROCS \<longrightarrow> pid < SPROCS \<longrightarrow> ?live ps"
      and eq: "(let p = ps ! pid in
        if sp_state p = P_RUNNABLE then
          if sp_share p = - 1 then Some (ps, pid)
          else if sp_run_count p \<noteq> sp_share p then Some (set_run_count pid (sp_run_count p + 1) ps, pid)
          else loop (set_run_count pid 0 ps) ((pid + 1) mod SPROCS)
        else loop ps ((pid + 1) mod SPROCS)) = Some r"
    show "length ps = SPROCS \<longrightarrow> pid < SPROCS \<longrightarrow> ?live ps"
    proof (intro impI)
      assume len: "length ps = SPROCS" and pid: "pid < SPROCS"
      have pull: "?live (set_run_count pid 0 ps) \<Longrightarrow> ?live ps"
        using len by (auto simp: nth_set_run_count split: if_splits)
      have succ: "(pid + 1) mod SPROCS < SPROCS" by simp
      show "?live ps"
        using eq pid pull IH [of "set_run_count pid 0 ps" "(pid + 1) mod SPROCS"]
          IH [of ps "(pid + 1) mod SPROCS"] len
        by (auto simp: Let_def split: if_splits)
    qed
  qed
  then show ?thesis using assms by blast
qed

section \<open>Multi-level queues\<close>

lemma upt_sprocs: "[1 ..< SPROCS] = [1, 2, 3, 4]"
  by code_simp

lemma best_priority_le: "best_priority ps pr \<le> pr"
  and best_priority_least:
    "0 < i \<Longrightarrow> i < SPROCS \<Longrightarrow> runnable ps i \<Longrightarrow> best_priority ps pr \<le> sp_priority (ps ! i)"
proof -
  let ?f = "\<lambda>i pr. if runnable ps i \<and> sp_priority (ps ! i) \<le> pr then sp_priority (ps ! i) else pr"
  have "fold ?f xs pr \<le> pr \<and> (\<forall>i \<in> set xs. runnable ps i \<longrightarrow> fold ?f xs pr \<le> sp_priority (ps ! i))"
    for xs
  proof (induction xs arbitrary: pr)
    case (Cons x xs)
    then show ?case using order_trans by (auto simp: not_le) fastforce+
  qed simp
  from this [of "[1 ..< SPROCS]"]
  have all: "best_priority ps pr \<le> pr \<and>
      (\<forall>i \<in> {1 ..< SPROCS}. runnable ps i \<longrightarrow> best_priority ps pr \<le> sp_priority (ps ! i))"
    unfolding best_priority_def set_upt .
  then show "best_priority ps pr \<le> pr" by blast
  show "0 < i \<Longrightarrow> i < SPROCS \<Longrightarrow> runnable ps i \<Longrightarrow> best_priority ps pr \<le> sp_priority (ps ! i)"
    using all by simp
qed

lemma best_priority_exact:
  assumes "0 < i" "i < SPROCS" "runnable ps i" "sp_priority (ps ! i) \<le> pr"
    and "\<forall>j < SPROCS. runnable ps j \<longrightarrow> sp_priority (ps ! i) \<le> sp_priority (ps ! j)"
  shows "best_priority ps pr = sp_priority (ps ! i)"
proof -
  let ?f = "\<lambda>i pr. if runnable ps i \<and> sp_priority (ps ! i) \<le> pr then sp_priority (ps ! i) else pr"
  have "set xs \<subseteq> {..< SPROCS} \<Longrightarrow> sp_priority (ps ! i) \<le> pr \<Longrightarrow> sp_priority (ps ! i) \<le> fold ?f xs pr" for xs pr
    by (induction xs arbitrary: pr) (use assms(5) in auto)
  moreover have "set [1 ..< SPROCS] \<subseteq> {..< SPROCS}" by (auto simp del: upt_rec_numeral)
  ultimately have "sp_priority (ps ! i) \<le> best_priority ps pr"
    using assms(4) unfolding best_priority_def by blast
  with best_priority_least [OF assms(1-3), of pr] show ?thesis by simp
qed

lemma best_priority_counts [simp]: "best_priority (set_run_count i c ps) pr = best_priority ps pr"
  unfolding best_priority_def by (simp cong: if_cong)

lemma level_loop_least:
  assumes "level_loop ps pid pr = Some (ps', j)"
    and "\<forall>i < SPROCS. runnable ps i \<longrightarrow> sp_share (ps ! i) \<noteq> - 1" "pid < SPROCS"
  shows "\<forall>i. 0 < i \<and> i < SPROCS \<and> runnable ps i \<longrightarrow> sp_priority (ps ! j) \<le> sp_priority (ps ! i)"
proof -
  let ?Q = "\<lambda>ps pid r. (\<forall>i < SPROCS. runnable ps i \<longrightarrow> sp_share (ps ! i) \<noteq> - 1) \<longrightarrow> pid < SPROCS \<longrightarrow>
    (\<forall>i. 0 < i \<and> i < SPROCS \<and> runnable ps i \<longrightarrow> sp_priority (ps ! snd r) \<le> sp_priority (ps ! i))"
  have "?Q ps pid (ps', j)"
  proof (rule level_loop.raw_induct [where P = "\<lambda>ps pid pr r. ?Q ps pid r", OF _ assms(1)])
    fix loop ps pid pr r
    assume IH: "\<And>ps pid pr r. loop ps pid pr = Some r \<Longrightarrow> ?Q ps pid r"
      and eq: "(let p = ps ! pid in
        if sp_state p = P_RUNNABLE \<and> sp_share p = - 1 then Some (ps, pid)
        else let pr = best_priority ps pr in
          if sp_state p = P_RUNNABLE \<and> sp_priority p \<le> pr then
            if sp_run_count p \<noteq> sp_share p then
              Some (set_run_count pid (sp_run_count p + 1) ps, pid)
            else loop (set_run_count pid 0 ps) ((pid + 1) mod SPROCS) pr
          else loop ps ((pid + 1) mod SPROCS) pr) = Some r"
    show "?Q ps pid r"
    proof (intro impI)
      assume shares: "\<forall>i < SPROCS. runnable ps i \<longrightarrow> sp_share (ps ! i) \<noteq> - 1" and pid: "pid < SPROCS"
      have least: "sp_priority (ps ! pid) \<le> best_priority ps pr \<Longrightarrow>
          \<forall>i. 0 < i \<and> i < SPROCS \<and> runnable ps i \<longrightarrow> sp_priority (ps ! pid) \<le> sp_priority (ps ! i)"
        using best_priority_least order_trans by blast
      show "\<forall>i. 0 < i \<and> i < SPROCS \<and> runnable ps i \<longrightarrow> sp_priority (ps ! snd r) \<le> sp_priority (ps ! i)"
        using eq shares pid IH [of "set_run_count pid 0 ps" "(pid + 1) mod SPROCS" "best_priority ps pr"]
          IH [of ps "(pid + 1) mod SPROCS" "best_priority ps pr"] least
        by (auto simp: Let_def split: if_splits)
    qed
  qed
  then show ?thesis using assms by simp
qed

section \<open>Properties of the kernel\<close>

text \<open>
  The states the kernel reaches, with any of the five algorithms chosen at boot and with
  the shared memory (the cursor, the lock, the screen) written by applications in between.
\<close>

inductive sched_reachable :: "sched \<Rightarrow> bool" where
  boot: "a < 5 \<Longrightarrow> sched_reachable (sched_start entry m\<lparr>algorithm := a\<rparr>)"
| shared: "sched_reachable k \<Longrightarrow> sched_reachable (k\<lparr>cursorpos := c, slock := l, smemory := m\<rparr>)"
| trap: "sched_reachable k \<Longrightarrow> sched_interrupt reg k = Some k' \<Longrightarrow> sched_reachable k'"

definition sched_table :: "sched \<Rightarrow> bool" where
  "sched_table k \<longleftrightarrow> length (sprocs k) = SPROCS \<and> (\<forall>i < SPROCS. sp_pid (sprocs k ! i) = i)
     \<and> sp_state (sprocs k ! 0) = P_EMPTY \<and> scurrent k < SPROCS"

lemma sched_ok_table: "sched_ok k \<longleftrightarrow> sched_table k \<and> runnable (sprocs k) (scurrent k)"
  by (auto simp: sched_ok_def sched_table_def)

lemma sched_table_counts:
  assumes "sched_table k" "same_but_counts (sprocs k) ps"
  shows "sched_table (k\<lparr>sprocs := ps\<rparr>)"
  using assms same_but_countsD [OF assms(2)] by (auto simp: sched_table_def same_but_counts_def)

lemma sched_table_upd_cur:
  assumes "sched_table k" "\<And>p. sp_pid (f p) = sp_pid p"
    "sp_state (sprocs k ! 0) = P_EMPTY \<Longrightarrow> scurrent k = 0 \<Longrightarrow> sp_state (f (sprocs k ! 0)) = P_EMPTY"
  shows "sched_table (upd_cur f k)"
  using assms by (auto simp: sched_table_def upd_cur_def nth_list_update)

lemma prio_pass_cases:
  assumes "\<not> runnable ps 0"
  obtains (some) d where "last_least ps c 5 d" "0 < (c + d) mod SPROCS"
      "fst (prio_pass ps c (0, 0xFFFFFFFF)) = (c + d) mod SPROCS"
  | (none) "\<forall>i < 5. \<not> runnable ps ((c + i) mod SPROCS)" "prio_pass ps c (0, 0xFFFFFFFF) = (0, 0xFFFFFFFF)"
proof -
  have "0 < (c + d) mod SPROCS" if "last_least ps c 5 d" for d
    using assms that by (auto simp: last_least_def intro: gr0I)
  then show thesis
    using prio_pass_inv [of ps c] some none unfolding prio_inv_def by fastforce
qed

lemma prio_loop_sound:
  assumes "prio_loop ps c (0, 0xFFFFFFFF) = Some i" "\<not> runnable ps 0"
  shows "\<exists>d. last_least ps c 5 d \<and> i = (c + d) mod SPROCS"
proof -
  let ?P = "\<lambda>ps c acc i. acc = (0 :: nat, 0xFFFFFFFF :: u32) \<longrightarrow> \<not> runnable ps 0 \<longrightarrow>
    (\<exists>d. last_least ps c 5 d \<and> i = (c + d) mod SPROCS)"
  have "?P ps c (0, 0xFFFFFFFF) i"
  proof (rule prio_loop.raw_induct [where P = ?P, OF _ assms(1)])
    fix loop ps c acc i
    assume IH: "\<And>ps c acc i. loop ps c acc = Some i \<Longrightarrow> ?P ps c acc i"
      and eq: "(let acc' = prio_pass ps c acc in if fst acc' \<noteq> 0 then Some (fst acc') else loop ps c acc') = Some i"
    show "?P ps c acc i"
    proof (intro impI)
      assume acc: "acc = (0, 0xFFFFFFFF)" and z: "\<not> runnable ps 0"
      from z show "\<exists>d. last_least ps c 5 d \<and> i = (c + d) mod SPROCS"
        by (rule prio_pass_cases [of ps c]) (use eq acc z IH in \<open>auto simp: Let_def\<close>)
    qed
  qed
  then show ?thesis using assms(2) by simp
qed

lemma prio_loop_returns:
  assumes "runnable ps i" "i < SPROCS" "\<not> runnable ps 0" "c < SPROCS"
  shows "\<exists>d. last_least ps c 5 d \<and> prio_loop ps c (0, 0xFFFFFFFF) = Some ((c + d) mod SPROCS)"
proof -
  obtain e where e: "e < SPROCS" "(c + e) mod SPROCS = i"
    using cyclic_distance [OF assms(2,4)] .
  from assms(3) show ?thesis
  proof (rule prio_pass_cases [of ps c])
    fix d
    assume "last_least ps c 5 d" "0 < (c + d) mod SPROCS"
      "fst (prio_pass ps c (0, 0xFFFFFFFF)) = (c + d) mod SPROCS"
    then show ?thesis
      by (intro exI [of _ d]) (subst prio_loop.simps, simp add: Let_def)
  next
    assume "\<forall>i < 5. \<not> runnable ps ((c + i) mod SPROCS)"
    then show ?thesis using e assms(1) by blast
  qed
qed

lemma sched_schedule_cases:
  assumes "sched_table k" "sched_schedule k = Some k'"
  obtains i ps where "k' = sched_run i (k\<lparr>sprocs := ps\<rparr>)" "i < SPROCS" "runnable (sprocs k) i"
    "same_but_counts (sprocs k) ps"
proof -
  let ?pid = "sp_pid (sprocs k ! scurrent k)"
  have pid: "?pid < SPROCS" and zero: "\<not> runnable (sprocs k) 0"
    using assms(1) by (auto simp: sched_table_def)
  have same: "sched_run i k = sched_run i (k\<lparr>sprocs := sprocs k\<rparr>)" for i by simp
  note loops = sched_rr.scan_in_range [of "sprocs k" ?pid] strict_loop_sound [of "sprocs k" 0]
    prio_loop_sound [of "sprocs k" ?pid, OF _ zero] share_loop_sound [of "sprocs k" ?pid]
    level_loop_sound [of "sprocs k" ?pid "0xFFFFFFFF"]
  have least: "last_least ps c 5 d \<Longrightarrow> (c + d) mod SPROCS < SPROCS \<and> runnable ps ((c + d) mod SPROCS)"
    for ps c d by (simp add: last_least_def)
  from assms(2) consider
    (keep) i where "k' = sched_run i k" "i < SPROCS" "runnable (sprocs k) i"
  | (count) i ps where "k' = sched_run i (k\<lparr>sprocs := ps\<rparr>)" "i < SPROCS" "runnable (sprocs k) i"
    "same_but_counts (sprocs k) ps"
    unfolding sched_schedule_def Let_def
    using loops pid least by (auto split: if_splits)
  then show thesis
  proof cases
    case keep
    then show thesis using that [of i "sprocs k"] by simp
  qed (rule that)
qed

lemma sched_schedule_ok:
  assumes "sched_table k" "sched_schedule k = Some k'"
  shows "sched_ok k'"
proof -
  obtain i ps where i: "k' = sched_run i (k\<lparr>sprocs := ps\<rparr>)" "i < SPROCS" "runnable (sprocs k) i"
    "same_but_counts (sprocs k) ps"
    using sched_schedule_cases [OF assms] .
  then show ?thesis
    using sched_table_counts [OF assms(1) i(4)] same_but_countsD(1) [OF i(4), of i] assms(1)
    by (auto simp: sched_ok_table sched_run_def sched_table_def)
qed

lemma sched_put_cell_fields [simp]:
  "sprocs (put_cell v k) = sprocs k" "scurrent (put_cell v k) = scurrent k"
  "algorithm (put_cell v k) = algorithm k"
  by (simp_all add: put_cell_def)

lemma sched_upd_cur_fields [simp]:
  "scurrent (upd_cur f k) = scurrent k" "algorithm (upd_cur f k) = algorithm k"
  "length (sprocs (upd_cur f k)) = length (sprocs k)"
  by (simp_all add: upd_cur_def)

lemma nth_upd_cur:
  "i < length (sprocs k) \<Longrightarrow> sprocs (upd_cur f k) ! i =
     (if i = scurrent k then f (sprocs k ! i) else sprocs k ! i)"
  by (simp add: upd_cur_def nth_list_update)

lemma sched_ok_run [simp]: "sched_ok (sched_run (scurrent k) k) = sched_ok k"
  by (simp add: sched_ok_def sched_run_def)

lemma sched_interrupt_ok:
  assumes "sched_ok k" "sched_interrupt reg k = Some k'"
  shows "sched_ok k'"
proof -
  let ?k = "upd_cur (\<lambda>p. p\<lparr>sp_registers := reg\<rparr>) k"
  have t: "sched_table k" and len: "length (sprocs k) = SPROCS" and c: "scurrent k < SPROCS"
    and r: "runnable (sprocs k) (scurrent k)" and ne: "scurrent k \<noteq> 0"
    using assms(1) by (auto simp: sched_ok_table sched_table_def intro!: gr0I)
  have t1: "sched_table ?k" using t by (rule sched_table_upd_cur) simp_all
  have t2: "sched_table (upd_cur (\<lambda>p. p\<lparr>sp_state := P_ZOMBIE, sp_exit_status := reg_eax reg\<rparr>) ?k)"
    using t1 ne t by (intro sched_table_upd_cur) simp_all
  have stay: "sched_ok (upd_cur f ?k)"
    if "\<And>p. sp_pid (f p) = sp_pid p" "\<And>p. sp_state (f p) = sp_state p" for f
    using sched_table_upd_cur [OF t1, of f] that r len c by (simp add: sched_ok_table nth_upd_cur)
  have ok: "sched_ok ?k" using t1 r len c by (simp add: sched_ok_table nth_upd_cur)
  have put: "sched_ok (put_cell v ?k)" for v using ok by (simp add: sched_ok_def)
  show ?thesis
    using assms(2) sched_schedule_ok [OF t1] sched_schedule_ok [OF t2] stay put sched_ok_run
    unfolding sched_interrupt_def Let_def
    by (auto split: if_splits simp: sched_ok_def sched_run_def)
qed

lemma sched_start_nth:
  "i < SPROCS \<Longrightarrow> 0 < i \<Longrightarrow> sprocs (sched_start e m) ! i = (sproc_empty i)\<lparr>
          sp_registers := sched_registers_init\<lparr>
            reg_esp := PROC1_START + of_nat i * PROC_SIZE, reg_eip := e (i - 1)\<rparr>,
          sp_state := P_RUNNABLE, sp_priority := 0, sp_share := - 1, sp_run_count := 0\<rparr>"
  "sprocs (sched_start e m) ! 0 = sproc_empty 0"
  by (simp_all add: sched_start_def nth_map [of i "[0 ..< SPROCS]"] del: upt_rec_numeral)

lemma sched_start_fields [simp]:
  "length (sprocs (sched_start e m)) = SPROCS" "scurrent (sched_start e m) = 1"
  "algorithm (sched_start e m) = 4"
  by (simp_all add: sched_start_def)

lemma sched_start_ok: "sched_ok (sched_start entry m\<lparr>algorithm := a\<rparr>)"
proof -
  have "sp_pid (sprocs (sched_start entry m) ! i) = i" if "i < SPROCS" for i
    using that by (cases "i = 0") (simp_all add: sched_start_nth sproc_empty_def)
  then show ?thesis
    by (simp add: sched_ok_def sched_start_nth) (simp add: sproc_empty_def)
qed



text \<open>
  Algorithm 2 (\<open>sys_setpriority\<close>) returns whenever a process is runnable. It picks a
  runnable process of least priority number, compared as unsigned, and among those the
  last one in cyclic order from the current process.
\<close>

theorem sched_priority_last_least:
  assumes "sched_table k" and "algorithm k = 2" and "i < SPROCS" and "runnable (sprocs k) i"
  shows "\<exists>d. last_least (sprocs k) (scurrent k) SPROCS d
    \<and> sched_schedule k = Some (sched_run ((scurrent k + d) mod SPROCS) k)"
proof -
  have "\<not> runnable (sprocs k) 0" "scurrent k < SPROCS" "sp_pid (sprocs k ! scurrent k) = scurrent k"
    using assms(1) by (auto simp: sched_table_def)
  then show ?thesis
    using prio_loop_returns [OF assms(4,3), of "scurrent k"] assms(2)
    by (auto simp: sched_schedule_def Let_def)
qed

theorem sched_priority_last_least_witness:
  "sched_schedule (sched_start (\<lambda>_. 0) (\<lambda>_. 0)\<lparr>algorithm := 2\<rparr>)
     = Some (sched_run 4 (sched_start (\<lambda>_. 0) (\<lambda>_. 0)\<lparr>algorithm := 2\<rparr>))"
proof -
  let ?k = "sched_start (\<lambda>_. 0) (\<lambda>_. 0)\<lparr>algorithm := 2\<rparr>"
  have t: "sched_table ?k" using sched_start_ok by (simp add: sched_ok_table)
  have r: "runnable (sprocs ?k) i" if "0 < i" "i < SPROCS" for i
    using that by (simp add: sched_start_nth)
  obtain d where d: "last_least (sprocs ?k) (scurrent ?k) SPROCS d"
      "sched_schedule ?k = Some (sched_run ((scurrent ?k + d) mod SPROCS) ?k)"
    using sched_priority_last_least [OF t, of 1] r [of 1] by auto
  have p: "sp_priority (sprocs ?k ! i) = 0" if "i < SPROCS" for i
    using that by (cases "i = 0") (simp_all add: sched_start_nth sproc_empty_def)
  have "d = 3"
  proof (rule ccontr)
    assume "d \<noteq> 3"
    moreover have "d < SPROCS" "runnable (sprocs ?k) ((1 + d) mod SPROCS)"
      using d(1) by (simp_all add: last_least_def)
    moreover have "(1 + 4) mod SPROCS = 0" "\<not> runnable (sprocs ?k) 0"
      by (simp_all add: sched_start_nth sproc_empty_def)
    ultimately have "d < 3" by (cases "d = 4") auto
    moreover have "runnable (sprocs ?k) ((1 + 3) mod SPROCS)" using r [of 4] by simp
    ultimately have "sp_priority (sprocs ?k ! ((1 + d) mod SPROCS)) < sp_priority (sprocs ?k ! ((1 + 3) mod SPROCS))"
      using d(1) unfolding last_least_def by (auto dest!: spec [of _ 3])
    then show False using p by simp
  qed
  then show ?thesis using d(2) by simp
qed

text \<open>Successive traps.\<close>

fun sched_traps :: "registers list \<Rightarrow> sched \<Rightarrow> sched option" where
  "sched_traps [] k = Some k"
| "sched_traps (r # rs) k = (case sched_interrupt r k of None \<Rightarrow> None | Some k' \<Rightarrow> sched_traps rs k')"

text \<open>
  C34: Algorithm 3 (\<open>sys_setshare\<close>) spins for ever exactly when every runnable process
  has share 0 and no quantum of an older share left over: then no process is ever
  run again although some are runnable.
\<close>

theorem sched_share_hangs_iff:
  assumes "sched_table k" and "algorithm k = 3"
  shows "sched_schedule k = None \<longleftrightarrow>
    (\<forall>i < SPROCS. runnable (sprocs k) i \<longrightarrow>
       sp_share (sprocs k ! i) = 0 \<and> sp_run_count (sprocs k ! i) = 0)"
proof -
  let ?ps = "sprocs k" and ?c = "scurrent k"
  have t: "length ?ps = SPROCS" "?c < SPROCS" "sp_pid (?ps ! ?c) = ?c"
    using assms(1) by (auto simp: sched_table_def)
  have eq: "sched_schedule k = None \<longleftrightarrow> share_loop ?ps ?c = None"
    using assms(2) t by (simp add: sched_schedule_def Let_def)
  have returns: "share_loop ?ps ?c \<noteq> None"
    if live: "i < SPROCS" "runnable ?ps i" "\<not> (sp_share (?ps ! i) = 0 \<and> sp_run_count (?ps ! i) = 0)" for i
  proof -
    obtain d where d: "d < SPROCS" "(?c + d) mod SPROCS = i"
      using cyclic_distance [OF live(1) t(2)] .
    show ?thesis
    proof (cases "sp_share (?ps ! i) = 0")
      case True
      then have "has_quantum ?ps i" using live by (simp add: has_quantum_def)
      then show ?thesis using share_loop_reaches [of ?ps ?c d] d t by auto
    next
      case False
      then show ?thesis using share_loop_returns [of ?ps ?c d] live(2) d t by simp
    qed
  qed
  show ?thesis
    unfolding eq
  proof (intro iffI allI impI)
    fix i
    assume "share_loop ?ps ?c = None" "i < SPROCS" "runnable ?ps i"
    then show "sp_share (?ps ! i) = 0 \<and> sp_run_count (?ps ! i) = 0"
      using returns [of i] by blast
  next
    assume "\<forall>i < SPROCS. runnable ?ps i \<longrightarrow> sp_share (?ps ! i) = 0 \<and> sp_run_count (?ps ! i) = 0"
    then show "share_loop ?ps ?c = None"
      using share_loop_spins [OF _ t(1,2)] by (metis not_Some_eq)
  qed
qed

text \<open>A table in which processes 1 to 4 are runnable with the given shares and run counts.\<close>

definition sdemo :: "nat \<Rightarrow> (nat \<Rightarrow> u32) \<Rightarrow> (nat \<Rightarrow> u32) \<Rightarrow> (nat \<Rightarrow> u32) \<Rightarrow> sched" where
  "sdemo a prio sh cnt = \<lparr>sprocs = map (\<lambda>i. (sproc_empty i)\<lparr>
       sp_state := (if i = 0 then P_EMPTY else P_RUNNABLE),
       sp_priority := prio i, sp_share := sh i, sp_run_count := cnt i\<rparr>) [0 ..< SPROCS],
     scurrent = 1, algorithm = a, cursorpos = 0, slock = 0, smemory = \<lambda>_. 0\<rparr>"

lemma sdemo_nth:
  "i < SPROCS \<Longrightarrow> sprocs (sdemo a prio sh cnt) ! i = (sproc_empty i)\<lparr>
       sp_state := (if i = 0 then P_EMPTY else P_RUNNABLE),
       sp_priority := prio i, sp_share := sh i, sp_run_count := cnt i\<rparr>"
  by (simp add: sdemo_def nth_map [of i "[0 ..< SPROCS]"] del: upt_rec_numeral)

lemma sdemo_fields [simp]:
  "length (sprocs (sdemo a prio sh cnt)) = SPROCS" "scurrent (sdemo a prio sh cnt) = 1"
  "algorithm (sdemo a prio sh cnt) = a"
  by (simp_all add: sdemo_def)

lemma sdemo_ok: "sched_ok (sdemo a prio sh cnt)"
  by (simp add: sched_ok_def sdemo_nth) (simp add: sproc_empty_def)

theorem sched_share_hangs_iff_witness:
  "sched_schedule (sdemo 3 (\<lambda>_. 0) (\<lambda>_. 0) (\<lambda>_. 0)) = None"
proof -
  let ?k = "sdemo 3 (\<lambda>_. 0) (\<lambda>_. 0) (\<lambda>_. 0)"
  have t: "sched_table ?k" "algorithm ?k = 3" using sdemo_ok by (simp_all add: sched_ok_table)
  show ?thesis unfolding sched_share_hangs_iff [OF t] by (simp add: sdemo_nth)
qed

text \<open>One clock tick or \<open>sys_yield\<close> under algorithm 3.\<close>

lemma share_tick_same:
  assumes "sched_ok k" "algorithm k = 3" "reg_intno reg = 32 \<or> reg_intno reg = 48"
    and "sp_share (sprocs k ! scurrent k) \<noteq> - 1"
    and "sp_run_count (sprocs k ! scurrent k) \<noteq> sp_share (sprocs k ! scurrent k)"
  shows "\<exists>k'. sched_interrupt reg k = Some k' \<and> scurrent k' = scurrent k \<and> algorithm k' = 3
    \<and> sp_run_count (sprocs k' ! scurrent k) = sp_run_count (sprocs k ! scurrent k) + 1
    \<and> sp_share (sprocs k' ! scurrent k) = sp_share (sprocs k ! scurrent k)
    \<and> (\<forall>j < SPROCS. j \<noteq> scurrent k \<longrightarrow> sprocs k' ! j = sprocs k ! j)"
proof -
  let ?c = "scurrent k"
  let ?k = "upd_cur (\<lambda>p. p\<lparr>sp_registers := reg\<rparr>) k"
  have ok: "length (sprocs k) = SPROCS" "?c < SPROCS" "sp_pid (sprocs k ! ?c) = ?c" "runnable (sprocs k) ?c"
    using assms(1) by (auto simp: sched_ok_def)
  have "share_loop (sprocs ?k) ?c
      = Some (set_run_count ?c (sp_run_count (sprocs k ! ?c) + 1) (sprocs ?k), ?c)"
    using ok assms(4,5) by (subst share_loop.simps) (simp add: Let_def nth_upd_cur)
  then have "sched_interrupt reg k = Some (sched_run ?c (?k\<lparr>sprocs :=
      set_run_count ?c (sp_run_count (sprocs k ! ?c) + 1) (sprocs ?k)\<rparr>))"
    using assms(2,3) ok by (auto simp: sched_interrupt_def sched_schedule_def Let_def nth_upd_cur)
  then show ?thesis
    using ok assms(2) by (intro exI) (auto simp: sched_run_def nth_set_run_count nth_upd_cur)
qed

text \<open>At the end of its share the process hands over to another one with a quantum left.\<close>

lemma share_tick_next:
  assumes "sched_ok k" "algorithm k = 3" "reg_intno reg = 32 \<or> reg_intno reg = 48"
    and "sp_share (sprocs k ! scurrent k) \<noteq> - 1"
    and "sp_run_count (sprocs k ! scurrent k) = sp_share (sprocs k ! scurrent k)"
    and "j < SPROCS" "j \<noteq> scurrent k" "has_quantum (sprocs k) j"
  shows "\<exists>k'. sched_interrupt reg k = Some k' \<and> scurrent k' \<noteq> scurrent k
    \<and> sp_run_count (sprocs k' ! scurrent k) = 0"
proof -
  let ?c = "scurrent k"
  let ?k = "upd_cur (\<lambda>p. p\<lparr>sp_registers := reg\<rparr>) k"
  let ?ps = "set_run_count ?c 0 (sprocs ?k)"
  have ok: "length (sprocs k) = SPROCS" "?c < SPROCS" "sp_pid (sprocs k ! ?c) = ?c" "runnable (sprocs k) ?c"
    using assms(1) by (auto simp: sched_ok_def)
  obtain d where d: "d < SPROCS" "(?c + d) mod SPROCS = j"
    using cyclic_distance [OF assms(6) ok(2)] .
  then obtain d' where d': "d = Suc d'" using assms(7) ok(2) by (cases d) auto
  have "has_quantum ?ps (((?c + 1) mod SPROCS + d') mod SPROCS)"
    unfolding cyclic_succ d' [symmetric] d(2)
    using assms(6-8) ok by (simp add: has_quantum_def nth_set_run_count nth_upd_cur)
  then have "\<exists>ps' e. e \<le> d' \<and> share_loop ?ps ((?c + 1) mod SPROCS) = Some (ps', ((?c + 1) mod SPROCS + e) mod SPROCS)
    \<and> (\<forall>x < SPROCS. (\<forall>f \<le> e. x \<noteq> ((?c + 1) mod SPROCS + f) mod SPROCS) \<longrightarrow> ps' ! x = ?ps ! x)"
    using d d' ok by (intro share_loop_reaches) simp_all
  then obtain ps' e where e: "e \<le> d'"
    "share_loop ?ps ((?c + 1) mod SPROCS) = Some (ps', (?c + Suc e) mod SPROCS)"
    "\<forall>x < SPROCS. (\<forall>f \<le> e. x \<noteq> (?c + Suc f) mod SPROCS) \<longrightarrow> ps' ! x = ?ps ! x"
    unfolding cyclic_succ by blast
  have away: "(?c + Suc f) mod SPROCS \<noteq> ?c" if "f \<le> e" for f
  proof
    assume "(?c + Suc f) mod SPROCS = ?c"
    moreover have "Suc f < SPROCS" using that e(1) d d' by simp
    ultimately show False using ok(2) by (auto simp: mod_if split: if_splits)
  qed
  then have "ps' ! ?c = ?ps ! ?c" using e(3) ok(2) by metis
  then have zero: "sp_run_count (ps' ! ?c) = 0" using ok by (simp add: nth_set_run_count)
  have "share_loop (sprocs ?k) ?c = share_loop ?ps ((?c + 1) mod SPROCS)"
    using ok assms(4,5) by (subst share_loop.simps) (simp add: Let_def nth_upd_cur)
  then have "sched_interrupt reg k = Some (sched_run ((?c + Suc e) mod SPROCS) (?k\<lparr>sprocs := ps'\<rparr>))"
    using assms(2,3) ok e(2) by (auto simp: sched_interrupt_def sched_schedule_def Let_def nth_upd_cur)
  then show ?thesis
    using zero away [of e] by (intro exI) (auto simp: sched_run_def)
qed

lemma share_ticks:
  assumes "sched_ok k" "algorithm k = 3" "\<forall>r \<in> set rs. reg_intno r = 32 \<or> reg_intno r = 48"
    and "sp_share (sprocs k ! scurrent k) \<noteq> - 1"
    and "unat (sp_run_count (sprocs k ! scurrent k)) + length rs \<le> unat (sp_share (sprocs k ! scurrent k))"
  shows "\<exists>k'. sched_traps rs k = Some k' \<and> sched_ok k' \<and> scurrent k' = scurrent k \<and> algorithm k' = 3
    \<and> unat (sp_run_count (sprocs k' ! scurrent k)) = unat (sp_run_count (sprocs k ! scurrent k)) + length rs
    \<and> sp_share (sprocs k' ! scurrent k) = sp_share (sprocs k ! scurrent k)
    \<and> (\<forall>j < SPROCS. j \<noteq> scurrent k \<longrightarrow> sprocs k' ! j = sprocs k ! j)"
  using assms
proof (induction rs arbitrary: k)
  case (Cons r rs)
  let ?p = "sprocs k ! scurrent k"
  have lt: "unat (sp_run_count ?p) < unat (sp_share ?p)" using Cons.prems(5) by simp
  then have "sp_run_count ?p \<noteq> sp_share ?p" by auto
  then obtain k1 where k1: "sched_interrupt r k = Some k1" "scurrent k1 = scurrent k" "algorithm k1 = 3"
      "sp_run_count (sprocs k1 ! scurrent k) = sp_run_count ?p + 1"
      "sp_share (sprocs k1 ! scurrent k) = sp_share ?p"
      "\<forall>j < SPROCS. j \<noteq> scurrent k \<longrightarrow> sprocs k1 ! j = sprocs k ! j"
    using share_tick_same [OF Cons.prems(1,2), of r] Cons.prems(3,4) by auto
  have "unat (sp_share ?p) < 4294967296" by (rule unat_u32_less)
  then have inc: "unat (sp_run_count ?p + 1) = unat (sp_run_count ?p) + 1"
    using lt by (subst unat_add_no_wrap) simp_all
  have "sched_ok k1" using sched_interrupt_ok [OF Cons.prems(1) k1(1)] .
  then obtain k2 where "sched_traps rs k1 = Some k2" "sched_ok k2" "scurrent k2 = scurrent k1" "algorithm k2 = 3"
    "unat (sp_run_count (sprocs k2 ! scurrent k1)) = unat (sp_run_count (sprocs k1 ! scurrent k1)) + length rs"
    "sp_share (sprocs k2 ! scurrent k1) = sp_share (sprocs k1 ! scurrent k1)"
    "\<forall>j < SPROCS. j \<noteq> scurrent k1 \<longrightarrow> sprocs k2 ! j = sprocs k1 ! j"
    using Cons.IH [of k1] Cons.prems(3-5) k1 inc by auto
  then show ?case using k1 inc by (intro exI [of _ k2]) simp
qed auto

text \<open>
  Under algorithm 3 a process with share \<open>s\<close> keeps the processor for exactly as many
  yields and clock ticks as its share has left; the next one sets its run count back to
  0 and switches to another process, if another one has a quantum left.
\<close>

theorem sched_share_quota:
  assumes "sched_ok k" and "algorithm k = 3"
    and "\<forall>r \<in> set (rs @ [fin]). reg_intno r = 32 \<or> reg_intno r = 48"
    and "sp_share (sprocs k ! scurrent k) \<noteq> - 1"
    and "unat (sp_run_count (sprocs k ! scurrent k)) + length rs = unat (sp_share (sprocs k ! scurrent k))"
    and "j < SPROCS" "j \<noteq> scurrent k" "has_quantum (sprocs k) j"
  shows "(\<forall>n \<le> length rs. \<exists>k'. sched_traps (take n rs) k = Some k' \<and> scurrent k' = scurrent k)
    \<and> (\<exists>k' k''. sched_traps rs k = Some k' \<and> sched_interrupt fin k' = Some k''
        \<and> scurrent k'' \<noteq> scurrent k \<and> sp_run_count (sprocs k'' ! scurrent k) = 0)"
proof (intro conjI allI impI)
  fix n assume "n \<le> length rs"
  then show "\<exists>k'. sched_traps (take n rs) k = Some k' \<and> scurrent k' = scurrent k"
    using share_ticks [OF assms(1,2), of "take n rs"] assms(3-5) set_take_subset [of n rs] by auto
next
  obtain k' where k': "sched_traps rs k = Some k'" "sched_ok k'" "scurrent k' = scurrent k" "algorithm k' = 3"
    "unat (sp_run_count (sprocs k' ! scurrent k)) = unat (sp_run_count (sprocs k ! scurrent k)) + length rs"
    "sp_share (sprocs k' ! scurrent k) = sp_share (sprocs k ! scurrent k)"
    "\<forall>j < SPROCS. j \<noteq> scurrent k \<longrightarrow> sprocs k' ! j = sprocs k ! j"
    using share_ticks [OF assms(1,2), of rs] assms(3-5) by auto
  have "sp_run_count (sprocs k' ! scurrent k) = sp_share (sprocs k' ! scurrent k)"
    using k'(5,6) assms(5) by (simp add: word_unat_eq_iff)
  moreover have "has_quantum (sprocs k') j" using k'(7) assms(6-8) by (simp add: has_quantum_def)
  ultimately show "\<exists>k' k''. sched_traps rs k = Some k' \<and> sched_interrupt fin k' = Some k''
        \<and> scurrent k'' \<noteq> scurrent k \<and> sp_run_count (sprocs k'' ! scurrent k) = 0"
    using share_tick_next [OF k'(2,4), of fin j] assms(3,4,6,7) k' by auto
qed

theorem sched_share_quota_witness:
  "(\<exists>k'. sched_traps [trap_regs 48 0 0, trap_regs 32 0 0] (sdemo 3 (\<lambda>_. 0) (\<lambda>i. of_nat (i + 1)) (\<lambda>_. 0)) = Some k'
      \<and> scurrent k' = 1)
   \<and> (\<exists>k''. sched_traps [trap_regs 48 0 0, trap_regs 32 0 0, trap_regs 48 0 0]
        (sdemo 3 (\<lambda>_. 0) (\<lambda>i. of_nat (i + 1)) (\<lambda>_. 0)) = Some k'' \<and> scurrent k'' \<noteq> 1)"
proof -
  let ?k = "sdemo 3 (\<lambda>_. 0) (\<lambda>i. of_nat (i + 1)) (\<lambda>_. 0)"
  let ?rs = "[trap_regs 48 0 0, trap_regs 32 0 0]"
  have a: "\<forall>r \<in> set (?rs @ [trap_regs 48 0 0]). reg_intno r = 32 \<or> reg_intno r = 48" by simp
  have b: "sp_share (sprocs ?k ! scurrent ?k) \<noteq> - 1" by (simp add: sdemo_nth)
  have c: "unat (sp_run_count (sprocs ?k ! scurrent ?k)) + length ?rs = unat (sp_share (sprocs ?k ! scurrent ?k))"
    by (simp add: sdemo_nth)
  have d: "(2::nat) < SPROCS" "2 \<noteq> scurrent ?k" "has_quantum (sprocs ?k) 2"
    by (simp_all add: sdemo_nth has_quantum_def)
  have all: "\<exists>k'. sched_traps (take 2 ?rs) ?k = Some k' \<and> scurrent k' = scurrent ?k"
    "\<exists>k' k''. sched_traps ?rs ?k = Some k' \<and> sched_interrupt (trap_regs 48 0 0) k' = Some k'' \<and> scurrent k'' \<noteq> scurrent ?k"
    using sched_share_quota [OF sdemo_ok _ a b c d] by (fastforce simp del: take_Cons_numeral)+
  then show ?thesis by (auto split: option.splits)
qed

lemma level_loop_current:
  "runnable ps pid \<Longrightarrow> sp_share (ps ! pid) = - 1 \<Longrightarrow> level_loop ps pid pr = Some (ps, pid)"
  by (subst level_loop.simps) (simp add: Let_def)

text \<open>The state of an application that has not set a share, under the boot algorithm.\<close>

definition default_share :: "sched \<Rightarrow> bool" where
  "default_share k \<longleftrightarrow> sched_ok k \<and> algorithm k = 4 \<and> sp_share (sprocs k ! scurrent k) = - 1"

lemma default_share_trap:
  assumes "default_share k" "reg_intno reg \<in> {32, 48, 50, 52}"
  shows "\<exists>k'. sched_interrupt reg k = Some k' \<and> default_share k' \<and> scurrent k' = scurrent k"
proof -
  let ?c = "scurrent k"
  let ?k = "upd_cur (\<lambda>p. p\<lparr>sp_registers := reg\<rparr>) k"
  have ok: "length (sprocs k) = SPROCS" "?c < SPROCS" "sp_pid (sprocs k ! ?c) = ?c" "runnable (sprocs k) ?c"
    and ok': "sched_ok k" "algorithm k = 4" "sp_share (sprocs k ! ?c) = - 1"
    using assms(1) by (auto simp: default_share_def sched_ok_def)
  have "level_loop (sprocs ?k) ?c 0xFFFFFFFF = Some (sprocs ?k, ?c)"
    using ok ok' by (intro level_loop_current) (simp_all add: nth_upd_cur)
  then have stay: "sched_schedule ?k = Some (sched_run ?c ?k)"
    using ok ok' by (simp add: sched_schedule_def Let_def nth_upd_cur)
  have "\<exists>k'. sched_interrupt reg k = Some k' \<and> scurrent k' = ?c \<and> algorithm k' = 4
      \<and> sp_share (sprocs k' ! ?c) = - 1"
    using assms(2) stay ok ok' by (auto simp: sched_interrupt_def Let_def sched_run_def nth_upd_cur)
  then show ?thesis
    using sched_interrupt_ok [OF ok'(1)] by (auto simp: default_share_def)
qed

text \<open>
  C35: The kernel boots with algorithm 4 and share -1 everywhere, and a process with share -1
  keeps the processor whatever the priorities are: through any sequence of clock ticks,
  yields, prints and \<open>sys_setpriority\<close> calls process 1 runs and the others starve.
\<close>

theorem sched_boot_starves_others:
  assumes "\<forall>r \<in> set rs. reg_intno r \<in> {32, 48, 50, 52}"
  shows "\<exists>k. sched_traps rs (sched_start entry m) = Some k \<and> scurrent k = 1"
proof -
  have "default_share k \<Longrightarrow> \<exists>k'. sched_traps rs k = Some k' \<and> scurrent k' = scurrent k" for k
    using assms
  proof (induction rs arbitrary: k)
    case (Cons r rs)
    obtain k1 where "sched_interrupt r k = Some k1" "default_share k1" "scurrent k1 = scurrent k"
      using default_share_trap [OF Cons.prems(1), of r] Cons.prems(2) by auto
    then show ?case using Cons.IH [of k1] Cons.prems(2) by simp
  qed simp
  moreover have "default_share (sched_start entry m)"
    using sched_start_ok [where entry = entry and m = m and a = 4] by (simp add: default_share_def sched_start_nth sched_start_def)
  ultimately show ?thesis by fastforce
qed

theorem sched_boot_starves_others_witness:
  "\<exists>k. sched_traps [trap_regs 50 9 0, trap_regs 48 0 0] (sched_start (\<lambda>_. 0x200000) (\<lambda>_. 0)) = Some k
     \<and> scurrent k = 1"
  by (rule sched_boot_starves_others) simp

text \<open>
  When every runnable process has set a share, algorithm 4 is the multi-level queue it
  is meant to be: the process it picks is runnable and no runnable process has a
  smaller priority number (as unsigned), and only run counts change.
\<close>

theorem sched_levels_pick_least_priority:
  assumes "sched_table k" and "algorithm k = 4"
    and "\<forall>i < SPROCS. runnable (sprocs k) i \<longrightarrow> sp_share (sprocs k ! i) \<noteq> - 1"
    and "sched_schedule k = Some k'"
  shows "runnable (sprocs k) (scurrent k')
    \<and> (\<forall>i < SPROCS. runnable (sprocs k) i \<longrightarrow>
         sp_priority (sprocs k ! scurrent k') \<le> sp_priority (sprocs k ! i))
    \<and> same_but_counts (sprocs k) (sprocs k')"
proof -
  have t: "scurrent k < SPROCS" "sp_pid (sprocs k ! scurrent k) = scurrent k" "\<not> runnable (sprocs k) 0"
    using assms(1) by (auto simp: sched_table_def)
  obtain ps j where j: "level_loop (sprocs k) (scurrent k) 0xFFFFFFFF = Some (ps, j)"
      "k' = sched_run j (k\<lparr>sprocs := ps\<rparr>)"
    using assms(2,4) t by (auto simp: sched_schedule_def Let_def)
  have "sp_priority (sprocs k ! j) \<le> sp_priority (sprocs k ! i)"
    if "i < SPROCS" "runnable (sprocs k) i" for i
    using level_loop_least [OF j(1) assms(3) t(1)] that t(3) by (cases "i = 0") auto
  then show ?thesis
    using level_loop_sound [OF j(1)] j(2) by (simp add: sched_run_def)
qed

theorem sched_levels_pick_least_priority_witness:
  "\<exists>k'. sched_schedule (sdemo 4 (\<lambda>i. of_nat i) (\<lambda>_. 2) (\<lambda>_. 0)) = Some k'
     \<and> sp_priority (sprocs (sdemo 4 (\<lambda>i. of_nat i) (\<lambda>_. 2) (\<lambda>_. 0)) ! scurrent k') \<le> 1"
proof -
  let ?k = "sdemo 4 (\<lambda>i. of_nat i) (\<lambda>_. 2) (\<lambda>_. 0)"
  have t: "sched_table ?k" "algorithm ?k = 4" using sdemo_ok by (simp_all add: sched_ok_table)
  have sh: "\<forall>i < SPROCS. runnable (sprocs ?k) i \<longrightarrow> sp_share (sprocs ?k ! i) \<noteq> - 1"
    by (simp add: sdemo_nth)
  have "best_priority (sprocs ?k) 0xFFFFFFFF = 1"
    unfolding best_priority_def upt_sprocs by (simp add: sdemo_nth word_le_nat_alt)
  then have "level_loop (sprocs ?k) 1 0xFFFFFFFF = Some (set_run_count 1 1 (sprocs ?k), 1)"
    by (subst level_loop.simps) (simp add: Let_def sdemo_nth)
  then obtain k' where k': "sched_schedule ?k = Some k'"
    by (simp add: sched_schedule_def Let_def sdemo_nth sproc_empty_def)
  have "sp_priority (sprocs ?k ! scurrent k') \<le> sp_priority (sprocs ?k ! 1)"
    using sched_levels_pick_least_priority [OF t sh k'] by (auto simp: sdemo_nth dest!: spec [of _ 1])
  then show ?thesis using k' by (simp add: sdemo_nth)
qed

end
