(* ===== verification/Osprd.thy ===== *)
theory Osprd
  imports Prelude "HOL-Library.Monad_Syntax"
begin

text \<open>
  The ramdisk lock of lab2/osprd.c: the device state, the ioctl commands ACQUIRE, TRYACQUIRE
  and RELEASE, close, and the block requests, with the spin lock of lab2/spinlock.h. That
  spin lock is the one of kernels without SMP and preemption, where a task runs until it
  sleeps; so the code of a command up to the wait is one step, and so is what a woken
  task runs from its check of the wait condition on. Each section under the
  mutex is a definition of its own, so that \<open>OsprdLock\<close> can also interleave them as an
  SMP kernel would.
\<close>

section \<open>Device and file state\<close>

text \<open>
  \<open>read_nodes\<close> is the kernel heap of \<open>struct locking_pid\<close>: nothing is ever freed, so
  \<open>kmalloc\<close> appends a node, address \<open>a > 0\<close> is node \<open>a - 1\<close> and 0 is NULL.
  \<open>invalidTicketList\<close> is the used part of the array, so its length is \<open>num_invalid\<close>.
  \<open>kills\<close> counts the SIGKILLs the spin lock sends to the running task.
\<close>

record rnode =
  rn_pid :: int
  rn_next :: nat

record osprd =
  mutex :: int
  kills :: nat
  ticket_head :: u32
  ticket_tail :: u32
  write_locking_pids :: int
  num_write :: int
  read_nodes :: "rnode list"
  read_locking_pids :: nat
  num_read :: int
  invalidTicketList :: "u32 list"

record ofile =
  f_writable :: bool
  f_flags :: u32

abbreviation MAX_INVALID :: nat where "MAX_INVALID \<equiv> 100"
definition F_OSPRD_LOCKED :: u32 where "F_OSPRD_LOCKED = 0x80000"
definition O_SYNC :: u32 where "O_SYNC = 0x1000"

definition osprd_setup :: osprd where
  "osprd_setup = \<lparr>mutex = 0, kills = 0, ticket_head = 0, ticket_tail = 0,
     write_locking_pids = - 1, num_write = 0, read_nodes = [], read_locking_pids = 0,
     num_read = 0, invalidTicketList = []\<rparr>"

definition osprd_open :: "ofile \<Rightarrow> ofile" where
  "osprd_open f = f\<lparr>f_flags := f_flags f OR O_SYNC\<rparr>"

text \<open>C's logical negation, which \<open>f_flags &= !F_OSPRD_LOCKED\<close> uses.\<close>

definition c_not :: "u32 \<Rightarrow> u32" where
  "c_not x = (if x = 0 then 1 else 0)"

definition file_locked :: "ofile \<Rightarrow> bool" where
  "file_locked f \<longleftrightarrow> f_flags f AND F_OSPRD_LOCKED \<noteq> 0"

definition set_locked :: "ofile \<Rightarrow> ofile" where
  "set_locked f = f\<lparr>f_flags := f_flags f OR F_OSPRD_LOCKED\<rparr>"

definition clear_locked :: "ofile \<Rightarrow> ofile" where
  "clear_locked f = f\<lparr>f_flags := f_flags f AND c_not F_OSPRD_LOCKED\<rparr>"

section \<open>The spin lock\<close>

definition osp_spin_lock :: "osprd \<Rightarrow> osprd" where
  "osp_spin_lock d = d\<lparr>mutex := mutex d - 1,
     kills := (if mutex d < 0 then kills d + 1 else kills d)\<rparr>"

definition osp_spin_unlock :: "osprd \<Rightarrow> osprd" where
  "osp_spin_unlock d = d\<lparr>mutex := mutex d + 1\<rparr>"

section \<open>The list of read-locking processes\<close>

text \<open>The loops follow pointers, so on a cyclic list they do not end: \<open>None\<close>.\<close>

definition node :: "rnode list \<Rightarrow> nat \<Rightarrow> rnode" where
  "node ns a = ns ! (a - 1)"

definition set_next :: "nat \<Rightarrow> nat \<Rightarrow> rnode list \<Rightarrow> rnode list" where
  "set_next a v ns = ns[a - 1 := (ns ! (a - 1))\<lparr>rn_next := v\<rparr>]"

partial_function (option) find_reader :: "rnode list \<Rightarrow> int \<Rightarrow> nat \<Rightarrow> bool option" where
  "find_reader ns pid temp0 =
     (if temp0 = 0 then Some False
      else if rn_pid (node ns temp0) = pid then Some True
      else find_reader ns pid (rn_next (node ns temp0)))"

partial_function (option) last_reader :: "rnode list \<Rightarrow> nat \<Rightarrow> nat option" where
  "last_reader ns temp =
     (if rn_next (node ns temp) = 0 then Some temp else last_reader ns (rn_next (node ns temp)))"

definition add_reader :: "int \<Rightarrow> osprd \<Rightarrow> osprd option" where
  "add_reader pid d =
     (let ns = read_nodes d; new = length ns + 1; n = \<lparr>rn_pid = pid, rn_next = 0\<rparr> in
      if read_locking_pids d = 0
      then Some (d\<lparr>read_nodes := ns @ [n], read_locking_pids := new\<rparr>)
      else do {
        temp \<leftarrow> last_reader ns (read_locking_pids d);
        Some (d\<lparr>read_nodes := set_next temp new ns @ [n]\<rparr>)
      })"

text \<open>The two cursors of the removal loop, the nodes and the list head.\<close>

partial_function (option) del_reader_loop ::
  "int \<Rightarrow> nat \<Rightarrow> nat \<Rightarrow> rnode list \<Rightarrow> nat \<Rightarrow> (rnode list \<times> nat) option" where
  "del_reader_loop pid temp nxt ns head =
     (if nxt = 0 then Some (ns, head)
      else if rn_pid (node ns nxt) = pid then
        (if temp = 0 then Some (ns, rn_next (node ns nxt))
         else Some (set_next temp (rn_next (node ns nxt)) ns, head))
      else del_reader_loop pid (rn_next (node ns temp)) (rn_next (node ns nxt)) ns head)"

definition del_reader :: "int \<Rightarrow> osprd \<Rightarrow> osprd option" where
  "del_reader pid d = do {
     (ns, head) \<leftarrow> del_reader_loop pid (read_locking_pids d) (read_locking_pids d)
       (read_nodes d) (read_locking_pids d);
     Some (d\<lparr>read_nodes := ns, read_locking_pids := head\<rparr>)
   }"

section \<open>Tickets\<close>

text \<open>
  The loop after \<open>ticket_tail++\<close> that skips the tickets of interrupted tasks: a match at
  \<open>i\<close> advances the tail and starts again from the first entry.
\<close>

partial_function (option) skip_invalid :: "u32 list \<Rightarrow> nat \<Rightarrow> u32 \<Rightarrow> u32 option" where
  "skip_invalid bad i tail =
     (if i < length bad then
        (if tail = bad ! i then skip_invalid bad 0 (tail + 1) else skip_invalid bad (i + 1) tail)
      else Some tail)"

definition next_ticket :: "osprd \<Rightarrow> osprd option" where
  "next_ticket d = do {
     t \<leftarrow> skip_invalid (invalidTicketList d) 0 (ticket_tail d + 1);
     Some (d\<lparr>ticket_tail := t\<rparr>)
   }"

declare find_reader.simps [code] last_reader.simps [code] del_reader_loop.simps [code]
  skip_invalid.simps [code]

section \<open>ioctl\<close>

datatype reply = Done | Fail errno | Waits u32

text \<open>ACQUIRE up to the wait: the ticket, and the deadlock checks.\<close>

definition acquire_ticket :: "int \<Rightarrow> osprd \<Rightarrow> reply \<times> osprd" where
  "acquire_ticket pid d0 =
     (let d = osp_spin_lock d0; my_ticket = ticket_head d;
          d1 = d\<lparr>ticket_head := ticket_head d + 1\<rparr> in
      if pid = write_locking_pids d1 then (Fail EDEADLK, osp_spin_unlock d1)
      else (Waits my_ticket, osp_spin_unlock d1))"

definition acquire_check :: "bool \<Rightarrow> int \<Rightarrow> u32 \<Rightarrow> osprd \<Rightarrow> (reply \<times> osprd) option" where
  "acquire_check writable pid my_ticket d0 =
     (if writable then do {
        found \<leftarrow> find_reader (read_nodes d0) pid (read_locking_pids d0);
        let d = osp_spin_unlock (osp_spin_lock d0);
        Some (if found then Fail EDEADLK else Waits my_ticket, d)
      }
      else Some (Waits my_ticket, d0))"

definition acquire_enter :: "bool \<Rightarrow> int \<Rightarrow> osprd \<Rightarrow> (reply \<times> osprd) option" where
  "acquire_enter writable pid d =
     (case acquire_ticket pid d of
        (Waits t, d1) \<Rightarrow> acquire_check writable pid t d1
      | (r, d1) \<Rightarrow> Some (r, d1))"

definition wait_cond :: "bool \<Rightarrow> u32 \<Rightarrow> osprd \<Rightarrow> bool" where
  "wait_cond writable my_ticket d \<longleftrightarrow> ticket_tail d = my_ticket \<and> num_write d = 0
     \<and> (writable \<longrightarrow> num_read d = 0)"

text \<open>After the wait: interrupted by a signal, or the lock is granted.\<close>

definition acquire_interrupted :: "u32 \<Rightarrow> osprd \<Rightarrow> osprd option" where
  "acquire_interrupted my_ticket d =
     (if ticket_tail d = my_ticket then next_ticket d
      else if length (invalidTicketList d) < MAX_INVALID
      then Some (d\<lparr>invalidTicketList := invalidTicketList d @ [my_ticket]\<rparr>)
      else None)"

definition take_write :: "int \<Rightarrow> osprd \<Rightarrow> osprd" where
  "take_write pid d = d\<lparr>num_write := num_write d + 1, write_locking_pids := pid\<rparr>"

definition take_read :: "int \<Rightarrow> osprd \<Rightarrow> osprd option" where
  "take_read pid d = add_reader pid (d\<lparr>num_read := num_read d + 1\<rparr>)"

definition acquire_granted :: "int \<Rightarrow> ofile \<Rightarrow> osprd \<Rightarrow> (ofile \<times> osprd) option" where
  "acquire_granted pid f d0 = do {
     let d = osp_spin_lock d0;
     d1 \<leftarrow> (if f_writable f then Some (take_write pid d) else take_read pid d);
     d2 \<leftarrow> next_ticket d1;
     Some (set_locked f, osp_spin_unlock d2)
   }"

text \<open>TRYACQUIRE: its first section under the mutex, then the second.\<close>

definition try_ticket :: "int \<Rightarrow> osprd \<Rightarrow> reply \<times> osprd" where
  "try_ticket pid d0 =
     (let d = osp_spin_lock d0; my_ticket = ticket_head d in
      if write_locking_pids d = pid then (Fail EDEADLK, osp_spin_unlock d)
      else (Waits my_ticket, osp_spin_unlock d))"

definition try_lock :: "int \<Rightarrow> u32 \<Rightarrow> ofile \<Rightarrow> osprd \<Rightarrow> (reply \<times> ofile \<times> osprd) option" where
  "try_lock pid my_ticket f d0 =
     (let d = osp_spin_lock d0 in
      if f_writable f then
        (if num_write d > 0 \<or> num_read d > 0 \<or> my_ticket \<noteq> ticket_tail d
         then Some (Fail EBUSY, f, osp_spin_unlock d)
         else Some (Done, set_locked f, osp_spin_unlock (take_write pid d)))
      else
        (if num_write d \<noteq> 0 \<or> my_ticket \<noteq> ticket_tail d
         then Some (Fail EBUSY, f, d)
         else do {
           d1 \<leftarrow> take_read pid d;
           Some (Done, set_locked f, osp_spin_unlock d1)
         }))"

definition try_acquire :: "int \<Rightarrow> ofile \<Rightarrow> osprd \<Rightarrow> (reply \<times> ofile \<times> osprd) option" where
  "try_acquire pid f d =
     (case try_ticket pid d of
        (Waits t, d1) \<Rightarrow> try_lock pid t f d1
      | (r, d1) \<Rightarrow> Some (r, f, d1))"

text \<open>
  RELEASE: the reply, the file, the device and whether \<open>wake_up_all\<close> was called. The error
  branch leaves the mutex locked, the branch of a read lock wakes nobody.
\<close>

definition release_counts :: "int \<Rightarrow> bool \<Rightarrow> osprd \<Rightarrow> osprd option" where
  "release_counts pid writable d =
     (if writable then Some (d\<lparr>num_write := 0, write_locking_pids := - 1\<rparr>)
      else del_reader pid (d\<lparr>num_read := num_read d - 1\<rparr>))"

definition release :: "int \<Rightarrow> ofile \<Rightarrow> osprd \<Rightarrow> (reply \<times> ofile \<times> osprd \<times> bool) option" where
  "release pid f d0 =
     (let d = osp_spin_lock d0 in
      if \<not> file_locked f then Some (Fail EINVAL, f, d, False)
      else do {
        d1 \<leftarrow> release_counts pid (f_writable f) d;
        Some (Done, clear_locked f, osp_spin_unlock d1, f_writable f)
      })"

definition osprd_close_last :: "int \<Rightarrow> ofile \<Rightarrow> osprd \<Rightarrow> (ofile \<times> osprd \<times> bool) option" where
  "osprd_close_last pid f d0 =
     (let d = osp_spin_lock d0 in
      if file_locked f then do {
        d1 \<leftarrow> release_counts pid (f_writable f) d;
        Some (clear_locked f, osp_spin_unlock d1, True)
      }
      else Some (f, osp_spin_unlock d, False))"

section \<open>Block requests\<close>

text \<open>
  A request of the block layer: \<open>blk_fs_request\<close>, the first sector, the number of sectors
  and the direction. Data array and request buffer are parts of one memory. The result
  lists the \<open>end_request\<close> calls: the tests have no \<open>return\<close>.
\<close>

datatype req_dir = READ | WRITE | OTHER

record request =
  rq_fs :: bool
  rq_sector :: nat
  rq_nr_sectors :: nat
  rq_dir :: req_dir
  rq_buffer :: nat

abbreviation SECTOR_SIZE :: nat where "SECTOR_SIZE \<equiv> 512"

definition copy_bytes :: "mem \<Rightarrow> nat \<Rightarrow> nat \<Rightarrow> nat \<Rightarrow> mem" where
  "copy_bytes m dst src n = mem_put m dst (mem_get m src n)"

definition osprd_process_request ::
  "nat \<Rightarrow> nat \<Rightarrow> request \<Rightarrow> mem \<Rightarrow> nat list \<times> mem" where
  "osprd_process_request nsectors data rq m =
     (if \<not> rq_fs rq then ([0], m)
      else
        let dataPtr = data + rq_sector rq * SECTOR_SIZE;
            n = rq_nr_sectors rq * SECTOR_SIZE;
            range = (if rq_nr_sectors rq + rq_sector rq > nsectors then [0] else [])
        in case rq_dir rq of
             READ \<Rightarrow> (range @ [1], copy_bytes m (rq_buffer rq) dataPtr n)
           | WRITE \<Rightarrow> (range @ [1], copy_bytes m dataPtr (rq_buffer rq) n)
           | OTHER \<Rightarrow> (range @ [0] @ [1], m))"

section \<open>The system of tasks\<close>

text \<open>
  Open files by number, and the tasks inside an ACQUIRE that wait on \<open>blockq\<close>. A task whose
  \<open>w_awake\<close> is false sleeps; it looks at its wait condition only when it is awake.
\<close>

record waiter =
  w_pid :: int
  w_file :: nat
  w_ticket :: u32
  w_awake :: bool

record osys =
  dev :: osprd
  files :: "nat \<Rightarrow> ofile"
  waiting :: "nat \<Rightarrow> waiter option"

datatype event =
    Acquire nat int nat
  | Wake nat
  | Signal nat
  | TryAcquire int nat
  | Release int nat
  | Close int nat

definition wake_up_all :: "osys \<Rightarrow> osys" where
  "wake_up_all s = s\<lparr>waiting := (\<lambda>t. map_option (\<lambda>w. w\<lparr>w_awake := True\<rparr>) (waiting s t))\<rparr>"

definition sys_acquire :: "nat \<Rightarrow> int \<Rightarrow> nat \<Rightarrow> osys \<Rightarrow> (reply \<times> osys) option" where
  "sys_acquire t pid f s = do {
     (r, d) \<leftarrow> acquire_enter (f_writable (files s f)) pid (dev s);
     Some (r, case r of
        Waits k \<Rightarrow> s\<lparr>dev := d, waiting := (waiting s)(t \<mapsto>
          \<lparr>w_pid = pid, w_file = f, w_ticket = k, w_awake = True\<rparr>)\<rparr>
      | _ \<Rightarrow> s\<lparr>dev := d\<rparr>)
   }"

definition sys_wake :: "nat \<Rightarrow> waiter \<Rightarrow> osys \<Rightarrow> (reply \<times> osys) option" where
  "sys_wake t w s =
     (let f = files s (w_file w) in
      if wait_cond (f_writable f) (w_ticket w) (dev s) then do {
        (f', d) \<leftarrow> acquire_granted (w_pid w) f (dev s);
        Some (Done, wake_up_all (s\<lparr>dev := d, files := (files s)(w_file w := f'),
          waiting := (waiting s)(t := None)\<rparr>))
      }
      else Some (Waits (w_ticket w),
        s\<lparr>waiting := (waiting s)(t \<mapsto> w\<lparr>w_awake := False\<rparr>)\<rparr>))"

text \<open>\<open>wait_event_interruptible\<close> looks at pending signals only where its condition is false.\<close>

definition sys_signal :: "nat \<Rightarrow> waiter \<Rightarrow> osys \<Rightarrow> (reply \<times> osys) option" where
  "sys_signal t w s =
     (if wait_cond (f_writable (files s (w_file w))) (w_ticket w) (dev s) then None
      else do {
        d \<leftarrow> acquire_interrupted (w_ticket w) (dev s);
        Some (Fail ERESTARTSYS, s\<lparr>dev := d, waiting := (waiting s)(t := None)\<rparr>)
      })"

definition sys_try :: "int \<Rightarrow> nat \<Rightarrow> osys \<Rightarrow> (reply \<times> osys) option" where
  "sys_try pid f s = do {
     (r, f', d) \<leftarrow> try_acquire pid (files s f) (dev s);
     Some (r, s\<lparr>dev := d, files := (files s)(f := f')\<rparr>)
   }"

definition sys_release :: "int \<Rightarrow> nat \<Rightarrow> osys \<Rightarrow> (reply \<times> osys) option" where
  "sys_release pid f s = do {
     (r, f', d, wk) \<leftarrow> release pid (files s f) (dev s);
     let s' = s\<lparr>dev := d, files := (files s)(f := f')\<rparr>;
     Some (r, if wk then wake_up_all s' else s')
   }"

definition sys_close :: "int \<Rightarrow> nat \<Rightarrow> osys \<Rightarrow> (reply \<times> osys) option" where
  "sys_close pid f s = do {
     (f', d, wk) \<leftarrow> osprd_close_last pid (files s f) (dev s);
     let s' = s\<lparr>dev := d, files := (files s)(f := f')\<rparr>;
     Some (Done, if wk then wake_up_all s' else s')
   }"

text \<open>
  One event. \<open>None\<close>: the event cannot happen (the task is busy, asleep or not waiting), the
  code does not return, or it overruns \<open>invalidTicketList\<close>.
\<close>

fun osys_step :: "event \<Rightarrow> osys \<Rightarrow> (reply \<times> osys) option" where
  "osys_step (Acquire t pid f) s = (if waiting s t = None then sys_acquire t pid f s else None)"
| "osys_step (Wake t) s = (case waiting s t of
     Some w \<Rightarrow> if w_awake w then sys_wake t w s else None | None \<Rightarrow> None)"
| "osys_step (Signal t) s = (case waiting s t of Some w \<Rightarrow> sys_signal t w s | None \<Rightarrow> None)"
| "osys_step (TryAcquire pid f) s = sys_try pid f s"
| "osys_step (Release pid f) s = sys_release pid f s"
| "osys_step (Close pid f) s = sys_close pid f s"

fun osys_run :: "event list \<Rightarrow> osys \<Rightarrow> osys option" where
  "osys_run [] s = Some s"
| "osys_run (e # es) s = (case osys_step e s of None \<Rightarrow> None | Some (_, s') \<Rightarrow> osys_run es s')"

definition osys_init :: "(nat \<Rightarrow> bool) \<Rightarrow> osys" where
  "osys_init wr = \<lparr>dev = osprd_setup,
     files = (\<lambda>f. osprd_open \<lparr>f_writable = wr f, f_flags = 0\<rparr>), waiting = Map.empty\<rparr>"

inductive osys_reachable :: "(nat \<Rightarrow> bool) \<Rightarrow> osys \<Rightarrow> bool" for wr where
  init: "osys_reachable wr (osys_init wr)"
| step: "osys_reachable wr s \<Longrightarrow> osys_step e s = Some (r, s') \<Longrightarrow> osys_reachable wr s'"

end
