(* ===== verification/OsprdLock.thy ===== *)
theory OsprdLock
  imports Osprd
begin

text \<open>
  What the ramdisk lock of \<open>Osprd\<close> guarantees and what it does not: the loops over the
  reader list and the invalid tickets return, write locks exclude all other locks in
  every reachable state, tickets are served in order; a ticket taken by a refused request
  is never served, removed readers stay in the list, and two error paths leave the
  mutex locked.
\<close>

section \<open>File flags\<close>

lemma locked_set_locked [simp]: "file_locked (set_locked f)"
proof -
  have "(f_flags f OR F_OSPRD_LOCKED) AND F_OSPRD_LOCKED = F_OSPRD_LOCKED"
    by (rule bit_eqI) (auto simp: bit_simps)
  then show ?thesis by (simp add: file_locked_def set_locked_def F_OSPRD_LOCKED_def)
qed

lemma clear_locked_flags [simp]: "f_flags (clear_locked f) = 0"
  by (simp add: clear_locked_def c_not_def F_OSPRD_LOCKED_def)

lemma locked_clear_locked [simp]: "\<not> file_locked (clear_locked f)"
  by (simp add: file_locked_def)

lemma f_writable_locked [simp]:
  "f_writable (set_locked f) = f_writable f" "f_writable (clear_locked f) = f_writable f"
  by (simp_all add: set_locked_def clear_locked_def)

section \<open>The reader list\<close>

text \<open>Readers are appended and never leave, so node \<open>i\<close> points to node \<open>i + 1\<close>.\<close>

definition chain :: "rnode list \<Rightarrow> bool" where
  "chain ns \<longleftrightarrow> (\<forall>i < length ns. rn_next (ns ! i) = (if i + 1 < length ns then i + 2 else 0))"

definition chain_ok :: "osprd \<Rightarrow> bool" where
  "chain_ok d \<longleftrightarrow> chain (read_nodes d)
     \<and> read_locking_pids d = (if read_nodes d = [] then 0 else 1)"

definition readers :: "osprd \<Rightarrow> int set" where
  "readers d = rn_pid ` set (read_nodes d)"

lemma chain_next:
  "chain ns \<Longrightarrow> 0 < a \<Longrightarrow> a \<le> length ns \<Longrightarrow>
   rn_next (node ns a) = (if a < length ns then a + 1 else 0)"
  by (cases a) (auto simp: chain_def node_def)

lemma find_reader_chain:
  assumes "chain ns" "0 < a" "a \<le> length ns"
  shows "find_reader ns pid a = Some (\<exists>i. a \<le> i \<and> i \<le> length ns \<and> rn_pid (node ns i) = pid)"
  using assms
proof (induction "length ns - a" arbitrary: a)
  case 0
  then have "a = length ns" by simp
  then show ?case
    using 0 by (subst find_reader.simps, subst find_reader.simps) (auto simp: chain_next le_Suc_eq)
next
  case (Suc n)
  have lt: "a < length ns" using Suc.hyps(2) by simp
  have step: "find_reader ns pid a = (if rn_pid (node ns a) = pid then Some True
      else find_reader ns pid (a + 1))"
    using Suc.prems lt by (subst find_reader.simps) (simp add: chain_next)
  have split: "(\<exists>i. a \<le> i \<and> i \<le> length ns \<and> rn_pid (node ns i) = pid) \<longleftrightarrow>
      rn_pid (node ns a) = pid \<or> (\<exists>i. a + 1 \<le> i \<and> i \<le> length ns \<and> rn_pid (node ns i) = pid)"
    using Suc.prems(3) by (subst ex_ge_Suc) simp
  show ?case
    unfolding step split using Suc.hyps(1) [of "a + 1"] Suc.hyps(2) Suc.prems lt by auto
qed

lemma find_reader_head:
  assumes "chain_ok d"
  shows "find_reader (read_nodes d) pid (read_locking_pids d) = Some (pid \<in> readers d)"
proof (cases "read_nodes d = []")
  case True
  then show ?thesis using assms by (subst find_reader.simps) (simp add: chain_ok_def readers_def)
next
  case False
  have "(\<exists>i. 1 \<le> i \<and> i \<le> length (read_nodes d) \<and> rn_pid (node (read_nodes d) i) = pid)
      \<longleftrightarrow> (\<exists>j < length (read_nodes d). rn_pid (read_nodes d ! j) = pid)" (is "?l = ?r")
  proof
    assume ?l
    then obtain i where "1 \<le> i" "i \<le> length (read_nodes d)" "rn_pid (read_nodes d ! (i - 1)) = pid"
      by (auto simp: node_def)
    then show ?r by (intro exI [of _ "i - 1"]) simp
  next
    assume ?r
    then obtain j where "j < length (read_nodes d)" "rn_pid (read_nodes d ! j) = pid" by blast
    then show ?l by (intro exI [of _ "Suc j"]) (simp add: node_def)
  qed
  also have "\<dots> \<longleftrightarrow> pid \<in> readers d"
    by (auto simp: readers_def set_conv_nth)
  finally have "(\<exists>i. 1 \<le> i \<and> i \<le> length (read_nodes d) \<and> rn_pid (node (read_nodes d) i) = pid)
      \<longleftrightarrow> pid \<in> readers d" .
  then show ?thesis
    using False assms find_reader_chain [of "read_nodes d" 1 pid] by (simp add: chain_ok_def Suc_le_eq)
qed

lemma last_reader_chain:
  assumes "chain ns" "0 < a" "a \<le> length ns"
  shows "last_reader ns a = Some (length ns)"
  using assms
proof (induction "length ns - a" arbitrary: a)
  case 0
  then show ?case by (subst last_reader.simps) (simp add: chain_next)
next
  case (Suc n)
  then show ?case by (subst last_reader.simps) (simp add: chain_next)
qed

lemma add_reader_chain:
  assumes "chain_ok d"
  obtains ns p where "add_reader pid d = Some (d\<lparr>read_nodes := ns, read_locking_pids := p\<rparr>)"
    "chain ns" "p = (if ns = [] then 0 else 1)" "rn_pid ` set ns = insert pid (readers d)"
proof (cases "read_nodes d = []")
  case True
  then show thesis
    using assms by (intro that [where ns = "[\<lparr>rn_pid = pid, rn_next = 0\<rparr>]" and p = 1])
      (auto simp: add_reader_def chain_ok_def chain_def readers_def)
next
  case False
  let ?ns = "read_nodes d" and ?n = "length (read_nodes d)"
  let ?ms = "set_next ?n (?n + 1) ?ns @ [\<lparr>rn_pid = pid, rn_next = 0\<rparr>]"
  have head: "read_locking_pids d = 1" using False assms by (simp add: chain_ok_def)
  have last: "last_reader ?ns 1 = Some ?n"
    using False assms by (intro last_reader_chain) (auto simp: chain_ok_def Suc_le_eq)
  have len: "length (set_next ?n (?n + 1) ?ns) = ?n" by (simp add: set_next_def)
  have ch: "chain ?ms"
    using assms False unfolding chain_def chain_ok_def
    by (auto simp: set_next_def nth_append nth_list_update less_Suc_eq)
  have "map rn_pid (set_next ?n (?n + 1) ?ns) = map rn_pid ?ns"
    using False by (simp add: set_next_def map_update list_update_same_conv)
  then have pids: "rn_pid ` set (set_next ?n (?n + 1) ?ns) = rn_pid ` set ?ns" by (metis set_map)
  have "add_reader pid d = Some (d\<lparr>read_nodes := ?ms\<rparr>)"
    using head last by (simp add: add_reader_def Let_def)
  also have "d\<lparr>read_nodes := ?ms\<rparr> = d\<lparr>read_nodes := ?ms, read_locking_pids := 1\<rparr>"
    using head by (cases d) simp
  finally show thesis
    using ch pids by (intro that [where ns = ?ms and p = 1]) (auto simp: readers_def)
qed

text \<open>The two cursors of the removal loop never differ, so it changes nothing.\<close>

lemma del_reader_loop_same:
  assumes "chain ns" "a \<le> length ns"
  shows "del_reader_loop pid a a ns head = Some (ns, head)"
  using assms
proof (induction "length ns - a" arbitrary: a)
  case 0
  then have a: "a = length ns" by simp
  show ?case
  proof (cases "a = 0")
    case True
    then show ?thesis by (subst del_reader_loop.simps) simp
  next
    case False
    then have "rn_next (node ns a) = 0" using 0 a chain_next [of ns a] by simp
    moreover from this have "set_next a 0 ns = ns"
      by (simp add: set_next_def node_def list_update_same_conv)
        (metis list_update_id rnode.surjective rnode.update_convs(2))
    ultimately show ?thesis
      using False by (subst del_reader_loop.simps) (simp, subst del_reader_loop.simps, simp)
  qed
next
  case (Suc n)
  show ?case
  proof (cases "a = 0")
    case True
    then show ?thesis by (subst del_reader_loop.simps) simp
  next
    case False
    have lt: "a < length ns" using Suc.hyps(2) by simp
    have "set_next a (a + 1) ns = ns"
      using Suc.hyps(2) Suc.prems False chain_next [of ns a]
      by (simp add: set_next_def node_def list_update_same_conv)
    then show ?thesis
      using Suc False lt by (subst del_reader_loop.simps) (simp add: chain_next)
  qed
qed

lemma del_reader_nop: "chain_ok d \<Longrightarrow> del_reader pid d = Some d"
  using del_reader_loop_same [of "read_nodes d" "read_locking_pids d"]
  by (auto simp: del_reader_def chain_ok_def Suc_le_eq)

section \<open>The skip loop\<close>

lemma skip_invalid_unfold:
  assumes "\<forall>j < i. tail \<noteq> bad ! j"
  shows "skip_invalid bad i tail =
    (if tail \<in> set bad then skip_invalid bad 0 (tail + 1) else Some tail)"
  using assms
proof (induction "length bad - i" arbitrary: i)
  case 0
  then have "\<forall>j < length bad. tail \<noteq> bad ! j" by simp
  then have "tail \<notin> set bad" by (metis in_set_conv_nth)
  then show ?case using 0 by (subst skip_invalid.simps) simp
next
  case (Suc n)
  have lt: "i < length bad" using Suc.hyps(2) by simp
  show ?case
  proof (cases "tail = bad ! i")
    case True
    then show ?thesis using lt by (subst skip_invalid.simps) simp
  next
    case False
    have "\<forall>j < i + 1. tail \<noteq> bad ! j" using Suc.prems False by (auto simp: less_Suc_eq)
    then have "skip_invalid bad (i + 1) tail =
        (if tail \<in> set bad then skip_invalid bad 0 (tail + 1) else Some tail)"
      using Suc.hyps(2) by (intro Suc.hyps(1)) simp_all
    then show ?thesis
      using False lt by (subst skip_invalid.simps) simp
  qed
qed

lemma skip_invalid_steps:
  assumes "\<forall>k < n. tail + of_nat k \<in> set bad" "tail + of_nat n \<notin> set bad"
  shows "skip_invalid bad 0 tail = Some (tail + of_nat n)"
  using assms
proof (induction n arbitrary: tail)
  case 0
  then show ?case by (simp add: skip_invalid_unfold)
next
  case (Suc n)
  have "tail \<in> set bad" using Suc.prems(1) by force
  moreover have "skip_invalid bad 0 (tail + 1) = Some (tail + 1 + of_nat n)"
  proof (rule Suc.IH)
    show "\<forall>k < n. tail + 1 + of_nat k \<in> set bad"
      using Suc.prems(1) by (metis Suc_mono add.assoc of_nat_Suc)
    show "tail + 1 + of_nat n \<notin> set bad" using Suc.prems(2) by (simp add: add.assoc)
  qed
  ultimately show ?case by (simp add: skip_invalid_unfold [of 0] add.assoc)
qed

text \<open>Fewer tickets are in the list than there are numbers, so the loop ends.\<close>

lemma skip_invalid_returns:
  assumes "length bad \<le> MAX_INVALID"
  obtains n where "n \<le> length bad" "\<forall>k < n. tail + of_nat k \<in> set bad"
    "tail + of_nat n \<notin> set bad" "skip_invalid bad 0 tail = Some (tail + of_nat n)"
proof -
  have "\<exists>n \<le> length bad. tail + of_nat n \<notin> set bad"
  proof (rule ccontr)
    assume none: "\<not> ?thesis"
    have inj: "inj_on (\<lambda>k. tail + of_nat k) {.. length bad}"
    proof (rule inj_onI)
      fix x y assume "x \<in> {.. length bad}" "y \<in> {.. length bad}" "tail + of_nat x = tail + of_nat y"
      then have "(of_nat x :: u32) = of_nat y" "x < 4294967296" "y < 4294967296"
        using assms by simp_all
      then show "x = y" by (simp only: of_nat_u32_inj)
    qed
    have "(\<lambda>k. tail + of_nat k) ` {.. length bad} \<subseteq> set bad" using none by auto
    then have "card {.. length bad} \<le> card (set bad)"
      using inj by (metis List.finite_set card_image card_mono)
    then show False using card_length [of bad] by simp
  qed
  then obtain m where m: "m \<le> length bad" "tail + of_nat m \<notin> set bad" by blast
  let ?n = "LEAST n. tail + of_nat n \<notin> set bad"
  have "tail + of_nat ?n \<notin> set bad" using m(2) by (rule LeastI)
  moreover have "?n \<le> m" using m(2) by (rule Least_le)
  moreover have "\<forall>k < ?n. tail + of_nat k \<in> set bad" using not_less_Least by blast
  ultimately show thesis
    using m(1) that [of ?n] skip_invalid_steps [of ?n tail bad] by simp
qed

section \<open>Mutual exclusion\<close>

text \<open>
  The write count is 1 exactly while one file open for writing is locked; the read count
  is at least the number of read-locked files, since two requests on one file set its flag
  only once; the two are never positive together.
\<close>

definition lock_inv :: "(nat \<Rightarrow> bool) \<Rightarrow> (nat \<Rightarrow> ofile) \<Rightarrow> osprd \<Rightarrow> bool" where
  "lock_inv wr fs d \<longleftrightarrow> (\<forall>f. f_writable (fs f) = wr f) \<and> chain_ok d
     \<and> length (invalidTicketList d) \<le> MAX_INVALID
     \<and> finite {f. file_locked (fs f)}
     \<and> (num_write d = 0 \<or> num_write d = 1 \<and> num_read d = 0)
     \<and> (\<forall>f g. wr f \<and> file_locked (fs f) \<and> wr g \<and> file_locked (fs g) \<longrightarrow> f = g)
     \<and> (num_write d = 0 \<longrightarrow> (\<forall>f. wr f \<longrightarrow> \<not> file_locked (fs f)))
     \<and> int (card {f. \<not> wr f \<and> file_locked (fs f)}) \<le> num_read d"

lemma lock_inv_cong:
  assumes "lock_inv wr fs d" "num_write d' = num_write d" "num_read d' = num_read d"
    "read_nodes d' = read_nodes d" "read_locking_pids d' = read_locking_pids d"
    "length (invalidTicketList d') \<le> MAX_INVALID"
  shows "lock_inv wr fs d'"
  using assms by (simp add: lock_inv_def chain_ok_def)

lemma lock_inv_chain: "lock_inv wr fs d \<Longrightarrow> chain_ok d"
  by (simp add: lock_inv_def)

lemma lock_inv_take_write:
  assumes "lock_inv wr fs d" "num_write d = 0" "num_read d = 0" "wr f"
  shows "lock_inv wr (fs(f := set_locked (fs f))) (take_write pid d)"
proof -
  let ?fs = "fs(f := set_locked (fs f))"
  have "{g. file_locked (?fs g)} = insert f {g. file_locked (fs g)}" by auto
  moreover have "{g. \<not> wr g \<and> file_locked (?fs g)} = {g. \<not> wr g \<and> file_locked (fs g)}"
    using assms(4) by auto
  ultimately show ?thesis
    using assms by (auto simp: lock_inv_def take_write_def chain_ok_def)
qed

lemma take_read_cases:
  assumes "chain_ok d"
  obtains d' where "take_read pid d = Some d'" "chain_ok d'" "readers d' = insert pid (readers d)"
    "num_read d' = num_read d + 1" "num_write d' = num_write d"
    "invalidTicketList d' = invalidTicketList d" "ticket_head d' = ticket_head d"
    "ticket_tail d' = ticket_tail d" "write_locking_pids d' = write_locking_pids d"
    "mutex d' = mutex d" "kills d' = kills d"
proof -
  let ?d = "d\<lparr>num_read := num_read d + 1\<rparr>"
  have "chain_ok ?d" using assms by (simp add: chain_ok_def)
  then obtain ns p where "add_reader pid ?d = Some (?d\<lparr>read_nodes := ns, read_locking_pids := p\<rparr>)"
    "chain ns" "p = (if ns = [] then 0 else 1)" "rn_pid ` set ns = insert pid (readers ?d)"
    by (rule add_reader_chain)
  then show thesis
    by (intro that [of "?d\<lparr>read_nodes := ns, read_locking_pids := p\<rparr>"])
      (auto simp: take_read_def chain_ok_def readers_def)
qed

lemma lock_inv_take_read:
  assumes "lock_inv wr fs d" "num_write d = 0" "\<not> wr f" "take_read pid d = Some d'"
  shows "lock_inv wr (fs(f := set_locked (fs f))) d'"
proof -
  let ?fs = "fs(f := set_locked (fs f))"
  let ?R = "{g. \<not> wr g \<and> file_locked (fs g)}"
  have fin: "finite ?R" by (rule finite_subset [of _ "{f. file_locked (fs f)}"]) (use assms(1) in \<open>auto simp: lock_inv_def\<close>)
  have all: "{g. file_locked (?fs g)} = insert f {g. file_locked (fs g)}" by auto
  have rd: "{g. \<not> wr g \<and> file_locked (?fs g)} = insert f ?R" using assms(3) by auto
  have "card (insert f ?R) \<le> card ?R + 1" using fin by (simp add: card_insert_if)
  moreover obtain "chain_ok d'" "num_read d' = num_read d + 1" "num_write d' = num_write d"
      "invalidTicketList d' = invalidTicketList d"
    using take_read_cases [OF lock_inv_chain [OF assms(1)], of pid] assms(4) by (metis option.inject)
  ultimately show ?thesis
    using assms(1-3) unfolding lock_inv_def all rd by auto
qed

lemma release_counts_cases:
  assumes "chain_ok d"
  shows "release_counts pid writable d = Some (if writable
    then d\<lparr>num_write := 0, write_locking_pids := - 1\<rparr> else d\<lparr>num_read := num_read d - 1\<rparr>)"
  using assms del_reader_nop [of "d\<lparr>num_read := num_read d - 1\<rparr>" pid]
  by (simp add: release_counts_def chain_ok_def)

lemma lock_inv_release:
  assumes "lock_inv wr fs d" "file_locked (fs f)" "release_counts pid (wr f) d = Some d'"
  shows "lock_inv wr (fs(f := clear_locked (fs f))) d'"
proof -
  let ?fs = "fs(f := clear_locked (fs f))"
  let ?R = "{g. \<not> wr g \<and> file_locked (fs g)}"
  have fin: "finite ?R" by (rule finite_subset [of _ "{f. file_locked (fs f)}"]) (use assms(1) in \<open>auto simp: lock_inv_def\<close>)
  have all: "{g. file_locked (?fs g)} = {g. file_locked (fs g)} - {f}" by auto
  have rd: "{g. \<not> wr g \<and> file_locked (?fs g)} = ?R - {f}" by auto
  have d': "d' = (if wr f then d\<lparr>num_write := 0, write_locking_pids := - 1\<rparr> else d\<lparr>num_read := num_read d - 1\<rparr>)"
    using assms(3) release_counts_cases [OF lock_inv_chain [OF assms(1)]] by simp
  show ?thesis
  proof (cases "wr f")
    case True
    then have "?R - {f} = ?R" by auto
    then show ?thesis
      using assms(1,2) True unfolding lock_inv_def all rd d' by (auto simp: chain_ok_def)
  next
    case False
    then have "f \<in> ?R" using assms(2) by simp
    then have "card (?R - {f}) = card ?R - 1" "0 < card ?R" using fin by (auto simp: card_gt_0_iff)
    then show ?thesis
      using assms(1,2) False unfolding lock_inv_def all rd d' by (auto simp: chain_ok_def)
  qed
qed

section \<open>Every step keeps the invariant\<close>

lemma spin_fields [simp]:
  "num_write (osp_spin_lock d) = num_write d" "num_write (osp_spin_unlock d) = num_write d"
  "num_read (osp_spin_lock d) = num_read d" "num_read (osp_spin_unlock d) = num_read d"
  "read_nodes (osp_spin_lock d) = read_nodes d" "read_nodes (osp_spin_unlock d) = read_nodes d"
  "read_locking_pids (osp_spin_lock d) = read_locking_pids d"
  "read_locking_pids (osp_spin_unlock d) = read_locking_pids d"
  "invalidTicketList (osp_spin_lock d) = invalidTicketList d"
  "invalidTicketList (osp_spin_unlock d) = invalidTicketList d"
  "ticket_head (osp_spin_lock d) = ticket_head d" "ticket_head (osp_spin_unlock d) = ticket_head d"
  "ticket_tail (osp_spin_lock d) = ticket_tail d" "ticket_tail (osp_spin_unlock d) = ticket_tail d"
  "write_locking_pids (osp_spin_lock d) = write_locking_pids d"
  "write_locking_pids (osp_spin_unlock d) = write_locking_pids d"
  "mutex (osp_spin_lock d) = mutex d - 1" "mutex (osp_spin_unlock d) = mutex d + 1"
  "kills (osp_spin_unlock d) = kills d"
  by (simp_all add: osp_spin_lock_def osp_spin_unlock_def)

lemma lock_inv_spin [simp]:
  "lock_inv wr fs (osp_spin_lock d) = lock_inv wr fs d"
  "lock_inv wr fs (osp_spin_unlock d) = lock_inv wr fs d"
  "chain_ok (osp_spin_lock d) = chain_ok d" "chain_ok (osp_spin_unlock d) = chain_ok d"
  by (simp_all add: lock_inv_def chain_ok_def)

lemma lock_inv_tickets [simp]:
  "lock_inv wr fs (d\<lparr>ticket_head := h\<rparr>) = lock_inv wr fs d"
  "lock_inv wr fs (d\<lparr>ticket_tail := t\<rparr>) = lock_inv wr fs d"
  by (simp_all add: lock_inv_def chain_ok_def)

lemma lock_inv_acquire_enter:
  assumes "lock_inv wr fs d" "acquire_enter w pid d = Some (r, d')"
  shows "lock_inv wr fs d'"
  using assms
  by (auto simp: acquire_enter_def acquire_ticket_def acquire_check_def Let_def
      split: if_splits reply.splits prod.splits bind_splits)

lemma lock_inv_next_ticket:
  "lock_inv wr fs d \<Longrightarrow> next_ticket d = Some d' \<Longrightarrow> lock_inv wr fs d'"
  by (auto simp: next_ticket_def split: bind_splits)

lemma lock_inv_granted:
  assumes "lock_inv wr fs d" "num_write d = 0" "wr f \<longrightarrow> num_read d = 0"
    "acquire_granted pid (fs f) d = Some (f', d')"
  shows "lock_inv wr (fs(f := f')) d'"
proof -
  have wr: "f_writable (fs f) = wr f" using assms(1) by (simp add: lock_inv_def)
  obtain d1 d2 where d1: "(if wr f then Some (take_write pid (osp_spin_lock d)) else take_read pid (osp_spin_lock d)) = Some d1"
    and d2: "next_ticket d1 = Some d2" and res: "f' = set_locked (fs f)" "d' = osp_spin_unlock d2"
    using assms(4) wr unfolding acquire_granted_def by (auto simp: Let_def split: bind_splits)
  have "lock_inv wr (fs(f := set_locked (fs f))) d1"
    using d1 lock_inv_take_write [of wr fs "osp_spin_lock d" f pid]
      lock_inv_take_read [of wr fs "osp_spin_lock d" f pid d1] assms(1-3)
    by (auto split: if_splits)
  then show ?thesis using lock_inv_next_ticket d2 res by auto
qed

lemma lock_inv_try:
  assumes "lock_inv wr fs d" "try_acquire pid (fs f) d = Some (r, f', d')"
  shows "lock_inv wr (fs(f := f')) d'"
proof -
  have wr: "f_writable (fs f) = wr f" and nr: "0 \<le> num_read d" "num_write d = 0 \<or> num_write d = 1"
    using assms(1) by (auto simp: lock_inv_def)
  define e where "e = osp_spin_unlock (osp_spin_lock d)"
  have e: "lock_inv wr fs e" "num_write e = num_write d" "num_read e = num_read d"
    using assms(1) by (simp_all add: e_def)
  have lock: "lock_inv wr (fs(f := f')) d'" if "try_lock pid t (fs f) e = Some (r, f', d')" for t
    using that e lock_inv_take_write [of wr fs "osp_spin_lock e" f pid]
      lock_inv_take_read [of wr fs "osp_spin_lock e" f pid] nr wr
    unfolding try_lock_def Let_def
    by (auto split: if_splits bind_splits)
  from assms(2) show ?thesis
    using lock e by (auto simp: try_acquire_def try_ticket_def Let_def e_def split: if_splits)
qed

lemma lock_inv_sys_release:
  assumes "lock_inv wr fs d" "release pid (fs f) d = Some (r, f', d', b)"
  shows "lock_inv wr (fs(f := f')) d'"
proof -
  have wr: "f_writable (fs f) = wr f" using assms(1) by (simp add: lock_inv_def)
  show ?thesis
    using assms lock_inv_release [of wr fs "osp_spin_lock d" f pid] wr
    by (auto simp: release_def Let_def split: if_splits bind_splits)
qed

lemma lock_inv_close:
  assumes "lock_inv wr fs d" "osprd_close_last pid (fs f) d = Some (f', d', b)"
  shows "lock_inv wr (fs(f := f')) d'"
proof -
  have wr: "f_writable (fs f) = wr f" using assms(1) by (simp add: lock_inv_def)
  show ?thesis
    using assms lock_inv_release [of wr fs "osp_spin_lock d" f pid] wr
    by (auto simp: osprd_close_last_def Let_def split: if_splits bind_splits)
qed

lemma wake_up_all_fields [simp]:
  "dev (wake_up_all s) = dev s" "files (wake_up_all s) = files s"
  "waiting (wake_up_all s) t = map_option (\<lambda>w. w\<lparr>w_awake := True\<rparr>) (waiting s t)"
  by (simp_all add: wake_up_all_def)

lemma osys_step_inv:
  assumes "lock_inv wr (files s) (dev s)" "osys_step e s = Some (r, s')"
  shows "lock_inv wr (files s') (dev s')"
proof (cases e)
  case (Acquire t pid f)
  then show ?thesis
    using assms by (auto simp: sys_acquire_def Let_def split: if_splits bind_splits reply.splits
        intro: lock_inv_acquire_enter)
next
  case (Wake t)
  then obtain w where w: "sys_wake t w s = Some (r, s')"
    using assms(2) by (auto split: option.splits if_splits)
  have wr: "f_writable (files s f) = wr f" for f using assms(1) by (simp add: lock_inv_def)
  show ?thesis
    using w assms(1) lock_inv_granted [of wr "files s" "dev s" "w_file w" "w_pid w"] wr
    by (auto simp: sys_wake_def Let_def wait_cond_def split: if_splits bind_splits)
next
  case (Signal t)
  then obtain w where w: "sys_signal t w s = Some (r, s')"
    using assms(2) by (auto split: option.splits if_splits)
  then obtain d where d: "acquire_interrupted (w_ticket w) (dev s) = Some d" "s' = s\<lparr>dev := d, waiting := (waiting s)(t := None)\<rparr>"
    by (auto simp: sys_signal_def split: if_splits bind_splits)
  have "lock_inv wr (files s) d"
    using d(1) assms(1) lock_inv_next_ticket [OF assms(1)]
    by (auto simp: acquire_interrupted_def lock_inv_def chain_ok_def split: if_splits)
  then show ?thesis using d(2) by simp
next
  case (TryAcquire pid f)
  then show ?thesis
    using assms by (auto simp: sys_try_def split: bind_splits intro: lock_inv_try)
next
  case (Release pid f)
  then show ?thesis
    using assms by (auto simp: sys_release_def Let_def split: bind_splits intro: lock_inv_sys_release)
next
  case (Close pid f)
  then show ?thesis
    using assms by (auto simp: sys_close_def Let_def split: bind_splits intro: lock_inv_close)
qed

lemma lock_inv_init: "lock_inv wr (files (osys_init wr)) (dev (osys_init wr))"
proof -
  have "O_SYNC AND F_OSPRD_LOCKED = 0" by (simp add: O_SYNC_def F_OSPRD_LOCKED_def)
  then have "\<not> file_locked (osprd_open \<lparr>f_writable = w, f_flags = 0\<rparr>)" for w
    by (simp add: file_locked_def osprd_open_def)
  then show ?thesis
    by (simp add: lock_inv_def osys_init_def osprd_setup_def chain_ok_def chain_def)
      (simp add: osprd_open_def)
qed

lemma osys_reachable_inv: "osys_reachable wr s \<Longrightarrow> lock_inv wr (files s) (dev s)"
  by (induction rule: osys_reachable.induct) (blast intro: lock_inv_init osys_step_inv)+

section \<open>Properties of the lock\<close>

lemma osys_run_reachable:
  "osys_reachable wr s \<Longrightarrow> osys_run es s = Some s' \<Longrightarrow> osys_reachable wr s'"
  by (induction es arbitrary: s) (auto split: option.splits prod.splits intro: osys_reachable.step)



text \<open>
  C28: Tickets are served in order. An awake task whose wait condition holds gets its lock and
  its file is marked; it held the ticket being served, and the next ticket served is the first
  one after it that no interrupted task has given up.
\<close>

theorem osprd_tickets_in_order:
  assumes "osys_reachable wr s" and "waiting s t = Some w" and "w_awake w"
    and "wait_cond (wr (w_file w)) (w_ticket w) (dev s)"
  shows "\<exists>s' n. osys_step (Wake t) s = Some (Done, s') \<and> file_locked (files s' (w_file w))
    \<and> waiting s' t = None \<and> w_ticket w = ticket_tail (dev s)
    \<and> ticket_tail (dev s') = w_ticket w + 1 + of_nat n
    \<and> (\<forall>k < n. w_ticket w + 1 + of_nat k \<in> set (invalidTicketList (dev s)))
    \<and> ticket_tail (dev s') \<notin> set (invalidTicketList (dev s))"
proof -
  let ?d = "dev s" and ?f = "files s (w_file w)"
  have inv: "lock_inv wr (files s) ?d" using assms(1) by (rule osys_reachable_inv)
  have wr: "f_writable ?f = wr (w_file w)" using inv by (simp add: lock_inv_def)
  have len: "length (invalidTicketList ?d) \<le> MAX_INVALID" using inv by (simp add: lock_inv_def)
  have tail: "ticket_tail ?d = w_ticket w" using assms(4) by (simp add: wait_cond_def)
  obtain n where n: "n \<le> length (invalidTicketList ?d)"
      "\<forall>k < n. w_ticket w + 1 + of_nat k \<in> set (invalidTicketList ?d)"
      "w_ticket w + 1 + of_nat n \<notin> set (invalidTicketList ?d)"
      "skip_invalid (invalidTicketList ?d) 0 (w_ticket w + 1) = Some (w_ticket w + 1 + of_nat n)"
    using skip_invalid_returns [OF len, of "w_ticket w + 1"] by blast
  obtain d1 where d1: "(if f_writable ?f then Some (take_write (w_pid w) (osp_spin_lock ?d))
      else take_read (w_pid w) (osp_spin_lock ?d)) = Some d1"
    "ticket_tail d1 = w_ticket w" "invalidTicketList d1 = invalidTicketList ?d"
    by (cases "f_writable ?f") (use take_read_cases [of "osp_spin_lock ?d" "w_pid w"]
      lock_inv_chain [OF inv] tail in \<open>auto simp: take_write_def\<close>)
  have "next_ticket d1 = Some (d1\<lparr>ticket_tail := w_ticket w + 1 + of_nat n\<rparr>)"
    using d1 n(4) by (simp add: next_ticket_def)
  then have "acquire_granted (w_pid w) ?f ?d
      = Some (set_locked ?f, osp_spin_unlock (d1\<lparr>ticket_tail := w_ticket w + 1 + of_nat n\<rparr>))"
    using d1(1) by (simp add: acquire_granted_def Let_def)
  then show ?thesis
    using assms(2-4) n(2,3) tail wr by (auto simp: sys_wake_def Let_def intro!: exI [of _ n])
qed

theorem osprd_tickets_in_order_witness:
  "\<exists>s s'. osys_run [Acquire 1 7 0] (osys_init (\<lambda>f. f = 0)) = Some s
     \<and> osys_step (Wake 1) s = Some (Done, s') \<and> file_locked (files s' 0)"
proof -
  let ?wr = "\<lambda>f :: nat. f = 0"
  let ?w = "\<lparr>w_pid = 7, w_file = 0, w_ticket = 0, w_awake = True\<rparr>"
  have "map_option (\<lambda>s. (the (waiting s 1), waiting s 1 \<noteq> None, wait_cond True 0 (dev s)))
      (osys_run [Acquire 1 7 0] (osys_init ?wr)) = Some (?w, True, True)"
    by code_simp
  then obtain s where s: "osys_run [Acquire 1 7 0] (osys_init ?wr) = Some s" "waiting s 1 = Some ?w"
      "wait_cond True 0 (dev s)"
    by auto
  have r: "osys_reachable ?wr s"
    by (rule osys_run_reachable [OF _ s(1)]) (rule osys_reachable.init)
  from osprd_tickets_in_order [OF r s(2)] s show ?thesis by auto
qed

section \<open>A refused request blocks the lock for ever\<close>

text \<open>
  Ticket \<open>k\<close> is being served and nobody holds it; the tickets given out since are the
  \<open>m\<close> numbers after it.
\<close>

definition ticket_lost :: "u32 \<Rightarrow> nat \<Rightarrow> osys \<Rightarrow> bool" where
  "ticket_lost k m s \<longleftrightarrow> ticket_tail (dev s) = k \<and> ticket_head (dev s) = k + 1 + of_nat m
     \<and> (\<forall>t w. waiting s t = Some w \<longrightarrow> (\<exists>j < m. w_ticket w = k + 1 + of_nat j))"

lemma lost_ticket_ne:
  assumes "m < 4294967295" "j \<le> m"
  shows "k + 1 + of_nat j \<noteq> (k :: u32)"
proof -
  have "(of_nat (1 + j) :: u32) \<noteq> of_nat 0"
    using assms by (subst of_nat_u32_inj) simp_all
  then show ?thesis by (simp add: add.assoc)
qed

lemma ticket_lost_waiter:
  "ticket_lost k m s \<Longrightarrow> m < 4294967295 \<Longrightarrow> waiting s t = Some w \<Longrightarrow> w_ticket w \<noteq> k"
  unfolding ticket_lost_def using lost_ticket_ne by (metis order_less_imp_le)

lemma ticket_lost_mono:
  "ticket_lost k m s \<Longrightarrow> ticket_tail (dev s') = k \<Longrightarrow> ticket_head (dev s') = ticket_head (dev s) \<Longrightarrow>
   (\<And>t w. waiting s' t = Some w \<Longrightarrow> \<exists>t' w'. waiting s t' = Some w' \<and> w_ticket w = w_ticket w') \<Longrightarrow>
   ticket_lost k m s'"
  unfolding ticket_lost_def by metis

lemma release_counts_tickets:
  assumes "release_counts pid w d = Some d'"
  shows "ticket_head d' = ticket_head d" "ticket_tail d' = ticket_tail d" "mutex d' = mutex d"
  using assms by (auto simp: release_counts_def del_reader_def split: if_splits bind_splits)

lemma acquire_enter_tickets:
  assumes "acquire_enter w pid d = Some (r, d')"
  shows "ticket_head d' = ticket_head d + 1" "ticket_tail d' = ticket_tail d"
    "r = Waits t \<Longrightarrow> t = ticket_head d" "mutex d' = mutex d"
  using assms
  by (auto simp: acquire_enter_def acquire_ticket_def acquire_check_def Let_def
      split: if_splits reply.splits prod.splits bind_splits)

lemma try_acquire_busy:
  assumes "try_acquire pid f d = Some (r, f', d')" "ticket_head d \<noteq> ticket_tail d"
  shows "r \<noteq> Done" "ticket_head d' = ticket_head d" "ticket_tail d' = ticket_tail d"
  using assms
  by (auto simp: try_acquire_def try_ticket_def try_lock_def Let_def split: if_splits bind_splits)

lemma ticket_lost_step:
  assumes "ticket_lost k m s" "Suc m < 4294967295" "osys_step e s = Some (r, s')"
  shows "\<exists>m' \<le> Suc m. ticket_lost k m' s' \<and> (case e of TryAcquire _ _ \<Rightarrow> r \<noteq> Done | Wake _ \<Rightarrow> r \<noteq> Done | _ \<Rightarrow> True)"
proof -
  have tail: "ticket_tail (dev s) = k" and head: "ticket_head (dev s) = k + 1 + of_nat m"
    and ws: "\<And>t w. waiting s t = Some w \<Longrightarrow> \<exists>j < m. w_ticket w = k + 1 + of_nat j"
    using assms(1) by (auto simp: ticket_lost_def)
  have ne: "ticket_head (dev s) \<noteq> ticket_tail (dev s)"
    using head tail lost_ticket_ne [of m m k] assms(2) by simp
  have same: "\<exists>m' \<le> Suc m. ticket_lost k m' s''" if "ticket_tail (dev s'') = k"
    "ticket_head (dev s'') = ticket_head (dev s)"
    "\<And>t w. waiting s'' t = Some w \<Longrightarrow> \<exists>t' w'. waiting s t' = Some w' \<and> w_ticket w = w_ticket w'" for s''
    using ticket_lost_mono [OF assms(1) that] by (auto intro: exI [of _ m])
  show ?thesis
  proof (cases e)
    case (Acquire t pid f)
    then obtain r d where d: "acquire_enter (f_writable (files s f)) pid (dev s) = Some (r, d)"
      "s' = (case r of Waits k \<Rightarrow> s\<lparr>dev := d, waiting := (waiting s)(t \<mapsto>
          \<lparr>w_pid = pid, w_file = f, w_ticket = k, w_awake = True\<rparr>)\<rparr> | _ \<Rightarrow> s\<lparr>dev := d\<rparr>)"
      using assms(3) by (auto simp: sys_acquire_def split: if_splits bind_splits)
    have "ticket_lost k (Suc m) s'"
      using d(2) acquire_enter_tickets [OF d(1)] tail head ws
      by (cases r) (auto simp: ticket_lost_def less_Suc_eq add_ac)
    then show ?thesis using Acquire by auto
  next
    case (Wake t)
    then obtain w where w: "waiting s t = Some w" "sys_wake t w s = Some (r, s')"
      using assms(3) by (auto split: option.splits if_splits)
    have "w_ticket w \<noteq> k" using ticket_lost_waiter [OF assms(1) _ w(1)] assms(2) by simp
    then have "r = Waits (w_ticket w)" "s' = s\<lparr>waiting := (waiting s)(t \<mapsto> w\<lparr>w_awake := False\<rparr>)\<rparr>"
      using w(2) tail by (auto simp: sys_wake_def wait_cond_def Let_def)
    then have "\<exists>m' \<le> Suc m. ticket_lost k m' s'"
      by (intro same) (use tail w(1) in \<open>auto split: if_splits intro: exI [of _ t] exI [of _ w]\<close>)
    with \<open>r = Waits (w_ticket w)\<close> show ?thesis using Wake by simp
  next
    case (Signal t)
    then obtain w where w: "waiting s t = Some w" "sys_signal t w s = Some (r, s')"
      using assms(3) by (auto split: option.splits if_splits)
    have "w_ticket w \<noteq> k" using ticket_lost_waiter [OF assms(1) _ w(1)] assms(2) by simp
    then have "ticket_tail (dev s') = k" "ticket_head (dev s') = ticket_head (dev s)"
      "waiting s' = (waiting s)(t := None)"
      using w(2) tail by (auto simp: sys_signal_def acquire_interrupted_def split: if_splits bind_splits)
    then have "\<exists>m' \<le> Suc m. ticket_lost k m' s'"
      by (intro same) (auto split: if_splits)
    then show ?thesis using Signal by simp
  next
    case (TryAcquire pid f)
    then obtain f' d where d: "try_acquire pid (files s f) (dev s) = Some (r, f', d)"
      "s' = s\<lparr>dev := d, files := (files s)(f := f')\<rparr>"
      using assms(3) by (auto simp: sys_try_def split: bind_splits)
    show ?thesis
      using try_acquire_busy [OF d(1) ne] same [of s'] d(2) tail TryAcquire by auto
  next
    case (Release pid f)
    then have "ticket_tail (dev s') = k" "ticket_head (dev s') = ticket_head (dev s)"
      "waiting s' = waiting s \<or> waiting s' = (\<lambda>t. map_option (\<lambda>w. w\<lparr>w_awake := True\<rparr>) (waiting s t))"
      using assms(3) tail
      by (auto simp: sys_release_def release_def wake_up_all_def Let_def split: if_splits bind_splits
          dest: release_counts_tickets)
    then have "\<exists>m' \<le> Suc m. ticket_lost k m' s'"
      by (intro same) (auto, metis+)
    then show ?thesis using Release by simp
  next
    case (Close pid f)
    then have "ticket_tail (dev s') = k" "ticket_head (dev s') = ticket_head (dev s)"
      "waiting s' = waiting s \<or> waiting s' = (\<lambda>t. map_option (\<lambda>w. w\<lparr>w_awake := True\<rparr>) (waiting s t))"
      using assms(3) tail
      by (auto simp: sys_close_def osprd_close_last_def wake_up_all_def Let_def split: if_splits bind_splits
          dest: release_counts_tickets)
    then have "\<exists>m' \<le> Suc m. ticket_lost k m' s'"
      by (intro same) (auto, metis+)
    then show ?thesis using Close by simp
  qed
qed

lemma ticket_lost_run:
  "ticket_lost k m s \<Longrightarrow> m + length es < 4294967295 \<Longrightarrow> osys_run es s = Some s' \<Longrightarrow>
   \<exists>m' \<le> m + length es. ticket_lost k m' s'"
proof (induction es arbitrary: s m)
  case (Cons e es)
  then obtain r s1 where s1: "osys_step e s = Some (r, s1)" "osys_run es s1 = Some s'"
    by (auto split: option.splits prod.splits)
  then obtain m1 where m1: "m1 \<le> Suc m" "ticket_lost k m1 s1"
    using ticket_lost_step [OF Cons.prems(1) _ s1(1)] Cons.prems(2) by auto
  then obtain m' where "m' \<le> m1 + length es" "ticket_lost k m' s'"
    using Cons.IH [OF m1(2) _ s1(2)] Cons.prems(2) by auto
  then show ?case using m1(1) by (intro exI [of _ m']) simp
qed auto



section \<open>Removed readers stay in the list\<close>

lemma release_counts_readers:
  "chain_ok d \<Longrightarrow> release_counts pid w d = Some d' \<Longrightarrow> readers d' = readers d"
  by (cases w) (auto simp: release_counts_cases readers_def)

lemma acquire_enter_readers:
  "acquire_enter w pid d = Some (r, d') \<Longrightarrow> readers d' = readers d"
  by (auto simp: acquire_enter_def acquire_ticket_def acquire_check_def Let_def readers_def
      split: if_splits reply.splits prod.splits bind_splits)

lemma next_ticket_readers: "next_ticket d = Some d' \<Longrightarrow> readers d' = readers d"
  by (auto simp: next_ticket_def readers_def split: bind_splits)

lemma readers_spin [simp]:
  "readers (osp_spin_lock d) = readers d" "readers (osp_spin_unlock d) = readers d"
  "readers (take_write pid d) = readers d"
  by (simp_all add: readers_def take_write_def)

lemma take_read_readers:
  "chain_ok d \<Longrightarrow> take_read pid d = Some d' \<Longrightarrow> readers d' = insert pid (readers d)"
  by (metis take_read_cases option.inject)

lemma acquire_granted_readers:
  assumes "chain_ok d" "acquire_granted pid f d = Some (f', d')"
  shows "readers d' = (if f_writable f then readers d else insert pid (readers d))"
  using assms take_read_readers [of "osp_spin_lock d" pid]
  unfolding acquire_granted_def
  by (auto simp: Let_def dest!: next_ticket_readers split: bind_splits if_splits)

lemma osys_step_readers:
  assumes "chain_ok (dev s)" "osys_step e s = Some (r, s')"
  shows "readers (dev s) \<subseteq> readers (dev s')"
proof (cases e)
  case (Acquire t pid f)
  then show ?thesis
    using assms(2) by (auto simp: sys_acquire_def dest!: acquire_enter_readers split: if_splits bind_splits reply.splits)
next
  case (Wake t)
  then show ?thesis
    using assms by (auto simp: sys_wake_def Let_def acquire_granted_readers split: if_splits bind_splits option.splits)
next
  case (Signal t)
  then show ?thesis
    using assms(2) by (auto simp: sys_signal_def acquire_interrupted_def readers_def
        dest!: next_ticket_readers split: if_splits bind_splits option.splits)
next
  case (TryAcquire pid f)
  then show ?thesis
    using assms take_read_readers [of "osp_spin_lock (osp_spin_unlock (osp_spin_lock (dev s)))" pid]
    by (auto simp: sys_try_def try_acquire_def try_ticket_def try_lock_def Let_def split: if_splits bind_splits)
next
  case (Release pid f)
  then show ?thesis
    using assms release_counts_readers [of "osp_spin_lock (dev s)" pid]
    by (auto simp: sys_release_def release_def Let_def split: if_splits bind_splits)
next
  case (Close pid f)
  then show ?thesis
    using assms release_counts_readers [of "osp_spin_lock (dev s)" pid]
    by (auto simp: sys_close_def osprd_close_last_def Let_def split: if_splits bind_splits)
qed

lemma osys_run_readers:
  "osys_reachable wr s \<Longrightarrow> osys_run es s = Some s' \<Longrightarrow> readers (dev s) \<subseteq> readers (dev s')"
proof (induction es arbitrary: s)
  case (Cons e es)
  then obtain r s1 where s1: "osys_step e s = Some (r, s1)" "osys_run es s1 = Some s'"
    by (auto split: option.splits prod.splits)
  have "readers (dev s) \<subseteq> readers (dev s1)"
    using osys_step_readers [OF _ s1(1)] osys_reachable_inv [OF Cons.prems(1)] by (simp add: lock_inv_def)
  then show ?case
    using Cons.IH [OF osys_reachable.step [OF Cons.prems(1) s1(1)] s1(2)] by blast
qed simp



end
