(* ===== verification/OsprdEdge.thy ===== *)
theory OsprdEdge
  imports OsprdLock
begin

text \<open>
  The ramdisk at its edges: what each step does to the mutex, a wakeup that is never sent, two
  tasks interleaved between their sections under the mutex, and block requests inside and
  outside the data array.
\<close>

section \<open>The mutex\<close>

text \<open>The two paths that return with the mutex still locked.\<close>

fun leaks_mutex :: "event \<Rightarrow> reply \<Rightarrow> osys \<Rightarrow> bool" where
  "leaks_mutex (TryAcquire pid f) r s \<longleftrightarrow> r = Fail EBUSY \<and> \<not> f_writable (files s f)"
| "leaks_mutex (Release pid f) r s \<longleftrightarrow> r = Fail EINVAL"
| "leaks_mutex e r s \<longleftrightarrow> False"

lemma next_ticket_mutex: "next_ticket d = Some d' \<Longrightarrow> mutex d' = mutex d"
  by (auto simp: next_ticket_def split: bind_splits)

lemma take_mutex:
  "mutex (take_write pid d) = mutex d"
  "chain_ok d \<Longrightarrow> take_read pid d = Some d' \<Longrightarrow> mutex d' = mutex d"
  by (simp add: take_write_def) (metis take_read_cases option.inject)

lemma acquire_granted_mutex:
  assumes "chain_ok d" "acquire_granted pid f d = Some (f', d')"
  shows "mutex d' = mutex d"
  using assms take_mutex(2) [of "osp_spin_lock d" pid]
  unfolding acquire_granted_def
  by (auto simp: Let_def take_mutex(1) dest!: next_ticket_mutex split: bind_splits if_splits)

text \<open>
  C38: Every step leaves the mutex as it found it, except a TRYACQUIRE of a read lock that returns
  -EBUSY and a RELEASE that returns -EINVAL: these two leave it locked once more.
\<close>

theorem osprd_mutex_balance:
  assumes "osys_reachable wr s" and "osys_step e s = Some (r, s')"
  shows "mutex (dev s') = mutex (dev s) - (if leaks_mutex e r s then 1 else 0)"
proof -
  have ch: "chain_ok (dev s)" using osys_reachable_inv [OF assms(1)] by (rule lock_inv_chain)
  show ?thesis
  proof (cases e)
    case (Acquire t pid f)
    then show ?thesis
      using assms(2) acquire_enter_tickets(4)
      by (auto simp: sys_acquire_def split: if_splits bind_splits reply.splits)
  next
    case (Wake t)
    then show ?thesis
      using assms(2) acquire_granted_mutex [OF ch]
      by (auto simp: sys_wake_def Let_def split: if_splits bind_splits option.splits)
  next
    case (Signal t)
    then show ?thesis
      using assms(2) by (auto simp: sys_signal_def acquire_interrupted_def dest!: next_ticket_mutex
          split: if_splits bind_splits option.splits)
  next
    case (TryAcquire pid f)
    then show ?thesis
      using assms(2) ch take_mutex(2) [of "osp_spin_lock (osp_spin_unlock (osp_spin_lock (dev s)))" pid]
      by (auto simp: sys_try_def try_acquire_def try_ticket_def try_lock_def Let_def take_mutex(1)
          split: if_splits bind_splits)
  next
    case (Release pid f)
    then show ?thesis
      using assms(2) release_counts_tickets(3) [of pid _ "osp_spin_lock (dev s)"]
      by (auto simp: sys_release_def release_def Let_def split: if_splits bind_splits)
  next
    case (Close pid f)
    then show ?thesis
      using assms(2) release_counts_tickets(3) [of pid _ "osp_spin_lock (dev s)"]
      by (auto simp: sys_close_def osprd_close_last_def Let_def split: if_splits bind_splits)
  qed
qed

theorem osprd_mutex_balance_witness:
  "\<exists>r s. osys_step (Release 7 0) (osys_init (\<lambda>_. True)) = Some (r, s) \<and> mutex (dev s) = - 1"
proof -
  let ?s = "osys_init (\<lambda>_. True)"
  have "map_option fst (osys_step (Release 7 0) ?s) = Some (Fail EINVAL)" by code_simp
  then obtain s where s: "osys_step (Release 7 0) ?s = Some (Fail EINVAL, s)" by auto
  from osprd_mutex_balance [OF osys_reachable.init s] s show ?thesis
    by (auto simp: osys_init_def osprd_setup_def)
qed

section \<open>A wakeup that is never sent\<close>

text \<open>
  Releasing the last read lock wakes nobody: a reader holds the lock, a writer asks for it
  and goes to sleep, the reader releases. The writer's wait condition holds now, nobody
  else holds or waits for the lock, and the writer is still asleep.
\<close>

theorem osprd_release_misses_wakeup:
  "\<exists>s w. osys_run [Acquire 1 7 1, Wake 1, Acquire 2 8 0, Wake 2, Release 7 1] (osys_init (\<lambda>f. f = 0)) = Some s
     \<and> waiting s 2 = Some w \<and> \<not> w_awake w \<and> wait_cond True (w_ticket w) (dev s)
     \<and> num_write (dev s) = 0 \<and> num_read (dev s) = 0 \<and> waiting s 1 = None"
proof -
  let ?run = "osys_run [Acquire 1 7 1, Wake 1, Acquire 2 8 0, Wake 2, Release 7 1] (osys_init (\<lambda>f. f = 0))"
  have "map_option (\<lambda>s. (waiting s 2, waiting s 1)) ?run
      = Some (Some \<lparr>w_pid = 8, w_file = 0, w_ticket = 1, w_awake = False\<rparr>, None)"
    by code_simp
  moreover have "map_option (\<lambda>s. (num_write (dev s), num_read (dev s), ticket_tail (dev s))) ?run = Some (0, 0, 1)"
    by code_simp
  ultimately show ?thesis by (auto simp del: osys_run.simps simp: wait_cond_def)
qed

section \<open>Two processors\<close>

text \<open>
  The ticket that TRYACQUIRE reads in its first section under the mutex is out of date in
  its second. Process 8 reads its ticket, process 7 takes the same ticket in ACQUIRE and finds
  its wait condition true, 8 is granted the lock, then 7 is: two files are write-locked at
  once.
\<close>

theorem osprd_try_acquire_races:
  "\<exists>d1 d2 f1 d3 f2 d4. try_ticket 8 osprd_setup = (Waits 0, d1)
     \<and> acquire_enter True 7 d1 = Some (Waits 0, d2) \<and> wait_cond True 0 d2
     \<and> try_lock 8 0 \<lparr>f_writable = True, f_flags = O_SYNC\<rparr> d2 = Some (Done, f1, d3)
     \<and> acquire_granted 7 \<lparr>f_writable = True, f_flags = O_SYNC\<rparr> d3 = Some (f2, d4)
     \<and> file_locked f1 \<and> file_locked f2 \<and> num_write d4 = 2"
proof -
  let ?f = "\<lparr>f_writable = True, f_flags = O_SYNC\<rparr>"
  let ?d1 = "snd (try_ticket 8 osprd_setup)"
  let ?d2 = "snd (the (acquire_enter True 7 ?d1))"
  have r: "find_reader [] pid 0 = Some False" for pid by (subst find_reader.simps) simp
  have k: "skip_invalid [] 0 t = Some t" for t by (subst skip_invalid.simps) simp
  have a: "try_ticket 8 osprd_setup = (Waits 0, ?d1)"
    by (simp add: try_ticket_def osprd_setup_def osp_spin_lock_def osp_spin_unlock_def)
  have b: "acquire_enter True 7 ?d1 = Some (Waits 0, ?d2)"
    by (simp add: acquire_enter_def acquire_ticket_def acquire_check_def try_ticket_def
        osprd_setup_def osp_spin_lock_def osp_spin_unlock_def Let_def r)
  have d2: "num_write ?d2 = 0" "num_read ?d2 = 0" "ticket_tail ?d2 = 0" "invalidTicketList ?d2 = []"
    by (simp_all add: acquire_enter_def acquire_ticket_def acquire_check_def try_ticket_def
        osprd_setup_def osp_spin_lock_def osp_spin_unlock_def Let_def r)
  let ?d3 = "osp_spin_unlock (take_write 8 (osp_spin_lock ?d2))"
  have c: "try_lock 8 0 ?f ?d2 = Some (Done, set_locked ?f, ?d3)"
    using d2 by (simp add: try_lock_def Let_def)
  have d3: "num_write ?d3 = 1" "ticket_tail ?d3 = 0" "invalidTicketList ?d3 = []"
    using d2 by (simp_all add: take_write_def)
  have "\<exists>d4. acquire_granted 7 ?f ?d3 = Some (set_locked ?f, d4) \<and> num_write d4 = 2"
    using d3 k by (simp add: acquire_granted_def take_write_def next_ticket_def Let_def)
  then obtain d4 where e: "acquire_granted 7 ?f ?d3 = Some (set_locked ?f, d4)" "num_write d4 = 2"
    by blast
  have w: "wait_cond True 0 ?d2" using d2 by (simp add: wait_cond_def)
  show ?thesis
    by (intro exI conjI, rule a, rule b, rule w, rule c, rule e(1)) (simp_all only: locked_set_locked e(2))
qed

section \<open>Block requests\<close>

text \<open>
  A request inside the device reads or writes exactly its sectors and ends once, with success:
  after a write the sectors hold the buffer's bytes and every other byte of the data array
  is unchanged, after a read the buffer holds the bytes of the sectors.
\<close>

theorem osprd_request_in_range:
  assumes "rq_fs rq" and "rq_sector rq + rq_nr_sectors rq \<le> nsectors"
    and "rq_buffer rq + rq_nr_sectors rq * SECTOR_SIZE \<le> data \<or> data + nsectors * SECTOR_SIZE \<le> rq_buffer rq"
    and "osprd_process_request nsectors data rq m = (ends, m')"
  shows "(rq_dir rq = WRITE \<longrightarrow> ends = [1]
      \<and> mem_get m' (data + rq_sector rq * SECTOR_SIZE) (rq_nr_sectors rq * SECTOR_SIZE)
        = mem_get m (rq_buffer rq) (rq_nr_sectors rq * SECTOR_SIZE)
      \<and> (\<forall>a. a < data + rq_sector rq * SECTOR_SIZE
             \<or> data + (rq_sector rq + rq_nr_sectors rq) * SECTOR_SIZE \<le> a \<longrightarrow> m' a = m a))
    \<and> (rq_dir rq = READ \<longrightarrow> ends = [1]
      \<and> mem_get m' (rq_buffer rq) (rq_nr_sectors rq * SECTOR_SIZE)
        = mem_get m (data + rq_sector rq * SECTOR_SIZE) (rq_nr_sectors rq * SECTOR_SIZE)
      \<and> (\<forall>a. data \<le> a \<and> a < data + nsectors * SECTOR_SIZE \<longrightarrow> m' a = m a))"
proof -
  let ?n = "rq_nr_sectors rq * SECTOR_SIZE" and ?p = "data + rq_sector rq * SECTOR_SIZE"
  have same: "mem_get (copy_bytes m d s n) d n = mem_get m s n" for d s n
    using mem_get_put [of m d "mem_get m s n"] by (simp add: copy_bytes_def)
  have out: "a < d \<or> d + n \<le> a \<Longrightarrow> copy_bytes m d s n a = m a" for a d s n
    by (simp add: copy_bytes_def mem_put_out)
  have w: "ends = [1] \<and> m' = copy_bytes m ?p (rq_buffer rq) ?n" if "rq_dir rq = WRITE"
    using assms(1,2,4) that by (simp add: osprd_process_request_def Let_def add.commute)
  have r: "ends = [1] \<and> m' = copy_bytes m (rq_buffer rq) ?p ?n" if "rq_dir rq = READ"
    using assms(1,2,4) that by (simp add: osprd_process_request_def Let_def add.commute)
  show ?thesis
  proof (intro conjI impI)
    assume d: "rq_dir rq = WRITE"
    show "ends = [1]" "mem_get m' ?p ?n = mem_get m (rq_buffer rq) ?n" using w [OF d] same by simp_all
    show "\<forall>a. a < ?p \<or> data + (rq_sector rq + rq_nr_sectors rq) * SECTOR_SIZE \<le> a \<longrightarrow> m' a = m a"
      using w [OF d] out by (simp add: algebra_simps)
  next
    assume d: "rq_dir rq = READ"
    show "ends = [1]" "mem_get m' (rq_buffer rq) ?n = mem_get m ?p ?n" using r [OF d] same by simp_all
    show "\<forall>a. data \<le> a \<and> a < data + nsectors * SECTOR_SIZE \<longrightarrow> m' a = m a"
      using r [OF d] out assms(3) by auto
  qed
qed

theorem osprd_request_in_range_witness:
  "snd (osprd_process_request 32 0 \<lparr>rq_fs = True, rq_sector = 2, rq_nr_sectors = 1, rq_dir = WRITE,
       rq_buffer = 100000\<rparr> (\<lambda>a. of_nat a)) 0 = 0"
proof -
  let ?rq = "\<lparr>rq_fs = True, rq_sector = 2, rq_nr_sectors = 1, rq_dir = WRITE, rq_buffer = 100000\<rparr>"
  obtain ends m' where e: "osprd_process_request 32 0 ?rq (\<lambda>a. of_nat a) = (ends, m')"
    by fastforce
  from osprd_request_in_range [OF _ _ _ e] have "m' 0 = (\<lambda>a. of_nat a) (0 :: nat)" by simp
  then show ?thesis using e by simp
qed

text \<open>
  A request past the end of the device is ended with failure and then carried out all the
  same and ended a second time: a write stores the buffer beyond the data array.
\<close>

theorem osprd_request_overruns:
  assumes "rq_fs rq" and "rq_dir rq = WRITE" and "0 < rq_nr_sectors rq"
    and "nsectors < rq_sector rq + rq_nr_sectors rq"
  shows "\<exists>m' a. osprd_process_request nsectors data rq m = ([0, 1], m')
    \<and> data + nsectors * SECTOR_SIZE \<le> a
    \<and> (\<forall>i < SECTOR_SIZE. m' (a + i)
        = m (rq_buffer rq + (rq_nr_sectors rq - 1) * SECTOR_SIZE + i))"
proof -
  let ?p = "data + rq_sector rq * SECTOR_SIZE" and ?n = "rq_nr_sectors rq * SECTOR_SIZE"
  let ?o = "(rq_nr_sectors rq - 1) * SECTOR_SIZE"
  have "osprd_process_request nsectors data rq m = ([0, 1], copy_bytes m ?p (rq_buffer rq) ?n)"
    using assms by (simp add: osprd_process_request_def Let_def add.commute)
  moreover have "data + nsectors * SECTOR_SIZE \<le> ?p + ?o"
  proof -
    have "nsectors \<le> rq_sector rq + (rq_nr_sectors rq - 1)" using assms(3,4) by simp
    then show ?thesis by (metis add.assoc add_le_cancel_left add_mult_distrib mult_le_mono1)
  qed
  moreover have "copy_bytes m ?p (rq_buffer rq) ?n (?p + ?o + i) = m (rq_buffer rq + ?o + i)" if "i < SECTOR_SIZE" for i
  proof -
    have lt: "?o + i < ?n" using that assms(3) by (cases "rq_nr_sectors rq") auto
    then show ?thesis
      using mem_put_in [of "?o + i" "mem_get m (rq_buffer rq) ?n" m ?p] by (simp add: copy_bytes_def add.assoc)
  qed
  ultimately show ?thesis by blast
qed

theorem osprd_request_overruns_witness:
  "fst (osprd_process_request 32 0 \<lparr>rq_fs = True, rq_sector = 31, rq_nr_sectors = 2, rq_dir = WRITE,
       rq_buffer = 100000\<rparr> (\<lambda>a. of_nat a)) = [0, 1]"
  using osprd_request_overruns [of "\<lparr>rq_fs = True, rq_sector = 31, rq_nr_sectors = 2, rq_dir = WRITE,
       rq_buffer = 100000\<rparr>" 32 0 "\<lambda>a. of_nat a"] by auto

end
