(* ===== verification/OspfsDisk.thy ===== *)
theory OspfsDisk
  imports Prelude
begin

text \<open>
  The OSPFS disk image of lab3: the layout of ospfs.h over a byte memory, and the helper
  functions of ospfsmod.c that address it: bit vectors, blocks, inodes and the block of a
  file that holds an offset. Pointers into \<open>ospfs_data\<close> are byte offsets.
\<close>

section \<open>Layout\<close>

abbreviation OSPFS_BLKSIZE :: nat where "OSPFS_BLKSIZE \<equiv> 1024"
abbreviation OSPFS_BLKBITSIZE :: nat where "OSPFS_BLKBITSIZE \<equiv> 8192"
abbreviation OSPFS_NDIRECT :: nat where "OSPFS_NDIRECT \<equiv> 10"
abbreviation OSPFS_NINDIRECT :: nat where "OSPFS_NINDIRECT \<equiv> 256"
abbreviation OSPFS_MAXFILEBLKS :: nat where "OSPFS_MAXFILEBLKS \<equiv> 65802"
abbreviation OSPFS_DIRENTRY_SIZE :: nat where "OSPFS_DIRENTRY_SIZE \<equiv> 128"
abbreviation OSPFS_MAXNAMELEN :: nat where "OSPFS_MAXNAMELEN \<equiv> 123"
abbreviation OSPFS_MAXSYMLINKLEN :: nat where "OSPFS_MAXSYMLINKLEN \<equiv> 51"
abbreviation OSPFS_INODESIZE :: nat where "OSPFS_INODESIZE \<equiv> 64"

definition OSPFS_MAGIC :: u32 where "OSPFS_MAGIC = 0x013101AE"
definition OSPFS_FTYPE_REG :: u32 where "OSPFS_FTYPE_REG = 0"
definition OSPFS_FTYPE_DIR :: u32 where "OSPFS_FTYPE_DIR = 1"
definition OSPFS_FTYPE_SYMLINK :: u32 where "OSPFS_FTYPE_SYMLINK = 2"

text \<open>The superblock, \<open>struct ospfs_super\<close> at byte 1024.\<close>

definition os_magic :: "mem \<Rightarrow> u32" where "os_magic m = ld32 m 1024"
definition os_nblocks :: "mem \<Rightarrow> u32" where "os_nblocks m = ld32 m 1028"
definition os_ninodes :: "mem \<Rightarrow> u32" where "os_ninodes m = ld32 m 1032"
definition os_firstinob :: "mem \<Rightarrow> u32" where "os_firstinob m = ld32 m 1036"

text \<open>The words of \<open>struct ospfs_inode\<close> at address \<open>oi\<close>.\<close>

definition oi_size :: "mem \<Rightarrow> nat \<Rightarrow> u32" where "oi_size m oi = ld32 m oi"
definition oi_ftype :: "mem \<Rightarrow> nat \<Rightarrow> u32" where "oi_ftype m oi = ld32 m (oi + 4)"
definition oi_nlink :: "mem \<Rightarrow> nat \<Rightarrow> u32" where "oi_nlink m oi = ld32 m (oi + 8)"
definition oi_mode :: "mem \<Rightarrow> nat \<Rightarrow> u32" where "oi_mode m oi = ld32 m (oi + 12)"
definition oi_direct :: "mem \<Rightarrow> nat \<Rightarrow> nat \<Rightarrow> u32" where "oi_direct m oi i = ld32 m (oi + 16 + 4 * i)"
definition oi_indirect :: "mem \<Rightarrow> nat \<Rightarrow> u32" where "oi_indirect m oi = ld32 m (oi + 56)"
definition oi_indirect2 :: "mem \<Rightarrow> nat \<Rightarrow> u32" where "oi_indirect2 m oi = ld32 m (oi + 60)"

definition set_size :: "nat \<Rightarrow> u32 \<Rightarrow> mem \<Rightarrow> mem" where "set_size oi v m = st32 m oi v"
definition set_ftype :: "nat \<Rightarrow> u32 \<Rightarrow> mem \<Rightarrow> mem" where "set_ftype oi v m = st32 m (oi + 4) v"
definition set_nlink :: "nat \<Rightarrow> u32 \<Rightarrow> mem \<Rightarrow> mem" where "set_nlink oi v m = st32 m (oi + 8) v"
definition set_mode :: "nat \<Rightarrow> u32 \<Rightarrow> mem \<Rightarrow> mem" where "set_mode oi v m = st32 m (oi + 12) v"
definition set_direct :: "nat \<Rightarrow> nat \<Rightarrow> u32 \<Rightarrow> mem \<Rightarrow> mem" where
  "set_direct oi i v m = st32 m (oi + 16 + 4 * i) v"
definition set_indirect :: "nat \<Rightarrow> u32 \<Rightarrow> mem \<Rightarrow> mem" where "set_indirect oi v m = st32 m (oi + 56) v"
definition set_indirect2 :: "nat \<Rightarrow> u32 \<Rightarrow> mem \<Rightarrow> mem" where "set_indirect2 oi v m = st32 m (oi + 60) v"

section \<open>Bit vectors\<close>

definition bitvector_set :: "nat \<Rightarrow> nat \<Rightarrow> mem \<Rightarrow> mem" where
  "bitvector_set vector i m =
     (let a = vector + 4 * (i div 32) in st32 m a (ld32 m a OR push_bit (i mod 32) 1))"

definition bitvector_clear :: "nat \<Rightarrow> nat \<Rightarrow> mem \<Rightarrow> mem" where
  "bitvector_clear vector i m =
     (let a = vector + 4 * (i div 32) in st32 m a (ld32 m a AND NOT (push_bit (i mod 32) 1)))"

definition bitvector_test :: "mem \<Rightarrow> nat \<Rightarrow> nat \<Rightarrow> bool" where
  "bitvector_test m vector i \<longleftrightarrow> ld32 m (vector + 4 * (i div 32)) AND push_bit (i mod 32) 1 \<noteq> 0"

section \<open>Blocks and inodes\<close>

definition ospfs_size2nblocks :: "u32 \<Rightarrow> u32" where
  "ospfs_size2nblocks sz = (sz + 1024 - 1) div 1024"

text \<open>The multiplication is 32 bits wide, as in C.\<close>

definition ospfs_block :: "u32 \<Rightarrow> nat" where
  "ospfs_block blockno = unat (blockno * 1024)"

definition ospfs_inode :: "mem \<Rightarrow> nat \<Rightarrow> nat option" where
  "ospfs_inode m ino =
     (if ino \<ge> unat (os_ninodes m) then None
      else Some (ospfs_block (os_firstinob m) + OSPFS_INODESIZE * ino))"

definition ospfs_inode_blockno :: "mem \<Rightarrow> nat \<Rightarrow> u32 \<Rightarrow> u32" where
  "ospfs_inode_blockno m oi offset =
     (let blockno = unat (offset div 1024) in
      if offset \<ge> oi_size m oi \<or> oi_ftype m oi = OSPFS_FTYPE_SYMLINK then 0
      else if blockno \<ge> OSPFS_NDIRECT + OSPFS_NINDIRECT then
        (let blockoff = blockno - (OSPFS_NDIRECT + OSPFS_NINDIRECT);
             indirect2_block = ospfs_block (oi_indirect2 m oi);
             indirect_block = ospfs_block (ld32 m (indirect2_block + 4 * (blockoff div OSPFS_NINDIRECT)))
         in ld32 m (indirect_block + 4 * (blockoff mod OSPFS_NINDIRECT)))
      else if blockno \<ge> OSPFS_NDIRECT then
        ld32 m (ospfs_block (oi_indirect m oi) + 4 * (blockno - OSPFS_NDIRECT))
      else oi_direct m oi blockno)"

definition ospfs_inode_data :: "mem \<Rightarrow> nat \<Rightarrow> u32 \<Rightarrow> nat" where
  "ospfs_inode_data m oi offset =
     ospfs_block (ospfs_inode_blockno m oi offset) + unat (offset mod 1024)"

section \<open>Linux inodes\<close>

text \<open>
  \<open>ospfs_mk_linux_inode\<close>. \<open>new_inode\<close> belongs to Linux: whether it finds memory is the
  first argument.
\<close>

record linux_inode =
  i_ino :: nat
  i_size :: u32
  i_mode :: u32
  i_nlink :: u32

datatype mk_inode = No_inode | Inode linux_inode | Panic

definition S_IFREG :: u32 where "S_IFREG = 0x8000"
definition S_IFDIR :: u32 where "S_IFDIR = 0x4000"
definition S_IFLNK :: u32 where "S_IFLNK = 0xA000"

definition ospfs_mk_linux_inode :: "bool \<Rightarrow> mem \<Rightarrow> nat \<Rightarrow> mk_inode" where
  "ospfs_mk_linux_inode new_inode_ok m ino =
     (case ospfs_inode m ino of
        None \<Rightarrow> No_inode
      | Some oi \<Rightarrow>
          if \<not> new_inode_ok then No_inode
          else if oi_ftype m oi = OSPFS_FTYPE_REG then
            Inode \<lparr>i_ino = ino, i_size = oi_size m oi, i_mode = oi_mode m oi OR S_IFREG,
              i_nlink = oi_nlink m oi\<rparr>
          else if oi_ftype m oi = OSPFS_FTYPE_DIR then
            Inode \<lparr>i_ino = ino, i_size = oi_size m oi, i_mode = oi_mode m oi OR S_IFDIR,
              i_nlink = oi_nlink m oi + 1\<rparr>
          else if oi_ftype m oi = OSPFS_FTYPE_SYMLINK then
            Inode \<lparr>i_ino = ino, i_size = oi_size m oi, i_mode = 0x1FF OR S_IFLNK,
              i_nlink = oi_nlink m oi\<rparr>
          else Panic)"

definition ospfs_fill_super :: "bool \<Rightarrow> bool \<Rightarrow> mem \<Rightarrow> (errno + nat) option" where
  "ospfs_fill_super new_inode_ok d_alloc_root_ok m =
     (case ospfs_mk_linux_inode new_inode_ok m 1 of
        Inode i \<Rightarrow> Some (if d_alloc_root_ok then Inr (i_ino i) else Inl ENOMEM)
      | No_inode \<Rightarrow> Some (Inl ENOMEM)
      | Panic \<Rightarrow> None)"

section \<open>Facts about the helpers\<close>

lemma bit_and_push_bit_1:
  "(w :: u32) AND push_bit n 1 \<noteq> 0 \<longleftrightarrow> bit w n"
proof -
  have "w AND push_bit n 1 = (if bit w n then push_bit n 1 else 0)"
    by (rule bit_eqI) (auto simp: bit_simps dest: bit_imp_le_length)
  moreover have "bit w n \<Longrightarrow> (push_bit n 1 :: u32) \<noteq> 0"
    by (auto simp: bit_eq_iff bit_simps dest: bit_imp_le_length intro!: exI [of _ n])
  ultimately show ?thesis by simp
qed

lemma bitvector_test_bit: "bitvector_test m v i = bit (ld32 m (v + 4 * (i div 32))) (i mod 32)"
  unfolding bitvector_test_def by (rule bit_and_push_bit_1)

lemma word_of_bit:
  fixes i j :: nat
  assumes "i \<noteq> j" "i div 32 = j div 32"
  shows "i mod 32 \<noteq> j mod 32"
  using assms by (metis div_mult_mod_eq)

lemma bitvector_test_clear:
  "bitvector_test (bitvector_clear v i m) v j \<longleftrightarrow> j \<noteq> i \<and> bitvector_test m v j"
proof (cases "j div 32 = i div 32")
  case True
  then show ?thesis
    using word_of_bit [of i j]
    by (cases "i = j") (auto simp: bitvector_test_bit bitvector_clear_def Let_def ld32_st32_same bit_simps)
next
  case False
  then have "ld32 (st32 m (v + 4 * (i div 32)) w) (v + 4 * (j div 32)) = ld32 m (v + 4 * (j div 32))" for w
    by (intro ld32_st32_apart) linarith
  then show ?thesis using False by (auto simp: bitvector_test_bit bitvector_clear_def Let_def)
qed

lemma bitvector_test_set:
  "bitvector_test (bitvector_set v i m) v j \<longleftrightarrow> j = i \<or> bitvector_test m v j"
proof (cases "j div 32 = i div 32")
  case True
  then show ?thesis
    using word_of_bit [of i j]
    by (cases "i = j") (auto simp: bitvector_test_bit bitvector_set_def Let_def ld32_st32_same bit_simps)
next
  case False
  then have "ld32 (st32 m (v + 4 * (i div 32)) w) (v + 4 * (j div 32)) = ld32 m (v + 4 * (j div 32))" for w
    by (intro ld32_st32_apart) linarith
  then show ?thesis using False by (auto simp: bitvector_test_bit bitvector_set_def Let_def)
qed

lemma bitvector_other_byte:
  assumes "x < v + 4 * (i div 32) \<or> v + 4 * (i div 32) + 4 \<le> x"
  shows "bitvector_set v i m x = m x" "bitvector_clear v i m x = m x"
  using assms by (simp_all add: bitvector_set_def bitvector_clear_def Let_def st32_other_byte)

lemma ospfs_block_address:
  "unat b < 2 ^ 22 \<Longrightarrow> ospfs_block b = 1024 * unat b"
  unfolding ospfs_block_def by (subst unat_mult_no_wrap) simp_all

lemma unat_size2nblocks:
  assumes "unat sz \<le> 4294966272"
  shows "unat (ospfs_size2nblocks sz) = (unat sz + 1023) div 1024"
proof -
  have "sz + 1024 - 1 = sz + 1023" by simp
  moreover have "unat (1023 + sz) = unat sz + 1023"
    using assms by (subst unat_add_no_wrap) simp_all
  ultimately show ?thesis by (simp add: ospfs_size2nblocks_def unat_div)
qed

end
