(* ===== verification/OspfsAlloc.thy ===== *)
theory OspfsAlloc
  imports OspfsDisk
begin

text \<open>
  The free-block bitmap of OSPFS: \<open>allocate_block\<close> and \<open>free_block\<close> of ospfsmod.c, the
  contract of a block allocator as a locale, and the proof that the bitmap meets it.
\<close>

abbreviation FREEMAP :: nat where "FREEMAP \<equiv> 2048"

text \<open>The scan for a set bit from block \<open>i\<close> on; 0 is "disk full".\<close>

function find_free_block :: "mem \<Rightarrow> nat \<Rightarrow> nat" where
  "find_free_block m i =
     (if i < unat (os_nblocks m) then
        if bitvector_test m (ospfs_block 2) i then i else find_free_block m (i + 1)
      else 0)"
  by pat_completeness auto
termination
  by (relation "measure (\<lambda>(m, i). unat (os_nblocks m) - i)") auto

declare find_free_block.simps [simp del]

definition allocate_block :: "mem \<Rightarrow> u32 \<times> mem" where
  "allocate_block m =
     (let i = find_free_block m 2
      in if i = 0 then (0, m) else (of_nat i, bitvector_clear (ospfs_block 2) i m))"

definition free_block :: "u32 \<Rightarrow> mem \<Rightarrow> mem" where
  "free_block blockno m =
     (if blockno < os_firstinob m then m
      else if \<not> bitvector_test m (ospfs_block 2) (unat blockno)
      then bitvector_set (ospfs_block 2) (unat blockno) m else m)"

section \<open>The allocator contract\<close>

text \<open>
  An allocator over states \<open>'s\<close>: \<open>free\<close> is the set of free blocks of a good state, \<open>alloc\<close> takes
  one out or returns 0 when there is none, \<open>release\<close> puts one back.
\<close>

locale allocator =
  fixes good :: "'s \<Rightarrow> bool"
    and free :: "'s \<Rightarrow> nat set"
    and alloc :: "'s \<Rightarrow> nat \<times> 's"
    and release :: "nat \<Rightarrow> 's \<Rightarrow> 's"
    and releasable :: "'s \<Rightarrow> nat \<Rightarrow> bool"
  assumes never_zero: "good s \<Longrightarrow> 0 \<notin> free s"
    and alloc_some: "good s \<Longrightarrow> free s \<noteq> {} \<Longrightarrow> fst (alloc s) \<in> free s"
    and alloc_none: "good s \<Longrightarrow> free s = {} \<Longrightarrow> alloc s = (0, s)"
    and alloc_takes: "good s \<Longrightarrow> fst (alloc s) \<noteq> 0 \<Longrightarrow> free (snd (alloc s)) = free s - {fst (alloc s)}"
    and alloc_good: "good s \<Longrightarrow> good (snd (alloc s))"
    and release_adds: "good s \<Longrightarrow> releasable s b \<Longrightarrow> free (release b s) = insert b (free s)"
    and release_good: "good s \<Longrightarrow> releasable s b \<Longrightarrow> good (release b s)"
    and taken_releasable: "good s \<Longrightarrow> b \<in> free s \<Longrightarrow> releasable s b"
    and alloc_releasable: "good s \<Longrightarrow> releasable (snd (alloc s)) b = releasable s b"
begin

lemma alloc_zero_iff: "good s \<Longrightarrow> fst (alloc s) = 0 \<longleftrightarrow> free s = {}"
  using never_zero alloc_some alloc_none by (metis fst_conv)

lemma alloc_release:
  assumes "good s" "free s \<noteq> {}"
  shows "free (release (fst (alloc s)) (snd (alloc s))) = free s"
proof -
  have in_free: "fst (alloc s) \<in> free s" using alloc_some [OF assms] .
  then have ne: "fst (alloc s) \<noteq> 0" using never_zero [OF assms(1)] by metis
  have "releasable (snd (alloc s)) (fst (alloc s))"
    using taken_releasable [OF assms(1) in_free] alloc_releasable [OF assms(1)] by simp
  then show ?thesis
    using release_adds [OF alloc_good [OF assms(1)]] alloc_takes [OF assms(1) ne] in_free by auto
qed

lemma two_allocs_differ:
  assumes "good s" "alloc s = (a, s1)" "alloc s1 = (b, s2)" "a \<noteq> 0" "b \<noteq> 0"
  shows "a \<noteq> b \<and> free s2 = free s - {a, b}"
proof -
  have s1: "good s1" "free s1 = free s - {a}"
    using alloc_good [OF assms(1)] alloc_takes [OF assms(1)] assms(2,4) by simp_all
  have "b \<in> free s1" using alloc_some [OF s1(1)] alloc_none [OF s1(1)] assms(3,5) by fastforce
  then show ?thesis
    using s1 alloc_takes [OF s1(1)] assms(3,5) by auto
qed

end

section \<open>Good disks\<close>

text \<open>
  The layout of ospfs.h: fewer than 2^22 blocks, so that byte addresses do not wrap; the bitmap
  from block 2 up to the inode blocks has a bit for every block; the inode blocks end before
  the disk does; and only blocks after them are marked free.
\<close>

definition data_start :: "mem \<Rightarrow> nat" where
  "data_start m = unat (os_firstinob m) + (unat (os_ninodes m) + 15) div 16"

definition disk_ok :: "mem \<Rightarrow> bool" where
  "disk_ok m \<longleftrightarrow> unat (os_nblocks m) < 2 ^ 22
     \<and> 2 + (unat (os_nblocks m) + 8191) div 8192 \<le> unat (os_firstinob m)
     \<and> data_start m \<le> unat (os_nblocks m)
     \<and> (\<forall>b < data_start m. \<not> bitvector_test m FREEMAP b)"

definition free_set :: "mem \<Rightarrow> nat set" where
  "free_set m = {b. b < unat (os_nblocks m) \<and> bitvector_test m FREEMAP b}"

lemma block2 [simp]: "ospfs_block 2 = FREEMAP"
  by (simp add: ospfs_block_def)

lemma find_free_block_cases:
  obtains (found) b where "i \<le> b" "b < unat (os_nblocks m)" "bitvector_test m FREEMAP b"
      "\<forall>j. i \<le> j \<and> j < b \<longrightarrow> \<not> bitvector_test m FREEMAP j" "find_free_block m i = b"
  | (full) "\<forall>j. i \<le> j \<and> j < unat (os_nblocks m) \<longrightarrow> \<not> bitvector_test m FREEMAP j"
      "find_free_block m i = 0"
proof -
  have "(\<exists>b. i \<le> b \<and> b < unat (os_nblocks m) \<and> bitvector_test m FREEMAP b
      \<and> (\<forall>j. i \<le> j \<and> j < b \<longrightarrow> \<not> bitvector_test m FREEMAP j) \<and> find_free_block m i = b)
    \<or> (\<forall>j. i \<le> j \<and> j < unat (os_nblocks m) \<longrightarrow> \<not> bitvector_test m FREEMAP j) \<and> find_free_block m i = 0"
  proof (induction m i rule: find_free_block.induct)
    case (1 m i)
    show ?case
    proof (cases "i < unat (os_nblocks m) \<and> \<not> bitvector_test m FREEMAP i")
      case True
      have ge: "i \<le> j \<longleftrightarrow> j = i \<or> i + 1 \<le> j" for j by auto
      show ?thesis
        using 1 True unfolding find_free_block.simps [of m i] ge by auto
    next
      case False
      then show ?thesis by (subst (1 2) find_free_block.simps) auto
    qed
  qed
  then show thesis using found full by blast
qed

text \<open>Writes to the bitmap stay between block 2 and the inode blocks.\<close>

definition freemap_end :: "mem \<Rightarrow> nat" where
  "freemap_end m = 1024 * unat (os_firstinob m)"

definition same_outside_freemap :: "mem \<Rightarrow> mem \<Rightarrow> bool" where
  "same_outside_freemap m m' \<longleftrightarrow> (\<forall>x. x < FREEMAP \<or> freemap_end m \<le> x \<longrightarrow> m' x = m x)"

lemma bitmap_word_end:
  assumes "disk_ok m" "i < unat (os_nblocks m)"
  shows "FREEMAP + 4 * (i div 32) + 4 \<le> freemap_end m"
proof -
  let ?q = "(unat (os_nblocks m) + 8191) div 8192"
  have "i < 256 * ?q * 32" using assms(2) by linarith
  then have "i div 32 < 256 * ?q" by (rule less_mult_imp_div_less)
  moreover have "2 + ?q \<le> unat (os_firstinob m)" using assms(1) by (simp add: disk_ok_def)
  ultimately show ?thesis unfolding freemap_end_def by linarith
qed

lemma same_outside_freemap_bits:
  assumes "disk_ok m" "i < unat (os_nblocks m)"
  shows "same_outside_freemap m (bitvector_set FREEMAP i m)"
    and "same_outside_freemap m (bitvector_clear FREEMAP i m)"
  unfolding same_outside_freemap_def
  using bitmap_word_end [OF assms] by (auto intro!: bitvector_other_byte)

lemma same_outside_freemap_ld32:
  "same_outside_freemap m m' \<Longrightarrow> a + 4 \<le> FREEMAP \<or> freemap_end m \<le> a \<Longrightarrow> ld32 m' a = ld32 m a"
  unfolding same_outside_freemap_def by (rule ld32_cong) auto

lemma same_outside_freemap_super:
  assumes "same_outside_freemap m m'"
  shows "os_nblocks m' = os_nblocks m" "os_ninodes m' = os_ninodes m" "os_firstinob m' = os_firstinob m"
    "data_start m' = data_start m" "freemap_end m' = freemap_end m"
  using same_outside_freemap_ld32 [OF assms]
  by (simp_all add: os_nblocks_def os_ninodes_def os_firstinob_def data_start_def freemap_end_def)

lemma same_outside_freemap_refl [simp]: "same_outside_freemap m m"
  by (simp add: same_outside_freemap_def)

lemma same_outside_freemap_trans:
  "same_outside_freemap m m' \<Longrightarrow> same_outside_freemap m' m'' \<Longrightarrow> same_outside_freemap m m''"
  using same_outside_freemap_super(5) [of m m'] by (auto simp: same_outside_freemap_def)

lemma allocate_block_cases:
  assumes "disk_ok m"
  obtains (some) b where "b \<in> free_set m" "\<forall>j \<in> free_set m. b \<le> j" "data_start m \<le> b"
      "allocate_block m = (of_nat b, bitvector_clear FREEMAP b m)"
  | (none) "free_set m = {}" "allocate_block m = (0, m)"
proof (rule find_free_block_cases [of 2 m])
  fix b
  assume b: "2 \<le> b" "b < unat (os_nblocks m)" "bitvector_test m FREEMAP b"
    "\<forall>j. 2 \<le> j \<and> j < b \<longrightarrow> \<not> bitvector_test m FREEMAP j" "find_free_block m 2 = b"
  have low: "\<not> bitvector_test m FREEMAP j" if "j < data_start m" for j
    using assms that by (simp add: disk_ok_def)
  then have start: "data_start m \<le> b" using b(3) not_le by blast
  have "2 \<le> data_start m" using assms by (simp add: disk_ok_def data_start_def)
  then have "\<forall>j \<in> free_set m. b \<le> j"
    using b(4) low by (auto simp: free_set_def not_le [symmetric]) (meson le_trans not_le)
  then show thesis
    using b start by (intro some [of b]) (simp_all add: free_set_def allocate_block_def Let_def)
next
  assume full: "\<forall>j. 2 \<le> j \<and> j < unat (os_nblocks m) \<longrightarrow> \<not> bitvector_test m FREEMAP j"
    "find_free_block m 2 = 0"
  have "2 \<le> data_start m" "\<forall>j < data_start m. \<not> bitvector_test m FREEMAP j"
    using assms by (simp_all add: disk_ok_def data_start_def)
  then have "\<not> bitvector_test m FREEMAP j" if "j < unat (os_nblocks m)" for j
    using full(1) that by (cases "j < 2") auto
  then have "free_set m = {}" by (auto simp: free_set_def)
  then show thesis using full by (intro none) (simp_all add: allocate_block_def Let_def)
qed

lemma unat_of_block:
  assumes "disk_ok m" "b < unat (os_nblocks m)"
  shows "unat (of_nat b :: u32) = b"
  using assms by (simp add: disk_ok_def unat_of_nat take_bit_nat_eq_self)

lemma disk_ok_same:
  assumes "disk_ok m" "same_outside_freemap m m'" "free_set m' = F" "\<forall>b \<in> F. data_start m \<le> b"
    "\<forall>b. b < data_start m \<longrightarrow> bitvector_test m' FREEMAP b \<longrightarrow> b \<in> F"
  shows "disk_ok m'"
proof -
  note super = same_outside_freemap_super [OF assms(2)]
  have "\<not> bitvector_test m' FREEMAP b" if "b < data_start m" for b
    using assms(4,5) that by (meson not_le)
  then show ?thesis using assms(1) unfolding disk_ok_def super by blast
qed

lemma bitmap_clear:
  assumes "disk_ok m" "b < unat (os_nblocks m)"
  shows "free_set (bitvector_clear FREEMAP b m) = free_set m - {b}"
    and "disk_ok (bitvector_clear FREEMAP b m)"
proof -
  note same = same_outside_freemap_bits(2) [OF assms]
  note super = same_outside_freemap_super [OF same]
  show free: "free_set (bitvector_clear FREEMAP b m) = free_set m - {b}"
    by (auto simp: free_set_def super bitvector_test_clear)
  show "disk_ok (bitvector_clear FREEMAP b m)"
    using assms(1) unfolding disk_ok_def super by (auto simp: bitvector_test_clear)
qed

lemma bitmap_set:
  assumes "disk_ok m" "b < unat (os_nblocks m)" "data_start m \<le> b"
  shows "free_set (bitvector_set FREEMAP b m) = insert b (free_set m)"
    and "disk_ok (bitvector_set FREEMAP b m)"
proof -
  note same = same_outside_freemap_bits(1) [OF assms(1,2)]
  note super = same_outside_freemap_super [OF same]
  show "free_set (bitvector_set FREEMAP b m) = insert b (free_set m)"
    using assms by (auto simp: free_set_def super bitvector_test_set)
  show "disk_ok (bitvector_set FREEMAP b m)"
    using assms unfolding disk_ok_def super by (auto simp: bitvector_test_set)
qed

section \<open>The bitmap is an allocator\<close>

definition alloc_nat :: "mem \<Rightarrow> nat \<times> mem" where
  "alloc_nat m = (let (b, m') = allocate_block m in (unat b, m'))"

definition free_nat :: "nat \<Rightarrow> mem \<Rightarrow> mem" where
  "free_nat b m = free_block (of_nat b) m"

definition data_block :: "mem \<Rightarrow> nat \<Rightarrow> bool" where
  "data_block m b \<longleftrightarrow> data_start m \<le> b \<and> b < unat (os_nblocks m)"

lemma free_nat_eq:
  assumes "disk_ok m" "data_block m b"
  shows "free_nat b m = (if bitvector_test m FREEMAP b then m else bitvector_set FREEMAP b m)"
proof -
  have b: "unat (of_nat b :: u32) = b" using assms unat_of_block by (simp add: data_block_def)
  moreover have "\<not> (of_nat b :: u32) < os_firstinob m"
    using assms b by (simp add: word_less_nat_alt data_block_def data_start_def)
  ultimately show ?thesis by (simp add: free_nat_def free_block_def)
qed

lemma alloc_nat_cases:
  assumes "disk_ok m"
  obtains (some) b where "b \<in> free_set m" "\<forall>j \<in> free_set m. b \<le> j" "data_block m b" "0 < b"
      "alloc_nat m = (b, bitvector_clear FREEMAP b m)"
  | (none) "free_set m = {}" "alloc_nat m = (0, m)"
proof (rule allocate_block_cases [OF assms])
  fix b
  assume b: "b \<in> free_set m" "\<forall>j \<in> free_set m. b \<le> j" "data_start m \<le> b"
    "allocate_block m = (of_nat b, bitvector_clear FREEMAP b m)"
  have lt: "b < unat (os_nblocks m)" using b(1) by (simp add: free_set_def)
  have "0 < data_start m" using assms by (simp add: disk_ok_def data_start_def)
  then show thesis
    using b lt unat_of_block [OF assms lt]
    by (intro some [of b]) (simp_all add: data_block_def alloc_nat_def)
next
  assume "free_set m = {}" "allocate_block m = (0, m)"
  then show thesis by (intro none) (simp_all add: alloc_nat_def)
qed

lemma data_block_same: "same_outside_freemap m m' \<Longrightarrow> data_block m' b = data_block m b"
  using same_outside_freemap_super by (simp add: data_block_def)

interpretation bitmap: allocator disk_ok free_set alloc_nat free_nat data_block
proof
  fix m b
  assume ok: "disk_ok m"
  have zero: "0 < data_start m" using ok by (simp add: disk_ok_def data_start_def)
  have taken: "b \<in> free_set m \<Longrightarrow> data_block m b" for b
    using ok by (auto simp: free_set_def data_block_def disk_ok_def not_le [symmetric])
  show "0 \<notin> free_set m" using taken [of 0] zero by (auto simp: data_block_def)
  show "b \<in> free_set m \<Longrightarrow> data_block m b" by (rule taken)
  show "free_set m \<noteq> {} \<Longrightarrow> fst (alloc_nat m) \<in> free_set m"
    by (rule alloc_nat_cases [OF ok]) auto
  show "free_set m = {} \<Longrightarrow> alloc_nat m = (0, m)"
    by (rule alloc_nat_cases [OF ok]) auto
  show "fst (alloc_nat m) \<noteq> 0 \<Longrightarrow> free_set (snd (alloc_nat m)) = free_set m - {fst (alloc_nat m)}"
    by (rule alloc_nat_cases [OF ok]) (auto simp: bitmap_clear [OF ok] data_block_def)
  show "disk_ok (snd (alloc_nat m))"
    by (rule alloc_nat_cases [OF ok]) (auto simp: bitmap_clear [OF ok] data_block_def ok)
  show "data_block (snd (alloc_nat m)) b = data_block m b"
    by (rule alloc_nat_cases [OF ok])
      (auto simp: data_block_def same_outside_freemap_super [OF same_outside_freemap_bits(2) [OF ok]])
  show "free_set (free_nat b m) = insert b (free_set m)" if d: "data_block m b"
  proof (cases "bitvector_test m FREEMAP b")
    case True
    then have "b \<in> free_set m" using d by (simp add: free_set_def data_block_def)
    then show ?thesis using True by (simp add: free_nat_eq [OF ok d] insert_absorb)
  next
    case False
    then show ?thesis
      using d bitmap_set(1) [OF ok] by (simp add: free_nat_eq [OF ok d] data_block_def)
  qed
  show "data_block m b \<Longrightarrow> disk_ok (free_nat b m)"
    by (auto simp: free_nat_eq [OF ok] bitmap_set [OF ok] data_block_def ok)
qed

section \<open>Properties of the bitmap\<close>

text \<open>
  C27: On a good disk \<open>allocate_block\<close> returns the least free block and takes exactly it out of
  the free set, changing no byte outside the bitmap; it returns 0, and changes nothing, exactly
  when no block is free.
\<close>

theorem ospfs_allocate_block_least:
  assumes "disk_ok m" and "allocate_block m = (b, m')"
  shows "(b = 0 \<longleftrightarrow> free_set m = {}) \<and> (b = 0 \<longrightarrow> m' = m)
    \<and> (b \<noteq> 0 \<longrightarrow> unat b \<in> free_set m \<and> (\<forall>j \<in> free_set m. unat b \<le> j)
        \<and> free_set m' = free_set m - {unat b} \<and> disk_ok m' \<and> same_outside_freemap m m')"
proof -
  have nat: "alloc_nat m = (unat b, m')" using assms(2) by (simp add: alloc_nat_def)
  have zero: "b = 0 \<longleftrightarrow> free_set m = {}"
    using bitmap.alloc_zero_iff [OF assms(1)] nat by (simp add: unat_eq_0)
  show ?thesis
    by (rule alloc_nat_cases [OF assms(1)])
      (use nat zero assms(1) in \<open>auto simp: bitmap_clear data_block_def same_outside_freemap_bits(2)\<close>)
qed

text \<open>
  A small good disk: 64 blocks, 16 inodes, inode block 3, data blocks from 4 on; the blocks in
  a list are free.
\<close>

definition super_disk :: mem where
  "super_disk = st32 (st32 (st32 (st32 (\<lambda>_. 0) 1024 OSPFS_MAGIC) 1028 64) 1032 16) 1036 3"

definition small_disk :: "nat list \<Rightarrow> mem" where
  "small_disk bs = fold (bitvector_set FREEMAP) bs super_disk"

lemma super_disk_zero: "x < 1024 \<or> 1040 \<le> x \<Longrightarrow> super_disk x = 0"
  by (auto simp: super_disk_def st32_other_byte)

lemma super_disk_fields:
  "os_nblocks super_disk = 64" "os_ninodes super_disk = 16" "os_firstinob super_disk = 3"
  by (simp_all add: super_disk_def os_nblocks_def os_ninodes_def os_firstinob_def mem_simps)

lemma bitvector_test_fold:
  "bitvector_test (fold (bitvector_set v) bs m) v j \<longleftrightarrow> j \<in> set bs \<or> bitvector_test m v j"
  by (induction bs arbitrary: m) (auto simp: bitvector_test_set)

lemma small_disk_other:
  assumes "\<forall>b \<in> set bs. b < 64" "x < FREEMAP \<or> FREEMAP + 8 \<le> x"
  shows "small_disk bs x = super_disk x"
proof -
  have "fold (bitvector_set FREEMAP) bs m x = m x" for m
    using assms
  proof (induction bs arbitrary: m)
    case (Cons b bs)
    have "b div 32 \<le> 1" using Cons.prems(1) by (simp, linarith)
    then have "bitvector_set FREEMAP b m x = m x"
      using Cons.prems(2) by (intro bitvector_other_byte) linarith
    then show ?case using Cons by simp
  qed simp
  then show ?thesis by (simp add: small_disk_def)
qed

lemma small_disk_ld32:
  "\<forall>b \<in> set bs. b < 64 \<Longrightarrow> a + 4 \<le> FREEMAP \<or> FREEMAP + 8 \<le> a \<Longrightarrow> ld32 (small_disk bs) a = ld32 super_disk a"
  by (rule ld32_cong; rule small_disk_other; auto)

lemma small_disk_zero:
  "\<forall>b \<in> set bs. b < 64 \<Longrightarrow> FREEMAP + 8 \<le> a \<Longrightarrow> ld32 (small_disk bs) a = 0"
  by (simp add: small_disk_ld32) (simp add: ld32_def super_disk_zero)

lemma small_disk_super:
  assumes "\<forall>b \<in> set bs. b < 64"
  shows "os_nblocks (small_disk bs) = 64" "os_ninodes (small_disk bs) = 16"
    "os_firstinob (small_disk bs) = 3"
  using super_disk_fields small_disk_ld32 [OF assms]
  by (simp_all add: os_nblocks_def os_ninodes_def os_firstinob_def)

lemma small_disk_bits:
  assumes "\<forall>b \<in> set bs. b < 64" "j < 64"
  shows "bitvector_test (small_disk bs) FREEMAP j \<longleftrightarrow> j \<in> set bs"
proof -
  have "ld32 super_disk (FREEMAP + 4 * (j div 32)) = 0" by (simp add: ld32_def super_disk_zero)
  then show ?thesis by (simp add: small_disk_def bitvector_test_fold) (simp add: bitvector_test_bit)
qed

lemma small_disk_ok:
  assumes "\<forall>b \<in> set bs. 4 \<le> b \<and> b < 64"
  shows "disk_ok (small_disk bs)" "free_set (small_disk bs) = set bs" "data_start (small_disk bs) = 4"
proof -
  have lt: "\<forall>b \<in> set bs. b < 64" using assms by simp
  note super = small_disk_super [OF lt]
  show start: "data_start (small_disk bs) = 4" by (simp add: data_start_def super)
  have "\<not> bitvector_test (small_disk bs) FREEMAP b" if "b < 4" for b
    using small_disk_bits [OF lt, of b] assms that by auto
  then show "disk_ok (small_disk bs)" by (simp add: disk_ok_def super start)
  show "free_set (small_disk bs) = set bs"
    using lt small_disk_bits [OF lt] by (auto simp: free_set_def super)
qed

theorem ospfs_allocate_block_least_witness:
  "fst (allocate_block (small_disk [9, 7, 12])) = 7"
proof -
  let ?m = "small_disk [9, 7, 12]"
  have ok: "disk_ok ?m" "free_set ?m = {9, 7, 12}" using small_disk_ok [of "[9, 7, 12]"] by auto
  obtain b m' where b: "allocate_block ?m = (b, m')" by fastforce
  have "unat b \<in> {9, 7, 12}" "\<forall>j \<in> {9, 7, 12}. unat b \<le> j"
    using ospfs_allocate_block_least [OF ok(1) b] ok(2) by auto
  then have "unat b = 7" by auto
  then show ?thesis using b by (simp add: word_unat_eq_iff)
qed

end
