(* ===== verification/OspfsFile.thy ===== *)
theory OspfsFile
  imports OspfsAlloc
begin

text \<open>
  OSPFS regular files: the block index functions, \<open>add_block\<close>, \<open>remove_block\<close>,
  \<open>change_size\<close>, \<open>ospfs_notify_change\<close>, \<open>ospfs_read\<close> and \<open>ospfs_write\<close> of ospfsmod.c.
  The disk is passed explicitly, errors are the left summand, and an inode is its address.
\<close>

type_synonym 'a io = "(errno + 'a) \<times> mem"

section \<open>Block indices\<close>

definition indir2_index :: "u32 \<Rightarrow> int" where
  "indir2_index b = (if b + 1 > 10 + 256 then 0 else - 1)"

definition indir_index :: "u32 \<Rightarrow> int" where
  "indir_index b =
     (if b + 1 \<le> 10 then - 1
      else if b + 1 > 10 \<and> b + 1 \<le> 10 + 256 then 0
      else sint ((b - 10 - 256) div 256))"

definition direct_index :: "u32 \<Rightarrow> int" where
  "direct_index b =
     (if b + 1 \<le> 10 then sint b
      else if b + 1 > 10 \<and> b + 1 \<le> 10 + 256 then sint (b - 10)
      else sint ((b - 10) mod 256))"

text \<open>The word \<open>ptr[i]\<close> of a block of pointers.\<close>

definition ptr_at :: "nat \<Rightarrow> int \<Rightarrow> nat" where
  "ptr_at ptr i = nat (int ptr + 4 * i)"

section \<open>add\_block and remove\_block\<close>

definition zero_out_block :: "u32 \<Rightarrow> mem \<Rightarrow> mem" where
  "zero_out_block blkno m = mem_set m (ospfs_block blkno) 0 OSPFS_BLKSIZE"

definition bump_size :: "nat \<Rightarrow> mem \<Rightarrow> unit io" where
  "bump_size oi m = (Inr (), set_size oi (oi_size m oi + 1024) m)"

text \<open>The branch for a block under the indirect block.\<close>

definition add_indirect :: "nat \<Rightarrow> u32 \<Rightarrow> u32 \<Rightarrow> mem \<Rightarrow> unit io" where
  "add_indirect oi n new_block m =
     (let store = (\<lambda>m. let indir_ptr = ospfs_block (oi_indirect m oi)
                       in bump_size oi (st32 m (ptr_at indir_ptr (direct_index n)) new_block))
      in if oi_indirect m oi = 0 then
           (let (allocated0, m1) = allocate_block m in
            if allocated0 = 0 then (Inl ENOSPC, free_block new_block m1)
            else store (set_indirect oi allocated0 (zero_out_block allocated0 m1)))
         else store m)"

text \<open>The branch for a block under the doubly indirect block.\<close>

definition add_indirect2_slot :: "nat \<Rightarrow> u32 \<Rightarrow> u32 \<Rightarrow> u32 \<Rightarrow> mem \<Rightarrow> unit io" where
  "add_indirect2_slot oi n new_block allocated1 m =
     (let indir2_ptr = ospfs_block (oi_indirect2 m oi);
          slot = ptr_at indir2_ptr (indir_index n);
          store = (\<lambda>ptr m. bump_size oi (st32 m (ptr_at ptr (direct_index n)) new_block))
      in if ld32 m slot = 0 then
           (let (allocated0, m1) = allocate_block m in
            if allocated0 = 0 then
              (let m2 = free_block new_block m1
               in (Inl ENOSPC, if allocated1 \<noteq> 0 then free_block allocated1 m2 else m2))
            else store (ospfs_block allocated0)
                   (st32 (zero_out_block allocated0 m1) slot allocated0))
         else store (ospfs_block (ld32 m slot)) m)"

definition add_indirect2 :: "nat \<Rightarrow> u32 \<Rightarrow> u32 \<Rightarrow> mem \<Rightarrow> unit io" where
  "add_indirect2 oi n new_block m =
     (if oi_indirect2 m oi = 0 then
        (let (allocated1, m1) = allocate_block m in
         if allocated1 = 0 then (Inl ENOSPC, free_block new_block m1)
         else add_indirect2_slot oi n new_block allocated1
                (set_indirect2 oi allocated1 (zero_out_block allocated1 m1)))
      else add_indirect2_slot oi n new_block 0 m)"

definition add_block :: "nat \<Rightarrow> mem \<Rightarrow> unit io" where
  "add_block oi m =
     (let n = ospfs_size2nblocks (oi_size m oi) in
      if n > 65802 then (Inl ENOSPC, m)
      else
        let (new_block, m1) = allocate_block m in
        if new_block = 0 then (Inl ENOSPC, m1)
        else
          let m2 = zero_out_block new_block m1 in
          if n < 10 then bump_size oi (set_direct oi (unat n) new_block m2)
          else if n < 10 + 256 then add_indirect oi n new_block m2
          else add_indirect2 oi n new_block m2)"

text \<open>Freeing the block in a pointer word and clearing the word.\<close>

definition free_slot_at :: "nat \<Rightarrow> mem \<Rightarrow> mem" where
  "free_slot_at a m = st32 (free_block (ld32 m a) m) a 0"

definition remove_block :: "nat \<Rightarrow> mem \<Rightarrow> unit io" where
  "remove_block oi m =
     (let n = ospfs_size2nblocks (oi_size m oi) in
      if n \<le> 0 then (Inl EIO, m)
      else
        let m' =
          (if indir2_index n = - 1 then
             (if indir_index n = - 1 then free_slot_at (oi + 16 + 4 * unat n) m
              else if indir_index n = 0 then
                (let indir_ptr = ospfs_block (oi_indirect m oi);
                     m1 = free_slot_at (ptr_at indir_ptr (direct_index n)) m
                 in if n = 10 then free_slot_at (oi + 56) m1 else m1)
              else m)
           else
             (let indir2_ptr = ospfs_block (oi_indirect2 m oi);
                  slot = ptr_at indir2_ptr (indir_index n);
                  indir_ptr = ospfs_block (ld32 m slot);
                  m1 = free_slot_at (ptr_at indir_ptr (direct_index n)) m;
                  m2 = (if (n - 10) mod 256 = 0 then free_slot_at slot m1 else m1)
              in if n = 10 + 256 then free_slot_at (oi + 60) m2 else m2))
        in (Inr (), set_size oi (oi_size m' oi - 1024) m'))"

section \<open>change\_size\<close>

text \<open>
  The three loops. On a damaged disk, where a pointer block overlaps the inode, they need not
  end, so they are partial.
\<close>

partial_function (option) undo_loop :: "nat \<Rightarrow> u32 \<Rightarrow> mem \<Rightarrow> mem option" where
  "undo_loop oi old_size m =
     (if ospfs_size2nblocks (oi_size m oi) > ospfs_size2nblocks old_size
      then undo_loop oi old_size (snd (remove_block oi m))
      else Some m)"

partial_function (option) grow_loop :: "nat \<Rightarrow> u32 \<Rightarrow> u32 \<Rightarrow> mem \<Rightarrow> unit io option" where
  "grow_loop oi old_size new_size m =
     (if ospfs_size2nblocks (oi_size m oi) < ospfs_size2nblocks new_size then
        (let (r, m1) = add_block oi m in
         if r = Inl EIO then Some (r, m1)
         else if r = Inl ENOSPC then
           map_option (\<lambda>m2. (Inl ENOSPC, set_size oi old_size m2)) (undo_loop oi old_size m1)
         else grow_loop oi old_size new_size m1)
      else Some (Inr (), m))"

partial_function (option) shrink_loop :: "nat \<Rightarrow> u32 \<Rightarrow> mem \<Rightarrow> unit io option" where
  "shrink_loop oi new_size m =
     (if ospfs_size2nblocks (oi_size m oi) > ospfs_size2nblocks new_size then
        (let (r, m1) = remove_block oi m in
         case r of Inl e \<Rightarrow> Some (Inl e, m1) | Inr _ \<Rightarrow> shrink_loop oi new_size m1)
      else Some (Inr (), m))"

declare undo_loop.simps [code] grow_loop.simps [code] shrink_loop.simps [code]

definition change_size :: "nat \<Rightarrow> u32 \<Rightarrow> mem \<Rightarrow> unit io option" where
  "change_size oi new_size m =
     (case grow_loop oi (oi_size m oi) new_size m of
        None \<Rightarrow> None
      | Some (Inl e, m1) \<Rightarrow> Some (Inl e, m1)
      | Some (Inr _, m1) \<Rightarrow>
          (case shrink_loop oi new_size m1 of
             None \<Rightarrow> None
           | Some (Inl e, m2) \<Rightarrow> Some (Inl e, m2)
           | Some (Inr _, m2) \<Rightarrow> Some (Inr (), set_size oi new_size m2)))"

text \<open>
  \<open>ospfs_notify_change\<close>: the requested size and mode, if any. The Linux calls at its end,
  \<open>inode_change_ok\<close> and \<open>inode_setattr\<close>, are the argument \<open>linux_setattr\<close>.
\<close>

definition ospfs_notify_change ::
  "(errno + unit) \<Rightarrow> nat \<Rightarrow> u32 option \<Rightarrow> u32 option \<Rightarrow> mem \<Rightarrow> unit io option" where
  "ospfs_notify_change linux_setattr oi want_size want_mode m =
     (let finish = (\<lambda>m. (linux_setattr,
            case want_mode of None \<Rightarrow> m | Some v \<Rightarrow> set_mode oi v m))
      in case want_size of
           None \<Rightarrow> Some (finish m)
         | Some sz \<Rightarrow>
             if oi_ftype m oi = OSPFS_FTYPE_DIR then Some (Inl EPERM, m)
             else (case change_size oi sz m of
                 None \<Rightarrow> None
               | Some (Inl e, m1) \<Rightarrow> Some (Inl e, m1)
               | Some (Inr _, m1) \<Rightarrow> Some (finish m1)))"

section \<open>read and write\<close>

text \<open>
  User memory is a second byte memory. \<open>copy_to_user\<close> and \<open>copy_from_user\<close> belong to Linux:
  \<open>user_ok a n\<close> says whether the \<open>n\<close> bytes at \<open>a\<close> can be accessed; when they cannot,
  nothing is copied. \<open>size_t\<close> has 32 bits, \<open>loff_t\<close> is wider.
\<close>

definition chunk :: "nat \<Rightarrow> nat \<Rightarrow> nat" where
  "chunk left f_pos = min left (OSPFS_BLKSIZE - f_pos mod OSPFS_BLKSIZE)"

lemma chunk_pos [simp]: "0 < left \<Longrightarrow> 0 < chunk left f_pos"
  by (simp add: chunk_def)

lemma chunk_le [simp]: "chunk left f_pos \<le> left"
  by (simp add: chunk_def)

text \<open>\<open>left\<close> is \<open>count - amount\<close>; the result is the rest of \<open>amount\<close>.\<close>

function read_loop ::
  "(nat \<Rightarrow> nat \<Rightarrow> bool) \<Rightarrow> mem \<Rightarrow> nat \<Rightarrow> nat \<Rightarrow> nat \<Rightarrow> nat \<Rightarrow> mem \<Rightarrow> (errno option) \<times> nat \<times> mem" where
  "read_loop user_ok m oi buffer left f_pos u =
     (if left = 0 then (None, f_pos, u)
      else
        let blockno = ospfs_inode_blockno m oi (of_nat f_pos) in
        if blockno = 0 then (Some EIO, f_pos, u)
        else
          let offset = f_pos mod OSPFS_BLKSIZE; n = chunk left f_pos in
          if \<not> user_ok buffer n then (Some EFAULT, f_pos, u)
          else read_loop user_ok m oi (buffer + n) (left - n) (f_pos + n)
                 (mem_put u buffer (mem_get m (ospfs_block blockno + offset) n)))"
  by pat_completeness auto
termination
  by (relation "measure (\<lambda>(_, _, _, _, left, _, _). left)") (simp, simp add: chunk_def Let_def)

definition ospfs_read ::
  "(nat \<Rightarrow> nat \<Rightarrow> bool) \<Rightarrow> mem \<Rightarrow> nat \<Rightarrow> nat \<Rightarrow> nat \<Rightarrow> nat \<Rightarrow> mem \<Rightarrow> (errno + nat) \<times> nat \<times> mem" where
  "ospfs_read user_ok m oi buffer count f_pos u =
     (let sz = oi_size m oi;
          count' = (if count + f_pos > unat sz then unat (sz - of_nat f_pos) else count);
          (err, f_pos', u') = read_loop user_ok m oi buffer count' f_pos u
      in (case err of Some e \<Rightarrow> Inl e | None \<Rightarrow> Inr (f_pos' - f_pos), f_pos', u'))"

function write_loop ::
  "(nat \<Rightarrow> nat \<Rightarrow> bool) \<Rightarrow> mem \<Rightarrow> nat \<Rightarrow> nat \<Rightarrow> nat \<Rightarrow> nat \<Rightarrow> mem \<Rightarrow> (errno option) \<times> nat \<times> mem" where
  "write_loop user_ok u oi buffer left f_pos m =
     (if left = 0 then (None, f_pos, m)
      else
        let blockno = ospfs_inode_blockno m oi (of_nat f_pos) in
        if blockno = 0 then (Some EIO, f_pos, m)
        else
          let offset = f_pos mod OSPFS_BLKSIZE; n = chunk left f_pos in
          if \<not> user_ok buffer n then (Some EFAULT, f_pos, m)
          else write_loop user_ok u oi (buffer + n) (left - n) (f_pos + n)
                 (mem_put m (ospfs_block blockno + offset) (mem_get u buffer n)))"
  by pat_completeness auto
termination
  by (relation "measure (\<lambda>(_, _, _, _, left, _, _). left)") (simp, simp add: chunk_def Let_def)

declare read_loop.simps [simp del] write_loop.simps [simp del]

text \<open>
  The test \<open>count > oi_size - f_pos\<close> is 64 bits wide and signed; the size passed to
  \<open>change_size\<close> is truncated to 32 bits.
\<close>

definition ospfs_write ::
  "(nat \<Rightarrow> nat \<Rightarrow> bool) \<Rightarrow> bool \<Rightarrow> mem \<Rightarrow> nat \<Rightarrow> nat \<Rightarrow> nat \<Rightarrow> nat \<Rightarrow> mem
    \<Rightarrow> ((errno + nat) \<times> nat \<times> mem) option" where
  "ospfs_write user_ok o_append u oi buffer count f_pos0 m =
     (let f_pos = (if o_append then unat (oi_size m oi) else f_pos0);
          grown = (if int count > int (unat (oi_size m oi)) - int f_pos
                   then change_size oi (of_nat (count + f_pos)) m else Some (Inr (), m))
      in case grown of
           None \<Rightarrow> None
         | Some (Inl e, m1) \<Rightarrow> Some (Inl e, f_pos, m1)
         | Some (Inr _, m1) \<Rightarrow>
             (let (err, f_pos', m2) = write_loop user_ok u oi buffer count f_pos m1
              in Some (case err of Some e \<Rightarrow> Inl e | None \<Rightarrow> Inr (f_pos' - f_pos), f_pos', m2)))"

end
