(* ===== verification/OspfsDir.thy ===== *)
theory OspfsDir
  imports OspfsFile
begin

text \<open>
  OSPFS directories: lookup, readdir, unlink, link, create, symlink and follow\_link of
  ospfsmod.c with the entry search and allocation they use. A name is the byte list
  \<open>d_name.name\<close> of length \<open>d_name.len\<close>; a directory entry is its address. \<open>None\<close> is a kernel
  that panics, follows a null pointer or never returns.
\<close>

section \<open>Directory entries\<close>

definition od_ino :: "mem \<Rightarrow> nat \<Rightarrow> u32" where "od_ino m od = ld32 m od"
definition od_name :: "mem \<Rightarrow> nat \<Rightarrow> u8 list" where
  "od_name m od = cstr (mem_get m (od + 4) (OSPFS_MAXNAMELEN + 1))"

text \<open>\<open>od_ino > 0\<close>, \<open>strlen(od_name) == len\<close> and \<open>memcmp\<close> over \<open>len\<close> bytes.\<close>

definition entry_matches :: "mem \<Rightarrow> nat \<Rightarrow> u8 list \<Rightarrow> bool" where
  "entry_matches m od name \<longleftrightarrow> od_ino m od \<noteq> 0 \<and> length (od_name m od) = length name
     \<and> mem_get m (od + 4) (length name) = name"

text \<open>\<open>memcpy\<close> of the name and the terminating NUL.\<close>

definition store_name :: "nat \<Rightarrow> u8 list \<Rightarrow> mem \<Rightarrow> mem" where
  "store_name od name m = mem_put m (od + 4) (name @ [0])"

partial_function (option) search_entry :: "mem \<Rightarrow> nat \<Rightarrow> u8 list \<Rightarrow> u32 \<Rightarrow> nat option option" where
  "search_entry m dir_oi name off =
     (if off < oi_size m dir_oi then
        (let od = ospfs_inode_data m dir_oi off in
         if entry_matches m od name then Some (Some od)
         else search_entry m dir_oi name (off + 128))
      else Some None)"

definition find_direntry :: "mem \<Rightarrow> nat \<Rightarrow> u8 list \<Rightarrow> nat option option" where
  "find_direntry m dir_oi name = search_entry m dir_oi name 0"

definition ospfs_dir_lookup ::
  "bool \<Rightarrow> mem \<Rightarrow> nat \<Rightarrow> u8 list \<Rightarrow> (errno + linux_inode option) option" where
  "ospfs_dir_lookup new_inode_ok m dir_oi name =
     (if length name > OSPFS_MAXNAMELEN then Some (Inl ENAMETOOLONG)
      else (case search_entry m dir_oi name 0 of
          None \<Rightarrow> None
        | Some None \<Rightarrow> Some (Inr None)
        | Some (Some od) \<Rightarrow>
            (case ospfs_mk_linux_inode new_inode_ok m (unat (od_ino m od)) of
               No_inode \<Rightarrow> Some (Inl EINVAL)
             | Inode i \<Rightarrow> Some (Inr (Some i))
             | Panic \<Rightarrow> None)))"

section \<open>readdir\<close>

datatype dtype = DT_REG | DT_DIR | DT_LNK

record dirent =
  de_name :: "u8 list"
  de_pos :: u32
  de_ino :: u32
  de_type :: dtype

text \<open>
  \<open>filldir\<close> is Linux's: \<open>room acc e\<close> says whether it accepts the entry \<open>e\<close> after \<open>acc\<close>. The
  result is the return value, the new \<open>f_pos\<close> and the entries passed on.
\<close>

definition dtype_of :: "u32 \<Rightarrow> dtype option" where
  "dtype_of t = (if t = OSPFS_FTYPE_REG then Some DT_REG
     else if t = OSPFS_FTYPE_DIR then Some DT_DIR
     else if t = OSPFS_FTYPE_SYMLINK then Some DT_LNK else None)"

text \<open>One turn of the loop: \<open>Inl\<close> leaves it, \<open>Inr\<close> goes on with the entries so far.\<close>

definition readdir_visit ::
  "(dirent list \<Rightarrow> dirent \<Rightarrow> bool) \<Rightarrow> mem \<Rightarrow> nat \<Rightarrow> u32 \<Rightarrow> dirent list
    \<Rightarrow> (nat \<times> u32 \<times> dirent list) + dirent list"
where
  "readdir_visit room m dir_oi f_pos acc =
     (let od = ospfs_inode_data m dir_oi (f_pos - 2) in
      case ospfs_inode m (unat (od_ino m od)) of
        None \<Rightarrow> Inr acc
      | Some entry_oi \<Rightarrow>
          if od_ino m od > 0 \<and> oi_nlink m entry_oi > 0 then
            (case dtype_of (oi_ftype m entry_oi) of
               None \<Rightarrow> Inl (1, f_pos + 1, acc)
             | Some t \<Rightarrow>
                 let e = \<lparr>de_name = od_name m od, de_pos = f_pos, de_ino = od_ino m od, de_type = t\<rparr>
                 in if room acc e then Inr (acc @ [e]) else Inl (1, f_pos, acc))
          else Inr acc)"

partial_function (option) readdir_loop ::
  "(dirent list \<Rightarrow> dirent \<Rightarrow> bool) \<Rightarrow> mem \<Rightarrow> nat \<Rightarrow> u32 \<Rightarrow> dirent list \<Rightarrow> (nat \<times> u32 \<times> dirent list) option"
where
  "readdir_loop room m dir_oi f_pos acc =
     (if f_pos < 2 then Some (0, f_pos, acc)
      else case readdir_visit room m dir_oi f_pos acc of
          Inl r \<Rightarrow> Some r
        | Inr acc' \<Rightarrow>
            if f_pos + 1 - 2 \<ge> oi_size m dir_oi then Some (1, f_pos + 1, acc')
            else readdir_loop room m dir_oi (f_pos + 1) acc')"

definition ospfs_dir_readdir ::
  "(dirent list \<Rightarrow> dirent \<Rightarrow> bool) \<Rightarrow> mem \<Rightarrow> nat \<Rightarrow> u32 \<Rightarrow> u32 \<Rightarrow> u32 \<Rightarrow> (nat \<times> u32 \<times> dirent list) option"
where
  "ospfs_dir_readdir room m dir_oi dir_ino parent_ino f_pos0 =
     (let dot = \<lparr>de_name = [46], de_pos = f_pos0, de_ino = dir_ino, de_type = DT_DIR\<rparr>;
          (ok1, f_pos1, acc1) =
            (if f_pos0 = 0 then if room [] dot then (True, 1, [dot]) else (False, 0, [])
             else (True, f_pos0, []));
          dotdot = \<lparr>de_name = [46, 46], de_pos = f_pos1, de_ino = parent_ino, de_type = DT_DIR\<rparr>;
          (ok2, f_pos2, acc2) =
            (if ok1 \<and> f_pos1 = 1 then
               if room acc1 dotdot then (True, 2, acc1 @ [dotdot]) else (False, 1, acc1)
             else (ok1, f_pos1, acc1))
      in if ok2 then readdir_loop room m dir_oi f_pos2 acc2 else Some (0, f_pos2, acc2))"

section \<open>unlink\<close>

text \<open>The search of \<open>ospfs_unlink\<close>: the final \<open>entry_off\<close> and the last entry looked at.\<close>

partial_function (option) unlink_search ::
  "mem \<Rightarrow> nat \<Rightarrow> u8 list \<Rightarrow> u32 \<Rightarrow> nat \<Rightarrow> (u32 \<times> nat) option" where
  "unlink_search m dir_oi name entry_off od0 =
     (if entry_off < oi_size m dir_oi then
        (let od = ospfs_inode_data m dir_oi entry_off in
         if entry_matches m od name then Some (entry_off, od)
         else unlink_search m dir_oi name (entry_off + 128) od)
      else Some (entry_off, od0))"

definition ospfs_unlink :: "nat \<Rightarrow> nat \<Rightarrow> u8 list \<Rightarrow> mem \<Rightarrow> unit io option" where
  "ospfs_unlink oi dir_oi name m =
     (case unlink_search m dir_oi name 0 0 of
        None \<Rightarrow> None
      | Some (entry_off, od) \<Rightarrow>
          if entry_off = oi_size m dir_oi then Some (Inl ENOENT, m)
          else
            let m1 = st32 m od 0;
                m2 = set_nlink oi (oi_nlink m1 oi - 1) m1
            in if oi_ftype m2 oi \<noteq> OSPFS_FTYPE_SYMLINK \<and> oi_nlink m2 oi = 0
               then map_option (\<lambda>(r, m3). (Inr (), m3)) (change_size oi 0 m2)
               else Some (Inr (), m2))"

section \<open>New entries\<close>

partial_function (option) find_blank :: "mem \<Rightarrow> nat \<Rightarrow> u32 \<Rightarrow> nat option option" where
  "find_blank m dir_oi i =
     (if i < oi_size m dir_oi then
        (let entry = ospfs_inode_data m dir_oi i in
         if od_ino m entry = 0 then Some (Some entry) else find_blank m dir_oi (i + 128))
      else Some None)"

declare search_entry.simps [code] readdir_loop.simps [code] unlink_search.simps [code]
  find_blank.simps [code]

definition create_blank_direntry :: "nat \<Rightarrow> mem \<Rightarrow> nat io option" where
  "create_blank_direntry dir_oi m =
     (case find_blank m dir_oi 0 of
        None \<Rightarrow> None
      | Some (Some entry) \<Rightarrow> Some (Inr entry, m)
      | Some None \<Rightarrow>
          let f_pos = 128 + oi_size m dir_oi in
          (case change_size dir_oi (oi_size m dir_oi + 8192) m of
             None \<Rightarrow> None
           | Some (Inl e, m1) \<Rightarrow> Some (Inl e, m1)
           | Some (Inr _, m1) \<Rightarrow> Some (Inr (ospfs_inode_data m1 dir_oi f_pos), m1)))"

definition ospfs_link :: "nat \<Rightarrow> nat \<Rightarrow> u8 list \<Rightarrow> mem \<Rightarrow> unit io option" where
  "ospfs_link src_ino dir_oi name m =
     (if length name > OSPFS_MAXNAMELEN then Some (Inl ENAMETOOLONG, m)
      else (case find_direntry m dir_oi name of
          None \<Rightarrow> None
        | Some (Some _) \<Rightarrow> Some (Inl EEXIST, m)
        | Some None \<Rightarrow>
            (case create_blank_direntry dir_oi m of
               None \<Rightarrow> None
             | Some (Inl e, m1) \<Rightarrow> Some (Inl e, m1)
             | Some (Inr link, m1) \<Rightarrow>
                 let m2 = store_name link name (st32 m1 link (of_nat src_ino))
                 in (case ospfs_inode m2 src_ino of
                       None \<Rightarrow> None
                     | Some src_oi \<Rightarrow>
                         Some (Inr (), set_nlink src_oi (oi_nlink m2 src_oi + 1) m2)))))"

text \<open>\<open>find_free_inode\<close>: the first inode from 2 on without links, 0 if there is none.\<close>

function free_inode_from :: "mem \<Rightarrow> nat \<Rightarrow> nat" where
  "free_inode_from m i =
     (if i < unat (os_ninodes m) then
        if oi_nlink m (ospfs_block (os_firstinob m) + OSPFS_INODESIZE * i) = 0 then i
        else free_inode_from m (i + 1)
      else 0)"
  by pat_completeness auto
termination
  by (relation "measure (\<lambda>(m, i). unat (os_ninodes m) - i)") auto

declare free_inode_from.simps [simp del]

definition find_free_inode :: "mem \<Rightarrow> nat" where
  "find_free_inode m = free_inode_from m 2"

definition inode_at :: "mem \<Rightarrow> nat \<Rightarrow> nat" where
  "inode_at m ino = ospfs_block (os_firstinob m) + OSPFS_INODESIZE * ino"

text \<open>The end that \<open>ospfs_create\<close> and \<open>ospfs_symlink\<close> share.\<close>

definition instantiate :: "bool \<Rightarrow> nat \<Rightarrow> mem \<Rightarrow> linux_inode io option" where
  "instantiate new_inode_ok ino m =
     (case ospfs_mk_linux_inode new_inode_ok m ino of
        No_inode \<Rightarrow> Some (Inl ENOMEM, m)
      | Inode i \<Rightarrow> Some (Inr i, m)
      | Panic \<Rightarrow> None)"

definition ospfs_create :: "bool \<Rightarrow> nat \<Rightarrow> u8 list \<Rightarrow> u32 \<Rightarrow> mem \<Rightarrow> linux_inode io option" where
  "ospfs_create new_inode_ok dir_ino name mode m =
     (case ospfs_inode m dir_ino of
        None \<Rightarrow> Some (Inl EIO, m)
      | Some dir_oi \<Rightarrow>
          (case find_direntry m dir_oi name of
             None \<Rightarrow> None
           | Some (Some _) \<Rightarrow> Some (Inl EEXIST, m)
           | Some None \<Rightarrow>
               let entry_ino = find_free_inode m in
               if entry_ino = 0 then Some (Inl ENOSPC, m)
               else
                 let file_oi = inode_at m entry_ino;
                     m1 = set_mode file_oi mode (set_nlink file_oi 1
                            (set_ftype file_oi OSPFS_FTYPE_REG (set_size file_oi 0 m)))
                 in (case create_blank_direntry dir_oi m1 of
                       None \<Rightarrow> None
                     | Some (Inl e, m2) \<Rightarrow> Some (Inl e, m2)
                     | Some (Inr new_entry, m2) \<Rightarrow>
                         let m3 = st32 m2 new_entry (of_nat entry_ino);
                             m4 = store_name new_entry (take OSPFS_MAXNAMELEN name) m3
                         in instantiate new_inode_ok entry_ino m4)))"

definition ospfs_symlink :: "bool \<Rightarrow> nat \<Rightarrow> u8 list \<Rightarrow> u8 list \<Rightarrow> mem \<Rightarrow> linux_inode io option" where
  "ospfs_symlink new_inode_ok dir_ino name symname m =
     (case ospfs_inode m dir_ino of
        None \<Rightarrow> Some (Inl EIO, m)
      | Some dir_oi \<Rightarrow>
          if length name > OSPFS_MAXNAMELEN \<or> length symname > OSPFS_MAXSYMLINKLEN
          then Some (Inl ENAMETOOLONG, m)
          else (case find_direntry m dir_oi name of
             None \<Rightarrow> None
           | Some (Some _) \<Rightarrow> Some (Inl EEXIST, m)
           | Some None \<Rightarrow>
               let entry_ino = find_free_inode m in
               if entry_ino = 0 then Some (Inl ENOSPC, m)
               else
                 let symlink_oi = inode_at m entry_ino;
                     m1 = set_ftype symlink_oi OSPFS_FTYPE_SYMLINK (set_nlink symlink_oi 1
                            (set_size symlink_oi (of_nat (length symname)) m));
                     m2 = mem_put m1 (symlink_oi + 12) symname
                 in (case create_blank_direntry dir_oi m2 of
                       None \<Rightarrow> None
                     | Some (Inl e, m3) \<Rightarrow> Some (Inl e, m3)
                     | Some (Inr new_entry, m3) \<Rightarrow>
                         let m4 = st32 m3 new_entry (of_nat entry_ino);
                             m5 = store_name new_entry name m4
                         in instantiate new_inode_ok entry_ino m5)))"

section \<open>follow\_link\<close>

text \<open>
  The link text is the C string at byte 12 of the inode, at most the 52 bytes of the array. The
  result is the destination handed to \<open>nd_set_link\<close>.
\<close>

definition symlink_text :: "mem \<Rightarrow> nat \<Rightarrow> u8 list" where
  "symlink_text m oi = cstr (mem_get m (oi + 12) (OSPFS_MAXSYMLINKLEN + 1))"

abbreviation colon :: u8 where "colon \<equiv> 58"

definition root_prefix :: "u8 list" where
  "root_prefix = [114, 111, 111, 116, 63]"

definition ospfs_follow_link :: "bool \<Rightarrow> nat \<Rightarrow> mem \<Rightarrow> (u8 list \<times> mem) option" where
  "ospfs_follow_link uid_root oi m =
     (let s = symlink_text m oi in
      if take 5 s = root_prefix then
        if colon \<in> set s then
          let i = length (takeWhile (\<lambda>c. c \<noteq> colon) s) in
          if uid_root then
            let m1 = m(oi + 12 + i := 0)
            in Some (tl (dropWhile (\<lambda>c. c \<noteq> 63) (symlink_text m1 oi)), m1)
          else Some (drop (i + 1) s, m)
        else None
      else Some (s, m))"

end
