(* ===== verification/OspfsIndex.thy ===== *)
theory OspfsIndex
  imports OspfsFile
begin

text \<open>
  The three index functions of ospfsmod.c as functions on natural numbers, for every block
  number a file can have: together they are a faithful address of the block.
\<close>

lemma sint_small: "unat (w :: u32) < 2147483648 \<Longrightarrow> sint w = int (unat w)"
proof -
  assume w: "unat w < 2147483648"
  have u: "uint w = int (unat w)" by simp
  have len: "LENGTH(32) - Suc 0 = 31" by simp
  show "sint w = int (unat w)"
  proof -
    have "- (2 ^ 31) \<le> uint w" by (rule order_trans [of _ 0]) simp_all
    moreover have "uint w < 2147483648" using u w by linarith
    then have "uint w < 2 ^ 31" by simp
    ultimately have "signed_take_bit 31 (uint w) = uint w" by (rule signed_take_bit_int_eq_self)
    then show ?thesis unfolding sint_uint len by (simp only: u)
  qed
qed

lemma index_word:
  assumes "unat (b :: u32) < 65802"
  shows "unat (b + 1) = unat b + 1"
  using assms by (subst unat_add_no_wrap) simp_all

lemma direct_index_eq:
  assumes "unat b < 65802"
  shows "direct_index b = (if unat b < 10 then int (unat b) else if unat b < 266 then int (unat b) - 10
     else int ((unat b - 266) mod 256))"
proof -
  have c: "b + 1 \<le> 10 \<longleftrightarrow> unat b < 10" "b + 1 \<le> 10 + 256 \<longleftrightarrow> unat b < 266"
    by (auto simp: word_le_nat_alt index_word [OF assms])
  have s: "unat (b - 10) = unat b - 10" if "\<not> unat b < 10"
    using that by (subst unat_sub_no_wrap) (simp_all add: word_le_nat_alt)
  have "(unat b - 10) mod 256 = (unat b - 266) mod 256" if "\<not> unat b < 266"
  proof -
    have "unat b - 10 = (unat b - 266) + 256" using that by simp
    then show ?thesis by (simp only: mod_add_self2)
  qed
  then show ?thesis
    unfolding direct_index_def c
    using assms s by (auto simp: sint_small unat_mod not_less word_le_nat_alt index_word)
qed

lemma indir_index_eq:
  assumes "unat b < 65802"
  shows "indir_index b = (if unat b < 10 then - 1 else if unat b < 266 then 0
     else int ((unat b - 266) div 256))"
proof -
  have c: "b + 1 \<le> 10 \<longleftrightarrow> unat b < 10" "b + 1 \<le> 10 + 256 \<longleftrightarrow> unat b < 266"
    by (auto simp: word_le_nat_alt index_word [OF assms])
  have s: "unat (b - 10 - 256) = unat b - 266" if "\<not> unat b < 266"
  proof -
    have "b - 10 - 256 = b - 266" by simp
    then show ?thesis using that by (simp only:) (subst unat_sub_no_wrap, simp_all add: word_le_nat_alt)
  qed
  have sm: "sint ((b - 10 - 256) div 256) = int ((unat b - 266) div 256)" if "\<not> unat b < 266"
    using assms s [OF that] by (subst sint_small) (simp_all add: unat_div div_le_dividend le_less_trans)
  show ?thesis unfolding indir_index_def c using sm
    by (auto simp: not_less word_le_nat_alt index_word [OF assms])
qed

lemma indir2_index_eq: "unat b < 65802 \<Longrightarrow> indir2_index b = (if unat b < 266 then - 1 else 0)"
  by (simp add: indir2_index_def word_less_nat_alt index_word)

lemma ptr_at_nat [simp]: "ptr_at p (int k) = p + 4 * k"
  by (simp add: ptr_at_def)

text \<open>
  For every block number below the maximal file size the three indices say where the
  block's pointer stands: directly, in the indirect block, or in an indirect block under the
  doubly indirect one; they stay inside their tables, and the block number can be computed
  back from them, so no two blocks share a pointer.
\<close>

theorem ospfs_index_roundtrip:
  assumes "unat b < OSPFS_MAXFILEBLKS"
  shows "(indir2_index b, indir_index b) \<in> {(- 1, - 1), (- 1, 0)} \<union> {0} \<times> {0 ..< 256} \<and>
    0 \<le> direct_index b \<and> direct_index b < (if indir_index b = - 1 then 10 else 256) \<and>
    int (unat b) = direct_index b + (if indir_index b = - 1 then 0
      else if indir2_index b = - 1 then 10 else 266 + 256 * indir_index b)"
proof -
  have b: "unat b < 65802" using assms by simp
  define k where "k = unat b"
  have "(k - 266) div 256 < 256" using b unfolding k_def by linarith
  moreover have "int k = int ((k - 266) mod 256) + (266 + 256 * int ((k - 266) div 256))" if "266 \<le> k"
  proof -
    have "k = (k - 266) mod 256 + 256 * ((k - 266) div 256) + 266" using that by simp
    then show ?thesis by linarith
  qed
  ultimately show ?thesis
    unfolding direct_index_eq [OF b] indir_index_eq [OF b] indir2_index_eq [OF b] k_def [symmetric]
    by auto
qed

theorem ospfs_index_roundtrip_witness:
  "int (unat (1000 :: u32)) = direct_index 1000 + (266 + 256 * indir_index 1000) \<and> direct_index 1000 = 222"
proof -
  have "indir_index 1000 = 2" "indir2_index 1000 = 0" "direct_index 1000 = 222"
    by (simp_all add: indir_index_eq indir2_index_eq direct_index_eq)
  then show ?thesis using ospfs_index_roundtrip [of 1000] by simp
qed

end
