(* ===== verification/OspfsNodes.thy ===== *)
theory OspfsNodes
  imports OspfsIndex
begin

text \<open>
  The tree of blocks that belongs to an OSPFS file, seen from the code's memory accesses:
  each block of the file (data block, indirect block, doubly indirect block and the
  indirect blocks under it) is a node whose block number stands in one pointer word, its
  slot. A file is well formed when its nodes are different, allocated data blocks. The
  lemmas say when a write to the disk leaves all slots, and with them the file, alone.
\<close>

datatype node = Data nat | Ind | Ind2 | Sub nat

fun slot :: "mem \<Rightarrow> nat \<Rightarrow> node \<Rightarrow> nat" where
  "slot m oi (Data b) =
     (if b < 10 then oi + 16 + 4 * b
      else if b < 266 then ospfs_block (oi_indirect m oi) + 4 * (b - 10)
      else ospfs_block (ld32 m (ospfs_block (oi_indirect2 m oi) + 4 * ((b - 266) div 256)))
        + 4 * ((b - 266) mod 256))"
| "slot m oi Ind = oi + 56"
| "slot m oi Ind2 = oi + 60"
| "slot m oi (Sub j) = ospfs_block (oi_indirect2 m oi) + 4 * j"

definition block_of :: "mem \<Rightarrow> nat \<Rightarrow> node \<Rightarrow> nat" where
  "block_of m oi x = unat (ld32 m (slot m oi x))"

text \<open>The nodes of a file of \<open>n\<close> blocks.\<close>

fun in_file :: "nat \<Rightarrow> node \<Rightarrow> bool" where
  "in_file n (Data b) \<longleftrightarrow> b < n"
| "in_file n Ind \<longleftrightarrow> 10 < n"
| "in_file n Ind2 \<longleftrightarrow> 266 < n"
| "in_file n (Sub j) \<longleftrightarrow> 266 + 256 * j < n"

definition nodes :: "nat \<Rightarrow> node set" where
  "nodes n = Collect (in_file n)"

definition inode_ok :: "mem \<Rightarrow> nat \<Rightarrow> bool" where
  "inode_ok m oi \<longleftrightarrow> (\<exists>ino < unat (os_ninodes m). oi = 1024 * unat (os_firstinob m) + 64 * ino)"

definition file_ok :: "mem \<Rightarrow> nat \<Rightarrow> nat \<Rightarrow> bool" where
  "file_ok m oi n \<longleftrightarrow> disk_ok m \<and> inode_ok m oi \<and> n \<le> 65802 \<and> inj_on (block_of m oi) (nodes n) \<and>
     (\<forall>x \<in> nodes n. data_block m (block_of m oi x) \<and> block_of m oi x \<notin> free_set m)"

text \<open>The pointer words past the end of the file are clear.\<close>

definition ptrs_clear :: "mem \<Rightarrow> nat \<Rightarrow> nat \<Rightarrow> bool" where
  "ptrs_clear m oi n \<longleftrightarrow> (n \<le> 10 \<longrightarrow> oi_indirect m oi = 0) \<and> (n \<le> 266 \<longrightarrow> oi_indirect2 m oi = 0) \<and>
     (266 < n \<longrightarrow> (\<forall>j < 256. n \<le> 266 + 256 * j \<longrightarrow> block_of m oi (Sub j) = 0))"

section \<open>Nodes\<close>

lemma nodes_simps [simp]:
  "Data b \<in> nodes n \<longleftrightarrow> b < n" "Ind \<in> nodes n \<longleftrightarrow> 10 < n" "Ind2 \<in> nodes n \<longleftrightarrow> 266 < n"
  "Sub j \<in> nodes n \<longleftrightarrow> 266 + 256 * j < n"
  by (simp_all add: nodes_def)

lemma nodes_cases:
  assumes "x \<in> nodes n"
  obtains (direct) b where "x = Data b" "b < n" "b < 10"
    | (single) b where "x = Data b" "b < n" "10 \<le> b" "b < 266" "Ind \<in> nodes n"
    | (double) b where "x = Data b" "b < n" "266 \<le> b" "Ind2 \<in> nodes n" "Sub ((b - 266) div 256) \<in> nodes n"
    | (ind) "x = Ind" "10 < n" | (ind2) "x = Ind2" "266 < n"
    | (sub) j where "x = Sub j" "266 + 256 * j < n" "Ind2 \<in> nodes n"
proof (cases x)
  case (Data b)
  then show ?thesis using assms direct single double
    by (cases "b < 10"; cases "b < 266") (auto simp: algebra_simps)
qed (use assms ind ind2 sub in auto)

text \<open>The nodes that a new block \<open>n\<close> brings with it.\<close>

definition new_nodes :: "nat \<Rightarrow> node set" where
  "new_nodes n = insert (Data n) ((if n = 10 then {Ind} else {}) \<union> (if n = 266 then {Ind2} else {}) \<union>
     (if 266 \<le> n \<and> (n - 266) mod 256 = 0 then {Sub ((n - 266) div 256)} else {}))"

lemma sub_new_iff:
  "266 + 256 * j < Suc n \<and> \<not> 266 + 256 * j < n \<longleftrightarrow> 266 \<le> n \<and> (n - 266) mod 256 = 0 \<and> j = (n - 266) div 256"
proof -
  have "266 + 256 * j < Suc n \<and> \<not> 266 + 256 * j < n \<longleftrightarrow> 266 \<le> n \<and> n - 266 = 256 * j" by auto
  also have "\<dots> \<longleftrightarrow> 266 \<le> n \<and> (n - 266) mod 256 = 0 \<and> j = (n - 266) div 256" by auto
  finally show ?thesis .
qed

lemma nodes_Suc: "nodes (Suc n) = nodes n \<union> new_nodes n"
proof (rule set_eqI)
  fix x
  show "x \<in> nodes (Suc n) \<longleftrightarrow> x \<in> nodes n \<union> new_nodes n"
  proof (cases x)
    case (Sub j)
    then show ?thesis using sub_new_iff [of j n] by (auto simp: new_nodes_def)
  qed (auto simp: new_nodes_def)
qed

section \<open>Addresses\<close>

lemma inode_ok_address:
  assumes "disk_ok m" "inode_ok m oi"
  shows "freemap_end m \<le> oi" "oi + 64 \<le> 1024 * data_start m" "4 dvd oi"
proof -
  obtain ino where ino: "ino < unat (os_ninodes m)" "oi = 1024 * unat (os_firstinob m) + 64 * ino"
    using assms(2) by (auto simp: inode_ok_def)
  then show "freemap_end m \<le> oi" by (simp add: freemap_end_def)
  let ?q = "(unat (os_ninodes m) + 15) div 16"
  have "unat (os_ninodes m) \<le> 16 * ?q" by linarith
  then have "64 * ino + 64 \<le> 1024 * ?q" using ino(1) by linarith
  then show "oi + 64 \<le> 1024 * data_start m" using ino(2) by (simp add: data_start_def)
  show "4 dvd oi" using ino(2) by (simp add: dvd_add)
qed

lemma data_block_address:
  assumes "disk_ok m" "data_block m (unat b)"
  shows "ospfs_block b = 1024 * unat b"
  using assms by (intro ospfs_block_address) (simp add: data_block_def disk_ok_def)

lemma freemap_below_data: "disk_ok m \<Longrightarrow> freemap_end m \<le> 1024 * data_start m"
  by (simp add: freemap_end_def data_start_def)

lemma node_address:
  assumes "file_ok m oi n" "x \<in> nodes n"
  shows "ospfs_block (ld32 m (slot m oi x)) = 1024 * block_of m oi x"
  using assms data_block_address [of m "ld32 m (slot m oi x)"] by (auto simp: file_ok_def block_of_def)

text \<open>A slot lies in the inode or in a block of the file that holds pointers.\<close>

lemma slot_place:
  assumes "file_ok m oi n" "x \<in> nodes n"
  shows "4 dvd slot m oi x \<and>
    (oi + 16 \<le> slot m oi x \<and> slot m oi x + 4 \<le> oi + 64 \<or>
     (\<exists>y \<in> nodes n. (\<forall>b. y \<noteq> Data b) \<and> 1024 * block_of m oi y \<le> slot m oi x \<and>
        slot m oi x + 4 \<le> 1024 * block_of m oi y + 1024))"
proof -
  have oi: "4 dvd oi" using inode_ok_address assms(1) by (auto simp: file_ok_def)
  note addr = node_address [OF assms(1)]
  show ?thesis using assms(2)
  proof (cases rule: nodes_cases)
    case (single b)
    then show ?thesis using addr [OF single(5)]
      by (auto simp: oi_indirect_def intro!: bexI [of _ Ind] dvd_add)
  next
    case (double b)
    have "(b - 266) mod 256 < 256" by simp
    then show ?thesis using double addr [OF double(5)]
      by (auto intro!: bexI [of _ "Sub ((b - 266) div 256)"] dvd_add simp del: mod_less_divisor)
  next
    case (sub j)
    have "j < 256" using sub(2) assms(1) by (simp add: file_ok_def)
    then show ?thesis using sub addr [OF sub(3)]
      by (auto simp: oi_indirect2_def intro!: bexI [of _ Ind2] dvd_add)
  qed (use oi in \<open>auto intro: dvd_add\<close>)
qed

text \<open>A disk on which every slot reads the same has the same file.\<close>

lemma slot_frame:
  assumes "\<And>x. x \<in> nodes n \<Longrightarrow> ld32 m' (slot m oi x) = ld32 m (slot m oi x)" "x \<in> nodes n"
  shows "slot m' oi x = slot m oi x" "block_of m' oi x = block_of m oi x"
proof -
  have ind: "Ind \<in> nodes n \<Longrightarrow> oi_indirect m' oi = oi_indirect m oi"
    using assms(1) [of Ind] by (simp add: oi_indirect_def)
  have ind2: "Ind2 \<in> nodes n \<Longrightarrow> oi_indirect2 m' oi = oi_indirect2 m oi"
    using assms(1) [of Ind2] by (simp add: oi_indirect2_def)
  show slot: "slot m' oi x = slot m oi x" using assms(2)
  proof (cases rule: nodes_cases)
    case (double b)
    then show ?thesis using assms(1) [OF double(5)] ind2 by simp
  qed (use ind ind2 in auto)
  show "block_of m' oi x = block_of m oi x" using assms slot by (simp add: block_of_def)
qed

end
