(* ===== verification/OspfsGrow.thy ===== *)
theory OspfsGrow
  imports OspfsNodes
begin

text \<open>
  \<open>add_block\<close> on a well-formed file: it takes fresh blocks for the new data block and for
  the pointer blocks that block number needs, links them, and leaves the blocks the file
  already has, their contents and every other file alone.
\<close>

section \<open>The two kinds of writes\<close>

definition super_eq :: "mem \<Rightarrow> mem \<Rightarrow> bool" where
  "super_eq m m' \<longleftrightarrow> os_nblocks m' = os_nblocks m \<and> os_ninodes m' = os_ninodes m \<and>
     os_firstinob m' = os_firstinob m"

lemma super_eq_simps:
  assumes "super_eq m m'"
  shows "data_start m' = data_start m" "freemap_end m' = freemap_end m" "inode_ok m' oi = inode_ok m oi"
    "data_block m' b = data_block m b" "os_nblocks m' = os_nblocks m"
  using assms
  by (simp_all add: super_eq_def data_start_def freemap_end_def inode_ok_def data_block_def)

lemma super_eq_refl [simp]: "super_eq m m"
  by (simp add: super_eq_def)

lemma super_eq_trans: "super_eq m m' \<Longrightarrow> super_eq m' m'' \<Longrightarrow> super_eq m m''"
  by (simp add: super_eq_def)

text \<open>A change behind the bitmap leaves the allocation state alone.\<close>

lemma low_cong:
  assumes "disk_ok m" "\<And>x. x < freemap_end m \<Longrightarrow> m' x = m x"
  shows "super_eq m m'" "free_set m' = free_set m" "disk_ok m'"
proof -
  have "2 \<le> unat (os_firstinob m)" using assms(1) by (simp add: disk_ok_def)
  then have "2048 \<le> freemap_end m" by (simp add: freemap_end_def)
  then show super: "super_eq m m'"
    by (auto simp: super_eq_def os_nblocks_def os_ninodes_def os_firstinob_def intro!: ld32_cong assms(2))
  have test: "bitvector_test m' FREEMAP b = bitvector_test m FREEMAP b" if "b < unat (os_nblocks m)" for b
  proof -
    have "ld32 m' (FREEMAP + 4 * (b div 32)) = ld32 m (FREEMAP + 4 * (b div 32))"
      using bitmap_word_end [OF assms(1) that] by (intro ld32_cong assms(2)) simp_all
    then show ?thesis by (simp add: bitvector_test_bit)
  qed
  show "free_set m' = free_set m" using super test by (auto simp: free_set_def super_eq_def)
  show "disk_ok m'" using assms(1) super test by (auto simp: disk_ok_def super_eq_def data_start_def)
qed

lemma poke:
  assumes "disk_ok m" "freemap_end m \<le> a"
  shows "super_eq m (st32 m a v)" "free_set (st32 m a v) = free_set m" "disk_ok (st32 m a v)"
  by (rule low_cong [OF assms(1)], use assms(2) in \<open>simp add: st32_other_byte\<close>)+

text \<open>A block taken from the free set and zeroed.\<close>

definition in_block :: "nat \<Rightarrow> nat \<Rightarrow> bool" where
  "in_block b x \<longleftrightarrow> 1024 * b \<le> x \<and> x < 1024 * b + 1024"

definition grabbed :: "mem \<Rightarrow> u32 \<Rightarrow> mem \<Rightarrow> bool" where
  "grabbed m b m' \<longleftrightarrow> unat b \<in> free_set m \<and> disk_ok m' \<and> free_set m' = free_set m - {unat b} \<and>
     super_eq m m' \<and> (\<forall>x. freemap_end m \<le> x \<longrightarrow> \<not> in_block (unat b) x \<longrightarrow> m' x = m x) \<and>
     (\<forall>x. in_block (unat b) x \<longrightarrow> m' x = 0)"

lemma free_is_data: "disk_ok m \<Longrightarrow> b \<in> free_set m \<Longrightarrow> data_block m b"
  by (rule bitmap.taken_releasable)

lemma data_block_pos: "disk_ok m \<Longrightarrow> data_block m b \<Longrightarrow> 0 < b"
  by (simp add: data_block_def disk_ok_def data_start_def)

lemma finite_free_set [simp]: "finite (free_set m)"
  by (simp add: free_set_def)

lemma grab:
  assumes "disk_ok m" "free_set m \<noteq> {}"
  obtains b m1 where "allocate_block m = (b, m1)" "b \<noteq> 0" "grabbed m b (zero_out_block b m1)"
proof (rule allocate_block_cases [OF assms(1)])
  fix b
  assume b: "b \<in> free_set m" and alloc: "allocate_block m = (of_nat b, bitvector_clear FREEMAP b m)"
  have lt: "b < unat (os_nblocks m)" using b by (simp add: free_set_def)
  let ?m1 = "bitvector_clear FREEMAP b m" and ?m2 = "zero_out_block (of_nat b) (bitvector_clear FREEMAP b m)"
  have unat_b: "unat (of_nat b :: u32) = b" by (rule unat_of_block [OF assms(1) lt])
  have data: "data_block m b" by (rule free_is_data [OF assms(1) b])
  note same = same_outside_freemap_bits(2) [OF assms(1) lt]
  have super1: "super_eq m ?m1" using same_outside_freemap_super [OF same] by (simp add: super_eq_def)
  have addr: "ospfs_block (of_nat b) = 1024 * b"
    using data_block_address [OF assms(1), of "of_nat b"] data unat_b by simp
  have zero: "?m2 x = (if in_block b x then 0 else ?m1 x)" for x
    by (simp add: zero_out_block_def addr mem_set_def in_block_def)
  have "1024 * data_start m \<le> 1024 * b" using data by (simp add: data_block_def)
  then have "freemap_end m \<le> 1024 * b" using freemap_below_data [OF assms(1)] by linarith
  then have low: "?m2 x = ?m1 x" if "x < freemap_end ?m1" for x
    using that zero [of x] super_eq_simps(2) [OF super1] by (simp add: in_block_def)
  note cleared = bitmap_clear [OF assms(1) lt]
  note low2 = low_cong [OF cleared(2) low]
  have "grabbed m (of_nat b) ?m2"
    unfolding grabbed_def unat_b
  proof (intro conjI allI impI)
    show "free_set ?m2 = free_set m - {b}" by (simp only: low2(2) cleared(1))
    show "super_eq m ?m2" by (rule super_eq_trans [OF super1 low2(1)])
    show "?m2 x = m x" if "freemap_end m \<le> x" "\<not> in_block b x" for x
      using zero [of x] same that by (simp add: same_outside_freemap_def)
    show "?m2 x = 0" if "in_block b x" for x using zero [of x] that by simp
  qed (rule b low2(3))+
  moreover have "(of_nat b :: u32) \<noteq> 0"
    using data_block_pos [OF assms(1) data] unat_b by (metis neq0_conv unat_0)
  ultimately show thesis using alloc that by blast
qed (use assms(2) in simp)

lemma grab_fails:
  "disk_ok m \<Longrightarrow> free_set m = {} \<Longrightarrow> allocate_block m = (0, m)"
  by (rule allocate_block_cases) auto

lemma grabbed_facts:
  assumes "grabbed m b m'"
  shows "disk_ok m'" "super_eq m m'" "free_set m' = free_set m - {unat b}" "unat b \<in> free_set m"
    "card (free_set m') = card (free_set m) - 1"
  using assms by (simp_all add: grabbed_def card_Diff_singleton)

lemma grabbed_ld32:
  assumes "grabbed m b m'" "freemap_end m \<le> a" "a + 4 \<le> 1024 * unat b \<or> 1024 * unat b + 1024 \<le> a"
  shows "ld32 m' a = ld32 m a"
  using assms by (intro ld32_cong) (auto simp: grabbed_def in_block_def)

lemma grabbed_zero:
  assumes "grabbed m b m'" "1024 * unat b \<le> a" "a + 4 \<le> 1024 * unat b + 1024"
  shows "ld32 m' a = 0"
proof -
  have "m' a = 0" "m' (a + 1) = 0" "m' (a + 2) = 0" "m' (a + 3) = 0"
    using assms by (auto simp: grabbed_def in_block_def)
  then show ?thesis by (simp add: ld32_def)
qed

section \<open>States in the middle of add\_block\<close>

text \<open>
  \<open>mid m oi n F m'\<close>: \<open>m'\<close> is the disk \<open>m\<close> with the blocks \<open>F\<close> taken, all slots of the
  file unchanged, and nothing written but the inode, the file's pointer blocks and blocks
  that were free.
\<close>

definition pointer_block :: "mem \<Rightarrow> nat \<Rightarrow> nat \<Rightarrow> nat \<Rightarrow> bool" where
  "pointer_block m oi n b \<longleftrightarrow> (\<exists>y \<in> nodes n. (\<forall>i. y \<noteq> Data i) \<and> block_of m oi y = b)"

definition own_bytes :: "mem \<Rightarrow> nat \<Rightarrow> nat \<Rightarrow> nat \<Rightarrow> bool" where
  "own_bytes m oi n x \<longleftrightarrow> oi \<le> x \<and> x < oi + 64 \<or> (\<exists>b. in_block b x \<and> (pointer_block m oi n b \<or> b \<in> free_set m))"

definition mid :: "mem \<Rightarrow> nat \<Rightarrow> nat \<Rightarrow> nat set \<Rightarrow> mem \<Rightarrow> bool" where
  "mid m oi n F m' \<longleftrightarrow> super_eq m m' \<and> disk_ok m' \<and> free_set m' = free_set m - F \<and> F \<subseteq> free_set m \<and>
     (\<forall>x \<in> nodes n. ld32 m' (slot m oi x) = ld32 m (slot m oi x)) \<and>
     (\<forall>x. freemap_end m \<le> x \<longrightarrow> \<not> own_bytes m oi n x \<longrightarrow> m' x = m x)"

lemma mid_start: "file_ok m oi n \<Longrightarrow> mid m oi n {} m"
  by (simp add: mid_def file_ok_def)

lemma mid_facts:
  assumes "mid m oi n F m'"
  shows "disk_ok m'" "super_eq m m'" "free_set m' = free_set m - F" "F \<subseteq> free_set m"
    "x \<in> nodes n \<Longrightarrow> ld32 m' (slot m oi x) = ld32 m (slot m oi x)"
  using assms by (simp_all add: mid_def)

lemma file_block_facts:
  assumes "file_ok m oi n" "x \<in> nodes n"
  shows "data_block m (block_of m oi x)" "block_of m oi x \<notin> free_set m"
    "1024 * data_start m \<le> 1024 * block_of m oi x"
  using assms by (auto simp: file_ok_def data_block_def)

lemma slot_low:
  assumes "file_ok m oi n" "x \<in> nodes n"
  shows "oi + 16 \<le> slot m oi x" "freemap_end m \<le> slot m oi x" "4 dvd slot m oi x"
proof -
  note oi = inode_ok_address [of m oi]
  have ok: "disk_ok m" "inode_ok m oi" using assms(1) by (simp_all add: file_ok_def)
  show low: "oi + 16 \<le> slot m oi x"
    using slot_place [OF assms] oi(2) [OF ok] file_block_facts(3) [OF assms(1)] by fastforce
  show "freemap_end m \<le> slot m oi x" using low oi(1) [OF ok] by linarith
  show "4 dvd slot m oi x" using slot_place [OF assms] by blast
qed

lemma slot_not_in_free:
  assumes "file_ok m oi n" "x \<in> nodes n" "b \<in> free_set m"
  shows "slot m oi x + 4 \<le> 1024 * b \<or> 1024 * b + 1024 \<le> slot m oi x"
proof -
  have ok: "disk_ok m" "inode_ok m oi" using assms(1) by (simp_all add: file_ok_def)
  have "data_start m \<le> b" using free_is_data [OF ok(1) assms(3)] by (simp add: data_block_def)
  then have below: "oi + 64 \<le> 1024 * b" using inode_ok_address(2) [OF ok] by linarith
  consider "slot m oi x + 4 \<le> oi + 64"
    | y where "y \<in> nodes n" "1024 * block_of m oi y \<le> slot m oi x"
        "slot m oi x + 4 \<le> 1024 * block_of m oi y + 1024"
    using slot_place [OF assms(1,2)] by blast
  then show ?thesis
  proof cases
    case (2 y)
    then have "block_of m oi y \<noteq> b" using file_block_facts(2) [OF assms(1)] assms(3) by blast
    then show ?thesis using 2 by linarith
  qed (use below in linarith)
qed

lemma mid_grab:
  assumes fok: "file_ok m oi n" and mid: "mid m oi n F m'" and grab: "grabbed m' b m''"
  shows "mid m oi n (insert (unat b) F) m''" "unat b \<notin> F" "unat b \<in> free_set m"
proof -
  note f = mid_facts [OF mid]
  have end_eq: "freemap_end m' = freemap_end m" using super_eq_simps [OF f(2)] by simp
  show b: "unat b \<notin> F" "unat b \<in> free_set m" using grabbed_facts(4) [OF grab] f(3) by auto
  have slots: "ld32 m'' (slot m oi x) = ld32 m (slot m oi x)" if "x \<in> nodes n" for x
    using grabbed_ld32 [OF grab, of "slot m oi x"] slot_not_in_free [OF fok that b(2)]
      slot_low [OF fok that] f(5) [OF that] end_eq by simp
  have "m'' x = m x" if "freemap_end m \<le> x" "\<not> own_bytes m oi n x" for x
  proof -
    have "\<not> in_block (unat b) x" using that(2) b(2) by (auto simp: own_bytes_def)
    then show ?thesis using grab mid that end_eq by (simp add: grabbed_def mid_def)
  qed
  then show "mid m oi n (insert (unat b) F) m''"
    using grabbed_facts [OF grab] f b slots super_eq_trans [OF f(2)]
    by (auto simp: mid_def)
qed

lemma own_bytes_high:
  assumes "file_ok m oi n" "own_bytes m oi n x"
  shows "freemap_end m \<le> x"
proof -
  have ok: "disk_ok m" "inode_ok m oi" using assms(1) by (simp_all add: file_ok_def)
  consider "oi \<le> x" | b where "in_block b x" "data_block m b"
    using assms free_is_data [OF ok(1)] file_block_facts(1) [OF assms(1)]
    by (auto simp: own_bytes_def pointer_block_def)
  then show ?thesis
  proof cases
    case (2 b)
    then have "1024 * data_start m \<le> x" by (auto simp: in_block_def data_block_def)
    then show ?thesis using freemap_below_data [OF ok(1)] by linarith
  qed (use inode_ok_address(1) [OF ok] in linarith)
qed

lemma mid_poke:
  assumes fok: "file_ok m oi n" and mid: "mid m oi n F m'"
    and own: "own_bytes m oi n a" and align: "4 dvd a"
    and new: "\<And>x. x \<in> nodes n \<Longrightarrow> slot m oi x \<noteq> a"
  shows "mid m oi n F (st32 m' a v)"
proof -
  note f = mid_facts [OF mid]
  have high: "freemap_end m' \<le> a"
    using own_bytes_high [OF fok own] super_eq_simps(2) [OF f(2)] by simp
  have slots: "ld32 (st32 m' a v) (slot m oi x) = ld32 m (slot m oi x)" if "x \<in> nodes n" for x
    using ld32_st32_aligned [OF align slot_low(3) [OF fok that]] new [OF that] f(5) [OF that] by metis
  have inside: "own_bytes m oi n x" if "a \<le> x" "x < a + 4" for x
  proof -
    have oi: "4 dvd oi" using fok inode_ok_address(3) by (auto simp: file_ok_def)
    show ?thesis
    proof (cases "oi \<le> a \<and> a < oi + 64")
      case True
      have "a + 4 \<le> oi + 64" using True oi align by presburger
      then show ?thesis using that True by (simp add: own_bytes_def)
    next
      case False
      then obtain b where "in_block b a" "pointer_block m oi n b \<or> b \<in> free_set m"
        using own by (auto simp: own_bytes_def)
      moreover have "in_block b x"
      proof -
        obtain k where k: "a = 4 * k" using align by (rule dvdE)
        then have "k < 256 * b + 256" using calculation by (simp add: in_block_def)
        then have "k + 1 \<le> 256 * b + 256" by simp
        then show ?thesis using k calculation that by (simp add: in_block_def)
      qed
      ultimately show ?thesis by (auto simp: own_bytes_def)
    qed
  qed
  have "st32 m' a v x = m x" if "freemap_end m \<le> x" "\<not> own_bytes m oi n x" for x
  proof -
    have "x < a \<or> a + 4 \<le> x" using inside that(2) by (meson not_le)
    then show ?thesis using mid that by (simp add: st32_other_byte mid_def)
  qed
  then show ?thesis
    using f poke [OF f(1) high] slots super_eq_trans [OF f(2)] by (simp add: mid_def)
qed

end
