(* ===== verification/OspfsAddBlock.thy ===== *)
theory OspfsAddBlock
  imports OspfsGrow
begin

text \<open>
  The three ranges of \<open>add_block\<close>, put together: on a well-formed file it succeeds when
  the disk has the blocks it needs, and the file then has one more block, all of zeros.
\<close>

definition grows :: "mem \<Rightarrow> nat \<Rightarrow> nat \<Rightarrow> mem \<Rightarrow> bool" where
  "grows m oi n m' \<longleftrightarrow> file_ok m' oi (Suc n) \<and> ptrs_clear m' oi (Suc n) \<and>
     oi_size m' oi = oi_size m oi + 1024 \<and> oi_ftype m' oi = oi_ftype m oi \<and> super_eq m m' \<and>
     ld32 m' (oi + 8) = ld32 m (oi + 8) \<and> ld32 m' (oi + 12) = ld32 m (oi + 12) \<and>
     (\<forall>x \<in> nodes n. block_of m' oi x = block_of m oi x) \<and>
     free_set m' = free_set m - block_of m' oi ` new_nodes n \<and>
     block_of m' oi ` new_nodes n \<subseteq> free_set m \<and>
     (\<forall>x. freemap_end m \<le> x \<longrightarrow> \<not> own_bytes m oi n x \<longrightarrow> m' x = m x) \<and>
     (\<forall>x. in_block (block_of m' oi (Data n)) x \<longrightarrow> m' x = 0)"

text \<open>The same before the size is written: what each branch of \<open>add_block\<close> does to the disk.\<close>

definition linked :: "mem \<Rightarrow> nat \<Rightarrow> nat \<Rightarrow> nat \<Rightarrow> mem \<Rightarrow> bool" where
  "linked m oi n b m1 \<longleftrightarrow> block_of m1 oi (Data n) = b \<and> mid m oi n (block_of m1 oi ` new_nodes n) m1 \<and> inj_on (block_of m1 oi) (new_nodes n) \<and>
     oi_size m1 oi = oi_size m oi \<and> oi_ftype m1 oi = oi_ftype m oi \<and>
     ld32 m1 (oi + 8) = ld32 m (oi + 8) \<and> ld32 m1 (oi + 12) = ld32 m (oi + 12) \<and>
     ptrs_clear m1 oi (Suc n) \<and> (\<forall>x. in_block (block_of m1 oi (Data n)) x \<longrightarrow> m1 x = 0)"

lemma linkedI:
  assumes "mid m oi n F m1" "F = block_of m1 oi ` new_nodes n" "inj_on (block_of m1 oi) (new_nodes n)"
    "oi_size m1 oi = oi_size m oi" "oi_ftype m1 oi = oi_ftype m oi"
    "ld32 m1 (oi + 8) = ld32 m (oi + 8)" "ld32 m1 (oi + 12) = ld32 m (oi + 12)"
    "ptrs_clear m1 oi (Suc n)" "\<And>x. in_block (block_of m1 oi (Data n)) x \<Longrightarrow> m1 x = 0"
    "block_of m1 oi (Data n) = b"
  shows "linked m oi n b m1"
  using assms by (simp add: linked_def)

lemma extend:
  assumes fok: "file_ok m oi n" "n < 65802" and mid: "mid m oi n F m'"
    and F: "F = block_of m' oi ` new_nodes n" "inj_on (block_of m' oi) (new_nodes n)"
  shows "file_ok m' oi (Suc n)" and "x \<in> nodes n \<Longrightarrow> block_of m' oi x = block_of m oi x"
proof -
  note f = mid_facts [OF mid]
  note s = super_eq_simps [OF f(2)]
  have old: "block_of m' oi x = block_of m oi x" if "x \<in> nodes n" for x
    using slot_frame(2) [of n m' m oi x] f(5) that by blast
  then show "x \<in> nodes n \<Longrightarrow> block_of m' oi x = block_of m oi x" .
  have not_free: "block_of m' oi x \<notin> free_set m" if "x \<in> nodes n" for x
    using old [OF that] file_block_facts(2) [OF fok(1) that] by simp
  have "inj_on (block_of m' oi) (nodes n)"
    using fok(1) old by (simp add: file_ok_def cong: inj_on_cong)
  moreover have "block_of m' oi ` (nodes n - new_nodes n) \<inter> block_of m' oi ` (new_nodes n - nodes n) = {}"
    using not_free f(4) F(1) by blast
  ultimately have inj: "inj_on (block_of m' oi) (nodes (Suc n))"
    unfolding nodes_Suc inj_on_Un using F(2) by blast
  have new: "data_block m (block_of m' oi x)" "block_of m' oi x \<in> F" if "x \<in> new_nodes n" for x
    using that F(1) f(4) free_is_data [of m] fok(1) by (auto simp: file_ok_def)
  have "data_block m' (block_of m' oi x) \<and> block_of m' oi x \<notin> free_set m'" if "x \<in> nodes (Suc n)" for x
  proof (cases "x \<in> nodes n")
    case True
    then show ?thesis using file_block_facts(1) [OF fok(1) True] old not_free f(3) by (simp add: s)
  next
    case False
    then show ?thesis using that new f(3) by (simp add: nodes_Suc s)
  qed
  then show "file_ok m' oi (Suc n)"
    using inj f(1) fok by (simp add: file_ok_def s)
qed

lemma inode_words_apart:
  assumes "file_ok m oi n" "x \<in> nodes n" "a + 4 \<le> oi + 16"
  shows "slot m oi x \<noteq> a"
  using slot_low(1) [OF assms(1,2)] assms(3) by linarith

lemma ptrs_clear_set_size:
  assumes "file_ok m oi n"
  shows "ptrs_clear (set_size oi v m) oi n = ptrs_clear m oi n"
proof -
  have ind: "oi_indirect (set_size oi v m) oi = oi_indirect m oi"
    "oi_indirect2 (set_size oi v m) oi = oi_indirect2 m oi"
    by (simp_all add: oi_indirect_def oi_indirect2_def set_size_def ld32_st32_apart)
  have "block_of (set_size oi v m) oi (Sub j) = block_of m oi (Sub j)" if "266 < n" for j
  proof -
    have n2: "Ind2 \<in> nodes n" using that by simp
    have "ospfs_block (oi_indirect2 m oi) = 1024 * block_of m oi Ind2"
      using node_address [OF assms n2] by (simp add: oi_indirect2_def)
    moreover have "oi + 64 \<le> 1024 * block_of m oi Ind2"
      using inode_ok_address(2) file_block_facts(3) [OF assms n2] assms by (fastforce simp: file_ok_def)
    ultimately have "oi + 4 \<le> ospfs_block (oi_indirect2 m oi) + 4 * j" by simp
    then show ?thesis using ind by (simp add: block_of_def set_size_def ld32_st32_apart)
  qed
  then show ?thesis using ind by (auto simp: ptrs_clear_def)
qed

text \<open>The last step of all branches: the size grows by a block.\<close>

lemma bump_grows:
  assumes fok: "file_ok m oi n" "n < 65802" and l: "linked m oi n b m1"
  shows "\<exists>m'. bump_size oi m1 = (Inr (), m') \<and> grows m oi n m'"
proof -
  let ?m' = "set_size oi (oi_size m1 oi + 1024) m1"
  obtain F where F0: "F = block_of m1 oi ` new_nodes n" by simp
  then have mid: "mid m oi n F m1" and F: "F = block_of m1 oi ` new_nodes n" "inj_on (block_of m1 oi) (new_nodes n)"
    and inode: "oi_size m1 oi = oi_size m oi" "oi_ftype m1 oi = oi_ftype m oi"
      "ld32 m1 (oi + 8) = ld32 m (oi + 8)" "ld32 m1 (oi + 12) = ld32 m (oi + 12)"
    and clear: "ptrs_clear m1 oi (Suc n)"
    and zero: "\<And>x. in_block (block_of m1 oi (Data n)) x \<Longrightarrow> m1 x = 0"
    using l by (simp_all add: linked_def)
  note ext = extend [OF fok mid F]
  have ok: "disk_ok m" "inode_ok m oi" using fok by (simp_all add: file_ok_def)
  have oi: "own_bytes m oi n oi" "4 dvd oi"
    using inode_ok_address(3) [OF ok] by (simp_all add: own_bytes_def)
  have mid': "mid m oi n F ?m'"
    unfolding set_size_def by (rule mid_poke [OF fok(1) mid oi]) (use inode_words_apart [OF fok(1)] in auto)
  have same: "block_of ?m' oi x = block_of m1 oi x" if "x \<in> nodes (Suc n)" for x
  proof (rule slot_frame(2) [OF _ that])
    show "ld32 ?m' (slot m1 oi y) = ld32 m1 (slot m1 oi y)" if "y \<in> nodes (Suc n)" for y
      unfolding set_size_def using slot_low(1) [OF ext(1) that] by (intro ld32_st32_apart) simp
  qed
  have new: "new_nodes n \<subseteq> nodes (Suc n)" by (simp add: nodes_Suc)
  have F': "F = block_of ?m' oi ` new_nodes n" "inj_on (block_of ?m' oi) (new_nodes n)"
    using F same new by (auto simp: subset_iff inj_on_def)
  note ext' = extend [OF fok mid' F']
  have data: "Data n \<in> nodes (Suc n)" by simp
  have "?m' x = 0" if "in_block (block_of ?m' oi (Data n)) x" for x
  proof -
    have "oi + 64 \<le> 1024 * block_of m1 oi (Data n)"
      using inode_ok_address(2) [of m1 oi] file_block_facts(3) [OF ext(1) data] ext(1)
      by (fastforce simp: file_ok_def)
    then show ?thesis using that same [OF data] zero [of x]
      by (auto simp: set_size_def in_block_def st32_other_byte)
  qed
  moreover have "oi_size ?m' oi = oi_size m oi + 1024" "oi_ftype ?m' oi = oi_ftype m oi"
    "ld32 ?m' (oi + 8) = ld32 m (oi + 8)" "ld32 ?m' (oi + 12) = ld32 m (oi + 12)"
    using inode by (simp_all add: oi_size_def oi_ftype_def set_size_def ld32_st32_same ld32_st32_apart)
  moreover have "ptrs_clear ?m' oi (Suc n)" using clear ptrs_clear_set_size [OF ext(1)] by simp
  moreover have "\<forall>x. freemap_end m \<le> x \<longrightarrow> \<not> own_bytes m oi n x \<longrightarrow> ?m' x = m x"
    using mid' by (simp add: mid_def)
  ultimately have "grows m oi n ?m'"
    using ext' mid_facts [OF mid'] F'(1) unfolding grows_def by blast
  then show ?thesis by (simp add: bump_size_def)
qed

section \<open>Direct blocks\<close>

lemma file_inode:
  assumes "file_ok m oi n"
  shows "disk_ok m" "inode_ok m oi" "freemap_end m \<le> oi" "4 dvd oi"
    "data_block m b \<Longrightarrow> oi + 64 \<le> 1024 * b"
proof -
  show ok: "disk_ok m" "inode_ok m oi" using assms by (simp_all add: file_ok_def)
  show "freemap_end m \<le> oi" "4 dvd oi" using inode_ok_address [OF ok] by simp_all
  show "oi + 64 \<le> 1024 * b" if "data_block m b"
    using inode_ok_address(2) [OF ok] that by (simp add: data_block_def)
qed

lemma free_block_facts:
  assumes "file_ok m oi n" "unat b \<in> free_set m"
  shows "ospfs_block b = 1024 * unat b" "oi + 64 \<le> 1024 * unat b" "0 < unat b"
  using assms free_is_data [of m "unat b"] file_inode [OF assms(1)] data_block_address [of m b]
    data_block_pos [of m "unat b"] by auto

lemma grab_inode:
  assumes "file_ok m oi n" "mid m oi n F m'" "grabbed m' b m''" "oi \<le> a" "a + 4 \<le> oi + 64"
  shows "ld32 m'' a = ld32 m' a"
proof -
  have "unat b \<in> free_set m" using mid_grab(3) [OF assms(1-3)] .
  then have "oi + 64 \<le> 1024 * unat b" using free_block_facts(2) [OF assms(1)] by blast
  moreover have "freemap_end m' \<le> a"
    using file_inode(3) [OF assms(1)] assms(4) super_eq_simps(2) [OF mid_facts(2) [OF assms(2)]] by simp
  ultimately show ?thesis using assms(5) by (intro grabbed_ld32 [OF assms(3)]) simp_all
qed

lemma st32_other_block:
  assumes "in_block c a" "4 dvd a" "in_block b x" "b \<noteq> c"
  shows "st32 m a v x = m x"
proof -
  obtain k where k: "a = 4 * k" using assms(2) by (rule dvdE)
  have a: "1024 * c \<le> a" "a < 1024 * c + 1024" using assms(1) by (simp_all add: in_block_def)
  have "k < 256 * c + 256" using a(2) k by simp
  then have "a + 4 \<le> 1024 * c + 1024" using k by simp
  moreover have "1024 * c + 1024 \<le> 1024 * b \<or> 1024 * b + 1024 \<le> 1024 * c" using assms(4) by linarith
  ultimately show ?thesis using a(1) assms(3) unfolding in_block_def
    by (intro st32_other_byte) linarith
qed

lemma grabbed_zeroes: "grabbed m b m' \<Longrightarrow> in_block (unat b) x \<Longrightarrow> m' x = 0"
  by (simp add: grabbed_def)

lemma own_inode: "oi \<le> a \<Longrightarrow> a < oi + 64 \<Longrightarrow> own_bytes m oi n a"
  by (simp add: own_bytes_def)

lemma own_free: "b \<in> free_set m \<Longrightarrow> in_block b a \<Longrightarrow> own_bytes m oi n a"
  by (auto simp: own_bytes_def)

lemma own_pointer:
  "y \<in> nodes n \<Longrightarrow> (\<And>i. y \<noteq> Data i) \<Longrightarrow> in_block (block_of m oi y) a \<Longrightarrow> own_bytes m oi n a"
  by (auto simp: own_bytes_def pointer_block_def)

lemma direct_slots:
  assumes "x \<in> nodes n" "n \<le> 10"
  obtains i where "x = Data i" "i < n" "slot m oi x = oi + 16 + 4 * i"
  using assms by (cases rule: nodes_cases) auto

lemma add_direct_linked:
  assumes fok: "file_ok m oi n" and clear: "ptrs_clear m oi n" and n: "n < 10"
    and grab: "grabbed m b m2"
  shows "linked m oi n (unat b) (set_direct oi n b m2)"
proof -
  let ?a = "oi + 16 + 4 * n" and ?m3 = "set_direct oi n b m2"
  note start = mid_start [OF fok]
  note mid2 = mid_grab [OF fok start grab]
  have mid3: "mid m oi n {unat b} ?m3"
    unfolding set_direct_def
  proof (rule mid_poke [OF fok mid2(1)])
    show "own_bytes m oi n ?a" using n by (intro own_inode) simp_all
    show "4 dvd ?a" using file_inode(4) [OF fok] by simp
    show "slot m oi x \<noteq> ?a" if "x \<in> nodes n" for x
      using n by (auto intro: direct_slots [OF that, of m oi])
  qed
  have new: "new_nodes n = {Data n}" "block_of ?m3 oi (Data n) = unat b"
    using n by (simp_all add: new_nodes_def block_of_def set_direct_def ld32_st32_same)
  have inode: "ld32 ?m3 a = ld32 m a" if "oi \<le> a" "a + 4 \<le> oi + 64" "a + 4 \<le> ?a \<or> ?a + 4 \<le> a" for a
    using that grab_inode [OF fok start grab] by (simp add: set_direct_def ld32_st32_apart)
  show ?thesis
  proof (rule linkedI [OF mid3])
    show "ptrs_clear ?m3 oi (Suc n)"
      using clear n inode by (simp add: ptrs_clear_def oi_indirect_def oi_indirect2_def)
    show "?m3 x = 0" if "in_block (block_of ?m3 oi (Data n)) x" for x
      using that grab n free_block_facts(2) [OF fok mid2(3)] unfolding new(2)
      by (auto simp: set_direct_def grabbed_def in_block_def st32_other_byte)
  qed (use n new inode in \<open>auto simp: oi_size_def oi_ftype_def\<close>)
qed

lemma add_direct_grows:
  assumes fok: "file_ok m oi n" and clear: "ptrs_clear m oi n" and n: "n < 10"
    and grab: "grabbed m b m2"
  shows "\<exists>m'. bump_size oi (set_direct oi n b m2) = (Inr (), m') \<and> grows m oi n m'"
  by (rule bump_grows [OF fok _ add_direct_linked [OF fok clear n grab]]) (use n in simp)

section \<open>Blocks under pointer blocks\<close>

text \<open>A pointer block taken from the free set holds no slot of the file yet.\<close>

lemma slot_not_free_word:
  assumes "file_ok m oi n" "x \<in> nodes n" "b \<in> free_set m" "k < 256"
  shows "slot m oi x \<noteq> 1024 * b + 4 * k"
  using slot_not_in_free [OF assms(1-3)] assms(4) by linarith

lemma in_block_word [simp]: "k < 256 \<Longrightarrow> in_block b (1024 * b + 4 * k)"
  by (simp add: in_block_def)

lemma in_block_start [simp]: "in_block b (1024 * b)"
  by (simp add: in_block_def)

lemma two_grabs:
  assumes fok: "file_ok m oi n" and grab: "grabbed m b m2" "mid m oi n {unat b} m2'" "grabbed m2' a m3"
  shows "mid m oi n {unat a, unat b} m3" "unat a \<noteq> unat b" "unat a \<in> free_set m" "unat b \<in> free_set m"
  using mid_grab [OF fok grab(2,3)] mid_grab(3) [OF fok mid_start [OF fok] grab(1)] by auto

lemma grab_keeps_zeroes:
  assumes fok: "file_ok m oi n" and mid: "mid m oi n F m2" and grab: "grabbed m2 a m3"
    and c: "c \<noteq> unat a" "c \<in> free_set m" and zero: "\<And>x. in_block c x \<Longrightarrow> m2 x = 0"
    and x: "in_block c x"
  shows "m3 x = 0"
proof -
  have "oi + 64 \<le> 1024 * c"
    by (rule file_inode(5) [OF fok free_is_data [OF file_inode(1) [OF fok] c(2)]])
  then have "freemap_end m2 \<le> x"
    using file_inode(3) [OF fok] x super_eq_simps(2) [OF mid_facts(2) [OF mid]]
    by (simp add: in_block_def)
  moreover have "\<not> in_block (unat a) x" using c(1) x by (auto simp: in_block_def)
  ultimately show ?thesis using grab zero [OF x] by (simp add: grabbed_def)
qed

fun parent :: "node \<Rightarrow> node" where
  "parent (Data b) = (if b < 266 then Ind else Sub ((b - 266) div 256))"
| "parent x = Ind2"

fun offset :: "node \<Rightarrow> nat" where
  "offset (Data b) = (if b < 266 then b - 10 else (b - 266) mod 256)"
| "offset (Sub j) = j"
| "offset x = 0"

lemma slot_parent:
  assumes "file_ok m oi n" "x \<in> nodes n"
  shows "slot m oi x + 4 \<le> oi + 64 \<or>
    parent x \<in> nodes n \<and> slot m oi x = 1024 * block_of m oi (parent x) + 4 * offset x"
  using assms(2)
proof (cases rule: nodes_cases)
  case (single b)
  then show ?thesis using node_address [OF assms(1) single(5)] by (simp add: oi_indirect_def)
next
  case (double b)
  then show ?thesis using node_address [OF assms(1) double(5)] by simp
next
  case (sub j)
  then show ?thesis using node_address [OF assms(1) sub(3)] by (simp add: oi_indirect2_def)
qed auto

lemma slot_in_pointer:
  assumes fok: "file_ok m oi n" and x: "x \<in> nodes n" and y: "y \<in> nodes n" and k: "k < 256"
    and eq: "slot m oi x = 1024 * block_of m oi y + 4 * k"
  shows "parent x = y \<and> offset x = k"
proof -
  have "oi + 64 \<le> 1024 * block_of m oi y" by (rule file_inode(5) [OF fok file_block_facts(1) [OF fok y]])
  then have p: "parent x \<in> nodes n" "slot m oi x = 1024 * block_of m oi (parent x) + 4 * offset x"
    using slot_parent [OF fok x] eq by auto
  have off: "offset x < 256" using x fok by (cases x) (auto simp: file_ok_def algebra_simps)
  have "256 * block_of m oi (parent x) + offset x = 256 * block_of m oi y + k" using p(2) eq by simp
  then have "block_of m oi (parent x) = block_of m oi y" "offset x = k"
    using off k by (metis add.commute add_cancel_right_right div_less div_mult_self2 mod_less mod_mult_self2
        zero_neq_numeral)+
  then show ?thesis using fok p(1) y by (auto simp: file_ok_def dest: inj_onD)
qed

text \<open>The slot of a block that is not direct, through its pointer block.\<close>

lemma slot_under:
  "10 \<le> n \<Longrightarrow> slot m oi (Data n) = ospfs_block (ld32 m (slot m oi (parent (Data n)))) + 4 * offset (Data n)"
  by (simp add: oi_indirect_def)

lemma offset_less: "10 \<le> n \<Longrightarrow> offset (Data n) < 256"
  by auto

lemma parent_offset:
  assumes "10 < n" "parent x = parent (Data n)" "offset x = offset (Data n)"
  shows "x = Data n"
proof (cases x)
  case (Data b)
  show ?thesis
  proof (cases "n < 266")
    case True
    then show ?thesis using assms Data by (auto split: if_splits)
  next
    case False
    then have "(b - 266) div 256 = (n - 266) div 256" "(b - 266) mod 256 = (n - 266) mod 256" "266 \<le> b"
      using assms Data by (auto split: if_splits)
    then have "b - 266 = n - 266" by (metis div_mult_mod_eq)
    then show ?thesis using Data False \<open>266 \<le> b\<close> by simp
  qed
qed (use assms in \<open>auto split: if_splits\<close>)

text \<open>A word in a pointer block of the file, or in the inode, survives a grab.\<close>

lemma grab_pointer_word:
  assumes fok: "file_ok m oi n" and mid: "mid m oi n F m'" and grab: "grabbed m' b m''"
    and y: "y \<in> nodes n" and k: "k < 256"
  shows "ld32 m'' (1024 * block_of m oi y + 4 * k) = ld32 m' (1024 * block_of m oi y + 4 * k)"
proof (rule grabbed_ld32 [OF grab])
  have "block_of m oi y \<noteq> unat b"
    using file_block_facts(2) [OF fok y] mid_grab(3) [OF fok mid grab] by metis
  then show "1024 * block_of m oi y + 4 * k + 4 \<le> 1024 * unat b \<or>
      1024 * unat b + 1024 \<le> 1024 * block_of m oi y + 4 * k" using k by linarith
  have "freemap_end m \<le> 1024 * block_of m oi y"
    using file_block_facts(3) [OF fok y] freemap_below_data [OF file_inode(1) [OF fok]] by linarith
  then show "freemap_end m' \<le> 1024 * block_of m oi y + 4 * k"
    using super_eq_simps(2) [OF mid_facts(2) [OF mid]] by simp
qed

lemma ptrs_clear_step:
  assumes "ptrs_clear m oi n"
    and "n < 10 \<Longrightarrow> oi_indirect m' oi = oi_indirect m oi"
    and "n < 266 \<Longrightarrow> oi_indirect2 m' oi = oi_indirect2 m oi"
    and "\<And>j. \<lbrakk>266 \<le> n; j < 256; n < 266 + 256 * j\<rbrakk> \<Longrightarrow> block_of m' oi (Sub j) = 0"
  shows "ptrs_clear m' oi (Suc n)"
  using assms by (simp add: ptrs_clear_def)

text \<open>The words of the doubly indirect block past the end of the file.\<close>

lemma clear_words:
  assumes fok: "file_ok m oi n" and "ptrs_clear m oi n" "266 < n" "j < 256" "n \<le> 266 + 256 * j"
  shows "ld32 m (1024 * block_of m oi Ind2 + 4 * j) = 0"
proof -
  have ind2: "Ind2 \<in> nodes n" using assms(3) by simp
  have "block_of m oi (Sub j) = 0" using assms by (simp add: ptrs_clear_def)
  then show ?thesis using node_address [OF fok ind2] by (simp add: block_of_def oi_indirect2_def unsigned_eq_0_iff)
qed

lemma add_under_old_linked:
  assumes fok: "file_ok m oi n" and clear: "ptrs_clear m oi n" and n: "10 < n" "n < 65802"
    and par: "parent (Data n) \<in> nodes n" and nodes: "new_nodes n = {Data n}"
    and grab: "grabbed m b m2"
  shows "linked m oi n (unat b) (st32 m2 (1024 * block_of m oi (parent (Data n)) + 4 * offset (Data n)) b)"
proof -
  let ?I = "block_of m oi (parent (Data n))" and ?k = "offset (Data n)"
  let ?a = "1024 * ?I + 4 * ?k" and ?m3 = "st32 m2 (1024 * ?I + 4 * ?k) b"
  have k: "?k < 256" using n by (intro offset_less) simp
  note start = mid_start [OF fok]
  note mid2 = mid_grab [OF fok start grab]
  have I: "oi + 64 \<le> 1024 * ?I" by (rule file_inode(5) [OF fok file_block_facts(1) [OF fok par]])
  have mid3: "mid m oi n {unat b} ?m3"
  proof (rule mid_poke [OF fok mid2(1)])
    show "own_bytes m oi n ?a" by (rule own_pointer [OF par]) (use k n in auto)
    show "4 dvd ?a" by simp
    show "slot m oi x \<noteq> ?a" if "x \<in> nodes n" for x
    proof
      assume "slot m oi x = ?a"
      then have "parent x = parent (Data n)" "offset x = ?k"
        using slot_in_pointer [OF fok that par k] by auto
      then have "x = Data n" by (rule parent_offset [OF n(1)])
      then show False using that by simp
    qed
  qed
  note f3 = mid_facts [OF mid3]
  have frame: "slot ?m3 oi x = slot m oi x" if "x \<in> nodes n" for x
    by (rule slot_frame(1) [OF _ that]) (rule f3(5))
  have "slot ?m3 oi (Data n) = ospfs_block (ld32 m (slot m oi (parent (Data n)))) + 4 * ?k"
    using slot_under [of n ?m3 oi] n frame [OF par] f3(5) [OF par] by simp
  then have "slot ?m3 oi (Data n) = ?a" using node_address [OF fok par] by simp
  then have new: "block_of ?m3 oi (Data n) = unat b" by (simp add: block_of_def ld32_st32_same del: slot.simps)
  have inode: "ld32 ?m3 w = ld32 m w" if "oi \<le> w" "w + 4 \<le> oi + 64" for w
    using that I grab_inode [OF fok start grab that] by (simp add: ld32_st32_apart)
  have old: "unat b \<noteq> ?I" using file_block_facts(2) [OF fok par] mid2(3) by metis
  show ?thesis
  proof (rule linkedI [OF mid3])
    show "ptrs_clear ?m3 oi (Suc n)"
    proof (rule ptrs_clear_step [OF clear])
      show "block_of ?m3 oi (Sub j) = 0" if "266 \<le> n" "j < 256" "n < 266 + 256 * j" for j
      proof -
        have big: "266 < n" using that(1) nodes by (cases "n = 266") (auto simp: new_nodes_def)
        then have ind2: "Ind2 \<in> nodes n" by simp
        have "?I \<noteq> block_of m oi Ind2" using fok par ind2 big by (auto simp: file_ok_def dest: inj_onD)
        then have "ld32 ?m3 (1024 * block_of m oi Ind2 + 4 * j) = ld32 m2 (1024 * block_of m oi Ind2 + 4 * j)"
          using k that(2) by (intro ld32_st32_apart) linarith
        also have "\<dots> = 0" using grab_pointer_word [OF fok start grab ind2 that(2)]
            clear_words [OF fok clear big that(2)] that(3) by simp
        finally have "ld32 ?m3 (1024 * block_of m oi Ind2 + 4 * j) = 0" .
        moreover have "slot ?m3 oi (Sub j) = 1024 * block_of m oi Ind2 + 4 * j"
          using inode [of "oi + 60"] node_address [OF fok ind2] by (simp add: oi_indirect2_def)
        ultimately show ?thesis by (simp add: block_of_def del: slot.simps)
      qed
    qed (use inode in \<open>simp_all add: oi_indirect_def oi_indirect2_def\<close>)
    show "?m3 x = 0" if "in_block (block_of ?m3 oi (Data n)) x" for x
      using that grabbed_zeroes [OF grab] st32_other_block [of ?I ?a "unat b"] old k unfolding new
      by (simp del: offset.simps)
  qed (use nodes new inode in \<open>auto simp: oi_size_def oi_ftype_def\<close>)
qed

lemma add_under_old_grows:
  assumes fok: "file_ok m oi n" and clear: "ptrs_clear m oi n" and n: "10 < n" "n < 65802"
    and par: "parent (Data n) \<in> nodes n" and nodes: "new_nodes n = {Data n}"
    and grab: "grabbed m b m2"
  shows "\<exists>m'. bump_size oi (st32 m2 (1024 * block_of m oi (parent (Data n)) + 4 * offset (Data n)) b) =
    (Inr (), m') \<and> grows m oi n m'"
  by (rule bump_grows [OF fok _ add_under_old_linked [OF fok clear n par nodes grab]]) (use n in simp)

text \<open>A new pointer block, whose own slot is the word \<open>s\<close>.\<close>

lemma add_under_new_linked:
  assumes fok: "file_ok m oi n" and clear: "ptrs_clear m oi n" and n: "n < 65802" "n \<noteq> 266"
    and nodes: "new_nodes n = {Data n, parent (Data n)}"
    and s: "n = 10 \<and> s = oi + 56 \<or> 266 < n \<and> s = 1024 * block_of m oi Ind2 + 4 * ((n - 266) div 256)"
    and grab: "grabbed m b m2" "grabbed m2 a m3"
  shows "linked m oi n (unat b) (st32 (st32 m3 s a) (1024 * unat a + 4 * offset (Data n)) b)"
proof -
  let ?y = "parent (Data n)" and ?k = "offset (Data n)"
  let ?w = "1024 * unat a + 4 * ?k" and ?m4 = "st32 m3 s a"
  let ?m5 = "st32 (st32 m3 s a) (1024 * unat a + 4 * ?k) b"
  have k: "?k < 256" "10 \<le> n" using s by (auto intro!: offset_less simp del: offset.simps)
  have y: "?y = Ind \<and> n = 10 \<or> ?y = Sub ((n - 266) div 256) \<and> 266 < n \<and> Ind2 \<in> nodes n" using s by auto
  have j: "(n - 266) div 256 < 256" using n(1) by linarith
  note start = mid_start [OF fok]
  note mid2 = mid_grab [OF fok start grab(1)]
  note mid3 = two_grabs [OF fok grab(1) mid2(1) grab(2)]
  note A = free_block_facts [OF fok mid3(3)] and B = free_block_facts [OF fok mid3(4)]
  have I2: "oi + 64 \<le> 1024 * block_of m oi Ind2" "block_of m oi Ind2 \<notin> free_set m" if "266 < n"
    using file_inode(5) [OF fok file_block_facts(1) [OF fok]] file_block_facts(2) [OF fok] that by simp_all
  have s_own: "own_bytes m oi n s"
    using s own_inode [of oi s] own_pointer [of Ind2 n m oi s] j by auto
  have s_align: "4 dvd s" using s file_inode(4) [OF fok] by auto
  have s_new: "slot m oi x \<noteq> s" if x: "x \<in> nodes n" for x
  proof (cases "n = 10")
    case True
    then show ?thesis using s by (auto intro: direct_slots [OF x, of m oi])
  next
    case False
    then have s': "s = 1024 * block_of m oi Ind2 + 4 * ((n - 266) div 256)" and ind2: "Ind2 \<in> nodes n"
      using s by auto
    show ?thesis
    proof
      assume "slot m oi x = s"
      then have "parent x = Ind2 \<and> offset x = (n - 266) div 256"
        using slot_in_pointer [OF fok x ind2 j] s' by simp
      then consider "x = Sub ((n - 266) div 256)" | "x = Ind" | "x = Ind2"
        by (cases x) (auto split: if_splits)
      then show False
      proof cases
        case 1
        then show False using x nodes s y nodes_Suc [of n] sub_new_iff [of "(n - 266) div 256" n] False
          by (auto simp: new_nodes_def split: if_splits)
      qed (use I2(1) s' s \<open>slot m oi x = s\<close> False in auto)
    qed
  qed
  have mid4: "mid m oi n {unat a, unat b} ?m4" by (rule mid_poke [OF fok mid3(1) s_own s_align s_new])
  have mid5: "mid m oi n {unat a, unat b} ?m5"
  proof (rule mid_poke [OF fok mid4])
    show "own_bytes m oi n ?w" using k by (intro own_free [OF mid3(3)]) simp
    show "slot m oi x \<noteq> ?w" if "x \<in> nodes n" for x
      by (rule slot_not_free_word [OF fok that mid3(3) k(1)])
  qed simp
  have s_apart: "s + 4 \<le> 1024 * unat a \<or> 1024 * unat a + 1024 \<le> s"
  proof (cases "n = 10")
    case False
    then have "block_of m oi Ind2 \<noteq> unat a" using I2(2) mid3(3) s by auto
    then show ?thesis using s j False by (auto simp: nat_neq_iff)
  qed (use s A(2) in auto)
  have inode: "ld32 ?m5 v = ld32 m v" if "oi \<le> v" "v + 4 \<le> oi + 64" "n = 10 \<longrightarrow> v \<noteq> oi + 56" "4 dvd v" for v
  proof -
    have "ld32 ?m5 v = ld32 ?m4 v" using that A(2) by (intro ld32_st32_apart) simp
    also have "\<dots> = ld32 m3 v" using that s I2(1) s_align by (intro ld32_st32_aligned) auto
    also have "\<dots> = ld32 m v"
      using grab_inode [OF fok start grab(1)] grab_inode [OF fok mid2(1) grab(2)] that by simp
    finally show ?thesis .
  qed
  have dvd: "4 dvd oi + 4 * i" for i using file_inode(4) [OF fok] by simp
  note frame = slot_frame(1) [of n ?m5 m oi, OF mid_facts(5) [OF mid5]]
  have slot_y: "slot ?m5 oi ?y = s"
    using y s frame [of Ind2] node_address [OF fok, of Ind2] inode [of "oi + 60"] dvd [of 15]
    by (auto simp: oi_indirect2_def)
  have "s + 4 \<le> ?w \<or> ?w + 4 \<le> s" using s_apart k(1) by linarith
  then have s_val: "ld32 ?m5 s = a" by (simp only: ld32_st32_apart ld32_st32_same)
  then have y_val: "block_of ?m5 oi ?y = unat a" using slot_y by (simp add: block_of_def del: parent.simps)
  have "slot ?m5 oi (Data n) = ?w"
    using slot_under [OF k(2), of ?m5 oi] slot_y s_val A(1) by (simp del: parent.simps offset.simps slot.simps)
  then have n_val: "block_of ?m5 oi (Data n) = unat b"
    by (simp add: block_of_def ld32_st32_same del: slot.simps)
  have zero2: "m3 x = 0" if "in_block (unat b) x" for x
    by (rule grab_keeps_zeroes [OF fok mid2(1) grab(2) _ mid3(4) _ that]) (use mid3(2) grabbed_zeroes [OF grab(1)] in auto)
  have s_block: "s + 4 \<le> oi + 64 \<or> in_block (block_of m oi Ind2) s \<and> block_of m oi Ind2 \<noteq> unat b"
    using s j I2(2) mid3(4) by (auto simp: in_block_def)
  show ?thesis
  proof (rule linkedI [OF mid5])
    show "ptrs_clear ?m5 oi (Suc n)"
    proof (rule ptrs_clear_step [OF clear])
      show "block_of ?m5 oi (Sub i) = 0" if "266 \<le> n" "i < 256" "n < 266 + 256 * i" for i
      proof -
        have big: "266 < n" and ind2: "Ind2 \<in> nodes n" using that(1) n(2) by auto
        let ?v = "1024 * block_of m oi Ind2 + 4 * i"
        have "i \<noteq> (n - 266) div 256"
        proof
          assume "i = (n - 266) div 256"
          then have "256 * i \<le> n - 266" by simp
          then show False using that by linarith
        qed
        then have "s \<noteq> ?v" using s big by auto
        have "block_of m oi Ind2 \<noteq> unat a" using I2(2) [OF big] mid3(3) by metis
        then have "ld32 ?m5 ?v = ld32 ?m4 ?v" using k(1) that(2) by (intro ld32_st32_apart) linarith
        also have "\<dots> = ld32 m3 ?v" using \<open>s \<noteq> ?v\<close> s_align by (intro ld32_st32_aligned) auto
        also have "\<dots> = ld32 m2 ?v" by (rule grab_pointer_word [OF fok mid2(1) grab(2) ind2 that(2)])
        also have "\<dots> = ld32 m ?v" by (rule grab_pointer_word [OF fok start grab(1) ind2 that(2)])
        also have "\<dots> = 0" using clear_words [OF fok clear big that(2)] that(3) by simp
        finally have "ld32 ?m5 ?v = 0" .
        moreover have "slot ?m5 oi (Sub i) = ?v"
          using inode [of "oi + 60"] dvd [of 15] node_address [OF fok ind2] by (simp add: oi_indirect2_def)
        ultimately show ?thesis by (simp add: block_of_def del: slot.simps)
      qed
    qed (use inode [of "oi + 56"] inode [of "oi + 60"] dvd [of 14] dvd [of 15] s in
        \<open>auto simp: oi_indirect_def oi_indirect2_def\<close>)
    show "?m5 x = 0" if "in_block (block_of ?m5 oi (Data n)) x" for x
    proof -
      have x: "in_block (unat b) x" using that unfolding n_val .
      have "?m5 x = ?m4 x" using st32_other_block [of "unat a" ?w "unat b" x] x mid3(2) k(1) by simp
      also have "\<dots> = m3 x" using s_block
      proof
        assume "s + 4 \<le> oi + 64"
        then show ?thesis using x B(2) by (intro st32_other_byte) (simp add: in_block_def)
      qed (use st32_other_block [OF _ s_align x] in metis)
      finally show ?thesis using zero2 x by simp
    qed
  qed (use nodes n_val y_val mid3(2) inode dvd [of 0] dvd [of 1] dvd [of 2] dvd [of 3] in
      \<open>auto simp: oi_size_def oi_ftype_def simp del: parent.simps\<close>)
qed

lemma add_under_new_grows:
  assumes fok: "file_ok m oi n" and clear: "ptrs_clear m oi n" and n: "n < 65802" "n \<noteq> 266"
    and nodes: "new_nodes n = {Data n, parent (Data n)}"
    and s: "n = 10 \<and> s = oi + 56 \<or> 266 < n \<and> s = 1024 * block_of m oi Ind2 + 4 * ((n - 266) div 256)"
    and grab: "grabbed m b m2" "grabbed m2 a m3"
  shows "\<exists>m'. bump_size oi (st32 (st32 m3 s a) (1024 * unat a + 4 * offset (Data n)) b) = (Inr (), m') \<and>
    grows m oi n m'"
  by (rule bump_grows [OF fok _ add_under_new_linked [OF fok clear n nodes s grab]]) (use n in simp)

section \<open>The first block under the doubly indirect block\<close>

lemma n266_slots:
  assumes fok: "file_ok m oi n" and x: "x \<in> nodes n" and n: "n = 266"
  shows "slot m oi x + 4 \<le> oi + 60 \<or> (\<exists>k < 256. slot m oi x = 1024 * block_of m oi Ind + 4 * k)"
  using x
proof (cases rule: nodes_cases)
  case (single b)
  then show ?thesis using node_address [OF fok single(5)] by (auto simp: oi_indirect_def)
qed (use n in auto)

lemma add_first_double_linked:
  assumes fok: "file_ok m oi n" and clear: "ptrs_clear m oi n" and n: "n = 266"
    and grab: "grabbed m b m2" "grabbed m2 c m3" "grabbed (st32 m3 (oi + 60) c) a m5"
  shows "linked m oi n (unat b) (st32 (st32 m5 (1024 * unat c) a) (1024 * unat a) b)"
proof -
  let ?m4 = "st32 m3 (oi + 60) c" and ?m6 = "st32 m5 (1024 * unat c) a"
  let ?m7 = "st32 (st32 m5 (1024 * unat c) a) (1024 * unat a) b"
  note start = mid_start [OF fok]
  note mid2 = mid_grab [OF fok start grab(1)]
  note mid3 = two_grabs [OF fok grab(1) mid2(1) grab(2)]
  have dvd: "4 dvd oi + 4 * i" for i using file_inode(4) [OF fok] by simp
  have ind: "Ind \<in> nodes n" using n by simp
  have I: "oi + 64 \<le> 1024 * block_of m oi Ind"
    by (rule file_inode(5) [OF fok file_block_facts(1) [OF fok ind]])
  have mid4: "mid m oi n {unat c, unat b} ?m4"
  proof (rule mid_poke [OF fok mid3(1)])
    show "own_bytes m oi n (oi + 60)" by (intro own_inode) simp_all
    show "4 dvd oi + 60" using dvd [of 15] by simp
    show "slot m oi x \<noteq> oi + 60" if "x \<in> nodes n" for x
      using n266_slots [OF fok that n] I by auto
  qed
  note mid5 = mid_grab [OF fok mid4 grab(3)]
  have free: "unat a \<in> free_set m" "unat b \<in> free_set m" "unat c \<in> free_set m"
    "unat a \<noteq> unat b" "unat a \<noteq> unat c" "unat b \<noteq> unat c"
    using mid5 mid3 by auto
  note A = free_block_facts [OF fok free(1)] and B = free_block_facts [OF fok free(2)]
    and C = free_block_facts [OF fok free(3)]
  have mid6: "mid m oi n (insert (unat a) {unat c, unat b}) ?m6"
  proof (rule mid_poke [OF fok mid5(1)])
    show "own_bytes m oi n (1024 * unat c)" by (intro own_free [OF free(3)]) simp
    show "slot m oi x \<noteq> 1024 * unat c" if "x \<in> nodes n" for x
      using slot_not_free_word [OF fok that free(3), of 0] by simp
  qed simp
  have mid7: "mid m oi n (insert (unat a) {unat c, unat b}) ?m7"
  proof (rule mid_poke [OF fok mid6])
    show "own_bytes m oi n (1024 * unat a)" by (intro own_free [OF free(1)]) simp
    show "slot m oi x \<noteq> 1024 * unat a" if "x \<in> nodes n" for x
      using slot_not_free_word [OF fok that free(1), of 0] by simp
  qed simp
  have inode: "ld32 ?m7 v = ld32 ?m4 v" if "oi \<le> v" "v + 4 \<le> oi + 64" for v
    using that A(2) C(2) grab_inode [OF fok mid4 grab(3) that] by (simp add: ld32_st32_apart)
  have old: "ld32 ?m4 v = ld32 m v" if "oi \<le> v" "v + 4 \<le> oi + 60" for v
    using that grab_inode [OF fok start grab(1)] grab_inode [OF fok mid2(1) grab(2)]
    by (simp add: ld32_st32_apart)
  have ind2: "oi_indirect2 ?m7 oi = c" using inode [of "oi + 60"] by (simp add: oi_indirect2_def ld32_st32_same)
  have apart: "1024 * unat c + 1024 \<le> 1024 * unat a \<or> 1024 * unat a + 1024 \<le> 1024 * unat c"
    using free(5) by linarith
  have sub: "slot ?m7 oi (Sub j) = 1024 * unat c + 4 * j" for j using ind2 C(1) by simp
  have "1024 * unat c + 4 \<le> 1024 * unat a \<or> 1024 * unat a + 4 \<le> 1024 * unat c" using apart by linarith
  then have sub0: "ld32 ?m7 (1024 * unat c) = a" by (simp only: ld32_st32_apart ld32_st32_same)
  have slot_n: "slot ?m7 oi (Data n) = 1024 * unat a"
    using n ind2 C(1) sub0 A(1) by simp
  have vals: "block_of ?m7 oi Ind2 = unat c" "block_of ?m7 oi (Sub 0) = unat a"
    "block_of ?m7 oi (Data n) = unat b"
    using ind2 sub [of 0] sub0 slot_n
    by (simp_all add: block_of_def oi_indirect2_def ld32_st32_same del: slot.simps(1,4))
  have nodes: "new_nodes n = {Data n, Ind2, Sub 0}" using n by (auto simp: new_nodes_def)
  have end_eq: "freemap_end ?m4 = freemap_end m" using super_eq_simps(2) [OF mid_facts(2) [OF mid4]] .
  have zero3: "m3 x = 0" if "in_block (unat b) x" for x
    by (rule grab_keeps_zeroes [OF fok mid2(1) grab(2) _ free(2) _ that])
      (use free(6) grabbed_zeroes [OF grab(1)] in auto)
  have inode_end: "st32 m3 (oi + 60) c x = m3 x" if "oi + 64 \<le> x" for x
    using that by (intro st32_other_byte) simp
  have zero5: "m5 x = 0" if x: "in_block (unat b) x" for x
  proof (rule grab_keeps_zeroes [OF fok mid4 grab(3) _ free(2) _ x])
    show "?m4 z = 0" if "in_block (unat b) z" for z
      using zero3 [OF that] inode_end [of z] B(2) that by (simp add: in_block_def)
  qed (use free(4) in auto)
  show ?thesis
  proof (rule linkedI [OF mid7])
    show "insert (unat a) {unat c, unat b} = block_of ?m7 oi ` new_nodes n"
      using vals unfolding nodes by (simp add: insert_commute)
    show "inj_on (block_of ?m7 oi) (new_nodes n)" using vals free(4-6) unfolding nodes by simp
    show "block_of ?m7 oi (Data n) = unat b" by (rule vals(3))
    show "oi_size ?m7 oi = oi_size m oi" "oi_ftype ?m7 oi = oi_ftype m oi"
      "ld32 ?m7 (oi + 8) = ld32 m (oi + 8)" "ld32 ?m7 (oi + 12) = ld32 m (oi + 12)"
      using inode old by (simp_all add: oi_size_def oi_ftype_def)
    show "ptrs_clear ?m7 oi (Suc n)"
    proof (rule ptrs_clear_step [OF clear])
      show "block_of ?m7 oi (Sub j) = 0" if "266 \<le> n" "j < 256" "n < 266 + 256 * j" for j
      proof -
        have j: "0 < j" using that n by auto
        let ?v = "1024 * unat c + 4 * j"
        have "?v + 4 \<le> 1024 * unat a \<or> 1024 * unat a + 4 \<le> ?v" using that(2) apart by linarith
        moreover have "?v + 4 \<le> 1024 * unat c \<or> 1024 * unat c + 4 \<le> ?v" using j by simp
        ultimately have "ld32 ?m7 ?v = ld32 m5 ?v" by (simp only: ld32_st32_apart)
        also have "\<dots> = ld32 ?m4 ?v"
        proof (rule grabbed_ld32 [OF grab(3)])
          show "freemap_end ?m4 \<le> ?v" using C(2) file_inode(3) [OF fok] unfolding end_eq by linarith
          show "?v + 4 \<le> 1024 * unat a \<or> 1024 * unat a + 1024 \<le> ?v" using that(2) apart by linarith
        qed
        also have "\<dots> = ld32 m3 ?v" using C(2) by (intro ld32_st32_apart) simp
        also have "\<dots> = 0" by (rule grabbed_zero [OF grab(2)]) (use that(2) in simp_all)
        finally show ?thesis using sub [of j] by (simp add: block_of_def del: slot.simps)
      qed
    qed (use n in auto)
    show "?m7 x = 0" if "in_block (block_of ?m7 oi (Data n)) x" for x
    proof -
      have x: "in_block (unat b) x" using that unfolding vals .
      have "?m7 x = ?m6 x" using st32_other_block [of "unat a" "1024 * unat a" "unat b" x] x free(4) by simp
      also have "\<dots> = m5 x" using st32_other_block [of "unat c" "1024 * unat c" "unat b" x] x free(6) by simp
      finally show ?thesis using zero5 [OF x] by simp
    qed
  qed
qed

lemma add_first_double_grows:
  assumes fok: "file_ok m oi n" and clear: "ptrs_clear m oi n" and n: "n = 266"
    and grab: "grabbed m b m2" "grabbed m2 c m3" "grabbed (st32 m3 (oi + 60) c) a m5"
  shows "\<exists>m'. bump_size oi (st32 (st32 m5 (1024 * unat c) a) (1024 * unat a) b) = (Inr (), m') \<and>
    grows m oi n m'"
  by (rule bump_grows [OF fok _ add_first_double_linked [OF fok clear n grab]]) (use n in simp)

section \<open>add\_block\<close>

lemma free_left:
  "grabbed m b m2 \<Longrightarrow> 2 \<le> card (free_set m) \<Longrightarrow> free_set m2 \<noteq> {}"
  using grabbed_facts(5) [of m b m2] by (cases "free_set m2 = {}") auto

lemma pointer_zero:
  assumes "file_ok m oi n" "x \<in> nodes n"
  shows "ld32 m (slot m oi x) \<noteq> 0"
  using data_block_pos [OF file_inode(1) [OF assms(1)] file_block_facts(1) [OF assms]]
  by (auto simp: block_of_def)

lemma add_indirect_grows:
  assumes fok: "file_ok m oi n" and clear: "ptrs_clear m oi n" and n: "10 \<le> n" "n < 266"
    and N: "unat N = n" and room: "card (new_nodes n) \<le> card (free_set m)" and grab: "grabbed m b m2"
  shows "\<exists>m'. add_indirect oi N b m2 = (Inr (), m') \<and> grows m oi n m'"
proof -
  note start = mid_start [OF fok]
  note mid2 = mid_grab [OF fok start grab]
  have par: "parent (Data n) = Ind" "offset (Data n) = n - 10" using n by simp_all
  have "direct_index N = int n - 10" using n N by (simp add: direct_index_eq)
  then have idx: "ptr_at p (direct_index N) = p + 4 * (n - 10)" for p
    using n(1) by (simp add: ptr_at_def)
  have ind2: "oi_indirect m2 oi = oi_indirect m oi"
    using grab_inode [OF fok start grab, of "oi + 56"] by (simp add: oi_indirect_def)
  show ?thesis
  proof (cases "n = 10")
    case True
    then have zero: "oi_indirect m2 oi = 0" using clear ind2 by (simp add: ptrs_clear_def)
    have nodes: "new_nodes n = {Data n, parent (Data n)}" using True by (auto simp: new_nodes_def)
    then have "2 \<le> card (free_set m)" using room par by simp
    then have "free_set m2 \<noteq> {}" by (rule free_left [OF grab])
    then obtain a m1 where a: "allocate_block m2 = (a, m1)" "a \<noteq> 0" "grabbed m2 a (zero_out_block a m1)"
      by (rule OspfsGrow.grab [OF mid_facts(1) [OF mid2(1)]])
    let ?m3 = "zero_out_block a m1"
    have mid3: "unat a \<in> free_set m" using two_grabs(3) [OF fok grab mid2(1) a(3)] .
    have "oi_indirect (set_indirect oi a ?m3) oi = a"
      by (simp add: oi_indirect_def set_indirect_def ld32_st32_same)
    then have "add_indirect oi N b m2 =
        bump_size oi (st32 (st32 ?m3 (oi + 56) a) (1024 * unat a + 4 * offset (Data n)) b)"
      using zero a(1,2) free_block_facts(1) [OF fok mid3] idx par
      by (simp add: add_indirect_def Let_def set_indirect_def)
    then show ?thesis
      using add_under_new_grows [OF fok clear _ _ nodes _ grab a(3), of "oi + 56"] True by simp
  next
    case False
    then have big: "10 < n" and indn: "Ind \<in> nodes n" using n by auto
    have "oi_indirect m2 oi \<noteq> 0" using pointer_zero [OF fok indn] ind2 by (simp add: oi_indirect_def)
    moreover have "ospfs_block (oi_indirect m2 oi) = 1024 * block_of m oi Ind"
      using node_address [OF fok indn] ind2 by (simp add: oi_indirect_def)
    ultimately have "add_indirect oi N b m2 =
        bump_size oi (st32 m2 (1024 * block_of m oi (parent (Data n)) + 4 * offset (Data n)) b)"
      using idx par by (simp add: add_indirect_def Let_def)
    moreover have "new_nodes n = {Data n}" using n False by (auto simp: new_nodes_def)
    ultimately show ?thesis
      using add_under_old_grows [OF fok clear big _ _ _ grab] n indn par by simp
  qed
qed

lemma add_indirect2_grows:
  assumes fok: "file_ok m oi n" and clear: "ptrs_clear m oi n" and n: "266 \<le> n" "n < 65802"
    and N: "unat N = n" and room: "card (new_nodes n) \<le> card (free_set m)" and grab: "grabbed m b m2"
  shows "\<exists>m'. add_indirect2 oi N b m2 = (Inr (), m') \<and> grows m oi n m'"
proof -
  let ?j = "(n - 266) div 256"
  note start = mid_start [OF fok]
  note mid2 = mid_grab [OF fok start grab]
  have par: "parent (Data n) = Sub ?j" "offset (Data n) = (n - 266) mod 256" using n by simp_all
  have j: "?j < 256" using n by linarith
  have idx: "ptr_at p (direct_index N) = p + 4 * offset (Data n)" "ptr_at p (indir_index N) = p + 4 * ?j" for p
    using n N par by (simp_all add: direct_index_eq indir_index_eq)
  have ind2: "oi_indirect2 m2 oi = oi_indirect2 m oi"
    using grab_inode [OF fok start grab, of "oi + 60"] by (simp add: oi_indirect2_def)
  show ?thesis
  proof (cases "n = 266")
    case True
    then have zero: "oi_indirect2 m2 oi = 0" using clear ind2 by (simp add: ptrs_clear_def)
    have "new_nodes n = {Data n, Ind2, Sub 0}" using True by (auto simp: new_nodes_def)
    then have room3: "3 \<le> card (free_set m)" using room by simp
    then have "free_set m2 \<noteq> {}" using free_left [OF grab] by simp
    then obtain c m1 where c: "allocate_block m2 = (c, m1)" "c \<noteq> 0" "grabbed m2 c (zero_out_block c m1)"
      by (rule OspfsGrow.grab [OF mid_facts(1) [OF mid2(1)]])
    let ?m3 = "zero_out_block c m1" let ?m4 = "st32 ?m3 (oi + 60) c"
    note mid3 = two_grabs [OF fok grab mid2(1) c(3)]
    note C = free_block_facts [OF fok mid3(3)]
    have high: "freemap_end ?m3 \<le> oi + 60"
      using file_inode(3) [OF fok] super_eq_simps(2) [OF mid_facts(2) [OF mid3(1)]] by simp
    note poke4 = poke [OF mid_facts(1) [OF mid3(1)] high, of c]
    have "2 \<le> card (free_set m2)" using grabbed_facts(5) [OF grab] room3 by simp
    then have "free_set ?m4 \<noteq> {}" using free_left [OF c(3)] poke4(2) by simp
    then obtain a m1' where a: "allocate_block ?m4 = (a, m1')" "a \<noteq> 0" "grabbed ?m4 a (zero_out_block a m1')"
      by (rule OspfsGrow.grab [OF poke4(3)])
    have ind4: "oi_indirect2 ?m4 oi = c" by (simp add: oi_indirect2_def ld32_st32_same)
    have slot4: "ld32 ?m4 (1024 * unat c) = 0"
    proof -
      have "ld32 ?m4 (1024 * unat c) = ld32 ?m3 (1024 * unat c)"
        using C(2) by (intro ld32_st32_apart) simp
      then show ?thesis using grabbed_zero [OF c(3), of "1024 * unat c"] by simp
    qed
    have "unat a \<in> free_set ?m4" using grabbed_facts(4) [OF a(3)] .
    then have "unat a \<in> free_set m"
      using poke4(2) grabbed_facts(3) [OF c(3)] grabbed_facts(3) [OF grab] by auto
    note A = free_block_facts [OF fok this]
    have "add_indirect2 oi N b m2 =
        bump_size oi (st32 (st32 (zero_out_block a m1') (1024 * unat c) a) (1024 * unat a) b)"
      using zero c(1,2) a(1,2) ind4 slot4 A(1) C(1) idx True par
      by (simp add: add_indirect2_def add_indirect2_slot_def Let_def set_indirect2_def)
    then show ?thesis using add_first_double_grows [OF fok clear True grab c(3) a(3)] by simp
  next
    case False
    then have big: "266 < n" and ind2n: "Ind2 \<in> nodes n" using n by auto
    let ?s = "1024 * block_of m oi Ind2 + 4 * ?j"
    have nz: "oi_indirect2 m2 oi \<noteq> 0" using pointer_zero [OF fok ind2n] ind2 by (simp add: oi_indirect2_def)
    have addr2: "ospfs_block (oi_indirect2 m2 oi) = 1024 * block_of m oi Ind2"
      using node_address [OF fok ind2n] ind2 by (simp add: oi_indirect2_def)
    have word2: "ld32 m2 ?s = ld32 m ?s" by (rule grab_pointer_word [OF fok start grab ind2n j])
    have slot_j: "slot m oi (Sub ?j) = ?s"
      using node_address [OF fok ind2n] by (simp add: oi_indirect2_def)
    show ?thesis
    proof (cases "(n - 266) mod 256 = 0")
      case True
      then have "266 + 256 * ?j = n" using n by auto
      then have zero: "ld32 m2 ?s = 0" using clear_words [OF fok clear big j] word2 by simp
      have nodes: "new_nodes n = {Data n, parent (Data n)}"
        using True False n by (auto simp: new_nodes_def)
      then have "2 \<le> card (free_set m)" using room par by simp
      then have "free_set m2 \<noteq> {}" by (rule free_left [OF grab])
      then obtain a m1 where a: "allocate_block m2 = (a, m1)" "a \<noteq> 0" "grabbed m2 a (zero_out_block a m1)"
        by (rule OspfsGrow.grab [OF mid_facts(1) [OF mid2(1)]])
      note A = free_block_facts [OF fok two_grabs(3) [OF fok grab mid2(1) a(3)]]
      have "add_indirect2 oi N b m2 =
          bump_size oi (st32 (st32 (zero_out_block a m1) ?s a) (1024 * unat a + 4 * offset (Data n)) b)"
        using nz addr2 zero a(1,2) A(1) idx
        by (simp add: add_indirect2_def add_indirect2_slot_def Let_def del: offset.simps)
      then show ?thesis
        using add_under_new_grows [OF fok clear n(2) False nodes _ grab a(3), of ?s] big by simp
    next
      case sub: False
      have "256 * ?j + (n - 266) mod 256 = n - 266" by simp
      then have "266 + 256 * ?j < n" using sub n by linarith
      then have mem: "Sub ?j \<in> nodes n" by simp
      have "ld32 m2 ?s \<noteq> 0" using pointer_zero [OF fok mem] word2 slot_j by simp
      moreover have "ospfs_block (ld32 m2 ?s) = 1024 * block_of m oi (Sub ?j)"
        using node_address [OF fok mem] word2 slot_j by simp
      ultimately have "add_indirect2 oi N b m2 =
          bump_size oi (st32 m2 (1024 * block_of m oi (parent (Data n)) + 4 * offset (Data n)) b)"
        using nz addr2 idx par
        by (simp add: add_indirect2_def add_indirect2_slot_def Let_def del: offset.simps)
      moreover have "new_nodes n = {Data n}" using sub False n by (auto simp: new_nodes_def)
      ultimately show ?thesis
        using add_under_old_grows [OF fok clear _ n(2) _ _ grab] n mem par by simp
    qed
  qed
qed


text \<open>An empty file, inode 1 of the small disk.\<close>

lemma small_disk_empty_file:
  assumes "\<forall>b \<in> set bs. 4 \<le> b \<and> b < 64"
  shows "file_ok (small_disk bs) 3136 0" "ptrs_clear (small_disk bs) 3136 0" "oi_size (small_disk bs) 3136 = 0"
proof -
  have lt: "\<forall>b \<in> set bs. b < 64" using assms by simp
  have "inode_ok (small_disk bs) 3136"
    unfolding inode_ok_def small_disk_super [OF lt] by (rule exI [of _ 1]) simp
  moreover have "nodes 0 = {}" by (auto simp: nodes_def elim: in_file.elims)
  ultimately show "file_ok (small_disk bs) 3136 0" using small_disk_ok(1) [OF assms] by (simp add: file_ok_def)
  show "ptrs_clear (small_disk bs) 3136 0" "oi_size (small_disk bs) 3136 = 0"
    using small_disk_zero [OF lt] by (simp_all add: ptrs_clear_def oi_indirect_def oi_indirect2_def oi_size_def)
qed


end
