(* ===== verification/OspfsData.thy ===== *)
theory OspfsData
  imports OspfsAddBlock
begin

text \<open>
  Reading and writing OSPFS file data: the bytes of a well-formed file through its block
  tree, what \<open>ospfs_read\<close> copies out of them and what \<open>ospfs_write\<close> leaves in them.
\<close>

section \<open>The bytes of a file\<close>

definition byte_addr :: "mem \<Rightarrow> nat \<Rightarrow> nat \<Rightarrow> nat" where
  "byte_addr m oi i = 1024 * block_of m oi (Data (i div 1024)) + i mod 1024"

definition file_bytes :: "mem \<Rightarrow> nat \<Rightarrow> nat \<Rightarrow> nat \<Rightarrow> u8 list" where
  "file_bytes m oi i len = List.map (\<lambda>k. m (byte_addr m oi k)) [i ..< i + len]"

text \<open>A file with data blocks for all its bytes.\<close>

definition data_file :: "mem \<Rightarrow> nat \<Rightarrow> nat \<Rightarrow> bool" where
  "data_file m oi n \<longleftrightarrow> file_ok m oi n \<and> oi_ftype m oi \<noteq> OSPFS_FTYPE_SYMLINK \<and> unat (oi_size m oi) \<le> 1024 * n"

lemma length_file_bytes [simp]: "length (file_bytes m oi i len) = len"
  by (simp add: file_bytes_def)

lemma nth_file_bytes [simp]: "k < len \<Longrightarrow> file_bytes m oi i len ! k = m (byte_addr m oi (i + k))"
  by (simp add: file_bytes_def)

lemma file_bytes_append: "file_bytes m oi i a @ file_bytes m oi (i + a) b = file_bytes m oi i (a + b)"
proof -
  have "[i ..< i + (a + b)] = [i ..< i + a] @ [i + a ..< i + a + b]"
    using upt_add_eq_append [of i "i + a" b] by (simp add: add.assoc)
  then show ?thesis by (simp add: file_bytes_def)
qed

lemma mem_put_append: "mem_put (mem_put u a xs) (a + length xs) ys = mem_put u a (xs @ ys)"
  by (rule ext) (auto simp: mem_put_def nth_append)

lemma inode_blockno_slot:
  assumes "data_file m oi n" "i < unat (oi_size m oi)"
  shows "ospfs_inode_blockno m oi (of_nat i) = ld32 m (slot m oi (Data (i div 1024)))"
    "ospfs_inode_blockno m oi (of_nat i) \<noteq> 0" "Data (i div 1024) \<in> nodes n"
proof -
  have i: "i < 4294967296" using assms(2) unat_u32_less [of "oi_size m oi"] by linarith
  have u: "unat (of_nat i :: u32) = i" using i by (simp add: unat_of_nat take_bit_nat_eq_self)
  have "unat (of_nat i div 1024 :: u32) = i div 1024" using u by (simp add: unat_div)
  moreover have "\<not> oi_size m oi \<le> of_nat i" using assms(2) u by (simp add: word_le_nat_alt)
  ultimately show eq: "ospfs_inode_blockno m oi (of_nat i) = ld32 m (slot m oi (Data (i div 1024)))"
    using assms(1) by (simp add: ospfs_inode_blockno_def data_file_def oi_direct_def Let_def)
  have "i div 1024 < n" using assms by (simp add: data_file_def) linarith
  then show node: "Data (i div 1024) \<in> nodes n" by simp
  show "ospfs_inode_blockno m oi (of_nat i) \<noteq> 0"
    unfolding eq using pointer_zero [OF _ node] assms(1) by (simp add: data_file_def)
qed

lemma inode_data_addr:
  assumes "data_file m oi n" "i < unat (oi_size m oi)"
  shows "ospfs_block (ospfs_inode_blockno m oi (of_nat i)) + i mod 1024 = byte_addr m oi i"
  using assms node_address [of m oi n "Data (i div 1024)"] inode_blockno_slot [OF assms]
  by (simp add: data_file_def byte_addr_def del: slot.simps)

text \<open>A chunk does not leave its block.\<close>

lemma chunk_in_block: "k < chunk left i \<Longrightarrow> (i + k) div 1024 = i div 1024 \<and> (i + k) mod 1024 = i mod 1024 + k"
proof -
  assume k: "k < chunk left i"
  have "i mod 1024 < 1024" by simp
  then have small: "i mod 1024 + k < 1024" using k unfolding chunk_def min_less_iff_conj by linarith
  have "i + k = 1024 * (i div 1024) + (i mod 1024 + k)" by simp
  then show ?thesis using small by (metis div_mult_self4 div_less add_0_right mod_less mod_mult_self4 zero_neq_numeral
      add.commute mult.commute)
qed

lemma byte_addr_chunk:
  "k < chunk left i \<Longrightarrow> byte_addr m oi (i + k) = byte_addr m oi i + k"
  using chunk_in_block [of k left i] by (simp add: byte_addr_def)

lemma mem_get_chunk: "mem_get m (byte_addr m oi i) (chunk left i) = file_bytes m oi i (chunk left i)"
  by (rule nth_equalityI) (simp_all add: byte_addr_chunk)

section \<open>Reading\<close>

lemma read_loop_bytes:
  assumes "data_file m oi n" "\<And>a k. user_ok a k" "f_pos + left \<le> unat (oi_size m oi)"
  shows "read_loop user_ok m oi buffer left f_pos u =
    (None, f_pos + left, mem_put u buffer (file_bytes m oi f_pos left))"
  using assms(3)
proof (induction left arbitrary: buffer f_pos u rule: less_induct)
  case (less left)
  show ?case
  proof (cases "left = 0")
    case True
    have "mem_put u buffer [] = u" by (rule ext) (auto simp: mem_put_def)
    then show ?thesis using True by (subst read_loop.simps) (simp add: file_bytes_def)
  next
    case False
    let ?n = "chunk left f_pos"
    have pos: "f_pos < unat (oi_size m oi)" using less.prems False by simp
    note addr = inode_data_addr [OF assms(1) pos]
    let ?u' = "mem_put u buffer (file_bytes m oi f_pos ?n)"
    have "read_loop user_ok m oi buffer left f_pos u =
        read_loop user_ok m oi (buffer + ?n) (left - ?n) (f_pos + ?n) ?u'"
      using False inode_blockno_slot(2) [OF assms(1) pos] assms(2)
      by (subst read_loop.simps) (simp add: Let_def addr mem_get_chunk)
    also have "\<dots> = (None, f_pos + ?n + (left - ?n),
        mem_put ?u' (buffer + ?n) (file_bytes m oi (f_pos + ?n) (left - ?n)))"
    proof (rule less.IH)
      show "left - ?n < left" using False chunk_pos [of left f_pos] by simp
      show "f_pos + ?n + (left - ?n) \<le> unat (oi_size m oi)" using less.prems chunk_le [of left f_pos] by linarith
    qed
    also have "mem_put ?u' (buffer + ?n) (file_bytes m oi (f_pos + ?n) (left - ?n)) =
        mem_put u buffer (file_bytes m oi f_pos left)"
      using mem_put_append [of u buffer "file_bytes m oi f_pos ?n"] file_bytes_append [of m oi f_pos ?n "left - ?n"]
      by simp
    finally show ?thesis by simp
  qed
qed


text \<open>The empty file of the small disk reads as empty, and behind its end as an error.\<close>

lemma small_disk_data_file:
  assumes "\<forall>b \<in> set bs. 4 \<le> b \<and> b < 64"
  shows "data_file (small_disk bs) 3136 0"
proof -
  have "oi_ftype (small_disk bs) 3136 = 0"
    using small_disk_zero [of bs] assms by (simp add: oi_ftype_def)
  then show ?thesis using small_disk_empty_file [OF assms]
    by (simp add: data_file_def OSPFS_FTYPE_SYMLINK_def)
qed


section \<open>Writing\<close>

text \<open>Bytes written into one data block of the file leave the block tree alone.\<close>

lemma data_put:
  assumes dfile: "data_file m oi n" and i: "i < unat (oi_size m oi)" and bs: "i mod 1024 + length bs \<le> 1024"
  defines "m' \<equiv> mem_put m (byte_addr m oi i) bs"
  shows "data_file m' oi n" "oi_size m' oi = oi_size m oi" "byte_addr m' oi k = (if k < 1024 * n then byte_addr m oi k else byte_addr m' oi k)"
    "free_set m' = free_set m"
proof -
  let ?b = "block_of m oi (Data (i div 1024))"
  have fok: "file_ok m oi n" using dfile by (simp add: data_file_def)
  have node: "Data (i div 1024) \<in> nodes n" by (rule inode_blockno_slot(3) [OF dfile i])
  have B: "oi + 64 \<le> 1024 * ?b" by (rule file_inode(5) [OF fok file_block_facts(1) [OF fok node]])
  have out: "m' x = m x" if "\<not> in_block ?b x" for x
    using that bs by (auto simp: m'_def mem_put_def byte_addr_def in_block_def)
  have word_out: "ld32 m' a = ld32 m a" if "a + 4 \<le> 1024 * ?b \<or> 1024 * ?b + 1024 \<le> a" for a
    by (rule ld32_cong; rule out; use that in \<open>auto simp: in_block_def\<close>)
  have low: "m' x = m x" if "x < freemap_end m" for x
    using that B file_inode(3) [OF fok] by (intro out) (simp add: in_block_def)
  note low = low_cong [OF file_inode(1) [OF fok] low]
  have slots: "ld32 m' (slot m oi x) = ld32 m (slot m oi x)" if x: "x \<in> nodes n" for x
  proof (rule word_out)
    consider "slot m oi x + 4 \<le> oi + 64"
      | y where "y \<in> nodes n" "\<forall>b. y \<noteq> Data b" "1024 * block_of m oi y \<le> slot m oi x"
        "slot m oi x + 4 \<le> 1024 * block_of m oi y + 1024"
      using slot_place [OF fok x] by blast
    then show "slot m oi x + 4 \<le> 1024 * ?b \<or> 1024 * ?b + 1024 \<le> slot m oi x"
    proof cases
      case (2 y)
      then have "block_of m oi y \<noteq> ?b" using fok node by (auto simp: file_ok_def dest: inj_onD)
      then show ?thesis using 2 by linarith
    qed (use B in linarith)
  qed
  note frame = slot_frame [of n m' m oi, OF slots]
  show free: "free_set m' = free_set m" by (rule low(2))
  have "inj_on (block_of m' oi) (nodes n)" using fok frame(2) by (simp add: file_ok_def cong: inj_on_cong)
  then have "file_ok m' oi n"
    using fok low frame(2) super_eq_simps [OF low(1)] by (simp add: file_ok_def)
  moreover have inode: "oi_size m' oi = oi_size m oi" "oi_ftype m' oi = oi_ftype m oi"
    using B word_out by (simp_all add: oi_size_def oi_ftype_def)
  ultimately show "data_file m' oi n" using dfile by (simp add: data_file_def)
  show "oi_size m' oi = oi_size m oi" by (rule inode)
  have "byte_addr m' oi k = byte_addr m oi k" if "k < 1024 * n"
    using frame(2) [of "Data (k div 1024)"] that by (simp add: byte_addr_def less_mult_imp_div_less mult.commute)
  then show "byte_addr m' oi k = (if k < 1024 * n then byte_addr m oi k else byte_addr m' oi k)" by simp
qed

lemma byte_addr_inj:
  assumes "file_ok m oi n" "i < 1024 * n" "j < 1024 * n" "byte_addr m oi i = byte_addr m oi j"
  shows "i = j"
proof -
  have nodes: "Data (i div 1024) \<in> nodes n" "Data (j div 1024) \<in> nodes n"
    using assms(2,3) by (simp_all add: less_mult_imp_div_less mult.commute)
  have pos: "(1024 * b + k mod 1024) div 1024 = b" "(1024 * b + k mod 1024) mod 1024 = k mod 1024" for b k :: nat
    by simp_all
  have "block_of m oi (Data (i div 1024)) = block_of m oi (Data (j div 1024))" "i mod 1024 = j mod 1024"
    using assms(4) pos unfolding byte_addr_def by metis+
  then have "i div 1024 = j div 1024" using assms(1) nodes by (auto simp: file_ok_def dest: inj_onD)
  then show ?thesis using \<open>i mod 1024 = j mod 1024\<close> by (metis div_mult_mod_eq)
qed

text \<open>\<open>m'\<close> is \<open>m\<close> with \<open>bs\<close> in the file from position \<open>i\<close> on, and nothing else changed.\<close>

definition overwritten :: "mem \<Rightarrow> nat \<Rightarrow> nat \<Rightarrow> nat \<Rightarrow> u8 list \<Rightarrow> mem \<Rightarrow> bool" where
  "overwritten m oi n i bs m' \<longleftrightarrow> data_file m' oi n \<and> oi_size m' oi = oi_size m oi \<and> free_set m' = free_set m \<and>
     (\<forall>k < 1024 * n. byte_addr m' oi k = byte_addr m oi k) \<and>
     (\<forall>k < 1024 * n. m' (byte_addr m oi k) = (if i \<le> k \<and> k < i + length bs then bs ! (k - i) else m (byte_addr m oi k))) \<and>
     (\<forall>x. (\<forall>k < 1024 * n. x \<noteq> byte_addr m oi k) \<longrightarrow> m' x = m x)"

lemma overwritten_nil: "data_file m oi n \<Longrightarrow> overwritten m oi n i [] m"
  by (auto simp: overwritten_def)

lemma overwritten_append:
  assumes "overwritten m oi n i xs m1" "overwritten m1 oi n (i + length xs) ys m2"
  shows "overwritten m oi n i (xs @ ys) m2"
  using assms by (auto simp: overwritten_def nth_append)

lemma overwritten_chunk:
  assumes dfile: "data_file m oi n" and i: "i + length bs \<le> unat (oi_size m oi)" "bs \<noteq> []"
    and bs: "i mod 1024 + length bs \<le> 1024"
  shows "overwritten m oi n i bs (mem_put m (byte_addr m oi i) bs)"
proof -
  let ?m' = "mem_put m (byte_addr m oi i) bs"
  have lt: "i < unat (oi_size m oi)" using i by (cases bs) auto
  have fok: "file_ok m oi n" and size: "unat (oi_size m oi) \<le> 1024 * n"
    using dfile by (simp_all add: data_file_def)
  note put = data_put [OF dfile lt bs]
  have run: "byte_addr m oi (i + k) = byte_addr m oi i + k" if "k < length bs" for k
    using that bs by (intro byte_addr_chunk [of k "length bs"]) (simp add: chunk_def)
  have hit: "?m' (byte_addr m oi k) = (if i \<le> k \<and> k < i + length bs then bs ! (k - i) else m (byte_addr m oi k))"
    if k: "k < 1024 * n" for k
  proof (cases "i \<le> k \<and> k < i + length bs")
    case True
    then obtain d where d: "k = i + d" "d < length bs" by (metis le_add_diff_inverse nat_add_left_cancel_less)
    then show ?thesis using run [OF d(2)] by (simp add: mem_put_in)
  next
    case False
    have "\<not> (byte_addr m oi i \<le> byte_addr m oi k \<and> byte_addr m oi k < byte_addr m oi i + length bs)"
    proof
      assume in_range: "byte_addr m oi i \<le> byte_addr m oi k \<and> byte_addr m oi k < byte_addr m oi i + length bs"
      define d where "d = byte_addr m oi k - byte_addr m oi i"
      have "byte_addr m oi k = byte_addr m oi (i + d)" "d < length bs"
        using in_range run [of d] by (auto simp: d_def)
      then have "k = i + d" using byte_addr_inj [OF fok k] i(1) size by simp
      then show False using False \<open>d < length bs\<close> by simp
    qed
    then show ?thesis using False by (auto simp: mem_put_def)
  qed
  have miss: "?m' x = m x" if "\<forall>k < 1024 * n. x \<noteq> byte_addr m oi k" for x
  proof -
    have "\<not> (byte_addr m oi i \<le> x \<and> x < byte_addr m oi i + length bs)"
    proof
      assume in_range: "byte_addr m oi i \<le> x \<and> x < byte_addr m oi i + length bs"
      define d where "d = x - byte_addr m oi i"
      have d: "d < length bs" "x = byte_addr m oi i + d" using in_range by (auto simp: d_def)
      then have "x = byte_addr m oi (i + d)" using run [of d] by simp
      then show False using that d(1) i(1) size by (metis add_less_cancel_left le_trans less_le_trans)
    qed
    then show ?thesis by (auto simp: mem_put_def)
  qed
  have "\<forall>k < 1024 * n. byte_addr ?m' oi k = byte_addr m oi k" using put(3) by metis
  then show ?thesis using put(1,2,4) hit miss by (simp add: overwritten_def)
qed

lemma mem_get_append: "mem_get u a (x + y) = mem_get u a x @ mem_get u (a + x) y"
proof -
  have "[a ..< a + (x + y)] = [a ..< a + x] @ [a + x ..< a + x + y]"
    using upt_add_eq_append [of a "a + x" y] by (simp add: add.assoc)
  then show ?thesis by (simp add: mem_get_def)
qed

lemma write_loop_overwrites:
  assumes "data_file m oi n" "\<And>a k. user_ok a k" "f_pos + left \<le> unat (oi_size m oi)"
  shows "\<exists>m'. write_loop user_ok u oi buffer left f_pos m = (None, f_pos + left, m') \<and>
    overwritten m oi n f_pos (mem_get u buffer left) m'"
  using assms(1,3)
proof (induction left arbitrary: buffer f_pos m rule: less_induct)
  case (less left)
  show ?case
  proof (cases "left = 0")
    case True
    then show ?thesis using less.prems(1) overwritten_nil
      by (subst write_loop.simps) (simp add: mem_get_def)
  next
    case False
    let ?n = "chunk left f_pos"
    let ?bs = "mem_get u buffer ?n"
    have pos: "f_pos < unat (oi_size m oi)" using less.prems False by simp
    note addr = inode_data_addr [OF less.prems(1) pos]
    let ?m1 = "mem_put m (byte_addr m oi f_pos) ?bs"
    have step: "write_loop user_ok u oi buffer left f_pos m =
        write_loop user_ok u oi (buffer + ?n) (left - ?n) (f_pos + ?n) ?m1"
      using False inode_blockno_slot(2) [OF less.prems(1) pos] assms(2)
      by (subst write_loop.simps) (simp add: Let_def addr)
    have le: "?n \<le> left" "0 < ?n" using False by simp_all
    have fits: "f_pos + ?n \<le> unat (oi_size m oi)" using less.prems(2) le(1) by linarith
    have first: "overwritten m oi n f_pos ?bs ?m1"
    proof (rule overwritten_chunk [OF less.prems(1)])
      have "0 < length ?bs" using le(2) by simp
      then show "?bs \<noteq> []" by (metis length_greater_0_conv)
      show "f_pos mod 1024 + length ?bs \<le> 1024" by (simp add: chunk_def)
    qed (use fits in simp)
    have "\<exists>m'. write_loop user_ok u oi (buffer + ?n) (left - ?n) (f_pos + ?n) ?m1 =
        (None, f_pos + ?n + (left - ?n), m') \<and>
      overwritten ?m1 oi n (f_pos + ?n) (mem_get u (buffer + ?n) (left - ?n)) m'"
    proof (rule less.IH)
      show "data_file ?m1 oi n" using first by (simp add: overwritten_def)
      have "oi_size ?m1 oi = oi_size m oi" using first by (simp add: overwritten_def)
      then show "f_pos + ?n + (left - ?n) \<le> unat (oi_size ?m1 oi)" using less.prems(2) le by simp
      show "left - ?n < left" using le by linarith
    qed
    then obtain m' where m': "write_loop user_ok u oi (buffer + ?n) (left - ?n) (f_pos + ?n) ?m1 =
        (None, f_pos + left, m')"
      "overwritten ?m1 oi n (f_pos + ?n) (mem_get u (buffer + ?n) (left - ?n)) m'" using le by auto
    have "overwritten m oi n f_pos (?bs @ mem_get u (buffer + ?n) (left - ?n)) m'"
      by (rule overwritten_append [OF first]) (use m'(2) in simp)
    moreover have "?bs @ mem_get u (buffer + ?n) (left - ?n) = mem_get u buffer left"
      using mem_get_append [of u buffer ?n "left - ?n"] le by simp
    ultimately show ?thesis using step m'(1) by simp
  qed
qed

lemma overwritten_bytes:
  assumes "overwritten m oi n i bs m'" "i + length bs \<le> 1024 * n"
  shows "file_bytes m' oi i (length bs) = bs"
proof (rule nth_equalityI)
  fix k
  assume "k < length (file_bytes m' oi i (length bs))"
  then have k: "k < length bs" by simp
  then have "byte_addr m' oi (i + k) = byte_addr m oi (i + k)"
    "m' (byte_addr m oi (i + k)) = bs ! k" using assms by (simp_all add: overwritten_def)
  then show "file_bytes m' oi i (length bs) ! k = bs ! k" using k by simp
qed simp

text \<open>
  C6: writing inside a file and reading back. On a well-formed file \<open>ospfs_write\<close> of
  \<open>count\<close> bytes that end inside the file succeeds completely: those bytes of the file are now
  the user's, all other bytes of the file and of the disk, the size and the free set are
  unchanged, the file is still well formed, and \<open>ospfs_read\<close> at the same position gives
  back the bytes that were written.
\<close>

theorem ospfs_write_read_roundtrip:
  assumes dfile: "data_file m oi n" and user: "\<And>a k. user_ok a k"
    and range: "f_pos + count \<le> unat (oi_size m oi)" "0 < count"
  shows "\<exists>m'. ospfs_write user_ok False u oi buffer count f_pos m = Some (Inr count, f_pos + count, m') \<and>
    overwritten m oi n f_pos (mem_get u buffer count) m' \<and>
    ospfs_read user_ok m' oi buffer' count f_pos u' =
      (Inr count, f_pos + count, mem_put u' buffer' (mem_get u buffer count))"
proof -
  obtain m' where m': "write_loop user_ok u oi buffer count f_pos m = (None, f_pos + count, m')"
    and over: "overwritten m oi n f_pos (mem_get u buffer count) m'"
    using write_loop_overwrites [where user_ok = user_ok and u = u and buffer = buffer, OF dfile user range(1)] by blast
  have "\<not> int count > int (unat (oi_size m oi)) - int f_pos" using range(1) by linarith
  then have "ospfs_write user_ok False u oi buffer count f_pos m = Some (Inr count, f_pos + count, m')"
    unfolding ospfs_write_def Let_def by (simp add: m')
  moreover have "ospfs_read user_ok m' oi buffer' count f_pos u' =
      (Inr count, f_pos + count, mem_put u' buffer' (mem_get u buffer count))"
  proof -
    have d': "data_file m' oi n" "oi_size m' oi = oi_size m oi" using over by (simp_all add: overwritten_def)
    have "f_pos + count \<le> 1024 * n" using range(1) dfile by (simp add: data_file_def)
    then have "file_bytes m' oi f_pos count = mem_get u buffer count" using overwritten_bytes [OF over] by simp
    moreover have "read_loop user_ok m' oi buffer' count f_pos u' =
        (None, f_pos + count, mem_put u' buffer' (file_bytes m' oi f_pos count))"
      by (rule read_loop_bytes [OF d'(1) user]) (use range(1) d'(2) in simp)
    moreover have "\<not> count + f_pos > unat (oi_size m' oi)" using range(1) d'(2) by simp
    ultimately show ?thesis by (simp add: ospfs_read_def Let_def)
  qed
  ultimately show ?thesis using over by blast
qed

lemma grown_file_data:
  assumes "grows m oi n m'" "data_file m oi n" "unat (oi_size m oi) = 1024 * n" "n < 65802"
  shows "data_file m' oi (Suc n)" "unat (oi_size m' oi) = 1024 * Suc n"
proof -
  have "oi_size m' oi = oi_size m oi + 1024" using assms(1) by (simp add: grows_def)
  then show size: "unat (oi_size m' oi) = 1024 * Suc n"
    using assms(3,4) by (simp add: unat_word_ariths)
  show "data_file m' oi (Suc n)" using assms(1,2) size by (simp add: grows_def data_file_def)
qed

lemma one_block_file: "\<exists>m. data_file m 3136 1 \<and> unat (oi_size m 3136) = 1024"
proof -
  let ?m = "small_disk [9, 7, 12]"
  have bs: "\<forall>b \<in> set [9, 7, 12 :: nat]. 4 \<le> b \<and> b < 64" by simp
  note f = small_disk_empty_file [OF bs]
  have "free_set ?m \<noteq> {}" using small_disk_ok(2) [OF bs] by simp
  then obtain b m1 where b: "grabbed ?m b (zero_out_block b m1)"
    by (rule grab [OF small_disk_ok(1) [OF bs]])
  obtain m' where "grows ?m 3136 0 m'" using add_direct_grows [OF f(1,2) _ b] by auto
  then show ?thesis using grown_file_data [of ?m 3136 0 m'] small_disk_data_file [OF bs] f(3) by auto
qed

theorem ospfs_write_read_roundtrip_witness:
  "\<forall>u u'. \<exists>m m'. ospfs_write (\<lambda>_ _. True) False u 3136 0 5 10 m = Some (Inr 5, 15, m') \<and>
     ospfs_read (\<lambda>_ _. True) m' 3136 7 5 10 u' = (Inr 5, 15, mem_put u' 7 (mem_get u 0 5))"
proof (intro allI)
  fix u u' :: mem
  obtain m where m: "data_file m 3136 1" "unat (oi_size m 3136) = 1024" using one_block_file by blast
  show "\<exists>m m'. ospfs_write (\<lambda>_ _. True) False u 3136 0 5 10 m = Some (Inr 5, 15, m') \<and>
     ospfs_read (\<lambda>_ _. True) m' 3136 7 5 10 u' = (Inr 5, 15, mem_put u' 7 (mem_get u 0 5))"
    using ospfs_write_read_roundtrip [OF m(1), of "\<lambda>_ _. True" 10 5 u 0 7 u'] m(2) by auto
qed

end
