(* ===== verification/ShellExec.thy ===== *)
theory ShellExec
  imports Main
begin

text \<open>
  The execution half of the lab 1 time-travel shell: the command tree of
  \<open>src/lab1/command-internals.h\<close>, the profile text that \<open>printcmd\<close> of
  \<open>src/lab1/execute-command.c\<close> writes, the tree printer of
  \<open>src/lab1/print-command.c\<close>, the seven \<open>execute_*_command\<close> functions and the
  loop of \<open>main\<close>.

  A call to \<open>fork\<close> duplicates the rest of the program, so the executor is written in
  continuation-passing style: \<open>exec\<close> takes, beside the command, the continuation
  \<open>k\<close> that stands for everything the calling process does after the function
  returns, up to its own exit. A process that forks runs the child with a continuation
  of its own and then goes on with \<open>k\<close>. Every \<open>fork\<close> of the source is followed by a
  \<open>waitpid\<close> for that child, so the two never overlap and the world (files, pipes,
  profile) is threaded through them in order.

  What a program that is run by \<open>execvp\<close> does is a parameter (\<open>program\<close> of
  \<open>os\<close>): it maps its arguments and its two channels to a new store and a wait status,
  or \<open>None\<close> when \<open>execvp\<close> finds no such program. The clock and resource-usage
  figures of a profile line are not modelled, its command text and process id are.
\<close>

section \<open>The command tree\<close>

record attrs =
  status :: int
  cmd_input :: "string option"
  cmd_output :: "string option"

datatype command =
    IfC attrs command command "command option"
  | PipeC attrs command command
  | SequenceC attrs command command
  | SimpleC attrs "string list"
  | SubshellC attrs command
  | UntilC attrs command command
  | WhileC attrs command command

fun attrs_of :: "command \<Rightarrow> attrs" where
  "attrs_of (IfC a _ _ _) = a"
| "attrs_of (PipeC a _ _) = a"
| "attrs_of (SequenceC a _ _) = a"
| "attrs_of (SimpleC a _) = a"
| "attrs_of (SubshellC a _) = a"
| "attrs_of (UntilC a _ _) = a"
| "attrs_of (WhileC a _ _) = a"

fun map_attrs :: "(attrs \<Rightarrow> attrs) \<Rightarrow> command \<Rightarrow> command" where
  "map_attrs f (IfC a x y z) = IfC (f a) x y z"
| "map_attrs f (PipeC a x y) = PipeC (f a) x y"
| "map_attrs f (SequenceC a x y) = SequenceC (f a) x y"
| "map_attrs f (SimpleC a ws) = SimpleC (f a) ws"
| "map_attrs f (SubshellC a x) = SubshellC (f a) x"
| "map_attrs f (UntilC a x y) = UntilC (f a) x y"
| "map_attrs f (WhileC a x y) = WhileC (f a) x y"

definition command_status :: "command \<Rightarrow> int" where
  "command_status c = status (attrs_of c)"

lemma attrs_of_map_attrs [simp]: "attrs_of (map_attrs f c) = f (attrs_of c)"
  by (cases c) auto

section \<open>Printing\<close>

definition redirs :: "attrs \<Rightarrow> string" where
  "redirs a = (case cmd_input a of None \<Rightarrow> [] | Some f \<Rightarrow> ''<'' @ f @ '' '')
     @ (case cmd_output a of None \<Rightarrow> [] | Some f \<Rightarrow> ''>'' @ f @ '' '')"

fun printcmd :: "command \<Rightarrow> string" where
  "printcmd (IfC a x y z) = ''if '' @ printcmd x @ ''then '' @ printcmd y @
     (case z of None \<Rightarrow> [] | Some e \<Rightarrow> ''else '' @ printcmd e @ ''fi '') @ redirs a"
| "printcmd (PipeC a x y) = printcmd x @ ''| '' @ printcmd y @ redirs a"
| "printcmd (SequenceC a x y) = printcmd x @ ''; '' @ printcmd y @ redirs a"
| "printcmd (SimpleC a ws) = concat (List.map (\<lambda>w. w @ '' '') ws) @ redirs a"
| "printcmd (SubshellC a x) = ''( '' @ printcmd x @ '') '' @ redirs a"
| "printcmd (UntilC a x y) = ''until '' @ printcmd x @ ''do '' @ printcmd y @ ''done '' @ redirs a"
| "printcmd (WhileC a x y) = ''while '' @ printcmd x @ ''do '' @ printcmd y @ ''done '' @ redirs a"

definition pad :: "nat \<Rightarrow> string" where
  "pad n = replicate n (CHR '' '')"

definition newline :: string where
  "newline = [CHR 0x0A]"

fun is_sequence :: "command \<Rightarrow> bool" where
  "is_sequence (SequenceC _ _ _) = True"
| "is_sequence _ = False"

fun is_pipe :: "command \<Rightarrow> bool" where
  "is_pipe (PipeC _ _ _) = True"
| "is_pipe _ = False"

fun indented_words :: "nat \<Rightarrow> string list \<Rightarrow> string" where
  "indented_words n [] = pad n"
| "indented_words n (w # ws) = pad n @ w @ concat (List.map (\<lambda>v. '' '' @ v) ws)"

definition tree_redirs :: "attrs \<Rightarrow> string" where
  "tree_redirs a = (case cmd_input a of None \<Rightarrow> [] | Some f \<Rightarrow> ''<'' @ f)
     @ (case cmd_output a of None \<Rightarrow> [] | Some f \<Rightarrow> ''>'' @ f)"

fun command_indented_print :: "nat \<Rightarrow> command \<Rightarrow> string" where
  "command_indented_print n (IfC a x y z) =
     pad n @ ''if'' @ newline @ command_indented_print (n + 2) x @
     newline @ pad n @ ''then'' @ newline @ command_indented_print (n + 2) y @
     (case z of None \<Rightarrow> []
      | Some e \<Rightarrow> newline @ pad n @ ''else'' @ newline @ command_indented_print (n + 2) e) @
     newline @ pad n @ ''fi'' @ tree_redirs a"
| "command_indented_print n (PipeC a x y) =
     command_indented_print (if is_pipe x then n else n + 2) x @
     '' '' @ [CHR 0x5C] @ newline @ pad n @ ''|'' @ newline @
     command_indented_print (if is_pipe y then n else n + 2) y @ tree_redirs a"
| "command_indented_print n (SequenceC a x y) =
     command_indented_print (if is_sequence x then n else n + 2) x @
     '' '' @ [CHR 0x5C] @ newline @ pad n @ '';'' @ newline @
     command_indented_print (if is_sequence y then n else n + 2) y @ tree_redirs a"
| "command_indented_print n (SimpleC a ws) = indented_words n ws @ tree_redirs a"
| "command_indented_print n (SubshellC a x) =
     pad n @ ''('' @ newline @ command_indented_print (n + 1) x @
     newline @ pad n @ '')'' @ tree_redirs a"
| "command_indented_print n (UntilC a x y) =
     pad n @ ''until'' @ newline @ command_indented_print (n + 2) x @
     newline @ pad n @ ''do'' @ newline @ command_indented_print (n + 2) y @
     newline @ pad n @ ''done'' @ tree_redirs a"
| "command_indented_print n (WhileC a x y) =
     pad n @ ''while'' @ newline @ command_indented_print (n + 2) x @
     newline @ pad n @ ''do'' @ newline @ command_indented_print (n + 2) y @
     newline @ pad n @ ''done'' @ tree_redirs a"

definition print_command :: "command \<Rightarrow> string" where
  "print_command c = command_indented_print 2 c @ newline"

section \<open>Processes and the world\<close>

datatype chan = Tty | File string | PipeCh nat

type_synonym store = "chan \<Rightarrow> string option"

record proc =
  pid :: nat
  fd0 :: chan
  fd1 :: chan

record world =
  store :: store
  profile :: "(string \<times> nat) list"
  next_pid :: nat
  next_pipe :: nat

text \<open>
  \<open>writable f\<close>: opening \<open>f\<close> with \<open>O_WRONLY|O_CREAT|O_TRUNC\<close> succeeds.
  \<open>program args i o s\<close>: what \<open>execvp\<close> of \<open>args\<close> does with the channels \<open>i\<close> and
  \<open>o\<close> as standard input and output, with the status \<open>waitpid\<close> reports for it.
\<close>

record os =
  writable :: "string \<Rightarrow> bool"
  program :: "string list \<Rightarrow> chan \<Rightarrow> chan \<Rightarrow> store \<Rightarrow> (store \<times> nat) option"

type_synonym result = "(world \<times> nat) option"
type_synonym cont = "command \<Rightarrow> proc \<Rightarrow> world \<Rightarrow> result"

text \<open>A wait status: the low seven bits name the signal, bits 8 to 15 the exit code.\<close>

definition exited :: "int \<Rightarrow> nat" where
  "exited code = nat (code mod 256) * 256"

definition sigsegv :: nat where
  "sigsegv = 11"

definition wexitstatus :: "nat \<Rightarrow> int" where
  "wexitstatus st = int ((st div 256) mod 256)"

definition fork :: "proc \<Rightarrow> world \<Rightarrow> proc \<times> world" where
  "fork p w = (p\<lparr>pid := next_pid w\<rparr>, w\<lparr>next_pid := Suc (next_pid w)\<rparr>)"

definition open_pipe :: "world \<Rightarrow> chan \<times> world" where
  "open_pipe w = (PipeCh (next_pipe w),
     w\<lparr>next_pipe := Suc (next_pipe w), store := (store w)(PipeCh (next_pipe w) := Some [])\<rparr>)"

text \<open>One line of the profile, written when a profile file is open (\<open>prof\<close>).\<close>

definition profile_line :: "bool \<Rightarrow> command \<Rightarrow> proc \<Rightarrow> world \<Rightarrow> world" where
  "profile_line prof c p w =
     (if prof then w\<lparr>profile := profile w @ [(printcmd c, pid p)]\<rparr> else w)"

section \<open>Simple commands\<close>

definition redirect_in :: "string option \<Rightarrow> proc \<Rightarrow> world \<Rightarrow> (proc \<times> world) option" where
  "redirect_in f p w = (case f of None \<Rightarrow> Some (p, w)
     | Some n \<Rightarrow> if store w (File n) = None then None else Some (p\<lparr>fd0 := File n\<rparr>, w))"

definition redirect_out ::
    "os \<Rightarrow> string option \<Rightarrow> proc \<Rightarrow> world \<Rightarrow> (proc \<times> world) option" where
  "redirect_out sys f p w = (case f of None \<Rightarrow> Some (p, w)
     | Some n \<Rightarrow> if writable sys n
                 then Some (p\<lparr>fd1 := File n\<rparr>, w\<lparr>store := (store w)(File n := Some [])\<rparr>)
                 else None)"

text \<open>\<open>exec prog args\<close> runs \<open>prog\<close>; a lone \<open>exec\<close> calls \<open>execvp\<close> with a null name, which fails.\<close>

definition execvp ::
    "os \<Rightarrow> string list \<Rightarrow> proc \<Rightarrow> world \<Rightarrow> (store \<times> nat) option" where
  "execvp sys ws p w =
     (let args = (if hd ws = ''exec'' then tl ws else ws)
      in if args = [] then None else program sys args (fd0 p) (fd1 p) (store w))"

text \<open>
  The child of \<open>execute_simple_command\<close>: a redirection that fails exits with 1, a
  null command name is a null dereference, and when \<open>execvp\<close> fails the child returns
  from the function and goes on with the rest of the program, \<open>k\<close>.
\<close>

definition simple_child ::
    "os \<Rightarrow> attrs \<Rightarrow> string list \<Rightarrow> cont \<Rightarrow> proc \<Rightarrow> world \<Rightarrow> result" where
  "simple_child sys a ws k p w =
     (case redirect_in (cmd_input a) p w of
        None \<Rightarrow> Some (w, exited 1)
      | Some (p1, w1) \<Rightarrow>
          (case redirect_out sys (cmd_output a) p1 w1 of
             None \<Rightarrow> Some (w1, exited 1)
           | Some (p2, w2) \<Rightarrow>
               if ws = [] then Some (w2, sigsegv)
               else (case execvp sys ws p2 w2 of
                       None \<Rightarrow> k (SimpleC a ws) p2 w2
                     | Some (s, st) \<Rightarrow> Some (w2\<lparr>store := s\<rparr>, st))))"

definition simple_parent ::
    "bool \<Rightarrow> attrs \<Rightarrow> string list \<Rightarrow> cont \<Rightarrow> proc \<Rightarrow> result \<Rightarrow> result" where
  "simple_parent prof a ws k p r =
     (case r of None \<Rightarrow> None
      | Some (w, st) \<Rightarrow>
          if ws = [] then Some (w, sigsegv)
          else (let c = SimpleC (a\<lparr>status := wexitstatus st\<rparr>) ws
                in k c p (profile_line prof c p w)))"

definition execute_simple_command ::
    "os \<Rightarrow> bool \<Rightarrow> attrs \<Rightarrow> string list \<Rightarrow> cont \<Rightarrow> proc \<Rightarrow> world \<Rightarrow> result" where
  "execute_simple_command sys prof a ws k p w =
     (let (child, w1) = fork p w
      in simple_parent prof a ws k p (simple_child sys a ws k child w1))"

section \<open>Compound commands\<close>

text \<open>The two assignments that hand the redirections of a subshell to its body.\<close>

definition pass_redirs :: "attrs \<Rightarrow> command \<Rightarrow> command" where
  "pass_redirs a x = map_attrs (\<lambda>b. b
     \<lparr>cmd_input := (case cmd_input a of None \<Rightarrow> cmd_input b | Some f \<Rightarrow> Some f),
      cmd_output := (case cmd_output a of None \<Rightarrow> cmd_output b | Some f \<Rightarrow> Some f)\<rparr>) x"

text \<open>What a finished compound command does: write its profile line and return.\<close>

definition finish :: "bool \<Rightarrow> cont \<Rightarrow> cont" where
  "finish prof k c p w = k c p (profile_line prof c p w)"

text \<open>The continuation of a pipeline process: \<open>_exit (c->status)\<close>.\<close>

definition exit_with_status :: cont where
  "exit_with_status c p w = Some (w, exited (command_status c))"

text \<open>
  Each function below takes the executor \<open>ex\<close> for the switch by which the source
  calls the seven functions on a child node.
\<close>

type_synonym executor = "command \<Rightarrow> cont \<Rightarrow> proc \<Rightarrow> world \<Rightarrow> result"

definition execute_if_command ::
    "executor \<Rightarrow> bool \<Rightarrow> attrs \<Rightarrow> command \<Rightarrow> command \<Rightarrow> command option \<Rightarrow> cont \<Rightarrow> proc \<Rightarrow> world \<Rightarrow> result"
where
  "execute_if_command ex prof a x y z k p w =
     ex x (\<lambda>x'.
       if command_status x' = 0
       then ex y (\<lambda>y'. finish prof k (IfC a x' y' z))
       else (case z of
               None \<Rightarrow> finish prof k (IfC a x' y z)
             | Some e \<Rightarrow> ex e (\<lambda>e'. finish prof k (IfC a x' y (Some e'))))) p w"

text \<open>
  A pipeline forks a child for its right side, which forks one for the left side and
  waits for it: the left side has ended before the right side starts. The parent's copy
  of the two nodes is never updated.
\<close>

definition execute_pipe_command ::
    "executor \<Rightarrow> bool \<Rightarrow> attrs \<Rightarrow> command \<Rightarrow> command \<Rightarrow> cont \<Rightarrow> proc \<Rightarrow> world \<Rightarrow> result"
where
  "execute_pipe_command ex prof a x y k p w =
     (let (ch, w0) = open_pipe w;
          (p1, w1) = fork p w0;
          (p2, w2) = fork p1 w1
      in case ex x exit_with_status (p2\<lparr>fd1 := ch\<rparr>) w2 of
           None \<Rightarrow> None
         | Some (w3, st) \<Rightarrow>
             (case ex y exit_with_status (p1\<lparr>fd0 := ch\<rparr>) w3 of
                None \<Rightarrow> None
              | Some (w4, st') \<Rightarrow> finish prof k (PipeC a x y) p w4))"

definition execute_sequence_command ::
    "executor \<Rightarrow> bool \<Rightarrow> attrs \<Rightarrow> command \<Rightarrow> command \<Rightarrow> cont \<Rightarrow> proc \<Rightarrow> world \<Rightarrow> result"
where
  "execute_sequence_command ex prof a x y k p w =
     ex x (\<lambda>x'. ex y (\<lambda>y'. finish prof k (SequenceC a x' y'))) p w"

definition execute_subshell_command ::
    "executor \<Rightarrow> bool \<Rightarrow> attrs \<Rightarrow> command \<Rightarrow> cont \<Rightarrow> proc \<Rightarrow> world \<Rightarrow> result"
where
  "execute_subshell_command ex prof a x k p w =
     ex (pass_redirs a x) (\<lambda>x'. finish prof k (SubshellC a x')) p w"

primrec until_loop ::
    "executor \<Rightarrow> bool \<Rightarrow> nat \<Rightarrow> attrs \<Rightarrow> command \<Rightarrow> command \<Rightarrow> cont \<Rightarrow> proc \<Rightarrow> world \<Rightarrow> result"
where
  "until_loop ex prof 0 a x y k p w = None"
| "until_loop ex prof (Suc n) a x y k p w =
     (if command_status x \<noteq> 0
      then ex y (\<lambda>y'. ex x (\<lambda>x'. until_loop ex prof n a x' y' k)) p w
      else finish prof k (UntilC a x y) p w)"

primrec while_loop ::
    "executor \<Rightarrow> bool \<Rightarrow> nat \<Rightarrow> attrs \<Rightarrow> command \<Rightarrow> command \<Rightarrow> cont \<Rightarrow> proc \<Rightarrow> world \<Rightarrow> result"
where
  "while_loop ex prof 0 a x y k p w = None"
| "while_loop ex prof (Suc n) a x y k p w =
     (if command_status x = 0
      then ex y (\<lambda>y'. ex x (\<lambda>x'. while_loop ex prof n a x' y' k)) p w
      else finish prof k (WhileC a x y) p w)"

definition execute_until_command ::
    "executor \<Rightarrow> bool \<Rightarrow> nat \<Rightarrow> attrs \<Rightarrow> command \<Rightarrow> command \<Rightarrow> cont \<Rightarrow> proc \<Rightarrow> world \<Rightarrow> result"
where
  "execute_until_command ex prof n a x y k p w =
     ex x (\<lambda>x'. until_loop ex prof n a x' y k) p w"

definition execute_while_command ::
    "executor \<Rightarrow> bool \<Rightarrow> nat \<Rightarrow> attrs \<Rightarrow> command \<Rightarrow> command \<Rightarrow> cont \<Rightarrow> proc \<Rightarrow> world \<Rightarrow> result"
where
  "execute_while_command ex prof n a x y k p w =
     ex x (\<lambda>x'. while_loop ex prof n a x' y k) p w"

fun execute_command :: "os \<Rightarrow> bool \<Rightarrow> nat \<Rightarrow> executor \<Rightarrow> executor" where
  "execute_command sys prof n ex (IfC a x y z) = execute_if_command ex prof a x y z"
| "execute_command sys prof n ex (PipeC a x y) = execute_pipe_command ex prof a x y"
| "execute_command sys prof n ex (SequenceC a x y) = execute_sequence_command ex prof a x y"
| "execute_command sys prof n ex (SimpleC a ws) = execute_simple_command sys prof a ws"
| "execute_command sys prof n ex (SubshellC a x) = execute_subshell_command ex prof a x"
| "execute_command sys prof n ex (UntilC a x y) = execute_until_command ex prof n a x y"
| "execute_command sys prof n ex (WhileC a x y) = execute_while_command ex prof n a x y"

text \<open>
  The executor with fuel \<open>n\<close> for the depth of the calls and the rounds of each loop;
  \<open>None\<close> is a run that has not ended within it.
\<close>

primrec exec :: "os \<Rightarrow> bool \<Rightarrow> nat \<Rightarrow> executor" where
  "exec sys prof 0 = (\<lambda>c k p w. None)"
| "exec sys prof (Suc n) = execute_command sys prof n (exec sys prof n)"

section \<open>The main loop\<close>

text \<open>
  The loop of \<open>main\<close> over the command stream when it executes: the exit status is 0
  when there was no command and that of the last command's node otherwise.
\<close>

fun run_commands ::
    "os \<Rightarrow> bool \<Rightarrow> nat \<Rightarrow> command option \<Rightarrow> command list \<Rightarrow> proc \<Rightarrow> world \<Rightarrow> result" where
  "run_commands sys prof n last_cmd [] p w =
     Some (w, exited (case last_cmd of None \<Rightarrow> 0 | Some c \<Rightarrow> command_status c))"
| "run_commands sys prof n last_cmd (c # cs) p w =
     exec sys prof n c (\<lambda>c' p' w'. run_commands sys prof n (Some c') cs p' w') p w"

text \<open>
  With \<open>-t\<close> the loop prints each command under its number (\<open>"# %d\n"\<close>) and the
  shell exits with 0.
\<close>

fun decimal :: "nat \<Rightarrow> string" where
  "decimal n = (if n < 10 then [char_of (48 + n)]
     else decimal (n div 10) @ [char_of (48 + n mod 10)])"

declare decimal.simps [simp del]

fun print_tree :: "nat \<Rightarrow> command list \<Rightarrow> string" where
  "print_tree n [] = []"
| "print_tree n (c # cs) = ''# '' @ decimal n @ newline @ print_command c @ print_tree (n + 1) cs"

end
