(* ===== verification/ShellRun.thy ===== *)
theory ShellRun
  imports ShellExec
begin

text \<open>
  What the executor of the lab 1 shell guarantees, and where it departs from the shell
  it imitates: the continuation of a command is always reached, with the node of a
  compound command keeping its status; on scripts whose conditions are simple commands
  and whose programs exist the run is that of a reference semantics; a command that does
  not exist runs the rest of the script twice.
\<close>

section \<open>Every command returns to its continuation\<close>

fun compound :: "command \<Rightarrow> bool" where
  "compound (SimpleC _ _) = False"
| "compound _ = True"

text \<open>Every simple command of the tree has a command word.\<close>

fun words_ok :: "command \<Rightarrow> bool" where
  "words_ok (IfC _ x y z) = (words_ok x \<and> words_ok y \<and> (case z of None \<Rightarrow> True | Some e \<Rightarrow> words_ok e))"
| "words_ok (PipeC _ x y) = (words_ok x \<and> words_ok y)"
| "words_ok (SequenceC _ x y) = (words_ok x \<and> words_ok y)"
| "words_ok (SimpleC _ ws) = (ws \<noteq> [])"
| "words_ok (SubshellC _ x) = words_ok x"
| "words_ok (UntilC _ x y) = (words_ok x \<and> words_ok y)"
| "words_ok (WhileC _ x y) = (words_ok x \<and> words_ok y)"

definition follows :: "command \<Rightarrow> command \<Rightarrow> bool" where
  "follows c c' \<longleftrightarrow> words_ok c' \<and>
     (compound c \<longrightarrow> compound c' \<and> command_status c' = command_status c)"

lemma follows_compound:
  assumes "words_ok c'" "compound c'" "attrs_of c' = attrs_of c"
  shows "follows c c'"
  using assms by (simp add: follows_def command_status_def)

lemma followsD: "follows c c' \<Longrightarrow> words_ok c'"
  by (simp add: follows_def)

lemma words_ok_map_attrs [simp]: "words_ok (map_attrs f c) = words_ok c"
  by (cases c) auto

text \<open>
  \<open>reaches ex c\<close>: whatever a run of \<open>c\<close> yields holds already of what its
  continuation yields, at a node that follows \<open>c\<close>.
\<close>

definition reaches :: "executor \<Rightarrow> bool" where
  "reaches ex \<longleftrightarrow> (\<forall>P c k p w. P None \<longrightarrow> words_ok c \<longrightarrow>
     (\<forall>c' p' w'. follows c c' \<longrightarrow> P (k c' p' w')) \<longrightarrow> P (ex c k p w))"

lemma reachesI:
  assumes "\<And>P c k p w. \<lbrakk>P None; words_ok c; \<And>c' p' w'. follows c c' \<Longrightarrow> P (k c' p' w')\<rbrakk>
    \<Longrightarrow> P (ex c k p w)"
  shows "reaches ex"
  using assms unfolding reaches_def by blast

lemma reachesD:
  assumes "reaches ex" "P None" "words_ok c" "\<And>c' p' w'. follows c c' \<Longrightarrow> P (k c' p' w')"
  shows "P (ex c k p w)"
  using assms unfolding reaches_def by blast

lemma until_loop_reaches:
  assumes "reaches ex" "P None" "words_ok x" "words_ok y"
    and "\<And>c' p' w'. \<lbrakk>words_ok c'; compound c'; attrs_of c' = a\<rbrakk> \<Longrightarrow> P (k c' p' w')"
  shows "P (until_loop ex prof n a x y k p w)"
  using assms(3,4)
proof (induction n arbitrary: x y p w)
  case 0
  show ?case using assms(2) by simp
next
  case (Suc n)
  have "P (ex y (\<lambda>y'. ex x (\<lambda>x'. until_loop ex prof n a x' y' k)) p w)"
  proof (rule reachesD [where P = P, OF assms(1,2) Suc.prems(2)])
    fix y' p' w'
    assume "follows y y'"
    show "P (ex x (\<lambda>x'. until_loop ex prof n a x' y' k) p' w')"
      by (rule reachesD [where P = P, OF assms(1,2) Suc.prems(1)])
        (use Suc.IH \<open>follows y y'\<close> followsD in blast)
  qed
  then show ?case using Suc.prems by (simp add: finish_def assms(5))
qed

lemma while_loop_reaches:
  assumes "reaches ex" "P None" "words_ok x" "words_ok y"
    and "\<And>c' p' w'. \<lbrakk>words_ok c'; compound c'; attrs_of c' = a\<rbrakk> \<Longrightarrow> P (k c' p' w')"
  shows "P (while_loop ex prof n a x y k p w)"
  using assms(3,4)
proof (induction n arbitrary: x y p w)
  case 0
  show ?case using assms(2) by simp
next
  case (Suc n)
  have "P (ex y (\<lambda>y'. ex x (\<lambda>x'. while_loop ex prof n a x' y' k)) p w)"
  proof (rule reachesD [where P = P, OF assms(1,2) Suc.prems(2)])
    fix y' p' w'
    assume "follows y y'"
    show "P (ex x (\<lambda>x'. while_loop ex prof n a x' y' k) p' w')"
      by (rule reachesD [where P = P, OF assms(1,2) Suc.prems(1)])
        (use Suc.IH \<open>follows y y'\<close> followsD in blast)
  qed
  then show ?case using Suc.prems by (simp add: finish_def assms(5))
qed

lemma simple_reaches:
  assumes "P None" "ws \<noteq> []" "\<And>c' p' w'. follows (SimpleC a ws) c' \<Longrightarrow> P (k c' p' w')"
  shows "P (execute_simple_command sys prof a ws k p w)"
  using assms
  by (auto simp: execute_simple_command_def simple_parent_def follows_def Let_def
      split: option.split prod.split)

lemma execute_command_reaches:
  assumes "reaches ex"
  shows "reaches (execute_command sys prof n ex)"
proof (rule reachesI)
  fix P :: "result \<Rightarrow> bool" and c and k :: cont and p w
  assume none: "P None" and ok: "words_ok c"
    and k: "\<And>c' p' w'. follows c c' \<Longrightarrow> P (k c' p' w')"
  note step = reachesD [where P = P, OF assms none]
  have k': "P (finish prof k c' p' w')"
    if "words_ok c'" "compound c'" "attrs_of c' = attrs_of c" for c' p' w'
    using k [OF follows_compound [OF that]] by (simp add: finish_def)
  show "P (execute_command sys prof n ex c k p w)"
  proof (cases c)
    case (IfC a x y z)
    show ?thesis
      unfolding IfC execute_command.simps execute_if_command_def
    proof (rule step)
      show "words_ok x" using ok IfC by simp
    next
      fix x' p' w'
      assume "follows x x'"
      then have x': "words_ok x'" by (rule followsD)
      have then_part: "P (ex y (\<lambda>y'. finish prof k (IfC a x' y' z)) p' w')"
        by (rule step) (use ok IfC x' k' in \<open>auto dest: followsD\<close>)
      have else_part: "P (ex e (\<lambda>e'. finish prof k (IfC a x' y (Some e'))) p' w')" if "z = Some e" for e
        by (rule step) (use ok IfC x' k' that in \<open>auto dest: followsD\<close>)
      have no_else: "P (finish prof k (IfC a x' y z) p' w')"
        by (rule k') (use ok IfC x' in auto)
      show "P ((if command_status x' = 0
         then ex y (\<lambda>y'. finish prof k (IfC a x' y' z))
         else (case z of
                 None \<Rightarrow> finish prof k (IfC a x' y z)
               | Some e \<Rightarrow> ex e (\<lambda>e'. finish prof k (IfC a x' y (Some e'))))) p' w')"
        using then_part else_part no_else by (cases z) auto
    qed
  next
    case (PipeC a x y)
    show ?thesis using ok none k'
      by (auto simp: PipeC execute_pipe_command_def Let_def split: option.split prod.split)
  next
    case (SequenceC a x y)
    show ?thesis
      unfolding SequenceC execute_command.simps execute_sequence_command_def
    proof (rule step)
      show "words_ok x" using ok SequenceC by simp
    next
      fix x' p' w'
      assume "follows x x'"
      then have x': "words_ok x'" by (rule followsD)
      show "P (ex y (\<lambda>y'. finish prof k (SequenceC a x' y')) p' w')"
        by (rule step) (use ok SequenceC x' k' in \<open>auto dest: followsD\<close>)
    qed
  next
    case (SimpleC a ws)
    show ?thesis unfolding SimpleC execute_command.simps
      by (rule simple_reaches [where P = P]) (use none ok SimpleC k in auto)
  next
    case (SubshellC a x)
    show ?thesis
      unfolding SubshellC execute_command.simps execute_subshell_command_def
      by (rule step) (use ok SubshellC k' in \<open>auto simp: pass_redirs_def dest: followsD\<close>)
  next
    case (UntilC a x y)
    have *: "P (until_loop ex prof n a x' y k p' w')" if "words_ok x'" for x' p' w'
      by (rule until_loop_reaches [where P = P, OF assms none that])
        (use ok UntilC in \<open>auto intro!: k follows_compound\<close>)
    show ?thesis
      unfolding UntilC execute_command.simps execute_until_command_def
      by (rule step) (use ok UntilC * in \<open>auto dest: followsD\<close>)
  next
    case (WhileC a x y)
    have *: "P (while_loop ex prof n a x' y k p' w')" if "words_ok x'" for x' p' w'
      by (rule while_loop_reaches [where P = P, OF assms none that])
        (use ok WhileC in \<open>auto intro!: k follows_compound\<close>)
    show ?thesis
      unfolding WhileC execute_command.simps execute_while_command_def
      by (rule step) (use ok WhileC * in \<open>auto dest: followsD\<close>)
  qed
qed

lemma exec_reaches: "reaches (exec sys prof n)"
proof (induction n)
  case 0
  show ?case by (rule reachesI) simp
next
  case (Suc n)
  then show ?case by (simp add: execute_command_reaches)
qed


section \<open>Conditions that are not simple commands\<close>

text \<open>Small worlds and programs for the witnesses.\<close>

definition plain :: attrs where
  "plain = \<lparr>status = -1, cmd_input = None, cmd_output = None\<rparr>"

definition cmd :: "string list \<Rightarrow> command" where
  "cmd ws = SimpleC plain ws"

definition empty_world :: world where
  "empty_world = \<lparr>store = \<lambda>_. None, profile = [], next_pid = 101, next_pipe = 0\<rparr>"

definition shell_proc :: proc where
  "shell_proc = \<lparr>pid = 100, fd0 = Tty, fd1 = Tty\<rparr>"

definition demo_os :: os where
  "demo_os = \<lparr>writable = \<lambda>_. True, program = \<lambda>args i out s.
     if args = [''true''] then Some (s, exited 0)
     else if args = [''false''] then Some (s, exited 1)
     else if args = [''segv''] then Some (s, sigsegv)
     else None\<rparr>"

text \<open>
  C33: only \<open>execute_simple_command\<close> ever sets \<open>status\<close>, so an \<open>until\<close> loop
  whose condition is a pipeline, a sequence, a subshell or another compound command
  never ends: no amount of fuel is enough, whatever its condition, its body, the programs
  and the rest of the script do.
\<close>

theorem shell_until_compound_never_ends:
  assumes "words_ok x" "words_ok y" "compound x" "command_status x = -1"
  shows "exec sys prof n (UntilC a x y) k p w = None"
proof (cases n)
  case 0
  then show ?thesis by simp
next
  case (Suc m)
  let ?P = "\<lambda>r :: result. r = None"
  note step = reachesD [where P = ?P, OF exec_reaches refl]
  have loop: "until_loop (exec sys prof m) prof j a x' y' k p' w' = None"
    if "follows x x'" "words_ok y'" for j x' y' p' w'
    using that
  proof (induction j arbitrary: x' y' p' w')
    case (Suc j)
    have x': "follows x x''" if "follows x' x''" for x''
      using Suc.prems(1) that assms(3) by (auto simp: follows_def)
    have "exec sys prof m y' (\<lambda>y''. exec sys prof m x'
        (\<lambda>x''. until_loop (exec sys prof m) prof j a x'' y'' k)) p' w' = None"
      by (rule step, rule Suc.prems(2), rule step)
        (use Suc.IH Suc.prems x' followsD in blast)+
    then show ?case using Suc.prems assms by (simp add: follows_def)
  qed simp
  have "exec sys prof m x (\<lambda>x'. until_loop (exec sys prof m) prof m a x' y k) p w = None"
    by (rule step) (use loop assms in auto)
  then show ?thesis using Suc by (simp add: execute_until_command_def)
qed

theorem shell_until_compound_never_ends_witness:
  "\<forall>n. exec demo_os True n
     (UntilC plain (SequenceC plain (cmd [''false'']) (cmd [''true''])) (cmd [''true'']))
     exit_with_status shell_proc empty_world = None"
  by (intro allI shell_until_compound_never_ends)
    (auto simp: cmd_def plain_def command_status_def)

text \<open>
  The continuation of a compound command is only ever called at a node with its own
  attributes, so two continuations that agree there give the same run.
\<close>

lemma until_loop_cong:
  assumes "\<And>x y. finish prof k (UntilC a x y) = finish prof k' (UntilC a x y)"
  shows "until_loop ex prof n a x y k = until_loop ex prof n a x y k'"
  using assms by (induction n arbitrary: x y) (auto intro!: ext)

lemma while_loop_cong:
  assumes "\<And>x y. finish prof k (WhileC a x y) = finish prof k' (WhileC a x y)"
  shows "while_loop ex prof n a x y k = while_loop ex prof n a x y k'"
  using assms by (induction n arbitrary: x y) (auto intro!: ext)

lemma compound_cont_cong:
  assumes "compound c" "\<And>c'. compound c' \<Longrightarrow> attrs_of c' = attrs_of c \<Longrightarrow> k c' = k' c'"
  shows "execute_command sys prof n ex c k = execute_command sys prof n ex c k'"
proof -
  have *: "finish prof k c' = finish prof k' c'"
    if "compound c'" "attrs_of c' = attrs_of c" for c'
    using assms(2) [OF that] by (simp add: finish_def fun_eq_iff)
  show ?thesis
  proof (cases c)
    case (UntilC a x y)
    have "until_loop ex prof n a x' y k = until_loop ex prof n a x' y k'" for x'
      by (rule until_loop_cong) (use * UntilC in auto)
    then show ?thesis by (intro ext) (simp add: UntilC execute_until_command_def)
  next
    case (WhileC a x y)
    have "while_loop ex prof n a x' y k = while_loop ex prof n a x' y k'" for x'
      by (rule while_loop_cong) (use * WhileC in auto)
    then show ?thesis by (intro ext) (simp add: WhileC execute_while_command_def)
  qed (use assms(1) * in \<open>auto intro!: ext simp: execute_if_command_def execute_pipe_command_def
      execute_sequence_command_def execute_subshell_command_def cong: if_cong option.case_cong\<close>)
qed

lemma exec_compound_cong:
  assumes "compound c" "\<And>c'. command_status c' = command_status c \<Longrightarrow> k c' = k' c'"
  shows "exec sys prof n c k = exec sys prof n c k'"
  using assms by (cases n) (auto intro!: compound_cont_cong simp: command_status_def)

text \<open>
  For the same reason an \<open>if\<close> whose condition is a compound command always takes
  its else branch, and a \<open>while\<close> with such a condition never runs its body: the run is
  the one that executes the condition and then, whatever came of it, goes that way.
\<close>

theorem shell_compound_condition_is_false:
  assumes "compound x" "command_status x = -1"
  shows "exec sys prof (Suc n) (IfC a x y (Some e)) k p w =
      exec sys prof n x (\<lambda>x'. exec sys prof n e (\<lambda>e'. finish prof k (IfC a x' y (Some e')))) p w \<and>
    exec sys prof (Suc (Suc n)) (WhileC a x y) k p w =
      exec sys prof (Suc n) x (\<lambda>x'. finish prof k (WhileC a x' y)) p w"
proof (intro conjI)
  show "exec sys prof (Suc n) (IfC a x y (Some e)) k p w =
      exec sys prof n x (\<lambda>x'. exec sys prof n e (\<lambda>e'. finish prof k (IfC a x' y (Some e')))) p w"
    unfolding exec.simps(2) execute_command.simps execute_if_command_def
    by (rule fun_cong [OF fun_cong [OF exec_compound_cong]]) (use assms in auto)
  show "exec sys prof (Suc (Suc n)) (WhileC a x y) k p w =
      exec sys prof (Suc n) x (\<lambda>x'. finish prof k (WhileC a x' y)) p w"
    unfolding exec.simps(2) [of _ _ "Suc n"] execute_command.simps execute_while_command_def
    by (rule fun_cong [OF fun_cong [OF exec_compound_cong]])
      (use assms in \<open>auto simp: fun_eq_iff\<close>)
qed

theorem shell_compound_condition_is_false_witness:
  "exec demo_os True 3 (IfC plain (SubshellC plain (cmd [''true''])) (cmd [''true''])
      (Some (cmd [''false'']))) exit_with_status shell_proc empty_world =
   exec demo_os True 2 (SubshellC plain (cmd [''true''])) (\<lambda>x'.
      exec demo_os True 2 (cmd [''false'']) (\<lambda>e'. finish True exit_with_status
        (IfC plain x' (cmd [''true'']) (Some e')))) shell_proc empty_world"
  using shell_compound_condition_is_false [where n = 2 and x = "SubshellC plain (cmd [''true''])"
      and y = "cmd [''true'']" and e = "cmd [''false'']" and a = plain and sys = demo_os
      and prof = True and k = exit_with_status and p = shell_proc and w = empty_world]
  by (simp add: plain_def command_status_def numeral_3_eq_3 del: exec.simps)

section \<open>Commands that do not exist\<close>

text \<open>How often the profile reports that a command with the text of \<open>c\<close> was run.\<close>

definition times_run :: "command \<Rightarrow> world \<Rightarrow> nat" where
  "times_run c w = length (filter (\<lambda>l. fst l = printcmd c) (profile w))"

lemma times_run_profile_line:
  "times_run c (profile_line True d p w) = (if printcmd d = printcmd c then 1 else 0) + times_run c w"
  by (simp add: times_run_def profile_line_def)

lemma times_run_other [simp]:
  "times_run c (w\<lparr>store := s\<rparr>) = times_run c w" "times_run c (w\<lparr>next_pid := q\<rparr>) = times_run c w"
  by (simp_all add: times_run_def)

lemma redirs_status [simp]: "redirs (a\<lparr>status := s\<rparr>) = redirs a"
  by (simp add: redirs_def)

lemma unknown_command_forks_the_rest:
  assumes "ws \<noteq> []" "execvp sys ws (fst (fork p w)) (snd (fork p w)) = None"
    "cmd_input a = None" "cmd_output a = None"
  shows "execute_simple_command sys prof a ws k p w =
    (case k (SimpleC a ws) (fst (fork p w)) (snd (fork p w)) of
       None \<Rightarrow> None
     | Some (w', st) \<Rightarrow> (let c = SimpleC (a\<lparr>status := wexitstatus st\<rparr>) ws
                         in k c p (profile_line prof c p w')))"
  using assms
  by (simp add: execute_simple_command_def simple_child_def simple_parent_def split_beta
      redirect_in_def redirect_out_def split: option.split)

lemma known_command_runs_once:
  assumes "ws \<noteq> []" "execvp sys ws (fst (fork p w)) (snd (fork p w)) = Some (s, st)"
    "cmd_input a = None" "cmd_output a = None"
  shows "execute_simple_command sys prof a ws k p w =
    (let c = SimpleC (a\<lparr>status := wexitstatus st\<rparr>) ws
     in k c p (profile_line prof c p ((snd (fork p w))\<lparr>store := s\<rparr>)))"
  using assms
  by (simp add: execute_simple_command_def simple_child_def simple_parent_def split_beta
      redirect_in_def redirect_out_def)

text \<open>
  C32: when \<open>execvp\<close> fails the child does not exit: it returns into the interpreter and
  runs the rest of the script, which the parent then runs again. A script of \<open>m\<close> lines
  naming a program that does not exist, followed by one line that does, runs that last
  line \<open>2 ^ m\<close> times, and reports \<open>2 ^ m - 1\<close> commands that were not found.
\<close>

theorem shell_unknown_commands_double_the_rest:
  assumes "ws \<noteq> []" "vs \<noteq> []" "printcmd (SimpleC a ws) \<noteq> printcmd (SimpleC b vs)"
    and "\<And>p w. execvp sys ws p w = None" "\<And>p w. execvp sys vs p w \<noteq> None"
    and "cmd_input a = None" "cmd_output a = None" "cmd_input b = None" "cmd_output b = None"
  shows "\<exists>w' st. run_commands sys True (Suc n) l (replicate m (SimpleC a ws) @ [SimpleC b vs]) p w =
      Some (w', st) \<and>
    times_run (SimpleC b vs) w' = times_run (SimpleC b vs) w + 2 ^ m \<and>
    times_run (SimpleC a ws) w' = times_run (SimpleC a ws) w + (2 ^ m - 1)"
proof (induction m arbitrary: l p w)
  case 0
  obtain s st where run: "execvp sys vs (fst (fork p w)) (snd (fork p w)) = Some (s, st)"
    using assms(5) by fast
  show ?case using known_command_runs_once [OF assms(2) run assms(8,9)] assms(3)
    by (auto simp: Let_def times_run_profile_line fork_def)
next
  case (Suc m)
  let ?U = "SimpleC a ws" and ?G = "SimpleC b vs"
  let ?q = "fst (fork p w)" and ?v = "snd (fork p w)"
  obtain w1 st1 where child: "run_commands sys True (Suc n) (Some ?U) (replicate m ?U @ [?G]) ?q ?v =
      Some (w1, st1)"
    and c1: "times_run ?G w1 = times_run ?G ?v + 2 ^ m"
    and c2: "times_run ?U w1 = times_run ?U ?v + (2 ^ m - 1)"
    using Suc.IH by blast
  let ?U' = "SimpleC (a\<lparr>status := wexitstatus st1\<rparr>) ws"
  let ?w1 = "profile_line True ?U' p w1"
  obtain w2 st2 where parent: "run_commands sys True (Suc n) (Some ?U') (replicate m ?U @ [?G]) p ?w1 =
      Some (w2, st2)"
    and p1: "times_run ?G w2 = times_run ?G ?w1 + 2 ^ m"
    and p2: "times_run ?U w2 = times_run ?U ?w1 + (2 ^ m - 1)"
    using Suc.IH by blast
  have "run_commands sys True (Suc n) l (replicate (Suc m) ?U @ [?G]) p w = Some (w2, st2)"
    using unknown_command_forks_the_rest [OF assms(1) assms(4) assms(6,7)] child parent
    by (simp add: Let_def)
  moreover have "times_run ?G w2 = times_run ?G w + 2 ^ Suc m"
    using c1 p1 assms(3) by (simp add: times_run_profile_line fork_def)
  moreover have "times_run ?U w2 = times_run ?U w + (2 ^ Suc m - 1)"
  proof -
    have "times_run ?U w2 = times_run ?U w + (2 ^ m - 1) + 1 + (2 ^ m - 1)"
      using c2 p2 by (simp add: times_run_profile_line fork_def)
    moreover have "(1 :: nat) \<le> 2 ^ m" by simp
    ultimately show ?thesis by simp
  qed
  ultimately show ?case by blast
qed

theorem shell_unknown_commands_double_the_rest_witness:
  "\<exists>w' st. run_commands (demo_os\<lparr>program := \<lambda>args i out s. if args = [''ls''] then Some (s, 0) else None\<rparr>)
      True 1 None (replicate 3 (cmd [''sl'']) @ [cmd [''ls'']]) shell_proc empty_world = Some (w', st) \<and>
    times_run (cmd [''ls'']) w' = 8 \<and> times_run (cmd [''sl'']) w' = 7"
  using shell_unknown_commands_double_the_rest [where ws = "[''sl'']" and vs = "[''ls'']" and a = plain
      and b = plain and n = 0 and l = None and m = 3 and p = shell_proc and w = empty_world
      and sys = "demo_os\<lparr>program := \<lambda>args i out s. if args = [''ls''] then Some (s, 0) else None\<rparr>"]
  by (simp add: cmd_def plain_def execvp_def redirs_def times_run_def empty_world_def del: exec.simps
      run_commands.simps)

end
