(* ===== verification/ShellSpec.thy ===== *)
theory ShellSpec
  imports ShellRun
begin

text \<open>
  A reference semantics for shell scripts, with the exit statuses a shell is to compute:
  no processes, no profile, no nodes that are written to. The executor of the lab 1
  shell refines it on the scripts whose conditions are simple commands, whose
  redirections stand on simple commands, and whose programs all exist.
\<close>

section \<open>Reference semantics\<close>

datatype script =
    Cond script script "script option"
  | Pipeline script script
  | Then_do script script
  | Run "string option" "string option" "string list"
  | Group script
  | Until script script
  | While script script

text \<open>The files and pipes, and the number of pipes made so far.\<close>

type_synonym io_state = "store \<times> nat"

type_synonym eval = "script \<Rightarrow> chan \<Rightarrow> chan \<Rightarrow> io_state \<Rightarrow> (io_state \<times> int) option"

definition run_program ::
    "os \<Rightarrow> string list \<Rightarrow> chan \<Rightarrow> chan \<Rightarrow> io_state \<Rightarrow> io_state \<times> int" where
  "run_program sys ws i o' \<sigma> =
     (let args = (if hd ws = ''exec'' then tl ws else ws)
      in case program sys args i o' (fst \<sigma>) of
           None \<Rightarrow> (\<sigma>, 127)
         | Some (s, st) \<Rightarrow> ((s, snd \<sigma>), wexitstatus st))"

definition run_simple ::
    "os \<Rightarrow> string option \<Rightarrow> string option \<Rightarrow> string list \<Rightarrow> chan \<Rightarrow> chan \<Rightarrow> io_state \<Rightarrow> io_state \<times> int"
where
  "run_simple sys fi fo ws i o' \<sigma> =
     (let (s, q) = \<sigma>; i1 = (case fi of None \<Rightarrow> i | Some f \<Rightarrow> File f)
      in if fi \<noteq> None \<and> s (File (the fi)) = None then (\<sigma>, 1)
         else case fo of
                None \<Rightarrow> run_program sys ws i1 o' \<sigma>
              | Some f \<Rightarrow> if writable sys f
                          then run_program sys ws i1 (File f) (s(File f := Some []), q)
                          else (\<sigma>, 1))"

primrec repeat_loop :: "eval \<Rightarrow> bool \<Rightarrow> nat \<Rightarrow> script \<Rightarrow> script \<Rightarrow> chan \<Rightarrow> chan \<Rightarrow>
    io_state \<times> int \<Rightarrow> (io_state \<times> int) option" where
  "repeat_loop ev b 0 x y i o' r = None"
| "repeat_loop ev b (Suc n) x y i o' r =
     (if (snd r = 0) = b
      then (case ev y i o' (fst r) of
              None \<Rightarrow> None
            | Some (\<sigma>, _) \<Rightarrow>
                (case ev x i o' \<sigma> of None \<Rightarrow> None | Some r' \<Rightarrow> repeat_loop ev b n x y i o' r'))
      else Some (fst r, 0))"

fun eval_step :: "os \<Rightarrow> nat \<Rightarrow> eval \<Rightarrow> eval" where
  "eval_step sys n ev (Cond x y z) i o' \<sigma> =
     (case ev x i o' \<sigma> of
        None \<Rightarrow> None
      | Some (\<sigma>', st) \<Rightarrow>
          if st = 0 then ev y i o' \<sigma>'
          else (case z of None \<Rightarrow> Some (\<sigma>', 0) | Some e \<Rightarrow> ev e i o' \<sigma>'))"
| "eval_step sys n ev (Pipeline x y) i o' \<sigma> =
     (let ch = PipeCh (snd \<sigma>)
      in case ev x i ch ((fst \<sigma>)(ch := Some []), Suc (snd \<sigma>)) of
           None \<Rightarrow> None
         | Some (\<sigma>', _) \<Rightarrow> ev y ch o' \<sigma>')"
| "eval_step sys n ev (Then_do x y) i o' \<sigma> =
     (case ev x i o' \<sigma> of None \<Rightarrow> None | Some (\<sigma>', _) \<Rightarrow> ev y i o' \<sigma>')"
| "eval_step sys n ev (Run fi fo ws) i o' \<sigma> = Some (run_simple sys fi fo ws i o' \<sigma>)"
| "eval_step sys n ev (Group x) i o' \<sigma> = ev x i o' \<sigma>"
| "eval_step sys n ev (Until x y) i o' \<sigma> =
     (case ev x i o' \<sigma> of None \<Rightarrow> None | Some r \<Rightarrow> repeat_loop ev False n x y i o' r)"
| "eval_step sys n ev (While x y) i o' \<sigma> =
     (case ev x i o' \<sigma> of None \<Rightarrow> None | Some r \<Rightarrow> repeat_loop ev True n x y i o' r)"

primrec eval :: "os \<Rightarrow> nat \<Rightarrow> eval" where
  "eval sys 0 = (\<lambda>c i o' \<sigma>. None)"
| "eval sys (Suc n) = eval_step sys n (eval sys n)"

primrec eval_all :: "os \<Rightarrow> nat \<Rightarrow> script list \<Rightarrow> chan \<Rightarrow> chan \<Rightarrow> io_state \<times> int \<Rightarrow>
    (io_state \<times> int) option" where
  "eval_all sys n [] i o' r = Some r"
| "eval_all sys n (c # cs) i o' r =
     (case eval sys n c i o' (fst r) of None \<Rightarrow> None | Some r' \<Rightarrow> eval_all sys n cs i o' r')"

section \<open>From the code's trees to scripts\<close>

fun script_of :: "command \<Rightarrow> script" where
  "script_of (IfC a x y z) = Cond (script_of x) (script_of y) (map_option script_of z)"
| "script_of (PipeC a x y) = Pipeline (script_of x) (script_of y)"
| "script_of (SequenceC a x y) = Then_do (script_of x) (script_of y)"
| "script_of (SimpleC a ws) = Run (cmd_input a) (cmd_output a) ws"
| "script_of (SubshellC a x) = Group (script_of x)"
| "script_of (UntilC a x y) = Until (script_of x) (script_of y)"
| "script_of (WhileC a x y) = While (script_of x) (script_of y)"

text \<open>
  The scripts on which the shell is faithful. A lone \<open>exec\<close> is excluded with the
  empty command.
\<close>

definition no_redirs :: "attrs \<Rightarrow> bool" where
  "no_redirs a \<longleftrightarrow> cmd_input a = None \<and> cmd_output a = None"

fun covered :: "command \<Rightarrow> bool" where
  "covered (IfC a x y z) = (covered x \<and> \<not> compound x \<and> covered y \<and>
     (case z of None \<Rightarrow> True | Some e \<Rightarrow> covered e))"
| "covered (PipeC a x y) = (covered x \<and> covered y)"
| "covered (SequenceC a x y) = (covered x \<and> covered y)"
| "covered (SimpleC a ws) = (ws \<noteq> [] \<and> ws \<noteq> [''exec''])"
| "covered (SubshellC a x) = (no_redirs a \<and> covered x)"
| "covered (UntilC a x y) = (covered x \<and> \<not> compound x \<and> covered y)"
| "covered (WhileC a x y) = (covered x \<and> \<not> compound x \<and> covered y)"

definition programs_found :: "os \<Rightarrow> bool" where
  "programs_found sys \<longleftrightarrow> (\<forall>args i o' s. args \<noteq> [] \<longrightarrow> program sys args i o' s \<noteq> None)"

definition io_of :: "world \<Rightarrow> io_state" where
  "io_of w = (store w, next_pipe w)"

lemma io_of_simps [simp]:
  "io_of (profile_line prof c p w) = io_of w"
  "io_of (w\<lparr>next_pid := m\<rparr>) = io_of w"
  "io_of (w\<lparr>store := s\<rparr>) = (s, next_pipe w)"
  "fst (io_of w) = store w" "snd (io_of w) = next_pipe w"
  by (simp_all add: io_of_def profile_line_def)

section \<open>Simulation\<close>

text \<open>
  \<open>simulates ex ev c\<close>: a run of \<open>c\<close> ends in the state that the reference semantics
  computes and then calls its continuation, once and in the process that ran it, at a
  node for the same script, which carries the status if it is a simple command.
\<close>

definition lands ::
    "executor \<Rightarrow> command \<Rightarrow> proc \<Rightarrow> world \<Rightarrow> io_state \<Rightarrow> int \<Rightarrow> command \<Rightarrow> world \<Rightarrow> bool" where
  "lands ex c p w \<sigma> st c' w' \<longleftrightarrow> (\<forall>k. ex c k p w = k c' p w') \<and> io_of w' = \<sigma> \<and> covered c' \<and>
     script_of c' = script_of c \<and> compound c' = compound c \<and>
     command_status c' = (if compound c then command_status c else st)"

definition simulates :: "executor \<Rightarrow> eval \<Rightarrow> command \<Rightarrow> bool" where
  "simulates ex ev c \<longleftrightarrow>
     (\<forall>p w k. ev (script_of c) (fd0 p) (fd1 p) (io_of w) = None \<longrightarrow> ex c k p w = None) \<and>
     (\<forall>p w \<sigma> st. ev (script_of c) (fd0 p) (fd1 p) (io_of w) = Some (\<sigma>, st) \<longrightarrow>
        (\<exists>c' w'. lands ex c p w \<sigma> st c' w'))"

lemma simulatesI:
  assumes "\<And>p w k. ev (script_of c) (fd0 p) (fd1 p) (io_of w) = None \<Longrightarrow> ex c k p w = None"
    and "\<And>p w \<sigma> st. ev (script_of c) (fd0 p) (fd1 p) (io_of w) = Some (\<sigma>, st) \<Longrightarrow>
        \<exists>c' w'. lands ex c p w \<sigma> st c' w'"
  shows "simulates ex ev c"
  using assms unfolding simulates_def by blast

lemma simulates_none:
  "simulates ex ev c \<Longrightarrow> ev (script_of c) (fd0 p) (fd1 p) (io_of w) = None \<Longrightarrow> ex c k p w = None"
  unfolding simulates_def by blast

lemma simulates_some:
  assumes "simulates ex ev c" "ev (script_of c) (fd0 p) (fd1 p) (io_of w) = Some (\<sigma>, st)"
  obtains c' w' where "\<And>k. ex c k p w = k c' p w'" "io_of w' = \<sigma>" "covered c'"
    "script_of c' = script_of c" "compound c' = compound c"
    "command_status c' = (if compound c then command_status c else st)"
  using assms unfolding simulates_def lands_def by blast

lemma simulates_lands:
  assumes "simulates ex ev c" "ev (script_of c) (fd0 p) (fd1 p) \<sigma>' = Some (\<sigma>, st)" "io_of w = \<sigma>'"
  shows "\<exists>c' w'. (\<forall>k. ex c k p w = k c' p w') \<and> io_of w' = \<sigma> \<and> covered c' \<and> script_of c' = script_of c"
  using assms unfolding simulates_def lands_def by blast

lemma fork_simps [simp]:
  "fd0 (fst (fork p w)) = fd0 p" "fd1 (fst (fork p w)) = fd1 p"
  "io_of (snd (fork p w)) = io_of w"
  by (simp_all add: fork_def)

lemma execvp_found:
  assumes "programs_found sys" "ws \<noteq> []" "ws \<noteq> [''exec'']"
  shows "\<exists>s st. execvp sys ws p w = Some (s, st) \<and>
    (\<forall>q. run_program sys ws (fd0 p) (fd1 p) (store w, q) = ((s, q), wexitstatus st))"
proof -
  let ?args = "if hd ws = ''exec'' then tl ws else ws"
  have args: "?args \<noteq> []" using assms by (cases ws) auto
  then have "program sys ?args (fd0 p) (fd1 p) (store w) \<noteq> None"
    using assms(1) unfolding programs_found_def by blast
  then obtain s st where run: "program sys ?args (fd0 p) (fd1 p) (store w) = Some (s, st)"
    by auto
  show ?thesis unfolding execvp_def run_program_def Let_def fst_conv snd_conv run
    using args by simp
qed

lemma io_of_eq: "io_of w = (s, q) \<longleftrightarrow> store w = s \<and> next_pipe w = q"
  by (auto simp: io_of_def)

lemma simple_child_runs:
  assumes "programs_found sys" "ws \<noteq> []" "ws \<noteq> [''exec'']"
  shows "\<exists>w' st. simple_child sys a ws k p w = Some (w', st) \<and>
    run_simple sys (cmd_input a) (cmd_output a) ws (fd0 p) (fd1 p) (io_of w) = (io_of w', wexitstatus st)"
proof -
  have 1: "wexitstatus (exited 1) = 1" by (simp add: wexitstatus_def exited_def)
  show ?thesis
  proof (cases "redirect_in (cmd_input a) p w")
    case None
    then show ?thesis using 1
      by (auto simp: simple_child_def redirect_in_def run_simple_def io_of_def Let_def
          split: option.splits if_splits)
  next
    case (Some r)
    then obtain p1 where r: "r = (p1, w)"
      and p1: "fd0 p1 = (case cmd_input a of None \<Rightarrow> fd0 p | Some f \<Rightarrow> File f)" "fd1 p1 = fd1 p"
      and no_fail: "\<not> (cmd_input a \<noteq> None \<and> store w (File (the (cmd_input a))) = None)"
      by (auto simp: redirect_in_def split: option.splits if_splits)
    show ?thesis
    proof (cases "redirect_out sys (cmd_output a) p1 w")
      case None
      then show ?thesis using 1 Some r no_fail
        by (auto simp: simple_child_def redirect_out_def run_simple_def io_of_def Let_def
            split: option.splits if_splits)
    next
      case (Some r')
      obtain p2 w2 where r': "r' = (p2, w2)" by (cases r')
      obtain s st where *: "execvp sys ws p2 w2 = Some (s, st)"
        "\<And>q. run_program sys ws (fd0 p2) (fd1 p2) (store w2, q) = ((s, q), wexitstatus st)"
        using execvp_found [OF assms] by blast
      have "run_simple sys (cmd_input a) (cmd_output a) ws (fd0 p) (fd1 p) (io_of w) =
          run_program sys ws (fd0 p2) (fd1 p2) (store w2, next_pipe w2)"
        using Some r' no_fail p1
        by (auto simp: run_simple_def redirect_out_def io_of_def Let_def split: option.splits if_splits)
      then show ?thesis
        using * Some r' r \<open>redirect_in (cmd_input a) p w = Some r\<close> assms(2)
        by (simp add: simple_child_def io_of_def)
    qed
  qed
qed

lemma simple_child_ignores_cont:
  assumes "programs_found sys" "ws \<noteq> []" "ws \<noteq> [''exec'']"
  shows "simple_child sys a ws k p w = simple_child sys a ws k' p w"
proof -
  have "execvp sys ws p2 w2 \<noteq> None" for p2 w2 using execvp_found [OF assms, of p2 w2] by auto
  then show ?thesis
    by (auto simp: simple_child_def split: option.split) (metis option.distinct(1))
qed

lemma simple_simulates:
  assumes "programs_found sys" "covered (SimpleC a ws)"
  shows "simulates (execute_command sys prof n ex) (eval_step sys n ev) (SimpleC a ws)"
proof (rule simulatesI)
  fix p :: proc and w \<sigma> st
  assume ev: "eval_step sys n ev (script_of (SimpleC a ws)) (fd0 p) (fd1 p) (io_of w) = Some (\<sigma>, st)"
  let ?q = "fst (fork p w)" and ?v = "snd (fork p w)"
  have ws: "ws \<noteq> []" "ws \<noteq> [''exec'']" using assms(2) by auto
  obtain w1 st1 where run: "simple_child sys a ws exit_with_status ?q ?v = Some (w1, st1)"
    and ref: "run_simple sys (cmd_input a) (cmd_output a) ws (fd0 ?q) (fd1 ?q) (io_of ?v) =
      (io_of w1, wexitstatus st1)"
    using simple_child_runs [OF assms(1) ws] by blast
  let ?c = "SimpleC (a\<lparr>status := wexitstatus st1\<rparr>) ws"
  have eq: "execute_command sys prof n ex (SimpleC a ws) k p w = k ?c p (profile_line prof ?c p w1)" for k
    using simple_child_ignores_cont [OF assms(1) ws, of a k ?q ?v exit_with_status] run ws
    by (simp add: execute_simple_command_def simple_parent_def split_beta Let_def)
  have "\<sigma> = io_of w1" "st = wexitstatus st1" using ev ref by simp_all
  then have "lands (execute_command sys prof n ex) (SimpleC a ws) p w \<sigma> st ?c (profile_line prof ?c p w1)"
    using eq ws by (simp add: lands_def command_status_def)
  then show "\<exists>c' w'. lands (execute_command sys prof n ex) (SimpleC a ws) p w \<sigma> st c' w'" by blast
qed simp

lemma finish_lands:
  assumes "\<And>k. ex c k p w = finish prof k c' p w'" "io_of w' = \<sigma>" "covered c'"
    "script_of c' = script_of c" "compound c" "compound c'" "attrs_of c' = attrs_of c"
  shows "\<exists>c' w'. lands ex c p w \<sigma> st c' w'"
  using assms by (auto simp: lands_def finish_def command_status_def intro!: exI [of _ c']
      exI [of _ "profile_line prof c' p w'"])

lemma until_simulates:
  assumes sim: "\<And>c. covered c \<Longrightarrow> simulates ex ev c"
    and "covered x" "covered y" "\<not> compound x" "command_status x = snd r" "io_of w = fst r"
  shows "(repeat_loop ev False n (script_of x) (script_of y) (fd0 p) (fd1 p) r = None \<longrightarrow>
        until_loop ex prof n a x y k p w = None) \<and>
    (\<forall>\<sigma> st. repeat_loop ev False n (script_of x) (script_of y) (fd0 p) (fd1 p) r = Some (\<sigma>, st) \<longrightarrow>
      (\<exists>x' y' w'. (\<forall>k. until_loop ex prof n a x y k p w = finish prof k (UntilC a x' y') p w') \<and>
         io_of w' = \<sigma> \<and> covered (UntilC a x' y') \<and> script_of x' = script_of x \<and> script_of y' = script_of y))"
  using assms(2-)
proof (induction n arbitrary: x y w r)
  case (Suc n)
  show ?case
  proof (cases "snd r = 0")
    case True
    then show ?thesis using Suc.prems by auto
  next
    case False
    show ?thesis
    proof (cases "ev (script_of y) (fd0 p) (fd1 p) (io_of w)")
      case None
      then show ?thesis using False Suc.prems simulates_none [OF sim [OF Suc.prems(2)]] by simp
    next
      case (Some r1)
      obtain \<sigma>1 st1 where r1: "r1 = (\<sigma>1, st1)" by (cases r1)
      obtain y' w1 where y': "\<And>k. ex y k p w = k y' p w1" "io_of w1 = \<sigma>1" "covered y'"
        "script_of y' = script_of y"
        using simulates_some [OF sim [OF Suc.prems(2)] Some [unfolded r1]] by metis
      show ?thesis
      proof (cases "ev (script_of x) (fd0 p) (fd1 p) (io_of w1)")
        case None
        then show ?thesis using False Suc.prems Some r1 y'
            simulates_none [OF sim [OF Suc.prems(1)] None] by simp
      next
        case (Some r2)
        obtain x' w2 where x': "\<And>k. ex x k p w1 = k x' p w2" "io_of w2 = fst r2" "covered x'"
          "script_of x' = script_of x" "\<not> compound x'" "command_status x' = snd r2"
          using simulates_some [OF sim [OF Suc.prems(1)], of p w1 "fst r2" "snd r2"] Some Suc.prems(3)
          by (metis prod.collapse)
        show ?thesis
          using Suc.IH [OF x'(3) y'(3) x'(5,6,2)] False Suc.prems Some y' x'
            \<open>ev (script_of y) (fd0 p) (fd1 p) (io_of w) = Some r1\<close> r1 by simp
      qed
    qed
  qed
qed simp

lemma while_simulates:
  assumes sim: "\<And>c. covered c \<Longrightarrow> simulates ex ev c"
    and "covered x" "covered y" "\<not> compound x" "command_status x = snd r" "io_of w = fst r"
  shows "(repeat_loop ev True n (script_of x) (script_of y) (fd0 p) (fd1 p) r = None \<longrightarrow>
        while_loop ex prof n a x y k p w = None) \<and>
    (\<forall>\<sigma> st. repeat_loop ev True n (script_of x) (script_of y) (fd0 p) (fd1 p) r = Some (\<sigma>, st) \<longrightarrow>
      (\<exists>x' y' w'. (\<forall>k. while_loop ex prof n a x y k p w = finish prof k (WhileC a x' y') p w') \<and>
         io_of w' = \<sigma> \<and> covered (WhileC a x' y') \<and> script_of x' = script_of x \<and> script_of y' = script_of y))"
  using assms(2-)
proof (induction n arbitrary: x y w r)
  case (Suc n)
  show ?case
  proof (cases "snd r = 0")
    case False
    then show ?thesis using Suc.prems by auto
  next
    case True
    show ?thesis
    proof (cases "ev (script_of y) (fd0 p) (fd1 p) (io_of w)")
      case None
      then show ?thesis using True Suc.prems simulates_none [OF sim [OF Suc.prems(2)]] by simp
    next
      case (Some r1)
      obtain \<sigma>1 st1 where r1: "r1 = (\<sigma>1, st1)" by (cases r1)
      obtain y' w1 where y': "\<And>k. ex y k p w = k y' p w1" "io_of w1 = \<sigma>1" "covered y'"
        "script_of y' = script_of y"
        using simulates_some [OF sim [OF Suc.prems(2)] Some [unfolded r1]] by metis
      show ?thesis
      proof (cases "ev (script_of x) (fd0 p) (fd1 p) (io_of w1)")
        case None
        then show ?thesis using True Suc.prems Some r1 y'
            simulates_none [OF sim [OF Suc.prems(1)] None] by simp
      next
        case (Some r2)
        obtain x' w2 where x': "\<And>k. ex x k p w1 = k x' p w2" "io_of w2 = fst r2" "covered x'"
          "script_of x' = script_of x" "\<not> compound x'" "command_status x' = snd r2"
          using simulates_some [OF sim [OF Suc.prems(1)], of p w1 "fst r2" "snd r2"] Some Suc.prems(3)
          by (metis prod.collapse)
        show ?thesis
          using Suc.IH [OF x'(3) y'(3) x'(5,6,2)] True Suc.prems Some y' x'
            \<open>ev (script_of y) (fd0 p) (fd1 p) (io_of w) = Some r1\<close> r1 by simp
      qed
    qed
  qed
qed simp

lemma pass_no_redirs: "no_redirs a \<Longrightarrow> pass_redirs a x = x"
  by (cases x) (auto simp: pass_redirs_def no_redirs_def)

lemma io_of_setup [simp]:
  "io_of (snd (open_pipe w)) = ((store w)(PipeCh (next_pipe w) := Some []), Suc (next_pipe w))"
  by (simp add: open_pipe_def io_of_def)

lemma simulates_exit:
  assumes "simulates ex ev c" "ev (script_of c) (fd0 p) (fd1 p) (io_of w) = Some (\<sigma>, st)"
  shows "\<exists>w' st'. ex c exit_with_status p w = Some (w', st') \<and> io_of w' = \<sigma>"
  using simulates_some [OF assms] by (metis exit_with_status_def)

lemma pipe_simulates:
  assumes sim: "\<And>c. covered c \<Longrightarrow> simulates ex ev c" and c: "covered (PipeC a x y)"
  shows "simulates (execute_command sys prof n ex) (eval_step sys n ev) (PipeC a x y)"
proof (rule simulatesI)
  fix p :: proc and w and k :: cont
  let ?ch = "fst (open_pipe w)" and ?w0 = "snd (open_pipe w)"
  let ?p1 = "fst (fork p ?w0)" and ?w1 = "snd (fork p ?w0)"
  let ?p2 = "fst (fork ?p1 ?w1)" and ?w2 = "snd (fork ?p1 ?w1)"
  have x: "simulates ex ev x" and y: "simulates ex ev y" using sim c by auto
  have ch: "?ch = PipeCh (next_pipe w)" by (simp add: open_pipe_def)
  note left_none = simulates_none [OF x, of "?p2\<lparr>fd1 := ?ch\<rparr>" ?w2]
  note left = simulates_exit [OF x, of "?p2\<lparr>fd1 := ?ch\<rparr>" ?w2]
  note right_none = simulates_none [OF y, of "?p1\<lparr>fd0 := ?ch\<rparr>"]
  note right = simulates_exit [OF y, of "?p1\<lparr>fd0 := ?ch\<rparr>"]
  note defs = execute_pipe_command_def split_beta Let_def ch
  show "execute_command sys prof n ex (PipeC a x y) k p w = None"
    if "eval_step sys n ev (script_of (PipeC a x y)) (fd0 p) (fd1 p) (io_of w) = None"
  proof (cases "ev (script_of x) (fd0 p) ?ch (io_of ?w2)")
    case None
    then show ?thesis using left_none by (simp add: defs)
  next
    case (Some r)
    then obtain w3 st where 3: "ex x exit_with_status (?p2\<lparr>fd1 := ?ch\<rparr>) ?w2 = Some (w3, st)"
      "io_of w3 = fst r" using left [of "fst r" "snd r"] by auto
    have "ev (script_of y) ?ch (fd1 p) (io_of w3) = None"
      using that Some 3 by (simp add: defs split: option.splits prod.splits)
    then show ?thesis using 3 right_none by (simp add: defs)
  qed
next
  fix p :: proc and w \<sigma> st
  assume ev: "eval_step sys n ev (script_of (PipeC a x y)) (fd0 p) (fd1 p) (io_of w) = Some (\<sigma>, st)"
  let ?ch = "fst (open_pipe w)" and ?w0 = "snd (open_pipe w)"
  let ?p1 = "fst (fork p ?w0)" and ?w1 = "snd (fork p ?w0)"
  let ?p2 = "fst (fork ?p1 ?w1)" and ?w2 = "snd (fork ?p1 ?w1)"
  have x: "simulates ex ev x" and y: "simulates ex ev y" using sim c by auto
  have ch: "?ch = PipeCh (next_pipe w)" by (simp add: open_pipe_def)
  note defs = execute_pipe_command_def split_beta Let_def ch
  obtain \<sigma>' st1 where ev1: "ev (script_of x) (fd0 p) ?ch (io_of ?w2) = Some (\<sigma>', st1)"
    and ev2: "ev (script_of y) ?ch (fd1 p) \<sigma>' = Some (\<sigma>, st)"
    using ev by (auto simp: defs split: option.splits prod.splits)
  obtain w3 st3 where 3: "ex x exit_with_status (?p2\<lparr>fd1 := ?ch\<rparr>) ?w2 = Some (w3, st3)"
    "io_of w3 = \<sigma>'" using simulates_exit [OF x, of "?p2\<lparr>fd1 := ?ch\<rparr>" ?w2] ev1 by auto
  obtain w4 st4 where 4: "ex y exit_with_status (?p1\<lparr>fd0 := ?ch\<rparr>) w3 = Some (w4, st4)"
    "io_of w4 = \<sigma>" using simulates_exit [OF y, of "?p1\<lparr>fd0 := ?ch\<rparr>" w3] ev2 3(2) by auto
  show "\<exists>c' w'. lands (execute_command sys prof n ex) (PipeC a x y) p w \<sigma> st c' w'"
    by (rule finish_lands [where c' = "PipeC a x y" and w' = w4 and prof = prof])
      (use 3 4 c in \<open>simp_all add: defs\<close>)
qed

lemma sequence_simulates:
  assumes sim: "\<And>c. covered c \<Longrightarrow> simulates ex ev c" and c: "covered (SequenceC a x y)"
  shows "simulates (execute_command sys prof n ex) (eval_step sys n ev) (SequenceC a x y)"
proof (rule simulatesI)
  fix p :: proc and w and k :: cont
  assume ev: "eval_step sys n ev (script_of (SequenceC a x y)) (fd0 p) (fd1 p) (io_of w) = None"
  show "execute_command sys prof n ex (SequenceC a x y) k p w = None"
  proof (cases "ev (script_of x) (fd0 p) (fd1 p) (io_of w)")
    case None
    then show ?thesis using c simulates_none [OF sim] by (simp add: execute_sequence_command_def)
  next
    case (Some r)
    have cov: "covered x" "covered y" using c by auto
    have evx: "ev (script_of x) (fd0 p) (fd1 p) (io_of w) = Some (fst r, snd r)" using Some by simp
    obtain x' w1 where "\<And>k. ex x k p w = k x' p w1" "io_of w1 = fst r"
      by (rule simulates_some [OF sim [OF cov(1)] evx]) (rule that)
    then show ?thesis using evx ev simulates_none [OF sim [OF cov(2)], of p w1]
      by (simp add: execute_sequence_command_def split_beta)
  qed
next
  fix p :: proc and w \<sigma> st
  assume ev: "eval_step sys n ev (script_of (SequenceC a x y)) (fd0 p) (fd1 p) (io_of w) = Some (\<sigma>, st)"
  then obtain \<sigma>' st1 where ev1: "ev (script_of x) (fd0 p) (fd1 p) (io_of w) = Some (\<sigma>', st1)"
    and ev2: "ev (script_of y) (fd0 p) (fd1 p) \<sigma>' = Some (\<sigma>, st)"
    by (auto split: option.splits prod.splits)
  obtain x' w1 where x': "\<And>k. ex x k p w = k x' p w1" "io_of w1 = \<sigma>'" "covered x'"
    "script_of x' = script_of x" using simulates_lands [OF sim ev1 refl] c by auto
  obtain y' w2 where y': "\<And>k. ex y k p w1 = k y' p w2" "io_of w2 = \<sigma>" "covered y'"
    "script_of y' = script_of y" using simulates_lands [OF sim ev2 x'(2)] c by auto
  show "\<exists>c' w'. lands (execute_command sys prof n ex) (SequenceC a x y) p w \<sigma> st c' w'"
    by (rule finish_lands [where c' = "SequenceC a x' y'" and w' = w2 and prof = prof])
      (use x' y' in \<open>simp_all add: execute_sequence_command_def\<close>)
qed

lemma if_simulates:
  assumes sim: "\<And>c. covered c \<Longrightarrow> simulates ex ev c" and c: "covered (IfC a x y z)"
  shows "simulates (execute_command sys prof n ex) (eval_step sys n ev) (IfC a x y z)"
proof (rule simulatesI)
  fix p :: proc and w and k :: cont
  assume ev: "eval_step sys n ev (script_of (IfC a x y z)) (fd0 p) (fd1 p) (io_of w) = None"
  show "execute_command sys prof n ex (IfC a x y z) k p w = None"
  proof (cases "ev (script_of x) (fd0 p) (fd1 p) (io_of w)")
    case None
    then show ?thesis using c simulates_none [OF sim] by (simp add: execute_if_command_def)
  next
    case (Some r)
    have cov: "covered x" "\<not> compound x" "covered y" "\<And>e. z = Some e \<Longrightarrow> covered e" using c by auto
    have evx: "ev (script_of x) (fd0 p) (fd1 p) (io_of w) = Some (fst r, snd r)" using Some by simp
    obtain x' w1 where x': "\<And>k. ex x k p w = k x' p w1" "io_of w1 = fst r" "command_status x' = snd r"
      using simulates_some [OF sim [OF cov(1)] evx] cov(2) by metis
    show ?thesis
    proof (cases "snd r = 0")
      case True
      then show ?thesis using x' evx ev simulates_none [OF sim [OF cov(3)], of p w1]
        by (simp add: execute_if_command_def split_beta)
    next
      case False
      then obtain e where "z = Some e" using evx ev by (cases z) (auto simp: split_beta)
      then show ?thesis using False x' evx ev simulates_none [OF sim [OF cov(4)], of e p w1]
        by (simp add: execute_if_command_def split_beta)
    qed
  qed
next
  fix p :: proc and w \<sigma> st
  let ?goal = "\<exists>c' w'. lands (execute_command sys prof n ex) (IfC a x y z) p w \<sigma> st c' w'"
  assume ev: "eval_step sys n ev (script_of (IfC a x y z)) (fd0 p) (fd1 p) (io_of w) = Some (\<sigma>, st)"
  then obtain \<sigma>' st1 where ev1: "ev (script_of x) (fd0 p) (fd1 p) (io_of w) = Some (\<sigma>', st1)"
    by (auto split: option.splits prod.splits)
  obtain x' w1 where x': "\<And>k. ex x k p w = k x' p w1" "io_of w1 = \<sigma>'" "covered x'"
    "script_of x' = script_of x" "\<not> compound x'" "command_status x' = st1"
    using simulates_some [OF sim ev1] c by auto
  show ?goal
  proof (cases "st1 = 0")
    case True
    then have ev2: "ev (script_of y) (fd0 p) (fd1 p) \<sigma>' = Some (\<sigma>, st)" using ev ev1 by simp
    obtain y' w2 where y': "\<And>k. ex y k p w1 = k y' p w2" "io_of w2 = \<sigma>" "covered y'"
      "script_of y' = script_of y" using simulates_lands [OF sim ev2 x'(2)] c by auto
    show ?thesis
      by (rule finish_lands [where c' = "IfC a x' y' z" and w' = w2 and prof = prof])
        (use x' y' c True in \<open>simp_all add: execute_if_command_def\<close>)
  next
    case False
    show ?thesis
    proof (cases z)
      case None
      show ?thesis
        by (rule finish_lands [where c' = "IfC a x' y z" and w' = w1 and prof = prof])
          (use x' c False None ev ev1 in \<open>simp_all add: execute_if_command_def\<close>)
    next
      case (Some e)
      then have ev2: "ev (script_of e) (fd0 p) (fd1 p) \<sigma>' = Some (\<sigma>, st)"
        using ev ev1 False by simp
      obtain e' w2 where e': "\<And>k. ex e k p w1 = k e' p w2" "io_of w2 = \<sigma>" "covered e'"
        "script_of e' = script_of e" using simulates_lands [OF sim ev2 x'(2)] c Some by auto
      show ?thesis
        by (rule finish_lands [where c' = "IfC a x' y (Some e')" and w' = w2 and prof = prof])
          (use x' e' c False Some in \<open>simp_all add: execute_if_command_def\<close>)
    qed
  qed
qed

lemma subshell_simulates:
  assumes sim: "\<And>c. covered c \<Longrightarrow> simulates ex ev c" and c: "covered (SubshellC a x)"
  shows "simulates (execute_command sys prof n ex) (eval_step sys n ev) (SubshellC a x)"
proof (rule simulatesI)
  fix p :: proc and w and k :: cont
  assume "eval_step sys n ev (script_of (SubshellC a x)) (fd0 p) (fd1 p) (io_of w) = None"
  then show "execute_command sys prof n ex (SubshellC a x) k p w = None"
    using c simulates_none [OF sim] by (simp add: execute_subshell_command_def pass_no_redirs)
next
  fix p :: proc and w \<sigma> st
  assume ev: "eval_step sys n ev (script_of (SubshellC a x)) (fd0 p) (fd1 p) (io_of w) = Some (\<sigma>, st)"
  obtain x' w1 where x': "\<And>k. ex x k p w = k x' p w1" "io_of w1 = \<sigma>" "covered x'"
    "script_of x' = script_of x"
  proof -
    have "covered x" "ev (script_of x) (fd0 p) (fd1 p) (io_of w) = Some (\<sigma>, st)" using ev c by auto
    then show thesis by (rule simulates_some [OF sim]) (rule that)
  qed
  show "\<exists>c' w'. lands (execute_command sys prof n ex) (SubshellC a x) p w \<sigma> st c' w'"
    by (rule finish_lands [where c' = "SubshellC a x'" and w' = w1 and prof = prof])
      (use x' c in \<open>simp_all add: execute_subshell_command_def pass_no_redirs\<close>)
qed

lemma until_command_simulates:
  assumes sim: "\<And>c. covered c \<Longrightarrow> simulates ex ev c" and c: "covered (UntilC a x y)"
  shows "simulates (execute_command sys prof n ex) (eval_step sys n ev) (UntilC a x y)"
proof -
  have cx: "covered x" "\<not> compound x" "covered y" using c by auto
  note loop = until_simulates [of ex ev, OF sim]
  show ?thesis
  proof (rule simulatesI)
    fix p :: proc and w and k :: cont
    assume ev: "eval_step sys n ev (script_of (UntilC a x y)) (fd0 p) (fd1 p) (io_of w) = None"
    show "execute_command sys prof n ex (UntilC a x y) k p w = None"
    proof (cases "ev (script_of x) (fd0 p) (fd1 p) (io_of w)")
      case None
      then show ?thesis using simulates_none [OF sim [OF cx(1)]]
        by (simp add: execute_until_command_def)
    next
      case (Some r)
      then obtain x' w1 where x': "\<And>k. ex x k p w = k x' p w1" "io_of w1 = fst r" "covered x'"
        "script_of x' = script_of x" "\<not> compound x'" "command_status x' = snd r"
        using simulates_some [OF sim [OF cx(1)], of p w "fst r" "snd r"] cx(2) by (metis prod.collapse)
      show ?thesis using loop [OF _ x'(3) cx(3) x'(5,6,2)] x' Some ev
        by (simp add: execute_until_command_def)
    qed
  next
    fix p :: proc and w \<sigma> st
    assume ev: "eval_step sys n ev (script_of (UntilC a x y)) (fd0 p) (fd1 p) (io_of w) = Some (\<sigma>, st)"
    then obtain r where ev1: "ev (script_of x) (fd0 p) (fd1 p) (io_of w) = Some r"
      and ev2: "repeat_loop ev False n (script_of x) (script_of y) (fd0 p) (fd1 p) r = Some (\<sigma>, st)"
      by (auto split: option.splits)
    obtain x' w1 where x': "\<And>k. ex x k p w = k x' p w1" "io_of w1 = fst r" "covered x'"
      "script_of x' = script_of x" "\<not> compound x'" "command_status x' = snd r"
      using simulates_some [OF sim [OF cx(1)], of p w "fst r" "snd r"] ev1 cx(2) by (metis prod.collapse)
    obtain x2 y2 w2 where 2: "\<forall>k. until_loop ex prof n a x' y k p w1 = finish prof k (UntilC a x2 y2) p w2"
      "io_of w2 = \<sigma>" "covered (UntilC a x2 y2)" "script_of x2 = script_of x" "script_of y2 = script_of y"
      using loop [OF _ x'(3) cx(3) x'(5,6,2)] ev2 x'(4) by metis
    show "\<exists>c' w'. lands (execute_command sys prof n ex) (UntilC a x y) p w \<sigma> st c' w'"
      by (rule finish_lands [where c' = "UntilC a x2 y2" and w' = w2 and prof = prof])
        (use x'(1) 2 in \<open>simp_all add: execute_until_command_def\<close>)
  qed
qed

lemma while_command_simulates:
  assumes sim: "\<And>c. covered c \<Longrightarrow> simulates ex ev c" and c: "covered (WhileC a x y)"
  shows "simulates (execute_command sys prof n ex) (eval_step sys n ev) (WhileC a x y)"
proof -
  have cx: "covered x" "\<not> compound x" "covered y" using c by auto
  note loop = while_simulates [of ex ev, OF sim]
  show ?thesis
  proof (rule simulatesI)
    fix p :: proc and w and k :: cont
    assume ev: "eval_step sys n ev (script_of (WhileC a x y)) (fd0 p) (fd1 p) (io_of w) = None"
    show "execute_command sys prof n ex (WhileC a x y) k p w = None"
    proof (cases "ev (script_of x) (fd0 p) (fd1 p) (io_of w)")
      case None
      then show ?thesis using simulates_none [OF sim [OF cx(1)]]
        by (simp add: execute_while_command_def)
    next
      case (Some r)
      then obtain x' w1 where x': "\<And>k. ex x k p w = k x' p w1" "io_of w1 = fst r" "covered x'"
        "script_of x' = script_of x" "\<not> compound x'" "command_status x' = snd r"
        using simulates_some [OF sim [OF cx(1)], of p w "fst r" "snd r"] cx(2) by (metis prod.collapse)
      show ?thesis using loop [OF _ x'(3) cx(3) x'(5,6,2)] x' Some ev
        by (simp add: execute_while_command_def)
    qed
  next
    fix p :: proc and w \<sigma> st
    assume ev: "eval_step sys n ev (script_of (WhileC a x y)) (fd0 p) (fd1 p) (io_of w) = Some (\<sigma>, st)"
    then obtain r where ev1: "ev (script_of x) (fd0 p) (fd1 p) (io_of w) = Some r"
      and ev2: "repeat_loop ev True n (script_of x) (script_of y) (fd0 p) (fd1 p) r = Some (\<sigma>, st)"
      by (auto split: option.splits)
    obtain x' w1 where x': "\<And>k. ex x k p w = k x' p w1" "io_of w1 = fst r" "covered x'"
      "script_of x' = script_of x" "\<not> compound x'" "command_status x' = snd r"
      using simulates_some [OF sim [OF cx(1)], of p w "fst r" "snd r"] ev1 cx(2) by (metis prod.collapse)
    obtain x2 y2 w2 where 2: "\<forall>k. while_loop ex prof n a x' y k p w1 = finish prof k (WhileC a x2 y2) p w2"
      "io_of w2 = \<sigma>" "covered (WhileC a x2 y2)" "script_of x2 = script_of x" "script_of y2 = script_of y"
      using loop [OF _ x'(3) cx(3) x'(5,6,2)] ev2 x'(4) by metis
    show "\<exists>c' w'. lands (execute_command sys prof n ex) (WhileC a x y) p w \<sigma> st c' w'"
      by (rule finish_lands [where c' = "WhileC a x2 y2" and w' = w2 and prof = prof])
        (use x'(1) 2 in \<open>simp_all add: execute_while_command_def\<close>)
  qed
qed

lemma execute_command_simulates:
  assumes "programs_found sys" "covered c" "\<And>c. covered c \<Longrightarrow> simulates ex ev c"
  shows "simulates (execute_command sys prof n ex) (eval_step sys n ev) c"
proof (cases c)
  case (IfC a x y z)
  with assms(2) show ?thesis by (simp only: if_simulates [of ex ev, OF assms(3)])
next
  case (PipeC a x y)
  with assms(2) show ?thesis by (simp only: pipe_simulates [of ex ev, OF assms(3)])
next
  case (SequenceC a x y)
  with assms(2) show ?thesis by (simp only: sequence_simulates [of ex ev, OF assms(3)])
next
  case (SimpleC a ws)
  with assms(2) show ?thesis by (simp only: simple_simulates [OF assms(1)])
next
  case (SubshellC a x)
  with assms(2) show ?thesis by (simp only: subshell_simulates [of ex ev, OF assms(3)])
next
  case (UntilC a x y)
  with assms(2) show ?thesis by (simp only: until_command_simulates [of ex ev, OF assms(3)])
next
  case (WhileC a x y)
  with assms(2) show ?thesis by (simp only: while_command_simulates [of ex ev, OF assms(3)])
qed

lemma exec_simulates:
  assumes "programs_found sys" "covered c"
  shows "simulates (exec sys prof n) (eval sys n) c"
  using assms(2)
proof (induction n arbitrary: c)
  case 0
  show ?case by (rule simulatesI) simp_all
next
  case (Suc n)
  show ?case using execute_command_simulates [OF assms(1) Suc.prems Suc.IH] by simp
qed

section \<open>Whole scripts\<close>

text \<open>The exit status that the last node of the script has after the run.\<close>

definition reported :: "command \<Rightarrow> int \<Rightarrow> int" where
  "reported c st = (if compound c then command_status c else st)"

lemma run_commands_simulates:
  assumes "programs_found sys" "\<forall>c \<in> set cs. covered c"
    and "io_of w = fst r" "cs = [] \<longrightarrow> last_cmd \<noteq> None \<and> command_status (the last_cmd) = s0"
  shows "case eval_all sys n (List.map script_of cs) (fd0 p) (fd1 p) r of
      None \<Rightarrow> run_commands sys prof n last_cmd cs p w = None
    | Some (\<sigma>, st) \<Rightarrow> \<exists>w'. run_commands sys prof n last_cmd cs p w =
        Some (w', exited (if cs = [] then s0 else reported (last cs) st)) \<and> io_of w' = \<sigma>"
  using assms(2-4)
proof (induction cs arbitrary: w r last_cmd s0)
  case Nil
  then show ?case by (auto split: prod.split)
next
  case (Cons c cs)
  note sim = exec_simulates [OF assms(1), where c = c and n = n and prof = prof]
  have c: "covered c" using Cons.prems by simp
  show ?case
  proof (cases "eval sys n (script_of c) (fd0 p) (fd1 p) (io_of w)")
    case None
    then show ?thesis using simulates_none [OF sim [OF c]] Cons.prems by simp
  next
    case (Some r1)
    obtain c' w1 where c': "\<And>k. exec sys prof n c k p w = k c' p w1" "io_of w1 = fst r1"
      "compound c' = compound c" "command_status c' = reported c (snd r1)"
      using simulates_some [OF sim [OF c], of p w "fst r1" "snd r1"] Some
      unfolding reported_def by (metis prod.collapse)
    let ?s = "command_status c'"
    have "case eval_all sys n (List.map script_of cs) (fd0 p) (fd1 p) r1 of
        None \<Rightarrow> run_commands sys prof n (Some c') cs p w1 = None
      | Some (\<sigma>, st) \<Rightarrow> \<exists>w'. run_commands sys prof n (Some c') cs p w1 =
          Some (w', exited (if cs = [] then ?s else reported (last cs) st)) \<and> io_of w' = \<sigma>"
      by (rule Cons.IH) (use Cons.prems c' in auto)
    then show ?thesis using Some c' Cons.prems by (auto split: option.splits if_splits)
  qed
qed


text \<open>A script that counts with files: the loop of the witness ends after one round.\<close>

definition counting_os :: os where
  "counting_os = \<lparr>writable = \<lambda>_. True, program = \<lambda>args i out s.
     if args = [''touch''] then Some (s(File ''x'' := Some []), exited 0)
     else if args = [''test''] then Some (s, exited (if s (File ''x'') = None then 1 else 0))
     else Some (s, exited 3)\<rparr>"


end
