(* ===== verification/ShellParse.thy ===== *)
theory ShellParse
  imports ShellExec
begin

text \<open>
  The script parser of the lab 1 shell, \<open>src/lab1/read-command.c\<close>: the character classes,
  the tokenizers, the look-ahead that guesses the type of the next command and the recursive
  descent that builds the command tree.

  The parser works on a buffer and on two counters, the position in the buffer and the line
  number. The buffer is the script followed by one nul, \<open>BUFFER_SIZE\<close> is the length of the
  script. What lies behind the nul is not initialised; a read there, a call of a string
  function on a null pointer and a dereference of one are the error \<open>Undefined\<close>. Every
  \<open>exit(1)\<close> is the error \<open>Exit\<close> with the line number that is reported and the message.
  A call deeper than the given number of frames is \<open>Too_deep\<close>, and \<open>Memory_exhausted\<close> the
  exit of the allocator. A string that the code reads
  back as a C string ends at its first nul. Line numbers do not overflow, and \<open>malloc\<close> returns
  at least one byte more than a word needs (\<open>get_next_word\<close> writes its nul there).
\<close>

section \<open>State, errors, sequencing\<close>

record pstate =
  index :: nat
  num_line :: nat

datatype message =
    Invalid_character char
  | Unexpected string
  | Incomplete string string
  | More_than_one string
  | Missing_file string
  | Missing_before string
  | Missing string
  | Null_command
  | Invalid_syntax
  | Redundancy

datatype perror = Exit nat message | Undefined | Too_deep | Memory_exhausted

type_synonym 'a parser = "pstate \<Rightarrow> perror + 'a \<times> pstate"

definition ret :: "'a \<Rightarrow> 'a parser" where
  "ret x s = Inr (x, s)"

definition exit1 :: "message \<Rightarrow> 'a parser" where
  "exit1 msg s = Inl (Exit (num_line s) msg)"

definition undefined_read :: "'a parser" where
  "undefined_read s = Inl Undefined"

definition andthen :: "'a parser \<Rightarrow> ('a \<Rightarrow> 'b parser) \<Rightarrow> 'b parser" where
  "andthen p f s = (case p s of Inl e \<Rightarrow> Inl e | Inr (x, s') \<Rightarrow> f x s')"

definition advance :: "nat \<Rightarrow> unit parser" where
  "advance n s = Inr ((), s\<lparr>index := index s + n\<rparr>)"

definition retreat :: "nat \<Rightarrow> unit parser" where
  "retreat n s = Inr ((), s\<lparr>index := index s - n\<rparr>)"

definition new_line :: "pstate \<Rightarrow> pstate" where
  "new_line s = s\<lparr>num_line := num_line s + 1\<rparr>"

definition step :: "pstate \<Rightarrow> pstate" where
  "step s = s\<lparr>index := index s + 1\<rparr>"

definition count_line :: "char \<Rightarrow> pstate \<Rightarrow> pstate" where
  "count_line c s = (if c = CHR 0x0A then new_line s else s)"

lemma state_simps [simp]:
  "index (new_line s) = index s" "num_line (new_line s) = num_line s + 1"
  "index (step s) = index s + 1" "num_line (step s) = num_line s"
  "index (count_line c s) = index s"
  by (simp_all add: new_line_def step_def count_line_def)

definition buffer_size :: "string \<Rightarrow> nat" where
  "buffer_size buf = length buf - 1"

text \<open>\<open>EOF\<close> is -1, which a signed \<open>char\<close> with all bits set equals.\<close>

definition eof_char :: char where
  "eof_char = CHR 0xFF"

section \<open>Characters and tokens\<close>

definition between :: "char \<Rightarrow> char \<Rightarrow> char \<Rightarrow> bool" where
  "between a b c \<longleftrightarrow> of_char a \<le> (of_char c :: nat) \<and> of_char c \<le> (of_char b :: nat)"

definition is_valid_char :: "char \<Rightarrow> bool" where
  "is_valid_char c \<longleftrightarrow> between (CHR ''0'') (CHR ''9'') c \<or> between (CHR ''a'') (CHR ''z'') c
     \<or> between (CHR ''A'') (CHR ''Z'') c \<or> c \<in> set ''%+,-.!/:@^_*''"

definition is_special_char :: "char \<Rightarrow> bool" where
  "is_special_char c \<longleftrightarrow> c \<in> set '';|()<>''"

definition is_blank :: "char \<Rightarrow> bool" where
  "is_blank c \<longleftrightarrow> c = CHR '' '' \<or> c = CHR 0x09"

definition is_space :: "char \<Rightarrow> bool" where
  "is_space c \<longleftrightarrow> is_blank c \<or> c = CHR 0x0A"

definition c_str :: "string \<Rightarrow> string" where
  "c_str w = takeWhile (\<lambda>c. c \<noteq> CHR 0x00) w"

text \<open>To the end of a comment; the loop does not stop at the end of the buffer.\<close>

function skip_comment :: "string \<Rightarrow> pstate \<Rightarrow> perror + pstate" where
  "skip_comment buf s =
     (if index s \<ge> length buf then Inl Undefined
      else if buf ! index s = eof_char then Inr s
      else if buf ! index s = CHR 0x0A then Inr (new_line s)
      else skip_comment buf (step s))"
  by pat_completeness auto
termination
  by (relation "measure (\<lambda>(buf, s). length buf - index s)") auto

declare skip_comment.simps [simp del]

lemma skip_comment_index:
  "skip_comment buf s = Inr s' \<Longrightarrow> index s \<le> index s' \<and> index s' < length buf"
proof (induction buf s rule: skip_comment.induct)
  case (1 buf s)
  from 1(2) show ?case
    by (subst (asm) skip_comment.simps) (use 1(1) in \<open>auto split: if_splits\<close>)
qed

text \<open>The first loop of \<open>get_next_word\<close>.\<close>

function skip_blanks :: "string \<Rightarrow> pstate \<Rightarrow> perror + pstate" where
  "skip_blanks buf s =
     (if index s \<ge> length buf then Inl Undefined
      else
        let c = buf ! index s in
        if (is_space c \<or> c = CHR ''#'' \<or> c = CHR 0x5C) \<and> index s < buffer_size buf then
          (case (if c = CHR ''#'' \<or> c = CHR 0x5C then skip_comment buf s else Inr s) of
             Inl e \<Rightarrow> Inl e
           | Inr s1 \<Rightarrow> skip_blanks buf (step (count_line (buf ! index s1) s1)))
        else Inr s)"
  by pat_completeness auto
termination
  by (relation "measure (\<lambda>(buf, s). length buf - index s)")
    (auto split: if_splits dest!: skip_comment_index)

declare skip_blanks.simps [simp del]

definition get_next_word :: "string \<Rightarrow> string option parser" where
  "get_next_word buf s =
     (case skip_blanks buf s of
        Inl e \<Rightarrow> Inl e
      | Inr s1 \<Rightarrow>
          let w = takeWhile (\<lambda>c. is_valid_char c \<and> c \<noteq> eof_char) (drop (index s1) buf)
          in Inr (if w = [] then (None, s1) else (Some w, s1\<lparr>index := index s1 + length w\<rparr>)))"

text \<open>
  \<open>read_next_token\<close> looks at the buffer up to \<open>size\<close> and does not move; its callers pass a
  \<open>size\<close> inside the buffer.
\<close>

definition token_char :: "char \<Rightarrow> bool" where
  "token_char c \<longleftrightarrow> \<not> is_space c \<and> c \<noteq> eof_char"

definition read_next_token :: "string \<Rightarrow> nat \<Rightarrow> nat \<Rightarrow> string option" where
  "read_next_token buf i sz =
     (if i \<ge> sz then None
      else Some (c_str (takeWhile token_char (dropWhile is_space (drop i (take sz buf))))))"

text \<open>
  \<open>read_next_token2\<close> returns the token and the position behind it, and null at a newline or
  when there is no token. The blanks it skips are not bounded by \<open>size\<close>.
\<close>

definition read_next_token2 :: "string \<Rightarrow> nat \<Rightarrow> nat \<Rightarrow> (string \<times> nat) option" where
  "read_next_token2 buf i sz =
     (let j = i + length (takeWhile is_blank (drop i buf));
          token = takeWhile token_char (drop j (take sz buf))
      in if token = [] then None else Some (c_str token, j + length token))"

text \<open>The loop of \<open>make_command_stream\<close> over a comment line.\<close>

function read_comments_loop :: "string \<Rightarrow> nat \<Rightarrow> nat" where
  "read_comments_loop buf i =
     (if i < buffer_size buf \<and> buf ! i \<noteq> CHR 0x0A then read_comments_loop buf (i + 1) else i)"
  by pat_completeness auto
termination
  by (relation "measure (\<lambda>(buf, i). buffer_size buf - i)") auto

declare read_comments_loop.simps [simp del]

definition read_comments :: "string \<Rightarrow> pstate \<Rightarrow> pstate" where
  "read_comments buf s = new_line (s\<lparr>index := read_comments_loop buf (index s)\<rparr>)"

section \<open>The look-ahead\<close>

datatype command_type = IF_COMMAND | PIPE_COMMAND | SEQUENCE_COMMAND | SIMPLE_COMMAND
  | SUBSHELL_COMMAND | UNTIL_COMMAND | WHILE_COMMAND

definition reserved :: "string set" where
  "reserved = {''if'', ''else'', ''then'', ''while'', ''until'', ''do'', ''done'', ''fi''}"

definition seq_stops :: "string set" where
  "seq_stops = reserved \<union> {''in'', ''esac''}"

text \<open>\<open>strchr\<close> of a bar, and the character behind the first bar is not a second one.\<close>

definition single_bar :: "string \<Rightarrow> bool" where
  "single_bar w = (case dropWhile (\<lambda>c. c \<noteq> CHR ''|'') w of
     [] \<Rightarrow> False | _ # r \<Rightarrow> r = [] \<or> hd r \<noteq> CHR ''|'')"

text \<open>
  The two loops over the words of the rest of the line: does one of them pass the test before
  one of the stop words?
\<close>

function scan_words :: "(string \<Rightarrow> bool) \<Rightarrow> string set \<Rightarrow> string \<Rightarrow> nat \<Rightarrow> nat \<Rightarrow> bool" where
  "scan_words test stops buf sz tmp =
     (case read_next_token2 buf tmp sz of
        None \<Rightarrow> False
      | Some (w, tmp') \<Rightarrow> w \<notin> stops \<and> (test w \<or> scan_words test stops buf sz tmp'))"
  by pat_completeness auto

lemma read_next_token2_moves:
  "read_next_token2 buf i sz = Some (w, j) \<Longrightarrow> i < j \<and> j \<le> length buf"
proof -
  assume a: "read_next_token2 buf i sz = Some (w, j)"
  let ?j = "i + length (takeWhile is_blank (drop i buf))"
  let ?t = "takeWhile token_char (drop ?j (take sz buf))"
  have j: "j = ?j + length ?t" "?t \<noteq> []" using a by (auto simp: read_next_token2_def Let_def split: if_splits)
  have "length ?t \<le> length (drop ?j (take sz buf))" by (rule length_takeWhile_le)
  then show ?thesis using j by (cases ?t) auto
qed

termination scan_words
  by (relation "measure (\<lambda>(_, _, buf, _, tmp). length buf - tmp)")
    (auto dest!: read_next_token2_moves)

declare scan_words.simps [simp del]

text \<open>What the first word says; \<open>Inl\<close> is the message, \<open>None\<close> no decision.\<close>

definition first_word :: "string \<Rightarrow> message + command_type option" where
  "first_word w =
     (if w \<noteq> [] \<and> hd w = CHR ''('' then Inr (Some SUBSHELL_COMMAND)
      else if w = ''if'' then Inr (Some IF_COMMAND)
      else if w = ''while'' then Inr (Some WHILE_COMMAND)
      else if w = ''until'' then Inr (Some UNTIL_COMMAND)
      else if w = ''do'' \<or> w = ''done'' \<or> w = ''else'' \<or> w = ''fi'' \<or> w = ''then'' then Inl (Unexpected w)
      else if w \<noteq> [] \<and> hd w = CHR '')'' then Inl (Unexpected '')'')
      else if single_bar w then Inr (Some PIPE_COMMAND)
      else Inr None)"

definition line_type :: "string \<Rightarrow> nat \<Rightarrow> nat \<Rightarrow> string \<Rightarrow> command_type" where
  "line_type buf i sz w =
     (if scan_words single_bar reserved buf sz i then PIPE_COMMAND
      else if CHR '';'' \<in> set w then SEQUENCE_COMMAND
      else if scan_words (\<lambda>w. CHR '';'' \<in> set w) seq_stops buf sz i then SEQUENCE_COMMAND
      else SIMPLE_COMMAND)"

text \<open>Blanks before the next word, up to \<open>sz\<close>.\<close>

definition skip_to :: "string \<Rightarrow> nat \<Rightarrow> pstate \<Rightarrow> pstate" where
  "skip_to buf sz s = s\<lparr>index := index s + length (takeWhile is_blank (drop (index s) (take sz buf)))\<rparr>"

lemma skip_to_index: "index s \<le> index (skip_to buf sz s)"
  by (simp add: skip_to_def)

function get_command_type :: "string \<Rightarrow> nat \<Rightarrow> command_type parser" where
  "get_command_type buf sz s =
     (if index s \<ge> sz then Inr (SIMPLE_COMMAND, s)
      else
        let s1 = skip_to buf sz s in
        if index s1 \<ge> length buf then Inl Undefined
        else
          let c = buf ! index s1 in
          if c = CHR 0x0A then get_command_type buf sz (step (new_line s1))
          else if \<not> is_valid_char c \<and> \<not> is_special_char c then exit1 (Invalid_character c) s1
          else
            (case read_next_token buf (index s1) sz of
               None \<Rightarrow> get_command_type buf sz (step s1)
             | Some w \<Rightarrow>
                 (case first_word w of
                    Inl msg \<Rightarrow> exit1 msg s1
                  | Inr (Some t) \<Rightarrow> Inr (t, s1)
                  | Inr None \<Rightarrow> Inr (line_type buf (index s1) sz w, s1))))"
  by pat_completeness auto
termination
proof (relation "measure (\<lambda>(buf, sz, s). sz - index s)", goal_cases)
  case (2 buf sz s s1 c)
  then show ?case using skip_to_index [of s buf sz] by auto
next
  case (3 buf sz s s1 c)
  then show ?case using skip_to_index [of s buf sz] by auto
qed simp

declare get_command_type.simps [simp del]

section \<open>The recursive descent\<close>

text \<open>
  A new command node has status -1 and no redirection. The \<open>switch\<close> over the command type,
  which every compound command repeats for each of its parts, is the argument \<open>sw\<close>.
  Fields of the union that the code does not set are null: the third part of an
  \<open>if\<close> without \<open>else\<close> is whatever \<open>malloc\<close> returned, taken to be zero as it is in a
  fresh process.
\<close>

definition initialize_command :: attrs where
  "initialize_command = \<lparr>status = -1, cmd_input = None, cmd_output = None\<rparr>"

text \<open>The test \<open>start[*index] != '\n'\<close> and the token there; on a null token the code fails.\<close>

definition token_here :: "string \<Rightarrow> string parser" where
  "token_here buf s =
     (case read_next_token buf (index s) (buffer_size buf) of
        None \<Rightarrow> Inl Undefined | Some w \<Rightarrow> Inr (w, s))"

definition char_here :: "string \<Rightarrow> char parser" where
  "char_here buf s = (if index s < length buf then Inr (buf ! index s, s) else Inl Undefined)"

definition starts :: "char \<Rightarrow> string \<Rightarrow> bool" where
  "starts c w \<longleftrightarrow> w \<noteq> [] \<and> hd w = c"

text \<open>The file name behind \<open><\<close> or \<open>>\<close> at the end of a compound command.\<close>

definition tail_file :: "string \<Rightarrow> string option parser" where
  "tail_file buf =
     andthen (get_next_word buf) (\<lambda>_. andthen (advance 1) (\<lambda>_. get_next_word buf))"

definition required :: "message \<Rightarrow> string option \<Rightarrow> string parser" where
  "required msg w = (case w of None \<Rightarrow> exit1 msg | Some f \<Rightarrow> ret f)"

text \<open>The end of an \<open>if\<close>, a subshell and an \<open>until\<close>, which is the same text three times.\<close>

definition tail_redirect :: "string \<Rightarrow> attrs \<Rightarrow> attrs parser" where
  "tail_redirect buf a =
     andthen (char_here buf) (\<lambda>c.
       if c = CHR 0x0A then ret a
       else andthen (token_here buf) (\<lambda>temp.
         if starts (CHR ''<'') temp then
           (if cmd_input a \<noteq> None then exit1 (More_than_one ''input'')
            else andthen (tail_file buf) (\<lambda>w. andthen (required (Missing_file ''input'') w)
              (\<lambda>f. ret (a\<lparr>cmd_input := Some f\<rparr>))))
         else if starts (CHR ''>'') temp then
           (if cmd_output a \<noteq> None then exit1 (More_than_one ''output'')
            else andthen (tail_file buf) (\<lambda>w. andthen (required (Missing_file ''output'') w)
              (\<lambda>f. ret (a\<lparr>cmd_output := Some f\<rparr>))))
         else ret a))"

text \<open>The end of a \<open>while\<close>: anything else than a redirection is an error, a missing name is none.\<close>

definition while_redirect :: "string \<Rightarrow> attrs \<Rightarrow> attrs parser" where
  "while_redirect buf a =
     andthen (char_here buf) (\<lambda>c.
       if c = CHR 0x0A then ret a
       else andthen (token_here buf) (\<lambda>temp.
         if starts (CHR ''<'') temp then
           andthen (tail_file buf) (\<lambda>w. ret (a\<lparr>cmd_input := w\<rparr>))
         else if starts (CHR ''>'') temp then
           andthen (tail_file buf) (\<lambda>w. ret (a\<lparr>cmd_output := w\<rparr>))
         else exit1 Redundancy))"

text \<open>A part of a command: look ahead, then parse what was seen.\<close>

definition part :: "(command_type \<Rightarrow> command parser) \<Rightarrow> string \<Rightarrow> nat \<Rightarrow> command parser" where
  "part sw buf sz = andthen (get_command_type buf sz) sw"

definition at_end :: "string \<Rightarrow> message \<Rightarrow> unit parser" where
  "at_end buf msg s = (if index s = buffer_size buf then exit1 msg s else Inr ((), s))"

text \<open>\<open>strcmp\<close> of a word that may be null.\<close>

definition strcmp_word :: "string option \<Rightarrow> string parser" where
  "strcmp_word w = (case w of None \<Rightarrow> undefined_read | Some v \<Rightarrow> ret v)"

definition create_if_command :: "(command_type \<Rightarrow> command parser) \<Rightarrow> string \<Rightarrow> command parser" where
  "create_if_command sw buf =
     andthen (get_next_word buf) (\<lambda>_.
     andthen (part sw buf (buffer_size buf)) (\<lambda>x.
     andthen (at_end buf (Incomplete ''if'' ''then'')) (\<lambda>_.
     andthen (get_next_word buf) (\<lambda>temp.
     if temp \<noteq> Some ''then'' then exit1 (Incomplete ''if'' ''then'')
     else
       andthen (part sw buf (buffer_size buf)) (\<lambda>y.
       andthen (at_end buf (Incomplete ''if'' ''else or fi'')) (\<lambda>_.
       andthen (get_next_word buf) (\<lambda>temp.
       if temp = None then exit1 (Incomplete ''if'' ''fi'')
       else if temp \<noteq> Some ''else'' \<and> temp \<noteq> Some ''fi''
         then exit1 (Incomplete ''conditional'' ''fi or else'')
       else if temp = Some ''fi'' then ret (IfC initialize_command x y None)
       else
         andthen (part sw buf (buffer_size buf)) (\<lambda>z.
         andthen (get_next_word buf) (\<lambda>temp.
         if temp \<noteq> Some ''fi'' then exit1 (Incomplete ''if'' ''fi'')
         else
           andthen (tail_redirect buf initialize_command) (\<lambda>a.
           ret (IfC a x y (Some z))))))))))))"

text \<open>The position of the first bar that no second one follows.\<close>

function find_bar :: "string \<Rightarrow> nat \<Rightarrow> nat option" where
  "find_bar buf i =
     (if i \<ge> length buf then None
      else if buf ! i = CHR ''|'' then
        (if i + 1 \<ge> length buf then None
         else if buf ! (i + 1) \<noteq> CHR ''|'' then Some i else find_bar buf (i + 1))
      else find_bar buf (i + 1))"
  by pat_completeness auto
termination
  by (relation "measure (\<lambda>(buf, i). length buf - i)") auto

declare find_bar.simps [simp del]

text \<open>
  On to the next bar or semicolon, counting lines; before a semicolon a closing parenthesis is
  an error.
\<close>

function skip_until :: "char \<Rightarrow> bool \<Rightarrow> string \<Rightarrow> unit parser" where
  "skip_until stop strict buf s =
     (if index s \<ge> length buf then Inl Undefined
      else
        let c = buf ! index s in
        if c = eof_char \<or> c = stop then Inr ((), s)
        else if strict \<and> c = CHR '')'' then exit1 (Missing ''('') s
        else skip_until stop strict buf (step (count_line c s)))"
  by pat_completeness auto
termination
  by (relation "measure (\<lambda>(_, _, buf, s). length buf - index s)") auto

declare skip_until.simps [simp del]

definition create_pipe_command :: "(command_type \<Rightarrow> command parser) \<Rightarrow> string \<Rightarrow> command parser" where
  "create_pipe_command sw buf s =
     (case find_bar buf (index s) of
        None \<Rightarrow> Inl Undefined
      | Some bar \<Rightarrow>
          andthen (part sw buf bar) (\<lambda>x.
          andthen (skip_until (CHR ''|'') False buf) (\<lambda>_.
          andthen (advance 1) (\<lambda>_.
          andthen (part sw buf (buffer_size buf)) (\<lambda>y.
          ret (PipeC initialize_command x y))))) s)"

definition find_char :: "char \<Rightarrow> string \<Rightarrow> nat \<Rightarrow> nat option" where
  "find_char c buf i =
     (let n = length (takeWhile (\<lambda>d. d \<noteq> c) (drop i buf))
      in if i + n < length buf then Some (i + n) else None)"

definition create_sequence_command :: "(command_type \<Rightarrow> command parser) \<Rightarrow> string \<Rightarrow> command parser" where
  "create_sequence_command sw buf s =
     (case find_char (CHR '';'') buf (index s) of
        None \<Rightarrow> Inl Undefined
      | Some semi \<Rightarrow>
          if semi = index s then exit1 (Missing_before '';'') s
          else
            andthen (part sw buf semi) (\<lambda>x.
            andthen (skip_until (CHR '';'') True buf) (\<lambda>_.
            andthen (advance 1) (\<lambda>_.
            andthen (token_here buf) (\<lambda>temp.
            if temp \<in> {''do'', ''then'', ''done'', ''else'', ''fi''} then ret x
            else
              andthen (part sw buf (buffer_size buf)) (\<lambda>y.
              ret (SequenceC initialize_command x y)))))) s)"

text \<open>How the positions move.\<close>

lemma skip_blanks_index: "skip_blanks buf s = Inr s' \<Longrightarrow> index s \<le> index s' \<and> index s' < length buf"
proof (induction buf s rule: skip_blanks.induct)
  case (1 buf s)
  from 1(2) show ?case
    by (subst (asm) skip_blanks.simps)
      (use 1(1) in \<open>force simp: Let_def split: if_splits sum.splits dest: skip_comment_index\<close>)
qed

lemma get_next_word_index: "get_next_word buf s = Inr (w, s') \<Longrightarrow> index s \<le> index s'"
  by (auto simp: get_next_word_def Let_def split: sum.splits if_splits dest!: skip_blanks_index)

lemma get_next_word_moves: "get_next_word buf s = Inr (Some w, s') \<Longrightarrow> index s < index s'"
proof -
  assume "get_next_word buf s = Inr (Some w, s')"
  then obtain s1 where s1: "skip_blanks buf s = Inr s1" "w \<noteq> []" "s' = s1\<lparr>index := index s1 + length w\<rparr>"
    by (auto simp: get_next_word_def Let_def split: sum.splits if_splits)
  then show ?thesis using skip_blanks_index [OF s1(1)] by (cases w) auto
qed

lemma is_valid_char_not:
  "is_valid_char c \<Longrightarrow> \<not> is_space c \<and> c \<noteq> CHR ''#'' \<and> c \<noteq> CHR 0x5C \<and> c \<noteq> eof_char
     \<and> c \<notin> set '';|()<>'' \<and> c \<noteq> CHR 0x00"
  by (auto simp: is_valid_char_def is_space_def is_blank_def between_def eof_char_def)

lemma get_next_word_here:
  assumes "index s < length buf" "is_valid_char (buf ! index s)"
  shows "get_next_word buf s =
    (let w = takeWhile is_valid_char (drop (index s) buf)
     in Inr (Some w, s\<lparr>index := index s + length w\<rparr>))" "takeWhile is_valid_char (drop (index s) buf) \<noteq> []"
proof -
  have "drop (index s) buf = buf ! index s # drop (Suc (index s)) buf"
    using assms(1) by (simp add: Cons_nth_drop_Suc)
  then show ne: "takeWhile is_valid_char (drop (index s) buf) \<noteq> []" using assms(2) by simp
  have "(\<lambda>c. is_valid_char c \<and> c \<noteq> eof_char) = is_valid_char"
    using is_valid_char_not by blast
  moreover have "skip_blanks buf s = Inr s"
    using assms is_valid_char_not [OF assms(2)] by (subst skip_blanks.simps) (simp add: Let_def)
  ultimately show "get_next_word buf s =
    (let w = takeWhile is_valid_char (drop (index s) buf)
     in Inr (Some w, s\<lparr>index := index s + length w\<rparr>))" using ne by (simp add: get_next_word_def Let_def)
qed

text \<open>The loop of \<open>create_simple_command\<close>: the words so far, the redirections, \<open>write\<close>.\<close>

function simple_loop :: "string \<Rightarrow> string list \<Rightarrow> attrs \<Rightarrow> bool \<Rightarrow> (string list \<times> attrs \<times> bool) parser" where
  "simple_loop buf ws a wr s =
     (if index s \<ge> buffer_size buf then Inr ((ws, a, wr), s)
      else
        let c = buf ! index s in
        if is_blank c then simple_loop buf ws a wr (step s)
        else if c = CHR ''#'' then
          (case skip_comment buf s of Inl e \<Rightarrow> Inl e | Inr s1 \<Rightarrow> simple_loop buf ws a wr (step s1))
        else if c = CHR 0x0A then Inr ((ws, a, wr), step (new_line s))
        else if is_valid_char c then
          (case get_next_word buf s of
             Inl e \<Rightarrow> Inl e
           | Inr (None, s1) \<Rightarrow> Inl Undefined
           | Inr (Some temp, s1) \<Rightarrow>
               if temp \<in> reserved then Inr ((ws, a, True), s1\<lparr>index := index s1 - length temp\<rparr>)
               else simple_loop buf (ws @ [temp]) a True s1)
        else if c = CHR ''<'' then
          (if cmd_input a \<noteq> None then exit1 (More_than_one ''input'') s
           else (case get_next_word buf (step s) of
               Inl e \<Rightarrow> Inl e
             | Inr (None, s1) \<Rightarrow> exit1 (Missing_file ''input'') s1
             | Inr (Some f, s1) \<Rightarrow> simple_loop buf ws (a\<lparr>cmd_input := Some f\<rparr>) wr s1))
        else if c = CHR ''>'' then
          (if cmd_output a \<noteq> None then exit1 (More_than_one ''output'') s
           else (case get_next_word buf (step s) of
               Inl e \<Rightarrow> Inl e
             | Inr (None, s1) \<Rightarrow> exit1 (Missing_file ''output'') s1
             | Inr (Some f, s1) \<Rightarrow> simple_loop buf ws (a\<lparr>cmd_output := Some f\<rparr>) wr s1))
        else if is_special_char c then Inr ((ws, a, wr), s)
        else exit1 Invalid_syntax s)"
  by pat_completeness auto
termination
  by (relation "measure (\<lambda>(buf, _, _, _, s). buffer_size buf - index s)")
    (auto dest: skip_comment_index get_next_word_index get_next_word_moves)

declare simple_loop.simps [simp del]

definition create_simple_command :: "string \<Rightarrow> command parser" where
  "create_simple_command buf =
     andthen (simple_loop buf [] initialize_command False) (\<lambda>(ws, a, wr).
       if \<not> wr then exit1 Null_command else ret (SimpleC a ws))"

text \<open>On to the closing parenthesis of a subshell, on the same line.\<close>

function close_subshell :: "string \<Rightarrow> unit parser" where
  "close_subshell buf s =
     (if index s \<ge> length buf then Inl Undefined
      else
        let c = buf ! index s in
        if c = eof_char \<or> c = CHR '')'' then Inr ((), step s)
        else if c = CHR 0x0A then exit1 (Missing '')'') (new_line s)
        else if index s + 1 \<ge> length buf then Inl Undefined
        else if buf ! (index s + 1) = eof_char then exit1 (Missing '')'') s
        else close_subshell buf (step s))"
  by pat_completeness auto
termination
  by (relation "measure (\<lambda>(buf, s). length buf - index s)") auto

declare close_subshell.simps [simp del]

definition create_subshell_command :: "(command_type \<Rightarrow> command parser) \<Rightarrow> string \<Rightarrow> command parser" where
  "create_subshell_command sw buf =
     andthen (advance 1) (\<lambda>_.
     andthen (part sw buf (buffer_size buf)) (\<lambda>x.
     andthen (close_subshell buf) (\<lambda>_.
     andthen (tail_redirect buf initialize_command) (\<lambda>a.
     ret (SubshellC a x)))))"

definition create_until_command :: "(command_type \<Rightarrow> command parser) \<Rightarrow> string \<Rightarrow> command parser" where
  "create_until_command sw buf =
     andthen (get_next_word buf) (\<lambda>_.
     andthen (part sw buf (buffer_size buf)) (\<lambda>x.
     andthen (at_end buf (Incomplete ''until'' ''do'')) (\<lambda>_.
     andthen (get_next_word buf) (\<lambda>temp.
     andthen (strcmp_word temp) (\<lambda>w.
     if w \<noteq> ''do'' then exit1 (Incomplete ''until'' ''do'')
     else
       andthen (part sw buf (buffer_size buf)) (\<lambda>y.
       andthen (at_end buf (Incomplete ''while'' ''done'')) (\<lambda>_.
       andthen (get_next_word buf) (\<lambda>temp.
       andthen (strcmp_word temp) (\<lambda>w.
       if w \<noteq> ''done'' then exit1 (Incomplete ''until'' ''done'')
       else
         andthen (tail_redirect buf initialize_command) (\<lambda>a.
         ret (UntilC a x y)))))))))))"

text \<open>
  In a \<open>while\<close> a condition that is not followed by \<open>do\<close> is made the first part of a sequence
  with the simple command that does follow it.
\<close>

definition while_condition :: "string \<Rightarrow> command \<Rightarrow> (command \<times> string) parser" where
  "while_condition buf x =
     andthen (get_next_word buf) (\<lambda>temp.
     andthen (strcmp_word temp) (\<lambda>w.
     if w = ''do'' then ret (x, w)
     else
       andthen (retreat (length w)) (\<lambda>_.
       andthen (create_simple_command buf) (\<lambda>x2.
       andthen (get_next_word buf) (\<lambda>temp.
       andthen (strcmp_word temp) (\<lambda>w.
       ret (SequenceC initialize_command x x2, w)))))))"

definition create_while_command :: "(command_type \<Rightarrow> command parser) \<Rightarrow> string \<Rightarrow> command parser" where
  "create_while_command sw buf =
     andthen (get_next_word buf) (\<lambda>_.
     andthen (part sw buf (buffer_size buf)) (\<lambda>x.
     andthen (at_end buf (Incomplete ''while'' ''do'')) (\<lambda>_.
     andthen (while_condition buf x) (\<lambda>(x, w).
     if w \<noteq> ''do'' then exit1 (Incomplete ''while'' ''do'')
     else
       andthen (part sw buf (buffer_size buf)) (\<lambda>y.
       andthen (at_end buf (Incomplete ''while'' ''done'')) (\<lambda>_.
       andthen (get_next_word buf) (\<lambda>temp.
       andthen (strcmp_word temp) (\<lambda>w.
       if w \<noteq> ''done'' then exit1 (Incomplete ''while'' ''done'')
       else
         andthen (while_redirect buf initialize_command) (\<lambda>a.
         ret (WhileC a x y))))))))))"

text \<open>The switch over the command types, and the recursion up to a number of frames.\<close>

fun create_command :: "(command_type \<Rightarrow> command parser) \<Rightarrow> string \<Rightarrow> command_type \<Rightarrow> command parser" where
  "create_command sw buf IF_COMMAND = create_if_command sw buf"
| "create_command sw buf PIPE_COMMAND = create_pipe_command sw buf"
| "create_command sw buf SEQUENCE_COMMAND = create_sequence_command sw buf"
| "create_command sw buf SIMPLE_COMMAND = create_simple_command buf"
| "create_command sw buf SUBSHELL_COMMAND = create_subshell_command sw buf"
| "create_command sw buf UNTIL_COMMAND = create_until_command sw buf"
| "create_command sw buf WHILE_COMMAND = create_while_command sw buf"

primrec create :: "nat \<Rightarrow> string \<Rightarrow> command_type \<Rightarrow> command parser" where
  "create 0 buf t = (\<lambda>s. Inl Too_deep)"
| "create (Suc d) buf t = create_command (create d buf) buf t"

section \<open>The command stream\<close>

text \<open>
  Reading the script: the buffer doubles when it is full. \<open>None\<close> is the exit of
  \<open>memory_exhausted\<close>; \<open>size_t\<close> has 64 bits.
\<close>

definition checked_grow_alloc :: "nat \<Rightarrow> nat option" where
  "checked_grow_alloc sz =
     (let max_size = 2 ^ 64 - 1 in
      if sz = max_size then None
      else Some (if sz < max_size div 2 then 2 * sz else max_size))"

fun fill_buffer :: "string \<Rightarrow> string \<Rightarrow> nat \<Rightarrow> (string \<times> nat) option" where
  "fill_buffer [] buf cap = Some (buf, cap)"
| "fill_buffer (c # cs) buf cap =
     (let buf' = buf @ [c] in
      if length buf' = cap then
        (case checked_grow_alloc cap of None \<Rightarrow> None | Some cap' \<Rightarrow> fill_buffer cs buf' cap')
      else fill_buffer cs buf' cap)"

text \<open>
  The loop over the commands of a script, at most \<open>d\<close> frames deep; \<open>None\<close> when it does not
  end. A node is appended for every command.
\<close>

partial_function (option) stream_loop ::
    "nat \<Rightarrow> string \<Rightarrow> command list \<Rightarrow> pstate \<Rightarrow> (perror + command list \<times> pstate) option" where
  "stream_loop d buf cs s =
     (if index s \<ge> buffer_size buf then Some (Inr (cs, s))
      else
        let s1 = skip_to buf (buffer_size buf) s; c = buf ! index s1 in
        if c = CHR 0x0A then stream_loop d buf cs (step (new_line s1))
        else if c = CHR ''#'' then stream_loop d buf cs (step (read_comments buf s1))
        else
          (case part (create d buf) buf (buffer_size buf) s1 of
             Inl e \<Rightarrow> Some (Inl e)
           | Inr (cmd, s2) \<Rightarrow> stream_loop d buf (cs @ [cmd]) s2))"

text \<open>
  The stream is the list of the nodes from the head on; the node that is appended last is never
  filled, its fields are what \<open>malloc\<close> returned, taken to be null.
\<close>

type_synonym command_stream = "command option list"

definition stream_of :: "command list \<Rightarrow> command_stream" where
  "stream_of cs = (if cs = [] then [] else List.map Some cs @ [None])"

definition make_command_stream :: "nat \<Rightarrow> string \<Rightarrow> (perror + command_stream) option" where
  "make_command_stream d script =
     (case fill_buffer script [] 1024 of
        None \<Rightarrow> Some (Inl Memory_exhausted)
      | Some (buf, cap) \<Rightarrow>
          map_option (\<lambda>r. case r of Inl e \<Rightarrow> Inl e | Inr (cs, s) \<Rightarrow> Inr (stream_of cs))
            (stream_loop d (buf @ [CHR 0x00]) [] \<lparr>index = 0, num_line = 1\<rparr>))"

fun read_command_stream :: "command_stream \<Rightarrow> command option \<times> command_stream" where
  "read_command_stream [] = (None, [])"
| "read_command_stream (c # st) = (c, st)"

end
