(* ===== verification/ShellScan.thy ===== *)
theory ShellScan
  imports ShellParse "HOL-Library.Sublist"
begin

text \<open>
  The tokenizers and the look-ahead of the shell parser on lines of tokens. A parser state is
  written as the rest of the buffer that it has not read; a line is a list of tokens, each
  followed by a blank, and a newline.
\<close>

section \<open>The state as a suffix of the buffer\<close>

definition pos :: "string \<Rightarrow> string \<Rightarrow> nat \<Rightarrow> pstate" where
  "pos buf xs n = \<lparr>index = length buf - length xs, num_line = n\<rparr>"

lemma pos_simps [simp]:
  "index (pos buf xs n) = length buf - length xs" "num_line (pos buf xs n) = n"
  by (simp_all add: pos_def)

lemma suffix_drop: "suffix xs buf \<Longrightarrow> drop (length buf - length xs) buf = xs"
  by (auto simp: suffix_def)

lemma suffix_nth:
  assumes "suffix (c # xs) buf"
  shows "buf ! (length buf - Suc (length xs)) = c" "length buf - Suc (length xs) < length buf"
    "length buf - Suc (length xs) + 1 = length buf - length xs"
  using assms by (auto simp: suffix_def nth_append)

lemma suffix_tail: "suffix (c # xs) buf \<Longrightarrow> suffix xs buf"
  by (auto simp: suffix_def)

lemma suffix_right: "suffix (as @ xs) buf \<Longrightarrow> suffix xs buf"
  by (rule suffix_appendD)

lemma step_pos: "suffix (c # xs) buf \<Longrightarrow> step (pos buf (c # xs) n) = pos buf xs n"
  by (auto simp: step_def pos_def suffix_def)

lemma new_line_pos: "new_line (pos buf xs n) = pos buf xs (n + 1)"
  by (simp add: new_line_def pos_def)

lemma move_pos:
  "suffix (as @ xs) buf \<Longrightarrow> (pos buf (as @ xs) n)\<lparr>index := length buf - length (as @ xs) + length as\<rparr> = pos buf xs n"
  by (auto simp: pos_def suffix_def)

lemma in_script: "suffix (c # d # xs) buf \<Longrightarrow> length buf - Suc (Suc (length xs)) < buffer_size buf"
  by (auto simp: buffer_size_def suffix_def)

lemma drop_take_suffix:
  "suffix xs buf \<Longrightarrow> drop (length buf - length xs) (take sz buf) = take (sz - (length buf - length xs)) xs"
  by (simp add: drop_take suffix_drop)

lemma take_over: "length as \<le> k \<Longrightarrow> take k (as @ xs) = as @ take (k - length as) xs"
  by simp

text \<open>Prefixes of blanks.\<close>

definition blank :: "string \<Rightarrow> bool" where
  "blank bl \<longleftrightarrow> set bl \<subseteq> {CHR '' ''}"

lemma blank_simps [simp]: "blank []" "blank '' ''" "blank (c # bl) \<longleftrightarrow> c = CHR '' '' \<and> blank bl"
  by (auto simp: blank_def)

lemma blank_takeWhile:
  "blank bl \<Longrightarrow> xs = [] \<or> \<not> is_blank (hd xs) \<Longrightarrow> takeWhile is_blank (bl @ xs) = bl"
  by (induction bl) (auto simp: is_blank_def takeWhile_eq_Nil_iff)

lemma blank_dropWhile: "blank bl \<Longrightarrow> dropWhile is_space (bl @ xs) = dropWhile is_space xs"
  by (induction bl) (auto simp: is_space_def is_blank_def)

section \<open>Words\<close>

definition word_ok :: "string \<Rightarrow> bool" where
  "word_ok w \<longleftrightarrow> w \<noteq> [] \<and> (\<forall>c \<in> set w. is_valid_char c)"

text \<open>Characters at which neither blanks nor comments go on.\<close>

definition solid :: "char \<Rightarrow> bool" where
  "solid c \<longleftrightarrow> \<not> is_space c \<and> c \<noteq> CHR ''#'' \<and> c \<noteq> CHR 0x5C"

lemma valid_solid: "is_valid_char c \<Longrightarrow> solid c"
  using is_valid_char_not by (auto simp: solid_def)

lemma skip_blanks_pos:
  assumes "suffix (bl @ c # xs) buf" "blank bl" "solid c"
  shows "skip_blanks buf (pos buf (bl @ c # xs) n) = Inr (pos buf (c # xs) n)"
  using assms(1,2)
proof (induction bl)
  case Nil
  then show ?case using assms(3) suffix_nth [of c xs buf]
    by (subst skip_blanks.simps) (simp add: solid_def Let_def)
next
  case (Cons b bl)
  have b: "b = CHR '' ''" "blank bl" using Cons.prems(2) by simp_all
  have suf: "suffix (CHR '' '' # bl @ c # xs) buf" using Cons.prems(1) b by simp
  have "length buf - Suc (length (bl @ c # xs)) < buffer_size buf"
    using suf by (cases bl) (auto dest: in_script)
  then have "skip_blanks buf (pos buf ((b # bl) @ c # xs) n) = skip_blanks buf (pos buf (bl @ c # xs) n)"
    using suffix_nth [OF suf] b
    by (subst skip_blanks.simps) (simp add: step_pos [OF suf] Let_def is_space_def is_blank_def count_line_def)
  then show ?case using Cons.IH [OF suffix_tail [OF suf]] Cons.prems(2) by simp
qed

lemma valid_eof: "(\<lambda>c. is_valid_char c \<and> c \<noteq> eof_char) = is_valid_char"
  using is_valid_char_not by blast

lemma get_next_word_pos:
  assumes suf: "suffix (bl @ w @ c # xs) buf" and bl: "blank bl" and w: "word_ok w" and c: "\<not> is_valid_char c"
  shows "get_next_word buf (pos buf (bl @ w @ c # xs) n) = Inr (Some w, pos buf (c # xs) n)"
proof -
  obtain a v where v: "w = a # v" "is_valid_char a" using w by (cases w) (auto simp: word_ok_def)
  have "skip_blanks buf (pos buf (bl @ w @ c # xs) n) = Inr (pos buf (w @ c # xs) n)"
    using skip_blanks_pos [of bl a "v @ c # xs" buf n] suf bl v valid_solid by simp
  moreover have "takeWhile is_valid_char (drop (length buf - length (w @ c # xs)) buf) = w"
    using w c suffix_drop [OF suffix_right [OF suf]] by (simp add: word_ok_def takeWhile_append)
  ultimately show ?thesis using v move_pos [OF suffix_right [OF suf], of n]
    by (simp add: get_next_word_def valid_eof Let_def)
qed

lemma get_next_word_none:
  assumes suf: "suffix (bl @ c # xs) buf" and bl: "blank bl" and c: "solid c" "\<not> is_valid_char c"
  shows "get_next_word buf (pos buf (bl @ c # xs) n) = Inr (None, pos buf (c # xs) n)"
proof -
  have "takeWhile is_valid_char (drop (length buf - length (c # xs)) buf) = []"
    using c suffix_drop [OF suffix_right [OF suf]] by simp
  then show ?thesis using skip_blanks_pos [OF suf bl c(1)]
    by (simp add: get_next_word_def valid_eof Let_def)
qed

section \<open>Tokens\<close>

definition token_ok :: "string \<Rightarrow> bool" where
  "token_ok t \<longleftrightarrow> t \<noteq> [] \<and> (\<forall>c \<in> set t. token_char c \<and> c \<noteq> CHR 0x00)"

definition spaced :: "string list \<Rightarrow> string" where
  "spaced ts = concat (List.map (\<lambda>t. t @ '' '') ts)"

lemma spaced_simps [simp]: "spaced [] = []" "spaced (t # ts) = t @ CHR '' '' # spaced ts"
  by (simp_all add: spaced_def)

lemma spaced_append: "spaced (ts @ us) = spaced ts @ spaced us"
  by (simp add: spaced_def)

lemma token_takeWhile:
  "token_ok t \<Longrightarrow> takeWhile token_char (t @ CHR '' '' # xs) = t" "token_ok t \<Longrightarrow> c_str t = t"
  by (auto simp: token_ok_def token_char_def is_space_def is_blank_def c_str_def takeWhile_append takeWhile_eq_all_conv)

lemma token_start: "token_ok t \<Longrightarrow> \<exists>c u. t = c # u \<and> \<not> is_blank c \<and> \<not> is_space c"
  by (cases t) (auto simp: token_ok_def token_char_def is_space_def)

lemma next_token_pos:
  assumes suf: "suffix (bl @ t @ CHR '' '' # xs) buf" and bl: "blank bl" and t: "token_ok t"
    and sz: "length buf - length xs - 1 \<le> sz"
  shows "read_next_token2 buf (length buf - length (bl @ t @ CHR '' '' # xs)) sz =
      Some (t, length buf - length (CHR '' '' # xs))"
    "read_next_token buf (length buf - length (bl @ t @ CHR '' '' # xs)) sz = Some t"
proof -
  let ?rest = "t @ CHR '' '' # xs"
  let ?i = "length buf - length (bl @ ?rest)"
  obtain a v where a: "t = a # v" "\<not> is_blank a" "\<not> is_space a" using token_start [OF t] by blast
  have len: "length (bl @ ?rest) \<le> length buf" using suf by (rule suffix_length_le)
  have j: "?i + length bl = length buf - length ?rest" using len by simp
  note suf2 = suffix_right [OF suf]
  have whole: "take (sz - (length buf - length ?rest)) ?rest =
      t @ take (sz - (length buf - length ?rest) - length t) (CHR '' '' # xs)"
    by (rule take_over) (use len sz in simp)
  have tk: "takeWhile token_char (take (sz - (length buf - length ?rest)) ?rest) = t"
  proof -
    have "takeWhile token_char (t @ take k (CHR '' '' # xs)) = t" for k
      using t by (cases k) (auto simp: token_ok_def token_char_def is_space_def is_blank_def takeWhile_append)
    then show ?thesis using whole by simp
  qed
  have bl_len: "takeWhile is_blank (drop ?i buf) = bl"
    using suffix_drop [OF suf] blank_takeWhile [OF bl, of ?rest] a by simp
  show "read_next_token2 buf ?i sz = Some (t, length buf - length (CHR '' '' # xs))"
  proof -
    have "length buf - length ?rest + length t = length buf - length (CHR '' '' # xs)" using len by simp
    moreover have "t \<noteq> []" using a by simp
    ultimately show ?thesis
      unfolding read_next_token2_def bl_len j drop_take_suffix [OF suf2] Let_def tk
      by (simp add: token_takeWhile(2) [OF t])
  qed
  have "dropWhile is_space (take (sz - ?i) (bl @ ?rest)) = take (sz - (length buf - length ?rest)) ?rest"
  proof -
    have "take (sz - ?i) (bl @ ?rest) = bl @ take (sz - (length buf - length ?rest)) ?rest"
      using j len sz by (simp add: add.commute diff_diff_left)
    moreover have "dropWhile is_space (take (sz - (length buf - length ?rest)) ?rest) = take (sz - (length buf - length ?rest)) ?rest"
      unfolding whole using a by simp
    ultimately show ?thesis using blank_dropWhile [OF bl] by simp
  qed
  moreover have "?i < sz" using len sz a(1) by simp
  ultimately show "read_next_token buf ?i sz = Some t"
    using tk unfolding read_next_token_def drop_take_suffix [OF suf] by (simp add: token_takeWhile(2) [OF t])
qed

lemma no_token_pos:
  assumes suf: "suffix (bl @ ys) buf" and bl: "blank bl"
    and fin: "sz \<le> length buf - length ys \<or> (\<exists>zs. ys = CHR 0x0A # zs)"
  shows "read_next_token2 buf (length buf - length (bl @ ys)) sz = None"
proof -
  let ?i = "length buf - length (bl @ ys)"
  have len: "length (bl @ ys) \<le> length buf" using suf by (rule suffix_length_le)
  have "takeWhile token_char (drop (?i + length (takeWhile is_blank (drop ?i buf))) (take sz buf)) = []"
    using fin
  proof
    assume sz: "sz \<le> length buf - length ys"
    have "takeWhile is_blank (bl @ ys) = bl @ takeWhile is_blank ys"
      using bl by (induction bl) (auto simp: is_blank_def)
    then have "sz \<le> ?i + length (takeWhile is_blank (drop ?i buf))"
      using sz len suffix_drop [OF suf] by simp
    then show ?thesis by simp
  next
    assume "\<exists>zs. ys = CHR 0x0A # zs"
    then obtain zs where ys: "ys = CHR 0x0A # zs" by blast
    have "takeWhile is_blank (drop ?i buf) = bl"
      using suffix_drop [OF suf] blank_takeWhile [OF bl, of ys] ys by (simp add: is_blank_def)
    moreover have "?i + length bl = length buf - length ys" using len by simp
    ultimately show ?thesis
      using drop_take_suffix [OF suffix_right [OF suf], of sz] ys
      by (cases "sz - (length buf - length ys)") (simp_all add: token_char_def is_space_def)
  qed
  then show ?thesis by (simp add: read_next_token2_def Let_def)
qed

section \<open>The look-ahead over a line\<close>

fun scan_toks :: "(string \<Rightarrow> bool) \<Rightarrow> string set \<Rightarrow> string list \<Rightarrow> bool" where
  "scan_toks test stops [] = False"
| "scan_toks test stops (t # ts) \<longleftrightarrow> t \<notin> stops \<and> (test t \<or> scan_toks test stops ts)"

lemma scan_toks_append:
  "scan_toks test stops (ts @ us) \<longleftrightarrow> scan_toks test stops ts \<or> (set ts \<inter> stops = {} \<and> scan_toks test stops us)"
  by (induction ts) auto

text \<open>The limit of a look-ahead: the end of the line, or the separator that starts \<open>ys\<close>.\<close>

definition limit :: "string \<Rightarrow> nat \<Rightarrow> string \<Rightarrow> bool" where
  "limit buf sz ys \<longleftrightarrow> sz = length buf - length ys \<or>
     (length buf - length ys \<le> sz \<and> (\<exists>zs. ys = CHR 0x0A # zs))"

lemma limit_line: "suffix (CHR 0x0A # z # zs) buf \<Longrightarrow> limit buf (buffer_size buf) (CHR 0x0A # z # zs)"
  by (auto simp: limit_def buffer_size_def)

lemma scan_words_pos:
  assumes "suffix (bl @ spaced ts @ ys) buf" "blank bl" "list_all token_ok ts" "limit buf sz ys"
  shows "scan_words test stops buf sz (length buf - length (bl @ spaced ts @ ys)) = scan_toks test stops ts"
  using assms(1-3)
proof (induction ts arbitrary: bl)
  case Nil
  have "read_next_token2 buf (length buf - length (bl @ ys)) sz = None"
    by (rule no_token_pos) (use Nil assms(4) in \<open>auto simp: limit_def\<close>)
  then show ?case by (subst scan_words.simps) simp
next
  case (Cons t ts)
  have suf: "suffix (bl @ t @ CHR '' '' # spaced ts @ ys) buf" using Cons.prems(1) by simp
  have "length buf - length (spaced ts @ ys) - 1 \<le> sz" using assms(4) by (auto simp: limit_def)
  note tok = next_token_pos(1) [OF suf Cons.prems(2) _ this]
  have "suffix ((bl @ t) @ '' '' @ spaced ts @ ys) buf" using suf by simp
  then have "suffix ('' '' @ spaced ts @ ys) buf" by (rule suffix_right)
  then have "scan_words test stops buf sz (length buf - length ('' '' @ spaced ts @ ys)) = scan_toks test stops ts"
    by (rule Cons.IH) (use Cons.prems(3) in simp_all)
  then show ?case using tok Cons.prems(3) by (subst scan_words.simps) simp
qed

definition line_kind :: "string list \<Rightarrow> command_type" where
  "line_kind ts =
     (if scan_toks single_bar reserved ts then PIPE_COMMAND
      else if CHR '';'' \<in> set (hd ts) \<or> scan_toks (\<lambda>w. CHR '';'' \<in> set w) seq_stops ts then SEQUENCE_COMMAND
      else SIMPLE_COMMAND)"

definition line_start :: "string \<Rightarrow> bool" where
  "line_start t \<longleftrightarrow> is_valid_char (hd t) \<or> is_special_char (hd t)"

lemma get_command_type_pos:
  assumes suf: "suffix (bl @ spaced (t # ts) @ ys) buf" and bl: "blank bl"
    and ts: "list_all token_ok (t # ts)" "line_start t" and lim: "limit buf sz ys"
  shows "get_command_type buf sz (pos buf (bl @ spaced (t # ts) @ ys) n) =
    (case first_word t of
       Inl msg \<Rightarrow> Inl (Exit n msg)
     | Inr (Some k) \<Rightarrow> Inr (k, pos buf (spaced (t # ts) @ ys) n)
     | Inr None \<Rightarrow> Inr (line_kind (t # ts), pos buf (spaced (t # ts) @ ys) n))"
proof -
  let ?xs = "spaced (t # ts) @ ys"
  let ?i = "length buf - length (bl @ ?xs)"
  obtain a v where a: "t = a # v" "\<not> is_blank a" "\<not> is_space a" using token_start ts(1) by fastforce
  have len: "length (bl @ ?xs) \<le> length buf" using suf by (rule suffix_length_le)
  have sz: "length buf - length (spaced ts @ ys) - 1 \<le> sz" "?i < sz" "length buf - length ?xs < sz"
    using lim len a(1) by (auto simp: limit_def)
  note suf2 = suffix_right [OF suf]
  have suf3: "suffix ([] @ t @ CHR '' '' # spaced ts @ ys) buf" using suf2 by simp
  have tok: "read_next_token buf (length buf - length ?xs) sz = Some t"
    using next_token_pos(2) [OF suf3 _ _ sz(1)] ts(1) by simp
  have skip: "skip_to buf sz (pos buf (bl @ ?xs) n) = pos buf ?xs n"
  proof -
    obtain zs where zs: "?xs = a # zs" using a(1) by simp
    have "take (sz - ?i) (bl @ ?xs) = bl @ take (sz - ?i - length bl) ?xs"
      by (rule take_over) (use len sz(3) in simp)
    moreover have "take (sz - ?i - length bl) ?xs = a # take (sz - ?i - length bl - 1) zs"
    proof -
      have "sz - ?i - length bl \<noteq> 0" using len sz(3) by simp
      then show ?thesis unfolding zs by (simp add: take_Cons')
    qed
    ultimately have "takeWhile is_blank (drop ?i (take sz buf)) = bl"
      using blank_takeWhile [OF bl, of "a # take (sz - ?i - length bl - 1) zs"] a(2)
      unfolding drop_take_suffix [OF suf] by (simp only: list.sel simp_thms)
    then show ?thesis using move_pos [OF suf, of n] by (simp add: skip_to_def)
  qed
  have here: "buf ! (length buf - length ?xs) = a" "length buf - length ?xs < length buf"
    using suffix_nth [of a "v @ CHR '' '' # spaced ts @ ys" buf] suf2 a(1) by simp_all
  have "line_type buf (length buf - length ?xs) sz t = line_kind (t # ts)"
    using scan_words_pos [of "[]" "t # ts" ys buf sz] suf2 ts(1) lim
    by (simp add: line_type_def line_kind_def)
  then show ?thesis
    using sz(2) skip tok here a(3) ts(2) a(1)
    by (subst get_command_type.simps)
      (auto simp: Let_def line_start_def is_space_def exit1_def split: sum.split option.split)
qed

end
