(* ===== verification/ShellText.thy ===== *)
theory ShellText
  imports ShellScan
begin

text \<open>
  The commands whose profile text, as \<open>printcmd\<close> writes it, is a line that the parser reads
  back: their tokens, what the look-ahead says about them, and the parser on words,
  redirections and simple commands.
\<close>

section \<open>The tokens of a command\<close>

definition rtoks :: "attrs \<Rightarrow> string list" where
  "rtoks a = (case cmd_input a of None \<Rightarrow> [] | Some f \<Rightarrow> [CHR ''<'' # f])
     @ (case cmd_output a of None \<Rightarrow> [] | Some f \<Rightarrow> [CHR ''>'' # f])"

fun toks :: "command \<Rightarrow> string list" where
  "toks (IfC a x y None) = ''if'' # toks x @ ''then'' # toks y @ rtoks a"
| "toks (IfC a x y (Some z)) = ''if'' # toks x @ ''then'' # toks y @ ''else'' # toks z @ ''fi'' # rtoks a"
| "toks (PipeC a x y) = toks x @ ''|'' # toks y @ rtoks a"
| "toks (SequenceC a x y) = toks x @ '';'' # toks y @ rtoks a"
| "toks (SimpleC a ws) = ws @ rtoks a"
| "toks (SubshellC a x) = ''('' # toks x @ '')'' # rtoks a"
| "toks (UntilC a x y) = ''until'' # toks x @ ''do'' # toks y @ ''done'' # rtoks a"
| "toks (WhileC a x y) = ''while'' # toks x @ ''do'' # toks y @ ''done'' # rtoks a"

lemma redirs_spaced: "redirs a = spaced (rtoks a)"
  by (simp add: redirs_def rtoks_def split: option.split)

lemma printcmd_spaced: "printcmd c = spaced (toks c)"
  by (induction c rule: toks.induct) (simp_all add: spaced_append redirs_spaced spaced_def)

fun is_simple :: "command \<Rightarrow> bool" where
  "is_simple (SimpleC _ _) = True"
| "is_simple _ = False"

fun type_of :: "command \<Rightarrow> command_type" where
  "type_of (IfC _ _ _ _) = IF_COMMAND"
| "type_of (PipeC _ _ _) = PIPE_COMMAND"
| "type_of (SequenceC _ _ _) = SEQUENCE_COMMAND"
| "type_of (SimpleC _ _) = SIMPLE_COMMAND"
| "type_of (SubshellC _ _) = SUBSHELL_COMMAND"
| "type_of (UntilC _ _ _) = UNTIL_COMMAND"
| "type_of (WhileC _ _ _) = WHILE_COMMAND"

definition redirs_ok :: "attrs \<Rightarrow> bool" where
  "redirs_ok a \<longleftrightarrow> status a = -1 \<and> (case cmd_input a of None \<Rightarrow> True | Some f \<Rightarrow> word_ok f)
     \<and> (case cmd_output a of None \<Rightarrow> True | Some f \<Rightarrow> word_ok f)"

text \<open>A compound command has at most one redirection, a \<open>while\<close> exactly one.\<close>

definition tail_ok :: "attrs \<Rightarrow> bool" where
  "tail_ok a \<longleftrightarrow> redirs_ok a \<and> (cmd_input a = None \<or> cmd_output a = None)"

text \<open>
  The commands that can be read back: words of valid characters that are not reserved, pipelines
  and sequences of simple commands on the left whose right side, in a sequence, shows the
  look-ahead no bar, and compound commands on the right.
\<close>

fun readable :: "command \<Rightarrow> bool" where
  "readable (IfC a x y None) = False"
| "readable (IfC a x y (Some z)) = (tail_ok a \<and> readable x \<and> readable y \<and> readable z)"
| "readable (PipeC a x y) = (a = initialize_command \<and> is_simple x \<and> readable x \<and> readable y)"
| "readable (SequenceC a x y) = (a = initialize_command \<and> is_simple x \<and> readable x \<and> readable y
     \<and> \<not> scan_toks single_bar reserved (toks y))"
| "readable (SimpleC a ws) = (redirs_ok a \<and> ws \<noteq> [] \<and> (\<forall>w \<in> set ws. word_ok w \<and> w \<notin> seq_stops))"
| "readable (SubshellC a x) = (tail_ok a \<and> readable x)"
| "readable (UntilC a x y) = (tail_ok a \<and> readable x \<and> readable y)"
| "readable (WhileC a x y) = (tail_ok a \<and> rtoks a \<noteq> [] \<and> readable x \<and> readable y)"

text \<open>The frames that the descent into a command needs.\<close>

fun height :: "command \<Rightarrow> nat" where
  "height (IfC a x y None) = Suc (max (height x) (height y))"
| "height (IfC a x y (Some z)) = Suc (max (height x) (max (height y) (height z)))"
| "height (PipeC a x y) = Suc (max (height x) (height y))"
| "height (SequenceC a x y) = Suc (max (height x) (height y))"
| "height (SimpleC a ws) = 1"
| "height (SubshellC a x) = Suc (height x)"
| "height (UntilC a x y) = Suc (max (height x) (height y))"
| "height (WhileC a x y) = Suc (max (height x) (height y))"

lemma rtoks_initialize [simp]: "rtoks initialize_command = []"
  by (simp add: rtoks_def initialize_command_def)

section \<open>Characters of the tokens\<close>

definition chars_of :: "string list \<Rightarrow> char set" where
  "chars_of ts = \<Union> (set (List.map set ts))"

lemma valid_token_char: "is_valid_char c \<Longrightarrow> token_char c \<and> c \<noteq> CHR 0x00"
  using is_valid_char_not by (auto simp: token_char_def)

lemma word_token: "word_ok w \<Longrightarrow> token_ok w"
  using valid_token_char by (auto simp: word_ok_def token_ok_def)

lemma redirect_token:
  "word_ok f \<Longrightarrow> token_ok (CHR ''<'' # f)" "word_ok f \<Longrightarrow> token_ok (CHR ''>'' # f)"
  using word_token [of f] by (auto simp: token_ok_def token_char_def is_space_def is_blank_def eof_char_def)

lemma reserved_token [simp]:
  "token_ok ''if''" "token_ok ''then''" "token_ok ''else''" "token_ok ''fi''" "token_ok ''while''"
  "token_ok ''until''" "token_ok ''do''" "token_ok ''done''" "token_ok ''(''" "token_ok '')''"
  "token_ok ''|''" "token_ok '';''"
  by (simp_all add: token_ok_def token_char_def is_space_def is_blank_def eof_char_def)

lemma rtoks_ok: "redirs_ok a \<Longrightarrow> list_all token_ok (rtoks a)"
  using redirect_token by (auto simp: redirs_ok_def rtoks_def split: option.splits)

lemma toks_ok: "readable c \<Longrightarrow> list_all token_ok (toks c)"
  by (induction c rule: toks.induct)
    (use rtoks_ok in \<open>fastforce simp: tail_ok_def word_token list_all_iff\<close>)+

lemma single_bar_none: "CHR ''|'' \<notin> set w \<Longrightarrow> \<not> single_bar w"
proof -
  assume "CHR ''|'' \<notin> set w"
  then have "dropWhile (\<lambda>c. c \<noteq> CHR ''|'') w = []" by (auto simp: dropWhile_eq_Nil_conv)
  then show ?thesis unfolding single_bar_def by (simp only: list.case simp_thms)
qed

lemma word_no_sep: "word_ok w \<Longrightarrow> CHR ''|'' \<notin> set w \<and> CHR '';'' \<notin> set w"
  using is_valid_char_not by (fastforce simp: word_ok_def)

lemma scan_toks_none: "\<forall>t \<in> set ts. \<not> test t \<Longrightarrow> \<not> scan_toks test stops ts"
  by (induction ts) auto

lemma rtoks_no_sep: "redirs_ok a \<Longrightarrow> t \<in> set (rtoks a) \<Longrightarrow> CHR ''|'' \<notin> set t \<and> CHR '';'' \<notin> set t"
  using word_no_sep by (fastforce simp: redirs_ok_def rtoks_def split: option.splits)

lemma simple_no_sep: "readable (SimpleC a ws) \<Longrightarrow> t \<in> set (toks (SimpleC a ws)) \<Longrightarrow> CHR ''|'' \<notin> set t \<and> CHR '';'' \<notin> set t"
  using word_no_sep rtoks_no_sep by fastforce

lemma rtoks_not_stop: "t \<in> set (rtoks a) \<Longrightarrow> t \<notin> seq_stops"
  by (auto simp: rtoks_def seq_stops_def reserved_def split: option.splits)

lemma simple_no_stop:
  "readable (SimpleC a ws) \<Longrightarrow> set (toks (SimpleC a ws)) \<inter> seq_stops = {}"
  "readable (SimpleC a ws) \<Longrightarrow> set (toks (SimpleC a ws)) \<inter> reserved = {}"
  using rtoks_not_stop by (auto simp: seq_stops_def)

section \<open>What may follow a command on its line\<close>

definition closed :: "string list \<Rightarrow> bool" where
  "closed us \<longleftrightarrow> (us = [] \<or> hd us \<in> {''then'', ''else'', ''fi'', ''do'', ''done'', '')''})
     \<and> \<not> scan_toks single_bar reserved us \<and> \<not> scan_toks (\<lambda>w. CHR '';'' \<in> set w) seq_stops us
     \<and> list_all token_ok us"

lemma closed_nil [simp]: "closed []"
  by (simp add: closed_def)

lemma closed_reserved:
  "t \<in> {''then'', ''else'', ''fi'', ''do'', ''done''} \<Longrightarrow> list_all token_ok us \<Longrightarrow> closed (t # us)"
  by (auto simp: closed_def reserved_def seq_stops_def)

lemma closed_paren:
  assumes "closed us" "redirs_ok a"
  shows "closed ('')'' # rtoks a @ us)"
proof -
  have "\<not> scan_toks single_bar reserved (rtoks a)" "\<not> scan_toks (\<lambda>w. CHR '';'' \<in> set w) seq_stops (rtoks a)"
    using rtoks_no_sep [OF assms(2)] single_bar_none by (auto intro!: scan_toks_none)
  then show ?thesis using assms
    by (auto simp: closed_def scan_toks_append reserved_def seq_stops_def single_bar_def rtoks_ok)
qed

lemma closed_scan:
  "closed us \<Longrightarrow> scan_toks single_bar reserved (ts @ us) \<longleftrightarrow> scan_toks single_bar reserved ts"
  "closed us \<Longrightarrow> scan_toks (\<lambda>w. CHR '';'' \<in> set w) seq_stops (ts @ us) \<longleftrightarrow> scan_toks (\<lambda>w. CHR '';'' \<in> set w) seq_stops ts"
  by (auto simp: closed_def scan_toks_append)

section \<open>The look-ahead on a command\<close>

definition opens :: "string \<Rightarrow> bool" where
  "opens t \<longleftrightarrow> line_start t \<and> t \<notin> {''do'', ''then'', ''done'', ''else'', ''fi''}
     \<and> hd t \<noteq> CHR ''<'' \<and> hd t \<noteq> CHR ''>'' \<and> hd t \<noteq> CHR ''#''"

lemma word_first:
  assumes "word_ok w" "w \<notin> seq_stops"
  shows "opens w" "first_word w = Inr None"
proof -
  obtain b v where b: "w = b # v" "is_valid_char b" using assms(1) by (cases w) (auto simp: word_ok_def)
  have "b \<notin> set '';|()<>'' \<and> b \<noteq> CHR ''#''" using is_valid_char_not [OF b(2)] by simp
  then show "opens w" using assms(2) b by (auto simp: opens_def line_start_def seq_stops_def reserved_def)
  have "\<not> single_bar w" using single_bar_none word_no_sep [OF assms(1)] by blast
  then show "first_word w = Inr None"
    using assms(2) b is_valid_char_not [OF b(2)] by (auto simp: first_word_def seq_stops_def reserved_def)
qed

lemma simple_first:
  "readable x \<Longrightarrow> is_simple x \<Longrightarrow> \<exists>w vs. toks x = w # vs \<and> word_ok w \<and> w \<notin> seq_stops"
  by (cases x; cases "case x of SimpleC a ws \<Rightarrow> ws | _ \<Rightarrow> []") auto

lemma plain_first:
  assumes "readable c"
  obtains t ts where "toks c = t # ts" "opens t"
    "first_word t = Inr (Some (type_of c)) \<or> (first_word t = Inr None \<and> word_ok t
       \<and> type_of c \<in> {PIPE_COMMAND, SEQUENCE_COMMAND, SIMPLE_COMMAND})"
proof (cases c)
  case (SimpleC a ws)
  then show thesis using that simple_first [of c] word_first assms by fastforce
next
  case (PipeC a x y)
  then show thesis using that simple_first [of x] word_first assms by fastforce
next
  case (SequenceC a x y)
  then show thesis using that simple_first [of x] word_first assms by fastforce
next
  case (IfC a x y z)
  then show thesis using that [of "''if''"] assms
    by (cases z) (auto simp: opens_def first_word_def line_start_def is_valid_char_def between_def)
next
  case (SubshellC a x)
  then show thesis using that [of "''(''"]
    by (auto simp: opens_def first_word_def line_start_def is_special_char_def)
next
  case (UntilC a x y)
  then show thesis using that [of "''until''"]
    by (auto simp: opens_def first_word_def line_start_def is_valid_char_def between_def)
next
  case (WhileC a x y)
  then show thesis using that [of "''while''"]
    by (auto simp: opens_def first_word_def line_start_def is_valid_char_def between_def)
qed

lemma plain_kind:
  assumes "readable c" "closed us" "type_of c \<in> {PIPE_COMMAND, SEQUENCE_COMMAND, SIMPLE_COMMAND}"
    "CHR '';'' \<notin> set (hd (toks c @ us))"
  shows "line_kind (toks c @ us) = type_of c"
proof (cases c)
  case (SimpleC a ws)
  then have "\<not> scan_toks single_bar reserved (toks c)" "\<not> scan_toks (\<lambda>w. CHR '';'' \<in> set w) seq_stops (toks c)"
    using assms(1) simple_no_sep single_bar_none by (auto intro!: scan_toks_none)
  then show ?thesis using assms SimpleC unfolding line_kind_def closed_scan [OF assms(2)] by simp
next
  case (PipeC a x y)
  then obtain b ws where x: "x = SimpleC b ws" using assms(1) by (cases x) auto
  have "scan_toks single_bar reserved (toks c)"
    using simple_no_stop [of b ws] assms(1) PipeC x
    by (auto simp: scan_toks_append reserved_def single_bar_def)
  then show ?thesis using PipeC unfolding line_kind_def closed_scan [OF assms(2)] by simp
next
  case (SequenceC a x y)
  then obtain b ws where x: "x = SimpleC b ws" using assms(1) by (cases x) auto
  have s: "readable (SimpleC b ws)" using assms(1) SequenceC x by simp
  have "scan_toks (\<lambda>w. CHR '';'' \<in> set w) seq_stops (toks c)"
    using simple_no_stop [OF s] SequenceC x
    by (auto simp: scan_toks_append reserved_def seq_stops_def)
  moreover have "\<not> scan_toks single_bar reserved (toks x)"
    using simple_no_sep [OF s] single_bar_none x by (auto intro!: scan_toks_none)
  then have "\<not> scan_toks single_bar reserved (toks c)"
    using assms(1) SequenceC by (auto simp: scan_toks_append single_bar_def)
  ultimately show ?thesis using SequenceC unfolding line_kind_def closed_scan [OF assms(2)] by simp
qed (use assms in auto)

end
