(* ===== verification/ShellRound.thy ===== *)
theory ShellRound
  imports ShellText
begin

text \<open>
  The parser reads back what \<open>printcmd\<close> writes: the loop over a simple command, the ends of the
  compound commands, the descent into a readable command, and the stream of a script.
\<close>

section \<open>Simple commands\<close>

lemma simple_loop_blank:
  assumes "suffix (CHR '' '' # d # xs) buf"
  shows "simple_loop buf ws a wr (pos buf (CHR '' '' # d # xs) n) = simple_loop buf ws a wr (pos buf (d # xs) n)"
  using suffix_nth [OF assms] in_script [OF assms]
  by (subst simple_loop.simps) (simp add: Let_def is_blank_def step_pos [OF assms])

lemma simple_loop_blanks:
  "suffix (bl @ d # xs) buf \<Longrightarrow> blank bl \<Longrightarrow>
   simple_loop buf ws a wr (pos buf (bl @ d # xs) n) = simple_loop buf ws a wr (pos buf (d # xs) n)"
proof (induction bl)
  case (Cons b bl)
  have b: "b = CHR '' ''" "blank bl" using Cons.prems(2) by simp_all
  have suf: "suffix (CHR '' '' # bl @ d # xs) buf" using Cons.prems(1) b by simp
  obtain e zs where e: "bl @ d # xs = e # zs" by (cases bl) auto
  then show ?case using simple_loop_blank [of e zs buf ws a wr n] suf b Cons.IH suffix_tail [OF suf] by simp
qed simp

lemma valid_not:
  assumes "is_valid_char b"
  shows "\<not> is_blank b" "b \<noteq> CHR ''#''" "b \<noteq> CHR 0x0A" "\<not> is_special_char b" "b \<noteq> CHR ''<''" "b \<noteq> CHR ''>''"
  using is_valid_char_not [OF assms] by (auto simp: is_space_def is_special_char_def)

lemma suffix_word_in_script:
  "suffix (w @ c # xs) buf \<Longrightarrow> w \<noteq> [] \<Longrightarrow> length buf - length (w @ c # xs) < buffer_size buf"
  by (auto simp: buffer_size_def suffix_def Suc_le_eq length_greater_0_conv [symmetric] simp del: length_greater_0_conv)

lemma simple_loop_word:
  assumes suf: "suffix (w @ c # xs) buf" and w: "word_ok w" and c: "\<not> is_valid_char c"
  shows "simple_loop buf ws a wr (pos buf (w @ c # xs) n) =
    (if w \<in> reserved then Inr ((ws, a, True), pos buf (w @ c # xs) n)
     else simple_loop buf (ws @ [w]) a True (pos buf (c # xs) n))"
proof -
  obtain b v where b: "w = b # v" "is_valid_char b" using w by (cases w) (auto simp: word_ok_def)
  note here = suffix_nth [of b "v @ c # xs" buf] suffix_word_in_script [OF suf]
  have len: "length (w @ c # xs) \<le> length buf" using suf by (rule suffix_length_le)
  have word: "get_next_word buf (pos buf (w @ c # xs) n) = Inr (Some w, pos buf (c # xs) n)"
    using get_next_word_pos [of "[]" w c xs buf n] suf w c by simp
  have again: "(pos buf (c # xs) n)\<lparr>index := length buf - length (c # xs) - length w\<rparr> = pos buf (w @ c # xs) n"
    using len by (simp add: pos_def)
  have "buf ! (length buf - length (w @ c # xs)) = b" using here(1) suf b by simp
  then show ?thesis
    using here(4) valid_not [OF b(2)] b word again
    by (subst simple_loop.simps) (simp add: Let_def)
qed

lemma simple_loop_input:
  assumes suf: "suffix (CHR ''<'' # f @ c # xs) buf" and f: "word_ok f" and c: "\<not> is_valid_char c"
    and a: "cmd_input a = None"
  shows "simple_loop buf ws a wr (pos buf (CHR ''<'' # f @ c # xs) n) =
    simple_loop buf ws (a\<lparr>cmd_input := Some f\<rparr>) wr (pos buf (c # xs) n)"
proof -
  have word: "get_next_word buf (pos buf (f @ c # xs) n) = Inr (Some f, pos buf (c # xs) n)"
    using get_next_word_pos [of "[]" f c xs buf n] suffix_tail [OF suf] f c by simp
  have "length buf - length (CHR ''<'' # f @ c # xs) < buffer_size buf"
    using suffix_word_in_script [of "CHR ''<'' # f" c xs buf] suf by simp
  then show ?thesis using suffix_nth [OF suf] word a
    by (subst simple_loop.simps)
      (simp add: Let_def step_pos [OF suf] is_blank_def is_valid_char_def between_def)
qed

lemma simple_loop_output:
  assumes suf: "suffix (CHR ''>'' # f @ c # xs) buf" and f: "word_ok f" and c: "\<not> is_valid_char c"
    and a: "cmd_output a = None"
  shows "simple_loop buf ws a wr (pos buf (CHR ''>'' # f @ c # xs) n) =
    simple_loop buf ws (a\<lparr>cmd_output := Some f\<rparr>) wr (pos buf (c # xs) n)"
proof -
  have word: "get_next_word buf (pos buf (f @ c # xs) n) = Inr (Some f, pos buf (c # xs) n)"
    using get_next_word_pos [of "[]" f c xs buf n] suffix_tail [OF suf] f c by simp
  have "length buf - length (CHR ''>'' # f @ c # xs) < buffer_size buf"
    using suffix_word_in_script [of "CHR ''>'' # f" c xs buf] suf by simp
  then show ?thesis using suffix_nth [OF suf] word a
    by (subst simple_loop.simps)
      (simp add: Let_def step_pos [OF suf] is_blank_def is_valid_char_def between_def)
qed

text \<open>Where a simple command ends, and the state after it.\<close>

definition stops_here :: "string \<Rightarrow> bool" where
  "stops_here ys \<longleftrightarrow> (\<exists>z zs. ys = CHR 0x0A # z # zs) \<or> (\<exists>c z zs. ys = c # z # zs \<and> c \<in> set '';|)'') \<or>
     (\<exists>u \<in> reserved. \<exists>zs. ys = u @ CHR '' '' # zs)"

definition after_simple :: "string \<Rightarrow> string \<Rightarrow> nat \<Rightarrow> pstate" where
  "after_simple buf ys n = (if hd ys = CHR 0x0A then pos buf (tl ys) (n + 1) else pos buf ys n)"

lemma blank_not_valid [simp]: "\<not> is_valid_char (CHR '' '')"
  by (simp add: is_valid_char_def between_def)

lemma reserved_words: "\<forall>u \<in> reserved. word_ok u"
  by code_simp

lemma reserved_word: "u \<in> reserved \<Longrightarrow> word_ok u"
  using reserved_words by blast

lemma simple_loop_stop:
  assumes suf: "suffix ys buf" and ys: "stops_here ys" and ws: "ws \<noteq> []"
  shows "simple_loop buf ws a True (pos buf ys n) = Inr ((ws, a, True), after_simple buf ys n)"
  using ys unfolding stops_here_def
proof (elim disjE exE bexE conjE)
  fix z zs
  assume y: "ys = CHR 0x0A # z # zs"
  show ?thesis using suffix_nth [of "CHR 0x0A" "z # zs" buf] in_script [of "CHR 0x0A" z zs buf] suf y
    by (subst simple_loop.simps)
      (simp add: Let_def is_blank_def after_simple_def new_line_pos step_pos)
next
  fix c z zs
  assume y: "ys = c # z # zs" "c \<in> set '';|)''"
  then show ?thesis using suffix_nth [of c "z # zs" buf] in_script [of c z zs buf] suf
    by (subst simple_loop.simps)
      (auto simp: Let_def is_blank_def after_simple_def is_valid_char_def between_def is_special_char_def)
next
  fix u zs
  assume y: "u \<in> reserved" "ys = u @ CHR '' '' # zs"
  obtain b v where b: "u = b # v" "is_valid_char b" using reserved_word [OF y(1)] by (cases u) (auto simp: word_ok_def)
  then show ?thesis using simple_loop_word [of u "CHR '' ''" zs buf ws a True n] reserved_word [OF y(1)] suf y
      valid_not(3) [OF b(2)] by (simp add: after_simple_def)
qed

lemma stops_nonempty: "stops_here ys \<Longrightarrow> \<exists>d zs. ys = d # zs"
  by (auto simp: stops_here_def reserved_def)

lemma simple_loop_words:
  assumes "suffix (bl @ spaced vs @ ys) buf" "blank bl" "\<forall>w \<in> set vs. word_ok w \<and> w \<notin> reserved" "ys \<noteq> []"
    "vs \<noteq> [] \<or> wr"
  shows "simple_loop buf ws a wr (pos buf (bl @ spaced vs @ ys) n) = simple_loop buf (ws @ vs) a True (pos buf ys n)"
  using assms(1-3,5)
proof (induction vs arbitrary: bl ws wr)
  case Nil
  then show ?case using simple_loop_blanks [of bl "hd ys" "tl ys" buf ws a wr n] assms(4) by simp
next
  case (Cons w vs)
  obtain b v where b: "w = b # v" using Cons.prems(3) by (cases w) (auto simp: word_ok_def)
  have suf: "suffix (bl @ w @ CHR '' '' # spaced vs @ ys) buf" using Cons.prems(1) by simp
  note suf2 = suffix_right [OF suf]
  have "suffix ('' '' @ spaced vs @ ys) buf" using suffix_right [OF suf2] by simp
  from Cons.IH [OF this, of True "ws @ [w]"] show ?case
    using simple_loop_blanks [of bl b "v @ CHR '' '' # spaced vs @ ys" buf ws a wr n] suf b Cons.prems(2,3)
      simple_loop_word [OF suf2, of ws a wr n] by simp
qed

lemma simple_loop_redirs:
  assumes suf: "suffix (spaced (rtoks a) @ ys) buf" and a: "redirs_ok a" and ys: "ys \<noteq> []"
  shows "simple_loop buf ws initialize_command wr (pos buf (spaced (rtoks a) @ ys) n) =
    simple_loop buf ws a wr (pos buf ys n)"
proof -
  obtain d zs where d: "ys = d # zs" using ys by (cases ys) auto
  have skip: "simple_loop buf ws b wr (pos buf (CHR '' '' # d # zs) n) = simple_loop buf ws b wr (pos buf ys n)"
    if "suffix (CHR '' '' # d # zs) buf" for b using simple_loop_blank [OF that] d by simp
  obtain i out where a': "a = \<lparr>status = -1, cmd_input = i, cmd_output = out\<rparr>"
    using a by (cases a) (simp add: redirs_ok_def)
  have ok: "\<forall>f. i = Some f \<longrightarrow> word_ok f" "\<forall>f. out = Some f \<longrightarrow> word_ok f"
    using a a' by (auto simp: redirs_ok_def)
  show ?thesis
  proof (cases i)
    case None
    then show ?thesis
    proof (cases out)
      case (Some g)
      have s: "suffix (CHR ''>'' # g @ CHR '' '' # d # zs) buf" using suf None Some a' d by (simp add: rtoks_def)
      have s2: "suffix (CHR '' '' # d # zs) buf" using suffix_right [of "CHR ''>'' # g"] s by simp
      show ?thesis using simple_loop_output [OF s, of initialize_command ws wr n] ok(2) Some None a' d skip [OF s2]
        by (simp add: rtoks_def initialize_command_def)
    qed (use a' in \<open>simp add: rtoks_def initialize_command_def\<close>)
  next
    case i: (Some f)
    show ?thesis
    proof (cases out)
      case None
      have s: "suffix (CHR ''<'' # f @ CHR '' '' # d # zs) buf" using suf None i a' d by (simp add: rtoks_def)
      have s2: "suffix (CHR '' '' # d # zs) buf" using suffix_right [of "CHR ''<'' # f"] s by simp
      show ?thesis using simple_loop_input [OF s, of initialize_command ws wr n] ok(1) i None a' d skip [OF s2]
        by (simp add: rtoks_def initialize_command_def)
    next
      case (Some g)
      have s: "suffix (CHR ''<'' # f @ CHR '' '' # CHR ''>'' # g @ CHR '' '' # d # zs) buf"
        using suf Some i a' d by (simp add: rtoks_def)
      have s1: "suffix (CHR '' '' # CHR ''>'' # g @ CHR '' '' # d # zs) buf"
        using suffix_right [of "CHR ''<'' # f"] s by simp
      note s2 = suffix_tail [OF s1]
      have s3: "suffix (CHR '' '' # d # zs) buf" using suffix_right [of "CHR ''>'' # g"] s2 by simp
      show ?thesis using simple_loop_input [OF s, of initialize_command ws wr n] simple_loop_blank [OF s1, of ws _ wr n]
          simple_loop_output [OF s2, of "initialize_command\<lparr>cmd_input := Some f\<rparr>" ws wr n] ok i Some a' d skip [OF s3]
        by (simp add: rtoks_def initialize_command_def)
    qed
  qed
qed

lemma create_simple_pos:
  assumes suf: "suffix (bl @ spaced (toks (SimpleC a ws)) @ ys) buf" and bl: "blank bl"
    and c: "readable (SimpleC a ws)" and ys: "stops_here ys"
  shows "create_simple_command buf (pos buf (bl @ spaced (toks (SimpleC a ws)) @ ys) n) =
    Inr (SimpleC a ws, after_simple buf ys n)"
proof -
  have s: "suffix (bl @ spaced ws @ spaced (rtoks a) @ ys) buf" using suf by (simp add: spaced_append)
  have ne: "ys \<noteq> []" using stops_nonempty [OF ys] by auto
  have words: "\<forall>w \<in> set ws. word_ok w \<and> w \<notin> reserved" "ws \<noteq> []" "redirs_ok a"
    using c by (auto simp: seq_stops_def)
  have "suffix ((bl @ spaced ws) @ spaced (rtoks a) @ ys) buf" using s by simp
  note s2 = suffix_right [OF this]
  have "simple_loop buf [] initialize_command False (pos buf (bl @ spaced (toks (SimpleC a ws)) @ ys) n) =
      simple_loop buf ws initialize_command True (pos buf (spaced (rtoks a) @ ys) n)"
    using simple_loop_words [OF s bl words(1), of False "[]" initialize_command n] words(2) ne
    by (simp add: spaced_append)
  also have "\<dots> = Inr ((ws, a, True), after_simple buf ys n)"
    using simple_loop_redirs [OF s2 words(3) ne] simple_loop_stop [OF suffix_right [OF s2] ys words(2)] by simp
  finally show ?thesis by (simp add: create_simple_command_def andthen_def ret_def)
qed

section \<open>Lines\<close>

definition line :: "string list \<Rightarrow> string \<Rightarrow> string" where
  "line us rest = spaced us @ CHR 0x0A # rest"

lemma line_simps [simp]:
  "line [] rest = CHR 0x0A # rest" "line (u # us) rest = u @ CHR '' '' # line us rest"
  by (simp_all add: line_def)

lemma line_append: "line (ts @ us) rest = spaced ts @ line us rest"
  by (simp add: line_def spaced_append)

lemma line_ne [simp]: "line us rest \<noteq> []"
  by (simp add: line_def)

text \<open>The state after a command: before the rest of its line, or on the next line.\<close>

definition after :: "string \<Rightarrow> string list \<Rightarrow> string \<Rightarrow> nat \<Rightarrow> pstate \<Rightarrow> bool" where
  "after buf us rest n s \<longleftrightarrow>
     (\<exists>bl. blank bl \<and> suffix (bl @ line us rest) buf \<and> s = pos buf (bl @ line us rest) n) \<or>
     (us = [] \<and> suffix rest buf \<and> s = pos buf rest (n + 1))"

lemma word_step:
  assumes "suffix (bl @ line (u # us) rest) buf" "blank bl" "word_ok u"
  shows "get_next_word buf (pos buf (bl @ line (u # us) rest) n) = Inr (Some u, pos buf (CHR '' '' # line us rest) n)"
    "suffix (CHR '' '' # line us rest) buf"
proof -
  have suf: "suffix (bl @ u @ CHR '' '' # line us rest) buf" using assms(1) by simp
  show "get_next_word buf (pos buf (bl @ line (u # us) rest) n) = Inr (Some u, pos buf (CHR '' '' # line us rest) n)"
    using get_next_word_pos [OF suf assms(2,3)] by simp
  show "suffix (CHR '' '' # line us rest) buf" by (rule suffix_right [OF suffix_right [OF suf]])
qed

lemma after_word:
  assumes "after buf (u # us) rest n s" "word_ok u"
  shows "get_next_word buf s = Inr (Some u, pos buf (CHR '' '' # line us rest) n)"
    "suffix (CHR '' '' # line us rest) buf" "at_end buf msg s = Inr ((), s)"
proof -
  obtain bl where bl: "blank bl" "suffix (bl @ line (u # us) rest) buf" "s = pos buf (bl @ line (u # us) rest) n"
    using assms(1) by (auto simp: after_def)
  show "get_next_word buf s = Inr (Some u, pos buf (CHR '' '' # line us rest) n)"
    "suffix (CHR '' '' # line us rest) buf" using word_step [OF bl(2,1) assms(2)] bl(3) by simp_all
  have "suffix ((bl @ u) @ CHR '' '' # line us rest) buf" using bl(2) by simp
  then have "length buf - length ((bl @ u) @ CHR '' '' # line us rest) < buffer_size buf"
    by (rule suffix_word_in_script) (use assms(2) in \<open>simp add: word_ok_def\<close>)
  then show "at_end buf msg s = Inr ((), s)" using bl(3) by (simp add: at_end_def)
qed

lemma advance_pos: "suffix (c # xs) buf \<Longrightarrow> advance 1 (pos buf (c # xs) n) = Inr ((), pos buf xs n)"
  using step_pos by (simp add: advance_def step_def)

section \<open>The ends of compound commands\<close>

definition ahead :: "string \<Rightarrow> string" where
  "ahead xs = c_str (takeWhile token_char (dropWhile is_space (butlast xs)))"

lemma token_here_pos:
  assumes "suffix (c # d # xs) buf"
  shows "token_here buf (pos buf (c # d # xs) n) = Inr (ahead (c # d # xs), pos buf (c # d # xs) n)"
proof -
  have len: "length (c # d # xs) \<le> length buf" using assms by (rule suffix_length_le)
  have "buffer_size buf - (length buf - length (c # d # xs)) = length (c # d # xs) - 1"
    using len by (simp add: buffer_size_def)
  then have "drop (length buf - length (c # d # xs)) (take (buffer_size buf) buf) = butlast (c # d # xs)"
    unfolding drop_take_suffix [OF assms] by (simp add: butlast_conv_take)
  then show ?thesis using in_script [OF assms]
    by (simp add: token_here_def read_next_token_def ahead_def)
qed

lemma ahead_space: "is_space c \<Longrightarrow> xs \<noteq> [] \<Longrightarrow> ahead (c # xs) = ahead xs"
  by (simp add: ahead_def)

lemma ahead_token: "token_ok t \<Longrightarrow> xs \<noteq> [] \<Longrightarrow> ahead (t @ CHR '' '' # xs) = t"
proof -
  assume t: "token_ok t" and xs: "xs \<noteq> []"
  obtain a v where a: "t = a # v" "\<not> is_space a" using token_start [OF t] by blast
  have "butlast (t @ CHR '' '' # xs) = t @ CHR '' '' # butlast xs" using xs by (simp add: butlast_append)
  moreover have "dropWhile is_space (t @ CHR '' '' # butlast xs) = t @ CHR '' '' # butlast xs" using a by simp
  ultimately show ?thesis using token_takeWhile [OF t] by (simp add: ahead_def)
qed

lemma space_simps [simp]: "is_space (CHR '' '')" "is_space (CHR 0x0A)"
  by (simp_all add: is_space_def is_blank_def)

definition quiet :: "string \<Rightarrow> bool" where
  "quiet xs \<longleftrightarrow> \<not> starts (CHR ''<'') (ahead xs) \<and> \<not> starts (CHR ''>'') (ahead xs)"

lemma quiet_line:
  assumes "closed us" "rest \<noteq> []" "quiet rest"
  shows "quiet (CHR '' '' # line us rest)"
proof (cases us)
  case Nil
  then show ?thesis using assms(2,3) by (simp add: quiet_def ahead_space)
next
  case (Cons u vs)
  then have u: "token_ok u" "u \<in> {''then'', ''else'', ''fi'', ''do'', ''done'', '')''}"
    using assms(1) by (auto simp: closed_def)
  have "ahead (CHR '' '' # line us rest) = u" using ahead_token [OF u(1), of "line vs rest"] Cons by (simp add: ahead_space)
  then show ?thesis using u(2) by (auto simp: quiet_def starts_def)
qed

lemma tail_file_pos:
  assumes suf: "suffix (CHR '' '' # c # f @ CHR '' '' # xs) buf" and c: "c \<in> set ''<>''" and f: "word_ok f"
  shows "tail_file buf (pos buf (CHR '' '' # c # f @ CHR '' '' # xs) n) = Inr (Some f, pos buf (CHR '' '' # xs) n)"
proof -
  have no: "solid c" "\<not> is_valid_char c"
    using c by (auto simp: solid_def is_space_def is_blank_def is_valid_char_def between_def)
  have suf1: "suffix (c # f @ CHR '' '' # xs) buf" by (rule suffix_tail [OF suf])
  have suf2: "suffix ([] @ f @ CHR '' '' # xs) buf" using suffix_tail [OF suf1] by simp
  have "get_next_word buf (pos buf (CHR '' '' # c # f @ CHR '' '' # xs) n) = Inr (None, pos buf (c # f @ CHR '' '' # xs) n)"
    using get_next_word_none [of "'' ''" c "f @ CHR '' '' # xs" buf n] suf no by simp
  then show ?thesis using advance_pos [OF suf1] get_next_word_pos [OF suf2 _ f]
    by (simp add: tail_file_def andthen_def)
qed

text \<open>A redirection at the end of a compound command, or none.\<close>

lemma tail_cases:
  assumes "tail_ok a"
  obtains "rtoks a = []" "a = initialize_command"
  | f where "rtoks a = [CHR ''<'' # f]" "word_ok f" "a = initialize_command\<lparr>cmd_input := Some f\<rparr>"
  | f where "rtoks a = [CHR ''>'' # f]" "word_ok f" "a = initialize_command\<lparr>cmd_output := Some f\<rparr>"
  using assms that
  by (cases a; cases "cmd_input a"; cases "cmd_output a")
    (auto simp: tail_ok_def redirs_ok_def rtoks_def initialize_command_def)

lemma tail_pos:
  assumes a: "tail_ok a" and suf: "suffix (CHR '' '' # line (rtoks a @ us) rest) buf"
    and us: "closed us" "rest \<noteq> []" "quiet rest"
  shows "tail_redirect buf initialize_command (pos buf (CHR '' '' # line (rtoks a @ us) rest) n) =
      Inr (a, pos buf (CHR '' '' # line us rest) n)"
    "rtoks a \<noteq> [] \<Longrightarrow> while_redirect buf initialize_command (pos buf (CHR '' '' # line (rtoks a @ us) rest) n) =
      Inr (a, pos buf (CHR '' '' # line us rest) n)"
    "suffix (CHR '' '' # line us rest) buf"
proof -
  let ?s = "pos buf (CHR '' '' # line (rtoks a @ us) rest) n"
  have char: "char_here buf ?s = Inr (CHR '' '', ?s)" using suffix_nth [OF suf] by (simp add: char_here_def)
  obtain d zs where d: "line (rtoks a @ us) rest = d # zs" by (metis list.exhaust line_ne)
  have tok: "token_here buf ?s = Inr (ahead (CHR '' '' # line (rtoks a @ us) rest), ?s)"
    using token_here_pos [of "CHR '' ''" d zs buf n] suf d by simp
  note defs = tail_redirect_def while_redirect_def andthen_def ret_def required_def
  have red: "ahead (CHR '' '' # line (rtoks a @ us) rest) = c # f" if "rtoks a = [c # f]" "token_ok (c # f)" for c f
    using ahead_token [OF that(2), of "line us rest"] that(1) by (simp add: ahead_space)
  from a show "tail_redirect buf initialize_command ?s = Inr (a, pos buf (CHR '' '' # line us rest) n)"
  proof (cases rule: tail_cases)
    case 1
    then show ?thesis using char tok quiet_line [OF us] by (simp add: defs quiet_def)
  next
    case (2 f)
    then show ?thesis using char tok red redirect_token(1) [OF 2(2)] tail_file_pos [of _ f "line us rest" buf n] suf
      by (simp add: defs starts_def initialize_command_def)
  next
    case (3 f)
    then show ?thesis using char tok red redirect_token(2) [OF 3(2)] tail_file_pos [of _ f "line us rest" buf n] suf
      by (simp add: defs starts_def initialize_command_def)
  qed
  from a show "while_redirect buf initialize_command ?s = Inr (a, pos buf (CHR '' '' # line us rest) n)"
    if "rtoks a \<noteq> []"
  proof (cases rule: tail_cases)
    case (2 f)
    then show ?thesis using char tok red redirect_token(1) [OF 2(2)] tail_file_pos [of _ f "line us rest" buf n] suf
      by (simp add: defs starts_def initialize_command_def)
  next
    case (3 f)
    then show ?thesis using char tok red redirect_token(2) [OF 3(2)] tail_file_pos [of _ f "line us rest" buf n] suf
      by (simp add: defs starts_def initialize_command_def)
  qed (use that in simp)
  from a show "suffix (CHR '' '' # line us rest) buf"
  proof (cases rule: tail_cases)
    case (2 f)
    then show ?thesis using suf suffix_right [of "CHR '' '' # CHR ''<'' # f"] by simp
  next
    case (3 f)
    then show ?thesis using suf suffix_right [of "CHR '' '' # CHR ''>'' # f"] by simp
  qed (use suf in simp)
qed

end
