(* ===== verification/ShellParseRound.thy ===== *)
theory ShellParseRound
  imports ShellRound
begin

text \<open>
  The descent of the shell parser into a readable command and the stream of a whole script: the
  parser reads back the commands whose profile text it is given.
\<close>

section \<open>Separators\<close>

lemma find_bar_pos:
  "suffix (as @ CHR ''|'' # d # xs) buf \<Longrightarrow> CHR ''|'' \<notin> set as \<Longrightarrow> d \<noteq> CHR ''|'' \<Longrightarrow>
   find_bar buf (length buf - length (as @ CHR ''|'' # d # xs)) = Some (length buf - length (CHR ''|'' # d # xs))"
proof (induction as)
  case Nil
  then show ?case using suffix_nth [of "CHR ''|''" "d # xs" buf] suffix_nth [of d xs buf] suffix_tail [of _ "d # xs"]
    by (subst find_bar.simps) simp
next
  case (Cons a as)
  then have suf: "suffix (a # as @ CHR ''|'' # d # xs) buf" by simp
  show ?case using suffix_nth [OF suf] Cons suffix_tail [OF suf] by (subst find_bar.simps) auto
qed

lemma find_char_pos:
  assumes "suffix (as @ c # xs) buf" "c \<notin> set as"
  shows "find_char c buf (length buf - length (as @ c # xs)) = Some (length buf - length (c # xs))"
proof -
  have "takeWhile (\<lambda>d. d \<noteq> c) (drop (length buf - length (as @ c # xs)) buf) = as"
    using suffix_drop [OF assms(1)] assms(2) by (simp add: takeWhile_append takeWhile_eq_all_conv)
  moreover have "length (as @ c # xs) \<le> length buf" using assms(1) by (rule suffix_length_le)
  ultimately show ?thesis by (simp add: find_char_def Let_def)
qed

lemma skip_until_here:
  "suffix (c # xs) buf \<Longrightarrow> skip_until c strict buf (pos buf (c # xs) n) = Inr ((), pos buf (c # xs) n)"
  using suffix_nth [of c xs buf] by (subst skip_until.simps) (simp add: Let_def)

lemma close_subshell_pos:
  "suffix (bl @ CHR '')'' # xs) buf \<Longrightarrow> blank bl \<Longrightarrow>
   close_subshell buf (pos buf (bl @ CHR '')'' # xs) n) = Inr ((), pos buf xs n)"
proof (induction bl)
  case Nil
  then show ?case using suffix_nth [of "CHR '')''" xs buf] step_pos [of "CHR '')''" xs buf n]
    by (subst close_subshell.simps) simp
next
  case (Cons b bl)
  have b: "b = CHR '' ''" "blank bl" using Cons.prems(2) by simp_all
  have suf: "suffix (CHR '' '' # bl @ CHR '')'' # xs) buf" using Cons.prems(1) b by simp
  obtain e zs where e: "bl @ CHR '')'' # xs = e # zs" "e \<noteq> eof_char"
    using b(2) by (cases bl) (auto simp: eof_char_def)
  have nxt: "buf ! (length buf - Suc (length zs)) = e" "length buf - Suc (length zs) < length buf"
    using suffix_nth [of e zs buf] suffix_tail [OF suf] e(1) by simp_all
  have "length buf - length (CHR '' '' # e # zs) + 1 = length buf - length (e # zs)"
    using suffix_nth(3) [OF suf] e(1) by simp
  moreover have suf2: "suffix (CHR '' '' # e # zs) buf" using suf e(1) by simp
  ultimately have "close_subshell buf (pos buf (CHR '' '' # e # zs) n) = close_subshell buf (pos buf (e # zs) n)"
    using suffix_nth [OF suf] e nxt
    by (subst close_subshell.simps) (simp add: Let_def eof_char_def step_pos [OF suf2])
  then show ?case using Cons.IH [OF suffix_tail [OF suf] b(2)] b(1) e(1) by simp
qed

section \<open>The type of a readable command\<close>

lemma closed_tokens: "closed us \<Longrightarrow> list_all token_ok us"
  by (simp add: closed_def)

lemma plain_opens:
  assumes "readable c"
  obtains t ts where "toks c = t # ts" "opens t" "token_ok t"
  using plain_first [OF assms] toks_ok [OF assms] by (metis list.pred_inject(2))

lemma type_pos:
  assumes suf: "suffix (bl @ spaced (toks c @ us) @ ys) buf" and bl: "blank bl"
    and c: "readable c" "closed us" and lim: "limit buf sz ys"
  shows "get_command_type buf sz (pos buf (bl @ spaced (toks c @ us) @ ys) n) =
    Inr (type_of c, pos buf (spaced (toks c @ us) @ ys) n)"
proof (rule plain_first [OF c(1)])
  fix t ts
  assume t: "toks c = t # ts" "opens t"
    and kind: "first_word t = Inr (Some (type_of c)) \<or> (first_word t = Inr None \<and> word_ok t
       \<and> type_of c \<in> {PIPE_COMMAND, SEQUENCE_COMMAND, SIMPLE_COMMAND})"
  have ok: "list_all token_ok (t # ts @ us)" using toks_ok [OF c(1)] closed_tokens [OF c(2)] t(1) by simp
  have suf': "suffix (bl @ spaced (t # ts @ us) @ ys) buf" using suf t(1) by simp
  note gct = get_command_type_pos [OF suf' bl ok _ lim, of n]
  from kind show ?thesis
  proof
    assume "first_word t = Inr (Some (type_of c))"
    then show ?thesis using gct t by (simp add: opens_def)
  next
    assume none: "first_word t = Inr None \<and> word_ok t
       \<and> type_of c \<in> {PIPE_COMMAND, SEQUENCE_COMMAND, SIMPLE_COMMAND}"
    then have "line_kind (toks c @ us) = type_of c"
      by (intro plain_kind [OF c]) (use word_no_sep [of t] t(1) in auto)
    then show ?thesis using gct t none by (simp add: opens_def)
  qed
qed

text \<open>A simple command on the left of a separator.\<close>

lemma left_part_pos:
  assumes x: "is_simple x" "readable x" and suf: "suffix (spaced (toks x) @ s # CHR '' '' # zs) buf"
    and s: "s \<in> set '';|''" and d: "0 < d"
  shows "part (create d buf) buf (length buf - length (s # CHR '' '' # zs)) (pos buf (spaced (toks x) @ s # CHR '' '' # zs) n) =
    Inr (x, pos buf (s # CHR '' '' # zs) n)"
proof -
  obtain b ws where b: "x = SimpleC b ws" using x(1) by (cases x) auto
  let ?ys = "s # CHR '' '' # zs"
  have suf': "suffix ([] @ spaced (toks x @ []) @ ?ys) buf" using suf by simp
  have "limit buf (length buf - length ?ys) ?ys" by (simp add: limit_def)
  note type = type_pos [OF suf' _ x(2) closed_nil this, of n]
  have "stops_here ?ys" using s by (auto simp: stops_here_def)
  moreover have "hd ?ys \<noteq> CHR 0x0A" using s by auto
  ultimately have "create_simple_command buf (pos buf (spaced (toks x) @ ?ys) n) = Inr (x, pos buf ?ys n)"
    using create_simple_pos [of "[]" b ws ?ys buf n] suf x(2) b by (simp add: after_simple_def)
  then show ?thesis using type d b by (cases d) (simp_all add: part_def andthen_def)
qed

lemma simple_chars:
  assumes "is_simple x" "readable x" "s \<in> set '';|''"
  shows "s \<notin> set (spaced (toks x))"
proof -
  obtain b ws where b: "x = SimpleC b ws" using assms(1) by (cases x) auto
  then have "\<forall>t \<in> set (toks x). CHR ''|'' \<notin> set t \<and> CHR '';'' \<notin> set t" using simple_no_sep assms(2) by blast
  then show ?thesis using assms(3) by (auto simp: spaced_def)
qed

section \<open>The descent\<close>

text \<open>The parser with \<open>d\<close> frames reads the command back, wherever it stands in a line.\<close>

definition reads :: "nat \<Rightarrow> command \<Rightarrow> bool" where
  "reads d c \<longleftrightarrow> (\<forall>buf bl us rest n. suffix (bl @ line (toks c @ us) rest) buf \<longrightarrow> blank bl \<longrightarrow> closed us \<longrightarrow>
     rest \<noteq> [] \<longrightarrow> quiet rest \<longrightarrow>
     (\<exists>s. part (create d buf) buf (buffer_size buf) (pos buf (bl @ line (toks c @ us) rest) n) = Inr (c, s)
        \<and> after buf us rest n s))"

lemma readsD:
  assumes "reads d c" "suffix (bl @ line (toks c @ us) rest) buf" "blank bl" "closed us" "rest \<noteq> []" "quiet rest"
  obtains s where "part (create d buf) buf (buffer_size buf) (pos buf (bl @ line (toks c @ us) rest) n) = Inr (c, s)"
    "after buf us rest n s"
  using assms unfolding reads_def by metis

lemma readsI:
  assumes c: "readable c"
    and create: "\<And>buf us rest n. suffix (line (toks c @ us) rest) buf \<Longrightarrow> closed us \<Longrightarrow> rest \<noteq> [] \<Longrightarrow> quiet rest \<Longrightarrow>
      \<exists>s. create_command (create d buf) buf (type_of c) (pos buf (line (toks c @ us) rest) n) = Inr (c, s)
        \<and> after buf us rest n s"
  shows "reads (Suc d) c"
  unfolding reads_def
proof (intro allI impI)
  fix buf bl us rest n
  assume a: "suffix (bl @ line (toks c @ us) rest) buf" "blank bl" "closed us" "rest \<noteq> []" "quiet rest"
  obtain z zs where z: "rest = z # zs" using a(4) by (cases rest) auto
  have "suffix ((bl @ spaced (toks c @ us)) @ CHR 0x0A # z # zs) buf" using a(1) z by (simp add: line_def)
  then have lim: "limit buf (buffer_size buf) (CHR 0x0A # rest)" using limit_line suffix_right z by blast
  have "get_command_type buf (buffer_size buf) (pos buf (bl @ line (toks c @ us) rest) n) =
      Inr (type_of c, pos buf (line (toks c @ us) rest) n)"
    using type_pos [OF _ a(2) c a(3) lim] a(1) by (simp add: line_def)
  then show "\<exists>s. part (create (Suc d) buf) buf (buffer_size buf) (pos buf (bl @ line (toks c @ us) rest) n) = Inr (c, s)
      \<and> after buf us rest n s"
    using create [OF suffix_right [OF a(1)] a(3-5), of n] by (simp add: part_def andthen_def)
qed

lemma stops_line: "closed us \<Longrightarrow> rest \<noteq> [] \<Longrightarrow> stops_here (line us rest)"
  by (cases us; cases rest) (auto simp: stops_here_def closed_def reserved_def)

lemma reads_simple:
  assumes "readable (SimpleC a ws)" shows "reads (Suc d) (SimpleC a ws)"
proof (rule readsI [OF assms])
  fix buf us rest n
  assume a: "suffix (line (toks (SimpleC a ws) @ us) rest) buf" "closed us" "rest \<noteq> []"
  have suf: "suffix ([] @ spaced (toks (SimpleC a ws)) @ line us rest) buf"
    using a(1) by (simp add: line_append del: toks.simps)
  note tail = suffix_right [OF suf [simplified append_Nil]]
  have "after buf us rest n (after_simple buf (line us rest) n)"
  proof (cases us)
    case Nil
    then show ?thesis using tail suffix_tail [of "CHR 0x0A" rest buf] by (simp add: after_def after_simple_def)
  next
    case (Cons u vs)
    then have "u \<in> {''then'', ''else'', ''fi'', ''do'', ''done'', '')''}" using a(2) by (simp add: closed_def)
    then have "hd (line us rest) \<noteq> CHR 0x0A" using Cons by auto
    then show ?thesis using tail unfolding after_def after_simple_def
      by (intro disjI1 exI [of _ "[]"]) simp
  qed
  then show "\<exists>s. create_command (create d buf) buf (type_of (SimpleC a ws)) (pos buf (line (toks (SimpleC a ws) @ us) rest) n) =
      Inr (SimpleC a ws, s) \<and> after buf us rest n s"
    using create_simple_pos [OF suf _ assms stops_line [OF a(2,3)], of n]
    by (simp add: line_append del: toks.simps)
qed

lemma reads_pipe:
  assumes c: "readable (PipeC a x y)" and y: "reads d y" and d: "0 < d"
  shows "reads (Suc d) (PipeC a x y)"
proof (rule readsI [OF c])
  fix buf us rest n
  assume a: "suffix (line (toks (PipeC a x y) @ us) rest) buf" "closed us" "rest \<noteq> []" "quiet rest"
  have x: "is_simple x" "readable x" "a = initialize_command" using c by simp_all
  let ?right = "CHR '' '' # line (toks y @ us) rest"
  have eq: "line (toks (PipeC a x y) @ us) rest = spaced (toks x) @ CHR ''|'' # ?right"
    using x(3) by (simp add: line_append)
  note suf = a(1) [unfolded eq]
  note right = suffix_right [OF suf]
  obtain s where s: "part (create d buf) buf (buffer_size buf) (pos buf ?right n) = Inr (y, s)" "after buf us rest n s"
    using readsD [OF y _ _ a(2-4), of "'' ''" buf n] suffix_tail [OF right] by auto
  show "\<exists>s. create_command (create d buf) buf (type_of (PipeC a x y)) (pos buf (line (toks (PipeC a x y) @ us) rest) n) =
      Inr (PipeC a x y, s) \<and> after buf us rest n s"
    using find_bar_pos [OF suf simple_chars [OF x(1,2)]] left_part_pos [OF x(1,2) suf _ d, of n]
      skip_until_here [OF right] advance_pos [OF right] s x(3)
    unfolding eq by (simp add: create_pipe_command_def andthen_def ret_def)
qed

text \<open>A sequence reads its right side up to the end of the line, whatever stands there.\<close>

lemma create_sequence_pos:
  assumes x: "is_simple x" "readable x" and y: "readable y" "reads d y" and d: "0 < d"
    and suf: "suffix (spaced (toks x) @ CHR '';'' # CHR '' '' # line (toks y @ us) rest) buf"
    and us: "closed us" "rest \<noteq> []" "quiet rest"
  obtains s where "create_sequence_command (create d buf) buf
      (pos buf (spaced (toks x) @ CHR '';'' # CHR '' '' # line (toks y @ us) rest) n) =
      Inr (SequenceC initialize_command x y, s)" "after buf us rest n s"
proof -
  let ?right = "CHR '' '' # line (toks y @ us) rest"
  note right = suffix_right [OF suf]
  note right' = suffix_tail [OF right]
  obtain s where s: "part (create d buf) buf (buffer_size buf) (pos buf ?right n) = Inr (y, s)" "after buf us rest n s"
    using readsD [OF y(2) _ _ us, of "'' ''" buf n] right' by auto
  obtain t ts where t: "toks y = t # ts" "opens t" "token_ok t" by (rule plain_opens [OF y(1)])
  have "ahead ?right = t" using ahead_token [OF t(3), of "line (ts @ us) rest"] t(1) by (simp add: ahead_space)
  moreover obtain e zs where "line (toks y @ us) rest = e # zs" by (metis list.exhaust line_ne)
  ultimately have tok: "token_here buf (pos buf ?right n) = Inr (t, pos buf ?right n)"
    using token_here_pos [of "CHR '' ''" e zs buf n] right' by simp
  obtain u vs where u: "toks x = u # vs" by (rule plain_opens [OF x(2)])
  have "length (spaced (toks x) @ CHR '';'' # ?right) \<le> length buf" using suf by (rule suffix_length_le)
  then have ne: "length buf - length (CHR '';'' # ?right) \<noteq> length buf - length (spaced (toks x) @ CHR '';'' # ?right)"
    using u by simp
  show thesis
    by (rule that [OF _ s(2)])
      (use find_char_pos [OF suf simple_chars [OF x]] left_part_pos [OF x suf _ d, of n] ne
        skip_until_here [OF right] advance_pos [OF right] s tok t(2)
       in \<open>simp add: create_sequence_command_def andthen_def ret_def opens_def\<close>)
qed

lemma reads_sequence:
  assumes c: "readable (SequenceC a x y)" and y: "reads d y" and d: "0 < d"
  shows "reads (Suc d) (SequenceC a x y)"
proof (rule readsI [OF c])
  fix buf us rest n
  assume a: "suffix (line (toks (SequenceC a x y) @ us) rest) buf" "closed us" "rest \<noteq> []" "quiet rest"
  have x: "is_simple x" "readable x" "readable y" "a = initialize_command" using c by simp_all
  have eq: "line (toks (SequenceC a x y) @ us) rest = spaced (toks x) @ CHR '';'' # CHR '' '' # line (toks y @ us) rest"
    using x(4) by (simp add: line_append)
  obtain s where "create_sequence_command (create d buf) buf
      (pos buf (line (toks (SequenceC a x y) @ us) rest) n) = Inr (SequenceC initialize_command x y, s)" "after buf us rest n s"
    unfolding eq by (rule create_sequence_pos [OF x(1-3) y d a(1) [unfolded eq] a(2-4), of n])
  then show "\<exists>s. create_command (create d buf) buf (type_of (SequenceC a x y)) (pos buf (line (toks (SequenceC a x y) @ us) rest) n) =
      Inr (SequenceC a x y, s) \<and> after buf us rest n s"
    using x(4) by (simp del: toks.simps)
qed

lemma after_tail:
  "suffix (CHR '' '' # line us rest) buf \<Longrightarrow> after buf us rest n (pos buf (CHR '' '' # line us rest) n)"
  unfolding after_def by (intro disjI1 exI [of _ "'' ''"]) simp

lemma reads_subshell:
  assumes c: "readable (SubshellC a x)" and x: "reads d x"
  shows "reads (Suc d) (SubshellC a x)"
proof (rule readsI [OF c])
  fix buf us rest n
  assume a: "suffix (line (toks (SubshellC a x) @ us) rest) buf" "closed us" "rest \<noteq> []" "quiet rest"
  have ok: "tail_ok a" "redirs_ok a" using c by (simp_all add: tail_ok_def)
  let ?us = "'')'' # rtoks a @ us"
  have eq: "line (toks (SubshellC a x) @ us) rest = CHR ''('' # CHR '' '' # line (toks x @ ?us) rest" by simp
  note suf = a(1) [unfolded eq]
  obtain s where s: "part (create d buf) buf (buffer_size buf) (pos buf (CHR '' '' # line (toks x @ ?us) rest) n) = Inr (x, s)"
    "after buf ?us rest n s"
    using readsD [OF x _ _ closed_paren [OF a(2) ok(2)] a(3,4), of "'' ''" buf n] suffix_tail [OF suf] by auto
  obtain bl where bl: "blank bl" "suffix (bl @ CHR '')'' # CHR '' '' # line (rtoks a @ us) rest) buf"
    "s = pos buf (bl @ CHR '')'' # CHR '' '' # line (rtoks a @ us) rest) n"
    using s(2) by (auto simp: after_def)
  have tail: "suffix (CHR '' '' # line (rtoks a @ us) rest) buf" by (rule suffix_tail [OF suffix_right [OF bl(2)]])
  show "\<exists>s. create_command (create d buf) buf (type_of (SubshellC a x)) (pos buf (line (toks (SubshellC a x) @ us) rest) n) =
      Inr (SubshellC a x, s) \<and> after buf us rest n s"
    using advance_pos [OF suf, of n] s(1) close_subshell_pos [OF bl(2,1), of n] bl(3)
      tail_pos [OF ok(1) tail a(2-4)] after_tail
    unfolding eq by (simp add: create_subshell_command_def andthen_def ret_def)
qed

lemma keyword_word [simp]:
  "word_ok ''if''" "word_ok ''then''" "word_ok ''else''" "word_ok ''fi''" "word_ok ''while''"
  "word_ok ''until''" "word_ok ''do''" "word_ok ''done''"
  by (simp_all add: reserved_word reserved_def)

text \<open>A part between two keywords.\<close>

lemma reads_between:
  assumes x: "reads d x" and suf: "suffix (CHR '' '' # line (toks x @ u # us) rest) buf"
    and u: "u \<in> {''then'', ''else'', ''fi'', ''do'', ''done''}" "list_all token_ok us"
    and rest: "rest \<noteq> []" "quiet rest"
  obtains s where "part (create d buf) buf (buffer_size buf) (pos buf (CHR '' '' # line (toks x @ u # us) rest) n) = Inr (x, s)"
    "get_next_word buf s = Inr (Some u, pos buf (CHR '' '' # line us rest) n)"
    "\<And>msg. at_end buf msg s = Inr ((), s)" "suffix (CHR '' '' # line us rest) buf"
proof -
  obtain s where s: "part (create d buf) buf (buffer_size buf) (pos buf (CHR '' '' # line (toks x @ u # us) rest) n) = Inr (x, s)"
    "after buf (u # us) rest n s"
    using readsD [OF x _ _ closed_reserved [OF u] rest, of "'' ''" buf n] suf by auto
  have "word_ok u" using u(1) by auto
  then show thesis using that [OF s(1)] after_word [OF s(2)] by blast
qed

lemma reads_if:
  assumes c: "readable (IfC a x y (Some z))" and x: "reads d x" and y: "reads d y" and z: "reads d z"
  shows "reads (Suc d) (IfC a x y (Some z))"
proof (rule readsI [OF c])
  fix buf us rest n
  assume a: "suffix (line (toks (IfC a x y (Some z)) @ us) rest) buf" "closed us" "rest \<noteq> []" "quiet rest"
  have ok: "tail_ok a" "list_all token_ok (toks y)" "list_all token_ok (toks z)" "list_all token_ok (rtoks a)"
      "list_all token_ok us"
    using c a(2) toks_ok rtoks_ok by (auto simp: tail_ok_def closed_def)
  let ?u3 = "rtoks a @ us" let ?u2 = "toks z @ ''fi'' # ?u3" let ?u1 = "toks y @ ''else'' # ?u2"
  have eq: "line (toks (IfC a x y (Some z)) @ us) rest = line (''if'' # toks x @ ''then'' # ?u1) rest" by simp
  have first: "get_next_word buf (pos buf (line (''if'' # toks x @ ''then'' # ?u1) rest) n) =
      Inr (Some ''if'', pos buf (CHR '' '' # line (toks x @ ''then'' # ?u1) rest) n)"
    "suffix (CHR '' '' # line (toks x @ ''then'' # ?u1) rest) buf"
    using word_step(1) [of "[]" "''if''" _ rest buf n] word_step(2) [of "[]" "''if''" _ rest buf] a(1) [unfolded eq] by simp_all
  obtain s1 where s1: "part (create d buf) buf (buffer_size buf) (pos buf (CHR '' '' # line (toks x @ ''then'' # ?u1) rest) n) = Inr (x, s1)"
    "get_next_word buf s1 = Inr (Some ''then'', pos buf (CHR '' '' # line ?u1 rest) n)"
    "\<And>msg. at_end buf msg s1 = Inr ((), s1)" "suffix (CHR '' '' # line ?u1 rest) buf"
    by (rule reads_between [OF x first(2) _ _ a(3,4)]) (use ok in auto)
  obtain s2 where s2: "part (create d buf) buf (buffer_size buf) (pos buf (CHR '' '' # line ?u1 rest) n) = Inr (y, s2)"
    "get_next_word buf s2 = Inr (Some ''else'', pos buf (CHR '' '' # line ?u2 rest) n)"
    "\<And>msg. at_end buf msg s2 = Inr ((), s2)" "suffix (CHR '' '' # line ?u2 rest) buf"
    by (rule reads_between [OF y s1(4) _ _ a(3,4)]) (use ok in auto)
  obtain s3 where s3: "part (create d buf) buf (buffer_size buf) (pos buf (CHR '' '' # line ?u2 rest) n) = Inr (z, s3)"
    "get_next_word buf s3 = Inr (Some ''fi'', pos buf (CHR '' '' # line ?u3 rest) n)"
    "\<And>msg. at_end buf msg s3 = Inr ((), s3)" "suffix (CHR '' '' # line ?u3 rest) buf"
    by (rule reads_between [OF z s2(4) _ _ a(3,4)]) (use ok in auto)
  show "\<exists>s. create_command (create d buf) buf (type_of (IfC a x y (Some z)))
      (pos buf (line (toks (IfC a x y (Some z)) @ us) rest) n) = Inr (IfC a x y (Some z), s) \<and> after buf us rest n s"
    using first(1) s1(1-3) s2(1-3) s3(1-3) tail_pos [OF ok(1) s3(4) a(2-4)] after_tail
    unfolding eq by (simp add: create_if_command_def andthen_def ret_def del: line_simps)
qed

text \<open>The two loops have the same shape.\<close>

lemma loop_parts:
  assumes x: "reads d x" and y: "reads d y" and readable: "readable y" "tail_ok a"
    and suf: "suffix (line (k # toks x @ ''do'' # toks y @ ''done'' # rtoks a @ us) rest) buf" and k: "word_ok k"
    and us: "closed us" "rest \<noteq> []" "quiet rest"
  obtains s0 s1 s2 s3 where
    "get_next_word buf (pos buf (line (k # toks x @ ''do'' # toks y @ ''done'' # rtoks a @ us) rest) n) = Inr (Some k, s0)"
    "part (create d buf) buf (buffer_size buf) s0 = Inr (x, s1)" "\<And>msg. at_end buf msg s1 = Inr ((), s1)"
    "get_next_word buf s1 = Inr (Some ''do'', s2)"
    "part (create d buf) buf (buffer_size buf) s2 = Inr (y, s3)" "\<And>msg. at_end buf msg s3 = Inr ((), s3)"
    "get_next_word buf s3 = Inr (Some ''done'', pos buf (CHR '' '' # line (rtoks a @ us) rest) n)"
    "suffix (CHR '' '' # line (rtoks a @ us) rest) buf"
proof -
  have ok: "list_all token_ok (toks y)" "list_all token_ok (rtoks a)" "list_all token_ok us"
    using readable us(1) toks_ok rtoks_ok by (auto simp: tail_ok_def closed_def)
  let ?u2 = "rtoks a @ us" let ?u1 = "toks y @ ''done'' # ?u2"
  have first: "get_next_word buf (pos buf (line (k # toks x @ ''do'' # ?u1) rest) n) =
      Inr (Some k, pos buf (CHR '' '' # line (toks x @ ''do'' # ?u1) rest) n)"
    "suffix (CHR '' '' # line (toks x @ ''do'' # ?u1) rest) buf"
    using word_step(1) [of "[]" k _ rest buf n] word_step(2) [of "[]" k _ rest buf] suf k by simp_all
  obtain s1 where s1: "part (create d buf) buf (buffer_size buf) (pos buf (CHR '' '' # line (toks x @ ''do'' # ?u1) rest) n) = Inr (x, s1)"
    "get_next_word buf s1 = Inr (Some ''do'', pos buf (CHR '' '' # line ?u1 rest) n)"
    "\<And>msg. at_end buf msg s1 = Inr ((), s1)" "suffix (CHR '' '' # line ?u1 rest) buf"
    by (rule reads_between [OF x first(2) _ _ us(2,3)]) (use ok in auto)
  obtain s2 where s2: "part (create d buf) buf (buffer_size buf) (pos buf (CHR '' '' # line ?u1 rest) n) = Inr (y, s2)"
    "get_next_word buf s2 = Inr (Some ''done'', pos buf (CHR '' '' # line ?u2 rest) n)"
    "\<And>msg. at_end buf msg s2 = Inr ((), s2)" "suffix (CHR '' '' # line ?u2 rest) buf"
    by (rule reads_between [OF y s1(4) _ _ us(2,3)]) (use ok in auto)
  show thesis by (rule that [OF first(1) s1(1,3,2) s2(1,3,2,4)])
qed

lemma reads_until:
  assumes c: "readable (UntilC a x y)" and x: "reads d x" and y: "reads d y"
  shows "reads (Suc d) (UntilC a x y)"
proof (rule readsI [OF c])
  fix buf us rest n
  assume a: "suffix (line (toks (UntilC a x y) @ us) rest) buf" "closed us" "rest \<noteq> []" "quiet rest"
  have ok: "readable y" "tail_ok a" using c by simp_all
  let ?line = "line (''until'' # toks x @ ''do'' # toks y @ ''done'' # rtoks a @ us) rest"
  have eq: "line (toks (UntilC a x y) @ us) rest = ?line" by simp
  show "\<exists>s. create_command (create d buf) buf (type_of (UntilC a x y)) (pos buf (line (toks (UntilC a x y) @ us) rest) n) =
      Inr (UntilC a x y, s) \<and> after buf us rest n s"
    unfolding eq
  proof (rule loop_parts [OF x y ok a(1) [unfolded eq] _ a(2-4), of n], goal_cases)
    case (2 s0 s1 s2 s3)
    then show ?case using tail_pos(1) [OF ok(2) 2(8) a(2-4)] after_tail [OF tail_pos(3) [OF ok(2) 2(8) a(2-4)]]
      by (simp add: create_until_command_def andthen_def ret_def strcmp_word_def del: line_simps)
  qed simp
qed

lemma reads_while:
  assumes c: "readable (WhileC a x y)" and x: "reads d x" and y: "reads d y"
  shows "reads (Suc d) (WhileC a x y)"
proof (rule readsI [OF c])
  fix buf us rest n
  assume a: "suffix (line (toks (WhileC a x y) @ us) rest) buf" "closed us" "rest \<noteq> []" "quiet rest"
  have ok: "readable y" "tail_ok a" "rtoks a \<noteq> []" using c by simp_all
  let ?line = "line (''while'' # toks x @ ''do'' # toks y @ ''done'' # rtoks a @ us) rest"
  have eq: "line (toks (WhileC a x y) @ us) rest = ?line" by simp
  show "\<exists>s. create_command (create d buf) buf (type_of (WhileC a x y)) (pos buf (line (toks (WhileC a x y) @ us) rest) n) =
      Inr (WhileC a x y, s) \<and> after buf us rest n s"
    unfolding eq
  proof (rule loop_parts [OF x y ok(1,2) a(1) [unfolded eq] _ a(2-4), of n], goal_cases)
    case (2 s0 s1 s2 s3)
    then show ?case using tail_pos(2) [OF ok(2) 2(8) a(2-4) ok(3)] after_tail [OF tail_pos(3) [OF ok(2) 2(8) a(2-4)]]
      by (simp add: create_while_command_def while_condition_def andthen_def ret_def strcmp_word_def del: line_simps)
  qed simp
qed

lemma reads_mono_height: "readable c \<Longrightarrow> height c \<le> d \<Longrightarrow> 0 < d"
  by (cases c rule: height.cases) auto

theorem parse_plain: "readable c \<Longrightarrow> height c \<le> d \<Longrightarrow> reads d c"
proof (induction c arbitrary: d rule: height.induct)
  case (5 a ws)
  then show ?case using reads_simple by (cases d) auto
next
  case (3 a x y)
  then show ?case using reads_pipe reads_mono_height [of x] by (cases d) auto
next
  case (4 a x y)
  then show ?case using reads_sequence reads_mono_height [of x] by (cases d) auto
next
  case (2 a x y z)
  then show ?case using reads_if by (cases d) auto
next
  case (6 a x)
  then show ?case using reads_subshell by (cases d) auto
next
  case (7 a x y)
  then show ?case using reads_until by (cases d) auto
next
  case (8 a x y)
  then show ?case using reads_while by (cases d) auto
qed simp

end
