(* ===== verification/ShellScript.thy ===== *)
theory ShellScript
  imports ShellParseRound
begin

text \<open>
  Whole scripts through the shell parser: the round trip with the profile text of the
  commands, and scripts that the parser reports, runs off the buffer on, recurses for ever on or
  never leaves.
\<close>

section \<open>Reading the script into the buffer\<close>

lemma fill_buffer_fits:
  "length buf < cap \<Longrightarrow> length buf + length cs < 2 ^ 64 - 1 \<Longrightarrow>
   \<exists>cap'. fill_buffer cs buf cap = Some (buf @ cs, cap') \<and> length (buf @ cs) < cap'"
proof (induction cs arbitrary: buf cap)
  case (Cons c cs)
  show ?case
  proof (cases "Suc (length buf) = cap")
    case True
    then have "cap \<noteq> 2 ^ 64 - 1" using Cons.prems by simp
    then obtain cap' where cap': "checked_grow_alloc cap = Some cap'" "cap < cap'"
      using Cons.prems True by (auto simp: checked_grow_alloc_def Let_def)
    show ?thesis using Cons.IH [of "buf @ [c]" cap'] Cons.prems cap' True by (simp add: Let_def)
  next
    case False
    then show ?thesis using Cons.IH [of "buf @ [c]" cap] Cons.prems by (simp add: Let_def)
  qed
qed simp

lemma make_command_stream_loop:
  assumes "length script < 2 ^ 64 - 1"
  shows "make_command_stream d script =
    map_option (\<lambda>r. case r of Inl e \<Rightarrow> Inl e | Inr (cs, s) \<Rightarrow> Inr (stream_of cs))
      (stream_loop d (script @ [CHR 0x00]) [] (pos (script @ [CHR 0x00]) (script @ [CHR 0x00]) 1))"
  using fill_buffer_fits [of "[]" 1024 script] assms
  by (auto simp: make_command_stream_def pos_def)

section \<open>The loop over readable commands\<close>

definition script_text :: "command list \<Rightarrow> string" where
  "script_text cs = concat (List.map (\<lambda>c. printcmd c @ newline) cs)"

lemma script_text_Cons: "script_text (c # cs) @ rest = line (toks c) (script_text cs @ rest)"
  by (simp add: script_text_def printcmd_spaced newline_def line_def)

lemma skip_to_pos:
  assumes suf: "suffix (bl @ e # f # zs) buf" and bl: "blank bl" and e: "\<not> is_blank e"
  shows "skip_to buf (buffer_size buf) (pos buf (bl @ e # f # zs) n) = pos buf (e # f # zs) n"
proof -
  let ?xs = "e # f # zs"
  have len: "length (bl @ ?xs) \<le> length buf" using suf by (rule suffix_length_le)
  have "buffer_size buf - (length buf - length (bl @ ?xs)) = Suc (length bl + length zs)"
    using len by (simp add: buffer_size_def)
  then have "drop (length buf - length (bl @ ?xs)) (take (buffer_size buf) buf) = bl @ e # take (length zs) (f # zs)"
    unfolding drop_take_suffix [OF suf] by simp
  then have "takeWhile is_blank (drop (length buf - length (bl @ ?xs)) (take (buffer_size buf) buf)) = bl"
    using blank_takeWhile [OF bl, of "e # take (length zs) (f # zs)"] e by simp
  then show ?thesis using move_pos [OF suf, of n] by (simp add: skip_to_def)
qed

lemma line_start_char:
  "opens t \<Longrightarrow> token_ok t \<Longrightarrow> \<exists>a v. t = a # v \<and> \<not> is_blank a \<and> a \<noteq> CHR 0x0A \<and> a \<noteq> CHR ''#'' \<and> a \<noteq> CHR ''<'' \<and> a \<noteq> CHR ''>''"
  using token_start [of t] by (auto simp: opens_def is_space_def)

lemma quiet_script:
  assumes "\<forall>c \<in> set cs. readable c" "rest \<noteq> []" "quiet rest"
  shows "quiet (script_text cs @ rest)"
proof (cases cs)
  case Nil
  then show ?thesis using assms(3) by (simp add: script_text_def)
next
  case (Cons c cs')
  obtain t ts where t: "toks c = t # ts" "opens t" "token_ok t" by (rule plain_opens) (use assms Cons in auto)
  have "ahead (script_text cs @ rest) = t"
    using ahead_token [OF t(3), of "line ts (script_text cs' @ rest)"] t(1) Cons by (simp add: script_text_Cons)
  then show ?thesis using line_start_char [OF t(2,3)] by (auto simp: quiet_def starts_def)
qed

lemma stream_loop_here:
  assumes suf: "suffix (bl @ e # f # zs) buf" and bl: "blank bl" and e: "\<not> is_blank e" "e \<noteq> CHR ''#''"
  shows "stream_loop d buf cs (pos buf (bl @ e # f # zs) n) =
    (if e = CHR 0x0A then stream_loop d buf cs (pos buf (f # zs) (n + 1))
     else (case part (create d buf) buf (buffer_size buf) (pos buf (e # f # zs) n) of
         Inl e \<Rightarrow> Some (Inl e) | Inr (cmd, s) \<Rightarrow> stream_loop d buf (cs @ [cmd]) s))"
proof -
  obtain b us where b: "bl @ e # f # zs = b # us" "us \<noteq> []" by (cases bl) auto
  then obtain u vs where u: "us = u # vs" by (cases us) auto
  have lt: "length buf - length (bl @ e # f # zs) < buffer_size buf"
    using in_script [of b u vs buf] suf b(1) u by simp
  note suf2 = suffix_right [OF suf]
  have nl: "e = CHR 0x0A \<Longrightarrow> step (pos buf (CHR 0x0A # f # zs) (Suc n)) = pos buf (f # zs) (Suc n)"
    using step_pos [OF suf2] by simp
  show ?thesis
    using lt skip_to_pos [OF suf bl e(1), of n] suffix_nth [OF suf2] e
    by (subst stream_loop.simps) (simp add: Let_def new_line_pos nl)
qed

lemma stream_loop_plain:
  assumes "\<forall>c \<in> set cs. readable c \<and> height c \<le> d" "suffix (script_text cs @ rest) buf" "rest \<noteq> []" "quiet rest"
  shows "stream_loop d buf acc (pos buf (script_text cs @ rest) n) =
    stream_loop d buf (acc @ cs) (pos buf rest (n + length cs))"
  using assms(1,2)
proof (induction cs arbitrary: acc n)
  case Nil
  then show ?case by (simp add: script_text_def)
next
  case (Cons c cs)
  let ?rest = "script_text cs @ rest"
  have c: "readable c" "height c \<le> d" using Cons.prems(1) by auto
  have ne: "?rest \<noteq> []" using assms(3) by simp
  have q: "quiet ?rest" using quiet_script [OF _ assms(3,4)] Cons.prems(1) by auto
  have eq: "script_text (c # cs) @ rest = line (toks c) ?rest" by (rule script_text_Cons)
  note suf = Cons.prems(2) [unfolded eq]
  obtain t ts where t: "toks c = t # ts" "opens t" "token_ok t" by (rule plain_opens [OF c(1)])
  obtain a v where a: "t = a # v" "\<not> is_blank a" "a \<noteq> CHR 0x0A" "a \<noteq> CHR ''#''" using line_start_char [OF t(2,3)] by blast
  obtain f zs where f: "line (toks c) ?rest = a # f # zs"
    using t(1) a(1) by (cases v) auto
  obtain s where s: "part (create d buf) buf (buffer_size buf) (pos buf (line (toks c) ?rest) n) = Inr (c, s)"
    "after buf [] ?rest n s"
    using readsD [OF parse_plain [OF c], of "[]" "[]" ?rest buf n] suf ne q by auto
  have "stream_loop d buf acc (pos buf (line (toks c) ?rest) n) = stream_loop d buf (acc @ [c]) s"
    using stream_loop_here [of "[]" a f zs buf d acc n] suf f a s(1) by simp
  also have "\<dots> = stream_loop d buf (acc @ [c]) (pos buf ?rest (n + 1))"
    using s(2) unfolding after_def
  proof (elim disjE exE conjE)
    fix bl
    assume bl: "blank bl" "suffix (bl @ line [] ?rest) buf" "s = pos buf (bl @ line [] ?rest) n"
    obtain g ws where g: "?rest = g # ws" using ne by (cases ?rest) auto
    show ?thesis using stream_loop_here [of bl "CHR 0x0A" g ws buf d "acc @ [c]" n] bl g
      by (simp add: is_blank_def)
  qed simp
  also have "\<dots> = stream_loop d buf (acc @ c # cs) (pos buf rest (n + length (c # cs)))"
  proof -
    obtain us where "line (toks c) ?rest = (spaced (toks c) @ [CHR 0x0A]) @ ?rest" by (simp add: line_def)
    then have "suffix ?rest buf" using suf suffix_right by metis
    then show ?thesis using Cons.IH [of "acc @ [c]" "n + 1"] Cons.prems(1) by simp
  qed
  finally show ?case unfolding eq .
qed

lemma parse_script:
  assumes cs: "\<forall>c \<in> set cs. readable c \<and> height c \<le> d" and size: "length (script_text cs) < 2 ^ 64 - 1"
  shows "make_command_stream d (script_text cs) = Some (Inr (stream_of cs))"
proof -
  let ?buf = "script_text cs @ [CHR 0x00]"
  have "quiet [CHR 0x00]" by (simp add: quiet_def ahead_def starts_def c_str_def)
  then have "stream_loop d ?buf [] (pos ?buf ?buf 1) = stream_loop d ?buf cs (pos ?buf [CHR 0x00] (1 + length cs))"
    using stream_loop_plain [OF cs, of "[CHR 0x00]" ?buf "[]" 1] by simp
  also have "\<dots> = Some (Inr (cs, pos ?buf [CHR 0x00] (1 + length cs)))"
    by (subst stream_loop.simps) (simp add: buffer_size_def)
  finally show ?thesis using make_command_stream_loop [OF size] by simp
qed


definition sample :: "command list" where
  "sample =
     (let w = (\<lambda>s. SimpleC initialize_command [s]); a = initialize_command in
      [PipeC a (SimpleC (a\<lparr>cmd_input := Some ''f''\<rparr>) [''cat'', ''-n''])
         (SequenceC a (w ''b'') (SubshellC (a\<lparr>cmd_output := Some ''g''\<rparr>) (w ''c''))),
       IfC a (w ''true'') (PipeC a (w ''x'') (w ''y'')) (Some (UntilC a (w ''false'') (w ''z'')))])"


section \<open>Scripts that end badly\<close>

lemma bad_line:
  assumes cs: "\<forall>c \<in> set cs. readable c \<and> height c \<le> d" and rest: "rest \<noteq> []" "quiet (rest @ [CHR 0x00])"
    and size: "length (script_text cs @ rest) < 2 ^ 64 - 1"
  defines "buf \<equiv> script_text cs @ rest @ [CHR 0x00]"
  shows "make_command_stream d (script_text cs @ rest) =
    map_option (\<lambda>r. case r of Inl e \<Rightarrow> Inl e | Inr (cs, s) \<Rightarrow> Inr (stream_of cs))
      (stream_loop d buf cs (pos buf (rest @ [CHR 0x00]) (1 + length cs)))" "suffix (rest @ [CHR 0x00]) buf"
  using make_command_stream_loop [OF size, of d] rest(2)
    stream_loop_plain [OF cs, of "rest @ [CHR 0x00]" buf "[]" 1]
  by (simp_all add: buf_def suffix_def)

lemma quiet_token: "token_ok t \<Longrightarrow> hd t \<notin> set ''<>'' \<Longrightarrow> xs \<noteq> [] \<Longrightarrow> quiet (t @ CHR '' '' # xs)"
  by (auto simp: quiet_def ahead_token starts_def)

text \<open>
  A stray \<open>then\<close>, \<open>else\<close>, \<open>fi\<close>, \<open>do\<close> or \<open>done\<close> at the start of a line is reported as
  unexpected and with its own line number, whatever well-formed commands stand on the lines
  before it and whatever follows it.
\<close>

theorem shell_stray_keyword_line:
  assumes cs: "\<forall>c \<in> set cs. readable c \<and> height c \<le> d" and u: "u \<in> {''then'', ''else'', ''fi'', ''do'', ''done''}"
    and size: "length (script_text cs @ u @ '' '' @ newline @ zs) < 2 ^ 64 - 1"
  shows "make_command_stream d (script_text cs @ u @ '' '' @ newline @ zs) =
    Some (Inl (Exit (1 + length cs) (Unexpected u)))"
proof -
  let ?tail = "CHR 0x0A # zs @ [CHR 0x00]"
  let ?rest = "u @ '' '' @ newline @ zs"
  have eq: "?rest @ [CHR 0x00] = spaced [u] @ ?tail" by (simp add: newline_def)
  have tok: "token_ok u" "hd u \<notin> set ''<>''" "line_start u" "first_word u = Inl (Unexpected u)"
    using u by (auto simp: line_start_def is_valid_char_def between_def first_word_def)
  have quiet: "quiet (?rest @ [CHR 0x00])" unfolding eq using quiet_token [OF tok(1,2), of ?tail] by simp
  have ne: "?rest \<noteq> []" by simp
  note bad = bad_line [OF cs ne quiet size]
  define buf where "buf = script_text cs @ ?rest @ [CHR 0x00]"
  have suf: "suffix ([] @ spaced [u] @ ?tail) buf" using bad(2) unfolding buf_def eq by simp
  obtain z ws where z: "zs @ [CHR 0x00] = z # ws" by (cases "zs @ [CHR 0x00]") auto
  have "suffix ?tail buf" by (rule suffix_right [OF suf [unfolded append_Nil]])
  then have "limit buf (buffer_size buf) ?tail" unfolding z by (rule limit_line)
  note type = get_command_type_pos [OF suf _ _ tok(3) this, of "1 + length cs"]
  obtain a v where a: "u = a # v" "\<not> is_blank a" "a \<noteq> CHR 0x0A" "a \<noteq> CHR ''#''"
    using u by (auto simp: is_blank_def)
  obtain f ws' where f: "spaced [u] @ ?tail = a # f # ws'" using a(1) by (cases v) auto
  have "stream_loop d buf cs (pos buf (spaced [u] @ ?tail) (1 + length cs)) = Some (Inl (Exit (1 + length cs) (Unexpected u)))"
    using stream_loop_here [of "[]" a f ws' buf d cs "1 + length cs"] suf a type tok
    unfolding f by (simp add: part_def andthen_def f [simplified])
  then show ?thesis using bad(1) unfolding buf_def eq by simp
qed

theorem shell_stray_keyword_line_witness:
  "make_command_stream 4 (script_text sample @ ''done'' @ '' '' @ newline @ ''x'') = Some (Inl (Exit 3 (Unexpected ''done'')))"
proof -
  have cs: "\<forall>c \<in> set sample. readable c \<and> height c \<le> 4" by code_simp
  have "length (script_text sample) < 200" "length sample = 2" by code_simp+
  then show ?thesis using shell_stray_keyword_line [OF cs, of "''done''" "''x''"] by (simp add: newline_def)
qed

end
