(* ===== verification/ShellBad.thy ===== *)
theory ShellBad
  imports ShellScript
begin

text \<open>
  Scripts on which the shell parser does not report an error but runs off its buffer, recurses
  without end or never gets past a word.
\<close>

section \<open>A keyword before a redirection\<close>

lemma stream_loop_stuck:
  assumes s0: "index s0 < buffer_size buf" "skip_to buf (buffer_size buf) s0 = s0"
    "buf ! index s0 \<noteq> CHR 0x0A" "buf ! index s0 \<noteq> CHR ''#''"
    and same: "part (create d buf) buf (buffer_size buf) s0 = Inr (c, s0)"
  shows "stream_loop d buf cs s0 = None"
proof -
  have "d' = d \<and> buf' = buf \<longrightarrow> s \<noteq> s0" if "stream_loop d' buf' cs' s = Some y" for d' buf' cs' s y
    using that
  proof (rule stream_loop.raw_induct [where P = "\<lambda>d' buf' cs' s y. d' = d \<and> buf' = buf \<longrightarrow> s \<noteq> s0", rotated])
    fix f d' buf' cs' s y
    assume ih: "\<And>d' buf' cs' s y. f d' buf' cs' s = Some y \<Longrightarrow> d' = d \<and> buf' = buf \<longrightarrow> s \<noteq> s0"
      and body: "(if buffer_size buf' \<le> index s then Some (Inr (cs', s))
        else let s1 = skip_to buf' (buffer_size buf') s; c = buf' ! index s1
          in if c = CHR 0x0A then f d' buf' cs' (step (new_line s1))
             else if c = CHR ''#'' then f d' buf' cs' (step (read_comments buf' s1))
             else case part (create d' buf') buf' (buffer_size buf') s1 of
                 Inl e \<Rightarrow> Some (Inl e) | Inr (cmd, s2) \<Rightarrow> f d' buf' (cs' @ [cmd]) s2) = Some y"
    show "d' = d \<and> buf' = buf \<longrightarrow> s \<noteq> s0"
    proof (intro impI notI)
      assume eq: "d' = d \<and> buf' = buf" "s = s0"
      then have "f d buf (cs' @ [c]) s0 = Some y" using body s0 same by (simp add: Let_def)
      then show False using ih by blast
    qed
  qed
  then show ?thesis by (metis option.exhaust)
qed

lemma not_special_word: "u \<in> reserved \<Longrightarrow> is_valid_char (hd u) \<and> u \<noteq> []"
  using reserved_word [of u] by (cases u) (auto simp: word_ok_def)

text \<open>A line that starts with a token that is a keyword, a redirection sign and a file name.\<close>

lemma glued_type:
  assumes u: "u \<in> reserved" and f: "word_ok f"
  defines "t \<equiv> u @ CHR ''<'' # f"
  shows "token_ok t" "line_start t" "first_word t = Inr None" "line_kind [t] = SIMPLE_COMMAND"
proof -
  have w: "word_ok u" using u by (rule reserved_word)
  show "token_ok t" using word_token [OF w] redirect_token(1) [OF f] by (auto simp: t_def token_ok_def)
  have in_t: "CHR ''<'' \<in> set t" by (simp add: t_def)
  then have no: "t \<notin> seq_stops" "t \<notin> reserved" by (auto simp: seq_stops_def reserved_def)
  have sep: "CHR ''|'' \<notin> set t" "CHR '';'' \<notin> set t" using word_no_sep [OF w] word_no_sep [OF f] by (auto simp: t_def)
  have hd: "is_valid_char (hd t)" "t \<noteq> []" using not_special_word [OF u] by (simp_all add: t_def)
  then show "line_start t" by (simp add: line_start_def)
  show "first_word t = Inr None"
    using no(2) single_bar_none [OF sep(1)] is_valid_char_not [OF hd(1)] by (auto simp: first_word_def reserved_def)
  show "line_kind [t] = SIMPLE_COMMAND" using no sep single_bar_none [OF sep(1)] by (simp add: line_kind_def)
qed

text \<open>
  A keyword that is directly followed by an input redirection at the start of a line, as in
  \<open>fi<x\<close>, makes \<open>make_command_stream\<close> loop for ever. The look-ahead takes the whole token for
  the start of a simple command, \<open>create_simple_command\<close> reads the keyword, steps back over it
  and returns a command without words, and the main loop starts again at the same place.
\<close>

theorem shell_glued_keyword_hangs:
  assumes cs: "\<forall>c \<in> set cs. readable c \<and> height c \<le> d" and d: "0 < d" and u: "u \<in> reserved" and f: "word_ok f"
    and size: "length (script_text cs @ u @ ''<'' @ f @ '' '' @ newline @ zs) < 2 ^ 64 - 1"
  shows "make_command_stream d (script_text cs @ u @ ''<'' @ f @ '' '' @ newline @ zs) = None"
proof -
  let ?t = "u @ CHR ''<'' # f" let ?tail = "CHR 0x0A # zs @ [CHR 0x00]"
  let ?rest = "u @ ''<'' @ f @ '' '' @ newline @ zs" let ?n = "1 + length cs"
  have eq: "?rest @ [CHR 0x00] = spaced [?t] @ ?tail" by (simp add: newline_def)
  note t = glued_type [OF u f]
  obtain a v where a: "u = a # v" "is_valid_char a" using not_special_word [OF u] by (cases u) auto
  have "hd ?t \<notin> set ''<>''" using a is_valid_char_not [OF a(2)] by auto
  then have quiet: "quiet (?rest @ [CHR 0x00])" unfolding eq using quiet_token [OF t(1), of ?tail] by simp
  have ne: "?rest \<noteq> []" using a by simp
  note bad = bad_line [OF cs ne quiet size]
  define buf where "buf = script_text cs @ ?rest @ [CHR 0x00]"
  have suf: "suffix ([] @ spaced [?t] @ ?tail) buf" using bad(2) unfolding buf_def eq by simp
  obtain z ws where z: "zs @ [CHR 0x00] = z # ws" by (cases "zs @ [CHR 0x00]") auto
  have "suffix ?tail buf" by (rule suffix_right [OF suf [unfolded append_Nil]])
  then have "limit buf (buffer_size buf) ?tail" unfolding z by (rule limit_line)
  then have type: "get_command_type buf (buffer_size buf) (pos buf (spaced [?t] @ ?tail) ?n) =
      Inr (SIMPLE_COMMAND, pos buf (spaced [?t] @ ?tail) ?n)"
    using get_command_type_pos [OF suf _ _ t(2)] t by simp
  let ?s = "pos buf (spaced [?t] @ ?tail) ?n"
  have whole: "spaced [?t] @ ?tail = u @ CHR ''<'' # f @ CHR '' '' # ?tail" by simp
  have suf2: "suffix (u @ CHR ''<'' # f @ CHR '' '' # ?tail) buf" using suf whole by simp
  have "simple_loop buf [] initialize_command False ?s = Inr (([], initialize_command, True), ?s)"
    unfolding whole using simple_loop_word [OF suf2 reserved_word [OF u]] u
    by (simp add: is_valid_char_def between_def)
  then have "create d buf SIMPLE_COMMAND ?s = Inr (SimpleC initialize_command [], ?s)"
    using d by (cases d) (simp_all add: create_simple_command_def andthen_def ret_def)
  then have same: "part (create d buf) buf (buffer_size buf) ?s = Inr (SimpleC initialize_command [], ?s)"
    using type by (simp add: part_def andthen_def)
  obtain g gs where g: "v @ CHR ''<'' # f @ CHR '' '' # ?tail = g # gs" by (cases v) auto
  have form: "spaced [?t] @ ?tail = a # g # gs" using g a(1) whole by simp
  note suf3 = suf [unfolded append_Nil form]
  have "stream_loop d buf cs ?s = None"
    unfolding form
    by (rule stream_loop_stuck [OF _ _ _ _ same [unfolded form]])
      (use in_script [OF suf3] skip_to_pos [of "[]" a g gs buf ?n] suf3 valid_not [OF a(2)] suffix_nth [OF suf3]
       in simp_all)
  then show ?thesis using bad(1) unfolding buf_def eq by simp
qed

theorem shell_glued_keyword_hangs_witness:
  "make_command_stream 4 (script_text sample @ ''fi'' @ ''<'' @ ''x'' @ '' '' @ newline @ []) = None"
proof (rule shell_glued_keyword_hangs)
  show "\<forall>c \<in> set sample. readable c \<and> height c \<le> 4" by code_simp
  have "length (script_text sample) < 200" by code_simp
  then show "length (script_text sample @ ''fi'' @ ''<'' @ ''x'' @ '' '' @ newline @ []) < 2 ^ 64 - 1"
    by (simp add: newline_def)
qed (code_simp | simp)+

section \<open>A sequence before a pipe\<close>

lemma count_line_pos: "count_line c (pos buf xs n) = pos buf xs (if c = CHR 0x0A then Suc n else n)"
  by (simp add: count_line_def new_line_pos)

lemma skip_until_overruns:
  "suffix xs buf \<Longrightarrow> stop \<notin> set xs \<Longrightarrow> eof_char \<notin> set xs \<Longrightarrow>
   skip_until stop False buf (pos buf xs n) = Inl Undefined"
proof (induction xs arbitrary: n)
  case Nil
  then show ?case by (subst skip_until.simps) simp
next
  case (Cons x xs)
  have "skip_until stop False buf (step (count_line x (pos buf (x # xs) n))) = Inl Undefined"
    using Cons suffix_tail [OF Cons.prems(1)] by (simp add: count_line_pos step_pos [OF Cons.prems(1)])
  then show ?case using suffix_nth [OF Cons.prems(1)] Cons.prems
    by (subst skip_until.simps) (auto simp: Let_def)
qed

lemma simple_toks:
  assumes "is_simple x" "readable x"
  shows "set (toks x) \<inter> reserved = {}" "\<not> scan_toks single_bar reserved (toks x)"
proof -
  obtain a ws where x: "x = SimpleC a ws" using assms(1) by (cases x) auto
  show "set (toks x) \<inter> reserved = {}" using simple_no_stop(2) assms(2) x by blast
  have "\<forall>t \<in> set (toks x). CHR ''|'' \<notin> set t" using simple_no_sep assms(2) x by blast
  then show "\<not> scan_toks single_bar reserved (toks x)" 
    by (intro scan_toks_none ballI single_bar_none) simp
qed

text \<open>
  C31: the parser cannot read a sequence on the left of a pipeline. On a last line
  \<open>x ; y | z\<close> of simple commands it takes the line for a pipeline whose left part is the
  sequence, reads the pipe into the right side of that sequence, which is not bounded by the
  bar, and then looks for the bar again behind the end of the script, outside the buffer.
\<close>

theorem shell_sequence_before_pipe_overruns:
  assumes cs: "\<forall>c \<in> set cs. readable c \<and> height c \<le> d" and d: "4 \<le> d"
    and x: "is_simple x" "readable x" and y: "is_simple y" "readable y" and z: "is_simple z" "readable z"
    and size: "length (script_text cs @ printcmd x @ ''; '' @ printcmd y @ ''| '' @ printcmd z @ newline) < 2 ^ 64 - 1"
  shows "make_command_stream d (script_text cs @ printcmd x @ ''; '' @ printcmd y @ ''| '' @ printcmd z @ newline) =
    Some (Inl Undefined)"
proof -
  let ?P = "PipeC initialize_command y z" let ?rest = "printcmd x @ ''; '' @ printcmd y @ ''| '' @ printcmd z @ newline"
  let ?ts = "toks x @ '';'' # toks y" let ?n = "1 + length cs"
  let ?bar = "CHR ''|'' # CHR '' '' # line (toks z) [CHR 0x00]"
  define buf where "buf = script_text cs @ ?rest @ [CHR 0x00]"
  have eq: "?rest @ [CHR 0x00] = spaced ?ts @ ?bar"
    by (simp add: printcmd_spaced newline_def line_def spaced_append)
  have eq2: "spaced ?ts @ ?bar = spaced (toks x) @ CHR '';'' # CHR '' '' # line (toks ?P) [CHR 0x00]"
    by (simp add: line_append spaced_append)
  obtain t us where t: "toks x = t # us" "word_ok t" "t \<notin> seq_stops" using simple_first [OF x(2,1)] by blast
  note first = word_first [OF t(2,3)]
  have ok: "list_all token_ok (?ts @ ''|'' # toks z)" using toks_ok x y z by simp
  obtain a v where a: "t = a # v" "is_valid_char a" using t(2) by (cases t) (auto simp: word_ok_def)
  have quiet: "quiet (?rest @ [CHR 0x00])"
    unfolding eq using quiet_token [of t] ok t(1) is_valid_char_not [OF a(2)] a(1) by (auto simp: spaced_append)
  have ne: "?rest \<noteq> []" by simp
  note bad = bad_line [OF cs ne quiet size]
  have suf: "suffix (spaced ?ts @ ?bar) buf" using bad(2) unfolding buf_def eq .
  obtain g gs where g: "spaced ?ts @ ?bar = a # g # gs" using t(1) a(1) by (cases v) (auto simp: spaced_append)
  note bar = suffix_right [OF suf]
  have top: "get_command_type buf (buffer_size buf) (pos buf (spaced ?ts @ ?bar) ?n) = Inr (PIPE_COMMAND, pos buf (spaced ?ts @ ?bar) ?n)"
  proof -
    let ?all = "us @ '';'' # toks y @ ''|'' # toks z"
    have whole: "spaced ?ts @ ?bar = [] @ spaced (t # ?all) @ CHR 0x0A # [CHR 0x00]"
      using t(1) by (simp add: line_def spaced_append)
    have lim: "limit buf (buffer_size buf) (CHR 0x0A # [CHR 0x00])"
      by (rule limit_line) (use suf suffix_right [of "spaced (t # ?all)"] whole in simp)
    have "set ?ts \<inter> reserved = {}" using simple_toks(1) [OF x] simple_toks(1) [OF y] by (auto simp: reserved_def)
    then have "scan_toks single_bar reserved (?ts @ ''|'' # toks z)"
      unfolding scan_toks_append by (simp add: reserved_def single_bar_def)
    then have "line_kind (t # ?all) = PIPE_COMMAND" using t(1) by (simp add: line_kind_def)
    then show ?thesis
      using get_command_type_pos [of "[]" t ?all "CHR 0x0A # [CHR 0x00]" buf "buffer_size buf" ?n] suf lim ok t(1) first
      unfolding whole by (simp add: opens_def)
  qed
  have seq: "readable (SequenceC initialize_command x y)"
    using x y simple_toks(2) [OF y] by simp
  have left: "get_command_type buf (length buf - length ?bar) (pos buf (spaced ?ts @ ?bar) ?n) =
      Inr (SEQUENCE_COMMAND, pos buf (spaced ?ts @ ?bar) ?n)"
    using type_pos [of "[]" "SequenceC initialize_command x y" "[]" ?bar buf "length buf - length ?bar" ?n] suf seq
    by (simp add: limit_def)
  define k where "k = d - 2"
  then have k: "d = Suc (Suc k)" "2 \<le> k" using d by simp_all
  have P: "readable ?P" "reads k ?P" using y z k by (auto intro!: parse_plain elim!: is_simple.elims)
  have nul: "quiet [CHR 0x00]" by (simp add: quiet_def ahead_def starts_def c_str_def)
  obtain s where s: "create (Suc k) buf SEQUENCE_COMMAND (pos buf (spaced ?ts @ ?bar) ?n) = Inr (SequenceC initialize_command x ?P, s)"
    "after buf [] [CHR 0x00] ?n s"
    using create_sequence_pos [OF x P, where buf = buf and us = "[]" and rest = "[CHR 0x00]" and n = ?n] suf k nul
    unfolding eq2 by (auto simp del: toks.simps)
  have "skip_until (CHR ''|'') False buf s = Inl Undefined"
    using s(2) unfolding after_def
  proof (elim disjE exE conjE)
    fix bl
    assume bl: "blank bl" "suffix (bl @ line [] [CHR 0x00]) buf" "s = pos buf (bl @ line [] [CHR 0x00]) ?n"
    then have "CHR ''|'' \<notin> set bl" "eof_char \<notin> set bl" by (auto simp: blank_def eof_char_def)
    then show ?thesis using skip_until_overruns [OF bl(2)] bl(3) by (simp add: eof_char_def)
  qed (use skip_until_overruns [of "[CHR 0x00]" buf "CHR ''|''"] in \<open>simp add: eof_char_def\<close>)
  moreover have "CHR ''|'' \<notin> set (spaced ?ts)"
    using simple_chars [OF x, of "CHR ''|''"] simple_chars [OF y, of "CHR ''|''"] by (simp add: spaced_append)
  then have "find_bar buf (length buf - length (spaced ?ts @ ?bar)) = Some (length buf - length ?bar)"
    by (intro find_bar_pos [OF suf]) simp_all
  ultimately have "create d buf PIPE_COMMAND (pos buf (spaced ?ts @ ?bar) ?n) = Inl Undefined"
    using left s(1) k(1) by (simp add: create_pipe_command_def part_def andthen_def del: create.simps(2)
        add: create.simps(2) [of "Suc k"])
  then have "part (create d buf) buf (buffer_size buf) (pos buf (spaced ?ts @ ?bar) ?n) = Inl Undefined"
    using top by (simp add: part_def andthen_def)
  then have "stream_loop d buf cs (pos buf (spaced ?ts @ ?bar) ?n) = Some (Inl Undefined)"
    using stream_loop_here [of "[]" a g gs buf d cs ?n] suf valid_not [OF a(2)] unfolding g by simp
  then show ?thesis using bad(1) unfolding buf_def eq by simp
qed

theorem shell_sequence_before_pipe_overruns_witness:
  "let w = (\<lambda>v. SimpleC initialize_command [v]) in
   make_command_stream 4 (script_text sample @ printcmd (w ''a'') @ ''; '' @ printcmd (w ''b'') @ ''| '' @
     printcmd (w ''c'') @ newline) = Some (Inl Undefined)"
  unfolding Let_def
proof (rule shell_sequence_before_pipe_overruns)
  show "\<forall>c \<in> set sample. readable c \<and> height c \<le> 4" by code_simp
  have "length (script_text sample) < 200" by code_simp
  then show "length (script_text sample @ printcmd (SimpleC initialize_command [''a'']) @ ''; '' @
      printcmd (SimpleC initialize_command [''b'']) @ ''| '' @ printcmd (SimpleC initialize_command [''c'']) @ newline) < 2 ^ 64 - 1"
    by (simp add: newline_def printcmd_spaced)
qed (code_simp | simp)+

section \<open>Two bars\<close>

lemma find_bar_skip:
  "suffix (as @ xs) buf \<Longrightarrow> CHR ''|'' \<notin> set as \<Longrightarrow>
   find_bar buf (length buf - length (as @ xs)) = find_bar buf (length buf - length xs)"
proof (induction as)
  case (Cons a as)
  then have suf: "suffix (a # as @ xs) buf" by simp
  show ?case using suffix_nth [OF suf] Cons suffix_tail [OF suf] by (subst find_bar.simps) auto
qed simp

text \<open>The left part of the pipeline ends after the second bar and is taken for a pipeline again.\<close>

lemma create_pipe_endless:
  assumes suf: "suffix (a @ CHR ''|'' # CHR ''|'' # e # xs) buf" and a: "word_ok a" and e: "e \<noteq> CHR ''|''"
  shows "create k buf PIPE_COMMAND (pos buf (a @ CHR ''|'' # CHR ''|'' # e # xs) n) = Inl Too_deep"
proof (induction k)
  case (Suc k)
  let ?xs = "a @ CHR ''|'' # CHR ''|'' # e # xs" let ?sz = "length buf - length (CHR ''|'' # e # xs)"
  let ?i = "length buf - length ?xs" let ?w = "a @ ''|''"
  obtain b v where b: "a = b # v" "is_valid_char b" using a by (cases a) (auto simp: word_ok_def)
  have len: "length ?xs \<le> length buf" using suf by (rule suffix_length_le)
  note suf2 = suffix_right [OF suf]
  have bar: "find_bar buf ?i = Some ?sz"
  proof -
    have "find_bar buf ?i = find_bar buf (length buf - length (CHR ''|'' # CHR ''|'' # e # xs))"
      by (rule find_bar_skip [OF suf]) (use word_no_sep [OF a] in blast)
    also have "\<dots> = find_bar buf ?sz"
      using suffix_nth [OF suf2] suffix_nth [OF suffix_tail [OF suf2]] by (subst find_bar.simps) simp
    also have "\<dots> = Some ?sz"
      using find_bar_pos [of "[]" e xs buf] suffix_tail [OF suf2] e by simp
    finally show ?thesis .
  qed
  have seen: "drop ?i (take ?sz buf) = ?w"
  proof -
    have sz: "?sz - ?i = length ?w" using len by simp
    show ?thesis unfolding drop_take_suffix [OF suf] sz by simp
  qed
  have w: "token_ok ?w"
    using word_token [OF a] by (auto simp: token_ok_def token_char_def is_space_def is_blank_def eof_char_def)
  have "\<not> is_space b" using valid_solid [OF b(2)] by (simp add: solid_def)
  then have "dropWhile is_space ?w = ?w" using b(1) by simp
  moreover have "takeWhile token_char ?w = ?w" using w by (simp add: token_ok_def)
  ultimately have tok: "read_next_token buf ?i ?sz = Some ?w"
    using len seen token_takeWhile(2) [OF w] by (simp add: read_next_token_def)
  have "dropWhile (\<lambda>c. c \<noteq> CHR ''|'') ?w = ''|''"
    using word_no_sep [OF a] by (auto simp: dropWhile_append dropWhile_eq_Nil_conv)
  then have "single_bar ?w" by (simp add: single_bar_def)
  moreover have "?w \<notin> reserved" by (auto simp: reserved_def append_eq_Cons_conv)
  moreover have "hd ?w \<noteq> CHR ''('' \<and> hd ?w \<noteq> CHR '')''" using is_valid_char_not [OF b(2)] b(1) by auto
  ultimately have first: "first_word ?w = Inr (Some PIPE_COMMAND)" by (simp add: first_word_def reserved_def)
  have "skip_to buf ?sz (pos buf ?xs n) = pos buf ?xs n"
    using seen b(1) valid_not(1) [OF b(2)] by (simp add: skip_to_def pos_def)
  moreover have "buf ! ?i = b" "\<not> length buf \<le> ?i" using suffix_nth [of b "v @ CHR ''|'' # CHR ''|'' # e # xs" buf] suf b(1) by simp_all
  moreover have "\<not> ?sz \<le> ?i" using len b(1) by simp
  ultimately have "get_command_type buf ?sz (pos buf ?xs n) = Inr (PIPE_COMMAND, pos buf ?xs n)"
    using valid_not(3) [OF b(2)] b(2) tok first
    by (subst get_command_type.simps) (simp only: pos_simps Let_def if_False simp_thms option.case sum.case if_True)
  then show ?case using Suc bar by (simp add: create_pipe_command_def part_def andthen_def)
qed simp

text \<open>
  The parser recurses without end on a last line \<open>a||b | c\<close>. Its look-ahead takes the line
  for a pipeline because of the single bar, but \<open>create_pipe_command\<close> splits at the first bar
  that no bar follows, which is the second bar of \<open>||\<close>; the part before it, \<open>a|\<close>, looks like a
  pipeline again and is split at the same place. No number of stack frames is enough.
\<close>

theorem shell_double_bar_recurses:
  assumes cs: "\<forall>c \<in> set cs. readable c \<and> height c \<le> d" and a: "word_ok a" and b: "word_ok b" and c: "word_ok c"
    and size: "length (script_text cs @ a @ ''||'' @ b @ '' | '' @ c @ '' '' @ newline) < 2 ^ 64 - 1"
  shows "make_command_stream d (script_text cs @ a @ ''||'' @ b @ '' | '' @ c @ '' '' @ newline) = Some (Inl Too_deep)"
proof -
  let ?rest = "a @ ''||'' @ b @ '' | '' @ c @ '' '' @ newline" let ?t = "a @ ''||'' @ b" let ?n = "1 + length cs"
  let ?ys = "CHR 0x0A # [CHR 0x00]"
  define buf where "buf = script_text cs @ ?rest @ [CHR 0x00]"
  have eq: "?rest @ [CHR 0x00] = spaced [?t, ''|'', c] @ ?ys" by (simp add: newline_def)
  obtain x v where x: "a = x # v" "is_valid_char x" using a by (cases a) (auto simp: word_ok_def)
  have t: "token_ok ?t" using word_token [OF a] word_token [OF b]
    by (auto simp: token_ok_def token_char_def is_space_def is_blank_def eof_char_def)
  have hd: "hd ?t \<notin> set ''<>()''" using x is_valid_char_not [OF x(2)] by auto
  have no: "?t \<notin> reserved" using word_no_sep [OF reserved_word [of ?t]] by auto
  have "dropWhile (\<lambda>c. c \<noteq> CHR ''|'') ?t = ''||'' @ b"
    using word_no_sep [OF a] by (auto simp: dropWhile_append dropWhile_eq_Nil_conv)
  then have bar: "\<not> single_bar ?t" by (simp add: single_bar_def)
  have first: "first_word ?t = Inr None" using no bar hd by (auto simp: first_word_def reserved_def)
  have kind: "line_kind [?t, ''|'', c] = PIPE_COMMAND"
    using no by (simp add: line_kind_def reserved_def single_bar_def)
  have quiet: "quiet (?rest @ [CHR 0x00])" unfolding eq using quiet_token [OF t, of "spaced [''|'', c] @ ?ys"] hd by auto
  have ne: "?rest \<noteq> []" by simp
  note bad = bad_line [OF cs ne quiet size]
  have suf: "suffix ([] @ spaced [?t, ''|'', c] @ ?ys) buf" using bad(2) unfolding buf_def eq by simp
  have lim: "limit buf (buffer_size buf) ?ys" by (rule limit_line) (rule suffix_right [OF suf [unfolded append_Nil]])
  have "line_start ?t" using x by (simp add: line_start_def)
  note type = get_command_type_pos [OF suf _ _ this lim, of ?n]
  have whole: "spaced [?t, ''|'', c] @ ?ys =
      a @ CHR ''|'' # CHR ''|'' # hd b # tl b @ CHR '' '' # spaced [''|'', c] @ ?ys"
    using b by (simp add: word_ok_def)
  have "create d buf PIPE_COMMAND (pos buf (spaced [?t, ''|'', c] @ ?ys) ?n) = Inl Too_deep"
    unfolding whole
  proof (rule create_pipe_endless [OF _ a])
    show "hd b \<noteq> CHR ''|''" using word_no_sep [OF b] b by (cases b) (auto simp: word_ok_def)
  qed (use suf in \<open>simp only: whole append_Nil\<close>)
  then have "part (create d buf) buf (buffer_size buf) (pos buf (spaced [?t, ''|'', c] @ ?ys) ?n) = Inl Too_deep"
    using type t word_token [OF c] first kind by (simp add: part_def andthen_def)
  moreover obtain g gs where g: "spaced [?t, ''|'', c] @ ?ys = x # g # gs" using x(1) by (cases v) auto
  ultimately have "stream_loop d buf cs (pos buf (spaced [?t, ''|'', c] @ ?ys) ?n) = Some (Inl Too_deep)"
    using stream_loop_here [of "[]" x g gs buf d cs ?n] suf valid_not [OF x(2)] unfolding g by simp
  then show ?thesis using bad(1) unfolding buf_def eq by simp
qed

theorem shell_double_bar_recurses_witness:
  "\<forall>k. make_command_stream (4 + k) (script_text sample @ ''a'' @ ''||'' @ ''b'' @ '' | '' @ ''c'' @ '' '' @ newline) = Some (Inl Too_deep)"
proof
  fix k
  have "\<forall>c \<in> set sample. readable c \<and> height c \<le> 4" by code_simp
  then have cs: "\<forall>c \<in> set sample. readable c \<and> height c \<le> 4 + k" by fastforce
  have w: "word_ok ''a''" "word_ok ''b''" "word_ok ''c''" by code_simp+
  have "length (script_text sample) < 200" by code_simp
  then show "make_command_stream (4 + k) (script_text sample @ ''a'' @ ''||'' @ ''b'' @ '' | '' @ ''c'' @ '' '' @ newline) = Some (Inl Too_deep)"
    by (intro shell_double_bar_recurses [OF cs w]) (simp add: newline_def)
qed

end
