(* ===== verification/ShellMain.thy ===== *)
theory ShellMain
  imports ShellSpec ShellBad
begin

text \<open>
  The shell as a whole: \<open>main\<close> parses the script into a command stream and executes the
  commands that it reads from the stream.
\<close>

text \<open>The loop of \<open>main\<close> takes commands from the stream until it gets a null one.\<close>

function read_all :: "command_stream \<Rightarrow> command list" where
  "read_all st = (case read_command_stream st of (None, _) \<Rightarrow> [] | (Some c, st') \<Rightarrow> c # read_all st')"
  by pat_completeness auto

lemma read_command_stream_shorter: "read_command_stream st = (Some c, st') \<Longrightarrow> length st' < length st"
  by (cases st) auto

termination read_all
  by (relation "measure length") (use read_command_stream_shorter in \<open>force dest: sym\<close>)+

declare read_all.simps [simp del]

lemma read_all_stream: "read_all (stream_of cs) = cs"
proof -
  have "read_all (List.map Some cs @ [None]) = cs" for cs
    by (induction cs) (subst read_all.simps, simp)+
  then show ?thesis by (cases "cs = []") (simp_all add: stream_of_def read_all.simps)
qed

text \<open>
  \<open>main\<close> without options: an error of the parser ends the shell with status 1 before any
  command has run. \<open>d\<close> is the number of frames of the parser, \<open>n\<close> the fuel of the executor;
  undefined behaviour has no result either.
\<close>

definition shell_main :: "nat \<Rightarrow> os \<Rightarrow> nat \<Rightarrow> string \<Rightarrow> proc \<Rightarrow> world \<Rightarrow> result" where
  "shell_main d sys n script p w =
     (case make_command_stream d script of
        None \<Rightarrow> None
      | Some (Inl (Exit _ _)) \<Rightarrow> Some (w, exited 1)
      | Some (Inl Memory_exhausted) \<Rightarrow> Some (w, exited 1)
      | Some (Inl _) \<Rightarrow> None
      | Some (Inr st) \<Rightarrow> run_commands sys False n None (read_all st) p w)"


definition two_lines :: "command list" where
  "two_lines =
     (let w = (\<lambda>s. SimpleC initialize_command [s]); a = initialize_command in
      [UntilC a (w ''test'') (w ''touch''), w ''other''])"


end
