(* ===== verification/P2pBuffer.thy ===== *)
theory P2pBuffer
  imports Prelude
begin

text \<open>
  The bounded task buffer of the lab 4 peer (\<open>src/lab4/osppeer.c\<close>): a ring of 4096 bytes with
  a head and a tail counter that only grow and wrap at 32 bits, filled from one file descriptor
  and emptied into another, and the loops that move a file through it.

  What \<open>read\<close> and \<open>write\<close> do is up to the kernel: an \<open>answer\<close> is an error, a request to try
  again, or a number of bytes, at least one, that is cut to what was asked for and, for a read,
  to what the other side still has to send. A read returns 0 bytes when the other side has
  nothing more to send or when none were asked for. \<open>size_t\<close> has 64 bits.
\<close>

section \<open>The ring\<close>

datatype answer = Again | Failed | Amount nat

datatype taskbufresult = TBUF_ERROR | TBUF_END | TBUF_OK | TBUF_AGAIN

record task =
  t_buf :: "u8 list"
  t_head :: u32
  t_tail :: u32
  total_written :: "64 word"

abbreviation TASKBUFSIZ :: nat where "TASKBUFSIZ \<equiv> 4096"

definition task_new :: "u8 list \<Rightarrow> task" where
  "task_new garbage = \<lparr>t_buf = garbage, t_head = 0, t_tail = 0, total_written = 0\<rparr>"

text \<open>The buffer part of \<open>task_pop_peer\<close>.\<close>

definition task_pop_buffer :: "task \<Rightarrow> task" where
  "task_pop_buffer t = t\<lparr>t_head := 0, t_tail := 0, total_written := 0\<rparr>"

definition put_at :: "u8 list \<Rightarrow> nat \<Rightarrow> u8 list \<Rightarrow> u8 list" where
  "put_at b i bs = take i b @ bs @ drop (i + length bs) b"

definition sys_read :: "answer \<Rightarrow> nat \<Rightarrow> u8 list \<Rightarrow> taskbufresult \<times> u8 list" where
  "sys_read ans n src =
     (case ans of
        Again \<Rightarrow> (TBUF_AGAIN, [])
      | Failed \<Rightarrow> (TBUF_ERROR, [])
      | Amount k \<Rightarrow>
          let bs = take (min (Suc k) n) src in (if bs = [] then TBUF_END else TBUF_OK, bs))"

definition sys_write :: "answer \<Rightarrow> u8 list \<Rightarrow> taskbufresult \<times> u8 list" where
  "sys_write ans bs =
     (case ans of
        Again \<Rightarrow> (TBUF_AGAIN, [])
      | Failed \<Rightarrow> (TBUF_ERROR, [])
      | Amount k \<Rightarrow>
          let out = take (Suc k) bs in (if out = [] then TBUF_END else TBUF_OK, out))"

definition read_to_taskbuf :: "answer \<Rightarrow> u8 list \<Rightarrow> task \<Rightarrow> taskbufresult \<times> u8 list \<times> task" where
  "read_to_taskbuf ans src t =
     (let headpos = unat (t_head t mod 4096);
          tailpos = unat (t_tail t mod 4096);
          n = (if t_head t = t_tail t \<or> headpos < tailpos then TASKBUFSIZ - tailpos else headpos - tailpos);
          (r, bs) = sys_read ans n src
      in (r, drop (length bs) src,
          t\<lparr>t_buf := put_at (t_buf t) tailpos bs, t_tail := t_tail t + of_nat (length bs)\<rparr>))"

definition write_from_taskbuf :: "answer \<Rightarrow> task \<Rightarrow> taskbufresult \<times> u8 list \<times> task" where
  "write_from_taskbuf ans t =
     (let headpos = unat (t_head t mod 4096);
          tailpos = unat (t_tail t mod 4096)
      in if t_head t = t_tail t then (TBUF_END, [], t)
         else
           let n = (if headpos < tailpos then tailpos - headpos else TASKBUFSIZ - headpos);
               (r, out) = sys_write ans (take n (drop headpos (t_buf t)))
           in (r, out, t\<lparr>t_head := t_head t + of_nat (length out),
                         total_written := total_written t + of_nat (length out)\<rparr>))"

section \<open>The queue in the ring\<close>

definition fill_level :: "task \<Rightarrow> nat" where
  "fill_level t = unat (t_tail t - t_head t)"

definition ring_ok :: "task \<Rightarrow> bool" where
  "ring_ok t \<longleftrightarrow> length (t_buf t) = TASKBUFSIZ \<and> fill_level t \<le> TASKBUFSIZ"

definition slot_at :: "task \<Rightarrow> nat \<Rightarrow> nat" where
  "slot_at t i = (unat (t_head t) + i) mod TASKBUFSIZ"

definition queue :: "task \<Rightarrow> u8 list" where
  "queue t = List.map (\<lambda>i. t_buf t ! slot_at t i) [0 ..< fill_level t]"

lemma length_queue [simp]: "length (queue t) = fill_level t"
  by (simp add: queue_def)

lemma unat_add_ring: "unat (w + of_nat i :: u32) mod 4096 = (unat w + i) mod 4096"
proof -
  have "(4096 :: nat) dvd 2 ^ 32" by simp
  then show ?thesis
    by (simp add: unat_word_ariths unat_of_nat take_bit_eq_mod mod_mod_cancel mod_add_right_eq)
qed

lemma unat_mod_ring: "unat (w mod 4096 :: u32) = unat w mod 4096"
  by (simp add: unat_mod)

lemma tail_slot: "unat (t_tail t) mod 4096 = slot_at t (fill_level t)"
proof -
  have "t_tail t = t_head t + of_nat (fill_level t)" by (simp add: fill_level_def)
  then show ?thesis using unat_add_ring [of "t_head t" "fill_level t"] by (simp add: slot_at_def)
qed

lemma slot_lt [simp]: "slot_at t i < 4096"
  by (simp add: slot_at_def)

lemma slot_shift:
  "i < 4096 \<Longrightarrow> slot_at t i = (if slot_at t 0 + i < 4096 then slot_at t 0 + i else slot_at t 0 + i - 4096)"
proof -
  assume "i < 4096"
  moreover have "slot_at t i = (slot_at t 0 + i) mod 4096" by (simp add: slot_at_def mod_add_left_eq)
  ultimately show ?thesis using slot_lt [of t 0]
    by (cases "slot_at t 0 + i < 4096") (simp_all add: le_mod_geq not_less)
qed

lemma slot_inj:
  assumes "i < 4096" "j < 4096" "slot_at t i = slot_at t j"
  shows "i = j"
proof -
  define a b c where "a = slot_at t i" and "b = slot_at t j" and "c = slot_at t 0"
  have "a = (if c + i < 4096 then c + i else c + i - 4096)" "b = (if c + j < 4096 then c + j else c + j - 4096)"
    unfolding a_def b_def c_def by (rule slot_shift [OF assms(1)], rule slot_shift [OF assms(2)])
  moreover have "a = b" "c < 4096" using assms(3) by (simp_all add: a_def b_def c_def)
  ultimately show ?thesis using assms(1,2) by (simp split: if_splits)
qed

text \<open>The free run behind the tail and the used run from the head, in the terms of the code.\<close>

lemma free_run:
  assumes "ring_ok t"
  defines "h \<equiv> slot_at t 0" and "e \<equiv> slot_at t (fill_level t)"
  shows "(if t_head t = t_tail t \<or> h < e then 4096 - e else h - e) =
      (if fill_level t = 0 then 4096 - h else if h + fill_level t < 4096 then 4096 - (h + fill_level t)
       else 4096 - fill_level t)"
    "t_head t \<noteq> t_tail t \<Longrightarrow> (if h < e then e - h else 4096 - h) = min (fill_level t) (4096 - h)"
proof -
  have L: "fill_level t \<le> 4096" using assms(1) by (simp add: ring_ok_def)
  have h: "h < 4096" by (simp add: h_def)
  have e: "e = (if h + fill_level t < 4096 then h + fill_level t else h + fill_level t - 4096)"
  proof -
    have "e = (h + fill_level t) mod 4096" by (simp add: e_def h_def slot_at_def mod_add_left_eq)
    then show ?thesis using h L by (simp add: mod_if)
  qed
  have eq: "t_head t = t_tail t \<longleftrightarrow> fill_level t = 0"
    by (auto simp: fill_level_def unat_eq_0)
  show "(if t_head t = t_tail t \<or> h < e then 4096 - e else h - e) =
      (if fill_level t = 0 then 4096 - h else if h + fill_level t < 4096 then 4096 - (h + fill_level t)
       else 4096 - fill_level t)"
    using e eq h L by (auto split: if_splits)
  show "(if h < e then e - h else 4096 - h) = min (fill_level t) (4096 - h)" if "t_head t \<noteq> t_tail t"
    using e eq h L that by (auto split: if_splits)
qed

lemma nth_put_at:
  "i + length bs \<le> length b \<Longrightarrow> k < length b \<Longrightarrow>
   put_at b i bs ! k = (if i \<le> k \<and> k < i + length bs then bs ! (k - i) else b ! k)"
  by (auto simp: put_at_def nth_append)

lemma length_put_at [simp]: "i + length bs \<le> length b \<Longrightarrow> length (put_at b i bs) = length b"
  by (simp add: put_at_def)

lemma fill_level_add:
  assumes "fill_level t + n \<le> 4096" "t_head t' = t_head t" "t_tail t' = t_tail t + of_nat n"
  shows "fill_level t' = fill_level t + n"
proof -
  have "t_tail t' - t_head t' = (t_tail t - t_head t) + of_nat n" using assms(2,3) by simp
  moreover have "unat (of_nat n :: u32) = n" using assms(1) by (simp add: unat_of_nat take_bit_nat_eq_self)
  ultimately show ?thesis using assms(1) unat_add_no_wrap [of "t_tail t - t_head t" "of_nat n"]
    by (simp add: fill_level_def)
qed

lemma fill_level_sub:
  assumes "n \<le> fill_level t" "fill_level t \<le> 4096" "t_tail t' = t_tail t" "t_head t' = t_head t + of_nat n"
  shows "fill_level t' = fill_level t - n"
proof -
  have "t_tail t' - t_head t' = (t_tail t - t_head t) - of_nat n" using assms(3,4) by simp
  moreover have "unat (of_nat n :: u32) = n" using assms(1,2) by (simp add: unat_of_nat take_bit_nat_eq_self)
  ultimately show ?thesis using assms(1) unat_sub_no_wrap [of "of_nat n" "t_tail t - t_head t"]
    by (simp add: fill_level_def word_le_nat_alt)
qed

text \<open>Bytes stored behind the tail, not more than fit without wrapping or overtaking the head.\<close>

lemma queue_put:
  assumes ok: "ring_ok t" and n: "length bs \<le> 4096 - fill_level t" "slot_at t (fill_level t) + length bs \<le> 4096"
    and t': "t_buf t' = put_at (t_buf t) (slot_at t (fill_level t)) bs" "t_head t' = t_head t"
      "t_tail t' = t_tail t + of_nat (length bs)"
  shows "ring_ok t'" "queue t' = queue t @ bs"
proof -
  let ?L = "fill_level t" let ?e = "slot_at t ?L"
  have L: "?L \<le> 4096" "length (t_buf t) = 4096" using ok by (simp_all add: ring_ok_def)
  have L': "fill_level t' = ?L + length bs" by (rule fill_level_add) (use n L t' in simp_all)
  have slots: "slot_at t' i = slot_at t i" for i by (simp add: slot_at_def t'(2))
  show "ring_ok t'" using L L' n t' by (simp add: ring_ok_def)
  have run: "slot_at t (?L + j) = ?e + j" if j: "j < length bs" for j
  proof -
    have lt: "?L + j < 4096" using j n(1) L(1) by linarith
    have "?e + j < 4096" using j n(2) by linarith
    then show ?thesis using slot_shift [OF lt] slot_shift [of ?L t] lt slot_lt [of t 0]
      by (auto split: if_splits)
  qed
  have "queue t' ! i = (queue t @ bs) ! i" if i: "i < ?L + length bs" for i
  proof (cases "i < ?L")
    case True
    have "\<not> (?e \<le> slot_at t i \<and> slot_at t i < ?e + length bs)"
    proof
      assume in_run: "?e \<le> slot_at t i \<and> slot_at t i < ?e + length bs"
      define j where "j = slot_at t i - ?e"
      have j: "slot_at t i = slot_at t (?L + j)" "j < length bs" using in_run run [of j] by (auto simp: j_def)
      have "i = ?L + j" by (rule slot_inj [OF _ _ j(1)]) (use True L j(2) n(1) in linarith)+
      then show False using True by simp
    qed
    then show ?thesis using True i L' L n t'(1) slots nth_put_at [of ?e bs "t_buf t" "slot_at t i"]
      by (auto simp: queue_def nth_append)
  next
    case False
    define j where "j = i - ?L"
    have j: "i = ?L + j" "j < length bs" using False i by (auto simp: j_def)
    then show ?thesis using i L' L n t'(1) slots run [OF j(2)] nth_put_at [of ?e bs "t_buf t" "?e + j"]
      by (auto simp: queue_def nth_append)
  qed
  then show "queue t' = queue t @ bs" by (intro nth_equalityI) (simp_all add: L')
qed

lemma queue_take:
  assumes ok: "ring_ok t" and n: "n \<le> fill_level t" "slot_at t 0 + n \<le> 4096"
    and t': "t_buf t' = t_buf t" "t_tail t' = t_tail t" "t_head t' = t_head t + of_nat n"
  shows "ring_ok t'" "queue t = take n (drop (slot_at t 0) (t_buf t)) @ queue t'"
proof -
  have L: "fill_level t \<le> 4096" "length (t_buf t) = 4096" using ok by (simp_all add: ring_ok_def)
  have L': "fill_level t' = fill_level t - n" by (rule fill_level_sub [OF n(1) L(1) t'(2,3)])
  show "ring_ok t'" using L L' t'(1) by (simp add: ring_ok_def)
  have slots: "slot_at t' i = slot_at t (n + i)" for i
  proof -
    have "slot_at t' i = ((unat (t_head t) + n) mod 4096 + i) mod 4096"
      using unat_add_ring [of "t_head t" n] by (metis mod_add_left_eq slot_at_def t'(3))
    then show ?thesis by (simp add: slot_at_def mod_add_left_eq add.assoc)
  qed
  have run: "slot_at t j = slot_at t 0 + j" if "j < n" for j
    using slot_shift [of j t] that n L(1) by auto
  have "queue t ! i = (take n (drop (slot_at t 0) (t_buf t)) @ queue t') ! i" if i: "i < fill_level t" for i
    using i n L L' run [of i] slots by (auto simp: queue_def nth_append t'(1))
  then show "queue t = take n (drop (slot_at t 0) (t_buf t)) @ queue t'"
    using n L L' by (intro nth_equalityI) auto
qed

section \<open>Filling and emptying\<close>

lemma sys_read_prefix:
  "sys_read ans n src = (r, bs) \<Longrightarrow> length bs \<le> n \<and> src = bs @ drop (length bs) src \<and> (r = TBUF_END \<longrightarrow> n = 0 \<or> src = [])"
  by (auto simp: sys_read_def Let_def min_def split: answer.splits if_splits)

lemma read_to_taskbuf_queue:
  assumes ok: "ring_ok t" and read: "read_to_taskbuf ans src t = (r, src', t')"
  shows "ring_ok t'" "queue t' @ src' = queue t @ src" "total_written t' = total_written t"
    "r = TBUF_END \<Longrightarrow> src = [] \<or> fill_level t = TASKBUFSIZ"
    "\<exists>bs. queue t' = queue t @ bs \<and> src = bs @ src'"
proof -
  let ?h = "slot_at t 0" let ?e = "slot_at t (fill_level t)"
  define n where "n = (if t_head t = t_tail t \<or> ?h < ?e then 4096 - ?e else ?h - ?e)"
  have pos: "unat (t_head t mod 4096) = ?h" "unat (t_tail t mod 4096) = ?e"
    by (simp_all add: unat_mod_ring slot_at_def tail_slot [unfolded slot_at_def])
  obtain bs where bs: "sys_read ans n src = (r, bs)" "src' = drop (length bs) src"
    "t' = t\<lparr>t_buf := put_at (t_buf t) ?e bs, t_tail := t_tail t + of_nat (length bs)\<rparr>"
    using read by (auto simp: read_to_taskbuf_def Let_def pos n_def split: prod.splits)
  have L: "fill_level t \<le> 4096" using ok by (simp add: ring_ok_def)
  have e: "?e = (if fill_level t < 4096 then (if ?h + fill_level t < 4096 then ?h + fill_level t else ?h + fill_level t - 4096) else ?h)"
    using slot_shift [of "fill_level t" t] L by (auto simp: slot_at_def)
  have h: "?h \<le> 4095" using slot_lt [of t 0] by linarith
  have n: "n \<le> 4096 - fill_level t" "?e + n \<le> 4096" "n = 0 \<longrightarrow> fill_level t = 4096"
    using free_run(1) [OF ok] L e h unfolding n_def [symmetric] by (auto split: if_splits)
  note p = sys_read_prefix [OF bs(1)]
  have q: "ring_ok t'" "queue t' = queue t @ bs"
    by (rule queue_put [OF ok]; use n p bs(3) in simp)+
  show "ring_ok t'" by (rule q(1))
  show "queue t' @ src' = queue t @ src" using q(2) bs(2) p by simp
  show "\<exists>bs. queue t' = queue t @ bs \<and> src = bs @ src'" using q(2) bs(2) p by blast
  show "total_written t' = total_written t" using bs(3) by simp
  show "r = TBUF_END \<Longrightarrow> src = [] \<or> fill_level t = TASKBUFSIZ" using p n(3) by auto
qed

lemma write_from_taskbuf_queue:
  assumes ok: "ring_ok t" and wr: "write_from_taskbuf ans t = (r, out, t')"
  shows "ring_ok t'" "queue t = out @ queue t'" "total_written t' = total_written t + of_nat (length out)"
    "ans = Amount k \<Longrightarrow> queue t \<noteq> [] \<Longrightarrow> out \<noteq> []" "r = TBUF_ERROR \<longleftrightarrow> ans = Failed \<and> queue t \<noteq> []"
proof -
  let ?h = "slot_at t 0" let ?e = "slot_at t (fill_level t)"
  have L: "fill_level t \<le> 4096" "length (t_buf t) = 4096" using ok by (simp_all add: ring_ok_def)
  have empty: "t_head t = t_tail t \<longleftrightarrow> queue t = []"
    by (auto simp: fill_level_def unat_eq_0 simp flip: length_0_conv)
  have "ring_ok t' \<and> queue t = out @ queue t' \<and> total_written t' = total_written t + of_nat (length out) \<and>
    (ans = Amount k \<longrightarrow> queue t \<noteq> [] \<longrightarrow> out \<noteq> []) \<and> (r = TBUF_ERROR \<longleftrightarrow> ans = Failed \<and> queue t \<noteq> [])"
  proof (cases "t_head t = t_tail t")
    case True
    then have "t' = t" "out = []" "r = TBUF_END" using wr by (simp_all add: write_from_taskbuf_def Let_def)
    then show ?thesis using ok empty True by simp
  next
    case False
    define n where "n = (if ?h < ?e then ?e - ?h else 4096 - ?h)"
    have pos: "unat (t_head t mod 4096) = ?h" "unat (t_tail t mod 4096) = ?e"
      by (simp_all add: unat_mod_ring slot_at_def tail_slot [unfolded slot_at_def])
    let ?run = "take n (drop ?h (t_buf t))"
    obtain out' where out: "sys_write ans ?run = (r, out)" "out' = out"
      "t' = t\<lparr>t_head := t_head t + of_nat (length out), total_written := total_written t + of_nat (length out)\<rparr>"
      using wr False by (auto simp: write_from_taskbuf_def Let_def pos n_def split: prod.splits)
    have n: "n = min (fill_level t) (4096 - ?h)" using free_run(2) [OF ok False] by (simp add: n_def)
    have run: "length ?run = n" using n L slot_lt [of t 0] by simp
    have pre: "out = take (length out) (drop ?h (t_buf t))" "length out \<le> n"
      using out(1) run by (auto simp: sys_write_def Let_def min_def split: answer.splits)
    have fits: "?h + length out \<le> 4096" using pre(2) n slot_lt [of t 0] by linarith
    have "ring_ok t' \<and> queue t = take (length out) (drop ?h (t_buf t)) @ queue t'"
      by (intro conjI; rule queue_take [OF ok _ fits]; use pre(2) n out(3) in simp)
    then have "ring_ok t' \<and> queue t = out @ queue t'" using pre(1) by metis
    moreover have "n \<noteq> 0" using False empty n slot_lt [of t 0] by (auto simp flip: length_0_conv)
    then have "ans = Amount k \<longrightarrow> out \<noteq> []" using out(1) run by (auto simp: sys_write_def Let_def)
    moreover have "r = TBUF_ERROR \<longleftrightarrow> ans = Failed"
      using out(1) by (auto simp: sys_write_def Let_def split: answer.splits if_splits)
    moreover have "total_written t' = total_written t + of_nat (length out)" using out(3) by simp
    ultimately show ?thesis using False empty by blast
  qed
  then show "ring_ok t'" "queue t = out @ queue t'" "total_written t' = total_written t + of_nat (length out)"
    "ans = Amount k \<Longrightarrow> queue t \<noteq> [] \<Longrightarrow> out \<noteq> []" "r = TBUF_ERROR \<longleftrightarrow> ans = Failed \<and> queue t \<noteq> []" by blast+
qed

end
