(* ===== verification/P2pTransfer.thy ===== *)
theory P2pTransfer
  imports P2pBuffer
begin

text \<open>
  The contract of the task buffer as a first-in first-out queue, and the two loops of
  \<open>task_download\<close> and \<open>task_upload\<close> that move a file through it.
\<close>

section \<open>The contract of a bounded queue between two descriptors\<close>

text \<open>An interleaving of fills and drains: what is still to come, the buffer, what went out.\<close>

datatype operation = Fill answer | Drain answer

primrec run_operations ::
    "(answer \<Rightarrow> 'b list \<Rightarrow> 't \<Rightarrow> taskbufresult \<times> 'b list \<times> 't) \<Rightarrow> (answer \<Rightarrow> 't \<Rightarrow> taskbufresult \<times> 'b list \<times> 't)
      \<Rightarrow> operation list \<Rightarrow> 'b list \<times> 't \<times> 'b list \<Rightarrow> 'b list \<times> 't \<times> 'b list" where
  "run_operations fill drain [] c = c"
| "run_operations fill drain (x # xs) c =
     (let (src, t, dst) = c in
      case x of
        Fill ans \<Rightarrow> (let (r, src', t') = fill ans src t in run_operations fill drain xs (src', t', dst))
      | Drain ans \<Rightarrow> (let (r, out, t') = drain ans t in run_operations fill drain xs (src, t', dst @ out)))"

locale fifo_buffer =
  fixes ok :: "'t \<Rightarrow> bool"
    and contents :: "'t \<Rightarrow> 'b list"
    and capacity :: nat
    and fill :: "answer \<Rightarrow> 'b list \<Rightarrow> 't \<Rightarrow> taskbufresult \<times> 'b list \<times> 't"
    and drain :: "answer \<Rightarrow> 't \<Rightarrow> taskbufresult \<times> 'b list \<times> 't"
  assumes bounded: "ok t \<Longrightarrow> length (contents t) \<le> capacity"
    and fill_ok: "ok t \<Longrightarrow> fill ans src t = (r, src', t') \<Longrightarrow> ok t'"
    and fill_queue: "ok t \<Longrightarrow> fill ans src t = (r, src', t') \<Longrightarrow> \<exists>bs. contents t' = contents t @ bs \<and> src = bs @ src'"
    and fill_end: "ok t \<Longrightarrow> fill ans src t = (TBUF_END, src', t') \<Longrightarrow> src = [] \<or> length (contents t) = capacity"
    and drain_ok: "ok t \<Longrightarrow> drain ans t = (r, out, t') \<Longrightarrow> ok t'"
    and drain_queue: "ok t \<Longrightarrow> drain ans t = (r, out, t') \<Longrightarrow> contents t = out @ contents t'"
    and drain_progress: "ok t \<Longrightarrow> drain (Amount k) t = (r, out, t') \<Longrightarrow> contents t \<noteq> [] \<Longrightarrow> out \<noteq> []"
begin

lemma run_in_order:
  "ok t \<Longrightarrow> run_operations fill drain xs (src, t, dst) = (src', t', dst') \<Longrightarrow>
   ok t' \<and> length (contents t') \<le> capacity \<and> dst' @ contents t' @ src' = dst @ contents t @ src"
proof (induction xs arbitrary: src t dst)
  case Nil
  then show ?case using bounded by simp
next
  case (Cons x xs)
  show ?case
  proof (cases x)
    case (Fill ans)
    obtain r src1 t1 where f: "fill ans src t = (r, src1, t1)" by (rule prod_cases3)
    then show ?thesis using Cons.IH [OF fill_ok [OF Cons.prems(1) f]] Cons.prems fill_queue [OF Cons.prems(1) f] Fill
      by auto
  next
    case (Drain ans)
    obtain r out t1 where d: "drain ans t = (r, out, t1)" by (rule prod_cases3)
    then show ?thesis using Cons.IH [OF drain_ok [OF Cons.prems(1) d]] Cons.prems drain_queue [OF Cons.prems(1) d] Drain
      by simp
  qed
qed

text \<open>A fill that reports the end on an empty buffer has seen the end of its source.\<close>

lemma end_of_source:
  assumes "ok t" "fill ans src t = (TBUF_END, src', t')" "contents t' = []" "0 < capacity"
  shows "src = []"
  using fill_end [OF assms(1,2)] fill_queue [OF assms(1,2)] assms(3,4) by auto

end

interpretation ring: fifo_buffer ring_ok queue TASKBUFSIZ read_to_taskbuf write_from_taskbuf
proof unfold_locales
  fix t
  assume "ring_ok t"
  then show "length (queue t) \<le> TASKBUFSIZ" by (simp add: ring_ok_def)
next
  fix t ans src r src' t'
  assume a: "ring_ok t" "read_to_taskbuf ans src t = (r, src', t')"
  show "ring_ok t'" "\<exists>bs. queue t' = queue t @ bs \<and> src = bs @ src'" by (rule read_to_taskbuf_queue(1,5) [OF a])+
next
  fix t ans src src' t'
  assume a: "ring_ok t" "read_to_taskbuf ans src t = (TBUF_END, src', t')"
  show "src = [] \<or> length (queue t) = TASKBUFSIZ" using read_to_taskbuf_queue(4) [OF a] by simp
next
  fix t ans r out t'
  assume a: "ring_ok t" "write_from_taskbuf ans t = (r, out, t')"
  show "ring_ok t'" "queue t = out @ queue t'" by (rule write_from_taskbuf_queue(1,2) [OF a])+
next
  fix t k r out t'
  assume a: "ring_ok t" "write_from_taskbuf (Amount k) t = (r, out, t')" "queue t \<noteq> []"
  show "out \<noteq> []" using write_from_taskbuf_queue(4) [OF a(1,2) refl a(3)] .
qed

lemma ring_new: "length g = TASKBUFSIZ \<Longrightarrow> ring_ok (task_new g) \<and> queue (task_new g) = []"
  by (simp add: ring_ok_def fill_level_def task_new_def queue_def)

text \<open>
  C8: the task buffer is a bounded first-in first-out queue. However the calls of
  \<open>read_to_taskbuf\<close> and \<open>write_from_taskbuf\<close> on a new task are interleaved and however many
  bytes the kernel moves in each of them, with the two counters wrapping at 32 bits, the bytes
  written so far, those in the buffer and those still to be read are the input in its order,
  and the buffer never holds more than its 4096 bytes.
\<close>

theorem taskbuf_is_fifo:
  assumes "length g = TASKBUFSIZ"
    and "run_operations read_to_taskbuf write_from_taskbuf xs (src, task_new g, []) = (src', t', dst)"
  shows "dst @ queue t' @ src' = src \<and> fill_level t' \<le> TASKBUFSIZ"
  using ring.run_in_order [OF _ assms(2)] ring_new [OF assms(1)] by simp

theorem taskbuf_is_fifo_witness:
  "\<exists>g src' t' dst. length g = TASKBUFSIZ \<and>
     run_operations read_to_taskbuf write_from_taskbuf [Fill (Amount 2), Drain (Amount 0), Fill Again, Drain (Amount 5)]
      ([1, 2, 3, 4], task_new g, []) = (src', t', dst) \<and> dst @ queue t' @ src' = [1, 2, 3, 4]"
proof -
  obtain g :: "u8 list" where g: "length g = TASKBUFSIZ" using Ex_list_of_length by blast
  obtain src' t' dst where run: "run_operations read_to_taskbuf write_from_taskbuf
      [Fill (Amount 2), Drain (Amount 0), Fill Again, Drain (Amount 5)] ([1, 2, 3, 4], task_new g, []) = (src', t', dst)"
    by (rule prod_cases3)
  show ?thesis using taskbuf_is_fifo [OF g run] run g by blast
qed

section \<open>Download and upload\<close>

text \<open>
  The loop of \<open>task_download\<close> takes one answer of the peer's socket and one of the disk in each
  round; it has no result while it still waits for the next. \<open>Try_again\<close> is the jump to the
  next peer.
\<close>

datatype transfer = Waiting | Try_again | Complete "u8 list" task

fun download_loop :: "(answer \<times> answer) list \<Rightarrow> u8 list \<Rightarrow> task \<Rightarrow> u8 list \<Rightarrow> transfer" where
  "download_loop [] src t disk = Waiting"
| "download_loop ((a, b) # as) src t disk =
     (let (r, src', t1) = read_to_taskbuf a src t in
      if r = TBUF_ERROR then Try_again
      else if r = TBUF_END \<and> t_head t1 = t_tail t1 then Complete disk t1
      else
        let (r, out, t2) = write_from_taskbuf b t1 in
        if r = TBUF_ERROR then Try_again
        else if total_written t2 > 2147483648 then Try_again
        else download_loop as src' t2 (disk @ out))"

text \<open>The loop of \<open>task_upload\<close> writes before it reads; there is no limit on the size.\<close>

fun upload_loop :: "(answer \<times> answer) list \<Rightarrow> u8 list \<Rightarrow> task \<Rightarrow> u8 list \<Rightarrow> transfer" where
  "upload_loop [] src t sent = Waiting"
| "upload_loop ((a, b) # as) src t sent =
     (let (r, out, t1) = write_from_taskbuf b t in
      if r = TBUF_ERROR then Try_again
      else
        let (r, src', t2) = read_to_taskbuf a src t1 in
        if r = TBUF_ERROR then Try_again
        else if r = TBUF_END \<and> t_head t2 = t_tail t2 then Complete (sent @ out) t2
        else upload_loop as src' t2 (sent @ out))"

definition willing :: "answer \<times> answer \<Rightarrow> bool" where
  "willing ab \<longleftrightarrow> (\<exists>k l. ab = (Amount k, Amount l))"

lemma empty_iff: "t_head t = t_tail t \<longleftrightarrow> queue t = []"
  by (auto simp: fill_level_def unat_eq_0 simp flip: length_0_conv)

lemma u64_le: "n < 2 ^ 64 \<Longrightarrow> (of_nat n :: 64 word) > 2147483648 \<longleftrightarrow> n > 2147483648"
  by (simp add: word_less_nat_alt unat_of_nat take_bit_nat_eq_self)

text \<open>What is complete is the source, and its size is within the limit.\<close>

lemma download_loop_complete:
  assumes "download_loop as src t disk = Complete disk' t'" "ring_ok t"
    and "total_written t = of_nat (length disk)" "length disk \<le> 2147483648"
    and "length disk + length (queue t) + length src < 2 ^ 64"
  shows "disk' = disk @ queue t @ src \<and> length disk' \<le> 2147483648"
  using assms
proof (induction as arbitrary: src t disk)
  case (Cons ab as)
  obtain a b where ab: "ab = (a, b)" by (cases ab)
  obtain r src1 t1 where r: "read_to_taskbuf a src t = (r, src1, t1)" by (rule prod_cases3)
  obtain r2 out t2 where w: "write_from_taskbuf b t1 = (r2, out, t2)" by (rule prod_cases3)
  note q = read_to_taskbuf_queue(1-3) [OF Cons.prems(2) r]
  note q2 = write_from_taskbuf_queue(1-3) [OF q(1) w]
  have err: "r \<noteq> TBUF_ERROR" using Cons.prems(1) r ab by auto
  show ?case
  proof (cases "r = TBUF_END \<and> t_head t1 = t_tail t1")
    case True
    then have e: "queue t1 = []" using empty_iff by simp
    have "src = []" using ring.end_of_source [OF Cons.prems(2)] r True e by simp
    moreover have "queue t = []" using read_to_taskbuf_queue(5) [OF Cons.prems(2) r] e by auto
    ultimately show ?thesis using True Cons.prems(1,4) r ab by auto
  next
    case False
    have len: "length disk + length out + length (queue t2) + length src1 = length disk + length (queue t) + length src"
      using arg_cong [OF q(2), of length] arg_cong [OF q2(2), of length] by simp
    have tot: "total_written t2 = of_nat (length (disk @ out))" using q(3) q2(3) Cons.prems(3) by simp
    have step: "\<not> total_written t2 > 2147483648" "download_loop as src1 t2 (disk @ out) = Complete disk' t'"
      using Cons.prems(1) unfolding ab download_loop.simps r w Let_def prod.case
      using err False by (simp_all split: if_splits)
    have size: "length (disk @ out) \<le> 2147483648"
      using step(1) u64_le [of "length (disk @ out)"] len Cons.prems(5) unfolding tot by simp
    have all: "disk @ queue t @ src = (disk @ out) @ queue t2 @ src1" using q(2) q2(2) by simp
    have bound: "length (disk @ out) + length (queue t2) + length src1 < 2 ^ 64"
      using len Cons.prems(5) by simp
    show ?thesis unfolding all by (rule Cons.IH [OF step(2) q2(1) tot size bound])
  qed
qed simp

lemma sys_read_amount: "sys_read (Amount k) n src = (r, bs) \<Longrightarrow> r \<noteq> TBUF_ERROR \<and> (r = TBUF_END \<longleftrightarrow> bs = [])"
  by (auto simp: sys_read_def Let_def split: if_splits)

lemma read_to_taskbuf_sys:
  assumes "read_to_taskbuf ans src t = (r, src', t')"
  obtains n bs where "sys_read ans n src = (r, bs)" "src' = drop (length bs) src"
  using assms unfolding read_to_taskbuf_def Let_def by (simp only: prod.case_eq_if prod.inject) (metis prod.collapse)

lemma willing_read:
  assumes "ring_ok t" "read_to_taskbuf (Amount k) src t = (r, src', t')"
  shows "r \<noteq> TBUF_ERROR" "queue t' = [] \<Longrightarrow> r = TBUF_END \<and> src = [] \<and> queue t = []"
proof -
  obtain n bs where bs: "sys_read (Amount k) n src = (r, bs)" "src' = drop (length bs) src"
    by (rule read_to_taskbuf_sys [OF assms(2)])
  note amt = sys_read_amount [OF bs(1)] sys_read_prefix [OF bs(1)]
  then show "r \<noteq> TBUF_ERROR" by simp
  assume e: "queue t' = []"
  then have q0: "queue t = []" "src' = src" using read_to_taskbuf_queue(5) [OF assms] by auto
  have "src = bs @ src" using amt(2) bs(2) q0(2) by metis
  then have "r = TBUF_END" using amt(1) by simp
  moreover from this have "src = []" using ring.fill_end [OF assms(1)] assms(2) q0(1) by auto
  ultimately show "r = TBUF_END \<and> src = [] \<and> queue t = []" using q0(1) by simp
qed

lemma download_loop_ends:
  assumes "\<forall>ab \<in> set as. willing ab" "ring_ok t" "length (queue t) + length src < length as"
    and "total_written t = of_nat (length disk)" "length disk + length (queue t) + length src \<le> 2147483648"
  shows "\<exists>t'. download_loop as src t disk = Complete (disk @ queue t @ src) t'"
  using assms
proof (induction as arbitrary: src t disk)
  case (Cons ab as)
  obtain k l where ab: "ab = (Amount k, Amount l)" using Cons.prems(1) by (auto simp: willing_def)
  obtain r src1 t1 where r: "read_to_taskbuf (Amount k) src t = (r, src1, t1)" by (rule prod_cases3)
  obtain r2 out t2 where w: "write_from_taskbuf (Amount l) t1 = (r2, out, t2)" by (rule prod_cases3)
  note q = read_to_taskbuf_queue(1-3) [OF Cons.prems(2) r]
  note q2 = write_from_taskbuf_queue [OF q(1) w]
  note wr = willing_read [OF Cons.prems(2) r]
  show ?case
  proof (cases "queue t1 = []")
    case True
    then show ?thesis using wr(2) r empty_iff [of t1] ab by simp
  next
    case False
    have "0 < length out" using q2(4) [OF refl False] by simp
    have ok: "r2 \<noteq> TBUF_ERROR" using q2(5) by simp
    have len: "length out + length (queue t2) + length src1 = length (queue t) + length src"
      using arg_cong [OF q(2), of length] arg_cong [OF q2(2), of length] by simp
    have tot: "total_written t2 = of_nat (length (disk @ out))" using q(3) q2(3) Cons.prems(4) by simp
    have small: "\<not> total_written t2 > 2147483648"
      using u64_le [of "length (disk @ out)"] len Cons.prems(5) unfolding tot by simp
    have going: "\<not> (r = TBUF_END \<and> t_head t1 = t_tail t1)" using False empty_iff by simp
    have "\<exists>t'. download_loop as src1 t2 (disk @ out) = Complete ((disk @ out) @ queue t2 @ src1) t'"
    proof (rule Cons.IH [OF _ q2(1) _ tot])
      have "length (queue t) + length src \<le> length as" using Cons.prems(3) by simp
      then show "length (queue t2) + length src1 < length as" using \<open>0 < length out\<close> len by linarith
    qed (use Cons.prems(1,5) len in simp_all)
    moreover have "queue t @ src = out @ queue t2 @ src1" using q(2) q2(2) by simp
    ultimately show ?thesis using r w wr(1) going ok small ab by (auto simp: Let_def)
  qed
qed simp

text \<open>An upload sends the file in the same way, without a limit.\<close>

lemma upload_loop_complete:
  assumes "upload_loop as src t sent = Complete sent' t'" "ring_ok t"
  shows "sent' = sent @ queue t @ src"
  using assms
proof (induction as arbitrary: src t sent)
  case (Cons ab as)
  obtain a b where ab: "ab = (a, b)" by (cases ab)
  obtain r out t1 where w: "write_from_taskbuf b t = (r, out, t1)" by (rule prod_cases3)
  obtain r2 src2 t2 where rd: "read_to_taskbuf a src t1 = (r2, src2, t2)" by (rule prod_cases3)
  note q = write_from_taskbuf_queue(1,2) [OF Cons.prems(2) w]
  note q2 = read_to_taskbuf_queue [OF q(1) rd]
  have err: "r \<noteq> TBUF_ERROR" "r2 \<noteq> TBUF_ERROR" using Cons.prems(1) w rd ab by (auto simp: Let_def split: if_splits)
  show ?case
  proof (cases "r2 = TBUF_END \<and> t_head t2 = t_tail t2")
    case True
    then have e: "queue t2 = []" using empty_iff by simp
    then have "src = []" "queue t1 = []" using ring.end_of_source [OF q(1)] rd True q2(5) by auto
    then show ?thesis using True Cons.prems(1) w rd err ab q(2) by simp
  next
    case False
    then have "upload_loop as src2 t2 (sent @ out) = Complete sent' t'"
      using Cons.prems(1) w rd err ab by (auto simp: Let_def)
    then show ?thesis using Cons.IH [OF _ q2(1)] q(2) q2(2) by (metis append.assoc)
  qed
qed simp

text \<open>
  C9: a download copies the file. Whatever the socket and the disk do, when the loop of
  \<open>task_download\<close> completes, the disk file holds exactly the bytes that the peer sent, and
  there are at most \<open>2 ^ 31\<close> of them; and when they keep moving at least one byte a time, it
  does complete for every such file, within one round for each byte and one more.
\<close>

theorem download_copies_the_stream:
  assumes g: "length g = TASKBUFSIZ" and size: "length src < 2 ^ 64"
  shows "(\<forall>as disk t'. download_loop as src (task_new g) [] = Complete disk t' \<longrightarrow> disk = src \<and> length src \<le> 2 ^ 31) \<and>
    (\<forall>as. length src \<le> 2 ^ 31 \<and> (\<forall>ab \<in> set as. willing ab) \<and> length src < length as \<longrightarrow>
      (\<exists>t'. download_loop as src (task_new g) [] = Complete src t'))"
proof (intro conjI allI impI)
  note new = ring_new [OF g]
  have zero: "total_written (task_new g) = 0" by (simp add: task_new_def)
  fix as disk t'
  assume "download_loop as src (task_new g) [] = Complete disk t'"
  then have "disk = [] @ queue (task_new g) @ src \<and> length disk \<le> 2147483648"
    by (rule download_loop_complete) (use new zero size in simp_all)
  then show "disk = src" "length src \<le> 2 ^ 31" using new by auto
next
  note new = ring_new [OF g]
  have zero: "total_written (task_new g) = 0" by (simp add: task_new_def)
  fix as
  assume a: "length src \<le> 2 ^ 31 \<and> (\<forall>ab \<in> set as. willing ab) \<and> length src < length as"
  have "\<exists>t'. download_loop as src (task_new g) [] = Complete ([] @ queue (task_new g) @ src) t'"
    by (rule download_loop_ends) (use a new zero in simp_all)
  then show "\<exists>t'. download_loop as src (task_new g) [] = Complete src t'" using new by simp
qed

theorem download_copies_the_stream_witness:
  "\<exists>g t'. length g = TASKBUFSIZ \<and>
     download_loop (replicate 4 (Amount 1, Amount 0)) [7, 8, 9] (task_new g) [] = Complete [7, 8, 9] t'"
proof -
  obtain g :: "u8 list" where g: "length g = TASKBUFSIZ" using Ex_list_of_length by blast
  have "length [7, 8, 9 :: u8] < 2 ^ 64" by simp
  note copies = download_copies_the_stream [OF g this]
  have "length [7, 8, 9 :: u8] \<le> 2 ^ 31 \<and> (\<forall>ab \<in> set (replicate 4 (Amount 1, Amount 0)). willing ab) \<and>
      length [7, 8, 9 :: u8] < length (replicate 4 (Amount 1, Amount 0))"
    by (simp add: willing_def)
  then show ?thesis using copies g by blast
qed

end
