(* ===== verification/P2pWire.thy ===== *)
theory P2pWire
  imports Prelude
begin

text \<open>
  The message format of the lab 4 peer (\<open>src/lab4/writescan.c\<close>): the quoting of strings, the
  formatter \<open>osp2p_writef\<close> and the scanner \<open>osp2p_vsnscanf\<close>.

  A message in memory is the list of its characters; what lies behind its end is a second list.
  An address is its value in host order, and \<open>%d\<close> arguments are C integers. A format whose
  conversions do not fit its arguments has no result (\<open>None\<close>). The growing output buffer and
  the loop that writes it to the socket are not modelled.
\<close>

section \<open>Characters\<close>

definition code :: "char \<Rightarrow> nat" where
  "code c = of_char c"

definition isdigit :: "char \<Rightarrow> bool" where
  "isdigit c \<longleftrightarrow> 48 \<le> code c \<and> code c \<le> 57"

definition isalnum :: "char \<Rightarrow> bool" where
  "isalnum c \<longleftrightarrow> isdigit c \<or> (65 \<le> code c \<and> code c \<le> 90) \<or> (97 \<le> code c \<and> code c \<le> 122)"

definition isxdigit :: "char \<Rightarrow> bool" where
  "isxdigit c \<longleftrightarrow> isdigit c \<or> (65 \<le> code c \<and> code c \<le> 70) \<or> (97 \<le> code c \<and> code c \<le> 102)"

definition isspace :: "char \<Rightarrow> bool" where
  "isspace c \<longleftrightarrow> code c = 32 \<or> (9 \<le> code c \<and> code c \<le> 13)"

section \<open>Quoting\<close>

definition plain_char :: "char \<Rightarrow> bool" where
  "plain_char c \<longleftrightarrow> isalnum c \<or> c \<in> set ''$-_.+!*()'' \<or> c = CHR 0x27 \<or> c = CHR '',''"

definition hex_digit :: "nat \<Rightarrow> char" where
  "hex_digit n = ''0123456789ABCDEF'' ! n"

fun http_quote :: "string \<Rightarrow> string" where
  "http_quote [] = []"
| "http_quote (c # s) =
     (if plain_char c then c # http_quote s
      else CHR ''%'' # hex_digit (code c div 16) # hex_digit (code c mod 16) # http_quote s)"

text \<open>The value of a hexadecimal digit in either case.\<close>

definition xvalue :: "char \<Rightarrow> nat" where
  "xvalue c = (if isdigit c then code c - 48
     else (if 65 \<le> code c \<and> code c \<le> 90 then code c + 32 else code c) - 97 + 10)"

section \<open>Formatting\<close>

datatype arg = Text string | Number int | Address u32

fun digits_text :: "nat \<Rightarrow> string" where
  "digits_text n = (if n < 10 then [char_of (48 + n)] else digits_text (n div 10) @ [char_of (48 + n mod 10)])"

declare digits_text.simps [simp del]

definition int_text :: "int \<Rightarrow> string" where
  "int_text i = (if i < 0 then CHR ''-'' # digits_text (nat (- i)) else digits_text (nat i))"

text \<open>\<open>inet_ntoa\<close>.\<close>

definition addr_text :: "u32 \<Rightarrow> string" where
  "addr_text a = (let n = unat a in digits_text (n div 16777216) @ ''.'' @ digits_text (n div 65536 mod 256) @ ''.'' @
     digits_text (n div 256 mod 256) @ ''.'' @ digits_text (n mod 256))"

text \<open>The loop of \<open>osp2p_writef\<close> over the format.\<close>

fun writef :: "string \<Rightarrow> arg list \<Rightarrow> string option" where
  "writef [] args = Some []"
| "writef [c] args = Some [c]"
| "writef (c # d # f) args =
     (if c = CHR ''%'' \<and> d = CHR ''s'' then
        (case args of Text s # args' \<Rightarrow> map_option (\<lambda>t. http_quote s @ t) (writef f args') | _ \<Rightarrow> None)
      else if c = CHR ''%'' \<and> d = CHR ''d'' then
        (case args of Number i # args' \<Rightarrow> map_option (\<lambda>t. int_text i @ t) (writef f args') | _ \<Rightarrow> None)
      else if c = CHR ''%'' \<and> d = CHR ''I'' then
        (case args of Address a # args' \<Rightarrow> map_option (\<lambda>t. addr_text a @ t) (writef f args') | _ \<Rightarrow> None)
      else if c = CHR ''%'' \<and> d = CHR ''%'' then map_option (\<lambda>t. CHR ''%'' # t) (writef f args)
      else map_option (\<lambda>t. c # t) (writef (d # f) args))"

section \<open>Scanning\<close>

text \<open>
  The conversion \<open>%s\<close>. The two characters behind a percent sign are read without a test for the
  end of the message, \<open>beyond\<close> is what they are there; \<open>None\<close> when the scanner steps over the
  end or reads behind the memory.
\<close>

function scan_string :: "string \<Rightarrow> string \<Rightarrow> (string \<times> string) option" where
  "scan_string beyond [] = Some ([], [])"
| "scan_string beyond (c # r) =
     (if isspace c then Some ([], c # r)
      else
        let plain = map_option (\<lambda>(w, r'). (c # w, r')) (scan_string beyond r) in
        if c = CHR ''%'' then
          (case r @ beyond of
             [] \<Rightarrow> None
           | a # r1 \<Rightarrow>
               if \<not> isxdigit a then plain
               else (case r1 of
                   [] \<Rightarrow> None
                 | b # _ \<Rightarrow>
                     if \<not> isxdigit b then plain
                     else if length r < 2 then None
                     else map_option (\<lambda>(w, r'). (char_of (xvalue a * 16 + xvalue b) # w, r'))
                            (scan_string beyond (drop 2 r))))
        else plain)"
  by pat_completeness auto
termination
  by (relation "measure (\<lambda>(_, r). length r)") auto

definition INT_MAX :: int where
  "INT_MAX = 2147483647"

definition digit_value :: "char \<Rightarrow> int" where
  "digit_value c = int (code c) - 48"

text \<open>The conversion \<open>%d\<close>: \<open>None\<close> is the jump to \<open>exit\<close>.\<close>

fun scan_digits :: "int \<Rightarrow> string \<Rightarrow> int \<times> string" where
  "scan_digits v [] = (v, [])"
| "scan_digits v (c # r) =
     (if isdigit c \<and> v < (INT_MAX - digit_value c) div 10 then scan_digits (10 * v + digit_value c) r else (v, c # r))"

definition scan_int :: "string \<Rightarrow> (int \<times> string) option" where
  "scan_int s =
     (if s = [] \<or> \<not> isdigit (hd s) then None
      else
        let (v, r) = scan_digits 0 s in
        if r \<noteq> [] \<and> isdigit (hd r) then None else Some (v, r))"

text \<open>The conversion \<open>%I\<close>: four numbers up to 255 with dots between them.\<close>

fun scan_octet :: "int \<Rightarrow> string \<Rightarrow> int \<times> string" where
  "scan_octet x [] = (x, [])"
| "scan_octet x (c # r) =
     (if isdigit c \<and> x \<le> 255 then scan_octet ((if x < 0 then 0 else 10 * x) + digit_value c) r else (x, c # r))"

function scan_octets :: "nat \<Rightarrow> u32 \<Rightarrow> string \<Rightarrow> (u32 \<times> string) option" where
  "scan_octets i v s =
     (if i \<ge> 4 then Some (v, s)
      else
        let (x, r) = scan_octet (-1) s in
        if x < 0 \<or> x > 255 \<or> (i < 3 \<and> (r = [] \<or> hd r \<noteq> CHR ''.'')) then None
        else scan_octets (i + 1) (push_bit 8 v + of_int x) (if i < 3 then tl r else r))"
  by pat_completeness auto
termination
  by (relation "measure (\<lambda>(i, _, _). 4 - i)") auto

declare scan_octets.simps [simp del]

datatype scan = Matched "arg list" | Mismatch "arg list" | Overrun

text \<open>
  The loop of \<open>osp2p_vsnscanf\<close> over the format: \<open>len\<close> is the length of the message, \<open>outs\<close> what
  has been stored through the pointers so far.
\<close>

function scanf :: "string \<Rightarrow> nat \<Rightarrow> string \<Rightarrow> string \<Rightarrow> arg list \<Rightarrow> scan" where
  "scanf beyond len [] s outs = Matched outs"
| "scanf beyond len (c # f) s outs =
     (let d = (if f = [] then CHR 0x00 else hd f); f' = tl f in
      if c = CHR ''%'' \<and> d = CHR ''s'' then
        (case scan_string beyond s of
           None \<Rightarrow> Overrun | Some (w, r) \<Rightarrow> scanf beyond len f' r (outs @ [Text w]))
      else if c = CHR ''%'' \<and> d = CHR ''I'' then
        (case scan_octets 0 0 s of
           None \<Rightarrow> Mismatch outs | Some (v, r) \<Rightarrow> scanf beyond len f' r (outs @ [Address v]))
      else if c = CHR ''%'' \<and> d = CHR ''d'' then
        (case scan_int s of
           None \<Rightarrow> Mismatch outs | Some (v, r) \<Rightarrow> scanf beyond len f' r (outs @ [Number v]))
      else if c = CHR ''%'' \<and> d = CHR ''n'' then
        scanf beyond len f' s (outs @ [Number (int (len - length s))])
      else if c = CHR ''%'' \<and> d = CHR ''%'' then
        (if s = [] \<or> hd s \<noteq> CHR ''%'' then Mismatch outs else scanf beyond len f' (tl s) outs)
      else if isspace c then
        (if s = [] \<or> \<not> isspace (hd s) then Mismatch outs
         else scanf beyond len (dropWhile isspace f) (dropWhile isspace s) outs)
      else if s = [] \<or> hd s \<noteq> c then Mismatch outs
      else scanf beyond len f (tl s) outs)"
  by pat_completeness auto
termination
  by (relation "measure (\<lambda>(_, _, f, _, _). length f)") (auto simp: le_imp_less_Suc length_dropWhile_le)

declare scanf.simps(2) [simp del]

text \<open>\<open>osp2p_sscanf\<close> scans a string with its terminating nul behind it.\<close>

definition osp2p_sscanf :: "string \<Rightarrow> string \<Rightarrow> scan" where
  "osp2p_sscanf s f = scanf [CHR 0x00] (length s) f s []"

definition osp2p_snscanf :: "string \<Rightarrow> string \<Rightarrow> string \<Rightarrow> scan" where
  "osp2p_snscanf beyond s f = scanf beyond (length s) f s []"

section \<open>Characters back and forth\<close>

lemma code_digit [simp]: "n < 10 \<Longrightarrow> code (char_of (48 + n)) = 48 + n"
  by (simp add: code_def)

lemma digit_facts [simp]:
  "n < 10 \<Longrightarrow> isdigit (char_of (48 + n))" "n < 10 \<Longrightarrow> digit_value (char_of (48 + n)) = int n"
  by (simp_all add: isdigit_def digit_value_def)

lemma char_of_code [simp]: "char_of (code c) = c"
  by (simp add: code_def)

lemma plain_char_not_space: "plain_char c \<Longrightarrow> \<not> isspace c \<and> c \<noteq> CHR ''%''"
  by (auto simp: plain_char_def isspace_def isalnum_def isdigit_def code_def)

lemma hex_digit_facts:
  "n < 16 \<Longrightarrow> isxdigit (hex_digit n) \<and> xvalue (hex_digit n) = n"
proof -
  have "\<forall>n \<in> set [0 ..< 16]. isxdigit (hex_digit n) \<and> xvalue (hex_digit n) = n"
    by (simp add: upt_rec hex_digit_def isxdigit_def xvalue_def isdigit_def code_def)
  then show "n < 16 \<Longrightarrow> isxdigit (hex_digit n) \<and> xvalue (hex_digit n) = n" by simp
qed

text \<open>What quoting writes has no white space and is read back whole.\<close>

lemma scan_string_quote:
  assumes "r = [] \<or> isspace (hd r)"
  shows "scan_string beyond (http_quote s @ r) = Some (s, r)"
proof (induction s)
  case Nil
  then show ?case using assms by (cases r) simp_all
next
  case (Cons c s)
  have c: "code c < 256" by (simp add: code_def of_char_def)
  have "code c div 16 < 16" "code c mod 16 < 16" using c by simp_all
  moreover have "\<not> isspace (CHR ''%'')" by (simp add: isspace_def code_def)
  ultimately show ?case
    using Cons.IH plain_char_not_space [of c] hex_digit_facts [of "code c div 16"] hex_digit_facts [of "code c mod 16"]
    by (simp add: Let_def)
qed

lemma quote_head:
  "s \<noteq> [] \<Longrightarrow> http_quote s \<noteq> [] \<and> \<not> isspace (hd (http_quote s))"
  by (cases s) (use plain_char_not_space in \<open>auto simp: isspace_def code_def\<close>)

section \<open>Numbers back and forth\<close>

text \<open>The largest number that the accumulation of \<open>%d\<close> reaches.\<close>

definition readable_max :: nat where
  "readable_max = 2147483637"

lemma digits_text_small: "n < 10 \<Longrightarrow> digits_text n = [char_of (48 + n)]"
  by (subst digits_text.simps) simp

lemma digits_text_step:
  "10 \<le> n \<Longrightarrow> digits_text n = digits_text (n div 10) @ [char_of (48 + n mod 10)]"
  by (subst digits_text.simps) simp

lemma digits_head: "digits_text n \<noteq> [] \<and> isdigit (hd (digits_text n))"
proof (induction n rule: digits_text.induct)
  case (1 n)
  then show ?case
    by (cases "n < 10") (simp_all add: digits_text_small digits_text_step not_less)
qed

lemma room_iff: "v < (INT_MAX - d) div 10 \<longleftrightarrow> 10 * v + d + 10 \<le> INT_MAX"
proof -
  have "v < (m - d) div 10 \<longleftrightarrow> 10 * v + d + 10 \<le> m" for m :: int by presburger
  then show ?thesis .
qed

lemma digits_join: "10 * int (n div 10) + int (n mod 10) = int n"
  by presburger

lemma scan_digits_text:
  "n \<le> readable_max \<Longrightarrow> scan_digits 0 (digits_text n @ r) = scan_digits (int n) r"
proof (induction n arbitrary: r rule: digits_text.induct)
  case (1 n)
  show ?case
  proof (cases "n < 10")
    case True
    then have "0 < (INT_MAX - int n) div 10" by (simp add: INT_MAX_def pos_imp_zdiv_pos_iff)
    then show ?thesis using True by (simp add: digits_text_small)
  next
    case False
    have lt: "int (n div 10) < (INT_MAX - int (n mod 10)) div 10"
      using 1(2) digits_join [of n] unfolding room_iff by (simp add: readable_max_def INT_MAX_def)
    have IH: "scan_digits 0 (digits_text (n div 10) @ s) = scan_digits (int (n div 10)) s" for s
      using 1 False by (simp add: readable_max_def)
    have "scan_digits 0 (digits_text n @ r) = scan_digits (int (n div 10)) (char_of (48 + n mod 10) # r)"
      using False by (simp add: digits_text_step IH)
    also have "\<dots> = scan_digits (10 * int (n div 10) + int (n mod 10)) r" using lt by simp
    also have "10 * int (n div 10) + int (n mod 10) = int n" by (rule digits_join)
    finally show ?thesis .
  qed
qed

text \<open>Behind that number the scanner stops with a digit in front of it.\<close>

lemma scan_digits_stop:
  "readable_max < n \<Longrightarrow> \<exists>v c r'. scan_digits 0 (digits_text n @ r) = (v, c # r') \<and> isdigit c"
proof (induction n arbitrary: r rule: digits_text.induct)
  case (1 n)
  have big: "10 \<le> n" using 1(2) by (simp add: readable_max_def)
  let ?d = "char_of (48 + n mod 10) :: char"
  show ?case
  proof (cases "readable_max < n div 10")
    case True
    then show ?thesis using 1(1) [of "?d # r"] big by (simp add: digits_text_step)
  next
    case False
    have ge: "\<not> int (n div 10) < (INT_MAX - int (n mod 10)) div 10"
      using 1(2) digits_join [of n] unfolding room_iff by (simp add: readable_max_def INT_MAX_def)
    show ?thesis using False big ge scan_digits_text [of "n div 10" "?d # r"]
      by (simp add: digits_text_step)
  qed
qed

lemma scan_int_text:
  assumes "r = [] \<or> \<not> isdigit (hd r)"
  shows "scan_int (digits_text n @ r) = (if n \<le> readable_max then Some (int n, r) else None)"
proof (cases "n \<le> readable_max")
  case True
  have "scan_digits (int n) r = (int n, r)" using assms by (cases r) simp_all
  then show ?thesis using True digits_head [of n] scan_digits_text [OF True, of r] assms
    by (simp add: scan_int_def hd_append)
next
  case False
  then obtain v c r' where "scan_digits 0 (digits_text n @ r) = (v, c # r')" "isdigit c"
    using scan_digits_stop [of n r] by auto
  then show ?thesis using False by (simp add: scan_int_def)
qed

section \<open>Addresses back and forth\<close>

lemma scan_octet_text:
  "n \<le> 255 \<Longrightarrow> scan_octet (-1) (digits_text n @ r) = scan_octet (int n) r"
proof (induction n arbitrary: r rule: digits_text.induct)
  case (1 n)
  show ?case
  proof (cases "n < 10")
    case True
    then show ?thesis by (simp add: digits_text_small)
  next
    case False
    have IH: "scan_octet (-1) (digits_text (n div 10) @ s) = scan_octet (int (n div 10)) s" for s
      using 1 False by simp
    have "scan_octet (-1) (digits_text n @ r) = scan_octet (int (n div 10)) (char_of (48 + n mod 10) # r)"
      using False by (simp add: digits_text_step IH)
    also have "\<dots> = scan_octet (10 * int (n div 10) + int (n mod 10)) r"
      using le_trans [OF div_le_dividend 1(2), of 10] by simp
    also have "10 * int (n div 10) + int (n mod 10) = int n" by (rule digits_join)
    finally show ?thesis .
  qed
qed

lemma scan_octet_stop:
  "n \<le> 255 \<Longrightarrow> r = [] \<or> \<not> isdigit (hd r) \<Longrightarrow> scan_octet (-1) (digits_text n @ r) = (int n, r)"
  by (simp add: scan_octet_text) (cases r; simp)

lemma scan_octets_dot:
  assumes "i < 3" "n \<le> 255"
  shows "scan_octets i (of_nat m) (digits_text n @ CHR ''.'' # r) = scan_octets (i + 1) (of_nat (256 * m + n)) r"
  using assms scan_octet_stop [of n "CHR ''.'' # r"]
  by (subst scan_octets.simps) (simp add: isdigit_def code_def push_bit_eq_mult mult.commute)

lemma scan_octets_last:
  assumes "i = 3" "n \<le> 255" "r = [] \<or> \<not> isdigit (hd r)"
  shows "scan_octets i (of_nat m) (digits_text n @ r) = Some (of_nat (256 * m + n), r)"
  using assms scan_octet_stop [of n r]
  by (subst scan_octets.simps) (simp add: scan_octets.simps [of 4] push_bit_eq_mult mult.commute)

lemma scan_octets_addr:
  assumes "r = [] \<or> \<not> isdigit (hd r)"
  shows "scan_octets 0 0 (addr_text a @ r) = Some (a, r)"
proof -
  define n where "n = unat a"
  have n: "n < 4294967296" unfolding n_def using unsigned_less [of a] by simp
  define q1 q2 q3 q4 where q: "q1 = n div 16777216" "q2 = n div 65536 mod 256" "q3 = n div 256 mod 256" "q4 = n mod 256"
  have le: "q1 \<le> 255" "q2 \<le> 255" "q3 \<le> 255" "q4 \<le> 255" 
    using n less_mult_imp_div_less [of n 256 16777216] by (simp_all add: q less_Suc_eq_le [symmetric])
  have "n div 65536 = 256 * q1 + q2" "n div 256 = 256 * (n div 65536) + q3" "n = 256 * (n div 256) + q4"
    using div_mult2_eq [of n 65536 256] div_mult2_eq [of n 256 256] by (simp_all add: q)
  then have sum: "256 * (256 * (256 * (256 * 0 + q1) + q2) + q3) + q4 = n" by simp
  have split: "addr_text a @ r = digits_text q1 @ CHR ''.'' # digits_text q2 @ CHR ''.'' # digits_text q3 @ CHR ''.'' # digits_text q4 @ r"
    by (simp add: addr_text_def Let_def q n_def)
  have "scan_octets 0 (of_nat 0) (addr_text a @ r) = Some (of_nat n, r)"
    unfolding split
    by (subst scan_octets_dot [OF _ le(1)], simp, subst scan_octets_dot [OF _ le(2)], simp,
        subst scan_octets_dot [OF _ le(3)], simp, subst scan_octets_last [OF _ le(4) assms], simp,
        simp only: sum)
  then show ?thesis by (simp add: n_def)
qed

section \<open>Messages back and forth\<close>

text \<open>
  A format in its parts, the text of the format, and what is asked of it and of the arguments for
  a message to be read back: white space only once in a row, a word behind \<open>%s\<close> ended by white
  space, a number or an address not followed by a digit.
\<close>

datatype item = Literal char | Blank char | Word_Item | Number_Item | Address_Item | Percent_Item

primrec item_format :: "item \<Rightarrow> string" where
  "item_format (Literal c) = [c]"
| "item_format (Blank c) = [c]"
| "item_format Word_Item = ''%s''"
| "item_format Number_Item = ''%d''"
| "item_format Address_Item = ''%I''"
| "item_format Percent_Item = ''%%''"

definition format_of :: "item list \<Rightarrow> string" where
  "format_of fmt = concat (List.map item_format fmt)"

definition ends_number :: "item list \<Rightarrow> bool" where
  "ends_number fmt \<longleftrightarrow> (case fmt of [] \<Rightarrow> True | Literal c # _ \<Rightarrow> \<not> isdigit c | Blank c # _ \<Rightarrow> True
     | Word_Item # _ \<Rightarrow> False | Number_Item # _ \<Rightarrow> False | Address_Item # _ \<Rightarrow> False | Percent_Item # _ \<Rightarrow> True)"

definition starts_blank :: "item list \<Rightarrow> bool" where
  "starts_blank fmt \<longleftrightarrow> (case fmt of Blank c # _ \<Rightarrow> True | _ \<Rightarrow> False)"

fun fits :: "item list \<Rightarrow> arg list \<Rightarrow> bool" where
  "fits [] [] = True"
| "fits (Literal c # fmt) as = (c \<noteq> CHR ''%'' \<and> c \<noteq> CHR 0x00 \<and> \<not> isspace c \<and> fits fmt as)"
| "fits (Blank c # fmt) as = (isspace c \<and> \<not> starts_blank fmt \<and> fits fmt as)"
| "fits (Word_Item # fmt) (Text s # as) =
     (s \<noteq> [] \<and> CHR 0x00 \<notin> set s \<and> (fmt = [] \<or> starts_blank fmt) \<and> fits fmt as)"
| "fits (Number_Item # fmt) (Number i # as) =
     (0 \<le> i \<and> i \<le> int readable_max \<and> ends_number fmt \<and> fits fmt as)"
| "fits (Address_Item # fmt) (Address a # as) = (ends_number fmt \<and> fits fmt as)"
| "fits (Percent_Item # fmt) as = fits fmt as"
| "fits _ _ = False"

text \<open>What the writer produces for such a format, part by part.\<close>

fun message_text :: "item list \<Rightarrow> arg list \<Rightarrow> string" where
  "message_text (Literal c # fmt) as = c # message_text fmt as"
| "message_text (Blank c # fmt) as = c # message_text fmt as"
| "message_text (Word_Item # fmt) (Text s # as) = http_quote s @ message_text fmt as"
| "message_text (Number_Item # fmt) (Number i # as) = digits_text (nat i) @ message_text fmt as"
| "message_text (Address_Item # fmt) (Address a # as) = addr_text a @ message_text fmt as"
| "message_text (Percent_Item # fmt) as = CHR ''%'' # message_text fmt as"
| "message_text _ _ = []"

lemma format_simps [simp]:
  "format_of [] = []" "format_of (x # fmt) = item_format x @ format_of fmt"
  by (simp_all add: format_of_def)

lemma space_chars [simp]:
  "\<not> isspace (CHR ''%'')" "\<not> isdigit (CHR ''%'')" "isspace c \<Longrightarrow> c \<noteq> CHR ''%''" "isspace c \<Longrightarrow> \<not> isdigit c"
  by (auto simp: isspace_def isdigit_def code_def)

lemma writef_plain: "c \<noteq> CHR ''%'' \<Longrightarrow> writef (c # f) as = map_option ((#) c) (writef f as)"
  by (cases f) simp_all

lemma writef_message: "fits fmt as \<Longrightarrow> writef (format_of fmt) as = Some (message_text fmt as)"
  by (induction fmt as rule: fits.induct) (auto simp: writef_plain int_text_def)

lemma digits_not_space: "isdigit c \<Longrightarrow> \<not> isspace c"
  by (auto simp: isspace_def isdigit_def)

text \<open>The first character of a message is told by the first part of its format.\<close>

lemma message_starts:
  assumes "fits fmt as"
  shows "\<not> starts_blank fmt \<Longrightarrow> message_text fmt as = [] \<or> \<not> isspace (hd (message_text fmt as))"
    "fmt = [] \<or> starts_blank fmt \<Longrightarrow> message_text fmt as = [] \<or> isspace (hd (message_text fmt as))"
    "ends_number fmt \<Longrightarrow> message_text fmt as = [] \<or> \<not> isdigit (hd (message_text fmt as))"
  using assms
  by (cases "(fmt, as)" rule: fits.cases;
      simp add: starts_blank_def ends_number_def quote_head digits_head digits_not_space hd_append addr_text_def Let_def)+

lemma format_starts:
  "fits fmt as \<Longrightarrow> \<not> starts_blank fmt \<Longrightarrow> dropWhile isspace (format_of fmt) = format_of fmt"
  by (cases "(fmt, as)" rule: fits.cases) (simp_all add: starts_blank_def)

lemma scanf_message:
  "fits fmt as \<Longrightarrow> scanf beyond len (format_of fmt) (message_text fmt as) outs = Matched (outs @ as)"
proof (induction fmt as arbitrary: outs rule: fits.induct)
  case (2 c fmt as)
  then show ?case by (simp add: scanf.simps(2) Let_def)
next
  case (3 c fmt as)
  have "dropWhile isspace (message_text fmt as) = message_text fmt as"
    using message_starts(1) [of fmt as] 3(2) by (cases "message_text fmt as") auto
  then show ?case using 3 format_starts [of fmt as] by (simp add: scanf.simps(2) Let_def)
next
  case (4 fmt s as)
  then have "scan_string beyond (http_quote s @ message_text fmt as) = Some (s, message_text fmt as)"
    using message_starts(2) [of fmt as] by (intro scan_string_quote) auto
  then show ?case using 4 by (simp add: scanf.simps(2) Let_def)
next
  case (5 fmt i as)
  then have "scan_int (digits_text (nat i) @ message_text fmt as) = Some (i, message_text fmt as)"
    using message_starts(3) [of fmt as] by (subst scan_int_text) auto
  then show ?case using 5 by (simp add: scanf.simps(2) Let_def)
next
  case (6 fmt a as)
  then have "scan_octets 0 0 (addr_text a @ message_text fmt as) = Some (a, message_text fmt as)"
    using message_starts(3) [of fmt as] by (intro scan_octets_addr) auto
  then show ?case using 6 by (simp add: scanf.simps(2) Let_def)
next
  case (7 fmt as)
  then show ?case by (simp add: scanf.simps(2) Let_def)
qed simp_all


definition addr_items :: "item list" where
  "addr_items = List.map Literal ''ADDR'' @ [Blank CHR '' '', Word_Item, Blank CHR '' '', Address_Item,
     Literal CHR '':'', Number_Item, Blank CHR 0x0A]"


text \<open>
  Of the numbers that \<open>%d\<close> writes, \<open>%d\<close> reads back exactly the ones up to 2147483637: the
  last ten values of a C int fail, because the loop leaves room for one more digit than it adds.
\<close>

theorem osp2p_number_limit:
  assumes "0 \<le> i"
  shows "\<exists>msg. writef ''%d'' [Number i] = Some msg \<and>
    osp2p_sscanf msg ''%d'' = (if i \<le> 2147483637 then Matched [Number i] else Mismatch [])"
proof -
  have "nat i \<le> readable_max \<longleftrightarrow> i \<le> 2147483637" using assms by (simp add: readable_max_def nat_le_iff)
  then show ?thesis using assms scan_int_text [of "[]" "nat i"]
    by (simp add: int_text_def osp2p_sscanf_def scanf.simps(2))
qed

theorem osp2p_number_limit_witness:
  "\<exists>msg. writef ''%d'' [Number 2147483647] = Some msg \<and> osp2p_sscanf msg ''%d'' = Mismatch []"
  using osp2p_number_limit [of 2147483647] by simp

text \<open>
  A string that ends in the middle of an escape, with a hexadecimal digit left over behind the
  message, takes the scanner over the end of the message.
\<close>

lemma scan_string_plain_append:
  "\<forall>c \<in> set w. \<not> isspace c \<and> c \<noteq> CHR ''%'' \<Longrightarrow>
   scan_string beyond (w @ r) = map_option (\<lambda>(v, r'). (w @ v, r')) (scan_string beyond r)"
proof (induction w)
  case Nil
  have "(\<lambda>(v, r'). ([] @ v, r')) = (\<lambda>x :: string \<times> string. x)" by (simp add: fun_eq_iff)
  then show ?case by (simp only: append_Nil option.map_ident)
next
  case (Cons c w)
  then have "scan_string beyond ((c # w) @ r) = map_option (\<lambda>(v, r'). (c # v, r')) (scan_string beyond (w @ r))"
    by (simp add: Let_def)
  also have "\<dots> = map_option (\<lambda>(v, r'). ((c # w) @ v, r')) (scan_string beyond r)"
    using Cons by (cases "scan_string beyond r") (auto simp del: scan_string.simps)
  finally show ?case .
qed

lemma scanf_literal:
  "c \<noteq> CHR ''%'' \<Longrightarrow> \<not> isspace c \<Longrightarrow> scanf beyond len (c # f) (c # s) outs = scanf beyond len f s outs"
  by (simp add: scanf.simps(2) Let_def)

lemma scanf_blank:
  "isspace c \<Longrightarrow> isspace d \<Longrightarrow>
   scanf beyond len (c # f) (d # s) outs = scanf beyond len (dropWhile isspace f) (dropWhile isspace s) outs"
  by (simp add: scanf.simps(2) Let_def)

lemma scanf_word:
  "scanf beyond len (CHR ''%'' # CHR ''s'' # f) s outs =
   (case scan_string beyond s of None \<Rightarrow> Overrun | Some (w, r) \<Rightarrow> scanf beyond len f r (outs @ [Text w]))"
  by (simp add: scanf.simps(2) Let_def)

lemma osp2p_truncated_escape_overruns:
  assumes "\<forall>c \<in> set w. \<not> isspace c \<and> c \<noteq> CHR ''%''" "isxdigit a" "isxdigit b"
  shows "osp2p_snscanf (b # rest) (''GET '' @ w @ [CHR ''%'', a]) (''GET %s OSP2P'' @ [CHR 0x0A]) = Overrun"
proof -
  have "\<not> isspace a" using assms(2) by (auto simp: isxdigit_def isspace_def isdigit_def)
  then have over: "scan_string (b # rest) (w @ [CHR ''%'', a]) = None"
    using assms by (simp add: scan_string_plain_append Let_def)
  have drop: "dropWhile isspace (w @ [CHR ''%'', a]) = w @ [CHR ''%'', a]"
    using assms(1) by (cases w) simp_all
  have chars: "isspace (CHR '' '')" "\<not> isspace (CHR ''G'')" "\<not> isspace (CHR ''E'')" "\<not> isspace (CHR ''T'')"
    by (simp_all add: isspace_def code_def)
  show ?thesis
    by (simp add: osp2p_snscanf_def scanf_literal scanf_blank scanf_word chars drop over)
qed

section \<open>The types of what is scanned\<close>

datatype arg_type = Text_Type | Number_Type | Address_Type

fun type_of_arg :: "arg \<Rightarrow> arg_type" where
  "type_of_arg (Text s) = Text_Type"
| "type_of_arg (Number i) = Number_Type"
| "type_of_arg (Address a) = Address_Type"

text \<open>The types that the conversions of a format stand for, in their order.\<close>

fun conversions :: "string \<Rightarrow> arg_type list" where
  "conversions [] = []"
| "conversions [c] = []"
| "conversions (c # d # f) =
     (if c = CHR ''%'' \<and> d = CHR ''s'' then Text_Type # conversions f
      else if c = CHR ''%'' \<and> d = CHR ''I'' then Address_Type # conversions f
      else if c = CHR ''%'' \<and> (d = CHR ''d'' \<or> d = CHR ''n'') then Number_Type # conversions f
      else if c = CHR ''%'' \<and> d = CHR ''%'' then conversions f
      else conversions (d # f))"

lemma conversions_plain: "c \<noteq> CHR ''%'' \<Longrightarrow> conversions (c # f) = conversions f"
  by (cases f) simp_all

lemma conversions_drop: "conversions (dropWhile isspace f) = conversions f"
  by (induction f) (auto simp: conversions_plain)

lemma conversions_hd:
  "conversions (c # f) =
     (let d = (if f = [] then CHR 0x00 else hd f) in
      if c = CHR ''%'' \<and> d = CHR ''s'' then Text_Type # conversions (tl f)
      else if c = CHR ''%'' \<and> d = CHR ''I'' then Address_Type # conversions (tl f)
      else if c = CHR ''%'' \<and> (d = CHR ''d'' \<or> d = CHR ''n'') then Number_Type # conversions (tl f)
      else if c = CHR ''%'' \<and> d = CHR ''%'' then conversions (tl f)
      else conversions f)"
  by (cases f) (simp_all, metis)

definition well_typed :: "arg_type list \<Rightarrow> scan \<Rightarrow> bool" where
  "well_typed ts r =
     (case r of
        Matched outs \<Rightarrow> List.map type_of_arg outs = ts
      | Mismatch outs \<Rightarrow> \<exists>rest. List.map type_of_arg outs @ rest = ts
      | Overrun \<Rightarrow> True)"

lemma well_typed_simps [simp]:
  "well_typed ts (Matched outs) \<longleftrightarrow> List.map type_of_arg outs = ts"
  "well_typed (List.map type_of_arg outs @ ts) (Mismatch outs)"
  "well_typed ts Overrun"
  by (simp_all add: well_typed_def)

lemma scanf_well_typed:
  "well_typed (List.map type_of_arg outs @ conversions f) (scanf beyond len f s outs)"
proof (induction beyond len f s outs rule: scanf.induct)
  case (2 beyond len c f s outs)
  define d where "d = (if f = [] then CHR 0x00 else hd f)"
  note hd = conversions_hd [of c f, folded d_def, unfolded Let_def]
  note step = scanf.simps(2) [of beyond len c f s outs, folded d_def, unfolded Let_def]
  note IH = 2 [folded d_def, OF refl refl]
  consider (word) "c = CHR ''%''" "d = CHR ''s''" | (address) "c = CHR ''%''" "d = CHR ''I''"
    | (number) "c = CHR ''%''" "d = CHR ''d''" | (count) "c = CHR ''%''" "d = CHR ''n''"
    | (percent) "c = CHR ''%''" "d = CHR ''%''" | (other) "\<not> (c = CHR ''%'' \<and> d \<in> set ''sIdn%'')" by auto
  then show ?case
  proof cases
    case word
    then show ?thesis using IH(1) unfolding hd step by (auto split: option.split)
  next
    case address
    then show ?thesis using IH(2) unfolding hd step by (auto split: option.split)
  next
    case number
    then show ?thesis using IH(3) unfolding hd step by (auto split: option.split)
  next
    case count
    then show ?thesis using IH(4) unfolding hd step by simp
  next
    case percent
    then show ?thesis using IH(5) unfolding hd step by simp
  next
    case other
    then show ?thesis using IH(6,7) unfolding hd step by (auto simp: conversions_drop)
  qed
qed simp


end
