(* ===== verification/P2pTracker.thy ===== *)
theory P2pTracker
  imports P2pTransfer P2pWire
begin

text \<open>
  The tracker's responses in the lab 4 peer (\<open>src/lab4/osppeer.c\<close>): the search for the end of a
  response in what has arrived so far, the loop that reads more, and the list of peers made from
  the data portion of a response.
\<close>

section \<open>The end of a response\<close>

definition byte_char :: "u8 \<Rightarrow> char" where
  "byte_char b = char_of (unat b)"

definition digit_at :: "u8 list \<Rightarrow> nat \<Rightarrow> bool" where
  "digit_at buf i \<longleftrightarrow> isdigit (byte_char (buf ! i))"

definition space_at :: "u8 list \<Rightarrow> nat \<Rightarrow> bool" where
  "space_at buf i \<longleftrightarrow> isspace (byte_char (buf ! i))"

text \<open>A position that starts a line with three digits.\<close>

definition coded_at :: "u8 list \<Rightarrow> nat \<Rightarrow> bool" where
  "coded_at buf i \<longleftrightarrow> (i = 0 \<or> buf ! (i - 1) = 10) \<and> digit_at buf i \<and> digit_at buf (i + 1) \<and> digit_at buf (i + 2)"

text \<open>
  The search over the first \<open>tail\<close> bytes, with the \<open>pos\<close> and the \<open>split_pos\<close> (\<open>None\<close> for
  \<open>(size_t) -1\<close>) of the last round: the split position of a complete response, or where it stopped.
\<close>

function scan_response :: "u8 list \<Rightarrow> nat \<Rightarrow> nat \<Rightarrow> nat option \<Rightarrow> nat + (nat \<times> nat option)" where
  "scan_response buf tail pos split =
     (if \<not> pos + 3 < tail then Inr (pos, split)
      else if coded_at buf pos then
        let split_pos = (case split of None \<Rightarrow> pos | Some p \<Rightarrow> p) in
        if pos + 4 \<ge> tail then Inr (pos, Some split_pos)
        else if space_at buf (pos + 3) \<and> buf ! (tail - 1) = 10 then Inl split_pos
        else scan_response buf tail (pos + 1) (Some split_pos)
      else scan_response buf tail (pos + 1) split)"
  by pat_completeness auto
termination
  by (relation "measure (\<lambda>(_, tail, pos, _). tail - pos)") auto

declare scan_response.simps [simp del]

text \<open>
  How \<open>read_tracker_response\<close> ends: with the length of the data portion, the task and what has
  not been read yet; with the final nul stored behind a full buffer; in \<open>die\<close>; or it still
  waits for the tracker.
\<close>

datatype response = Responded nat task "u8 list" | Stray_Write | Tracker_Died | Response_Waiting

fun response_loop :: "answer list \<Rightarrow> u8 list \<Rightarrow> task \<Rightarrow> nat \<Rightarrow> nat option \<Rightarrow> response" where
  "response_loop as src t pos split =
     (case scan_response (t_buf t) (unat (t_tail t)) pos split of
        Inl split_pos \<Rightarrow>
          if unat (t_tail t) < TASKBUFSIZ then Responded split_pos (t\<lparr>t_buf := (t_buf t)[unat (t_tail t) := 0]\<rparr>) src
          else Stray_Write
      | Inr (pos', split') \<Rightarrow>
          (case as of
             [] \<Rightarrow> Response_Waiting
           | a # as' \<Rightarrow>
               let (r, src', t') = read_to_taskbuf a src t in
               if r = TBUF_ERROR \<or> r = TBUF_END then Tracker_Died
               else response_loop as' src' t' pos' split'))"

declare response_loop.simps [simp del]

definition read_tracker_response :: "answer list \<Rightarrow> u8 list \<Rightarrow> task \<Rightarrow> response" where
  "read_tracker_response as src t = response_loop as src (t\<lparr>t_head := 0, t_tail := 0\<rparr>) 0 None"

section \<open>The lines of a response\<close>

definition is_line :: "u8 list \<Rightarrow> bool" where
  "is_line l \<longleftrightarrow> l \<noteq> [] \<and> last l = 10 \<and> 10 \<notin> set (butlast l)"

definition data_line :: "u8 list \<Rightarrow> bool" where
  "data_line l \<longleftrightarrow> is_line l \<and> \<not> coded_at l 0"

definition context_line :: "u8 list \<Rightarrow> bool" where
  "context_line l \<longleftrightarrow> is_line l \<and> coded_at l 0 \<and> \<not> space_at l 3"

definition terminator_line :: "u8 list \<Rightarrow> bool" where
  "terminator_line l \<longleftrightarrow> is_line l \<and> 5 \<le> length l \<and> coded_at l 0 \<and> space_at l 3"

lemma newline_not_digit: "l ! i = 10 \<Longrightarrow> \<not> digit_at l i"
  by (simp add: digit_at_def byte_char_def isdigit_def code_def)

lemma is_line_last: "is_line l \<Longrightarrow> l ! (length l - 1) = 10"
  by (metis is_line_def last_conv_nth)

lemma is_line_inner:
  assumes "is_line l" "i + 1 < length l"
  shows "l ! i \<noteq> 10"
proof -
  have "butlast l ! i \<in> set (butlast l)" by (rule nth_mem) (use assms(2) in simp)
  then show ?thesis using assms by (auto simp: is_line_def nth_butlast)
qed

lemma last_concat_lines: "\<forall>l \<in> set ls. is_line l \<Longrightarrow> concat ls = [] \<or> last (concat ls) = 10"
  by (induction ls) (auto simp: is_line_def last_append)

lemma digit_at_append:
  "digit_at (xs @ ys) (length xs + j) \<longleftrightarrow> digit_at ys j" "i < length xs \<Longrightarrow> digit_at (xs @ ys) i \<longleftrightarrow> digit_at xs i"
  by (simp_all add: digit_at_def nth_append)

lemma coded_at_shift:
  assumes "xs = [] \<or> last xs = 10"
  shows "coded_at (xs @ ys) (length xs + j) \<longleftrightarrow> coded_at ys j"
proof -
  have "length xs + j = 0 \<or> (xs @ ys) ! (length xs + j - 1) = 10 \<longleftrightarrow> j = 0 \<or> ys ! (j - 1) = 10"
  proof (cases j)
    case 0
    then show ?thesis using assms by (cases "xs = []") (simp_all add: nth_append last_conv_nth)
  next
    case (Suc k)
    then show ?thesis by (simp add: nth_append)
  qed
  then show ?thesis unfolding coded_at_def by (simp only: add.assoc digit_at_append(1))
qed

lemma coded_at_long:
  assumes "is_line l" "coded_at (l @ r) 0"
  shows "4 \<le> length l"
proof (rule ccontr)
  assume short: "\<not> 4 \<le> length l"
  have l: "0 < length l" "\<not> digit_at l (length l - 1)"
    using newline_not_digit [OF is_line_last [OF assms(1)]] assms(1) by (simp_all add: is_line_def)
  have "length l - 1 = 0 \<or> length l - 1 = 0 + 1 \<or> length l - 1 = 0 + 2" using short l(1) by arith
  then have "digit_at (l @ r) (length l - 1)" using assms(2) unfolding coded_at_def by (elim disjE) metis+
  then show False using l digit_at_append(2) [of "length l - 1" l r] by simp
qed

lemma coded_at_start:
  assumes "is_line l"
  shows "coded_at (l @ r) 0 \<longleftrightarrow> coded_at l 0" "coded_at l 0 \<Longrightarrow> 4 \<le> length l"
proof -
  have long: "coded_at l 0 \<Longrightarrow> 4 \<le> length l" using coded_at_long [OF assms, of "[]"] by simp
  have "coded_at (l @ r) 0 \<longleftrightarrow> coded_at l 0" if "4 \<le> length l"
  proof -
    have "0 < length l" "1 < length l" "2 < length l" using that by linarith+
    then show ?thesis unfolding coded_at_def by (simp add: digit_at_append(2))
  qed
  then show "coded_at (l @ r) 0 \<longleftrightarrow> coded_at l 0" using long coded_at_long [OF assms, of r] by blast
  show "coded_at l 0 \<Longrightarrow> 4 \<le> length l" by (rule long)
qed

lemma coded_at_inner:
  assumes "is_line l" "0 < i" "i < length l"
  shows "\<not> coded_at (l @ r) i"
proof -
  have "i - 1 < length l" "l ! (i - 1) \<noteq> 10" using assms is_line_inner [of l "i - 1"] by simp_all
  then have "(l @ r) ! (i - 1) \<noteq> 10" by (simp add: nth_append)
  then show ?thesis using assms(2) by (simp add: coded_at_def)
qed

text \<open>A coded position among whole lines is the start of a coded one.\<close>

lemma coded_at_lines:
  "\<forall>l \<in> set ls. is_line l \<Longrightarrow> i < length (concat ls) \<Longrightarrow> coded_at (concat ls @ r) i \<Longrightarrow>
   \<exists>l \<in> set ls. coded_at l 0 \<and> (concat ls @ r) ! (i + 3) = l ! 3"
proof (induction ls arbitrary: i)
  case Nil
  then show ?case by simp
next
  case (Cons l ls)
  have l: "is_line l" using Cons.prems(1) by simp
  show ?case
  proof (cases "i < length l")
    case True
    then have "i = 0" using coded_at_inner [OF l, of i "concat ls @ r"] Cons.prems(3) by auto
    then have "coded_at l 0" using Cons.prems(3) coded_at_start(1) [OF l, of "concat ls @ r"] by simp
    then show ?thesis using coded_at_start(2) [OF l] \<open>i = 0\<close> by (intro bexI [of _ l]) (simp_all add: nth_append)
  next
    case False
    define j where "j = i - length l"
    have i: "i = length l + j" using False by (simp add: j_def)
    have "l = [] \<or> last l = 10" using l by (simp add: is_line_def)
    from coded_at_shift [OF this, of "concat ls @ r" j]
    have "coded_at (concat ls @ r) j" using Cons.prems(3) i by simp
    then obtain l' where l': "l' \<in> set ls" "coded_at l' 0" "(concat ls @ r) ! (j + 3) = l' ! 3"
      using Cons.IH [of j] Cons.prems(1,2) i by auto
    moreover have "(concat (l # ls) @ r) ! (i + 3) = (concat ls @ r) ! (j + 3)"
      by (simp add: i nth_append)
    ultimately show ?thesis by (intro bexI [of _ l']) simp_all
  qed
qed

text \<open>What the search relies on: the first coded line, the terminator, and nothing behind it.\<close>

definition parted :: "u8 list \<Rightarrow> nat \<Rightarrow> nat \<Rightarrow> bool" where
  "parted resp d p \<longleftrightarrow> d \<le> p \<and> p + 5 \<le> length resp \<and> resp ! (length resp - 1) = 10 \<and>
     coded_at resp d \<and> coded_at resp p \<and> space_at resp (p + 3) \<and>
     (\<forall>i < d. \<not> coded_at resp i) \<and> (\<forall>i < p. coded_at resp i \<longrightarrow> \<not> space_at resp (i + 3)) \<and>
     (\<forall>i < length resp. p < i \<longrightarrow> \<not> coded_at resp i) \<and>
     (\<forall>e < length resp. p + 4 < e \<longrightarrow> resp ! (e - 1) \<noteq> 10)"

lemma lines_parted:
  assumes ds: "\<forall>l \<in> set ds. data_line l" and cs: "\<forall>l \<in> set cs. context_line l" and tm: "terminator_line tm"
  shows "parted (concat ds @ concat cs @ tm) (length (concat ds)) (length (concat ds) + length (concat cs))"
proof -
  let ?d = "length (concat ds)" let ?c = "length (concat cs)" let ?r = "concat ds @ concat cs @ tm"
  have lines: "\<forall>l \<in> set ds. is_line l" "\<forall>l \<in> set cs. is_line l" "is_line tm"
    using assms by (auto simp: data_line_def context_line_def terminator_line_def)
  note shift_d = coded_at_shift [OF last_concat_lines [OF lines(1)], of "concat cs @ tm"]
  note shift_c = coded_at_shift [OF last_concat_lines [OF lines(2)], of tm]
  have at_tm: "coded_at ?r (?d + (?c + j)) \<longleftrightarrow> coded_at tm j" for j by (simp only: shift_d shift_c)
  have nth_tm: "?r ! (?d + (?c + j)) = tm ! j" for j by (simp add: nth_append)
  have len: "5 \<le> length tm" using tm by (simp add: terminator_line_def)
  have "\<not> coded_at ?r i" if "i < ?d" for i
    using coded_at_lines [OF lines(1) that, of "concat cs @ tm"] ds by (auto simp: data_line_def)
  moreover have "coded_at ?r ?d"
  proof (cases cs)
    case Nil
    then show ?thesis using at_tm [of 0] tm by (simp add: terminator_line_def)
  next
    case (Cons l ls)
    then show ?thesis
      using shift_d [of 0] cs coded_at_start(1) [of l "concat ls @ tm"] by (simp add: context_line_def)
  qed
  moreover have "\<not> space_at ?r (i + 3)" if i: "i < ?d + ?c" "coded_at ?r i" for i
  proof -
    have "?d \<le> i" using i(2) calculation(1) not_less by blast
    then obtain j where j: "i = ?d + j" using le_Suc_ex by blast
    have "coded_at (concat cs @ tm) j" using i(2) shift_d [of j] by (simp only: j)
    then obtain l where "l \<in> set cs" "(concat cs @ tm) ! (j + 3) = l ! 3"
      using coded_at_lines [OF lines(2), of j tm] i(1) j by auto
    then show ?thesis using cs j by (simp add: space_at_def context_line_def nth_append)
  qed
  moreover have "\<not> coded_at ?r i" if i: "i < length ?r" "?d + ?c < i" for i
  proof -
    define j where "j = i - ?d - ?c"
    have "i = ?d + (?c + j)" "0 < j" "j < length tm" using i by (auto simp: j_def)
    then show ?thesis using at_tm [of j] coded_at_inner [OF lines(3), of j "[]"] by simp
  qed
  moreover have "?r ! (e - 1) \<noteq> 10" if e: "e < length ?r" "?d + ?c + 4 < e" for e
  proof -
    define j where "j = e - 1 - ?d - ?c"
    have "e - 1 = ?d + (?c + j)" "j + 1 < length tm" using e by (auto simp: j_def)
    then show ?thesis using nth_tm [of j] is_line_inner [OF lines(3)] by simp
  qed
  moreover have "?r ! (length ?r - 1) = 10"
    using nth_tm [of "length tm - 1"] is_line_last [OF lines(3)] len by (simp add: add.assoc)
  moreover have "coded_at ?r (?d + ?c)" "space_at ?r (?d + ?c + 3)"
    using at_tm [of 0] tm nth_tm [of 3] by (simp_all add: terminator_line_def space_at_def add.assoc)
  ultimately show ?thesis using len by (simp add: parted_def)
qed

section \<open>The search in a response that is not there yet\<close>

definition search_ok :: "nat \<Rightarrow> nat \<Rightarrow> nat \<Rightarrow> nat option \<Rightarrow> bool" where
  "search_ok d p pos split \<longleftrightarrow> pos \<le> p \<and> (split = None \<and> pos \<le> d \<or> split = Some d \<and> d \<le> pos)"

definition same_upto :: "nat \<Rightarrow> u8 list \<Rightarrow> u8 list \<Rightarrow> bool" where
  "same_upto e xs ys \<longleftrightarrow> (\<forall>i < e. xs ! i = ys ! i)"

lemma same_coded: "same_upto e xs ys \<Longrightarrow> i + 3 < e \<Longrightarrow> coded_at xs i \<longleftrightarrow> coded_at ys i"
  by (simp add: same_upto_def coded_at_def digit_at_def)

lemma same_space: "same_upto e xs ys \<Longrightarrow> i < e \<Longrightarrow> space_at xs i \<longleftrightarrow> space_at ys i"
  by (simp add: same_upto_def space_at_def)

text \<open>Once the search is past the start of the terminator it never finds it.\<close>

lemma scan_missed:
  "parted resp d p \<Longrightarrow> same_upto e buf resp \<Longrightarrow> e \<le> length resp \<Longrightarrow> p < pos \<Longrightarrow>
   \<exists>pos' > p. scan_response buf e pos split = Inr (pos', split)"
proof (induction buf e pos split rule: scan_response.induct)
  case (1 buf e pos split)
  show ?case
  proof (cases "pos + 3 < e")
    case True
    then have not_coded: "\<not> coded_at buf pos"
      using 1(3-6) same_coded [OF 1(4) True] by (simp add: parted_def)
    have "\<exists>pos' > p. scan_response buf e (pos + 1) split = Inr (pos', split)"
      by (rule 1(2)) (use True not_coded 1(3-6) in simp_all)
    then show ?thesis using True not_coded by (subst scan_response.simps) simp
  next
    case False
    then show ?thesis using 1(6) by (subst scan_response.simps) simp
  qed
qed

lemma scan_found_or_waits:
  "parted resp d p \<Longrightarrow> same_upto e buf resp \<Longrightarrow> e \<le> length resp \<Longrightarrow> search_ok d p pos split \<Longrightarrow>
   (e \<le> p + 4 \<longrightarrow> (\<exists>pos' split'. scan_response buf e pos split = Inr (pos', split') \<and> search_ok d p pos' split')) \<and>
   (e = length resp \<longrightarrow> scan_response buf e pos split = Inl d) \<and>
   (p + 4 < e \<and> e < length resp \<longrightarrow> (\<exists>pos' split'. scan_response buf e pos split = Inr (pos', split') \<and> p < pos'))"
proof (induction buf e pos split rule: scan_response.induct)
  case (1 buf e pos split)
  note P = 1(3) and same = 1(4) and le = 1(5) and ok = 1(6)
  have pd: "d \<le> p" "p + 5 \<le> length resp" "coded_at resp d" "coded_at resp p" "space_at resp (p + 3)"
    "\<forall>i < d. \<not> coded_at resp i" "\<forall>i < p. coded_at resp i \<longrightarrow> \<not> space_at resp (i + 3)"
    using P by (simp_all add: parted_def)
  have le_p: "pos \<le> p" using ok by (simp add: search_ok_def)
  consider (stop) "\<not> pos + 3 < e" | (other) "pos + 3 < e" "\<not> coded_at buf pos" | (coded) "pos + 3 < e" "coded_at buf pos"
    by blast
  then show ?case
  proof cases
    case stop
    then have "e \<le> p + 4" "e \<noteq> length resp" "\<not> p + 4 < e" using le_p pd(2) by linarith+
    then show ?thesis using stop ok by (subst (1) scan_response.simps) simp
  next
    case other
    then have "\<not> coded_at resp pos" using same_coded [OF same other(1)] by simp
    then have "pos \<noteq> d" "pos \<noteq> p" using pd by auto
    then have "search_ok d p (pos + 1) split" using ok by (auto simp: search_ok_def)
    from 1(2) [OF _ other(2) P same le this] have IH: "(e \<le> p + 4 \<longrightarrow> (\<exists>pos' split'. scan_response buf e (pos + 1) split = Inr (pos', split') \<and> search_ok d p pos' split')) \<and>
       (e = length resp \<longrightarrow> scan_response buf e (pos + 1) split = Inl d) \<and>
       (p + 4 < e \<and> e < length resp \<longrightarrow> (\<exists>pos' split'. scan_response buf e (pos + 1) split = Inr (pos', split') \<and> p < pos'))"
      using other(1) by blast
    have eq: "scan_response buf e pos split = scan_response buf e (pos + 1) split"
      using other by (subst scan_response.simps) simp
    show ?thesis unfolding eq by (rule IH)
  next
    case coded
    then have at: "coded_at resp pos" using same_coded [OF same coded(1)] by simp
    then have "d \<le> pos" using pd(6) not_less by blast
    then have split: "(case split of None \<Rightarrow> pos | Some p \<Rightarrow> p) = d" "search_ok d p pos (Some d)"
      using ok le_p by (auto simp: search_ok_def)
    show ?thesis
    proof (cases "pos + 4 \<ge> e")
      case True
      then have "e \<le> p + 4" "e \<noteq> length resp" "\<not> p + 4 < e" using le_p pd(2) by linarith+
      moreover have "scan_response buf e pos split = Inr (pos, Some d)"
        using coded True split(1) by (subst scan_response.simps) simp
      ultimately show ?thesis using split(2) by simp
    next
      case long: False
      have space: "space_at buf (pos + 3) \<longleftrightarrow> space_at resp (pos + 3)" by (rule same_space [OF same coded(1)])
      have lst: "buf ! (e - 1) = resp ! (e - 1)" using same long by (simp add: same_upto_def)
      show ?thesis
      proof (cases "pos = p")
        case True
        have big: "p + 4 < e" using long True by simp
        have "scan_response buf e pos split =
            (if buf ! (e - 1) = 10 then Inl d else scan_response buf e (pos + 1) (Some d))"
          using coded long split(1) space pd(5) True by (subst scan_response.simps) simp
        moreover have "e = length resp \<Longrightarrow> buf ! (e - 1) = 10" using P lst by (simp add: parted_def)
        moreover have "e < length resp \<Longrightarrow> buf ! (e - 1) \<noteq> 10" using P lst big by (simp add: parted_def)
        moreover have "\<exists>pos' > p. scan_response buf e (pos + 1) (Some d) = Inr (pos', Some d)"
          by (rule scan_missed [OF P same le]) (simp add: True)
        ultimately show ?thesis using big by auto
      next
        case False
        then have lt: "pos < p" using le_p by simp
        have no_space: "\<not> space_at buf (pos + 3)" using pd(7) at lt space by simp
        have eq: "scan_response buf e pos split = scan_response buf e (pos + 1) (Some d)"
          using coded long split(1) no_space by (subst scan_response.simps) simp
        have "search_ok d p (pos + 1) (Some d)" using split(2) lt by (simp add: search_ok_def)
        from 1(1) [OF _ coded(2) split(1) [symmetric] long _ P same le this] show ?thesis
          unfolding eq using coded(1) no_space by blast
      qed
    qed
  qed
qed

section \<open>Reading a response in pieces\<close>

text \<open>The first \<open>e\<close> bytes of the response are in the buffer and the rest is still to come.\<close>

definition received :: "u8 list \<Rightarrow> nat \<Rightarrow> u8 list \<Rightarrow> task \<Rightarrow> bool" where
  "received resp e src t \<longleftrightarrow> t_head t = 0 \<and> t_tail t = of_nat e \<and> e \<le> length resp \<and> length (t_buf t) = TASKBUFSIZ \<and>
     same_upto e (t_buf t) resp \<and> src = drop e resp"

lemma received_tail: "received resp e src t \<Longrightarrow> length resp \<le> 4095 \<Longrightarrow> unat (t_tail t) = e"
  by (simp add: received_def unat_of_nat take_bit_nat_eq_self)

lemma received_piece:
  assumes R: "received resp e src t" and len: "length resp \<le> 4095" and k: "e + Suc k \<le> length resp"
  shows "\<exists>src' t'. read_to_taskbuf (Amount k) src t = (TBUF_OK, src', t') \<and> received resp (e + Suc k) src' t'"
proof -
  have r: "t_head t = 0" "t_tail t = of_nat e" "length (t_buf t) = 4096" "same_upto e (t_buf t) resp" "src = drop e resp"
    using R by (simp_all add: received_def)
  have e: "unat (t_tail t) = e" "e < 4096" using received_tail [OF R len] len k by simp_all
  have pos: "unat (t_head t mod 4096) = 0" "unat (t_tail t mod 4096) = e"
    using e by (simp_all add: unat_mod_ring r(1))
  let ?bs = "take (Suc k) (drop e resp)"
  have empty: "t_head t = t_tail t \<longleftrightarrow> e = 0" using e(1) r(1) by (metis unat_0 unat_eq_0)
  have n: "(if t_head t = t_tail t \<or> (0 :: nat) < e then TASKBUFSIZ - e else 0 - e) = 4096 - e"
    using empty by auto
  have room: "Suc k \<le> length resp - e" "min (Suc k) (4096 - e) = Suc k" using k len by linarith+
  then have bs: "sys_read (Amount k) (4096 - e) src = (TBUF_OK, ?bs)" "length ?bs = Suc k"
    by (auto simp add: sys_read_def Let_def r(5))
  let ?t = "t\<lparr>t_buf := put_at (t_buf t) e ?bs, t_tail := t_tail t + of_nat (Suc k)\<rparr>"
  have read: "read_to_taskbuf (Amount k) src t = (TBUF_OK, drop (Suc k) src, ?t)"
    unfolding read_to_taskbuf_def Let_def pos n by (simp only: bs prod.case)
  have fits: "e + length ?bs \<le> length (t_buf t)" unfolding bs(2) r(3) using k len by linarith
  have "put_at (t_buf t) e ?bs ! i = resp ! i" if "i < e + Suc k" for i
    using that nth_put_at [OF fits, of i] r(3,4) bs(2) k len by (auto simp: same_upto_def)
  then have "received resp (e + Suc k) (drop (Suc k) src) ?t"
    using fits k r by (simp add: received_def same_upto_def add.commute)
  then show ?thesis using read by blast
qed

lemma received_all:
  assumes R: "received resp (length resp) src t"
  shows "\<exists>src' t'. read_to_taskbuf (Amount k) src t = (TBUF_END, src', t')"
  using R by (simp add: received_def read_to_taskbuf_def sys_read_def Let_def)

lemma loop_missed:
  assumes P: "parted resp d p" and len: "length resp \<le> 4095"
  shows "received resp e src t \<Longrightarrow> e + sum_list (List.map Suc ks) = length resp \<Longrightarrow> p < pos \<Longrightarrow>
    response_loop (List.map Amount ks @ [Amount 0]) src t pos split = Tracker_Died"
proof (induction ks arbitrary: e src t pos)
  case Nil
  then have R: "received resp (length resp) src t" by simp
  have "unat (t_tail t) = length resp" using received_tail [OF R len] .
  then obtain pos' where "scan_response (t_buf t) (unat (t_tail t)) pos split = Inr (pos', split)"
    using scan_missed [OF P _ _ Nil.prems(3), of "length resp" "t_buf t" split] R by (auto simp: received_def)
  then show ?case using received_all [OF R, of 0] by (subst response_loop.simps) auto
next
  case (Cons k ks)
  have "unat (t_tail t) = e" using received_tail [OF Cons.prems(1) len] .
  then obtain pos' where scan: "scan_response (t_buf t) (unat (t_tail t)) pos split = Inr (pos', split)" "p < pos'"
    using scan_missed [OF P _ _ Cons.prems(3), of e "t_buf t" split] Cons.prems(1) by (auto simp: received_def)
  have "e + Suc k \<le> length resp" using Cons.prems(2) by simp
  from received_piece [OF Cons.prems(1) len this] obtain src' t' where
    read: "read_to_taskbuf (Amount k) src t = (TBUF_OK, src', t')" "received resp (e + Suc k) src' t'" by blast
  have "response_loop (List.map Amount ks @ [Amount 0]) src' t' pos' split = Tracker_Died"
    by (rule Cons.IH [OF read(2) _ scan(2)]) (use Cons.prems(2) in simp)
  then show ?case using scan(1) read(1) by (subst response_loop.simps) simp
qed

definition ends_well :: "nat \<Rightarrow> nat list \<Rightarrow> nat \<Rightarrow> bool" where
  "ends_well e ks limit \<longleftrightarrow> (\<forall>n < length ks. e + sum_list (List.map Suc (take n ks)) \<le> limit)"

lemma ends_well_simps [simp]:
  "ends_well e [] limit" "ends_well e (k # ks) limit \<longleftrightarrow> e \<le> limit \<and> ends_well (e + Suc k) ks limit"
  by (simp_all add: ends_well_def All_less_Suc2 add.assoc)

lemma loop_reads:
  assumes P: "parted resp d p" and len: "length resp \<le> 4095"
  shows "received resp e src t \<Longrightarrow> e + sum_list (List.map Suc ks) = length resp \<Longrightarrow> search_ok d p pos split \<Longrightarrow>
    \<exists>t'. response_loop (List.map Amount ks @ [Amount 0]) src t pos split =
        (if ends_well e ks (p + 4) then Responded d t' [] else Tracker_Died) \<and>
      take (length resp + 1) (t_buf t') = resp @ [0]"
proof (induction ks arbitrary: e src t pos split)
  case Nil
  then have R: "received resp (length resp) src t" by simp
  have tail: "unat (t_tail t) = length resp" using received_tail [OF R len] .
  have b: "length (t_buf t) = 4096" "same_upto (length resp) (t_buf t) resp" "src = []" using R by (auto simp: received_def)
  have "scan_response (t_buf t) (unat (t_tail t)) pos split = Inl d"
    using scan_found_or_waits [OF P b(2) le_refl Nil.prems(3)] tail by simp
  then have loop: "response_loop (List.map Amount [] @ [Amount 0]) src t pos split =
      Responded d (t\<lparr>t_buf := (t_buf t)[length resp := 0]\<rparr>) []"
    using len tail b(3) by (subst response_loop.simps) simp
  have "take (length resp + 1) ((t_buf t)[length resp := 0]) = resp @ [0]"
    using b(1,2) len by (intro nth_equalityI) (auto simp: same_upto_def nth_append nth_list_update less_Suc_eq)
  then show ?case unfolding loop by (intro exI [of _ "t\<lparr>t_buf := (t_buf t)[length resp := 0]\<rparr>"]) simp
next
  case (Cons k ks)
  have tail: "unat (t_tail t) = e" using received_tail [OF Cons.prems(1) len] .
  have b: "same_upto e (t_buf t) resp" "e \<le> length resp" using Cons.prems(1) by (auto simp: received_def)
  have lt: "e < length resp" "e + Suc k \<le> length resp" using Cons.prems(2) by simp_all
  note scan = scan_found_or_waits [OF P b Cons.prems(3)]
  from received_piece [OF Cons.prems(1) len lt(2)] obtain src' t' where
    read: "read_to_taskbuf (Amount k) src t = (TBUF_OK, src', t')" "received resp (e + Suc k) src' t'" by blast
  have step: "response_loop (List.map Amount (k # ks) @ [Amount 0]) src t pos split =
      response_loop (List.map Amount ks @ [Amount 0]) src' t' pos' split'"
    if "scan_response (t_buf t) e pos split = Inr (pos', split')" for pos' split'
    using that read(1) tail by (subst response_loop.simps) simp
  have rest: "e + Suc k + sum_list (List.map Suc ks) = length resp" using Cons.prems(2) by simp
  show ?case
  proof (cases "e \<le> p + 4")
    case True
    then obtain pos' split' where s: "scan_response (t_buf t) e pos split = Inr (pos', split')" "search_ok d p pos' split'"
      using scan by blast
    then show ?thesis using Cons.IH [OF read(2) rest s(2)] True unfolding step [OF s(1)] by simp
  next
    case False
    then obtain pos' split' where s: "scan_response (t_buf t) e pos split = Inr (pos', split')" "p < pos'"
      using scan lt(1) by (auto simp: not_le)
    have "\<exists>b. take (length resp + 1) b = resp @ [0]" by (intro exI [of _ "resp @ [0]"]) simp
    then obtain t'' :: task where "take (length resp + 1) (t_buf t'') = resp @ [0]"
      by (metis task.select_convs(1))
    then show ?thesis using loop_missed [OF P len read(2) rest s(2)] False unfolding step [OF s(1)] by auto
  qed
qed

text \<open>
  C11: a tracker response of at most 4095 bytes - data lines, context lines, a terminator line -
  that arrives in pieces of any sizes is recognised, with the length of its data portion as the
  result and the whole text with a nul behind it in the buffer, exactly when no piece ends
  inside the terminator line behind its fourth character. Otherwise the search has gone past the
  start of the terminator when the rest arrives, and the peer waits for more until the tracker
  closes the connection and then dies.
\<close>

theorem tracker_response_pieces:
  assumes "\<forall>l \<in> set ds. data_line l" "\<forall>l \<in> set cs. context_line l" "terminator_line tm"
    and "length (concat ds @ concat cs @ tm) \<le> 4095"
    and "sum_list (List.map Suc ks) = length (concat ds @ concat cs @ tm)" "length (t_buf t) = TASKBUFSIZ"
  shows "\<exists>t'. read_tracker_response (List.map Amount ks @ [Amount 0]) (concat ds @ concat cs @ tm) t =
      (if \<forall>n < length ks. sum_list (List.map Suc (take n ks)) \<le> length (concat ds @ concat cs) + 4
       then Responded (length (concat ds)) t' [] else Tracker_Died) \<and>
    take (length (concat ds @ concat cs @ tm) + 1) (t_buf t') = concat ds @ concat cs @ tm @ [0]"
proof -
  have "received (concat ds @ concat cs @ tm) 0 (concat ds @ concat cs @ tm) (t\<lparr>t_head := 0, t_tail := 0\<rparr>)"
    using assms(6) by (simp add: received_def same_upto_def)
  from loop_reads [OF lines_parted [OF assms(1-3)] assms(4) this _, of ks 0 None]
  show ?thesis using assms(5) by (simp add: read_tracker_response_def search_ok_def ends_well_def)
qed

theorem tracker_response_pieces_witness:
  "(\<exists>t t'. read_tracker_response [Amount 3, Amount 2, Amount 0] [50, 48, 48, 32, 72, 105, 10] t = Responded 0 t' []) \<and>
   (\<exists>t. read_tracker_response [Amount 5, Amount 0, Amount 0] [50, 48, 48, 32, 72, 105, 10] t = Tracker_Died)"
proof -
  let ?tm = "[50, 48, 48, 32, 72, 105, 10] :: u8 list"
  obtain b :: "u8 list" where b: "length b = 4096" using Ex_list_of_length by blast
  have tm: "terminator_line ?tm"
    by (simp add: terminator_line_def is_line_def coded_at_def digit_at_def space_at_def byte_char_def isdigit_def
        isspace_def code_def)
  let ?t = "task_new b"
  have "\<exists>t'. read_tracker_response [Amount 3, Amount 2, Amount 0] ?tm ?t = Responded 0 t' []"
    using tracker_response_pieces [of "[]" "[]" ?tm "[3, 2]" ?t] tm b by (auto simp: task_new_def All_less_Suc2)
  moreover have "read_tracker_response [Amount 5, Amount 0, Amount 0] ?tm ?t = Tracker_Died"
    using tracker_response_pieces [of "[]" "[]" ?tm "[5, 0]" ?t] tm b by (auto simp: task_new_def All_less_Suc2)
  ultimately show ?thesis by blast
qed

end
