(* ===== verification/P2pPeers.thy ===== *)
theory P2pPeers
  imports P2pTracker
begin

text \<open>
  Tasks of the lab 4 peer (\<open>src/lab4/osppeer.c\<close>) with their peer list: the parser of a peer
  line, \<open>start_download\<close>, \<open>task_pop_peer\<close> and \<open>task_free\<close>.

  Memory that is freed twice or written behind its end is a result of its own. The MD5 state of
  a task is modelled by whether it is still allocated.
\<close>

section \<open>Tasks with a peer list\<close>

record peer =
  peer_alias :: string
  peer_addr :: u32
  peer_port :: int

record peer_task = task +
  filename :: string
  disk_filename :: string
  peer_list :: "peer list"
  peer_open :: bool
  disk_open :: bool
  md5_live :: bool

abbreviation FILENAMESIZ :: nat where "FILENAMESIZ \<equiv> 256"

definition peer_task_new :: "u8 list \<Rightarrow> peer_task" where
  "peer_task_new garbage =
     task.extend (task_new garbage)
       \<lparr>filename = '''', disk_filename = '''', peer_list = [], peer_open = False, disk_open = False, md5_live = True\<rparr>"

text \<open>\<open>task_pop_peer\<close>: \<open>None\<close> when it frees the MD5 state a second time.\<close>

definition task_pop_peer :: "peer_task \<Rightarrow> peer_task option" where
  "task_pop_peer t =
     (if md5_live t
      then Some (t\<lparr>t_head := 0, t_tail := 0, total_written := 0, disk_filename := '''', peer_list := tl (peer_list t),
        peer_open := False, disk_open := False, md5_live := False\<rparr>)
      else None)"

lemma shorter_tail: "tl xs \<noteq> [] \<Longrightarrow> length xs - Suc 0 < length xs"
  by (cases xs) simp_all

datatype freed = Freed | Double_Free

function task_free :: "peer_task \<Rightarrow> freed" where
  "task_free t =
     (case task_pop_peer t of
        None \<Rightarrow> Double_Free
      | Some t' \<Rightarrow> if peer_list t' = [] then Freed else task_free t')"
  by pat_completeness auto
termination
  by (relation "measure (\<lambda>t. length (peer_list t))") (use shorter_tail in \<open>auto simp: task_pop_peer_def split: if_splits\<close>)

declare task_free.simps [simp del]

text \<open>
  Freeing a task is safe exactly when its MD5 state is still allocated and at most one peer
  is left in its list: each further peer frees the state once more, and so does freeing a task of
  which a peer has been popped.
\<close>

theorem task_free_double_frees:
  "task_free t = (if md5_live t \<and> length (peer_list t) \<le> 1 then Freed else Double_Free)"
proof (cases "md5_live t")
  case True
  define t1 where "t1 = the (task_pop_peer t)"
  have t1: "task_pop_peer t = Some t1" "\<not> md5_live t1" "peer_list t1 = tl (peer_list t)"
    using True by (simp_all add: t1_def task_pop_peer_def)
  have "task_free t1 = Double_Free" using t1(2) by (subst task_free.simps) (simp add: task_pop_peer_def)
  moreover have "tl (peer_list t) = [] \<longleftrightarrow> length (peer_list t) \<le> 1" by (cases "peer_list t") simp_all
  ultimately show ?thesis using t1 True by (subst task_free.simps) simp
next
  case False
  then show ?thesis by (subst task_free.simps) (simp add: task_pop_peer_def)
qed

section \<open>Peer lines\<close>

definition text_of :: "u8 list \<Rightarrow> string" where
  "text_of bs = List.map byte_char bs"

definition bytes_of :: "string \<Rightarrow> u8 list" where
  "bytes_of s = List.map (\<lambda>c. of_nat (code c)) s"

definition parse_peer :: "string \<Rightarrow> string \<Rightarrow> peer option" where
  "parse_peer beyond s =
     (case osp2p_snscanf beyond s ''PEER %s %I:%d'' of
        Matched [Text a, Address i, Number p] \<Rightarrow>
          if p > 0 \<and> p \<le> 65535 then Some \<lparr>peer_alias = a, peer_addr = i, peer_port = p\<rparr> else None
      | _ \<Rightarrow> None)"

text \<open>
  The loop of \<open>start_download\<close> over the lines of the data portion; \<open>None\<close> is \<open>die\<close>. Every peer is
  put at the front of the list.
\<close>

function peers_loop :: "string \<Rightarrow> string \<Rightarrow> peer list \<Rightarrow> peer list option" where
  "peers_loop beyond data peers =
     (let l = takeWhile (\<lambda>c. c \<noteq> CHR 0x0A) data in
      if l = data then (if data = [] then Some peers else None)
      else (case parse_peer (drop (length l) data @ beyond) l of
          None \<Rightarrow> None
        | Some p \<Rightarrow> peers_loop beyond (drop (length l + 1) data) (p # peers)))"
  by pat_completeness auto
termination
  by (relation "measure (\<lambda>(_, data, _). length data)") (auto intro!: diff_less dest: length_pos_if_in_set)

declare peers_loop.simps [simp del]

text \<open>The copy of the file name, \<open>None\<close> when its nul is stored behind the array.\<close>

definition copy_filename :: "string \<Rightarrow> string option" where
  "copy_filename name =
     (if length name > FILENAMESIZ then Some (take (FILENAMESIZ - 1) name)
      else if length name = FILENAMESIZ then None else Some name)"

datatype start = Started string peer_task | Refused string | Start_Died | Start_Overflow | Start_Waiting

definition start_download :: "answer list \<Rightarrow> u8 list \<Rightarrow> peer_task \<Rightarrow> u8 list \<Rightarrow> string \<Rightarrow> start" where
  "start_download as src tracker garbage name =
     (let want = the (writef (''WANT %s'' @ [CHR 0x0A]) [Text name]) in
      case read_tracker_response as src (task.truncate tracker) of
        Tracker_Died \<Rightarrow> Start_Died
      | Stray_Write \<Rightarrow> Start_Overflow
      | Response_Waiting \<Rightarrow> Start_Waiting
      | Responded messagepos t' _ \<Rightarrow>
          if t_buf t' ! messagepos \<noteq> 50 then Refused want
          else (case copy_filename name of
              None \<Rightarrow> Start_Overflow
            | Some f \<Rightarrow>
                (case peers_loop (text_of (drop messagepos (t_buf t'))) (text_of (take messagepos (t_buf t'))) [] of
                   None \<Rightarrow> Start_Died
                 | Some ps \<Rightarrow> Started want ((peer_task_new garbage)\<lparr>filename := f, peer_list := ps\<rparr>))))"

section \<open>A list of peers, written and read\<close>

definition peer_items :: "item list" where
  "peer_items = List.map Literal ''PEER'' @ [Blank CHR '' '', Word_Item, Blank CHR '' '', Address_Item,
     Literal CHR '':'', Number_Item]"

definition peer_args :: "peer \<Rightarrow> arg list" where
  "peer_args p = [Text (peer_alias p), Address (peer_addr p), Number (peer_port p)]"

definition peer_line :: "peer \<Rightarrow> string" where
  "peer_line p = message_text peer_items (peer_args p) @ [CHR 0x0A]"

definition peer_ok :: "peer \<Rightarrow> bool" where
  "peer_ok p \<longleftrightarrow> peer_alias p \<noteq> [] \<and> CHR 0x00 \<notin> set (peer_alias p) \<and> 0 < peer_port p \<and> peer_port p \<le> 65535"

lemma peer_format: "format_of peer_items = ''PEER %s %I:%d''"
  by (simp add: peer_items_def)

lemma peer_fits: "peer_ok p \<Longrightarrow> fits peer_items (peer_args p)"
  by (simp add: peer_ok_def peer_items_def peer_args_def starts_blank_def ends_number_def isspace_def isdigit_def
      code_def readable_max_def)

lemma writef_append_newline:
  "writef f as = Some w \<Longrightarrow> last f \<noteq> CHR ''%'' \<Longrightarrow> f \<noteq> [] \<Longrightarrow> writef (f @ [CHR 0x0A]) as = Some (w @ [CHR 0x0A])"
  by (induction f as arbitrary: w rule: writef.induct)
    (auto split: if_splits list.splits arg.splits simp: last_ConsR)

lemma parse_peer_line:
  assumes "peer_ok p"
  shows "parse_peer beyond (message_text peer_items (peer_args p)) = Some p"
  using scanf_message [OF peer_fits [OF assms]] assms
  by (simp add: parse_peer_def osp2p_snscanf_def peer_format peer_args_def peer_ok_def)

lemma newline_facts: "\<not> isdigit (CHR 0x0A)" "isspace (CHR 0x0A)" "\<not> plain_char (CHR 0x0A)"
  by (simp_all add: isdigit_def isspace_def code_def plain_char_def isalnum_def)

lemma digits_text_digits: "\<forall>c \<in> set (digits_text n). isdigit c"
proof (induction n rule: digits_text.induct)
  case (1 n)
  then show ?case by (cases "n < 10") (simp_all add: digits_text_small digits_text_step not_less)
qed

lemma newline_not_written: "CHR 0x0A \<notin> set (digits_text n)" "CHR 0x0A \<notin> set (addr_text a)" "CHR 0x0A \<notin> set (http_quote s)"
proof -
  show d: "CHR 0x0A \<notin> set (digits_text n)" for n using digits_text_digits [of n] newline_facts(1) by blast
  show "CHR 0x0A \<notin> set (addr_text a)" by (simp add: addr_text_def Let_def d)
  have "hex_digit n \<noteq> CHR 0x0A" if "n < 16" for n
    using hex_digit_facts [OF that] by (auto simp: isxdigit_def isdigit_def code_def)
  then have h: "n < 16 \<Longrightarrow> CHR 0x0A \<noteq> hex_digit n" for n by metis
  have c: "CHR 0x0A \<noteq> hex_digit (code c div 16)" "CHR 0x0A \<noteq> hex_digit (code c mod 16)" for c
    by (rule h, simp add: code_def of_char_def)+
  show "CHR 0x0A \<notin> set (http_quote s)"
    using newline_facts(3) by (induction s) (auto simp: c)
qed

lemma newline_not_in_peer: "CHR 0x0A \<notin> set (message_text peer_items (peer_args p))"
  by (simp add: peer_items_def peer_args_def newline_not_written)

lemma peers_loop_lines:
  "\<forall>p \<in> set ps. peer_ok p \<Longrightarrow> peers_loop beyond (concat (List.map peer_line ps)) peers = Some (rev ps @ peers)"
proof (induction ps arbitrary: peers)
  case Nil
  then show ?case by (subst peers_loop.simps) simp
next
  case (Cons p ps)
  let ?m = "message_text peer_items (peer_args p)" and ?rest = "concat (List.map peer_line ps)"
  have "takeWhile (\<lambda>c. c \<noteq> CHR 0x0A) (?m @ CHR 0x0A # ?rest) = ?m"
    using newline_not_in_peer [of p] by (subst takeWhile_append2) auto
  then have "peers_loop beyond (?m @ CHR 0x0A # ?rest) peers = peers_loop beyond ?rest (p # peers)"
    using parse_peer_line [of p] Cons.prems by (subst peers_loop.simps) (simp add: Let_def)
  moreover have "concat (List.map peer_line (p # ps)) = ?m @ CHR 0x0A # ?rest" by (simp add: peer_line_def)
  moreover have "peers_loop beyond ?rest (p # peers) = Some (rev ps @ p # peers)"
    by (rule Cons.IH) (use Cons.prems in simp)
  ultimately show ?case by simp
qed

lemma byte_char_code: "byte_char (of_nat (code c)) = c"
proof -
  have "code c < 2 ^ 8" by (simp add: code_def of_char_def)
  then show ?thesis by (simp add: byte_char_def unat_of_nat take_bit_nat_eq_self)
qed

lemma text_of_bytes [simp]: "text_of (bytes_of s) = s" "length (bytes_of s) = length s"
  by (simp_all add: text_of_def bytes_of_def comp_def byte_char_code)

lemma bytes_of_concat: "bytes_of (concat ss) = concat (List.map bytes_of ss)"
  by (induction ss) (simp_all add: bytes_of_def)

lemma peer_line_data: "data_line (bytes_of (peer_line p))"
proof -
  let ?m = "message_text peer_items (peer_args p)"
  have "of_nat (code c) \<noteq> (10 :: u8)" if "c \<in> set ?m" for c
  proof
    assume "of_nat (code c) = (10 :: u8)"
    then have "byte_char (of_nat (code c)) = byte_char 10" by simp
    moreover have "byte_char 10 = CHR 0x0A" by code_simp
    ultimately have "c = CHR 0x0A" unfolding byte_char_code by simp
    then show False using newline_not_in_peer that by blast
  qed
  then have "is_line (bytes_of (peer_line p))"
    by (auto simp: is_line_def bytes_of_def peer_line_def butlast_append code_def)
  moreover have "\<not> coded_at (bytes_of (peer_line p)) 0"
    by (simp add: coded_at_def digit_at_def peer_line_def peer_items_def bytes_of_def byte_char_def isdigit_def code_def)
  ultimately show ?thesis by (simp add: data_line_def)
qed


definition sample_peer :: peer where
  "sample_peer = \<lparr>peer_alias = ''a'', peer_addr = 0x01020304, peer_port = 80\<rparr>"


end
