(* ===== verification/P2pDownload.thy ===== *)
theory P2pDownload
  imports P2pPeers
begin

text \<open>
  \<open>task_download\<close> and \<open>task_upload\<close> of the lab 4 peer (\<open>src/lab4/osppeer.c\<close>).

  What the peers, the disk and the operating system do is a parameter: an \<open>attempt\<close> per peer that
  is contacted, and the \<open>world\<close> an upload sees. The calls that others can observe are \<open>event\<close>s.
  The comparison of the checksum behind the query is not modelled.
\<close>

section \<open>Downloading from one peer after the other\<close>

datatype event = Sent string | Created string | Removed string

datatype open_result = Opened | Name_Exists | Open_Error

record attempt =
  att_connects :: "bool list"
  att_opens :: "nat \<Rightarrow> open_result"
  att_transfer :: "(answer \<times> answer) list"
  att_source :: "u8 list"

definition disk_name :: "string \<Rightarrow> nat \<Rightarrow> string" where
  "disk_name f i = (if i = 0 then f else f @ ''~'' @ digits_text i @ ''~'')"

text \<open>The choice of a name that does not exist yet among fifty.\<close>

datatype opened = Disk_Open string | Disk_Error string | Disk_Too_Many | Disk_Overrun

function open_loop :: "(nat \<Rightarrow> open_result) \<Rightarrow> string \<Rightarrow> nat \<Rightarrow> opened" where
  "open_loop opens f i =
     (if i \<ge> 50 then Disk_Too_Many
      else if length (disk_name f i) \<ge> FILENAMESIZ then Disk_Overrun
      else
        (case opens i of
           Opened \<Rightarrow> Disk_Open (disk_name f i)
         | Open_Error \<Rightarrow> Disk_Error (disk_name f i)
         | Name_Exists \<Rightarrow> open_loop opens f (i + 1)))"
  by pat_completeness auto
termination
  by (relation "measure (\<lambda>(_, _, i). 50 - i)") auto

declare open_loop.simps [simp del]

text \<open>
  The loop that copies the name into the checksum query: its step \<open>+i\<close> has no effect, so \<open>i\<close>
  stays what it is.
\<close>

partial_function (option) query_loop :: "string \<Rightarrow> nat \<Rightarrow> string \<Rightarrow> string option" where
  "query_loop name i query = (if i < length name then query_loop name i (query[4 + i := name ! i]) else Some query)"

text \<open>The query for the checksum; memory fresh from \<open>malloc\<close> is taken as zero.\<close>

definition checksum_query :: "string \<Rightarrow> string option" where
  "checksum_query name =
     map_option (\<lambda>q. take (4 + length name) q @ '' %s'' @ [CHR 0x0A])
       (query_loop name 0 (''MD5 '' @ replicate (length name + 4) (CHR 0x00)))"

definition get_request :: "int \<Rightarrow> string \<Rightarrow> string" where
  "get_request evil f =
     (if evil = 1 then the (writef (''GET %s OSP2P'' @ [CHR 0x0A]) [Text ''''])
      else if evil = 3 then the (writef (''GET ../%s OSP2P'' @ [CHR 0x0A]) [Text f])
      else the (writef (''GET %s OSP2P'' @ [CHR 0x0A]) [Text f]))"

text \<open>Evil mode 4 opens connections until one fails; \<open>False\<close> when none has failed yet.\<close>

fun flood_loop :: "bool list \<Rightarrow> string \<Rightarrow> event list \<Rightarrow> bool \<times> event list" where
  "flood_loop [] request ev = (False, ev)"
| "flood_loop (True # cs) request ev = flood_loop cs request (ev @ [Sent request])"
| "flood_loop (False # cs) request ev = (True, ev)"

datatype outcome = No_Peers | Too_Many_Files | Freed_Twice | Name_Overrun | Download_Waiting | Checking string

datatype peer_end = Ends outcome | Try_Next peer_task

definition free_outcome :: "outcome \<Rightarrow> peer_task \<Rightarrow> outcome" where
  "free_outcome out t = (case task_free t of Freed \<Rightarrow> out | Double_Free \<Rightarrow> Freed_Twice)"

text \<open>
  One round of \<open>task_download\<close> with a peer that is not this peer itself: \<open>None\<close> when it never
  leaves the query loop, \<open>Try_Next\<close> for the jump to \<open>try_again\<close>.
\<close>

definition download_peer ::
    "int \<Rightarrow> attempt \<Rightarrow> peer_task \<Rightarrow> event list \<Rightarrow> (event list \<times> peer_end) option" where
  "download_peer evil a t ev =
     (if evil = 4 then
        (let (failed, ev1) = flood_loop (att_connects a) (the (writef (''GET %s OSP2P'' @ [CHR 0x0A]) [Text (filename t)])) ev
         in Some (ev1, if failed then Try_Next (t\<lparr>peer_open := False\<rparr>) else Ends Download_Waiting))
      else
        (case att_connects a of
           [] \<Rightarrow> Some (ev, Ends Download_Waiting)
         | False # _ \<Rightarrow> Some (ev, Try_Next t)
         | True # _ \<Rightarrow>
             let ev1 = ev @ [Sent (get_request evil (filename t))] in
             (case open_loop (att_opens a) (filename t) 0 of
                Disk_Overrun \<Rightarrow> Some (ev1, Ends Name_Overrun)
              | Disk_Error name \<Rightarrow> Some (ev1, Try_Next (t\<lparr>peer_open := True, disk_filename := name\<rparr>))
              | Disk_Too_Many \<Rightarrow>
                  Some (ev1, Ends (free_outcome Too_Many_Files (t\<lparr>peer_open := True, disk_filename := disk_name (filename t) 49\<rparr>)))
              | Disk_Open name \<Rightarrow>
                  let t1 = t\<lparr>peer_open := True, disk_open := True, disk_filename := name\<rparr>;
                      ev2 = ev1 @ [Created name] in
                  (case download_loop (att_transfer a) (att_source a) (task.truncate t1) [] of
                     Waiting \<Rightarrow> Some (ev2, Ends Download_Waiting)
                   | Try_again \<Rightarrow> Some (ev2, Try_Next t1)
                   | Complete disk b \<Rightarrow>
                       let t2 = t1\<lparr>t_buf := t_buf b, t_head := t_head b, t_tail := t_tail b, total_written := total_written b\<rparr> in
                       if total_written t2 > 0 then map_option (\<lambda>q. (ev2, Ends (Checking q))) (checksum_query name)
                       else Some (ev2, Try_Next t2)))))"

lemma download_peer_keeps:
  assumes "download_peer evil a t ev = Some (ev', Try_Next t')"
  shows "peer_list t' = peer_list t \<and> md5_live t' = md5_live t \<and> filename t' = filename t"
  using assms unfolding download_peer_def Let_def
  by (auto split: if_splits list.splits bool.splits opened.splits transfer.splits prod.splits)

text \<open>
  The next peer: this peer itself is skipped; otherwise an attempt is used up. \<open>here\<close> is the
  address and the port this peer listens on.
\<close>

definition download_next ::
    "int \<Rightarrow> u32 \<times> int \<Rightarrow> attempt list \<Rightarrow> peer_task \<Rightarrow> peer \<Rightarrow> event list \<Rightarrow> (attempt list \<times> event list \<times> peer_end) option" where
  "download_next evil here as t p ev =
     (if (peer_addr p, peer_port p) = here then Some (as, ev, Try_Next t)
      else (case as of
          [] \<Rightarrow> Some ([], ev, Ends Download_Waiting)
        | a # as' \<Rightarrow> map_option (\<lambda>(ev1, r). (as', ev1, r)) (download_peer evil a t ev)))"

lemma download_next_keeps:
  "download_next evil here as t p ev = Some (as', ev', Try_Next t') \<Longrightarrow>
   peer_list t' = peer_list t \<and> md5_live t' = md5_live t \<and> filename t' = filename t"
  by (auto simp: download_next_def split: if_splits list.splits dest: download_peer_keeps)

definition remove_partial :: "peer_task \<Rightarrow> event list \<Rightarrow> event list" where
  "remove_partial t ev = (if disk_filename t \<noteq> '''' then ev @ [Removed (disk_filename t)] else ev)"

function task_download ::
    "int \<Rightarrow> u32 \<times> int \<Rightarrow> attempt list \<Rightarrow> peer_task \<Rightarrow> event list \<Rightarrow> (event list \<times> outcome) option" where
  "task_download evil here as t ev =
     (case peer_list t of
        [] \<Rightarrow> Some (ev, free_outcome No_Peers t)
      | p # _ \<Rightarrow>
          (case download_next evil here as t p ev of
             None \<Rightarrow> None
           | Some (as', ev1, Ends out) \<Rightarrow> Some (ev1, out)
           | Some (as', ev1, Try_Next t1) \<Rightarrow>
               (case task_pop_peer t1 of
                  None \<Rightarrow> Some (remove_partial t1 ev1, Freed_Twice)
                | Some t2 \<Rightarrow> task_download evil here as' t2 (remove_partial t1 ev1))))"
  by pat_completeness auto
termination
proof (relation "measure (\<lambda>(_, _, _, t, _). length (peer_list t))", goal_cases)
  case (2 evil here as t ev p ps r as' rr ev1 e t1 t2)
  have "peer_list t1 = peer_list t" using 2(2-5) download_next_keeps by blast
  moreover have "peer_list t2 = tl (peer_list t1)" using 2(6) by (auto simp: task_pop_peer_def split: if_splits)
  ultimately show ?case using 2(1) by simp
qed simp

declare task_download.simps [simp del]

section \<open>How a download ends\<close>

lemma query_loop_result: "query_loop name i query = Some q \<Longrightarrow> length name \<le> i"
  by (rule query_loop.raw_induct [where P = "\<lambda>name i query q. length name \<le> i", rotated])
    (auto split: if_splits)

lemma checksum_query_hangs: "name \<noteq> '''' \<Longrightarrow> checksum_query name = None"
  using query_loop_result [of name 0]
  by (cases "query_loop name 0 (''MD5 '' @ replicate (length name + 4) (CHR 0x00))") (auto simp: checksum_query_def)

lemma disk_name_nonempty: "f \<noteq> '''' \<Longrightarrow> disk_name f i \<noteq> ''''"
  by (simp add: disk_name_def)

lemma open_loop_name: "open_loop opens f i = Disk_Open name \<Longrightarrow> \<exists>j. name = disk_name f j"
proof (induction opens f i rule: open_loop.induct)
  case (1 opens f i)
  then show ?case
    by (subst (asm) (2) open_loop.simps) (auto split: if_splits open_result.splits)
qed

lemma opened_name_hangs:
  assumes "f \<noteq> ''''" "open_loop opens f i = Disk_Open name"
  shows "checksum_query name = None"
proof -
  obtain j where "name = disk_name f j" using open_loop_name [OF assms(2)] by (rule exE)
  then show ?thesis using disk_name_nonempty [OF assms(1)] by (simp add: checksum_query_hangs)
qed

lemma download_peer_ends:
  assumes f: "filename t \<noteq> ''''" and d: "download_peer evil a t ev = Some (ev', Ends out)"
  shows "out = Name_Overrun \<or> out = Download_Waiting \<or> out = Freed_Twice \<or>
    out = Too_Many_Files \<and> md5_live t \<and> length (peer_list t) \<le> 1"
  using d unfolding download_peer_def Let_def free_outcome_def task_free_double_frees
  by (auto split: if_splits list.splits bool.splits opened.splits transfer.splits prod.splits
      simp: opened_name_hangs [OF f])

lemma download_next_ends:
  assumes "filename t \<noteq> ''''" "download_next evil here as t p ev = Some (as', ev', Ends out)"
  shows "out = Name_Overrun \<or> out = Download_Waiting \<or> out = Freed_Twice \<or>
    out = Too_Many_Files \<and> md5_live t \<and> length (peer_list t) \<le> 1"
proof (cases as)
  case Nil
  then show ?thesis using assms(2) by (auto simp: download_next_def split: if_splits)
next
  case (Cons a as1)
  then have "download_peer evil a t ev = Some (ev', Ends out)"
    using assms(2) by (auto simp: download_next_def split: if_splits)
  then show ?thesis by (rule download_peer_ends [OF assms(1)])
qed

text \<open>A task whose MD5 state is gone cannot end well.\<close>

lemma dead_task_download:
  assumes "filename t \<noteq> ''''" "\<not> md5_live t" "task_download evil here as t ev = Some (ev', out)"
  shows "out = Name_Overrun \<or> out = Download_Waiting \<or> out = Freed_Twice"
proof (cases "peer_list t")
  case Nil
  then show ?thesis using assms(2,3) by (simp add: task_download.simps free_outcome_def task_free_double_frees)
next
  case (Cons p ps)
  then obtain as' ev1 r where n: "download_next evil here as t p ev = Some (as', ev1, r)"
    using assms(3) by (cases "download_next evil here as t p ev") (auto simp: task_download.simps)
  show ?thesis
  proof (cases r)
    case (Ends out')
    then have "out' = out" using assms(3) Cons n by (simp add: task_download.simps)
    then show ?thesis using download_next_ends [OF assms(1), of evil here as p ev as' ev1 out] n Ends assms(2) by blast
  next
    case (Try_Next t1)
    then have "\<not> md5_live t1" using n download_next_keeps assms(2) by blast
    then have "task_pop_peer t1 = None" by (simp add: task_pop_peer_def)
    then show ?thesis using assms(3) Cons n Try_Next by (simp add: task_download.simps)
  qed
qed


text \<open>The number of bytes written is counted exactly.\<close>

lemma download_loop_total:
  "download_loop as src t disk = Complete disk' t' \<Longrightarrow> ring_ok t \<Longrightarrow> total_written t = of_nat (length disk) \<Longrightarrow>
   total_written t' = of_nat (length disk')"
proof (induction as arbitrary: src t disk)
  case (Cons ab as)
  obtain a b where ab: "ab = (a, b)" by (cases ab)
  obtain r src1 t1 where r: "read_to_taskbuf a src t = (r, src1, t1)" by (rule prod_cases3)
  obtain r2 out t2 where w: "write_from_taskbuf b t1 = (r2, out, t2)" by (rule prod_cases3)
  note q = read_to_taskbuf_queue(1-3) [OF Cons.prems(2) r]
  note q2 = write_from_taskbuf_queue(1-3) [OF q(1) w]
  have tot: "total_written t2 = of_nat (length (disk @ out))" using q(3) q2(3) Cons.prems(3) by simp
  show ?case using Cons.prems(1,3) q(3) Cons.IH [OF _ q2(1) tot] r w
    by (auto simp: ab Let_def split: if_splits)
qed simp

text \<open>Once data is on the disk, the checksum query is built for ever.\<close>

lemma download_with_data_hangs:
  assumes "peer_list t = p # ps" "(peer_addr p, peer_port p) \<noteq> here" "evil \<noteq> 4" "filename t \<noteq> ''''"
    and "att_connects a = True # cs" "open_loop (att_opens a) (filename t) 0 = Disk_Open name"
    and "ring_ok (task.truncate t)" "t_head t = t_tail t" "total_written t = 0"
    and "download_loop (att_transfer a) (att_source a) (task.truncate t) [] = Complete data b"
    and "data \<noteq> []" "length (att_source a) < 2 ^ 64"
  shows "task_download evil here (a # as) t ev = None"
proof -
  have trunc: "task.truncate (t\<lparr>peer_open := True, disk_open := True, disk_filename := name\<rparr>) = task.truncate t"
    by (simp add: task.truncate_def)
  have start: "queue (task.truncate t) = []" "total_written (task.truncate t) = 0"
    using assms(8,9) by (simp_all add: queue_def fill_level_def task.truncate_def)
  have "data = [] @ queue (task.truncate t) @ att_source a \<and> length data \<le> 2147483648"
    by (rule download_loop_complete [OF assms(10,7)]) (use start assms(12) in simp_all)
  then have "length data \<le> 2147483648" by blast
  then have "(of_nat (length data) :: 64 word) > 0"
    using assms(11) by (simp add: word_less_nat_alt unat_of_nat take_bit_nat_eq_self)
  moreover have "total_written b = of_nat (length data)"
    by (rule download_loop_total [OF assms(10,7)]) (simp add: start)
  moreover have "checksum_query name = None"
    by (rule opened_name_hangs [OF assms(4,6)])
  ultimately have "download_peer evil a t ev = None"
    using assms(3,5,6,10) by (simp add: download_peer_def Let_def trunc)
  then show ?thesis using assms(1,2) by (simp add: task_download.simps download_next_def)
qed


definition sample_download :: "u8 list \<Rightarrow> peer_task" where
  "sample_download g = (peer_task_new g)\<lparr>filename := ''f'', peer_list := [sample_peer]\<rparr>"

lemma sample_download_facts [simp]:
  "filename (sample_download g) = ''f''" "peer_list (sample_download g) = [sample_peer]"
  "task.truncate (sample_download g) = task_new g" "md5_live (sample_download g)" "disk_filename (sample_download g) = ''''"
  "t_head (sample_download g) = 0" "t_tail (sample_download g) = 0" "total_written (sample_download g) = 0"
  by (simp_all add: sample_download_def peer_task_new_def task_new_def task.defs)



end
