(* ===== verification/P2pUpload.thy ===== *)
theory P2pUpload
  imports P2pDownload
begin

text \<open>
  \<open>task_upload\<close> of the lab 4 peer (\<open>src/lab4/osppeer.c\<close>): the request is read and scanned, the
  file name checked, and the file sent. The system calls \<open>getcwd\<close>, \<open>realpath\<close> and \<open>open\<close> are
  functions of a \<open>world\<close>; the contents of an endless device are as much of it as is read. A task
  for an upload has no peers and a live MD5 state, so its \<open>task_free\<close> is safe.
\<close>

section \<open>The request\<close>

datatype request = Request task | Request_Error | Request_Waiting

fun request_loop :: "answer list \<Rightarrow> u8 list \<Rightarrow> task \<Rightarrow> request" where
  "request_loop [] src t = Request_Waiting"
| "request_loop (a # as) src t =
     (let (r, src', t') = read_to_taskbuf a src t in
      if r = TBUF_ERROR then Request_Error
      else if r = TBUF_END \<or> (t_tail t' \<noteq> 0 \<and> t_buf t' ! (unat (t_tail t') - 1) = 10) then Request t'
      else request_loop as src' t')"

record world =
  getcwd :: "string option"
  realpath :: "string \<Rightarrow> string option"
  open_file :: "string \<Rightarrow> u8 list option"

text \<open>\<open>strncmp\<close> of the resolved path with the working directory, over the length of the latter.\<close>

definition in_directory :: "world \<Rightarrow> string \<Rightarrow> bool" where
  "in_directory w name =
     (case getcwd w of
        None \<Rightarrow> False
      | Some d \<Rightarrow> (case realpath w name of None \<Rightarrow> False | Some path \<Rightarrow> take (length d) path = d))"

text \<open>Whether the scan has written a string behind the 256 bytes of \<open>filename\<close>.\<close>

definition overlong :: "arg list \<Rightarrow> bool" where
  "overlong outs = (case outs of Text s # _ \<Rightarrow> FILENAMESIZ \<le> length s | _ \<Rightarrow> False)"

definition c_string :: "string \<Rightarrow> string" where
  "c_string s = takeWhile (\<lambda>c. c \<noteq> CHR 0x00) s"

datatype upload = Served "u8 list" | Rejected | Aborted | Upload_Waiting | Array_Overrun

text \<open>The checks on the name, and the transfer.\<close>

definition upload_file :: "int \<Rightarrow> world \<Rightarrow> (answer \<times> answer) list \<Rightarrow> string \<Rightarrow> task \<Rightarrow> upload" where
  "upload_file evil w io name t =
     (if length name > FILENAMESIZ then Rejected
      else if \<not> in_directory w name then Rejected
      else
        (case open_file w (if evil = 2 then ''/dev/zero'' else name) of
           None \<Rightarrow> Rejected
         | Some content \<Rightarrow>
             (case upload_loop io content t [] of
                Waiting \<Rightarrow> Upload_Waiting
              | Try_again \<Rightarrow> Aborted
              | Complete sent _ \<Rightarrow> Served sent)))"

definition task_upload :: "int \<Rightarrow> world \<Rightarrow> answer list \<Rightarrow> (answer \<times> answer) list \<Rightarrow> u8 list \<Rightarrow> task \<Rightarrow> upload" where
  "task_upload evil w as io src t =
     (case request_loop as src t of
        Request_Waiting \<Rightarrow> Upload_Waiting
      | Request_Error \<Rightarrow> Rejected
      | Request t1 \<Rightarrow>
          let n = unat (t_tail t1) in
          (case osp2p_snscanf (text_of (drop n (t_buf t1))) (text_of (take n (t_buf t1))) (''GET %s OSP2P'' @ [CHR 0x0A]) of
             Overrun \<Rightarrow> Array_Overrun
           | Mismatch outs \<Rightarrow> if overlong outs then Array_Overrun else Rejected
           | Matched outs \<Rightarrow>
               if overlong outs then Array_Overrun
               else upload_file evil w io (case outs of Text s # _ \<Rightarrow> c_string s | _ \<Rightarrow> '''')
                      (t1\<lparr>t_head := 0, t_tail := 0\<rparr>)))"

section \<open>A request in pieces\<close>

definition get_items :: "item list" where
  "get_items = List.map Literal ''GET'' @ [Blank CHR '' '', Word_Item, Blank CHR '' ''] @ List.map Literal ''OSP2P'' @ [Blank CHR 0x0A]"

definition get_message :: "string \<Rightarrow> string" where
  "get_message s = message_text get_items [Text s]"

lemma get_format: "format_of get_items = ''GET %s OSP2P'' @ [CHR 0x0A]"
  by (simp add: get_items_def)

lemma get_fits: "s \<noteq> '''' \<Longrightarrow> CHR 0x00 \<notin> set s \<Longrightarrow> fits get_items [Text s]"
  by (simp add: get_items_def starts_blank_def isspace_def code_def)

lemma get_message_eq: "get_message s = ''GET '' @ http_quote s @ '' OSP2P'' @ [CHR 0x0A]"
  by (simp add: get_message_def get_items_def)

lemma byte_newline: "of_nat (code c) = (10 :: u8) \<longleftrightarrow> c = CHR 0x0A"
proof
  assume "of_nat (code c) = (10 :: u8)"
  then have "byte_char (of_nat (code c)) = byte_char 10" by simp
  moreover have "byte_char 10 = CHR 0x0A" by code_simp
  ultimately show "c = CHR 0x0A" unfolding byte_char_code by simp
qed (simp add: code_def)

lemma bytes_of_is_line:
  assumes "CHR 0x0A \<notin> set m"
  shows "is_line (bytes_of (m @ [CHR 0x0A]))"
proof -
  have "of_nat (code c) \<noteq> (10 :: u8)" if "c \<in> set m" for c
    unfolding byte_newline using that assms by auto
  then have "10 \<notin> set (bytes_of m)" by (auto simp: bytes_of_def)
  moreover have "bytes_of (m @ [CHR 0x0A]) = bytes_of m @ [10]" by (simp add: bytes_of_def code_def)
  ultimately show ?thesis by (simp add: is_line_def)
qed

lemma get_message_line: "is_line (bytes_of (get_message s))"
proof -
  have eq: "get_message s = (''GET '' @ http_quote s @ '' OSP2P'') @ [CHR 0x0A]" by (simp add: get_message_eq)
  show ?thesis unfolding eq by (rule bytes_of_is_line) (simp add: newline_not_written)
qed

lemma request_pieces:
  assumes "is_line req" "length req \<le> 4095"
  shows "received req e src t \<Longrightarrow> e + sum_list (List.map Suc ks) = length req \<Longrightarrow> ks \<noteq> [] \<Longrightarrow>
    \<exists>t'. request_loop (List.map Amount ks) src t = Request t' \<and> received req (length req) [] t'"
proof (induction ks arbitrary: e src t)
  case (Cons k ks)
  have le: "e + Suc k \<le> length req" using Cons.prems(2) by simp
  from received_piece [OF Cons.prems(1) assms(2) this] obtain src' t' where
    read: "read_to_taskbuf (Amount k) src t = (TBUF_OK, src', t')" "received req (e + Suc k) src' t'" by blast
  have tail: "unat (t_tail t') = e + Suc k" by (rule received_tail [OF read(2) assms(2)])
  have same: "t_buf t' ! (e + k) = req ! (e + k)" using read(2) by (simp add: received_def same_upto_def)
  have step: "request_loop (List.map Amount (k # ks)) src t =
      (if req ! (e + k) = 10 then Request t' else request_loop (List.map Amount ks) src' t')"
  proof -
    have "t_tail t' \<noteq> 0" "unat (t_tail t') - 1 = e + k" using tail by auto
    then show ?thesis using read(1) same by simp
  qed
  show ?case
  proof (cases ks)
    case Nil
    then have all: "e + Suc k = length req" using Cons.prems(2) by simp
    then have "length req - 1 = e + k" by simp
    then have "req ! (e + k) = 10" using is_line_last [OF assms(1)] by simp
    moreover have "received req (length req) [] t'"
    proof -
      have "src' = []" using read(2) all by (simp add: received_def)
      then show ?thesis using read(2) all by simp
    qed
    ultimately show ?thesis unfolding step by simp
  next
    case more: (Cons k' ks')
    then have "req ! (e + k) \<noteq> 10" using is_line_inner [OF assms(1), of "e + k"] Cons.prems(2) by simp
    moreover have "\<exists>t''. request_loop (List.map Amount ks) src' t' = Request t'' \<and> received req (length req) [] t''"
      by (rule Cons.IH [OF read(2)]) (use Cons.prems(2) more in simp_all)
    ultimately show ?thesis unfolding step by simp
  qed
qed simp

text \<open>What the request does, in terms of the file that is wanted.\<close>

lemma task_upload_request:
  assumes s: "s \<noteq> ''''" "CHR 0x00 \<notin> set s" and len: "length (get_message s) \<le> 4095"
    and ks: "sum_list (List.map Suc ks) = length (get_message s)" and g: "length g = TASKBUFSIZ"
  shows "\<exists>t. ring_ok t \<and> queue t = [] \<and> task_upload evil w (List.map Amount ks) io (bytes_of (get_message s)) (task_new g) =
    (if FILENAMESIZ \<le> length s then Array_Overrun else upload_file evil w io s t)"
proof -
  let ?req = "bytes_of (get_message s)"
  have req: "length ?req = length (get_message s)" by simp
  have start: "received ?req 0 ?req (task_new g)" using g by (simp add: received_def same_upto_def task_new_def)
  have "ks \<noteq> []" using ks by (auto simp: get_message_eq)
  from request_pieces [OF get_message_line _ start _ this] obtain t1 where
    t1: "request_loop (List.map Amount ks) ?req (task_new g) = Request t1" "received ?req (length ?req) [] t1"
    using len ks by auto
  have tail: "unat (t_tail t1) = length ?req" by (rule received_tail [OF t1(2)]) (use len in simp)
  have b: "length (t_buf t1) = 4096" "same_upto (length ?req) (t_buf t1) ?req" using t1(2) by (simp_all add: received_def)
  have "take (length ?req) (t_buf t1) = ?req"
    using b len by (intro nth_equalityI) (auto simp: same_upto_def)
  then have message: "text_of (take (unat (t_tail t1)) (t_buf t1)) = get_message s" unfolding tail by simp
  have scan: "osp2p_snscanf beyond (get_message s) (''GET %s OSP2P'' @ [CHR 0x0A]) = Matched [Text s]" for beyond
    using scanf_message [OF get_fits [OF s], of beyond "length (get_message s)" "[]"]
    by (simp only: osp2p_snscanf_def get_format get_message_def append_Nil)
  let ?t = "t1\<lparr>t_head := 0, t_tail := 0\<rparr>"
  have "c_string s = s" using s(2) by (auto simp: c_string_def takeWhile_eq_all_conv)
  then have "task_upload evil w (List.map Amount ks) io ?req (task_new g) =
      (if FILENAMESIZ \<le> length s then Array_Overrun else upload_file evil w io s ?t)"
    by (simp only: task_upload_def t1(1) request.case Let_def message scan scan.case overlong_def list.case arg.case)
  moreover have "ring_ok ?t" "queue ?t = []" using b(1) by (simp_all add: ring_ok_def fill_level_def queue_def)
  ultimately show ?thesis by blast
qed

lemma upload_file_served:
  assumes "upload_file evil w io s t = Served sent" "ring_ok t" "queue t = []"
  shows "in_directory w s \<and> open_file w (if evil = 2 then ''/dev/zero'' else s) = Some sent"
proof -
  let ?name = "if evil = 2 then ''/dev/zero'' else s"
  have d: "in_directory w s" using assms(1) by (auto simp: upload_file_def split: if_splits)
  obtain content where c: "open_file w ?name = Some content"
    using assms(1) by (auto simp: upload_file_def split: if_splits option.splits)
  obtain b where "upload_loop io content t [] = Complete sent b"
    using assms(1) c d by (auto simp: upload_file_def split: if_splits transfer.splits)
  then have "sent = [] @ queue t @ content" by (rule upload_loop_complete [OF _ assms(2)])
  then show ?thesis using c d assms(3) by simp
qed

text \<open>
  C13: what an upload sends. For a request \<open>GET name OSP2P\<close> of at most 4095 bytes, in pieces of
  any sizes, a name of 256 characters or more overruns the array of the task; for a shorter one,
  if the upload is completed then the working directory is a prefix of the resolved path and the
  peer has got exactly the contents of the file (of \<open>/dev/zero\<close> in evil mode 2).
\<close>

theorem task_upload_serves:
  assumes "s \<noteq> ''''" "CHR 0x00 \<notin> set s" "length (get_message s) \<le> 4095" "length g = TASKBUFSIZ"
    and "sum_list (List.map Suc ks) = length (get_message s)"
    and "task_upload evil w (List.map Amount ks) io (bytes_of (get_message s)) (task_new g) = out"
  shows "(FILENAMESIZ \<le> length s \<longleftrightarrow> out = Array_Overrun) \<and>
    (\<forall>sent. out = Served sent \<longrightarrow> in_directory w s \<and> open_file w (if evil = 2 then ''/dev/zero'' else s) = Some sent)"
proof -
  obtain t where t: "ring_ok t" "queue t = []"
    "out = (if FILENAMESIZ \<le> length s then Array_Overrun else upload_file evil w io s t)"
    using task_upload_request [OF assms(1,2,3,5,4), of evil w io] assms(6) by auto
  have "upload_file evil w io s t \<noteq> Array_Overrun"
    by (auto simp: upload_file_def split: option.splits transfer.splits)
  then show ?thesis using t upload_file_served by (auto split: if_splits)
qed

text \<open>
  The prefix is one of characters, not of directories: a file of a directory beside the working
  directory whose name begins like it is served too.
\<close>

definition sibling_world :: world where
  "sibling_world = \<lparr>getcwd = Some ''/home/a'', realpath = (\<lambda>n. Some ''/home/ab/secret''), open_file = (\<lambda>n. Some [1, 2])\<rparr>"

lemma sibling_in_directory: "in_directory sibling_world ''../ab/secret''"
  by (simp add: in_directory_def sibling_world_def)

theorem task_upload_serves_witness:
  "\<exists>g out. length g = TASKBUFSIZ \<and>
     task_upload 0 sibling_world [Amount 26] [] (bytes_of (get_message ''../ab/secret'')) (task_new g) = out \<and> out \<noteq> Array_Overrun"
proof -
  have get_length: "length (get_message ''../ab/secret'') = 27"
    by (simp add: get_message_eq plain_char_def isalnum_def isdigit_def code_def)
  obtain g :: "u8 list" where g: "length g = TASKBUFSIZ" using Ex_list_of_length by blast
  show ?thesis
    using task_upload_serves [of "''../ab/secret''" g "[26]" 0 sibling_world "[]", OF _ _ _ g _ refl] g
      get_length by auto
qed

end
