(* ===== verification/P2pOptions.thy ===== *)
theory P2pOptions
  imports P2pWire
begin

text \<open>
  The options of the lab 4 peer: the first half of \<open>main\<close> in \<open>src/lab4/osppeer.c\<close>, with the values
  that the scanner stores even when the text does not match.

  Whether a change of the working directory succeeds is up to the system, as a function of all
  changes up to this one.
\<close>

section \<open>What the scanner stores\<close>

record options =
  opt_addr :: u32
  opt_port :: int
  opt_evil :: int
  opt_dirs :: "string list"

fun store_arg :: "arg \<Rightarrow> options \<Rightarrow> options" where
  "store_arg (Address a) o1 = o1\<lparr>opt_addr := a\<rparr>"
| "store_arg (Number n) o1 = o1\<lparr>opt_port := n\<rparr>"
| "store_arg (Text s) o1 = o1"

text \<open>The formats one after the other until one matches.\<close>

fun scan_formats :: "string list \<Rightarrow> string \<Rightarrow> options \<Rightarrow> options \<times> bool" where
  "scan_formats [] s o1 = (o1, False)"
| "scan_formats (f # fs) s o1 =
     (case osp2p_sscanf s f of
        Matched outs \<Rightarrow> (fold store_arg outs o1, True)
      | Mismatch outs \<Rightarrow> scan_formats fs s (fold store_arg outs o1)
      | Overrun \<Rightarrow> (o1, False))"

definition tracker_option :: "string \<Rightarrow> string \<Rightarrow> options \<Rightarrow> options \<times> bool" where
  "tracker_option pre s o1 =
     (let (o2, matched) = scan_formats [pre @ ''%I:%d'', pre @ ''%d'', pre @ ''%I''] s o1
      in (o2, matched \<and> 0 < opt_port o2 \<and> opt_port o2 \<le> 65535))"

definition evil_option :: "string \<Rightarrow> string \<Rightarrow> int option" where
  "evil_option pre s =
     (case osp2p_sscanf s (pre @ ''%d'') of Matched (Number n # _) \<Rightarrow> Some n | _ \<Rightarrow> None)"

section \<open>The argument loop\<close>

datatype arguments = Run options "string list" | Usage | Chdir_Died

definition change_dir :: "(string list \<Rightarrow> bool) \<Rightarrow> string \<Rightarrow> options \<Rightarrow> options option" where
  "change_dir chdir d o1 =
     (let dirs = opt_dirs o1 @ [d] in if chdir dirs then Some (o1\<lparr>opt_dirs := dirs\<rparr>) else None)"

text \<open>
  The loop over the arguments behind the name of the program; what is left are the files to
  download. An option \<open>-t\<close> that is refused has been stored all the same.
\<close>

function process_args :: "(string list \<Rightarrow> bool) \<Rightarrow> options \<Rightarrow> string list \<Rightarrow> arguments" where
  "process_args chdir o1 [] = Run o1 []"
| "process_args chdir o1 (a # rest) =
     (let (o2, ok2) = (if rest \<noteq> [] \<and> a = ''-t'' then tracker_option '''' (hd rest) o1 else (o1, False)) in
      if ok2 then process_args chdir o2 (tl rest)
      else
        let (o3, ok3) = (if take 2 a = ''-t'' then tracker_option ''-t'' a o2 else (o2, False)) in
        if ok3 then process_args chdir o3 rest
        else if rest \<noteq> [] \<and> a = ''-d'' then
          (case change_dir chdir (hd rest) o3 of None \<Rightarrow> Chdir_Died | Some o4 \<Rightarrow> process_args chdir o4 (tl rest))
        else if take 2 a = ''-d'' then
          (case change_dir chdir (drop 2 a) o3 of None \<Rightarrow> Chdir_Died | Some o4 \<Rightarrow> process_args chdir o4 rest)
        else if rest \<noteq> [] \<and> a = ''-b'' \<and> evil_option '''' (hd rest) \<noteq> None then
          process_args chdir (o3\<lparr>opt_evil := the (evil_option '''' (hd rest))\<rparr>) (tl rest)
        else if take 2 a = ''-b'' \<and> evil_option ''-b'' a \<noteq> None then
          process_args chdir (o3\<lparr>opt_evil := the (evil_option ''-b'' a)\<rparr>) rest
        else if a = ''-b'' then process_args chdir (o3\<lparr>opt_evil := 1\<rparr>) rest
        else if a = ''--help'' \<or> a = ''-h'' then Usage
        else Run o3 (a # rest))"
  by pat_completeness auto
termination
  by (relation "measure (\<lambda>(_, _, args). length args)") (auto simp: le_imp_less_Suc)

declare process_args.simps(2) [simp del]

text \<open>The default tracker; \<open>evil_mode\<close> is 0 at first.\<close>

definition default_options :: options where
  "default_options =
     fst (scan_formats [''%I:%d''] ''131.179.80.139:11111'' \<lparr>opt_addr = 0, opt_port = 0, opt_evil = 0, opt_dirs = []\<rparr>)"

text \<open>The alias: the name of the user and the time, or the process id.\<close>

definition my_alias :: "string option \<Rightarrow> int \<Rightarrow> int \<Rightarrow> string" where
  "my_alias pw_name now pid =
     (case pw_name of Some n \<Rightarrow> n @ int_text now | None \<Rightarrow> ''osppeer'' @ int_text pid)"

section \<open>The address of a tracker alone\<close>

text \<open>
  The three formats are tried in their order and \<open>%d\<close> only looks at the front of the text: an
  address without a port stores the address, and its first number as the port.
\<close>

lemma scanf_address:
  "scanf beyond len (''%I'' @ f) s outs =
    (case scan_octets 0 0 s of None \<Rightarrow> Mismatch outs | Some (v, r) \<Rightarrow> scanf beyond len f r (outs @ [Address v]))"
  by (simp add: scanf.simps(2) Let_def)

lemma scanf_number:
  "scanf beyond len (''%d'' @ f) s outs =
    (case scan_int s of None \<Rightarrow> Mismatch outs | Some (v, r) \<Rightarrow> scanf beyond len f r (outs @ [Number v]))"
  by (simp add: scanf.simps(2) Let_def)

lemma addr_text_front:
  "\<exists>r. addr_text a = digits_text (unat a div 16777216) @ CHR ''.'' # r"
  by (simp add: addr_text_def Let_def)

lemma first_octet: "unat (a :: u32) div 16777216 \<le> 255"
proof -
  have "unat a < 256 * 16777216" using unat_u32_less [of a] by simp
  then have "unat a div 16777216 < 256" by (rule less_mult_imp_div_less)
  then show ?thesis by simp
qed

lemma tracker_option_address:
  "tracker_option '''' (addr_text a) o1 =
    (o1\<lparr>opt_addr := a, opt_port := int (unat a div 16777216)\<rparr>, 0 < unat a div 16777216)"
proof -
  let ?s = "addr_text a" let ?n = "unat a div 16777216"
  have "osp2p_sscanf ?s (''%I'' @ '':%d'') = Mismatch [Address a]"
    unfolding osp2p_sscanf_def scanf_address using scan_octets_addr [of "[]" a]
    by (simp add: scanf.simps(2) Let_def isspace_def code_def)
  moreover obtain r where r: "?s = digits_text ?n @ CHR ''.'' # r" using addr_text_front by blast
  moreover have "scan_int ?s = Some (int ?n, CHR ''.'' # r)"
    unfolding r using first_octet [of a] by (subst scan_int_text) (simp_all add: isdigit_def code_def readable_max_def)
  then have "osp2p_sscanf ?s (''%d'' @ []) = Matched [Number (int ?n)]"
    unfolding osp2p_sscanf_def scanf_number by simp
  ultimately have "scan_formats [''%I:%d'', ''%d'', ''%I''] ?s o1 =
      (o1\<lparr>opt_addr := a, opt_port := int ?n\<rparr>, True)"
    by simp
  then show ?thesis using first_octet [of a] by (simp add: tracker_option_def)
qed

lemma default_tracker: "default_options = \<lparr>opt_addr = 0x83B3508B, opt_port = 11111, opt_evil = 0, opt_dirs = []\<rparr>"
  by code_simp

end
