(* ===== verification/Md5.thy ===== *)
theory Md5
  imports Prelude
begin

text \<open>
  The MD5 of the lab 4 peer (\<open>src/lab4/md5.c\<close>): the block function with its four rounds, the
  state that takes a message in pieces, and the digest. The machine is little-endian, where the
  words of a block are read as they lie in memory. \<open>nbytes\<close> is a C int; its shift by three is
  computed modulo \<open>2 ^ 32\<close>. The reference is the function of the whole message of RFC 1321:
  padding, then the block function on each 64 bytes.
\<close>

section \<open>The block function\<close>

type_synonym regs = "u32 \<times> u32 \<times> u32 \<times> u32"

definition block_word :: "u8 list \<Rightarrow> nat \<Rightarrow> u32" where
  "block_word data k =
     ucast (data ! (4 * k)) + push_bit 8 (ucast (data ! (4 * k + 1))) + push_bit 16 (ucast (data ! (4 * k + 2))) +
     push_bit 24 (ucast (data ! (4 * k + 3)))"

definition rotate_left :: "u32 \<Rightarrow> nat \<Rightarrow> u32" where
  "rotate_left x n = push_bit n x OR drop_bit (32 - n) x"

definition md5_F :: "u32 \<Rightarrow> u32 \<Rightarrow> u32 \<Rightarrow> u32" where "md5_F x y z = (x AND y) OR (NOT x AND z)"
definition md5_G :: "u32 \<Rightarrow> u32 \<Rightarrow> u32 \<Rightarrow> u32" where "md5_G x y z = (x AND z) OR (y AND NOT z)"
definition md5_H :: "u32 \<Rightarrow> u32 \<Rightarrow> u32 \<Rightarrow> u32" where "md5_H x y z = x XOR y XOR z"
definition md5_I :: "u32 \<Rightarrow> u32 \<Rightarrow> u32 \<Rightarrow> u32" where "md5_I x y z = y XOR (x OR NOT z)"

text \<open>
  \<open>SET\<close>: the new value of the first register; the registers are then named one further, as in
  the next line of the code, where the last one comes first.
\<close>

definition md5_set :: "(u32 \<Rightarrow> u32 \<Rightarrow> u32 \<Rightarrow> u32) \<Rightarrow> u8 list \<Rightarrow> nat \<times> nat \<times> u32 \<Rightarrow> regs \<Rightarrow> regs" where
  "md5_set f data op r =
     (let (k, s, T) = op; (a, b, c, d) = r; t = a + f b c d + block_word data k + T
      in (d, rotate_left t s + b, b, c))"

text \<open>The constants \<open>T1\<close> to \<open>T64\<close>.\<close>

definition md5_T :: "nat \<Rightarrow> u32" where
  "md5_T i =
    [NOT 0 XOR 0x28955b87, NOT 0 XOR 0x173848a9, 0x242070db, NOT 0 XOR 0x3e423111,
     NOT 0 XOR 0x0a83f050, 0x4787c62a, NOT 0 XOR 0x57cfb9ec, NOT 0 XOR 0x02b96afe,
     0x698098d8, NOT 0 XOR 0x74bb0850, NOT 0 XOR 0x0000a44e, NOT 0 XOR 0x76a32841,
     0x6b901122, NOT 0 XOR 0x02678e6c, NOT 0 XOR 0x5986bc71, 0x49b40821,
     NOT 0 XOR 0x09e1da9d, NOT 0 XOR 0x3fbf4cbf, 0x265e5a51, NOT 0 XOR 0x16493855,
     NOT 0 XOR 0x29d0efa2, 0x02441453, NOT 0 XOR 0x275e197e, NOT 0 XOR 0x182c0437,
     0x21e1cde6, NOT 0 XOR 0x3cc8f829, NOT 0 XOR 0x0b2af278, 0x455a14ed,
     NOT 0 XOR 0x561c16fa, NOT 0 XOR 0x03105c07, 0x676f02d9, NOT 0 XOR 0x72d5b375,
     NOT 0 XOR 0x0005c6bd, NOT 0 XOR 0x788e097e, 0x6d9d6122, NOT 0 XOR 0x021ac7f3,
     NOT 0 XOR 0x5b4115bb, 0x4bdecfa9, NOT 0 XOR 0x0944b49f, NOT 0 XOR 0x4140438f,
     0x289b7ec6, NOT 0 XOR 0x155ed805, NOT 0 XOR 0x2b10cf7a, 0x04881d05,
     NOT 0 XOR 0x262b2fc6, NOT 0 XOR 0x1924661a, 0x1fa27cf8, NOT 0 XOR 0x3b53a99a,
     NOT 0 XOR 0x0bd6ddbb, 0x432aff97, NOT 0 XOR 0x546bdc58, NOT 0 XOR 0x036c5fc6,
     0x655b59c3, NOT 0 XOR 0x70f3336d, NOT 0 XOR 0x00100b82, NOT 0 XOR 0x7a7ba22e,
     0x6fa87e4f, NOT 0 XOR 0x01d3191f, NOT 0 XOR 0x5cfebceb, 0x4e0811a1,
     NOT 0 XOR 0x08ac817d, NOT 0 XOR 0x42c50dca, 0x2ad7d2bb, NOT 0 XOR 0x14792c6e] ! (i - 1)"

text \<open>The operations of the four rounds: the word, the shift and the constant of each.\<close>

definition round_1 :: "(nat \<times> nat \<times> u32) list" where
  "round_1 =
    [(0, 7, md5_T 1), (1, 12, md5_T 2), (2, 17, md5_T 3), (3, 22, md5_T 4),
     (4, 7, md5_T 5), (5, 12, md5_T 6), (6, 17, md5_T 7), (7, 22, md5_T 8),
     (8, 7, md5_T 9), (9, 12, md5_T 10), (10, 17, md5_T 11), (11, 22, md5_T 12),
     (12, 7, md5_T 13), (13, 12, md5_T 14), (14, 17, md5_T 15), (15, 22, md5_T 16)]"

definition round_2 :: "(nat \<times> nat \<times> u32) list" where
  "round_2 =
    [(1, 5, md5_T 17), (6, 9, md5_T 18), (11, 14, md5_T 19), (0, 20, md5_T 20),
     (5, 5, md5_T 21), (10, 9, md5_T 22), (15, 14, md5_T 23), (4, 20, md5_T 24),
     (9, 5, md5_T 25), (14, 9, md5_T 26), (3, 14, md5_T 27), (8, 20, md5_T 28),
     (13, 5, md5_T 29), (2, 9, md5_T 30), (7, 14, md5_T 31), (12, 20, md5_T 32)]"

definition round_3 :: "(nat \<times> nat \<times> u32) list" where
  "round_3 =
    [(5, 4, md5_T 33), (8, 11, md5_T 34), (11, 16, md5_T 35), (14, 23, md5_T 36),
     (1, 4, md5_T 37), (4, 11, md5_T 38), (7, 16, md5_T 39), (10, 23, md5_T 40),
     (13, 4, md5_T 41), (0, 11, md5_T 42), (3, 16, md5_T 43), (6, 23, md5_T 44),
     (9, 4, md5_T 45), (12, 11, md5_T 46), (15, 16, md5_T 47), (2, 23, md5_T 48)]"

definition round_4 :: "(nat \<times> nat \<times> u32) list" where
  "round_4 =
    [(0, 6, md5_T 49), (7, 10, md5_T 50), (14, 15, md5_T 51), (5, 21, md5_T 52),
     (12, 6, md5_T 53), (3, 10, md5_T 54), (10, 15, md5_T 55), (1, 21, md5_T 56),
     (8, 6, md5_T 57), (15, 10, md5_T 58), (6, 15, md5_T 59), (13, 21, md5_T 60),
     (4, 6, md5_T 61), (11, 10, md5_T 62), (2, 15, md5_T 63), (9, 21, md5_T 64)]"

definition md5_process :: "u8 list \<Rightarrow> regs \<Rightarrow> regs" where
  "md5_process data r =
     (let (a0, b0, c0, d0) = r;
          (a, b, c, d) = fold (md5_set md5_I data) round_4 (fold (md5_set md5_H data) round_3
            (fold (md5_set md5_G data) round_2 (fold (md5_set md5_F data) round_1 r)))
      in (a0 + a, b0 + b, c0 + c, d0 + d))"

section \<open>The state\<close>

record md5_state =
  count0 :: u32
  count1 :: u32
  abcd :: regs
  md5_buf :: "u8 list"

definition md5_init_regs :: regs where
  "md5_init_regs = (0x67452301, NOT 0 XOR 0x10325476, NOT 0 XOR 0x67452301, 0x10325476)"

definition md5_init :: "u8 list \<Rightarrow> md5_state" where
  "md5_init garbage = \<lparr>count0 = 0, count1 = 0, abcd = md5_init_regs, md5_buf = garbage\<rparr>"

definition copy_to :: "u8 list \<Rightarrow> nat \<Rightarrow> u8 list \<Rightarrow> u8 list" where
  "copy_to b i bs = take i b @ bs @ drop (i + length bs) b"

text \<open>The loop over the full blocks: the registers and what is left.\<close>

function full_blocks :: "regs \<Rightarrow> u8 list \<Rightarrow> regs \<times> u8 list" where
  "full_blocks r p = (if length p \<ge> 64 then full_blocks (md5_process (take 64 p) r) (drop 64 p) else (r, p))"
  by pat_completeness auto
termination
  by (relation "measure (\<lambda>(_, p). length p)") auto

declare full_blocks.simps [simp del]

definition md5_append :: "md5_state \<Rightarrow> u8 list \<Rightarrow> int \<Rightarrow> md5_state" where
  "md5_append s data nbytes =
     (let offset = unat (drop_bit 3 (count0 s) AND 63);
          nbits = of_int (nbytes * 8) :: u32
      in if nbytes \<le> 0 then s
         else
           let c0 = count0 s + nbits;
               c1 = count1 s + of_int (nbytes div 2 ^ 29);
               s1 = s\<lparr>count0 := c0, count1 := (if c0 < nbits then c1 + 1 else c1)\<rparr>;
               p = take (nat nbytes) data;
               copy = (if offset + nat nbytes > 64 then 64 - offset else nat nbytes);
               b = copy_to (md5_buf s1) offset (take copy p)
           in if offset \<noteq> 0 \<and> offset + copy < 64 then s1\<lparr>md5_buf := b\<rparr>
              else
                let (s2, p2) =
                  (if offset \<noteq> 0 then (s1\<lparr>md5_buf := b, abcd := md5_process b (abcd s1)\<rparr>, drop copy p) else (s1, p));
                  (r, rest) = full_blocks (abcd s2) p2
                in s2\<lparr>abcd := r, md5_buf := copy_to (md5_buf s2) 0 rest\<rparr>)"

text \<open>Bytes of 32-bit words, least significant first.\<close>

definition word_bytes :: "u32 \<Rightarrow> u8 list" where
  "word_bytes w = List.map (\<lambda>i. ucast (drop_bit (8 * i) w)) [0 ..< 4]"

definition md5_pad :: "u8 list" where
  "md5_pad = 0x80 # replicate 63 0"

definition regs_bytes :: "regs \<Rightarrow> u8 list" where
  "regs_bytes r = (let (a, b, c, d) = r in word_bytes a @ word_bytes b @ word_bytes c @ word_bytes d)"

definition md5_finish :: "md5_state \<Rightarrow> u8 list" where
  "md5_finish s =
     (let data = word_bytes (count0 s) @ word_bytes (count1 s);
          n = uint ((55 - drop_bit 3 (count0 s)) AND 63) + 1
      in regs_bytes (abcd (md5_append (md5_append s md5_pad n) data 8)))"

section \<open>The reference\<close>

definition md5_blocks :: "regs \<Rightarrow> u8 list \<Rightarrow> regs" where
  "md5_blocks r m = fst (full_blocks r m)"

definition padding_length :: "nat \<Rightarrow> nat" where
  "padding_length n = (if n mod 64 < 56 then 56 - n mod 64 else 120 - n mod 64)"

definition padded :: "u8 list \<Rightarrow> u8 list" where
  "padded m = m @ 0x80 # replicate (padding_length (length m) - 1) 0 @
     word_bytes (of_nat (8 * length m)) @ word_bytes (of_nat (8 * length m div 2 ^ 32))"

definition md5_digest :: "u8 list \<Rightarrow> u8 list" where
  "md5_digest m = regs_bytes (md5_blocks md5_init_regs (padded m))"

section \<open>Blocks\<close>

lemma full_blocks_append:
  "length m mod 64 = 0 \<Longrightarrow> full_blocks r (m @ p) = full_blocks (md5_blocks r m) p"
proof (induction r m rule: full_blocks.induct)
  case (1 r m)
  show ?case
  proof (cases "length m \<ge> 64")
    case True
    then have "full_blocks (md5_process (take 64 m) r) (drop 64 m @ p) =
        full_blocks (md5_blocks (md5_process (take 64 m) r) (drop 64 m)) p"
      using 1 by (simp add: le_mod_geq)
    moreover have "md5_blocks (md5_process (take 64 m) r) (drop 64 m) = md5_blocks r m"
      using True by (simp add: md5_blocks_def full_blocks.simps [of r m])
    ultimately show ?thesis using True by (simp add: full_blocks.simps [of r "m @ p"])
  next
    case False
    then have "m = []" using 1(2) by (cases m) auto
    then show ?thesis by (simp add: md5_blocks_def full_blocks.simps [of r "[]"])
  qed
qed

definition whole :: "u8 list \<Rightarrow> u8 list" where
  "whole m = take (64 * (length m div 64)) m"

definition remainder :: "u8 list \<Rightarrow> u8 list" where
  "remainder m = drop (64 * (length m div 64)) m"

lemma whole_remainder: "whole m @ remainder m = m" "length (whole m) mod 64 = 0" "length (remainder m) = length m mod 64"
proof -
  show "whole m @ remainder m = m" by (simp add: whole_def remainder_def)
  have "64 * (length m div 64) \<le> length m" by simp
  then have "length (whole m) = 64 * (length m div 64)" unfolding whole_def length_take by (rule min_absorb2)
  then show "length (whole m) mod 64 = 0" by simp
  show "length (remainder m) = length m mod 64" by (simp add: remainder_def minus_mult_div_eq_mod)
qed

lemma full_blocks_rest: "full_blocks r m = (md5_blocks r (whole m), remainder m)"
proof -
  have "full_blocks r (whole m @ remainder m) = full_blocks (md5_blocks r (whole m)) (remainder m)"
    by (rule full_blocks_append) (rule whole_remainder(2))
  moreover have "length (remainder m) < 64" by (simp add: whole_remainder(3))
  ultimately show ?thesis by (simp add: whole_remainder(1) full_blocks.simps [of _ "remainder m"])
qed

lemma whole_of_whole:
  assumes "length m mod 64 = 0"
  shows "whole m = m" "remainder m = []"
proof -
  have "length (remainder m) = 0" using whole_remainder(3) [of m] assms by simp
  then show "remainder m = []" by simp
  then show "whole m = m" using whole_remainder(1) [of m] by simp
qed

lemma md5_blocks_whole: "md5_blocks r (whole m) = md5_blocks r m"
  by (simp add: md5_blocks_def [of r m] full_blocks_rest [of r m])

section \<open>A message in pieces\<close>

definition md5_rep :: "md5_state \<Rightarrow> u8 list \<Rightarrow> bool" where
  "md5_rep s m \<longleftrightarrow> abcd s = md5_blocks md5_init_regs m \<and> length (md5_buf s) = 64 \<and>
     take (length (remainder m)) (md5_buf s) = remainder m \<and>
     unat (count0 s) + 2 ^ 32 * unat (count1 s) = 8 * length m mod 2 ^ 64"

lemma md5_rep_init: "length g = 64 \<Longrightarrow> md5_rep (md5_init g) []"
  by (simp add: md5_rep_def md5_init_def md5_blocks_def full_blocks.simps [of _ "[]"] remainder_def)

lemma unat_and_63: "unat (w AND 63 :: u32) = unat w mod 64"
proof -
  have "(63 :: u32) = mask 6" by (simp add: mask_eq_exp_minus_1)
  then have "w AND 63 = take_bit 6 w" by (simp add: take_bit_eq_mask)
  then show ?thesis by (simp add: take_bit_eq_mod unat_mod)
qed

lemma unat_drop_3: "unat (drop_bit 3 w :: u32) = unat w div 8"
  by (simp add: drop_bit_eq_div unat_div)

lemma mod_square_div: "0 < b \<Longrightarrow> x mod (b * b) div b = x div b mod (b :: nat)"
  by (simp add: mod_mult2_eq)

lemma count_low:
  assumes "unat (c0 :: u32) + 2 ^ 32 * unat (c1 :: u32) = 8 * n mod 2 ^ 64"
  shows "unat c0 = 8 * n mod 2 ^ 32" "unat c1 = 8 * n div 2 ^ 32 mod 2 ^ 32" "unat c0 div 8 mod 64 = n mod 64"
proof -
  have c0: "unat c0 < 2 ^ 32" using unat_u32_less [of c0] by simp
  have "(8 * n mod 2 ^ 64) mod 2 ^ 32 = 8 * n mod 2 ^ 32" by (rule mod_mod_cancel) simp
  moreover have "(unat c0 + 2 ^ 32 * unat c1) mod 2 ^ 32 = unat c0" using c0 by simp
  ultimately show low: "unat c0 = 8 * n mod 2 ^ 32" by (simp only: assms)
  have "(unat c0 + 2 ^ 32 * unat c1) div 2 ^ 32 = unat c1" using c0 by simp
  moreover have "8 * n mod (2 ^ 32 * 2 ^ 32) div 2 ^ 32 = 8 * n div 2 ^ 32 mod 2 ^ 32"
    by (rule mod_square_div) simp_all
  moreover have "(2 :: nat) ^ 64 = 2 ^ 32 * 2 ^ 32" by simp
  ultimately show "unat c1 = 8 * n div 2 ^ 32 mod 2 ^ 32" by (simp only: assms)
  have "8 * n mod (8 * 536870912) div 8 = n mod 536870912" by (simp only: mod_mult_mult1)
  moreover have "n mod 536870912 mod 64 = n mod 64" by (rule mod_mod_cancel) simp
  ultimately show "unat c0 div 8 mod 64 = n mod 64" using low by simp
qed

lemma count_add:
  assumes "unat (c0 :: u32) + 2 ^ 32 * unat (c1 :: u32) = 8 * n mod 2 ^ 64" "k < 2 ^ 28"
  defines "b \<equiv> of_nat (8 * k) :: u32"
  shows "unat (c0 + b) + 2 ^ 32 * unat (if c0 + b < b then c1 + 1 else c1) = 8 * (n + k) mod 2 ^ 64"
proof -
  have b: "unat b = 8 * k" unfolding b_def unat_of_nat using assms(2) by (simp add: take_bit_nat_eq_self)
  have c: "unat c0 < 4294967296" "unat c1 < 4294967296" by (rule unat_u32_less)+
  have sum: "unat (c0 + b) = (unat c0 + 8 * k) mod 4294967296" using b by (simp add: unat_word_ariths)
  have small: "8 * k < 4294967296" using assms(2) by simp
  have eq: "unat c0 + 4294967296 * unat c1 = 8 * n mod 18446744073709551616" using assms(1) by simp
  show ?thesis
  proof (cases "unat c0 + 8 * k < 4294967296")
    case True
    then have "unat (c0 + b) = unat c0 + 8 * k" using sum by simp
    then have no: "\<not> c0 + b < b" using b by (simp add: word_less_nat_alt)
    have "unat c0 + 8 * k + 4294967296 * unat c1 = (8 * n mod 18446744073709551616) + 8 * k" using eq by simp
    moreover have "unat c0 + 8 * k + 4294967296 * unat c1 < 18446744073709551616" using True c by simp
    ultimately have "unat c0 + 8 * k + 4294967296 * unat c1 = 8 * (n + k) mod 18446744073709551616"
      by (metis add_mult_distrib2 mod_add_left_eq mod_less)
    then show ?thesis using no \<open>unat (c0 + b) = unat c0 + 8 * k\<close> by simp
  next
    case False
    then have s: "unat (c0 + b) = unat c0 + 8 * k - 4294967296" using sum c small by (simp add: le_mod_geq)
    then have yes: "c0 + b < b" using b c False by (simp add: word_less_nat_alt)
    have up: "unat (c1 + 1) = (unat c1 + 1) mod 4294967296" by (simp add: unat_word_ariths)
    have total: "unat (c0 + b) + 4294967296 * (unat c1 + 1) = (8 * n mod 18446744073709551616) + 8 * k"
      using eq s False by simp
    have "unat (c0 + b) + 4294967296 * unat (c1 + 1) = 8 * (n + k) mod 18446744073709551616"
    proof (cases "unat c1 + 1 < 4294967296")
      case True
      then have "unat (c0 + b) + 4294967296 * unat (c1 + 1) < 18446744073709551616"
        using up unat_u32_less [of "c0 + b"] by simp
      then show ?thesis using total up True by (metis add_mult_distrib2 mod_add_left_eq mod_less)
    next
      case False
      then have full: "unat c1 + 1 = 4294967296" using c by simp
      then have "unat (c1 + 1) = 0" using up by simp
      have over: "unat (c0 + b) + 18446744073709551616 = (8 * n mod 18446744073709551616) + 8 * k"
        using total full by simp
      have "unat (c0 + b) = (unat (c0 + b) + 18446744073709551616) mod 18446744073709551616"
        using unat_u32_less [of "c0 + b"] by simp
      also have "\<dots> = (8 * n + 8 * k) mod 18446744073709551616" unfolding over by (rule mod_add_left_eq)
      finally have "unat (c0 + b) = 8 * (n + k) mod 18446744073709551616" by (simp only: add_mult_distrib2)
      with \<open>unat (c1 + 1) = 0\<close> show ?thesis by simp
    qed
    then show ?thesis using yes by simp
  qed
qed

lemma remainder_small: "length m mod 64 + length d < 64 \<Longrightarrow> remainder (m @ d) = remainder m @ d \<and> whole (m @ d) = whole m"
proof -
  assume small: "length m mod 64 + length d < 64"
  have div: "(64 * q + k) div 64 = q" if "k < 64" for q k :: nat using that by simp
  have "length m = 64 * (length m div 64) + length m mod 64" by simp
  then have "length (m @ d) = 64 * (length m div 64) + (length m mod 64 + length d)" by simp
  then have "length (m @ d) div 64 = length m div 64" using div [OF small] by metis
  then show ?thesis unfolding remainder_def whole_def by simp
qed

lemma blocks_of_block: "length b = 64 \<Longrightarrow> md5_blocks (md5_blocks r (whole m)) b = md5_process b (md5_blocks r (whole m))"
  by (simp add: md5_blocks_def [of _ b] full_blocks.simps [of _ b] full_blocks.simps [of _ "[]"])

text \<open>The block that the buffer completes, with the rest of the new bytes behind it.\<close>

lemma full_blocks_completed:
  assumes "length (remainder m @ d1) = 64"
  shows "full_blocks (md5_process (remainder m @ d1) (md5_blocks r m)) d2 =
    (md5_blocks r (m @ d1 @ d2), remainder (m @ d1 @ d2))"
proof -
  have m: "m @ d1 @ d2 = (whole m @ remainder m @ d1) @ d2"
    using whole_remainder(1) [of m] by (metis append.assoc)
  have l: "length (whole m @ remainder m @ d1) mod 64 = 0"
    using assms whole_remainder(2) [of m] by (simp add: mod_add_eq [symmetric])
  have "md5_blocks r (whole m @ remainder m @ d1) = md5_blocks (md5_blocks r (whole m)) (remainder m @ d1)"
    unfolding md5_blocks_def [of r "whole m @ _"] full_blocks_append [OF whole_remainder(2)] md5_blocks_def [of "md5_blocks _ _"] ..
  then have "md5_blocks r (whole m @ remainder m @ d1) = md5_process (remainder m @ d1) (md5_blocks r m)"
    by (simp add: blocks_of_block [OF assms, of r m, unfolded md5_blocks_whole] md5_blocks_whole)
  then have "full_blocks (md5_process (remainder m @ d1) (md5_blocks r m)) d2 = full_blocks r (m @ d1 @ d2)"
    unfolding m full_blocks_append [OF l] by simp
  then show ?thesis by (simp add: full_blocks_rest [of r "m @ d1 @ d2"] md5_blocks_whole)
qed

lemma copy_to_buf:
  assumes "length b = 64" "off + length bs \<le> 64"
  shows "length (copy_to b off bs) = 64" "take (off + length bs) (copy_to b off bs) = take off b @ bs"
  using assms by (simp_all add: copy_to_def)

lemma md5_rep_append:
  assumes rep: "md5_rep s m" and len: "length d < 2 ^ 28"
  shows "md5_rep (md5_append s d (int (length d))) (m @ d)"
proof (cases "d = []")
  case True
  then show ?thesis using rep by (simp add: md5_append_def Let_def)
next
  case False
  define o' where "o' = length m mod 64"
  have r: "abcd s = md5_blocks md5_init_regs m" "length (md5_buf s) = 64" "take o' (md5_buf s) = remainder m"
    "length (remainder m) = o'" using rep by (simp_all add: md5_rep_def whole_remainder(3) o'_def)
  have cnt: "unat (count0 s) + 2 ^ 32 * unat (count1 s) = 8 * length m mod 2 ^ 64" using rep by (simp add: md5_rep_def)
  have off: "unat (drop_bit 3 (count0 s) AND 63) = o'"
    using count_low(3) [OF cnt] by (simp only: unat_and_63 unat_drop_3 o'_def)
  have pos: "\<not> int (length d) \<le> 0" using False by simp
  have small: "int (length d) div 2 ^ 29 = 0" using len by simp
  have bits: "of_int (int (length d) * 8) = (of_nat (8 * length d) :: u32)"
    by (metis mult.commute of_int_of_nat_eq of_nat_mult of_nat_numeral)
  define s1 where "s1 = s\<lparr>count0 := count0 s + of_nat (8 * length d),
    count1 := (if count0 s + of_nat (8 * length d) < of_nat (8 * length d) then count1 s + 1 else count1 s)\<rparr>"
  have s1: "abcd s1 = abcd s" "md5_buf s1 = md5_buf s"
    "unat (count0 s1) + 2 ^ 32 * unat (count1 s1) = 8 * length (m @ d) mod 2 ^ 64"
    using count_add [OF cnt len] by (simp_all add: s1_def)
  define copy where "copy = (if o' + length d > 64 then 64 - o' else length d)"
  define b where "b = copy_to (md5_buf s) o' (take copy d)"
  have o64: "o' < 64" by (simp add: o'_def)
  have copy: "copy \<le> length d" "o' + copy \<le> 64" using o64 by (auto simp: copy_def)
  have b: "length b = 64" "take (o' + copy) b = remainder m @ take copy d"
    using copy_to_buf [OF r(2), of o' "take copy d"] copy r(3) by (simp_all add: b_def)
  have full_block: "o' + (64 - o') = 64" using o64 by simp
  have app: "md5_append s d (int (length d)) =
      (if o' \<noteq> 0 \<and> o' + copy < 64 then s1\<lparr>md5_buf := b\<rparr>
       else
         let (s2, p2) = (if o' \<noteq> 0 then (s1\<lparr>md5_buf := b, abcd := md5_process b (abcd s1)\<rparr>, drop copy d) else (s1, d));
             (r, rest) = full_blocks (abcd s2) p2
         in s2\<lparr>abcd := r, md5_buf := copy_to (md5_buf s2) 0 rest\<rparr>)"
    unfolding md5_append_def Let_def off bits small
    using pos s1(2) full_block by (simp add: s1_def b_def copy_def)
  show ?thesis
  proof (cases "o' \<noteq> 0 \<and> o' + copy < 64")
    case True
    then have all: "copy = length d" by (auto simp: copy_def split: if_splits)
    then have "remainder (m @ d) = remainder m @ d" "whole (m @ d) = whole m"
      using remainder_small [of m d] True by (simp_all add: o'_def)
    then show ?thesis using True b s1 r all md5_blocks_whole [of md5_init_regs "m @ d"] md5_blocks_whole [of md5_init_regs m]
      by (simp add: app md5_rep_def)
  next
    case False
    define s2 where "s2 = (if o' \<noteq> 0 then s1\<lparr>md5_buf := b, abcd := md5_process b (abcd s1)\<rparr> else s1)"
    define p2 where "p2 = (if o' \<noteq> 0 then drop copy d else d)"
    have full: "full_blocks (abcd s2) p2 = (md5_blocks md5_init_regs (m @ d), remainder (m @ d))"
    proof (cases "o' = 0")
      case True
      then have "length m mod 64 = 0" by (simp add: o'_def)
      then have "full_blocks (md5_blocks md5_init_regs m) d = full_blocks md5_init_regs (m @ d)"
        by (rule full_blocks_append [symmetric])
      then show ?thesis using True s1(1) r(1) by (simp add: s2_def p2_def full_blocks_rest [of _ "m @ d"] md5_blocks_whole)
    next
      case o': False
      then have "o' + copy = 64" using False copy(2) by simp
      then have b': "b = remainder m @ take copy d" using b by simp
      have "length (remainder m @ take copy d) = 64" using b(1) b' by simp
      from full_blocks_completed [OF this, of md5_init_regs "drop copy d"] show ?thesis
        using o' s1(1) r(1) b' by (simp add: s2_def p2_def)
    qed
    have rest: "length (remainder (m @ d)) \<le> 64" by (simp add: whole_remainder(3) less_imp_le)
    have s2: "length (md5_buf s2) = 64" "count0 s2 = count0 s1" "count1 s2 = count1 s1"
      using b(1) r(2) s1(2) by (simp_all add: s2_def)
    have "md5_append s d (int (length d)) =
        s2\<lparr>abcd := md5_blocks md5_init_regs (m @ d), md5_buf := copy_to (md5_buf s2) 0 (remainder (m @ d))\<rparr>"
      using False full by (auto simp: app s2_def p2_def Let_def split: if_splits)
    then show ?thesis using copy_to_buf [OF s2(1), of 0 "remainder (m @ d)"] rest s1(3) s2(2,3)
      by (simp add: md5_rep_def)
  qed
qed

section \<open>The digest\<close>

lemma count_words:
  assumes "unat (c0 :: u32) + 2 ^ 32 * unat (c1 :: u32) = 8 * n mod 2 ^ 64"
  shows "c0 = of_nat (8 * n)" "c1 = of_nat (8 * n div 2 ^ 32)"
  using count_low(1,2) [OF assms] unfolding word_unat_eq_iff unat_of_nat take_bit_eq_mod by simp_all

lemma length_word_bytes [simp]: "length (word_bytes w) = 4"
  by (simp add: word_bytes_def)

lemma padding_bounds: "0 < padding_length n" "padding_length n \<le> 64" "(n + padding_length n + 8) mod 64 = 0"
proof -
  have m: "n mod 64 < 64" by simp
  then show "0 < padding_length n" "padding_length n \<le> 64" unfolding padding_length_def by auto
  have "n mod 64 + (padding_length n + 8) = 64 \<or> n mod 64 + (padding_length n + 8) = 128"
    unfolding padding_length_def using m by auto
  then have "(n mod 64 + (padding_length n + 8)) mod 64 = 0" by (elim disjE; elim ssubst; simp)
  then show "(n + padding_length n + 8) mod 64 = 0" by (simp only: mod_add_left_eq add.assoc)
qed

text \<open>The number of padding bytes, as \<open>md5_finish\<close> computes it from the bit count.\<close>

lemma finish_padding:
  assumes "unat (c0 :: u32) div 8 mod 64 = n mod 64"
  shows "uint ((55 - drop_bit 3 c0) AND 63) + 1 = int (padding_length n)"
proof -
  define k where "k = n mod 64"
  have k: "k < 64" by (simp add: k_def)
  define w where "w = drop_bit 3 c0"
  have w: "unat w mod 64 = k" using assms by (simp only: w_def unat_drop_3 k_def)
  have "unat (55 - w) mod 64 = (if k \<le> 55 then 55 - k else 119 - k)"
  proof -
    have "uint (55 - w) mod 64 = (55 - uint w) mod 2 ^ 32 mod 64" by (simp add: uint_word_ariths)
    also have "\<dots> = (55 - uint w) mod 64" by (rule mod_mod_cancel) simp
    also have "\<dots> = (55 - uint w mod 64) mod 64" by (simp add: mod_diff_right_eq)
    also have "uint w mod 64 = int k"
    proof -
      have "uint w mod 64 = int (unat w mod 64)" by (simp add: zmod_int)
      then show ?thesis by (simp only: w)
    qed
    also have "(55 - int k) mod 64 = int (if k \<le> 55 then 55 - k else 119 - k)"
    proof (cases "k \<le> 55")
      case True
      then show ?thesis by (simp add: of_nat_diff)
    next
      case False
      have "(55 - int k) mod 64 = (55 - int k + 64) mod 64" by (simp only: mod_add_self2)
      also have "\<dots> = 119 - int k" using False k by simp
      also have "\<dots> = int (if k \<le> 55 then 55 - k else 119 - k)" using False k by (auto simp: of_nat_diff)
      finally show ?thesis .
    qed
    finally have "int (unat (55 - w) mod 64) = int (if k \<le> 55 then 55 - k else 119 - k)"
      by (simp add: zmod_int)
    then show ?thesis by (simp only: of_nat_eq_iff)
  qed
  moreover have "uint ((55 - w) AND 63) = int (unat (55 - w) mod 64)"
    by (simp only: uint_nat unat_and_63)
  ultimately show ?thesis using k unfolding w_def [symmetric] padding_length_def k_def [symmetric] by auto
qed

lemma md5_finish_digest:
  assumes rep: "md5_rep s m"
  shows "md5_finish s = md5_digest m"
proof -
  have cnt: "unat (count0 s) + 2 ^ 32 * unat (count1 s) = 8 * length m mod 2 ^ 64" using rep by (simp add: md5_rep_def)
  let ?n = "padding_length (length m)"
  let ?zeros = "0x80 # replicate (?n - 1) (0 :: u8)"
  let ?data = "word_bytes (count0 s) @ word_bytes (count1 s)"
  have n: "uint ((55 - drop_bit 3 (count0 s)) AND 63) + 1 = int ?n"
    by (rule finish_padding) (rule count_low(3) [OF cnt])
  have pad: "take ?n md5_pad = ?zeros" "length ?zeros = ?n"
    using padding_bounds(1,2) [of "length m"] by (cases ?n; simp add: md5_pad_def)+
  have take: "md5_append s md5_pad (int ?n) = md5_append s ?zeros (int (length ?zeros))"
    using pad by (simp add: md5_append_def)
  have "md5_rep (md5_append s ?zeros (int (length ?zeros))) (m @ ?zeros)"
    by (rule md5_rep_append [OF rep]) (use padding_bounds(2) [of "length m"] pad(2) in simp)
  from md5_rep_append [OF this, of ?data]
  have "md5_rep (md5_append (md5_append s md5_pad (int ?n)) ?data 8) (m @ ?zeros @ ?data)"
    unfolding take by simp
  moreover have "m @ ?zeros @ ?data = padded m" using count_words [OF cnt] by (simp add: padded_def)
  ultimately have "abcd (md5_append (md5_append s md5_pad (int ?n)) ?data 8) = md5_blocks md5_init_regs (padded m)"
    by (simp add: md5_rep_def)
  then show ?thesis by (simp add: md5_finish_def md5_digest_def Let_def n)
qed

text \<open>A message in pieces of fewer than \<open>2 ^ 28\<close> bytes.\<close>

definition md5_appends :: "md5_state \<Rightarrow> u8 list list \<Rightarrow> md5_state" where
  "md5_appends = foldl (\<lambda>s d. md5_append s d (int (length d)))"

lemma md5_rep_appends:
  "md5_rep s m \<Longrightarrow> \<forall>d \<in> set ds. length d < 2 ^ 28 \<Longrightarrow> md5_rep (md5_appends s ds) (m @ concat ds)"
proof (induction ds arbitrary: s m)
  case (Cons d ds)
  have "md5_rep (md5_append s d (int (length d))) (m @ d)" by (rule md5_rep_append) (use Cons.prems in simp_all)
  then show ?case using Cons.IH [of _ "m @ d"] Cons.prems(2) by (simp add: md5_appends_def)
qed (simp add: md5_appends_def)

lemma md5_appends_digest:
  "length g = 64 \<Longrightarrow> \<forall>d \<in> set ds. length d < 2 ^ 28 \<Longrightarrow> md5_finish (md5_appends (md5_init g) ds) = md5_digest (concat ds)"
  using md5_finish_digest md5_rep_appends [OF md5_rep_init] by fastforce

end
