(* ===== verification/Md5Old.thy ===== *)
theory Md5Old
  imports Md5
begin

text \<open>
  The MD5 of the image builder of lab 3 (\<open>src/lab3/md5.c\<close>), an independent implementation with
  its own buffering, padding and length: the reduction to the reference of \<^theory_text>\<open>Md5\<close>, the agreement
  with the implementation of lab 4, and the lengths it gets wrong. On the little-endian machine
  the words of a block are copied as they lie.
\<close>

section \<open>The block function\<close>

definition old_FF :: "u32 \<Rightarrow> u32 \<Rightarrow> u32 \<Rightarrow> u32" where "old_FF b c d = d XOR (b AND (c XOR d))"
definition old_FG :: "u32 \<Rightarrow> u32 \<Rightarrow> u32 \<Rightarrow> u32" where "old_FG b c d = old_FF d b c"
definition old_FH :: "u32 \<Rightarrow> u32 \<Rightarrow> u32 \<Rightarrow> u32" where "old_FH b c d = b XOR c XOR d"
definition old_FI :: "u32 \<Rightarrow> u32 \<Rightarrow> u32 \<Rightarrow> u32" where "old_FI b c d = c XOR (b OR NOT d)"

definition old_op :: "(u32 \<Rightarrow> u32 \<Rightarrow> u32 \<Rightarrow> u32) \<Rightarrow> u8 list \<Rightarrow> nat \<times> nat \<times> u32 \<Rightarrow> regs \<Rightarrow> regs" where
  "old_op f data op r =
     (let (k, s, T) = op; (a, b, c, d) = r; a1 = a + (f b c d + block_word data k + T); a2 = rotate_left a1 s
      in (d, a2 + b, b, c))"

definition old_round_1 :: "(nat \<times> nat \<times> u32) list" where
  "old_round_1 =
    [(0, 7, 0xd76aa478), (1, 12, 0xe8c7b756), (2, 17, 0x242070db), (3, 22, 0xc1bdceee),
     (4, 7, 0xf57c0faf), (5, 12, 0x4787c62a), (6, 17, 0xa8304613), (7, 22, 0xfd469501),
     (8, 7, 0x698098d8), (9, 12, 0x8b44f7af), (10, 17, 0xffff5bb1), (11, 22, 0x895cd7be),
     (12, 7, 0x6b901122), (13, 12, 0xfd987193), (14, 17, 0xa679438e), (15, 22, 0x49b40821)]"

definition old_round_2 :: "(nat \<times> nat \<times> u32) list" where
  "old_round_2 =
    [(1, 5, 0xf61e2562), (6, 9, 0xc040b340), (11, 14, 0x265e5a51), (0, 20, 0xe9b6c7aa),
     (5, 5, 0xd62f105d), (10, 9, 0x02441453), (15, 14, 0xd8a1e681), (4, 20, 0xe7d3fbc8),
     (9, 5, 0x21e1cde6), (14, 9, 0xc33707d6), (3, 14, 0xf4d50d87), (8, 20, 0x455a14ed),
     (13, 5, 0xa9e3e905), (2, 9, 0xfcefa3f8), (7, 14, 0x676f02d9), (12, 20, 0x8d2a4c8a)]"

definition old_round_3 :: "(nat \<times> nat \<times> u32) list" where
  "old_round_3 =
    [(5, 4, 0xfffa3942), (8, 11, 0x8771f681), (11, 16, 0x6d9d6122), (14, 23, 0xfde5380c),
     (1, 4, 0xa4beea44), (4, 11, 0x4bdecfa9), (7, 16, 0xf6bb4b60), (10, 23, 0xbebfbc70),
     (13, 4, 0x289b7ec6), (0, 11, 0xeaa127fa), (3, 16, 0xd4ef3085), (6, 23, 0x04881d05),
     (9, 4, 0xd9d4d039), (12, 11, 0xe6db99e5), (15, 16, 0x1fa27cf8), (2, 23, 0xc4ac5665)]"

definition old_round_4 :: "(nat \<times> nat \<times> u32) list" where
  "old_round_4 =
    [(0, 6, 0xf4292244), (7, 10, 0x432aff97), (14, 15, 0xab9423a7), (5, 21, 0xfc93a039),
     (12, 6, 0x655b59c3), (3, 10, 0x8f0ccc92), (10, 15, 0xffeff47d), (1, 21, 0x85845dd1),
     (8, 6, 0x6fa87e4f), (15, 10, 0xfe2ce6e0), (6, 15, 0xa3014314), (13, 21, 0x4e0811a1),
     (4, 6, 0xf7537e82), (11, 10, 0xbd3af235), (2, 15, 0x2ad7d2bb), (9, 21, 0xeb86d391)]"

definition old_transform :: "u8 list \<Rightarrow> regs \<Rightarrow> regs" where
  "old_transform data r =
     (let (a0, b0, c0, d0) = r;
          (a, b, c, d) = fold (old_op old_FI data) old_round_4 (fold (old_op old_FH data) old_round_3
            (fold (old_op old_FG data) old_round_2 (fold (old_op old_FF data) old_round_1 r)))
      in (a0 + a, b0 + b, c0 + c, d0 + d))"

section \<open>The context\<close>

record md5_context =
  regs :: regs
  nblocks :: u32
  ctx_buf :: "u8 list"
  ctx_count :: nat
  finalized :: bool

definition old_init :: "u8 list \<Rightarrow> md5_context" where
  "old_init garbage =
     \<lparr>regs = (0x67452301, 0xefcdab89, 0x98badcfe, 0x10325476), nblocks = 0, ctx_buf = garbage, ctx_count = 0,
      finalized = False\<rparr>"

definition old_flush :: "md5_context \<Rightarrow> md5_context" where
  "old_flush h =
     (if ctx_count h = 64 then h\<lparr>regs := old_transform (ctx_buf h) (regs h), ctx_count := 0, nblocks := nblocks h + 1\<rparr>
      else h)"

fun fill_loop :: "md5_context \<Rightarrow> u8 list \<Rightarrow> md5_context \<times> u8 list" where
  "fill_loop h [] = (h, [])"
| "fill_loop h (x # xs) =
     (if ctx_count h < 64 then fill_loop (h\<lparr>ctx_buf := (ctx_buf h)[ctx_count h := x], ctx_count := ctx_count h + 1\<rparr>) xs
      else (h, x # xs))"

function block_loop :: "md5_context \<Rightarrow> u8 list \<Rightarrow> md5_context \<times> u8 list" where
  "block_loop h p =
     (if length p \<ge> 64
      then block_loop (h\<lparr>regs := old_transform (take 64 p) (regs h), ctx_count := 0, nblocks := nblocks h + 1\<rparr>) (drop 64 p)
      else (h, p))"
  by pat_completeness auto
termination
  by (relation "measure (\<lambda>(_, p). length p)") auto

declare block_loop.simps [simp del]

definition old_update :: "md5_context \<Rightarrow> u8 list option \<Rightarrow> md5_context" where
  "old_update h inbuf =
     (let h0 = old_flush h in
      case inbuf of
        None \<Rightarrow> h0
      | Some p \<Rightarrow>
          if ctx_count h0 \<noteq> 0 then
            (let (h1, q) = fill_loop h0 p; h2 = old_flush h1 in
             if q = [] then h2
             else (let (h3, q3) = block_loop h2 q in fst (fill_loop h3 q3)))
          else (let (h3, q3) = block_loop h0 p in fst (fill_loop h3 q3)))"

text \<open>The 64-bit length that \<open>do_final\<close> computes, high word first.\<close>

definition old_length :: "u32 \<Rightarrow> nat \<Rightarrow> u32 \<times> u32" where
  "old_length blocks count =
     (let lsb1 = push_bit 6 blocks;
          msb1 = (if lsb1 < blocks then 1 else 0) + drop_bit 26 blocks;
          lsb2 = lsb1 + of_nat count;
          msb2 = (if lsb2 < lsb1 then msb1 + 1 else msb1);
          lsb3 = push_bit 3 lsb2;
          msb3 = (if lsb3 < lsb2 then msb2 + 1 else msb2)
      in (msb3 + drop_bit 29 lsb2, lsb3))"

fun zero_loop :: "nat \<Rightarrow> md5_context \<Rightarrow> md5_context" where
  "zero_loop 0 h = h"
| "zero_loop (Suc n) h = zero_loop n (h\<lparr>ctx_buf := (ctx_buf h)[ctx_count h := 0], ctx_count := ctx_count h + 1\<rparr>)"

definition old_pad :: "md5_context \<Rightarrow> md5_context" where
  "old_pad h =
     (let h1 = h\<lparr>ctx_buf := (ctx_buf h)[ctx_count h := 0x80], ctx_count := ctx_count h + 1\<rparr> in
      if ctx_count h < 56 then zero_loop (56 - ctx_count h1) h1
      else
        let h2 = old_update (zero_loop (64 - ctx_count h1) h1) None
        in h2\<lparr>ctx_buf := copy_to (ctx_buf h2) 0 (replicate 56 0)\<rparr>)"

definition old_do_final :: "md5_context \<Rightarrow> md5_context" where
  "old_do_final h =
     (let h0 = old_update h None;
          (msb, lsb) = old_length (nblocks h0) (ctx_count h0);
          h1 = old_pad h0;
          b = copy_to (ctx_buf h1) 56 (word_bytes lsb @ word_bytes msb);
          r = old_transform b (regs h1)
      in h1\<lparr>regs := r, ctx_buf := copy_to b 0 (regs_bytes r), finalized := True\<rparr>)"

definition old_final :: "md5_context \<Rightarrow> u8 list" where
  "old_final h = take 16 (ctx_buf (if finalized h then h else old_do_final h))"

section \<open>The block function is the same\<close>

lemma old_functions: "old_FF = md5_F" "old_FG = md5_G" "old_FH = md5_H" "old_FI = md5_I"
  by (intro ext bit_word_eqI; auto simp: old_FF_def md5_F_def old_FG_def md5_G_def old_FH_def md5_H_def old_FI_def md5_I_def
      bit_simps)+

lemma old_op_set: "old_op f data op r = md5_set f data op r"
  by (cases op; cases r) (simp add: old_op_def md5_set_def Let_def add.assoc)

lemma old_rounds: "old_round_1 = round_1" "old_round_2 = round_2" "old_round_3 = round_3" "old_round_4 = round_4"
  by (simp_all add: old_round_1_def round_1_def old_round_2_def round_2_def old_round_3_def round_3_def old_round_4_def
      round_4_def md5_T_def)

lemma old_transform_process: "old_transform data r = md5_process data r"
proof -
  have "old_op f data = md5_set f data" for f by (intro ext) (rule old_op_set)
  then show ?thesis by (simp add: old_transform_def md5_process_def old_functions old_rounds)
qed

section \<open>A message in pieces\<close>

definition old_rep :: "md5_context \<Rightarrow> u8 list \<Rightarrow> bool" where
  "old_rep h m \<longleftrightarrow> regs h = md5_blocks md5_init_regs m \<and> length (ctx_buf h) = 64 \<and> ctx_count h = length m mod 64 \<and>
     take (ctx_count h) (ctx_buf h) = remainder m \<and> nblocks h = of_nat (length m div 64) \<and> \<not> finalized h"

lemma old_rep_init: "length g = 64 \<Longrightarrow> old_rep (old_init g) []"
  by (simp add: old_rep_def old_init_def md5_init_regs_def md5_blocks_def full_blocks.simps [of _ "[]"] remainder_def)

lemma copy_to_step:
  assumes "length b = 64" "i < 64"
  shows "copy_to (b[i := x]) (Suc i) xs = copy_to b i (x # xs)" "length (b[i := x]) = 64"
  using assms by (simp_all add: copy_to_def take_Suc_conv_app_nth drop_update_swap take_update_swap list_update_append)

lemma fill_loop_result:
  "length (ctx_buf h) = 64 \<Longrightarrow> ctx_count h \<le> 64 \<Longrightarrow>
   fill_loop h xs =
     (let n = min (length xs) (64 - ctx_count h)
      in (h\<lparr>ctx_buf := copy_to (ctx_buf h) (ctx_count h) (take n xs), ctx_count := ctx_count h + n\<rparr>, drop n xs))"
proof (induction h xs rule: fill_loop.induct)
  case (1 h)
  then show ?case by (simp add: copy_to_def)
next
  case (2 h x xs)
  show ?case
  proof (cases "ctx_count h < 64")
    case True
    then have "64 - ctx_count h = Suc (64 - (ctx_count h + 1))" by simp
    then show ?thesis using 2 True copy_to_step [OF 2(2) True]
      by (simp add: Let_def)
  next
    case False
    then show ?thesis using 2 by (simp add: copy_to_def)
  qed
qed

lemma block_loop_result:
  "block_loop h p =
     (h\<lparr>regs := fst (full_blocks (regs h) p), ctx_count := (if 64 \<le> length p then 0 else ctx_count h),
       nblocks := nblocks h + of_nat (length p div 64)\<rparr>, snd (full_blocks (regs h) p))"
proof (induction h p rule: block_loop.induct)
  case (1 h p)
  show ?case
  proof (cases "64 \<le> length p")
    case True
    have "length p div 64 = Suc (length (drop 64 p) div 64)" using True by (simp add: le_div_geq)
    then show ?thesis using 1 True full_blocks.simps [of "regs h" p]
      by (simp add: block_loop.simps [of h p] old_transform_process add.assoc)
  next
    case False
    then show ?thesis by (simp add: block_loop.simps [of h p] full_blocks.simps [of "regs h" p])
  qed
qed

lemma old_flush_full:
  "ctx_count h = 64 \<Longrightarrow> old_flush h = h\<lparr>regs := md5_process (ctx_buf h) (regs h), ctx_count := 0, nblocks := nblocks h + 1\<rparr>"
  "ctx_count h < 64 \<Longrightarrow> old_flush h = h"
  by (simp_all add: old_flush_def old_transform_process)

text \<open>Whole blocks and a rest, from a context that is at the end of a block.\<close>

lemma old_update_blocks:
  assumes "regs h = md5_blocks md5_init_regs m" "length (ctx_buf h) = 64" "ctx_count h = 0" "length m mod 64 = 0"
    "nblocks h = of_nat (length m div 64)" "\<not> finalized h"
  shows "old_rep (let (h3, q3) = block_loop h q in fst (fill_loop h3 q3)) (m @ q)"
proof -
  have full: "full_blocks (regs h) q = (md5_blocks md5_init_regs (m @ q), remainder (m @ q))"
    using full_blocks_append [OF assms(4), of md5_init_regs q]
    by (simp add: assms(1) full_blocks_rest [of _ "m @ q"] md5_blocks_whole)
  let ?r = "remainder (m @ q)"
  have r: "length ?r < 64" "length ?r = length (m @ q) mod 64" by (simp_all add: whole_remainder(3))
  have blocks: "nblocks h + of_nat (length q div 64) = of_nat (length (m @ q) div 64)"
  proof -
    have "length (m @ q) div 64 = length m div 64 + length q div 64" using assms(4) by (simp add: div_add mod_0_imp_dvd div_plus_div_distrib_dvd_left)
    then show ?thesis using assms(5) by simp
  qed
  define h3 where "h3 = h\<lparr>regs := md5_blocks md5_init_regs (m @ q), ctx_count := 0, nblocks := of_nat (length (m @ q) div 64)\<rparr>"
  have "block_loop h q = (h3, ?r)"
    by (simp add: block_loop_result full h3_def assms(3) blocks)
  moreover have "fill_loop h3 ?r = (h3\<lparr>ctx_buf := copy_to (ctx_buf h) 0 ?r, ctx_count := length ?r\<rparr>, [])"
    using fill_loop_result [of h3 ?r] assms(2) r(1) by (simp add: h3_def)
  ultimately show ?thesis
    using copy_to_buf [OF assms(2), of 0 ?r] r assms(6) by (simp add: old_rep_def h3_def)
qed

lemma old_rep_update:
  assumes rep: "old_rep h m"
  shows "old_rep (old_update h (Some p)) (m @ p)"
proof -
  define c where "c = length m mod 64"
  have h: "regs h = md5_blocks md5_init_regs m" "length (ctx_buf h) = 64" "ctx_count h = c"
    "take c (ctx_buf h) = remainder m" "nblocks h = of_nat (length m div 64)" "\<not> finalized h"
    using rep unfolding old_rep_def c_def [symmetric] by auto
  have c: "c < 64" by (simp add: c_def)
  have nf: "old_flush h = h" using old_flush_full(2) [of h] h(3) c by simp
  show ?thesis
  proof (cases "c = 0")
    case True
    have "length m mod 64 = 0" using True by (simp add: c_def)
    from old_update_blocks [OF h(1,2) _ this h(5,6)] show ?thesis
      using True h(3) nf by (simp add: old_update_def)
  next
    case False
    define n where "n = min (length p) (64 - c)"
    have fill: "fill_loop h p = (h\<lparr>ctx_buf := copy_to (ctx_buf h) c (take n p), ctx_count := c + n\<rparr>, drop n p)"
      using fill_loop_result [of h p] h(2,3) c by (simp add: n_def Let_def)
    have b: "length (copy_to (ctx_buf h) c (take n p)) = 64" "take (c + n) (copy_to (ctx_buf h) c (take n p)) = remainder m @ take n p"
    proof -
      have "length (take n p) = n" "c + n \<le> 64" using c by (simp_all add: n_def)
      then show "length (copy_to (ctx_buf h) c (take n p)) = 64"
        "take (c + n) (copy_to (ctx_buf h) c (take n p)) = remainder m @ take n p"
        using copy_to_buf [OF h(2), of c "take n p"] h(4) by simp_all
    qed
    show ?thesis
    proof (cases "c + n < 64")
      case True
      then have all: "n = length p" "drop n p = []" by (auto simp: n_def min_def split: if_splits)
      have small: "length m mod 64 + length p < 64" using True all by (simp add: c_def)
      have "length (m @ p) mod 64 = c + n" "length (m @ p) div 64 = length m div 64"
      proof -
        have "length (m @ p) = 64 * (length m div 64) + (c + n)" using all by (simp add: c_def)
        then show "length (m @ p) mod 64 = c + n" "length (m @ p) div 64 = length m div 64"
          using True by (metis mod_less mod_mult_self4, metis add.right_neutral div_less div_mult_self4 zero_neq_numeral)
      qed
      moreover have "md5_blocks md5_init_regs (m @ p) = md5_blocks md5_init_regs m"
        using remainder_small [OF small] md5_blocks_whole [of md5_init_regs "m @ p"] md5_blocks_whole [of md5_init_regs m] by simp
      moreover have "old_update h (Some p) = h\<lparr>ctx_buf := copy_to (ctx_buf h) c (take n p), ctx_count := c + n\<rparr>"
        using False True h(3) nf all by (simp add: old_update_def fill old_flush_full(2))
      ultimately show ?thesis using remainder_small [OF small] b h all by (simp add: old_rep_def)
    next
      case full: False
      then have n: "c + n = 64" using c by (simp add: n_def)
      then have b': "copy_to (ctx_buf h) c (take n p) = remainder m @ take n p" using b by simp
      have len: "length (remainder m @ take n p) = 64" using b(1) b' by simp
      have m': "length (m @ take n p) mod 64 = 0" "length (m @ take n p) div 64 = length m div 64 + 1"
      proof -
        have "n \<le> length p" by (simp add: n_def)
        moreover have "length m = 64 * (length m div 64) + c" by (simp add: c_def)
        ultimately have "length (m @ take n p) = 64 * (length m div 64 + 1)" using n by simp
        then show "length (m @ take n p) mod 64 = 0" "length (m @ take n p) div 64 = length m div 64 + 1" by simp_all
      qed
      define h2 where "h2 = h\<lparr>ctx_buf := remainder m @ take n p, ctx_count := 0,
        regs := md5_blocks md5_init_regs (m @ take n p), nblocks := of_nat (length (m @ take n p) div 64)\<rparr>"
      have "full_blocks (md5_process (remainder m @ take n p) (md5_blocks md5_init_regs m)) [] =
          (md5_blocks md5_init_regs (m @ take n p), remainder (m @ take n p))"
        using full_blocks_completed [OF len, of md5_init_regs "[]"] by simp
      then have "md5_process (remainder m @ take n p) (md5_blocks md5_init_regs m) = md5_blocks md5_init_regs (m @ take n p)"
        by (simp add: full_blocks.simps [of _ "[]"])
      then have flush: "old_flush (h\<lparr>ctx_buf := remainder m @ take n p, ctx_count := 64\<rparr>) = h2"
        using old_flush_full(1) [of "h\<lparr>ctx_buf := remainder m @ take n p, ctx_count := 64\<rparr>"] h(1,5) m'(2)
        by (simp add: h2_def add.commute)
      have h2: "old_rep (let (h3, q3) = block_loop h2 (drop n p) in fst (fill_loop h3 q3)) ((m @ take n p) @ drop n p)"
        by (rule old_update_blocks) (use len m'(1) h(6) in \<open>simp_all add: h2_def\<close>)
      have upd: "old_update h (Some p) = (let (h3, q3) = block_loop h2 (drop n p) in fst (fill_loop h3 q3))"
      proof (cases "drop n p = []")
        case True
        have "block_loop h2 [] = (h2, [])" by (simp add: block_loop.simps)
        then show ?thesis using True False h(3) nf fill n b' flush by (simp add: old_update_def)
      next
        case rest: False
        then show ?thesis using False h(3) nf fill n b' flush by (simp add: old_update_def Let_def)
      qed
      show ?thesis using h2 unfolding upd by simp
    qed
  qed
qed

section \<open>The length and the padding\<close>

lemma old_length_small:
  assumes "n < 2 ^ 29"
  shows "old_length (of_nat (n div 64)) (n mod 64) = (0, of_nat (8 * n))"
proof -
  define q k where "q = n div 64" and "k = n mod 64"
  have n: "n = 64 * q + k" "k < 64" "q < 2 ^ 23" using assms by (simp_all add: q_def k_def less_mult_imp_div_less)
  have u: "unat (of_nat x :: u32) = x" if "x < 4294967296" for x
    unfolding unat_of_nat using that by (simp add: take_bit_nat_eq_self)
  have s1: "push_bit 6 (of_nat q :: u32) = of_nat (64 * q)" by (simp add: push_bit_eq_mult mult.commute)
  have s2: "of_nat (64 * q) + of_nat k = (of_nat n :: u32)" using n(1) by simp
  have s3: "push_bit 3 (of_nat n :: u32) = of_nat (8 * n)" by (simp add: push_bit_eq_mult mult.commute)
  have big: "64 * q < 4294967296" "q < 4294967296" "n < 4294967296" "8 * n < 4294967296" using assms n by simp_all
  have no: "\<not> (of_nat (64 * q) :: u32) < of_nat q" "\<not> (of_nat n :: u32) < of_nat (64 * q)" "\<not> (of_nat (8 * n) :: u32) < of_nat n"
    unfolding word_less_nat_alt using u [OF big(1)] u [OF big(2)] u [OF big(3)] u [OF big(4)] n(1) by simp_all
  have d: "drop_bit 26 (of_nat q :: u32) = 0" "drop_bit 29 (of_nat n :: u32) = 0"
  proof -
    have "unat (drop_bit 26 (of_nat q :: u32)) = 0" "unat (drop_bit 29 (of_nat n :: u32)) = 0"
      using u [OF big(2)] u [OF big(3)] n(3) assms by (simp_all add: drop_bit_eq_div unat_div)
    then show "drop_bit 26 (of_nat q :: u32) = 0" "drop_bit 29 (of_nat n :: u32) = 0" by (simp_all only: unat_eq_0)
  qed
  show ?thesis unfolding old_length_def q_def [symmetric] k_def [symmetric] Let_def s1 s2 s3 using no d by simp
qed

lemma zero_loop_result:
  "length (ctx_buf h) = 64 \<Longrightarrow> ctx_count h + n \<le> 64 \<Longrightarrow>
   zero_loop n h = h\<lparr>ctx_buf := copy_to (ctx_buf h) (ctx_count h) (replicate n 0), ctx_count := ctx_count h + n\<rparr>"
proof (induction n h rule: zero_loop.induct)
  case (1 h)
  then show ?case by (simp add: copy_to_def)
next
  case (2 n h)
  have "ctx_count h < 64" using 2(3) by simp
  from copy_to_step [OF 2(2) this, of 0] show ?case using 2 by simp
qed

lemma copy_length_behind:
  "length y = 64 \<Longrightarrow> length t = 8 \<Longrightarrow> copy_to (copy_to y 0 (replicate 56 0)) 56 t = replicate 56 0 @ t"
  by (simp add: copy_to_def)

lemma old_do_final_block:
  assumes "old_rep h m" "length m < 2 ^ 29"
  shows "take 16 (ctx_buf (old_do_final h)) = md5_digest m"
proof -
  define c where "c = length m mod 64"
  have h: "regs h = md5_blocks md5_init_regs m" "length (ctx_buf h) = 64" "ctx_count h = c"
    "take c (ctx_buf h) = remainder m" "nblocks h = of_nat (length m div 64)"
    using assms(1) unfolding old_rep_def c_def [symmetric] by auto
  have c: "c < 64" by (simp add: c_def)
  have nf: "old_update h None = h" using old_flush_full(2) [of h] h(3) c by (simp add: old_update_def)
  have len: "old_length (nblocks h) (ctx_count h) = (0, of_nat (8 * length m))"
    using old_length_small [OF assms(2)] h(3,5) by (simp add: c_def)
  let ?tail = "word_bytes (of_nat (8 * length m)) @ word_bytes (0 :: u32)"
  have high: "8 * length m div 2 ^ 32 = 0" using assms(2) by simp
  have pm: "padded m = m @ 0x80 # replicate (padding_length (length m) - 1) 0 @ ?tail"
    unfolding padded_def high by simp
  define b where "b = copy_to (ctx_buf (old_pad h)) 56 ?tail"
  have fin: "take 16 (ctx_buf (old_do_final h)) = regs_bytes (md5_process b (regs (old_pad h)))"
  proof -
    have "length (regs_bytes r) = 16" for r by (cases r) (simp add: regs_bytes_def)
    then show ?thesis by (simp add: old_do_final_def nf len Let_def b_def old_transform_process copy_to_def)
  qed
  let ?h1 = "h\<lparr>ctx_buf := (ctx_buf h)[c := 0x80], ctx_count := c + 1\<rparr>"
  have zeros: "zero_loop n ?h1 = ?h1\<lparr>ctx_buf := copy_to (ctx_buf h) c (0x80 # replicate n 0), ctx_count := c + 1 + n\<rparr>"
    if "c + 1 + n \<le> 64" for n
    using zero_loop_result [of ?h1 n] copy_to_step(1) [OF h(2) c, of "0x80" "replicate n 0"] copy_to_step(2) [OF h(2) c, of "0x80"] that by simp
  have "md5_process b (regs (old_pad h)) = md5_blocks md5_init_regs (padded m)"
  proof (cases "c < 56")
    case True
    have pad: "padding_length (length m) - 1 = 55 - c" using True by (simp add: padding_length_def c_def)
    have "old_pad h = ?h1\<lparr>ctx_buf := copy_to (ctx_buf h) c (0x80 # replicate (55 - c) 0), ctx_count := 56\<rparr>"
      using zeros [of "55 - c"] True h(3) by (simp add: old_pad_def)
    moreover have "length (remainder m) = c" "56 - c = Suc (55 - c)" "64 - c = Suc (63 - c)"
      using True by (simp_all add: whole_remainder(3) c_def)
    ultimately have "b = remainder m @ (0x80 # replicate (55 - c) 0) @ ?tail" "regs (old_pad h) = md5_blocks md5_init_regs m"
      using True h(1,2,4) by (simp_all add: b_def copy_to_def)
    moreover have l: "length (remainder m @ (0x80 # replicate (55 - c) 0) @ ?tail) = 64"
      using True by (simp add: whole_remainder(3) c_def [symmetric])
    ultimately show ?thesis
      using full_blocks_completed [OF l, of md5_init_regs "[]"] pad
      by (simp add: pm full_blocks.simps [of _ "[]"])
  next
    case False
    have pad: "padding_length (length m) - 1 = (63 - c) + 56" using False c by (simp add: padding_length_def c_def)
    let ?b1 = "copy_to (ctx_buf h) c (0x80 # replicate (63 - c) 0)"
    have "length (remainder m) = c" by (simp add: whole_remainder(3) c_def)
    then have b1: "?b1 = remainder m @ 0x80 # replicate (63 - c) 0" "length ?b1 = 64"
      using c h(2,4) by (simp_all add: copy_to_def)
    have l: "length (remainder m @ 0x80 # replicate (63 - c) 0) = 64" using b1 by simp
    have "zero_loop (63 - c) ?h1 = ?h1\<lparr>ctx_buf := ?b1, ctx_count := 64\<rparr>" using zeros [of "63 - c"] c by simp
    then have op: "old_pad h = ?h1\<lparr>ctx_buf := copy_to ?b1 0 (replicate 56 0), ctx_count := 0,
        regs := md5_process ?b1 (regs h), nblocks := nblocks h + 1\<rparr>"
      using False h(3) by (simp add: old_pad_def Let_def old_update_def old_flush_full(1))
    have "b = replicate 56 0 @ ?tail" unfolding b_def op using copy_length_behind [OF b1(2), of ?tail] by simp
    moreover have "full_blocks (md5_process (remainder m @ 0x80 # replicate (63 - c) 0) (md5_blocks md5_init_regs m)) b =
        full_blocks (md5_process b (md5_process (remainder m @ 0x80 # replicate (63 - c) 0) (md5_blocks md5_init_regs m))) []"
      unfolding calculation by (subst full_blocks.simps) simp
    ultimately show ?thesis
      using full_blocks_completed [OF l, of md5_init_regs b] pad b1(1) h(1)
      by (simp add: pm op replicate_add full_blocks.simps [of _ "[]"])
  qed
  then show ?thesis by (simp add: fin md5_digest_def)
qed

definition old_updates :: "md5_context \<Rightarrow> u8 list list \<Rightarrow> md5_context" where
  "old_updates = foldl (\<lambda>h p. old_update h (Some p))"

lemma old_rep_updates: "old_rep h m \<Longrightarrow> old_rep (old_updates h es) (m @ concat es)"
proof (induction es arbitrary: h m)
  case (Cons e es)
  then show ?case using Cons.IH [OF old_rep_update [OF Cons.prems], of e] by (simp add: old_updates_def)
qed (simp add: old_updates_def)

text \<open>
  C20: the two MD5 implementations of the repository compute the same function of the message,
  the digest of RFC 1321: for a message of fewer than \<open>2 ^ 29\<close> bytes that is given to the one of
  lab 4 in any pieces of fewer than \<open>2 ^ 28\<close> bytes and to the one of lab 3 in any other pieces,
  and whatever was in their buffers, the two digests are equal.
\<close>

theorem md5_implementations_agree:
  assumes "concat ds = m" "concat es = m" "length m < 2 ^ 29" "\<forall>d \<in> set ds. length d < 2 ^ 28"
    and "length g = 64" "length g' = 64"
  shows "md5_finish (md5_appends (md5_init g) ds) = md5_digest m \<and>
    old_final (old_updates (old_init g') es) = md5_digest m"
proof
  show "md5_finish (md5_appends (md5_init g) ds) = md5_digest m"
    using md5_appends_digest [OF assms(5,4)] assms(1) by simp
  have rep: "old_rep (old_updates (old_init g') es) m"
    using old_rep_updates [OF old_rep_init [OF assms(6)], of es] assms(2) by simp
  then have "\<not> finalized (old_updates (old_init g') es)" by (simp add: old_rep_def)
  then show "old_final (old_updates (old_init g') es) = md5_digest m"
    using old_do_final_block [OF rep assms(3)] by (simp add: old_final_def)
qed

theorem md5_implementations_agree_witness:
  "md5_finish (md5_appends (md5_init (replicate 64 0)) [[97], [98, 99]]) = md5_digest [97, 98, 99] \<and>
   old_final (old_updates (old_init (replicate 64 1)) [[97, 98], [], [99]]) = md5_digest [97, 98, 99]"
  by (rule md5_implementations_agree) simp_all

text \<open>
  At \<open>2 ^ 29\<close> bytes the carries of \<open>do_final\<close> are counted twice: the high word of the length is
  two instead of one.
\<close>

lemma old_length_wrong: "old_length (of_nat (2 ^ 29 div 64)) (2 ^ 29 mod 64) = (2, 0)"
  by (simp add: old_length_def Let_def push_bit_eq_mult drop_bit_eq_div word_less_nat_alt)

end
