(* ===== verification/Md5Text.thy ===== *)
theory Md5Text
  imports Md5Old
begin

text \<open>
  The printable forms of a digest: 22 characters of six bits in lab 4 (\<open>md5_finish_text\<close>) and 26
  characters of five bits in lab 3 (\<open>md5_final_text\<close>), least significant bits first.
\<close>

definition text_chars :: string where
  "text_chars = ''abcdefghijklmnopqrstuvwxyzABCDEFGHIJKLMNOPQRSTUVWXYZ0123456789_@''"

definition old_text_chars :: string where
  "old_text_chars = ''abcdefghijklmnopqrstuvwxyz234567''"

text \<open>The bits from \<open>pos\<close> on, of this byte and the next one.\<close>

definition digest_value :: "u8 list \<Rightarrow> nat \<Rightarrow> nat" where
  "digest_value digest pos =
     (let first = pos div 8;
          val = unat (digest ! first) div 2 ^ (pos mod 8)
      in if pos + 8 > (first + 1) * 8 \<and> first < 15 then val + unat (digest ! (first + 1)) * 2 ^ (8 - pos mod 8) else val)"

text \<open>Without \<open>allow_at\<close> six ones are written as five.\<close>

function text_loop :: "u8 list \<Rightarrow> bool \<Rightarrow> nat \<Rightarrow> string" where
  "text_loop digest allow_at pos =
     (if pos < 128 then
        let val = digest_value digest pos in
        if val mod 64 = 63 \<and> \<not> allow_at then text_chars ! 31 # text_loop digest allow_at (pos + 5)
        else text_chars ! (val mod 64) # text_loop digest allow_at (pos + 6)
      else [])"
  by pat_completeness auto
termination
  by (relation "measure (\<lambda>(_, _, pos). 128 - pos)") auto

declare text_loop.simps [simp del]

definition md5_finish_text :: "md5_state \<Rightarrow> bool \<Rightarrow> string" where
  "md5_finish_text s allow_at = text_loop (md5_finish s) allow_at 0"

function old_text_loop :: "u8 list \<Rightarrow> nat \<Rightarrow> string" where
  "old_text_loop digest pos =
     (if pos < 128 then old_text_chars ! (digest_value digest pos mod 32) # old_text_loop digest (pos + 5) else [])"
  by pat_completeness auto
termination
  by (relation "measure (\<lambda>(_, pos). 128 - pos)") auto

declare old_text_loop.simps [simp del]

definition old_final_text :: "md5_context \<Rightarrow> string" where
  "old_final_text h = old_text_loop (ctx_buf (if finalized h then h else old_do_final h)) 0"

section \<open>A text determines its digest\<close>

text \<open>The digest as a number, least significant byte first.\<close>

fun digest_number :: "u8 list \<Rightarrow> nat" where
  "digest_number [] = 0"
| "digest_number (b # bs) = unat b + 256 * digest_number bs"

lemma unat_u8: "unat (b :: u8) < 256"
  using unsigned_less [where w = b and ?'a = nat] by simp

lemma digest_number_drop: "digest_number bs div 256 ^ i = digest_number (drop i bs)"
proof (induction i arbitrary: bs)
  case (Suc i)
  show ?case
  proof (cases bs)
    case (Cons b bs')
    have "digest_number bs div 256 ^ Suc i = digest_number bs div 256 div 256 ^ i" by (simp add: div_mult2_eq)
    also have "digest_number bs div 256 = digest_number bs'" using Cons unat_u8 [of b] by simp
    finally show ?thesis using Suc.IH Cons by simp
  qed simp
qed simp

lemma digest_number_less: "digest_number bs < 256 ^ length bs"
proof (induction bs)
  case (Cons b bs)
  have "256 * digest_number bs + 256 \<le> 256 * 256 ^ length bs" using Cons by simp
  then show ?case using unat_u8 [of b] by simp
qed simp

lemma digest_number_inj: "length bs = length cs \<Longrightarrow> digest_number bs = digest_number cs \<Longrightarrow> bs = cs"
proof (induction bs cs rule: list_induct2)
  case (Cons b bs c cs)
  have "unat b = (unat b + 256 * digest_number bs) mod 256" using unat_u8 [of b] by simp
  also have "\<dots> = unat c" using Cons.prems unat_u8 [of c] by simp
  finally have "b = c" by (simp add: word_unat_eq_iff)
  then show ?case using Cons by simp
qed simp

lemma byte_pair_bits:
  fixes b c r :: nat
  assumes "j < 8" "k \<le> 6"
  shows "(b div 2 ^ j + c * 2 ^ (8 - j)) mod 2 ^ k = (b + 256 * (c + 256 * r)) div 2 ^ j mod 2 ^ k"
    "b mod 2 ^ k = (b + 256 * r) mod 2 ^ k"
proof -
  have p: "(256 :: nat) = 2 ^ j * 2 ^ (8 - j)" using assms(1) by (simp flip: power_add)
  have "(b + 256 * (c + 256 * r)) div 2 ^ j = b div 2 ^ j + 2 ^ (8 - j) * (c + 256 * r)"
    by (subst (1) p) (simp add: mult.assoc)
  also have "\<dots> = (b div 2 ^ j + c * 2 ^ (8 - j)) + 2 ^ k * (2 ^ (16 - j - k) * r)"
  proof -
    have "(2 :: nat) ^ (8 - j) * 256 = 2 ^ k * 2 ^ (16 - j - k)"
    proof -
      have "(2 :: nat) ^ (8 - j) * 2 ^ 8 = 2 ^ (8 - j + 8)" by (simp only: power_add)
      also have "8 - j + 8 = k + (16 - j - k)" using assms by linarith
      finally show ?thesis by (simp add: power_add)
    qed
    then show ?thesis by (simp add: algebra_simps)
  qed
  finally show "(b div 2 ^ j + c * 2 ^ (8 - j)) mod 2 ^ k = (b + 256 * (c + 256 * r)) div 2 ^ j mod 2 ^ k" by simp
  have "(256 :: nat) = 2 ^ k * 2 ^ (8 - k)" using assms(2) by (simp flip: power_add)
  then have "256 * r = 2 ^ k * (2 ^ (8 - k) * r)" by (simp only: mult.assoc)
  then show "b mod 2 ^ k = (b + 256 * r) mod 2 ^ k" by (simp only: mod_mult_self2)
qed

lemma digest_number_bits:
  assumes "length bs = 16" "pos < 128" "k \<le> 6"
  shows "digest_value bs pos mod 2 ^ k = digest_number bs div 2 ^ pos mod 2 ^ k"
proof -
  define i j where "i = pos div 8" and "j = pos mod 8"
  have pos: "pos = 8 * i + j" "j < 8" "i < 16" using assms(2) by (simp_all add: i_def j_def)
  have "(2 :: nat) ^ pos = 256 ^ i * 2 ^ j" by (simp add: pos(1) power_add power_mult)
  then have "digest_number bs div 2 ^ pos = digest_number (drop i bs) div 2 ^ j"
    by (simp add: div_mult2_eq digest_number_drop)
  also have "drop i bs = bs ! i # drop (Suc i) bs" using assms(1) pos(3) by (simp add: Cons_nth_drop_Suc)
  finally have n: "digest_number bs div 2 ^ pos = (unat (bs ! i) + 256 * digest_number (drop (Suc i) bs)) div 2 ^ j" by simp
  have dv: "digest_value bs pos =
      (if 0 < j \<and> i < 15 then unat (bs ! i) div 2 ^ j + unat (bs ! (i + 1)) * 2 ^ (8 - j) else unat (bs ! i) div 2 ^ j)"
    using pos by (auto simp: digest_value_def Let_def)
  show ?thesis
  proof (cases "i < 15")
    case True
    then have "drop (Suc i) bs = bs ! (i + 1) # drop (Suc (i + 1)) bs" using assms(1) by (simp add: Cons_nth_drop_Suc)
    then have d: "digest_number (drop (Suc i) bs) = unat (bs ! (i + 1)) + 256 * digest_number (drop (Suc (i + 1)) bs)" by simp
    show ?thesis
    proof (cases "j = 0")
      case True
      then show ?thesis using byte_pair_bits(2) [OF pos(2) assms(3)] unfolding n dv by simp
    next
      case False
      then show ?thesis using \<open>i < 15\<close> byte_pair_bits(1) [OF pos(2) assms(3)] unfolding n dv d by simp
    qed
  next
    case False
    then have "drop (Suc i) bs = []" using assms(1) by simp
    then show ?thesis using False unfolding n dv by simp
  qed
qed

lemma digest_step:
  assumes "length bs = 16" "length cs = 16" "pos < 128" "k \<le> 6"
    and "digest_value bs pos mod 2 ^ k = digest_value cs pos mod 2 ^ k"
    and "digest_number bs div 2 ^ (pos + k) = digest_number cs div 2 ^ (pos + k)"
  shows "digest_number bs div 2 ^ pos = digest_number cs div 2 ^ pos"
proof -
  have split: "x div 2 ^ pos = 2 ^ k * (x div 2 ^ (pos + k)) + x div 2 ^ pos mod 2 ^ k" for x :: nat
    by (simp add: power_add div_mult2_eq)
  have bits: "digest_number bs div 2 ^ pos mod 2 ^ k = digest_number cs div 2 ^ pos mod 2 ^ k"
    using digest_number_bits [OF assms(1,3,4)] digest_number_bits [OF assms(2,3,4)] assms(5) by simp
  have "digest_number bs div 2 ^ pos =
      2 ^ k * (digest_number cs div 2 ^ (pos + k)) + digest_number cs div 2 ^ pos mod 2 ^ k"
    using split [of "digest_number bs"] unfolding assms(6) bits .
  also have "\<dots> = digest_number cs div 2 ^ pos" by (rule split [symmetric])
  finally show ?thesis .
qed

lemma digest_end: "length bs = 16 \<Longrightarrow> \<not> pos < 128 \<Longrightarrow> digest_number bs div 2 ^ pos = 0"
proof -
  assume a: "length bs = 16" "\<not> pos < 128"
  have "digest_number bs < 2 ^ 128" using digest_number_less [of bs] a(1) by simp
  also have "(2 :: nat) ^ 128 \<le> 2 ^ pos" using a(2) by (intro power_increasing) simp_all
  finally show ?thesis by simp
qed

lemma text_loop_inj:
  assumes l: "length bs = 16" "length cs = 16"
  shows "text_loop bs True pos = text_loop cs True pos \<Longrightarrow> digest_number bs div 2 ^ pos = digest_number cs div 2 ^ pos"
proof (induction "128 - pos" arbitrary: pos rule: less_induct)
  case less
  show ?case
  proof (cases "pos < 128")
    case True
    then have eq: "text_chars ! (digest_value bs pos mod 64) = text_chars ! (digest_value cs pos mod 64)"
      "text_loop bs True (pos + 6) = text_loop cs True (pos + 6)"
      using less(2) by (simp_all add: text_loop.simps [of bs] text_loop.simps [of cs] Let_def)
    have "distinct text_chars \<and> length text_chars = 64" by code_simp
    then have "digest_value bs pos mod 64 = digest_value cs pos mod 64" using eq(1) by (simp add: nth_eq_iff_index_eq)
    moreover have "digest_number bs div 2 ^ (pos + 6) = digest_number cs div 2 ^ (pos + 6)"
      using less(1) [OF _ eq(2)] True by simp
    ultimately show ?thesis using digest_step [OF l True, of 6] by simp
  next
    case False
    then show ?thesis using digest_end l by simp
  qed
qed

lemma old_text_loop_inj:
  assumes l: "length bs = 16" "length cs = 16"
  shows "old_text_loop bs pos = old_text_loop cs pos \<Longrightarrow> digest_number bs div 2 ^ pos = digest_number cs div 2 ^ pos"
proof (induction "128 - pos" arbitrary: pos rule: less_induct)
  case less
  show ?case
  proof (cases "pos < 128")
    case True
    then have eq: "old_text_chars ! (digest_value bs pos mod 32) = old_text_chars ! (digest_value cs pos mod 32)"
      "old_text_loop bs (pos + 5) = old_text_loop cs (pos + 5)"
      using less(2) by (simp_all add: old_text_loop.simps [of bs] old_text_loop.simps [of cs])
    have "distinct old_text_chars \<and> length old_text_chars = 32" by code_simp
    then have "digest_value bs pos mod 32 = digest_value cs pos mod 32" using eq(1) by (simp add: nth_eq_iff_index_eq)
    moreover have "digest_number bs div 2 ^ (pos + 5) = digest_number cs div 2 ^ (pos + 5)"
      using less(1) [OF _ eq(2)] True by simp
    ultimately show ?thesis using digest_step [OF l True, of 5] by simp
  next
    case False
    then show ?thesis using digest_end l by simp
  qed
qed

text \<open>
  C21: the texts that the peers compare instead of digests identify them: two digests have the
  same text, in the form of lab 4 (with \<open>allow_at\<close>, as every caller asks) and in that of lab 3,
  only if they are equal, and the texts have the 22 and 26 characters that the arrays of their
  callers have room for.
\<close>

theorem md5_texts_identify:
  assumes "length bs = 16" "length cs = 16"
  shows "(text_loop bs True 0 = text_loop cs True 0 \<longleftrightarrow> bs = cs) \<and> (old_text_loop bs 0 = old_text_loop cs 0 \<longleftrightarrow> bs = cs) \<and>
    length (text_loop bs True 0) = 22 \<and> length (old_text_loop bs 0) = 26"
  using text_loop_inj [OF assms, of 0] old_text_loop_inj [OF assms, of 0] digest_number_inj [of bs cs] assms
  by (auto simp: text_loop.simps old_text_loop.simps)

theorem md5_texts_identify_witness:
  "text_loop (replicate 16 0) True 0 \<noteq> text_loop (replicate 15 0 @ [1]) True 0 \<and> length (text_loop (replicate 16 0) True 0) = 22"
  using md5_texts_identify [of "replicate 16 0" "replicate 15 0 @ [1]"] by (simp add: replicate_eq_replicate append_eq_conv_conj numeral_eq_Suc)

end
