(* ===== verification/P2pRegister.thy ===== *)
theory P2pRegister
  imports P2pPeers Md5Text
begin

text \<open>
  How the lab 4 peer (\<open>src/lab4/osppeer.c\<close>) gets on the network: \<open>open_socket\<close>, \<open>start_tracker\<close>,
  \<open>start_listen\<close> and \<open>register_files\<close>.

  The answer to each system call is up to the system; of \<open>errno\<close> only \<open>EADDRINUSE\<close> matters. What the
  tracker sends is given response by response: the answers of the reads and the bytes that have
  come since. Lost memory and messages to the user are not modelled.
\<close>

section \<open>Sockets\<close>

datatype socket_call = Make_Socket | Set_Cloexec | Set_Reuse | Bind_To "16 word" | Listen_Up_To nat |
  Connect_To u32 "16 word" | Close_Socket

datatype call_answer = Call_Ok | Call_In_Use | Call_Failed

text \<open>A chain of calls ends with the first one that fails.\<close>

fun run_calls :: "(socket_call \<Rightarrow> call_answer) \<Rightarrow> socket_call list \<Rightarrow> socket_call list \<times> call_answer" where
  "run_calls os [] = ([], Call_Ok)"
| "run_calls os (c # cs) =
     (if os c = Call_Ok then let (trace, r) = run_calls os cs in (c # trace, r) else ([c], os c))"

text \<open>\<open>INADDR_ANY\<close> is 0; \<open>htons\<close> takes the port modulo \<open>2 ^ 16\<close>.\<close>

definition open_socket :: "(socket_call \<Rightarrow> call_answer) \<Rightarrow> u32 \<Rightarrow> int \<Rightarrow> socket_call list \<times> call_answer" where
  "open_socket os addr port =
     (let (trace, r) = run_calls os ([Make_Socket, Set_Cloexec, Set_Reuse] @
            (if addr = 0 then [Bind_To (of_int port), Listen_Up_To 4] else [Connect_To addr (of_int port)]))
      in (if r = Call_Ok \<or> os Make_Socket \<noteq> Call_Ok then trace else trace @ [Close_Socket], r))"

text \<open>A failed attempt leaves no socket open, a successful one leaves it open.\<close>

lemma open_socket_closes:
  "open_socket os addr port = (trace, r) \<Longrightarrow>
   Close_Socket \<in> set trace \<longleftrightarrow> r \<noteq> Call_Ok \<and> os Make_Socket = Call_Ok"
  by (auto simp: open_socket_def Let_def split: if_splits)

definition start_tracker ::
    "(socket_call \<Rightarrow> call_answer) \<Rightarrow> u32 \<Rightarrow> int \<Rightarrow> u32 option \<Rightarrow> u32 \<Rightarrow> answer list \<Rightarrow> u8 list \<Rightarrow> u8 list \<Rightarrow> u32 \<times> response" where
  "start_tracker os addr port sockname listen_addr as src garbage =
     (if snd (open_socket os addr port) \<noteq> Call_Ok then (listen_addr, Tracker_Died)
      else (case sockname of None \<Rightarrow> listen_addr | Some a \<Rightarrow> a, read_tracker_response as src (task_new garbage)))"

text \<open>The ports from 11112 on until one can be opened; \<open>None\<close> is \<open>die\<close>.\<close>

function listen_loop :: "(int \<Rightarrow> socket_call \<Rightarrow> call_answer) \<Rightarrow> int \<Rightarrow> int option" where
  "listen_loop os port =
     (if port < 13000 then
        (case snd (open_socket (os port) 0 port) of
           Call_Ok \<Rightarrow> Some port
         | Call_In_Use \<Rightarrow> listen_loop os (port + 1)
         | Call_Failed \<Rightarrow> None)
      else None)"
  by pat_completeness auto
termination
  by (relation "measure (\<lambda>(_, port). nat (13000 - port))") auto

declare listen_loop.simps [simp del]

definition start_listen :: "(int \<Rightarrow> socket_call \<Rightarrow> call_answer) \<Rightarrow> u8 list \<Rightarrow> (int \<times> task) option" where
  "start_listen os garbage = map_option (\<lambda>port. (port, task_new garbage)) (listen_loop os 11112)"

text \<open>It is the first port that is not in use, provided that one is free.\<close>

lemma listen_loop_least:
  assumes "listen_loop os port = Some p"
  shows "port \<le> p \<and> p < 13000 \<and> snd (open_socket (os p) 0 p) = Call_Ok \<and>
    (\<forall>q. port \<le> q \<and> q < p \<longrightarrow> snd (open_socket (os q) 0 q) = Call_In_Use)"
  using assms
proof (induction os port rule: listen_loop.induct)
  case (1 os port)
  have lt: "port < 13000" using 1(2) by (simp add: listen_loop.simps split: if_splits)
  show ?case
  proof (cases "snd (open_socket (os port) 0 port)")
    case Call_Ok
    then have "p = port" using 1(2) lt by (simp add: listen_loop.simps [of os port])
    then show ?thesis using Call_Ok lt by auto
  next
    case Call_In_Use
    then have "listen_loop os (port + 1) = Some p" using 1(2) lt by (simp add: listen_loop.simps [of os port])
    note above = 1(1) [OF lt Call_In_Use this]
    have "snd (open_socket (os q) 0 q) = Call_In_Use" if "port \<le> q" "q < p" for q
      using that above Call_In_Use by (cases "q = port") auto
    then show ?thesis using above by simp
  next
    case Call_Failed
    then show ?thesis using 1(2) lt by (simp add: listen_loop.simps [of os port])
  qed
qed

section \<open>Registering files\<close>

text \<open>
  An entry of the directory: whether \<open>stat\<close> succeeds and finds a regular file, and the contents,
  \<open>None\<close> when \<open>fopen\<close> fails.
\<close>

record dir_entry =
  d_name :: string
  d_regular :: "bool option"
  d_content :: "u8 list option"

definition skipped :: "dir_entry \<Rightarrow> bool" where
  "skipped e =
     (let name = d_name e; n = length name in
      d_regular e \<noteq> Some True \<or>
      (n > 2 \<and> name ! (n - 2) = CHR ''.'' \<and> (name ! (n - 1) = CHR ''c'' \<or> name ! (n - 1) = CHR ''h'')) \<or>
      (n > 1 \<and> name ! (n - 1) = CHR ''~''))"

text \<open>The digest text of a file, whose size is passed as an \<open>int\<close>; \<open>garbage\<close> is what \<open>malloc\<close> returned.\<close>

definition file_checksum :: "u8 list \<Rightarrow> u8 list \<Rightarrow> string" where
  "file_checksum garbage content =
     md5_finish_text (md5_append (md5_init garbage) content (sint (of_nat (length content) :: u32))) True"

definition have_message :: "string \<Rightarrow> string" where
  "have_message name = the (writef (''HAVE %s'' @ [CHR 0x0A]) [Text name])"

definition md5_message :: "string \<Rightarrow> string \<Rightarrow> string" where
  "md5_message name checksum = the (writef (''MD5 %s %s'' @ [CHR 0x0A]) [Text name, Text checksum])"

definition addr_message :: "string \<Rightarrow> u32 \<Rightarrow> int \<Rightarrow> string" where
  "addr_message alias addr port =
     the (writef (''ADDR %s %I:%d'' @ [CHR 0x0A]) [Text alias, Address addr, Number port])"

text \<open>
  How the registration ends: with the task and what the tracker has sent and nobody has read; in
  \<open>die\<close>, without a response, with the nul behind the buffer, or with the use of a null file.
\<close>

datatype registration = Registered task "u8 list" | Register_Died | Register_Waiting | Register_Overrun | Null_File

definition no_response :: "response \<Rightarrow> registration" where
  "no_response r = (case r of Responded pos t src \<Rightarrow> Registered t src | Stray_Write \<Rightarrow> Register_Overrun
     | Tracker_Died \<Rightarrow> Register_Died | Response_Waiting \<Rightarrow> Register_Waiting)"

text \<open>
  The loop over the directory. Two messages are sent for a file and one response is read, of which
  an error is only reported.
\<close>

fun register_entries ::
    "u8 list \<Rightarrow> (answer list \<times> u8 list) list \<Rightarrow> dir_entry list \<Rightarrow> u8 list \<Rightarrow> task \<Rightarrow> string list \<times> registration" where
  "register_entries garbage rs [] unread t = ([], Registered t unread)"
| "register_entries garbage rs (e # es) unread t =
     (if skipped e then register_entries garbage rs es unread t
      else
        (case d_content e of
           None \<Rightarrow> ([], Null_File)
         | Some content \<Rightarrow>
             let msgs = [have_message (d_name e), md5_message (d_name e) (file_checksum garbage content)] in
             (case rs of
                [] \<Rightarrow> (msgs, Register_Waiting)
              | (as, sent) # rs' \<Rightarrow>
                  (case no_response (read_tracker_response as (unread @ sent) t) of
                     Registered t' unread' \<Rightarrow>
                       let (more, r) = register_entries garbage rs' es unread' t' in (msgs @ more, r)
                   | r \<Rightarrow> (msgs, r)))))"

definition register_files ::
    "u8 list \<Rightarrow> string \<Rightarrow> u32 \<times> int \<Rightarrow> (answer list \<times> u8 list) list \<Rightarrow> dir_entry list option \<Rightarrow> u8 list \<Rightarrow> task \<Rightarrow>
     string list \<times> registration" where
  "register_files garbage alias here rs dir unread t =
     (let hello = addr_message alias (fst here) (snd here) in
      case rs of
        [] \<Rightarrow> ([hello], Register_Waiting)
      | (as, sent) # rs' \<Rightarrow>
          (case read_tracker_response as (unread @ sent) t of
             Responded pos t' unread' \<Rightarrow>
               if t_buf t' ! pos \<noteq> 50 then ([hello], Registered t' unread')
               else
                 (case dir of
                    None \<Rightarrow> ([hello], Register_Died)
                  | Some es \<Rightarrow>
                      let (more, r) = register_entries garbage rs' es unread' t' in (hello # more, r))
           | r \<Rightarrow> ([hello], no_response r)))"

section \<open>What the tracker is told\<close>

text \<open>The two messages for a file, with the digest of its contents.\<close>

definition announcement :: "dir_entry \<Rightarrow> string list" where
  "announcement e =
     [have_message (d_name e), md5_message (d_name e) (text_loop (md5_digest (the (d_content e))) True 0)]"

lemma size_as_int: "n < 2 ^ 28 \<Longrightarrow> sint (of_nat n :: u32) = int n"
  by (simp add: signed_of_nat signed_take_bit_int_eq_self)

lemma file_checksum_digest:
  assumes "length garbage = 64" "length content < 2 ^ 28"
  shows "file_checksum garbage content = text_loop (md5_digest content) True 0"
  using md5_appends_digest [OF assms(1), of "[content]"] assms(2)
  by (simp add: file_checksum_def md5_finish_text_def md5_appends_def size_as_int)

lemma register_entries_announce:
  "register_entries garbage rs es unread t = (msgs, Registered t' unread') \<Longrightarrow> length garbage = 64 \<Longrightarrow>
   \<forall>e \<in> set es. \<forall>c. d_content e = Some c \<longrightarrow> length c < 2 ^ 28 \<Longrightarrow>
   msgs = concat (List.map announcement (filter (\<lambda>e. \<not> skipped e) es))"
proof (induction garbage rs es unread t arbitrary: msgs rule: register_entries.induct)
  case (2 garbage rs e es unread t)
  show ?case
  proof (cases "skipped e")
    case True
    then show ?thesis using 2(1) [of msgs] 2(3-5) by simp
  next
    case False
    then obtain content where c: "d_content e = Some content" using 2(3) by (auto split: option.splits)
    obtain as sent rs' where rs: "rs = (as, sent) # rs'"
      using 2(3) False c by (cases rs) (auto simp: Let_def)
    obtain t1 unread1 where r: "no_response (read_tracker_response as (unread @ sent) t) = Registered t1 unread1"
      using 2(3) False c rs by (auto simp: Let_def split: registration.splits)
    obtain more where more: "register_entries garbage rs' es unread1 t1 = (more, Registered t' unread')"
      "msgs = [have_message (d_name e), md5_message (d_name e) (file_checksum garbage content)] @ more"
      using 2(3) False c rs r by (auto simp: Let_def split: prod.splits)
    have "more = concat (List.map announcement (filter (\<lambda>e. \<not> skipped e) es))"
      by (rule 2(2) [OF False c refl rs refl r more(1)]) (use 2(4,5) in auto)
    moreover have "file_checksum garbage content = text_loop (md5_digest content) True 0"
      by (rule file_checksum_digest) (use 2(4,5) c in auto)
    ultimately show ?thesis using False c more(2) by (simp add: announcement_def [of e])
  qed
qed simp


text \<open>A response of one line in one piece, and the buffer behind any response.\<close>

lemma one_line_response:
  assumes "terminator_line tm" "length tm = Suc k" "length tm \<le> 4095" "length (t_buf t) = TASKBUFSIZ"
  shows "\<exists>t'. read_tracker_response [Amount k, Amount 0] tm t = Responded 0 t' [] \<and> t_buf t' ! 0 = tm ! 0"
proof -
  have p: "parted tm 0 0" using lines_parted [of "[]" "[]" tm] assms(1) by simp
  have r: "received tm 0 tm (t\<lparr>t_head := 0, t_tail := 0\<rparr>)" using assms(4) by (simp add: received_def same_upto_def)
  obtain t' where t': "read_tracker_response [Amount k, Amount 0] tm t = Responded 0 t' []"
    "take (length tm + 1) (t_buf t') = tm @ [0]"
    using loop_reads [OF p assms(3) r, of "[k]" 0 None] assms(2) by (auto simp: read_tracker_response_def search_ok_def)
  have "t_buf t' ! 0 = (tm @ [0]) ! 0" unfolding t'(2) [symmetric] by simp
  then show ?thesis using t'(1) assms(2) by (auto simp: nth_append)
qed

lemma response_loop_buffer:
  "response_loop as src t pos split = Responded d t' src' \<Longrightarrow> ring_ok t \<Longrightarrow> length (t_buf t') = TASKBUFSIZ"
proof (induction as src t pos split rule: response_loop.induct)
  case (1 as src t pos split)
  show ?case
  proof (cases "scan_response (t_buf t) (unat (t_tail t)) pos split")
    case (Inl split_pos)
    then show ?thesis using 1(2,3) by (subst (asm) response_loop.simps) (auto simp: ring_ok_def split: if_splits)
  next
    case (Inr ps)
    obtain pos' split' where ps: "ps = (pos', split')" by (cases ps)
    obtain a as' where as: "as = a # as'"
      using 1(2) Inr ps by (subst (asm) response_loop.simps) (auto split: list.splits)
    obtain r src1 t1 where r: "read_to_taskbuf a src t = (r, src1, t1)" by (rule prod_cases3)
    have "r \<noteq> TBUF_ERROR \<and> r \<noteq> TBUF_END" "response_loop as' src1 t1 pos' split' = Responded d t' src'"
      using 1(2) Inr ps as r by (subst (asm) response_loop.simps; auto split: if_splits)+
    then show ?thesis
      using 1(1) [OF Inr ps [symmetric] as r [symmetric] refl refl] read_to_taskbuf_queue(1) [OF 1(3) r] by simp
  qed
qed

text \<open>The directory of the example: a file, a source, a backup and a directory.\<close>

definition sample_directory :: "dir_entry list" where
  "sample_directory =
     [\<lparr>d_name = ''notes'', d_regular = Some True, d_content = Some [104, 105]\<rparr>,
      \<lparr>d_name = ''a.c'', d_regular = Some True, d_content = Some []\<rparr>,
      \<lparr>d_name = ''notes~'', d_regular = Some True, d_content = Some []\<rparr>,
      \<lparr>d_name = ''sub'', d_regular = Some False, d_content = None\<rparr>]"

lemma sample_announced: "filter (\<lambda>e. \<not> skipped e) sample_directory = [hd sample_directory]"
  by (simp add: sample_directory_def skipped_def numeral_eq_Suc)


end
