(* ===== verification/P2pMain.thy ===== *)
theory P2pMain
  imports P2pUpload P2pOptions P2pRegister
begin

text \<open>
  The processes of the lab 4 peer: \<open>task_listen\<close> and the second half of \<open>main\<close> in
  \<open>src/lab4/osppeer.c\<close>, as a state machine.

  A state is that of the parent process: where it is in \<open>main\<close>, its two counters, its children and the
  connections it has open. An event is the answer to the next system call (for a download, with
  the result of \<open>start_download\<close>), or the exit of a child. A child that downloads exits when
  \<open>task_download\<close> returns; a child that uploads may exit at any time. Process ids of children that
  have not been waited for are not given again, nor descriptors of open connections.
\<close>

section \<open>The parent and its children\<close>

datatype job = Download_Job "attempt list" peer_task | Upload_Job nat

datatype phase = Files "string list" | Accepting | Draining nat | Forking nat | Polling | Stopped

record main_state =
  phase :: phase
  num_download_proc :: int
  num_upload_proc :: int
  running :: "(nat \<times> job) list"
  exited :: "(nat \<times> job) list"
  connections :: "nat list"

datatype fork_answer = Fork_Failed | Forked nat

datatype accept_answer = Connection nat | Accept_Again | Accept_Failed

text \<open>\<open>Waited None\<close> and \<open>Polled None\<close> stand for a \<open>waitpid\<close> that returns no process id.\<close>

datatype main_event =
    Download_Started start "attempt list" fork_answer
  | Accept_Returned accept_answer
  | Waited "nat option"
  | Upload_Forked fork_answer
  | Polled "nat option"
  | Child_Exited nat

definition pids :: "main_state \<Rightarrow> nat list" where
  "pids s = List.map fst (running s @ exited s)"

definition reap :: "nat \<Rightarrow> main_state \<Rightarrow> main_state" where
  "reap pid s = s\<lparr>exited := filter (\<lambda>(p, _). p \<noteq> pid) (exited s)\<rparr>"

text \<open>Whether a child can exit: a download exits when it returns and does not wait for a peer.\<close>

definition may_exit :: "int \<Rightarrow> u32 \<times> int \<Rightarrow> job \<Rightarrow> bool" where
  "may_exit evil here job =
     (case job of
        Download_Job as t \<Rightarrow>
          (case task_download evil here as t [] of None \<Rightarrow> False | Some (_, out) \<Rightarrow> out \<noteq> Download_Waiting)
      | Upload_Job fd \<Rightarrow> True)"

definition after_files :: "string list \<Rightarrow> phase" where
  "after_files fs = (if fs = [] then Accepting else Files fs)"

text \<open>The loop \<open>while (num_download_proc > 0)\<close> in front of an upload.\<close>

definition drain :: "nat \<Rightarrow> main_state \<Rightarrow> main_state" where
  "drain fd s = s\<lparr>phase := if num_download_proc s > 0 then Draining fd else Forking fd\<rparr>"

definition start_job :: "fork_answer \<Rightarrow> job \<Rightarrow> main_state \<Rightarrow> main_state option" where
  "start_job f job s =
     (case f of
        Fork_Failed \<Rightarrow> Some s
      | Forked pid \<Rightarrow> if pid \<in> set (pids s) then None else Some (s\<lparr>running := (pid, job) # running s\<rparr>))"

definition count_fork :: "fork_answer \<Rightarrow> int" where
  "count_fork f = (case f of Fork_Failed \<Rightarrow> 0 | Forked _ \<Rightarrow> 1)"

section \<open>The steps of main\<close>

text \<open>One file of the command line; behind the sixteenth download nothing is done with the task.\<close>

definition download_step :: "string list \<Rightarrow> start \<Rightarrow> attempt list \<Rightarrow> fork_answer \<Rightarrow> main_state \<Rightarrow> main_state option" where
  "download_step fs r as f s =
     (case r of
        Started want t \<Rightarrow>
          if num_download_proc s < 16 then
            map_option (\<lambda>s1. s1\<lparr>num_download_proc := num_download_proc s1 + count_fork f, phase := after_files fs\<rparr>)
              (start_job f (Download_Job as t) s)
          else Some (s\<lparr>phase := after_files fs\<rparr>)
      | Refused want \<Rightarrow> Some (s\<lparr>phase := after_files fs\<rparr>)
      | Start_Died \<Rightarrow> Some (s\<lparr>phase := Stopped\<rparr>)
      | Start_Overflow \<Rightarrow> None
      | Start_Waiting \<Rightarrow> None)"

text \<open>\<open>task_listen\<close>: no connection ends the loop, and with it the peer.\<close>

definition accept_step :: "accept_answer \<Rightarrow> main_state \<Rightarrow> main_state option" where
  "accept_step a s =
     (case a of
        Connection fd \<Rightarrow> if fd \<in> set (connections s) then None else Some (drain fd (s\<lparr>connections := fd # connections s\<rparr>))
      | Accept_Again \<Rightarrow> Some (s\<lparr>phase := Stopped\<rparr>)
      | Accept_Failed \<Rightarrow> Some (s\<lparr>phase := Stopped\<rparr>))"

definition wait_step :: "nat \<Rightarrow> nat option \<Rightarrow> main_state \<Rightarrow> main_state option" where
  "wait_step fd w s =
     (case w of
        Some pid \<Rightarrow>
          if pid \<in> fst ` set (exited s) then Some (drain fd ((reap pid s)\<lparr>num_download_proc := num_download_proc s - 1\<rparr>))
          else None
      | None \<Rightarrow>
          if running s = [] \<and> exited s = [] then Some (drain fd (s\<lparr>num_download_proc := num_download_proc s - 1\<rparr>))
          else None)"

text \<open>The connection stays open in the parent, whose copy of the task is not freed.\<close>

definition upload_step :: "nat \<Rightarrow> fork_answer \<Rightarrow> main_state \<Rightarrow> main_state option" where
  "upload_step fd f s =
     (if num_upload_proc s < 16 then
        map_option (\<lambda>s1. s1\<lparr>num_upload_proc := num_upload_proc s1 + count_fork f, phase := Polling\<rparr>)
          (start_job f (Upload_Job fd) s)
      else Some (s\<lparr>phase := Polling\<rparr>))"

definition poll_step :: "nat option \<Rightarrow> main_state \<Rightarrow> main_state option" where
  "poll_step w s =
     (case w of
        Some pid \<Rightarrow>
          if pid \<in> fst ` set (exited s) then Some ((reap pid s)\<lparr>num_upload_proc := num_upload_proc s - 1, phase := Accepting\<rparr>)
          else None
      | None \<Rightarrow> if exited s = [] then Some (s\<lparr>phase := Accepting\<rparr>) else None)"

definition exit_step :: "int \<Rightarrow> u32 \<times> int \<Rightarrow> nat \<Rightarrow> main_state \<Rightarrow> main_state option" where
  "exit_step evil here pid s =
     (case map_of (running s) pid of
        None \<Rightarrow> None
      | Some job \<Rightarrow>
          if may_exit evil here job
          then Some (s\<lparr>running := filter (\<lambda>(p, _). p \<noteq> pid) (running s), exited := (pid, job) # exited s\<rparr>)
          else None)"

text \<open>An event that does not fit the state has no result.\<close>

fun main_step :: "int \<Rightarrow> u32 \<times> int \<Rightarrow> main_event \<Rightarrow> main_state \<Rightarrow> main_state option" where
  "main_step evil here (Child_Exited pid) s = exit_step evil here pid s"
| "main_step evil here (Download_Started r as f) s =
     (case phase s of Files (_ # fs) \<Rightarrow> download_step fs r as f s | _ \<Rightarrow> None)"
| "main_step evil here (Accept_Returned a) s = (case phase s of Accepting \<Rightarrow> accept_step a s | _ \<Rightarrow> None)"
| "main_step evil here (Waited w) s = (case phase s of Draining fd \<Rightarrow> wait_step fd w s | _ \<Rightarrow> None)"
| "main_step evil here (Upload_Forked f) s = (case phase s of Forking fd \<Rightarrow> upload_step fd f s | _ \<Rightarrow> None)"
| "main_step evil here (Polled w) s = (case phase s of Polling \<Rightarrow> poll_step w s | _ \<Rightarrow> None)"

definition main_start :: "string list \<Rightarrow> main_state" where
  "main_start files =
     \<lparr>phase = after_files files, num_download_proc = 0, num_upload_proc = 0, running = [], exited = [], connections = []\<rparr>"

inductive main_reaches :: "int \<Rightarrow> u32 \<times> int \<Rightarrow> main_state \<Rightarrow> main_state \<Rightarrow> bool" for evil here where
  here: "main_reaches evil here s s"
| step: "main_reaches evil here s s1 \<Longrightarrow> main_step evil here ev s1 = Some s2 \<Longrightarrow> main_reaches evil here s s2"

section \<open>The counters count the children\<close>

definition is_download :: "job \<Rightarrow> bool" where
  "is_download job = (case job of Download_Job as t \<Rightarrow> True | Upload_Job fd \<Rightarrow> False)"

definition jobs_of :: "(job \<Rightarrow> bool) \<Rightarrow> (nat \<times> job) list \<Rightarrow> int" where
  "jobs_of P xs = int (length (filter (\<lambda>(_, j). P j) xs))"

abbreviation downloads :: "main_state \<Rightarrow> int" where
  "downloads s \<equiv> jobs_of is_download (running s @ exited s)"

abbreviation uploads :: "main_state \<Rightarrow> int" where
  "uploads s \<equiv> jobs_of (\<lambda>j. \<not> is_download j) (running s @ exited s)"

lemma jobs_of_simps [simp]:
  "jobs_of P [] = 0" "jobs_of P ((p, j) # xs) = (if P j then 1 else 0) + jobs_of P xs"
  "jobs_of P (xs @ ys) = jobs_of P xs + jobs_of P ys" "0 \<le> jobs_of P xs"
  by (simp_all add: jobs_of_def)

lemma is_download_simps [simp]: "is_download (Download_Job as t)" "\<not> is_download (Upload_Job fd)"
  by (simp_all add: is_download_def)

lemma jobs_of_zero: "jobs_of P xs = 0 \<Longrightarrow> (p, j) \<in> set xs \<Longrightarrow> \<not> P j"
  by (auto simp: jobs_of_def filter_empty_conv)

lemma jobs_of_remove:
  "distinct (List.map fst xs) \<Longrightarrow> map_of xs pid = Some j \<Longrightarrow>
   jobs_of P (filter (\<lambda>(p, _). p \<noteq> pid) xs) = jobs_of P xs - (if P j then 1 else 0)"
proof (induction xs)
  case (Cons x xs)
  obtain p i where x: "x = (p, i)" by (cases x)
  show ?case
  proof (cases "p = pid")
    case True
    then have "filter (\<lambda>(p, _). p \<noteq> pid) xs = xs"
      using Cons.prems(1) x by (intro filter_True) force
    then show ?thesis using True Cons.prems(2) x by simp
  next
    case False
    then show ?thesis using Cons x by simp
  qed
qed simp

definition main_ok :: "main_state \<Rightarrow> bool" where
  "main_ok s \<longleftrightarrow>
     distinct (pids s) \<and> num_download_proc s = downloads s \<and> num_upload_proc s = uploads s \<and>
     num_download_proc s \<le> 16 \<and> num_upload_proc s \<le> 16 \<and>
     (num_download_proc s > 0 \<longrightarrow>
        num_upload_proc s = 0 \<and> connections s = (case phase s of Draining fd \<Rightarrow> [fd] | _ \<Rightarrow> [])) \<and>
     (case phase s of
        Files fs \<Rightarrow> num_upload_proc s = 0 \<and> connections s = []
      | Draining fd \<Rightarrow> num_download_proc s > 0
      | Forking fd \<Rightarrow> num_download_proc s = 0
      | Polling \<Rightarrow> num_download_proc s = 0
      | _ \<Rightarrow> True)"

text \<open>Each kind of step keeps it.\<close>

lemma pids_simps [simp]:
  "pids (s\<lparr>phase := p\<rparr>) = pids s" "pids (s\<lparr>num_download_proc := n\<rparr>) = pids s" "pids (s\<lparr>num_upload_proc := n\<rparr>) = pids s"
  "pids (s\<lparr>connections := cs\<rparr>) = pids s" "pids (s\<lparr>running := (pid, j) # running s\<rparr>) = pid # pids s"
  by (simp_all add: pids_def)

lemma start_job_some:
  "start_job f job s = Some s1 \<Longrightarrow>
   (f = Fork_Failed \<and> s1 = s) \<or> (\<exists>pid. f = Forked pid \<and> pid \<notin> set (pids s) \<and> s1 = s\<lparr>running := (pid, job) # running s\<rparr>)"
  by (auto simp: start_job_def split: fork_answer.splits if_splits)

lemma download_step_ok:
  assumes "main_ok s" "phase s = Files (f # fs)" "download_step fs r as fk s = Some s'"
  shows "main_ok s'"
  using assms
  by (auto simp: main_ok_def download_step_def after_files_def count_fork_def
      split: start.splits if_splits dest!: start_job_some)

lemma jobs_none: "\<not> 0 < jobs_of P xs + jobs_of P ys \<Longrightarrow> jobs_of P xs + jobs_of P ys = 0"
  by (simp add: jobs_of_def)

lemma accept_step_ok:
  assumes "main_ok s" "phase s = Accepting" "accept_step a s = Some s'"
  shows "main_ok s'"
  using assms
  by (auto simp: main_ok_def accept_step_def drain_def split: accept_answer.splits if_splits dest!: jobs_none)

lemma upload_step_ok:
  assumes "main_ok s" "phase s = Forking fd" "upload_step fd fk s = Some s'"
  shows "main_ok s'"
  using assms
  by (auto simp: main_ok_def upload_step_def count_fork_def split: if_splits dest!: start_job_some)

lemma reap_facts:
  assumes "distinct (pids s)" "pid \<in> fst ` set (exited s)"
  shows "distinct (pids (reap pid s))"
    "\<exists>j. (pid, j) \<in> set (exited s) \<and> (\<forall>P. jobs_of P (exited (reap pid s)) = jobs_of P (exited s) - (if P j then 1 else 0))"
proof -
  have d: "distinct (List.map fst (exited s))" using assms(1) by (simp add: pids_def)
  obtain j where j: "(pid, j) \<in> set (exited s)" using assms(2) by auto
  show "distinct (pids (reap pid s))"
    using assms(1) by (auto simp: pids_def reap_def distinct_map_filter)
  have "jobs_of P (exited (reap pid s)) = jobs_of P (exited s) - (if P j then 1 else 0)" for P
    using jobs_of_remove [OF d, of pid j P] j d by (simp add: reap_def)
  then show "\<exists>j. (pid, j) \<in> set (exited s) \<and>
      (\<forall>P. jobs_of P (exited (reap pid s)) = jobs_of P (exited s) - (if P j then 1 else 0))"
    using j by blast
qed

lemma wait_step_ok:
  assumes ok: "main_ok s" and ph: "phase s = Draining fd" and w: "wait_step fd w s = Some s'"
  shows "main_ok s'"
proof -
  have s: "distinct (pids s)" "num_download_proc s = downloads s" "uploads s = 0" "num_upload_proc s = 0"
    "0 < num_download_proc s" "num_download_proc s \<le> 16" "connections s = [fd]"
    using ok ph by (auto simp: main_ok_def)
  obtain pid where pid: "w = Some pid" "pid \<in> fst ` set (exited s)"
    using w s(2,5) by (auto simp: wait_step_def split: option.splits if_splits)
  obtain j where j: "(pid, j) \<in> set (exited s)"
    "jobs_of P (exited (reap pid s)) = jobs_of P (exited s) - (if P j then 1 else 0)" for P
    using reap_facts(2) [OF s(1) pid(2)] by blast
  have dl: "is_download j" using jobs_of_zero [OF s(3), of pid j] j(1) by simp
  have s': "s' = drain fd ((reap pid s)\<lparr>num_download_proc := num_download_proc s - 1\<rparr>)"
    using w pid by (simp add: wait_step_def split: if_splits)
  have same: "pids s' = pids (reap pid s)" "running s' = running s" "exited s' = exited (reap pid s)"
    "num_download_proc s' = num_download_proc s - 1" "num_upload_proc s' = 0" "connections s' = [fd]"
    "phase s' = (if 1 < num_download_proc s then Draining fd else Forking fd)"
    using s by (simp_all add: s' drain_def reap_def pids_def)
  show ?thesis unfolding main_ok_def same using s dl j(2) reap_facts(1) [OF s(1) pid(2)] by auto
qed

lemma poll_step_ok:
  assumes ok: "main_ok s" and ph: "phase s = Polling" and w: "poll_step w s = Some s'"
  shows "main_ok s'"
proof (cases w)
  case None
  then show ?thesis using w ok ph by (auto simp: poll_step_def main_ok_def split: if_splits)
next
  case (Some pid)
  have s: "distinct (pids s)" "num_upload_proc s = uploads s" "downloads s = 0" "num_download_proc s = 0"
    "num_upload_proc s \<le> 16"
    using ok ph by (auto simp: main_ok_def)
  have pid: "pid \<in> fst ` set (exited s)" using w Some by (auto simp: poll_step_def split: if_splits)
  obtain j where j: "(pid, j) \<in> set (exited s)"
    "jobs_of P (exited (reap pid s)) = jobs_of P (exited s) - (if P j then 1 else 0)" for P
    using reap_facts(2) [OF s(1) pid] by blast
  have ul: "\<not> is_download j" using jobs_of_zero [OF s(3), of pid j] j(1) by simp
  have s': "s' = (reap pid s)\<lparr>num_upload_proc := num_upload_proc s - 1, phase := Accepting\<rparr>"
    using w Some pid by (simp add: poll_step_def split: if_splits)
  have same: "pids s' = pids (reap pid s)" "running s' = running s" "exited s' = exited (reap pid s)"
    "num_download_proc s' = 0" "num_upload_proc s' = num_upload_proc s - 1" "phase s' = Accepting"
    using s by (simp_all add: s' reap_def pids_def)
  show ?thesis unfolding main_ok_def same using s ul j(2) reap_facts(1) [OF s(1) pid] by auto
qed

lemma exit_step_ok:
  assumes ok: "main_ok s" and e: "exit_step evil here pid s = Some s'"
  shows "main_ok s'"
proof -
  obtain job where job: "map_of (running s) pid = Some job"
    "s' = s\<lparr>running := filter (\<lambda>(p, _). p \<noteq> pid) (running s), exited := (pid, job) # exited s\<rparr>"
    using e by (auto simp: exit_step_def split: option.splits if_splits)
  have d: "distinct (List.map fst (running s))" "distinct (pids s)" using ok by (simp_all add: main_ok_def pids_def)
  have new: "pid \<notin> fst ` set (exited s)" using d(2) map_of_SomeD [OF job(1)] by (force simp: pids_def)
  have jobs: "jobs_of P (running s' @ exited s') = jobs_of P (running s @ exited s)" for P
    using jobs_of_remove [OF d(1) job(1), of P] job(2) by simp
  have dist: "distinct (pids s')"
    using d(2) new job(2) by (auto simp: pids_def distinct_map_filter)
  have same: "phase s' = phase s" "num_download_proc s' = num_download_proc s" "num_upload_proc s' = num_upload_proc s"
    "connections s' = connections s"
    using job(2) by simp_all
  show ?thesis using ok dist unfolding main_ok_def jobs same by blast
qed

lemma main_step_ok:
  assumes "main_ok s" "main_step evil here ev s = Some s'"
  shows "main_ok s'"
proof (cases ev)
  case (Download_Started r as f)
  then show ?thesis using assms download_step_ok by (auto split: phase.splits list.splits)
next
  case (Accept_Returned a)
  then show ?thesis using assms accept_step_ok by (auto split: phase.splits)
next
  case (Waited w)
  then show ?thesis using assms wait_step_ok by (auto split: phase.splits)
next
  case (Upload_Forked f)
  then show ?thesis using assms upload_step_ok by (auto split: phase.splits)
next
  case (Polled w)
  then show ?thesis using assms poll_step_ok by (auto split: phase.splits)
next
  case (Child_Exited pid)
  then show ?thesis using assms exit_step_ok by auto
qed

lemma main_start_ok: "main_ok (main_start files)"
  by (simp add: main_ok_def main_start_def pids_def after_files_def)

lemma main_reaches_ok: "main_reaches evil here s s' \<Longrightarrow> main_ok s \<Longrightarrow> main_ok s'"
  by (induction rule: main_reaches.induct) (use main_step_ok in blast)+

text \<open>A connection that has been accepted stays open in the parent for ever.\<close>

lemma start_job_connections: "start_job f job s = Some s1 \<Longrightarrow> connections s1 = connections s"
  by (auto dest: start_job_some)

lemma connections_stay_open:
  "main_reaches evil here s s' \<Longrightarrow> \<exists>later. connections s' = later @ connections s"
proof (induction rule: main_reaches.induct)
  case (step s s1 ev s2)
  have "connections s2 = connections s1 \<or> (\<exists>fd. connections s2 = fd # connections s1)"
    using step(2)
    by (cases ev)
      (auto simp: download_step_def accept_step_def wait_step_def upload_step_def poll_step_def exit_step_def drain_def reap_def
        split: phase.splits list.splits start.splits accept_answer.splits option.splits if_splits dest: start_job_connections)
  then show ?case using step(3) by (metis append_Cons)
qed simp

text \<open>A child whose download does not return stays.\<close>

lemma stuck_child_stays:
  assumes "main_ok s" "(pid, job) \<in> set (running s)" "\<not> may_exit evil here job" "main_step evil here ev s = Some s'"
  shows "(pid, job) \<in> set (running s')"
proof (cases ev)
  case (Child_Exited q)
  have "distinct (List.map fst (running s))" using assms(1) by (simp add: main_ok_def pids_def)
  then have "map_of (running s) pid = Some job" using assms(2) by simp
  then show ?thesis using assms(2-4) Child_Exited by (auto simp: exit_step_def split: option.splits if_splits)
qed (use assms(2,4) in \<open>auto simp: download_step_def accept_step_def wait_step_def upload_step_def poll_step_def drain_def reap_def
        split: phase.splits list.splits start.splits accept_answer.splits option.splits if_splits dest!: start_job_some\<close>)

text \<open>
  C17: the processes of the peer. Whatever the tracker, the other peers and the system do, the two
  counters of \<open>main\<close> are exactly the numbers of its children that download and that upload and have
  not been waited for; neither exceeds 16, and there are never children of both kinds. So the
  loop that waits for the downloads never waits for a child that does not exist.
\<close>

theorem main_counts_its_children:
  assumes "main_reaches evil here (main_start files) s"
  shows "num_download_proc s = downloads s \<and> num_upload_proc s = uploads s \<and>
    num_download_proc s \<le> 16 \<and> num_upload_proc s \<le> 16 \<and> (downloads s = 0 \<or> uploads s = 0)"
proof -
  have ok: "main_ok s" by (rule main_reaches_ok [OF assms main_start_ok])
  have "downloads s = 0 \<or> 0 < num_download_proc s" using ok jobs_of_simps(4) [of is_download "running s @ exited s"]
    unfolding main_ok_def by linarith
  then show ?thesis using ok unfolding main_ok_def by auto
qed

text \<open>A run of the example: a download starts, and the first connection comes.\<close>

lemma main_reaches_one: "main_step evil here ev s = Some s' \<Longrightarrow> main_reaches evil here s s'"
  by (rule main_reaches.step [OF main_reaches.here])

definition downloading :: "peer_task \<Rightarrow> attempt list \<Rightarrow> main_state" where
  "downloading t as = (main_start [])\<lparr>num_download_proc := 1, running := [(7, Download_Job as t)]\<rparr>"

lemma downloading_reached: "main_reaches evil here (main_start [''f'']) (downloading t as)"
  by (rule main_reaches_one [where ev = "Download_Started (Started [] t) as (Forked 7)"])
    (simp add: downloading_def main_start_def after_files_def download_step_def start_job_def pids_def count_fork_def)

lemma draining_reached:
  "main_reaches evil here (downloading t as) ((downloading t as)\<lparr>phase := Draining 4, connections := [4]\<rparr>)"
  by (rule main_reaches_one [where ev = "Accept_Returned (Connection 4)"])
    (simp add: downloading_def main_start_def after_files_def accept_step_def drain_def)

theorem main_counts_its_children_witness:
  "num_download_proc (downloading (sample_download []) []) = downloads (downloading (sample_download []) []) \<and>
   downloads (downloading (sample_download []) []) = 1"
  using main_counts_its_children [OF downloading_reached [of 0 "(0, 0)" "sample_download []" "[]"]] by (simp add: downloading_def main_start_def)

text \<open>
  C16: one download that does not return keeps the peer from serving anybody. If a child is
  downloading and its \<open>task_download\<close> never returns - as every download that gets data does not -
  then from then on the peer accepts at most one connection and starts no upload, for ever.
\<close>

theorem stuck_download_blocks_uploads:
  assumes "main_reaches evil here (main_start files) s" "(pid, Download_Job as t) \<in> set (running s)"
    and "task_download evil here as t [] = None" "main_reaches evil here s s'"
  shows "uploads s' = 0 \<and> length (connections s') \<le> 1 \<and> (\<forall>fd. phase s' \<noteq> Forking fd)"
proof -
  have "(pid, Download_Job as t) \<in> set (running s') \<and> main_ok s'"
    using assms(4,2) main_reaches_ok [OF assms(1) main_start_ok]
  proof (induction rule: main_reaches.induct)
    case (step s s1 ev s2)
    have "\<not> may_exit evil here (Download_Job as t)" using assms(3) by (simp add: may_exit_def)
    then show ?case using step stuck_child_stays main_step_ok by blast
  qed simp
  then have ok: "main_ok s'" and child: "(pid, Download_Job as t) \<in> set (running s' @ exited s')" by simp_all
  have "downloads s' \<noteq> 0" using jobs_of_zero [OF _ child, of is_download] by (simp only: is_download_simps) blast
  then have "0 < num_download_proc s'" using ok jobs_of_simps(4) [of is_download "running s' @ exited s'"]
    unfolding main_ok_def by linarith
  then show ?thesis using ok by (auto simp: main_ok_def split: phase.splits)
qed

definition stuck_attempt :: attempt where
  "stuck_attempt = \<lparr>att_connects = [True], att_opens = (\<lambda>_. Opened), att_transfer = replicate 4 (Amount 1, Amount 0),
     att_source = [7, 8, 9]\<rparr>"

lemma stuck_attempt_hangs:
  assumes g: "length g = TASKBUFSIZ"
  shows "task_download 0 (0, 0) [stuck_attempt] (sample_download g) [] = None"
proof -
  note new = ring_new [OF g]
  have "\<exists>b. download_loop (replicate 4 (Amount 1, Amount 0)) [7, 8, 9] (task_new g) [] = Complete ([] @ queue (task_new g) @ [7, 8, 9]) b"
    by (rule download_loop_ends) (use new in \<open>simp_all add: willing_def task_new_def\<close>)
  then obtain b where b: "download_loop (replicate 4 (Amount 1, Amount 0)) [7, 8, 9] (task_new g) [] = Complete [7, 8, 9] b"
    using new by auto
  have "open_loop (att_opens stuck_attempt) (filename (sample_download g)) 0 = Disk_Open ''f''"
    by (simp add: open_loop.simps disk_name_def stuck_attempt_def)
  then show ?thesis
    by (rule download_with_data_hangs [where p = sample_peer and ps = "[]" and cs = "[]" and data = "[7, 8, 9]" and b = b, rotated 5])
      (use new b in \<open>simp_all add: sample_peer_def stuck_attempt_def\<close>)
qed

theorem stuck_download_blocks_uploads_witness:
  "\<exists>g s'. length g = TASKBUFSIZ \<and> main_reaches 0 (0, 0) (main_start [''f'']) (downloading (sample_download g) [stuck_attempt]) \<and>
     main_reaches 0 (0, 0) (downloading (sample_download g) [stuck_attempt]) s' \<and> phase s' = Draining 4 \<and>
     uploads s' = 0 \<and> length (connections s') \<le> 1"
proof -
  obtain g :: "u8 list" where g: "length g = TASKBUFSIZ" using Ex_list_of_length by blast
  let ?d = "downloading (sample_download g) [stuck_attempt]"
  let ?s = "?d\<lparr>phase := Draining 4, connections := [4]\<rparr>"
  have "(7, Download_Job [stuck_attempt] (sample_download g)) \<in> set (running ?d)" by (simp add: downloading_def)
  note blocks = stuck_download_blocks_uploads [OF downloading_reached this stuck_attempt_hangs [OF g] draining_reached]
  have "phase ?s = Draining 4" by simp
  then show ?thesis using blocks g downloading_reached draining_reached by blast
qed

end
