(* ===== verification/Md5Test.thy ===== *)
theory Md5Test
  imports Md5Old
begin

text \<open>
  The first of the test values in the comment at the top of \<open>src/lab3/md5.c\<close>, evaluated in the
  kernel: the block function, its tables and the padding of the model give the digest
  \<open>D4 1D 8C D9 8F 00 B2 04  E9 80 09 98 EC F8 42 7E\<close> of the empty message.
\<close>

lemma upt_4: "[0 ..< 4] = [0, 1, 2, 3 :: nat]"
  by code_simp

lemma md5_set_step:
  "md5_set f data (k, s, T) (a, b, c, d) = (d, rotate_left (a + f b c d + block_word data k + T) s + b, b, c)"
  by (simp add: md5_set_def Let_def)

lemma replicate_numeral_Suc: "replicate (numeral n) x = x # replicate (pred_numeral n) x"
  by (simp add: numeral_eq_Suc)

definition empty_block :: "u8 list" where
  "empty_block =
    [0x80, 0, 0, 0, 0, 0, 0, 0, 0, 0, 0, 0, 0, 0, 0, 0, 0, 0, 0, 0, 0, 0, 0, 0, 0, 0, 0, 0, 0, 0, 0, 0,
     0, 0, 0, 0, 0, 0, 0, 0, 0, 0, 0, 0, 0, 0, 0, 0, 0, 0, 0, 0, 0, 0, 0, 0, 0, 0, 0, 0, 0, 0, 0, 0]"

lemma padded_empty: "padded [] = empty_block"
  by (simp add: padded_def padding_length_def word_bytes_def upt_4 replicate_numeral_Suc empty_block_def)

lemma process_empty_block:
  "md5_process empty_block md5_init_regs = (0xd98c1dd4, 0x04b2008f, 0x980980e9, 0x7e42f8ec)"
  by (simp add: md5_process_def Let_def round_1_def round_2_def round_3_def round_4_def md5_set_step md5_init_regs_def
      block_word_def md5_T_def rotate_left_def md5_F_def md5_G_def md5_H_def md5_I_def empty_block_def)

lemma md5_digest_empty:
  "md5_digest [] =
    [0xD4, 0x1D, 0x8C, 0xD9, 0x8F, 0x00, 0xB2, 0x04, 0xE9, 0x80, 0x09, 0x98, 0xEC, 0xF8, 0x42, 0x7E]"
proof -
  have "take 64 empty_block = empty_block" "drop 64 empty_block = []" "length empty_block = 64"
    by (simp_all add: empty_block_def)
  then have "md5_blocks md5_init_regs (padded []) = md5_process empty_block md5_init_regs"
    by (simp add: padded_empty md5_blocks_def full_blocks.simps [of _ empty_block] full_blocks.simps [of _ "[]"])
  then show ?thesis
    by (simp add: md5_digest_def process_empty_block regs_bytes_def word_bytes_def upt_4)
qed

end
