(* ===== verification/FormatCache.thy ===== *)
theory FormatCache
  imports OspfsDisk
begin

text \<open>
  The block cache of the image builder (\<open>src/lab3/ospfsformat.c\<close>): sixteen blocks, written back when
  their slot is taken by another block, least recently used first, and the byte-order conversion of
  a block on its way to the disk. A pointer to a \<open>struct Block\<close> is the index of its slot. The clock
  \<open>t\<close> and the busy counts are natural numbers: the program does not call \<open>getblk\<close> as often as an
  \<open>int\<close> counts. Reads and writes of the image file itself are taken to succeed.
\<close>

section \<open>Ends of the program\<close>

text \<open>The reasons to call \<open>abort\<close>, a failed assertion, and accesses outside an object.\<close>

datatype abort = Past_end | Cache_full | Assertion | No_inodes | Too_large | Open_failed | Read_failed
  | Readlink_failed | Usage | Overrun | Null_pointer

type_synonym ('s, 'a) build = "'s \<Rightarrow> abort + 'a \<times> 's"

definition done_with :: "'a \<Rightarrow> ('s, 'a) build" where
  "done_with x s = Inr (x, s)"

definition bind :: "('s, 'a) build \<Rightarrow> ('a \<Rightarrow> ('s, 'b) build) \<Rightarrow> ('s, 'b) build" where
  "bind m f s = (case m s of Inl e \<Rightarrow> Inl e | Inr (x, s1) \<Rightarrow> f x s1)"

definition ends :: "('s, 'a) build \<Rightarrow> 's \<Rightarrow> ('a \<Rightarrow> 's \<Rightarrow> bool) \<Rightarrow> bool" where
  "ends m s Q \<longleftrightarrow> (case m s of Inl e \<Rightarrow> False | Inr (x, s1) \<Rightarrow> Q x s1)"

lemma ends_simps [simp]:
  "ends (done_with x) s Q \<longleftrightarrow> Q x s"
  "ends (bind m f) s Q \<longleftrightarrow> ends m s (\<lambda>x s1. ends (f x) s1 Q)"
  by (auto simp: ends_def done_with_def bind_def split: sum.splits)

lemma ends_mono: "ends m s P \<Longrightarrow> (\<And>x s1. P x s1 \<Longrightarrow> Q x s1) \<Longrightarrow> ends m s Q"
  by (auto simp: ends_def split: sum.splits)

lemma ends_iff: "ends m s Q \<longleftrightarrow> (\<exists>x s1. m s = Inr (x, s1) \<and> Q x s1)"
  by (auto simp: ends_def split: sum.splits)

section \<open>Byte order\<close>

text \<open>
  \<open>swizzle\<close> reads a word as the machine does and stores its bytes least significant first. The
  machine of the model is little-endian.
\<close>

definition swizzle :: "nat \<Rightarrow> mem \<Rightarrow> mem" where
  "swizzle x m =
     (let y = ld32 m x
      in m(x := ucast (y AND 0xFF), x + 1 := ucast (drop_bit 8 y AND 0xFF), x + 2 := ucast (drop_bit 16 y AND 0xFF),
         x + 3 := ucast (drop_bit 24 y AND 0xFF)))"

definition swizzleinode :: "nat \<Rightarrow> mem \<Rightarrow> mem" where
  "swizzleinode inode m =
     (if ld32 m (inode + 8) = 0 then m
      else
        let m1 = swizzle (inode + 8) (swizzle (inode + 12) (swizzle (inode + 4) (swizzle inode m)));
            m2 = fold (\<lambda>i. swizzle (inode + 16 + 4 * i)) [0 ..< OSPFS_NDIRECT] m1
        in swizzle (inode + 60) (swizzle (inode + 56) m2))"

definition swizzledirentry :: "nat \<Rightarrow> mem \<Rightarrow> mem" where
  "swizzledirentry direntry m = (if m (direntry + 4) = 0 then m else swizzle direntry m)"

datatype block_type = BLOCK_SUPER | BLOCK_DIR | BLOCK_FILE | BLOCK_BITS | BLOCK_INODES

definition swizzleblock :: "block_type \<Rightarrow> mem \<Rightarrow> mem" where
  "swizzleblock type b =
     (case type of
        BLOCK_SUPER \<Rightarrow> swizzle 12 (swizzle 8 (swizzle 4 (swizzle 0 b)))
      | BLOCK_DIR \<Rightarrow> fold (\<lambda>i. swizzledirentry (OSPFS_DIRENTRY_SIZE * i)) [0 ..< 8] b
      | BLOCK_BITS \<Rightarrow> fold (\<lambda>i. swizzle (4 * i)) [0 ..< 256] b
      | BLOCK_INODES \<Rightarrow> fold (\<lambda>i. swizzleinode (OSPFS_INODESIZE * i)) [0 ..< 16] b
      | BLOCK_FILE \<Rightarrow> b)"

lemma ld32_bytes:
  "ucast (ld32 m x AND 0xFF) = m x" "ucast (drop_bit 8 (ld32 m x) AND 0xFF) = m (x + 1)"
  "ucast (drop_bit 16 (ld32 m x) AND 0xFF) = m (x + 2)" "ucast (drop_bit 24 (ld32 m x) AND 0xFF) = m (x + 3)"
proof -
  have ff: "(0xFF :: u32) = mask 8" by (simp add: mask_eq_exp_minus_1)
  show "ucast (ld32 m x AND 0xFF) = m x" "ucast (drop_bit 8 (ld32 m x) AND 0xFF) = m (x + 1)"
    "ucast (drop_bit 16 (ld32 m x) AND 0xFF) = m (x + 2)" "ucast (drop_bit 24 (ld32 m x) AND 0xFF) = m (x + 3)"
    unfolding ff by (rule bit_word_eqI; simp add: ld32_def bit_simps; auto dest: bit_imp_le_length)+
qed

lemma swizzle_id [simp]: "swizzle x m = m"
  by (simp add: swizzle_def Let_def ld32_bytes fun_upd_idem)

lemma fold_id: "(\<And>i m. f i m = m) \<Longrightarrow> fold f is m = m"
  by (induction "is") simp_all

lemma swizzleblock_id [simp]: "swizzleblock type b = b"
  by (cases type) (simp_all add: swizzleblock_def swizzleinode_def swizzledirentry_def fold_id)

section \<open>The cache\<close>

record cblock =
  blk_no :: nat
  blk_type :: block_type
  busy :: nat
  used :: nat
  u_b :: mem

record store =
  disk :: mem
  cache :: "cblock list"
  ticks :: nat
  nblocks :: nat

text \<open>The empty cache over an empty image, and the clock at its start.\<close>

definition empty_block :: cblock where
  "empty_block = \<lparr>blk_no = 0, blk_type = BLOCK_SUPER, busy = 0, used = 0, u_b = \<lambda>_. 0\<rparr>"

definition empty_store :: "nat \<Rightarrow> store" where
  "empty_store nb = \<lparr>disk = \<lambda>_. 0, cache = replicate 16 empty_block, ticks = 1, nblocks = nb\<rparr>"

definition write_disk :: "nat \<Rightarrow> mem \<Rightarrow> mem \<Rightarrow> mem" where
  "write_disk no b d = (\<lambda>x. if 1024 * no \<le> x \<and> x < 1024 * no + 1024 then b (x - 1024 * no) else d x)"

definition flushb :: "nat \<Rightarrow> store \<Rightarrow> store" where
  "flushb i s =
     (let b = cache s ! i; d = swizzleblock (blk_type b) (u_b b)
      in s\<lparr>disk := write_disk (blk_no b) d (disk s),
           cache := (cache s)[i := b\<lparr>u_b := swizzleblock (blk_type b) d\<rparr>]\<rparr>)"

text \<open>The search of \<open>getblk\<close>: a slot that holds the block, or the least recently used idle slot.\<close>

function search :: "cblock list \<Rightarrow> nat \<Rightarrow> nat \<Rightarrow> nat option \<Rightarrow> nat + nat option" where
  "search c no i least =
     (if i < length c then
        if blk_no (c ! i) = no then Inl i
        else search c no (i + 1)
          (if busy (c ! i) = 0 \<and> (case least of None \<Rightarrow> True | Some l \<Rightarrow> used (c ! i) < used (c ! l)) then Some i else least)
      else Inr least)"
  by pat_completeness auto
termination
  by (relation "measure (\<lambda>(c, no, i, least). length c - i)") auto

declare search.simps [simp del]

text \<open>The part of \<open>getblk\<close> behind the label \<open>out\<close>.\<close>

definition take_slot :: "nat \<Rightarrow> bool \<Rightarrow> block_type \<Rightarrow> (store, nat) build" where
  "take_slot i clr type s =
     (let b = cache s ! i;
          b1 = b\<lparr>u_b := (if clr then mem_set (u_b b) 0 0 OSPFS_BLKSIZE else u_b b), used := ticks s + 1, busy := busy b + 1\<rparr>
      in if blk_type b1 = type \<or> busy b1 = 1
         then Inr (i, s\<lparr>ticks := ticks s + 1, cache := (cache s)[i := b1\<lparr>blk_type := type\<rparr>]\<rparr>)
         else Inl Assertion)"

definition getblk :: "nat \<Rightarrow> bool \<Rightarrow> block_type \<Rightarrow> (store, nat) build" where
  "getblk no clr type s =
     (if no \<ge> nblocks s then Inl Past_end
      else
        case search (cache s) no 0 None of
          Inl i \<Rightarrow> take_slot i clr type s
        | Inr None \<Rightarrow> Inl Cache_full
        | Inr (Some i) \<Rightarrow>
            let s1 = (if used (cache s ! i) \<noteq> 0 then flushb i s else s);
                b = (cache s1 ! i)\<lparr>blk_no := no, u_b := (\<lambda>k. disk s1 (1024 * no + k))\<rparr>;
                b1 = (if clr then b else b\<lparr>u_b := swizzleblock (blk_type b) (u_b b)\<rparr>)
            in take_slot i clr type (s1\<lparr>cache := (cache s1)[i := b1\<lparr>busy := 0, blk_type := type\<rparr>]\<rparr>))"

definition putblk :: "nat \<Rightarrow> (store, unit) build" where
  "putblk i s = Inr ((), s\<lparr>cache := (cache s)[i := (cache s ! i)\<lparr>busy := busy (cache s ! i) - 1\<rparr>]\<rparr>)"

definition flushdisk :: "store \<Rightarrow> store" where
  "flushdisk s = fold (\<lambda>i s. if used (cache s ! i) \<noteq> 0 then flushb i s else s) [0 ..< 16] s"

text \<open>What the pointer to a block reads and writes: words, and bytes that must stay in the block.\<close>

definition word_at :: "nat \<Rightarrow> nat \<Rightarrow> store \<Rightarrow> u32" where
  "word_at i off s = ld32 (u_b (cache s ! i)) off"

definition byte_at :: "nat \<Rightarrow> nat \<Rightarrow> store \<Rightarrow> u8" where
  "byte_at i off s = u_b (cache s ! i) off"

definition block_no :: "nat \<Rightarrow> store \<Rightarrow> nat" where
  "block_no i s = blk_no (cache s ! i)"

definition put_word :: "nat \<Rightarrow> nat \<Rightarrow> u32 \<Rightarrow> store \<Rightarrow> store" where
  "put_word i off v s = s\<lparr>cache := (cache s)[i := (cache s ! i)\<lparr>u_b := st32 (u_b (cache s ! i)) off v\<rparr>]\<rparr>"

definition put_bytes :: "nat \<Rightarrow> nat \<Rightarrow> u8 list \<Rightarrow> store \<Rightarrow> store" where
  "put_bytes i off bs s = s\<lparr>cache := (cache s)[i := (cache s ! i)\<lparr>u_b := mem_put (u_b (cache s ! i)) off bs\<rparr>]\<rparr>"

section \<open>What the cache stands for\<close>

text \<open>
  The disk as the program sees it: a block that is in the cache counts with its contents there.
  \<open>pins\<close> counts the pointers that the program holds to a block.
\<close>

definition slot_holds :: "store \<Rightarrow> nat \<Rightarrow> nat \<Rightarrow> bool" where
  "slot_holds s i c \<longleftrightarrow> i < 16 \<and> used (cache s ! i) \<noteq> 0 \<and> blk_no (cache s ! i) = c"

definition slot_of :: "store \<Rightarrow> nat \<Rightarrow> nat option" where
  "slot_of s c = List.find (\<lambda>i. slot_holds s i c) [0 ..< 16]"

definition view :: "store \<Rightarrow> mem" where
  "view s x = (case slot_of s (x div 1024) of None \<Rightarrow> disk s x | Some i \<Rightarrow> u_b (cache s ! i) (x mod 1024))"

definition pins :: "store \<Rightarrow> nat \<Rightarrow> nat" where
  "pins s c = (case slot_of s c of None \<Rightarrow> 0 | Some i \<Rightarrow> busy (cache s ! i))"

definition kind :: "store \<Rightarrow> nat \<Rightarrow> block_type" where
  "kind s c = (case slot_of s c of None \<Rightarrow> BLOCK_SUPER | Some i \<Rightarrow> blk_type (cache s ! i))"

definition cache_ok :: "store \<Rightarrow> bool" where
  "cache_ok s \<longleftrightarrow> length (cache s) = 16 \<and>
     (\<forall>i < 16. if used (cache s ! i) = 0 then blk_no (cache s ! i) = 0 \<and> busy (cache s ! i) = 0
               else 0 < blk_no (cache s ! i) \<and> blk_no (cache s ! i) < nblocks s) \<and>
     (\<forall>i < 16. \<forall>j < 16. used (cache s ! i) \<noteq> 0 \<longrightarrow> blk_no (cache s ! i) = blk_no (cache s ! j) \<longrightarrow> i = j)"

lemma option_ext: "(\<And>j. x = Some j \<longleftrightarrow> y = Some j) \<Longrightarrow> x = y"
  by (cases x; cases y) auto

lemma cache_unique:
  "cache_ok s \<Longrightarrow> i < 16 \<Longrightarrow> j < 16 \<Longrightarrow> used (cache s ! i) \<noteq> 0 \<Longrightarrow> blk_no (cache s ! i) = blk_no (cache s ! j) \<Longrightarrow> i = j"
  unfolding cache_ok_def by blast

lemma unused_zero: "cache_ok s \<Longrightarrow> i < 16 \<Longrightarrow> used (cache s ! i) = 0 \<Longrightarrow> blk_no (cache s ! i) = 0 \<and> busy (cache s ! i) = 0"
  unfolding cache_ok_def by presburger

lemma slot_holds_unique: "cache_ok s \<Longrightarrow> slot_holds s i c \<Longrightarrow> slot_holds s j c \<Longrightarrow> i = j"
  by (auto simp: cache_ok_def slot_holds_def)

lemma slot_of_Some: "cache_ok s \<Longrightarrow> slot_of s c = Some i \<longleftrightarrow> slot_holds s i c"
proof
  assume "slot_of s c = Some i"
  then show "slot_holds s i c" unfolding slot_of_def find_Some_iff by auto
next
  assume ok: "cache_ok s" and h: "slot_holds s i c"
  then have "i < 16" by (simp add: slot_holds_def)
  then have "slot_of s c \<noteq> None" using h unfolding slot_of_def find_None_iff by auto
  then obtain j where j: "slot_of s c = Some j" by blast
  then have "slot_holds s j c" unfolding slot_of_def find_Some_iff by auto
  then show "slot_of s c = Some i" using j slot_holds_unique [OF ok _ h] by simp
qed

lemma slot_of_None: "slot_of s c = None \<longleftrightarrow> (\<forall>i. \<not> slot_holds s i c)"
  unfolding slot_of_def find_None_iff by (auto simp: slot_holds_def)

lemma held_facts:
  assumes "cache_ok s" "slot_holds s i c"
  shows "k < 1024 \<Longrightarrow> view s (1024 * c + k) = u_b (cache s ! i) k" "pins s c = busy (cache s ! i)"
    "kind s c = blk_type (cache s ! i)" "0 < c" "c < nblocks s" "i < 16"
  using assms slot_of_Some [OF assms(1), of c i]
  by (auto simp: view_def pins_def kind_def cache_ok_def slot_holds_def split: if_splits)

lemma unheld_facts:
  assumes "\<forall>i. \<not> slot_holds s i c"
  shows "k < 1024 \<Longrightarrow> view s (1024 * c + k) = disk s (1024 * c + k)" "pins s c = 0"
  using assms slot_of_None [of s c] by (simp_all add: view_def pins_def)

lemma byte_split: obtains c k where "x = 1024 * c + k" "k < (1024 :: nat)"
  using that [of "x div 1024" "x mod 1024"] by simp

text \<open>The contents of one slot replaced.\<close>

lemma slot_update:
  fixes s :: store and b :: cblock and d :: mem and t i :: nat
  defines "s' \<equiv> s\<lparr>disk := d, ticks := t, cache := (cache s)[i := b]\<rparr>"
  assumes ok: "cache_ok s" and i: "i < 16" and b: "used b \<noteq> 0" "0 < blk_no b" "blk_no b < nblocks s"
    and fresh: "\<And>j. j < 16 \<Longrightarrow> j \<noteq> i \<Longrightarrow> blk_no (cache s ! j) \<noteq> blk_no b"
  shows "cache_ok s'" "slot_holds s' j c \<longleftrightarrow> (if j = i then c = blk_no b else slot_holds s j c)"
    "cache s' ! i = b" "j \<noteq> i \<Longrightarrow> cache s' ! j = cache s ! j"
proof -
  have len: "length (cache s) = 16" using ok by (simp add: cache_ok_def)
  show at: "cache s' ! i = b" using len i by (simp add: s'_def)
  have off: "cache s' ! j = cache s ! j" if "j \<noteq> i" for j using that by (simp add: s'_def)
  then show "j \<noteq> i \<Longrightarrow> cache s' ! j = cache s ! j" .
  show "slot_holds s' j c \<longleftrightarrow> (if j = i then c = blk_no b else slot_holds s j c)"
    using at off [of j] i b by (auto simp: slot_holds_def)
  have old: "if used (cache s ! j) = 0 then blk_no (cache s ! j) = 0 \<and> busy (cache s ! j) = 0
      else 0 < blk_no (cache s ! j) \<and> blk_no (cache s ! j) < nblocks s" if "j < 16" for j
    using ok that unfolding cache_ok_def by blast
  have uniq: "j = k" if "j < 16" "k < 16" "used (cache s ! j) \<noteq> 0" "blk_no (cache s ! j) = blk_no (cache s ! k)" for j k
    using ok that unfolding cache_ok_def by blast
  have n: "nblocks s' = nblocks s" by (simp add: s'_def)
  have "if used (cache s' ! j) = 0 then blk_no (cache s' ! j) = 0 \<and> busy (cache s' ! j) = 0
      else 0 < blk_no (cache s' ! j) \<and> blk_no (cache s' ! j) < nblocks s'" if "j < 16" for j
    using old [OF that] at off [of j] b n by (cases "j = i") simp_all
  moreover have "j = k" if "j < 16" "k < 16" "used (cache s' ! j) \<noteq> 0" "blk_no (cache s' ! j) = blk_no (cache s' ! k)" for j k
  proof (cases "j = i")
    case True
    then show ?thesis using that fresh [of k] at off [of k] by (cases "k = i") simp_all
  next
    case False
    then have "k \<noteq> i" using that fresh [of j] at off [of j] by auto
    then show ?thesis using that uniq [of j k] False off by simp
  qed
  moreover have "length (cache s') = 16" using len by (simp add: s'_def)
  ultimately show "cache_ok s'" unfolding cache_ok_def by blast
qed

lemma slot_update_slot_of:
  fixes s :: store and b :: cblock and d :: mem and t i :: nat
  defines "s' \<equiv> s\<lparr>disk := d, ticks := t, cache := (cache s)[i := b]\<rparr>"
  assumes ok: "cache_ok s" and i: "i < 16" and b: "used b \<noteq> 0" "0 < blk_no b" "blk_no b < nblocks s"
    and fresh: "\<And>j. j < 16 \<Longrightarrow> j \<noteq> i \<Longrightarrow> blk_no (cache s ! j) \<noteq> blk_no b"
  shows "slot_of s' c = (if c = blk_no b then Some i else if slot_of s c = Some i then None else slot_of s c)"
proof -
  have ok': "cache_ok s'" unfolding s'_def by (rule slot_update(1) [OF ok i b fresh])
  have holds: "slot_holds s' j c \<longleftrightarrow> (if j = i then c = blk_no b else slot_holds s j c)" for j
    unfolding s'_def by (rule slot_update(2) [OF ok i b fresh])
  have other: "j = i" if "slot_holds s j (blk_no b)" for j using that fresh [of j] by (auto simp: slot_holds_def)
  have "slot_of s' c = Some j \<longleftrightarrow>
      (if c = blk_no b then j = i else slot_of s c \<noteq> Some i \<and> slot_of s c = Some j)" for j
    using slot_of_Some [OF ok', of c j] slot_of_Some [OF ok, of c] holds [of j] other [of j]
      slot_holds_unique [OF ok, of j c i] by (auto split: if_splits)
  then show ?thesis by (intro option_ext) auto
qed

text \<open>The search finds the slot of the block, or an idle slot if there is one.\<close>

lemma search_cases:
  assumes "case least of None \<Rightarrow> True | Some l \<Rightarrow> l < length c \<and> busy (c ! l) = 0"
  shows "case search c no i least of
      Inl j \<Rightarrow> j < length c \<and> blk_no (c ! j) = no
    | Inr r \<Rightarrow> (\<forall>j < length c. i \<le> j \<longrightarrow> blk_no (c ! j) \<noteq> no) \<and>
        (case r of None \<Rightarrow> least = None \<and> (\<forall>j < length c. i \<le> j \<longrightarrow> busy (c ! j) \<noteq> 0)
         | Some l \<Rightarrow> l < length c \<and> busy (c ! l) = 0)"
  using assms
proof (induction c no i least rule: search.induct)
  case (1 c no i least)
  have le: "i \<le> j \<longleftrightarrow> j = i \<or> i + 1 \<le> j" for j by auto
  show ?case
  proof (cases "i < length c \<and> blk_no (c ! i) \<noteq> no")
    case True
    define l where
      "l = (if busy (c ! i) = 0 \<and> (case least of None \<Rightarrow> True | Some l \<Rightarrow> used (c ! i) < used (c ! l)) then Some i else least)"
    have "case l of None \<Rightarrow> True | Some l \<Rightarrow> l < length c \<and> busy (c ! l) = 0"
      using True 1(2) by (simp add: l_def split: option.splits)
    note IH = 1(1) [folded l_def, OF _ _ this]
    have s: "search c no i least = search c no (i + 1) l" using True by (simp add: search.simps [of c no i] l_def)
    have n: "l = None \<longleftrightarrow> least = None \<and> busy (c ! i) \<noteq> 0" by (cases least) (auto simp: l_def)
    show ?thesis
    proof (cases "search c no (i + 1) l")
      case (Inl j)
      then show ?thesis using IH True unfolding s by simp
    next
      case (Inr r)
      then show ?thesis using IH True n unfolding s by (cases r) (auto simp: le)
    qed
  next
    case False
    then show ?thesis using 1(2) by (auto simp: search.simps [of c no i] split: option.splits)
  qed
qed

text \<open>
  \<open>got s no clr type i s'\<close>: from \<open>s\<close> to \<open>s'\<close> the program has got a pointer \<open>i\<close> to block \<open>no\<close>, and
  lost none of those it had.
\<close>

definition got :: "store \<Rightarrow> nat \<Rightarrow> bool \<Rightarrow> block_type \<Rightarrow> nat \<Rightarrow> store \<Rightarrow> bool" where
  "got s no clr type i s' \<longleftrightarrow> cache_ok s' \<and> slot_holds s' i no \<and> nblocks s' = nblocks s \<and>
     view s' = (if clr then mem_set (view s) (1024 * no) 0 1024 else view s) \<and>
     pins s' = (pins s)(no := pins s no + 1) \<and> kind s' no = type \<and> (\<forall>c. c \<noteq> no \<longrightarrow> 0 < pins s c \<longrightarrow> kind s' c = kind s c) \<and>
     (\<forall>j c. slot_holds s j c \<longrightarrow> 0 < pins s c \<longrightarrow> slot_holds s' j c)"

lemma take_slot_got:
  assumes ok: "cache_ok s" and h: "slot_holds s i no" and t: "kind s no = type \<or> pins s no = 0"
  shows "ends (take_slot i clr type) s (\<lambda>p s'. p = i \<and> got s no clr type i s')"
proof -
  define b where "b = cache s ! i"
  define b' where "b' = b\<lparr>u_b := (if clr then mem_set (u_b b) 0 0 1024 else u_b b), used := ticks s + 1, busy := busy b + 1,
    blk_type := type\<rparr>"
  define s' where "s' = s\<lparr>ticks := ticks s + 1, cache := (cache s)[i := b']\<rparr>"
  note held = held_facts [OF ok h]
  have no: "blk_no b = no" "used b \<noteq> 0" "i < 16" using h by (simp_all add: slot_holds_def b_def)
  have fresh: "blk_no (cache s ! j) \<noteq> blk_no b'" if "j < 16" "j \<noteq> i" for j
    using cache_unique [OF ok no(3) that(1)] that(2) no by (auto simp: b'_def b_def)
  have b': "used b' \<noteq> 0" "0 < blk_no b'" "blk_no b' < nblocks s" using no held by (simp_all add: b'_def)
  have s': "s' = s\<lparr>disk := disk s, ticks := ticks s + 1, cache := (cache s)[i := b']\<rparr>" by (simp add: s'_def)
  note up = slot_update [OF ok no(3) b' fresh, where d = "disk s" and t = "ticks s + 1", folded s']
  note so = slot_update_slot_of [OF ok no(3) b' fresh, where d = "disk s" and t = "ticks s + 1", folded s']
  have slot: "slot_of s no = Some i" using slot_of_Some [OF ok] h by simp
  have slots: "slot_of s' c = slot_of s c" for c using so [of c] slot slot_of_Some [OF ok, of c i] no(1)
    by (auto simp: b'_def slot_holds_def b_def)
  have hold: "slot_holds s' j c = slot_holds s j c" for j c
    using slot_of_Some [OF up(1), of c j] slot_of_Some [OF ok, of c j] slots by simp
  have other: "j \<noteq> i" if "slot_of s c = Some j" "c \<noteq> no" for j c using that slot_of_Some [OF ok] no(1) by (auto simp: slot_holds_def b_def)
  have "view s' x = (if clr then mem_set (view s) (1024 * no) 0 1024 else view s) x" for x
  proof (rule byte_split [of x])
    fix c k :: nat
    assume x: "x = 1024 * c + k" "k < 1024"
    show ?thesis
    proof (cases "c = no")
      case True
      then show ?thesis using x slot slots up(3) held(1) by (simp add: view_def b'_def b_def mem_set_def)
    next
      case False
      then have "\<not> (1024 * no \<le> x \<and> x < 1024 * no + 1024)" using x by linarith
      then show ?thesis using x slots False other [of c] up(4)
        by (auto simp: view_def mem_set_def s'_def split: option.splits)
    qed
  qed
  moreover have "pins s' = (pins s)(no := pins s no + 1)"
    using slot slots up(3,4) other by (auto simp: pins_def fun_eq_iff b'_def b_def split: option.splits)
  moreover have "kind s' c = (if c = no then type else kind s c)" for c
    using slot slots up(3,4) other by (auto simp: kind_def b'_def split: option.splits)
  ultimately have "got s no clr type i s'" using up(1) hold h by (auto simp: got_def s'_def)
  moreover have "take_slot i clr type s = Inr (i, s')"
    using t held(2,3) by (auto simp: take_slot_def s'_def b'_def b_def Let_def)
  ultimately show ?thesis by (simp add: ends_def)
qed

text \<open>A block that is not in the cache takes the slot of an idle one.\<close>

lemma replace_slot:
  assumes ok: "cache_ok s" and no: "0 < no" "no < nblocks s" "\<forall>i. \<not> slot_holds s i no"
    and i: "i < 16" "busy (cache s ! i) = 0"
  defines "s1 \<equiv> (if used (cache s ! i) \<noteq> 0 then flushb i s else s)"
  assumes b: "blk_no b = no" "busy b = 0" "blk_type b = type" "u_b b = (\<lambda>k. disk s1 (1024 * no + k))" "used b \<noteq> 0"
  defines "s2 \<equiv> s1\<lparr>cache := (cache s1)[i := b]\<rparr>"
  shows "cache_ok s2" "slot_holds s2 i no" "nblocks s2 = nblocks s" "view s2 = view s" "pins s2 = pins s"
    "kind s2 no = type" "0 < pins s c \<Longrightarrow> kind s2 c = kind s c" "slot_holds s j c \<Longrightarrow> 0 < pins s c \<Longrightarrow> slot_holds s2 j c"
proof -
  define old where "old = cache s ! i"
  have len: "length (cache s) = 16" using ok by (simp add: cache_ok_def)
  have s2: "s2 = s\<lparr>disk := disk s1, ticks := ticks s, cache := (cache s)[i := b]\<rparr>"
    by (simp add: s2_def s1_def flushb_def Let_def)
  have b': "used b \<noteq> 0" "0 < blk_no b" "blk_no b < nblocks s" using b no by simp_all
  have unused0: "used (cache s ! j) = 0 \<Longrightarrow> j < 16 \<Longrightarrow> blk_no (cache s ! j) = 0" for j
    using unused_zero [OF ok] by blast
  have fresh: "blk_no (cache s ! j) \<noteq> blk_no b" if "j < 16" "j \<noteq> i" for j
    using no(1,3) b(1) unused0 [OF _ that(1)] that(1) by (cases "used (cache s ! j) = 0") (auto simp: slot_holds_def)
  note up = slot_update [OF ok i(1) b' fresh, where d = "disk s1" and t = "ticks s", folded s2]
  note so = slot_update_slot_of [OF ok i(1) b' fresh, where d = "disk s1" and t = "ticks s", folded s2]
  show "cache_ok s2" by (rule up(1))
  show "nblocks s2 = nblocks s" by (simp add: s2)
  show "slot_holds s2 i no" using up(2) [of i no] b(1) by simp
  have none: "slot_of s no = None" using no(3) by (simp add: slot_of_None)
  have is_i: "c = blk_no old \<and> used old \<noteq> 0" if "slot_of s c = Some i" for c
    using that slot_of_Some [OF ok] by (simp add: slot_holds_def old_def)
  have disk: "disk s1 (1024 * c + k) = (if slot_of s c = Some i then u_b old k else disk s (1024 * c + k))" if "k < 1024" for c k
  proof (cases "used old = 0")
    case False
    have "1024 * blk_no old \<le> 1024 * c + k \<and> 1024 * c + k < 1024 * blk_no old + 1024 \<longleftrightarrow> c = blk_no old" using that by linarith
    moreover have "slot_of s c = Some i \<longleftrightarrow> c = blk_no old"
      using slot_of_Some [OF ok] i(1) False by (auto simp: slot_holds_def old_def)
    ultimately show ?thesis using False by (simp add: s1_def flushb_def write_disk_def Let_def old_def)
  qed (use is_i [of c] in \<open>auto simp: s1_def old_def\<close>)
  have other: "j \<noteq> i" if "slot_of s2 c = Some j" "c \<noteq> no" for c j using that so [of c] b(1) by (auto split: if_splits)
  show "view s2 = view s"
  proof
    fix x
    show "view s2 x = view s x"
    proof (rule byte_split [of x])
      fix c k :: nat
      assume x: "x = 1024 * c + k" "k < 1024"
      have d2: "disk s2 x = disk s1 x" by (simp add: s2)
      show ?thesis
      proof (cases "c = no")
        case True
        then show ?thesis using x so [of c] none b(1,4) up(3) disk [OF x(2), of c] by (simp add: view_def)
      next
        case False
        then show ?thesis using x so [of c] b(1) disk [OF x(2), of c] up(4) d2
          by (auto simp: view_def old_def split: option.splits if_splits)
      qed
    qed
  qed
  show "pins s2 = pins s"
  proof
    fix c
    show "pins s2 c = pins s c"
      using so [of c] none b(1,2) up(3,4) i(2) by (auto simp: pins_def split: option.splits if_splits)
  qed
  show "kind s2 no = type" using so [of no] b(1,3) up(3) by (simp add: kind_def)
  have idle: "slot_of s c \<noteq> Some i" if "0 < pins s c" for c using that i(2) by (auto simp: pins_def)
  show "0 < pins s c \<Longrightarrow> kind s2 c = kind s c"
    using so [of c] idle [of c] b(1) none up(4) by (auto simp: kind_def pins_def split: option.splits if_splits)
  show "slot_holds s j c \<Longrightarrow> 0 < pins s c \<Longrightarrow> slot_holds s2 j c"
    using up(2) [of j c] idle [of c] slot_of_Some [OF ok, of c j] by auto
qed

definition pinned :: "store \<Rightarrow> nat set" where
  "pinned s = {c. 0 < pins s c}"

lemma pinned_slots: "cache_ok s \<Longrightarrow> pinned s = (\<lambda>i. blk_no (cache s ! i)) ` {i. i < 16 \<and> busy (cache s ! i) \<noteq> 0}"
proof (rule set_eqI)
  fix c
  assume ok: "cache_ok s"
  have used: "used (cache s ! i) \<noteq> 0" if "i < 16" "busy (cache s ! i) \<noteq> 0" for i
    using unused_zero [OF ok that(1)] that(2) by blast
  show "c \<in> pinned s \<longleftrightarrow> c \<in> (\<lambda>i. blk_no (cache s ! i)) ` {i. i < 16 \<and> busy (cache s ! i) \<noteq> 0}"
  proof (cases "slot_of s c")
    case None
    then have no: "\<not> slot_holds s i c" for i by (simp add: slot_of_None)
    have "blk_no (cache s ! i) \<noteq> c" if "i < 16" "busy (cache s ! i) \<noteq> 0" for i
      using that used [OF that] no [of i] by (simp add: slot_holds_def)
    then show ?thesis using None by (auto simp: pinned_def pins_def)
  next
    case (Some i)
    then have h: "slot_holds s i c" using slot_of_Some [OF ok] by simp
    have uniq: "i = j" if "j < 16" "busy (cache s ! j) \<noteq> 0" "blk_no (cache s ! j) = c" for j
      using slot_holds_unique [OF ok h, of j] that used by (simp add: slot_holds_def)
    have i: "i < 16" "blk_no (cache s ! i) = c" using h by (simp_all add: slot_holds_def)
    have "c \<in> pinned s \<longleftrightarrow> busy (cache s ! i) \<noteq> 0" using Some by (simp add: pinned_def pins_def)
    also have "\<dots> \<longleftrightarrow> (\<exists>j < 16. busy (cache s ! j) \<noteq> 0 \<and> blk_no (cache s ! j) = c)" using i uniq by blast
    also have "\<dots> \<longleftrightarrow> c \<in> (\<lambda>i. blk_no (cache s ! i)) ` {i. i < 16 \<and> busy (cache s ! i) \<noteq> 0}" by blast
    finally show ?thesis .
  qed
qed

lemma finite_pinned: "cache_ok s \<Longrightarrow> finite (pinned s)"
  by (simp add: pinned_slots)

lemma all_busy:
  assumes ok: "cache_ok s" and all: "\<forall>i < 16. busy (cache s ! i) \<noteq> 0"
  shows "card (pinned s) = 16"
proof -
  have used: "used (cache s ! i) \<noteq> 0" if "i < 16" for i using unused_zero [OF ok that] all that by blast
  have "inj_on (\<lambda>i. blk_no (cache s ! i)) {..< 16}"
    using cache_unique [OF ok] used by (auto intro!: inj_onI)
  moreover have "pinned s = (\<lambda>i. blk_no (cache s ! i)) ` {..< 16}" using pinned_slots [OF ok] all by auto
  ultimately show ?thesis by (simp add: card_image)
qed

lemma take_slot_used:
  "i < length (cache s) \<Longrightarrow> take_slot i clr type (s\<lparr>cache := (cache s)[i := b\<lparr>used := n\<rparr>]\<rparr>) =
     take_slot i clr type (s\<lparr>cache := (cache s)[i := b]\<rparr>)"
  by (simp add: take_slot_def Let_def)

text \<open>
  \<open>getblk\<close> succeeds for every block of the disk unless all sixteen slots are in use by other
  blocks, or the block is in use with another type.
\<close>

lemma getblk_got:
  assumes ok: "cache_ok s" and no: "0 < no" "no < nblocks s" and room: "0 < pins s no \<or> card (pinned s) < 16"
    and t: "kind s no = type \<or> pins s no = 0"
  shows "ends (getblk no clr type) s (got s no clr type)"
proof -
  have len: "length (cache s) = 16" using ok by (simp add: cache_ok_def)
  note found = search_cases [where least = None and c = "cache s" and no = no and i = 0, simplified, unfolded len]
  show ?thesis
  proof (cases "search (cache s) no 0 None")
    case (Inl i)
    then have i: "i < 16" "blk_no (cache s ! i) = no" using found by simp_all
    have "used (cache s ! i) \<noteq> 0" using unused_zero [OF ok i(1)] i(2) no(1) by force
    then have h: "slot_holds s i no" using i by (simp add: slot_holds_def)
    have eq: "getblk no clr type s = take_slot i clr type s" using Inl no by (simp add: getblk_def)
    show ?thesis using take_slot_got [OF ok h t, of clr] unfolding ends_iff eq by blast
  next
    case (Inr r)
    then have absent: "\<forall>i. \<not> slot_holds s i no" using found by (simp add: slot_holds_def)
    then have none: "slot_of s no = None" by (simp add: slot_of_None)
    then have p0: "pins s no = 0" by (simp add: pins_def)
    obtain i where r: "r = Some i"
    proof (cases r)
      case None
      then have "\<forall>i < 16. busy (cache s ! i) \<noteq> 0" using found Inr by simp
      then show ?thesis using all_busy [OF ok] room p0 by simp
    qed (use that in simp)
    then have i: "i < 16" "busy (cache s ! i) = 0" using found Inr by simp_all
    define s1 where "s1 = (if used (cache s ! i) \<noteq> 0 then flushb i s else s)"
    define b where "b = (cache s1 ! i)\<lparr>blk_no := no, u_b := (\<lambda>k. disk s1 (1024 * no + k)), busy := 0, blk_type := type, used := 1\<rparr>"
    define s2 where "s2 = s1\<lparr>cache := (cache s1)[i := b]\<rparr>"
    have len1: "i < length (cache s1)" using len i by (simp add: s1_def flushb_def Let_def)
    have "blk_no b = no" "busy b = 0" "blk_type b = type" "u_b b = (\<lambda>k. disk s1 (1024 * no + k))" "used b \<noteq> 0"
      by (simp_all add: b_def)
    note rep = replace_slot [OF ok no absent i this [unfolded s1_def], folded s1_def, folded s2_def]
    have "getblk no clr type s = take_slot i clr type
        (s1\<lparr>cache := (cache s1)[i := b\<lparr>used := used (cache s1 ! i)\<rparr>]\<rparr>)"
      using Inr r no by (simp add: getblk_def Let_def s1_def b_def)
    also have "\<dots> = take_slot i clr type s2" unfolding s2_def by (rule take_slot_used [OF len1])
    finally have eq: "getblk no clr type s = take_slot i clr type s2" .
    have "ends (take_slot i clr type) s2 (\<lambda>p s'. p = i \<and> got s2 no clr type i s')"
      by (rule take_slot_got [OF rep(1,2)]) (use rep(5) p0 in simp)
    moreover have "got s no clr type i s'" if "got s2 no clr type i s'" for s'
      using that rep p0 unfolding got_def by (metis fun_upd_same)
    ultimately show ?thesis unfolding ends_iff eq by blast
  qed
qed

text \<open>The contents or the busy count of a block replaced.\<close>

definition same_slots :: "store \<Rightarrow> store \<Rightarrow> bool" where
  "same_slots s s' \<longleftrightarrow> cache_ok s' \<and> nblocks s' = nblocks s \<and> kind s' = kind s \<and> (\<forall>j c. slot_holds s' j c = slot_holds s j c)"

lemma slot_contents:
  fixes n :: nat and u :: mem
  assumes ok: "cache_ok s" and h: "slot_holds s i no"
  defines "s' \<equiv> s\<lparr>cache := (cache s)[i := (cache s ! i)\<lparr>busy := n, u_b := u\<rparr>]\<rparr>"
  shows "same_slots s s'" "pins s' = (pins s)(no := n)" "view s' x = (if x div 1024 = no then u (x mod 1024) else view s x)"
proof -
  let ?b = "(cache s ! i)\<lparr>busy := n, u_b := u\<rparr>"
  have i: "i < 16" "used (cache s ! i) \<noteq> 0" "blk_no (cache s ! i) = no" using h by (simp_all add: slot_holds_def)
  note held = held_facts [OF ok h]
  have b: "used ?b \<noteq> 0" "0 < blk_no ?b" "blk_no ?b < nblocks s" using i held by simp_all
  have fresh: "blk_no (cache s ! j) \<noteq> blk_no ?b" if "j < 16" "j \<noteq> i" for j
    using cache_unique [OF ok i(1) that(1) i(2)] that(2) by auto
  have s': "s' = s\<lparr>disk := disk s, ticks := ticks s, cache := (cache s)[i := ?b]\<rparr>" by (simp add: s'_def)
  note up = slot_update [OF ok i(1) b fresh, where d = "disk s" and t = "ticks s", folded s']
  have slot: "slot_of s no = Some i" using slot_of_Some [OF ok] h by simp
  have slots: "slot_of s' c = slot_of s c" for c
    using slot_update_slot_of [OF ok i(1) b fresh, where d = "disk s" and t = "ticks s", folded s', of c] slot i(3)
      slot_of_Some [OF ok, of c i] by (auto simp: slot_holds_def)
  have hold: "slot_holds s' j c = slot_holds s j c" for j c
    using slot_of_Some [OF up(1), of c j] slot_of_Some [OF ok, of c j] slots by simp
  have other: "j \<noteq> i" if "slot_of s c = Some j" "c \<noteq> no" for j c
    using that slot_of_Some [OF ok] i(3) by (auto simp: slot_holds_def)
  have "kind s' c = kind s c" for c
    using slot slots up(3,4) other [of c] by (cases "c = no") (auto simp: kind_def split: option.splits)
  then show "same_slots s s'" using up(1) hold by (auto simp: same_slots_def s'_def)
  show "pins s' = (pins s)(no := n)"
    using slot slots up(3,4) other by (auto simp: pins_def fun_eq_iff split: option.splits)
  show "view s' x = (if x div 1024 = no then u (x mod 1024) else view s x)"
  proof (cases "x div 1024 = no")
    case True
    then show ?thesis using slot slots up(3) by (simp add: view_def)
  next
    case False
    have "disk s' x = disk s x" by (simp add: s'_def)
    then show ?thesis using False slots up(4) other [of "x div 1024"] by (auto simp: view_def split: option.splits)
  qed
qed

lemma putblk_ends:
  assumes "cache_ok s" "slot_holds s i no"
  shows "ends (putblk i) s (\<lambda>_ s'. same_slots s s' \<and> view s' = view s \<and> pins s' = (pins s)(no := pins s no - 1))"
proof -
  let ?s = "s\<lparr>cache := (cache s)[i := (cache s ! i)\<lparr>busy := busy (cache s ! i) - 1, u_b := u_b (cache s ! i)\<rparr>]\<rparr>"
  note c = slot_contents [OF assms, where n = "busy (cache s ! i) - 1" and u = "u_b (cache s ! i)"]
  have put: "putblk i s = Inr ((), ?s)" by (simp add: putblk_def)
  have "view ?s x = view s x" for x
    using c(3) [of x] held_facts(1) [OF assms, of "x mod 1024"] by (auto simp: mult.commute)
  then have "view ?s = view s" by blast
  then show ?thesis using c(1,2) held_facts(2) [OF assms] put by (simp add: ends_def)
qed

lemma div_block: "1024 * c \<le> x \<Longrightarrow> x < 1024 * c + 1024 \<Longrightarrow> x div 1024 = (c :: nat) \<and> x mod 1024 = x - 1024 * c"
  by (metis add.commute add_diff_inverse_nat div_mult_self2 div_less less_diff_conv2 mod_less mod_mult_self2 not_le
      plus_nat.add_0 zero_neq_numeral)

lemma reads:
  assumes "cache_ok s" "slot_holds s i no"
  shows "off + 4 \<le> 1024 \<Longrightarrow> word_at i off s = ld32 (view s) (1024 * no + off)"
    "off < 1024 \<Longrightarrow> byte_at i off s = view s (1024 * no + off)" "block_no i s = no"
proof -
  have here: "view s (1024 * no + k) = u_b (cache s ! i) k" if "k < 1024" for k using held_facts(1) [OF assms that] by simp
  show "word_at i off s = ld32 (view s) (1024 * no + off)" if "off + 4 \<le> 1024"
    using here [of off] here [of "off + 1"] here [of "off + 2"] here [of "off + 3"] that
    by (simp add: word_at_def ld32_def add.assoc)
  show "off < 1024 \<Longrightarrow> byte_at i off s = view s (1024 * no + off)" using here by (simp add: byte_at_def)
  show "block_no i s = no" using assms(2) by (simp add: block_no_def slot_holds_def)
qed

lemma writes:
  assumes ok: "cache_ok s" "slot_holds s i no"
  shows "same_slots s (put_word i off v s)" "pins (put_word i off v s) = pins s"
    "off + 4 \<le> 1024 \<Longrightarrow> view (put_word i off v s) = st32 (view s) (1024 * no + off) v"
    "same_slots s (put_bytes i off bs s)" "pins (put_bytes i off bs s) = pins s"
    "off + length bs \<le> 1024 \<Longrightarrow> view (put_bytes i off bs s) = mem_put (view s) (1024 * no + off) bs"
proof -
  let ?b = "cache s ! i"
  have w: "put_word i off v s = s\<lparr>cache := (cache s)[i := ?b\<lparr>busy := busy ?b, u_b := st32 (u_b ?b) off v\<rparr>]\<rparr>"
    by (simp add: put_word_def)
  note cw = slot_contents [OF ok, where n = "busy ?b" and u = "st32 (u_b ?b) off v", folded w]
  have p: "put_bytes i off bs s = s\<lparr>cache := (cache s)[i := ?b\<lparr>busy := busy ?b, u_b := mem_put (u_b ?b) off bs\<rparr>]\<rparr>"
    by (simp add: put_bytes_def)
  note cp = slot_contents [OF ok, where n = "busy ?b" and u = "mem_put (u_b ?b) off bs", folded p]
  show "same_slots s (put_word i off v s)" "same_slots s (put_bytes i off bs s)" by (rule cw(1) cp(1))+
  show "pins (put_word i off v s) = pins s" "pins (put_bytes i off bs s) = pins s"
    using cw(2) cp(2) held_facts(2) [OF ok] by (simp_all add: fun_upd_idem)
  have here: "u_b ?b k = view s (1024 * no + k)" if "k < 1024" for k using held_facts(1) [OF ok that] by simp
  show "view (put_word i off v s) = st32 (view s) (1024 * no + off) v" if "off + 4 \<le> 1024"
  proof
    fix x
    show "view (put_word i off v s) x = st32 (view s) (1024 * no + off) v x"
    proof (rule byte_split [of x])
      fix c k :: nat
      assume x: "x = 1024 * c + k" "k < 1024"
      show ?thesis
      proof (cases "c = no")
        case True
        then show ?thesis using x cw(3) [of x] here [OF x(2)] by (simp add: st32_def)
      next
        case False
        then have "x < 1024 * no + off \<or> 1024 * no + off + 4 \<le> x" using x that by linarith
        then show ?thesis using x False cw(3) [of x] by (simp add: st32_other_byte)
      qed
    qed
  qed
  show "view (put_bytes i off bs s) = mem_put (view s) (1024 * no + off) bs" if "off + length bs \<le> 1024"
  proof
    fix x
    show "view (put_bytes i off bs s) x = mem_put (view s) (1024 * no + off) bs x"
    proof (rule byte_split [of x])
      fix c k :: nat
      assume x: "x = 1024 * c + k" "k < 1024"
      show ?thesis
      proof (cases "c = no")
        case True
        then show ?thesis using x cp(3) [of x] here [OF x(2)] by (simp add: mem_put_def)
      next
        case False
        then have "x < 1024 * no + off \<or> 1024 * no + off + length bs \<le> x" using x that by linarith
        then show ?thesis using x False cp(3) [of x] by (simp add: mem_put_out)
      qed
    qed
  qed
qed

section \<open>Writing everything back\<close>

lemma flushb_simps [simp]:
  "cache (flushb i s) = cache s" "nblocks (flushb i s) = nblocks s" "ticks (flushb i s) = ticks s"
  "disk (flushb i s) = write_disk (blk_no (cache s ! i)) (u_b (cache s ! i)) (disk s)"
  by (simp_all add: flushb_def Let_def)

lemma flush_fold:
  assumes ok: "cache_ok s"
  shows "set is \<subseteq> {..< 16} \<Longrightarrow>
    (let s' = fold (\<lambda>i s. if used (cache s ! i) \<noteq> 0 then flushb i s else s) is s
     in cache s' = cache s \<and> nblocks s' = nblocks s \<and>
        disk s' x = (if \<exists>i \<in> set is. slot_holds s i (x div 1024) then view s x else disk s x))"
proof (induction "is" rule: rev_induct)
  case (snoc i "is")
  let ?s = "fold (\<lambda>i s. if used (cache s ! i) \<noteq> 0 then flushb i s else s) is s"
  have IH: "cache ?s = cache s" "nblocks ?s = nblocks s"
    "disk ?s x = (if \<exists>i \<in> set is. slot_holds s i (x div 1024) then view s x else disk s x)"
    using snoc by (simp_all add: Let_def)
  have i: "i < 16" using snoc.prems by simp
  show ?case
  proof (cases "slot_holds s i (x div 1024)")
    case True
    have "1024 * (x div 1024) \<le> x" "x < 1024 * (x div 1024) + 1024" "x - 1024 * (x div 1024) = x mod 1024"
      by (simp_all add: minus_mult_div_eq_mod)
    then show ?thesis using True IH held_facts(1) [OF ok True, of "x mod 1024"]
      by (auto simp: Let_def slot_holds_def write_disk_def)
  next
    case False
    have "\<not> (1024 * blk_no (cache s ! i) \<le> x \<and> x < 1024 * blk_no (cache s ! i) + 1024)" if "used (cache s ! i) \<noteq> 0"
      using False div_block [of "blk_no (cache s ! i)" x] i that by (auto simp: slot_holds_def)
    then show ?thesis using False IH by (auto simp: Let_def write_disk_def)
  qed
qed simp

lemma flushdisk_view:
  assumes ok: "cache_ok s"
  shows "disk (flushdisk s) = view s" "cache (flushdisk s) = cache s" "nblocks (flushdisk s) = nblocks s"
proof -
  have "set [0 ..< 16 :: nat] \<subseteq> {..< 16}" by auto
  from flush_fold [OF ok this] have f: "cache (flushdisk s) = cache s" "nblocks (flushdisk s) = nblocks s"
    "disk (flushdisk s) x = (if \<exists>i \<in> set [0 ..< 16]. slot_holds s i (x div 1024) then view s x else disk s x)" for x
    by (simp_all only: Let_def flushdisk_def)
  show "cache (flushdisk s) = cache s" "nblocks (flushdisk s) = nblocks s" by (rule f)+
  show "disk (flushdisk s) = view s"
  proof
    fix x
    show "disk (flushdisk s) x = view s x"
    proof (cases "\<exists>i. slot_holds s i (x div 1024)")
      case True
      then have "\<exists>i \<in> set [0 ..< 16]. slot_holds s i (x div 1024)" by (auto simp: slot_holds_def Bex_def)
      then show ?thesis using f(3) [of x] by simp
    next
      case False
      then have "slot_of s (x div 1024) = None" by (simp add: slot_of_None)
      then show ?thesis using f(3) [of x] False by (auto simp: view_def)
    qed
  qed
qed

section \<open>The contract of a store of pinned blocks\<close>

text \<open>
  A store over states \<open>'s\<close> with pointers \<open>'p\<close>: \<open>get\<close> pins a block and gives a pointer to it, which
  refers to the block as long as it is pinned; \<open>put\<close> unpins. Contents are those of one flat memory.
\<close>

locale block_store =
  fixes good :: "'s \<Rightarrow> bool" and limit :: "'s \<Rightarrow> nat" and contents :: "'s \<Rightarrow> mem" and count :: "'s \<Rightarrow> nat \<Rightarrow> nat"
    and sort :: "'s \<Rightarrow> nat \<Rightarrow> 't" and refers :: "'s \<Rightarrow> 'p \<Rightarrow> nat \<Rightarrow> bool"
    and get :: "nat \<Rightarrow> bool \<Rightarrow> 't \<Rightarrow> ('s, 'p) build" and put :: "'p \<Rightarrow> ('s, unit) build"
    and load :: "'p \<Rightarrow> nat \<Rightarrow> 's \<Rightarrow> u32" and store :: "'p \<Rightarrow> nat \<Rightarrow> u32 \<Rightarrow> 's \<Rightarrow> 's"
  assumes get_law: "good s \<Longrightarrow> 0 < no \<Longrightarrow> no < limit s \<Longrightarrow> 0 < count s no \<or> card {c. 0 < count s c} < 16 \<Longrightarrow>
      sort s no = t \<or> count s no = 0 \<Longrightarrow>
      ends (get no clr t) s (\<lambda>p s'. good s' \<and> refers s' p no \<and> limit s' = limit s \<and>
        contents s' = (if clr then mem_set (contents s) (1024 * no) 0 1024 else contents s) \<and>
        count s' = (count s)(no := count s no + 1) \<and> sort s' no = t \<and>
        (\<forall>c. c \<noteq> no \<longrightarrow> 0 < count s c \<longrightarrow> sort s' c = sort s c) \<and>
        (\<forall>q c. refers s q c \<longrightarrow> 0 < count s c \<longrightarrow> refers s' q c))"
    and put_law: "good s \<Longrightarrow> refers s p no \<Longrightarrow>
      ends (put p) s (\<lambda>_ s'. good s' \<and> limit s' = limit s \<and> contents s' = contents s \<and>
        count s' = (count s)(no := count s no - 1) \<and> sort s' = sort s \<and> (\<forall>q c. refers s' q c = refers s q c))"
    and load_law: "good s \<Longrightarrow> refers s p no \<Longrightarrow> off + 4 \<le> 1024 \<Longrightarrow> load p off s = ld32 (contents s) (1024 * no + off)"
    and store_law: "good s \<Longrightarrow> refers s p no \<Longrightarrow> off + 4 \<le> 1024 \<Longrightarrow>
      good (store p off v s) \<and> limit (store p off v s) = limit s \<and>
      contents (store p off v s) = st32 (contents s) (1024 * no + off) v \<and> count (store p off v s) = count s \<and>
      sort (store p off v s) = sort s \<and> (\<forall>q c. refers (store p off v s) q c = refers s q c)"
begin

text \<open>One word of a block changed: nothing stays pinned, and the memory has the word.\<close>

lemma update_word:
  assumes "good s" "0 < no" "no < limit s" "0 < count s no \<or> card {c. 0 < count s c} < 16"
    and "sort s no = t \<or> count s no = 0" "off + 4 \<le> 1024"
  shows "ends (bind (get no False t) (\<lambda>p. bind (\<lambda>s. Inr ((), store p off v s)) (\<lambda>_. put p))) s
    (\<lambda>_ s'. good s' \<and> limit s' = limit s \<and> contents s' = st32 (contents s) (1024 * no + off) v \<and> count s' = count s \<and>
      (\<forall>c. 0 < count s c \<longrightarrow> sort s' c = sort s c) \<and> (\<forall>q c. refers s q c \<longrightarrow> 0 < count s c \<longrightarrow> refers s' q c))"
  unfolding ends_simps
proof (rule ends_mono [OF get_law [OF assms(1-5), of False]])
  fix p s1
  assume g: "good s1 \<and> refers s1 p no \<and> limit s1 = limit s \<and>
        contents s1 = (if False then mem_set (contents s) (1024 * no) 0 1024 else contents s) \<and>
        count s1 = (count s)(no := count s no + 1) \<and> sort s1 no = t \<and>
        (\<forall>c. c \<noteq> no \<longrightarrow> 0 < count s c \<longrightarrow> sort s1 c = sort s c) \<and>
        (\<forall>q c. refers s q c \<longrightarrow> 0 < count s c \<longrightarrow> refers s1 q c)"
  then have r: "good s1" "refers s1 p no" by simp_all
  note st = store_law [OF r assms(6), of v]
  then have "good (store p off v s1)" "refers (store p off v s1) p no" using r(2) by simp_all
  note put = put_law [OF this]
  have sort: "sort s1 c = sort s c" if "0 < count s c" for c using g assms(5) that by (cases "c = no") auto
  have "ends (put p) (store p off v s1)
    (\<lambda>_ s'. good s' \<and> limit s' = limit s \<and> contents s' = st32 (contents s) (1024 * no + off) v \<and> count s' = count s \<and>
      (\<forall>c. 0 < count s c \<longrightarrow> sort s' c = sort s c) \<and> (\<forall>q c. refers s q c \<longrightarrow> 0 < count s c \<longrightarrow> refers s' q c))"
    by (rule ends_mono [OF put]) (use g st sort in auto)
  then show "ends (\<lambda>s. Inr ((), store p off v s)) s1 (\<lambda>_ s1. ends (put p) s1
    (\<lambda>_ s'. good s' \<and> limit s' = limit s \<and> contents s' = st32 (contents s) (1024 * no + off) v \<and> count s' = count s \<and>
      (\<forall>c. 0 < count s c \<longrightarrow> sort s' c = sort s c) \<and> (\<forall>q c. refers s q c \<longrightarrow> 0 < count s c \<longrightarrow> refers s' q c)))"
    by (simp add: ends_def)
qed

end

interpretation block_cache: block_store cache_ok nblocks view pins kind slot_holds getblk putblk word_at put_word
proof
  fix s no clr t
  assume "cache_ok s" "0 < no" "no < nblocks s" "0 < pins s no \<or> card {c. 0 < pins s c} < 16" "kind s no = t \<or> pins s no = 0"
  from getblk_got [OF this(1-3) this(4) [folded pinned_def] this(5), of clr]
  show "ends (getblk no clr t) s (\<lambda>p s'. cache_ok s' \<and> slot_holds s' p no \<and> nblocks s' = nblocks s \<and>
        view s' = (if clr then mem_set (view s) (1024 * no) 0 1024 else view s) \<and>
        pins s' = (pins s)(no := pins s no + 1) \<and> kind s' no = t \<and>
        (\<forall>c. c \<noteq> no \<longrightarrow> 0 < pins s c \<longrightarrow> kind s' c = kind s c) \<and>
        (\<forall>q c. slot_holds s q c \<longrightarrow> 0 < pins s c \<longrightarrow> slot_holds s' q c))"
    unfolding got_def .
next
  fix s p no
  assume "cache_ok s" "slot_holds s p no"
  from putblk_ends [OF this] show "ends (putblk p) s (\<lambda>_ s'. cache_ok s' \<and> nblocks s' = nblocks s \<and> view s' = view s \<and>
        pins s' = (pins s)(no := pins s no - 1) \<and> kind s' = kind s \<and> (\<forall>q c. slot_holds s' q c = slot_holds s q c))"
    by (rule ends_mono) (simp add: same_slots_def)
next
  fix s p no off
  assume "cache_ok s" "slot_holds s p no" "off + 4 \<le> (1024 :: nat)"
  then show "word_at p off s = ld32 (view s) (1024 * no + off)" by (rule reads(1))
next
  fix s p no off v
  assume a: "cache_ok s" "slot_holds s p no" "off + 4 \<le> (1024 :: nat)"
  show "cache_ok (put_word p off v s) \<and> nblocks (put_word p off v s) = nblocks s \<and>
      view (put_word p off v s) = st32 (view s) (1024 * no + off) v \<and> pins (put_word p off v s) = pins s \<and>
      kind (put_word p off v s) = kind s \<and> (\<forall>q c. slot_holds (put_word p off v s) q c = slot_holds s q c)"
    using writes(1-3) [OF a(1,2)] a(3) by (simp add: same_slots_def)
qed

section \<open>The cache is transparent\<close>

lemma empty_store_ok:
  "cache_ok (empty_store nb)" "pins (empty_store nb) c = 0" "view (empty_store nb) x = 0" "nblocks (empty_store nb) = nb"
proof -
  have "\<not> slot_holds (empty_store nb) i c" for i c by (auto simp: slot_holds_def empty_store_def empty_block_def)
  then have "slot_of (empty_store nb) c = None" for c by (simp add: slot_of_None)
  then show "pins (empty_store nb) c = 0" "view (empty_store nb) x = 0" by (simp_all add: pins_def view_def empty_store_def)
  show "cache_ok (empty_store nb)" "nblocks (empty_store nb) = nb"
    by (simp_all add: cache_ok_def empty_store_def empty_block_def)
qed

text \<open>
  C22: the sixteen-block cache refines the flat disk. \<open>getblk\<close> of a block of the disk succeeds unless
  all slots are taken by other blocks in use, or the block is in use with another type; it changes
  nothing of the disk as the program sees it but the block it is to clear; it pins the block, with
  all pointers the program holds still good; and a \<open>flushdisk\<close> then leaves exactly that disk in the
  image file, whatever was written back in between.
\<close>

theorem block_cache_refines_disk:
  assumes "cache_ok s" "0 < no" "no < nblocks s" "0 < pins s no \<or> card (pinned s) < 16" "kind s no = type \<or> pins s no = 0"
  shows "ends (getblk no clr type) s (\<lambda>p s'. got s no clr type p s' \<and>
    disk (flushdisk s') = (if clr then mem_set (view s) (1024 * no) 0 1024 else view s) \<and> view (flushdisk s') = view s')"
proof (rule ends_mono [OF getblk_got [OF assms]])
  fix p s'
  assume g: "got s no clr type p s'"
  then have ok: "cache_ok s'" by (simp add: got_def)
  have "slot_of (flushdisk s') c = slot_of s' c" for c
    unfolding slot_of_def slot_holds_def flushdisk_view(2) [OF ok] ..
  then have "view (flushdisk s') x = view s' x" for x
    unfolding view_def flushdisk_view(1,2) [OF ok] by (simp add: view_def split: option.splits)
  then show "got s no clr type p s' \<and>
      disk (flushdisk s') = (if clr then mem_set (view s) (1024 * no) 0 1024 else view s) \<and> view (flushdisk s') = view s'"
    using g flushdisk_view(1) [OF ok] by (auto simp: got_def)
qed

theorem block_cache_refines_disk_witness:
  "\<exists>p s'. getblk 2 False BLOCK_BITS (empty_store 9) = Inr (p, s') \<and> disk (flushdisk s') 2048 = 0"
proof -
  have "card (pinned (empty_store 9)) < 16" by (simp add: pinned_def empty_store_ok)
  then show ?thesis
    using block_cache_refines_disk [of "empty_store 9" 2 BLOCK_BITS False] empty_store_ok by (auto simp: ends_iff)
qed

end
