(* ===== verification/FormatBuild.thy ===== *)
theory FormatBuild
  imports Md5Old FormatCache
begin

text \<open>
  The image builder of lab 3 (\<open>src/lab3/ospfsformat.c\<close>) over its block cache: the disk with its bitmap
  and inode blocks, inodes, directory entries, files, symbolic links, directories of the host, and
  the bitmap and superblock at the end. A pointer into a block is the slot of the block and an offset.
  What the host answers (opening, reading, the entries of a directory) is an argument.
\<close>

section \<open>State\<close>

record hardlink =
  osp_ino :: nat
  host_ino :: nat
  md5_digest :: "u8 list"

record fs =
  blocks :: store
  ninodes :: nat
  nbitblock :: nat
  nextb :: nat
  nextinode :: nat
  hardlinks :: "hardlink list"
  link_contents :: bool
  sb_magic :: u32
  sb_nblocks :: u32
  sb_ninodes :: u32
  sb_firstinob :: u32

definition lift :: "(store, 'a) build \<Rightarrow> (fs, 'a) build" where
  "lift m s = (case m (blocks s) of Inl e \<Rightarrow> Inl e | Inr (x, b) \<Rightarrow> Inr (x, s\<lparr>blocks := b\<rparr>))"

definition stop :: "abort \<Rightarrow> ('s, 'a) build" where
  "stop e s = Inl e"

definition get_state :: "('s \<Rightarrow> ('s, 'a) build) \<Rightarrow> ('s, 'a) build" where
  "get_state f s = f s s"

definition set_state :: "('s \<Rightarrow> 's) \<Rightarrow> ('s, unit) build" where
  "set_state f s = Inr ((), f s)"

definition skip :: "('s, unit) build" where
  "skip = done_with ()"

definition andthen :: "('s, 'a) build \<Rightarrow> ('s, 'b) build \<Rightarrow> ('s, 'b) build" where
  "andthen m m' = bind m (\<lambda>_. m')"

lemma ends_build [simp]:
  "ends (stop e) s Q \<longleftrightarrow> False"
  "ends (get_state f) s Q \<longleftrightarrow> ends (f s) s Q"
  "ends (set_state g) s R \<longleftrightarrow> R () (g s)"
  "ends skip s R \<longleftrightarrow> R () s"
  "ends (andthen m m') s Q \<longleftrightarrow> ends m s (\<lambda>_ s1. ends m' s1 Q)"
  by (auto simp: ends_def stop_def get_state_def set_state_def skip_def andthen_def bind_def done_with_def
      split: sum.splits)

lemma ends_lift [simp]: "ends (lift m) s Q \<longleftrightarrow> ends m (blocks s) (\<lambda>x b. Q x (s\<lparr>blocks := b\<rparr>))"
  by (auto simp: ends_def lift_def split: sum.splits)

text \<open>Assignments through a pointer to a block; a copy that leaves the block is an overrun.\<close>

definition poke :: "nat \<Rightarrow> nat \<Rightarrow> u32 \<Rightarrow> (fs, unit) build" where
  "poke p off v = set_state (\<lambda>s. s\<lparr>blocks := put_word p off v (blocks s)\<rparr>)"

definition fill :: "nat \<Rightarrow> nat \<Rightarrow> u8 list \<Rightarrow> (fs, unit) build" where
  "fill p off bs =
     (if off + length bs > OSPFS_BLKSIZE then stop Overrun
      else set_state (\<lambda>s. s\<lparr>blocks := put_bytes p off bs (blocks s)\<rparr>))"

definition peek :: "nat \<Rightarrow> nat \<Rightarrow> fs \<Rightarrow> u32" where
  "peek p off s = word_at p off (blocks s)"

fun count_loop :: "nat \<Rightarrow> nat \<Rightarrow> (nat \<Rightarrow> (fs, unit) build) \<Rightarrow> (fs, unit) build" where
  "count_loop 0 i body = skip"
| "count_loop (Suc k) i body = andthen (body i) (count_loop k (i + 1) body)"

section \<open>The empty disk\<close>

text \<open>The globals at the start of \<open>main\<close>, the image file truncated to zeros.\<close>

definition start_state :: "nat \<Rightarrow> nat \<Rightarrow> bool \<Rightarrow> fs" where
  "start_state nb ni lc =
     \<lparr>blocks = empty_store nb, ninodes = ni, nbitblock = 0,
      nextb = 0, nextinode = 0, hardlinks = [], link_contents = lc, sb_magic = 0, sb_nblocks = 0, sb_ninodes = 0,
      sb_firstinob = 0\<rparr>"

definition opendisk :: "bool \<Rightarrow> (fs, unit) build" where
  "opendisk open_ok =
     (if \<not> open_ok then stop Open_failed
      else get_state (\<lambda>s.
        let bits = (nblocks (blocks s) + OSPFS_BLKBITSIZE - 1) div OSPFS_BLKBITSIZE;
            ninodeblock = (ninodes s + 16 - 1) div 16
        in andthen (set_state (\<lambda>s. s\<lparr>nbitblock := bits\<rparr>))
          (andthen (count_loop bits 0 (\<lambda>i.
             bind (lift (getblk (2 + i) False BLOCK_BITS)) (\<lambda>b.
             andthen (fill b 0 (replicate 1024 0xFF)) (lift (putblk b)))))
          (andthen (count_loop ninodeblock 0 (\<lambda>i.
             bind (lift (getblk (2 + bits + i) True BLOCK_INODES)) (\<lambda>b. lift (putblk b))))
          (set_state (\<lambda>s. s\<lparr>nextb := 2 + bits + ninodeblock, nextinode := 0, sb_magic := OSPFS_MAGIC,
             sb_nblocks := of_nat (nblocks (blocks s)), sb_ninodes := of_nat (ninodes s),
             sb_firstinob := of_nat (2 + bits)\<rparr>))))))"

section \<open>Blocks of a file\<close>

text \<open>\<open>getblk(nextb++, 1, type)\<close>.\<close>

definition next_block :: "block_type \<Rightarrow> (fs, nat) build" where
  "next_block type =
     get_state (\<lambda>s. andthen (set_state (\<lambda>s. s\<lparr>nextb := nextb s + 1\<rparr>)) (lift (getblk (nextb s) True type)))"

text \<open>The block of pointers that a word names, taken and linked when the word is zero.\<close>

definition pointer_block_at :: "nat \<Rightarrow> nat \<Rightarrow> (fs, nat) build" where
  "pointer_block_at p off =
     get_state (\<lambda>s.
       if peek p off s = 0 then
         bind (next_block BLOCK_BITS) (\<lambda>bindir.
         get_state (\<lambda>s. andthen (poke p off (of_nat (block_no bindir (blocks s)))) (done_with bindir)))
       else lift (getblk (unat (peek p off s)) False BLOCK_BITS))"

definition storeblk :: "nat \<times> nat \<Rightarrow> nat \<Rightarrow> nat \<Rightarrow> (fs, unit) build" where
  "storeblk ino b nblk =
     get_state (\<lambda>s.
       let (ib, io) = ino; bno = of_nat (block_no b (blocks s)) in
       if nblk < OSPFS_NDIRECT then poke ib (io + 16 + 4 * nblk) bno
       else if nblk < OSPFS_NDIRECT + OSPFS_NINDIRECT then
         bind (pointer_block_at ib (io + 56)) (\<lambda>bindir.
         andthen (poke bindir (4 * (nblk - OSPFS_NDIRECT)) bno) (lift (putblk bindir)))
       else if nblk < OSPFS_MAXFILEBLKS then
         (let nblk = nblk - (OSPFS_NDIRECT + OSPFS_NINDIRECT) in
          bind (pointer_block_at ib (io + 60)) (\<lambda>bindir2.
          bind (pointer_block_at bindir2 (4 * (nblk div OSPFS_NINDIRECT))) (\<lambda>bindir.
          andthen (poke bindir (4 * (nblk mod OSPFS_NINDIRECT)) bno)
          (andthen (lift (putblk bindir)) (lift (putblk bindir2))))))
       else stop Too_large)"

section \<open>Inodes and directory entries\<close>

text \<open>\<open>allocinode\<close> stores the number through its first argument before it gets the inode's block.\<close>

definition allocinode :: "(nat \<times> nat) option \<Rightarrow> (fs, nat \<times> nat \<times> nat) build" where
  "allocinode dest =
     get_state (\<lambda>s.
       if nextinode s = ninodes s then stop No_inodes
       else
         let ino = nextinode s in
         andthen (set_state (\<lambda>s. s\<lparr>nextinode := nextinode s + 1\<rparr>))
           (andthen (case dest of None \<Rightarrow> skip | Some (p, off) \<Rightarrow> poke p off (of_nat ino))
           (bind (lift (getblk (unat (sb_firstinob s) + ino div 16) False BLOCK_INODES)) (\<lambda>ib.
            done_with (ino, ib, OSPFS_INODESIZE * (ino mod 16))))))"

text \<open>The last block of a directory, through its pointer blocks.\<close>

definition last_dir_block :: "nat \<times> nat \<Rightarrow> nat \<Rightarrow> (fs, nat) build" where
  "last_dir_block dirino nblk =
     get_state (\<lambda>s.
       let (ib, io) = dirino in
       if nblk \<ge> OSPFS_NDIRECT + OSPFS_NINDIRECT then
         (let nblk_off = nblk - OSPFS_NDIRECT - OSPFS_NINDIRECT in
          bind (lift (getblk (unat (peek ib (io + 60) s)) False BLOCK_BITS)) (\<lambda>bindir2.
          get_state (\<lambda>s.
          bind (lift (getblk (unat (peek bindir2 (4 * (nblk_off div OSPFS_NINDIRECT)) s)) False BLOCK_BITS)) (\<lambda>bindir.
          get_state (\<lambda>s.
          bind (lift (getblk (unat (peek bindir (4 * (nblk_off mod OSPFS_NINDIRECT)) s)) False BLOCK_DIR)) (\<lambda>dirb.
          andthen (lift (putblk bindir)) (andthen (lift (putblk bindir2)) (done_with dirb))))))))
       else if nblk \<ge> OSPFS_NDIRECT then
         bind (lift (getblk (unat (peek ib (io + 56) s)) False BLOCK_BITS)) (\<lambda>bindir.
         get_state (\<lambda>s.
         bind (lift (getblk (unat (peek bindir (4 * (nblk - OSPFS_NDIRECT)) s)) False BLOCK_DIR)) (\<lambda>dirb.
         andthen (lift (putblk bindir)) (done_with dirb))))
       else lift (getblk (unat (peek ib (io + 16 + 4 * nblk) s)) False BLOCK_DIR))"

definition free_entry :: "nat \<Rightarrow> fs \<Rightarrow> nat option" where
  "free_entry dirb s = List.find (\<lambda>i. peek dirb (OSPFS_DIRENTRY_SIZE * i) s = 0) [0 ..< 8]"

text \<open>The part behind the label \<open>new_dirb\<close>; \<open>nblk\<close> is the number of the block that is added.\<close>

definition new_dir_block :: "nat \<times> nat \<Rightarrow> nat \<Rightarrow> (fs, nat) build" where
  "new_dir_block dirino nblk =
     bind (next_block BLOCK_DIR) (\<lambda>dirb.
     andthen (count_loop 8 0 (\<lambda>i. poke dirb (OSPFS_DIRENTRY_SIZE * i) 0))
     (andthen (storeblk dirino dirb nblk)
     (get_state (\<lambda>s.
       let (ib, io) = dirino; size = peek ib io s + of_nat OSPFS_BLKSIZE in
       andthen (poke ib io size)
       (if of_nat ((nblk + 1) * OSPFS_BLKSIZE) = size then done_with dirb else stop Assertion)))))"

definition allocdirentry :: "nat \<times> nat \<Rightarrow> u8 list \<Rightarrow> (fs, (nat \<times> nat) option) build" where
  "allocdirentry dirino name =
     (if length name > OSPFS_MAXNAMELEN then done_with None
      else
        bind (get_state (\<lambda>s.
          let (ib, io) = dirino; n = unat ((peek ib io s + of_nat OSPFS_BLKSIZE - 1) div of_nat OSPFS_BLKSIZE) in
          if n = 0 then bind (new_dir_block dirino 0) (\<lambda>dirb. done_with (dirb, 0))
          else
            bind (last_dir_block dirino (n - 1)) (\<lambda>dirb.
            get_state (\<lambda>s.
            case free_entry dirb s of
              Some i \<Rightarrow> done_with (dirb, OSPFS_DIRENTRY_SIZE * i)
            | None \<Rightarrow>
                andthen (lift (putblk dirb)) (bind (new_dir_block dirino n) (\<lambda>dirb. done_with (dirb, 0)))))))
        (\<lambda>(dirb, od). andthen (fill dirb (od + 4) (name @ [0])) (done_with (Some (dirb, od)))))"

section \<open>Hard links\<close>

text \<open>\<open>host_ino\<close> is an unsigned long in the arguments and 32 bits wide in the record.\<close>

definition get_hardlink :: "nat \<Rightarrow> u8 list option \<Rightarrow> fs \<Rightarrow> nat" where
  "get_hardlink ino digest s =
     (case List.find (\<lambda>cur. ino \<noteq> 0 \<and> host_ino cur = ino \<or> link_contents s \<and> digest = Some (md5_digest cur)) (hardlinks s) of
        None \<Rightarrow> 0
      | Some cur \<Rightarrow> osp_ino cur)"

definition add_hardlink :: "nat \<Rightarrow> nat \<Rightarrow> u8 list option \<Rightarrow> fs \<Rightarrow> fs" where
  "add_hardlink ino osp digest s =
     s\<lparr>hardlinks := \<lparr>osp_ino = osp, host_ino = ino mod 2 ^ 32,
        md5_digest = (case digest of Some d \<Rightarrow> if link_contents s then d else replicate 16 0 | None \<Rightarrow> replicate 16 0)\<rparr>
        # hardlinks s\<rparr>"

section \<open>Reading the host's files\<close>

text \<open>What the calls of \<open>read\<close> on a file will give: bytes, in pieces, or a failure; the end of the list is the end of the file.\<close>

datatype answer = Piece "u8 list" | Failed

fun host_read :: "nat \<Rightarrow> answer list \<Rightarrow> u8 list option \<times> answer list" where
  "host_read n [] = (Some [], [])"
| "host_read n (Failed # r) = (None, r)"
| "host_read n (Piece bs # r) = (Some (take n bs), if length bs > n then Piece (drop n bs) # r else r)"

fun answer_size :: "answer \<Rightarrow> nat" where
  "answer_size Failed = 1"
| "answer_size (Piece bs) = 1 + length bs"

definition answers_size :: "answer list \<Rightarrow> nat" where
  "answers_size as = sum_list (List.map answer_size as)"

lemma host_read_size:
  assumes read: "host_read n as = (r, as')" and n: "0 < n"
  shows "answers_size as' \<le> answers_size as" "r \<noteq> Some [] \<Longrightarrow> answers_size as' < answers_size as"
proof -
  have "answers_size as' \<le> answers_size as \<and> (r \<noteq> Some [] \<longrightarrow> answers_size as' < answers_size as)"
  proof (cases as)
    case Nil
    then show ?thesis using read by simp
  next
    case (Cons a rest)
    show ?thesis
    proof (cases a)
      case (Piece bs)
      then have "r = Some (take n bs)" "as' = (if length bs > n then Piece (drop n bs) # rest else rest)"
        using read Cons by simp_all
      then show ?thesis using Cons Piece n by (simp add: answers_size_def)
    next
      case Failed
      then show ?thesis using read Cons by (simp add: answers_size_def)
    qed
  qed
  then show "answers_size as' \<le> answers_size as" "r \<noteq> Some [] \<Longrightarrow> answers_size as' < answers_size as" by simp_all
qed

text \<open>
  \<open>readn\<close> into a block: the result, the writes into the block, and what is left to read. \<open>read\<close>
  returns its error in a \<open>size_t\<close>: a failure moves the position back by one, and only a failure at
  the start is one of \<open>readn\<close>.
\<close>

function readn :: "nat \<Rightarrow> answer list \<Rightarrow> int \<times> (nat \<times> u8 list) list \<times> answer list" where
  "readn t as =
     (if t < OSPFS_BLKSIZE then
        case host_read (OSPFS_BLKSIZE - t) as of
          (None, as') \<Rightarrow> if t = 0 then (-1, [], as') else readn (t - 1) as'
        | (Some bs, as') \<Rightarrow>
            if bs = [] then (int t, [], as')
            else (case readn (t + length bs) as' of (n, ws, as'') \<Rightarrow> (n, (t, bs) # ws, as''))
      else (int t, [], as))"
  by pat_completeness auto
termination
proof (relation "measure (\<lambda>(t, as). answers_size as)", goal_cases)
  case (2 t as x as')
  then show ?case using host_read_size(2) [of "1024 - t" as None as'] by auto
next
  case (3 t as x as' bs)
  then show ?case using host_read_size(2) [of "1024 - t" as "Some bs" as'] by auto
qed simp

declare readn.simps [simp del]

lemma readn_less: "readn t as = (n, ws, as') \<Longrightarrow> answers_size as' \<le> answers_size as \<and> (int t < n \<longrightarrow> answers_size as' < answers_size as)"
proof (induction t as arbitrary: n ws as' rule: readn.induct)
  case (1 t as)
  show ?case
  proof (cases "t < 1024")
    case True
    obtain r rest where h: "host_read (1024 - t) as = (r, rest)" by fastforce
    have size: "answers_size rest \<le> answers_size as" "r \<noteq> Some [] \<Longrightarrow> answers_size rest < answers_size as"
      using host_read_size [OF h] True by simp_all
    show ?thesis
    proof (cases r)
      case None
      then show ?thesis using 1(1) [OF True h [symmetric] None] 1(3) True h size
        by (fastforce simp: readn.simps [of t as] split: if_splits)
    next
      case (Some bs)
      show ?thesis
      proof (cases "bs = []")
        case True
        then show ?thesis using Some 1(3) \<open>t < 1024\<close> h size by (simp add: readn.simps [of t as])
      next
        case False
        obtain n1 ws1 rest1 where r: "readn (t + length bs) rest = (n1, ws1, rest1)" by (metis prod_cases3)
        then have "answers_size rest1 \<le> answers_size rest"
          using 1(2) [OF True h [symmetric] Some False r] by simp
        moreover have "as' = rest1" using Some False 1(3) True h r by (simp add: readn.simps [of t as])
        ultimately show ?thesis using size(2) Some False by simp
      qed
    qed
  next
    case False
    then show ?thesis using 1(3) by (simp add: readn.simps [of t as])
  qed
qed

text \<open>The digest of a file's contents, read in pieces of \<open>BUFSIZ\<close> bytes; \<open>None\<close> when \<open>read\<close> fails.\<close>

function digest_loop :: "md5_context \<Rightarrow> answer list \<Rightarrow> md5_context option" where
  "digest_loop md5 as =
     (case host_read 8192 as of
        (None, as') \<Rightarrow> None
      | (Some buf, as') \<Rightarrow> if buf = [] then Some md5 else digest_loop (old_update md5 (Some buf)) as')"
  by pat_completeness auto
termination
proof (relation "measure (\<lambda>(md5, as). answers_size as)", goal_cases)
  case (2 md5 as x as' buf)
  then show ?case using host_read_size(2) [of 8192 as "Some buf" as'] by auto
qed simp

declare digest_loop.simps [simp del]

record host_file =
  file_opens :: bool
  digest_reads :: "answer list"
  seek_works :: bool
  data_reads :: "answer list"

text \<open>\<open>None\<close>: \<open>writefile\<close> returns early. The contents of the uninitialised buffer of the context are an argument of \<open>old_init\<close>.\<close>

definition file_digest :: "u8 list \<Rightarrow> host_file \<Rightarrow> u8 list option" where
  "file_digest garbage f =
     (case digest_loop (old_init garbage) (digest_reads f) of
        None \<Rightarrow> None
      | Some md5 \<Rightarrow> if seek_works f then Some (old_final md5) else None)"

section \<open>Files\<close>

fun fill_all :: "nat \<Rightarrow> (nat \<times> u8 list) list \<Rightarrow> (fs, unit) build" where
  "fill_all b [] = skip"
| "fill_all b ((off, bs) # ws) = andthen (fill b off bs) (fill_all b ws)"

text \<open>The loop over the blocks of a file: the number of whole blocks before the last read, and its length.\<close>

function file_loop :: "nat \<times> nat \<Rightarrow> nat \<Rightarrow> answer list \<Rightarrow> (fs, nat \<times> nat) build" where
  "file_loop ino nblk as =
     (case readn 0 as of (n, ws, as') \<Rightarrow>
        get_state (\<lambda>s.
        bind (lift (getblk (nextb s) True BLOCK_FILE)) (\<lambda>b.
        andthen (fill_all b ws)
          (if n < 0 then stop Read_failed
           else if n = 0 then andthen (lift (putblk b)) (done_with (nblk, 0))
           else
             andthen (set_state (\<lambda>s. s\<lparr>nextb := nextb s + 1\<rparr>))
               (andthen (storeblk ino b nblk)
               (andthen (lift (putblk b))
                 (if n < int OSPFS_BLKSIZE then done_with (nblk, nat n) else file_loop ino (nblk + 1) as')))))))"
  by pat_completeness auto
termination
  by (relation "measure (\<lambda>(ino, nblk, as). answers_size as)") (auto dest!: readn_less [OF sym])

declare file_loop.simps [simp del]

definition last_component :: "u8 list \<Rightarrow> u8 list" where
  "last_component name = rev (takeWhile (\<lambda>c. c \<noteq> 47) (rev name))"

definition put_both :: "nat \<Rightarrow> nat \<Rightarrow> (fs, unit) build" where
  "put_both dirb inob = andthen (lift (putblk dirb)) (lift (putblk inob))"

text \<open>Another name for an inode that exists.\<close>

definition link_inode :: "nat \<times> nat \<Rightarrow> nat \<Rightarrow> (fs, unit) build" where
  "link_inode de hardlink_ino =
     (let (dirb, od) = de; io = OSPFS_INODESIZE * (hardlink_ino mod 16) in
      andthen (poke dirb od (of_nat hardlink_ino))
        (get_state (\<lambda>s.
         bind (lift (getblk (unat (sb_firstinob s) + hardlink_ino div 16) False BLOCK_INODES)) (\<lambda>inob.
         get_state (\<lambda>s. andthen (poke inob (io + 8) (peek inob (io + 8) s + 1)) (put_both dirb inob))))))"

text \<open>A new inode, and the blocks of its file.\<close>

definition new_file :: "nat \<times> nat \<Rightarrow> nat \<Rightarrow> u8 list option \<Rightarrow> u32 \<Rightarrow> host_file \<Rightarrow> (fs, unit) build" where
  "new_file de ino digest mode f =
     bind (allocinode (Some de)) (\<lambda>(osp, inob, io).
     andthen (poke inob (io + 8) 1)
     (andthen (get_state (\<lambda>s. if ino \<noteq> 0 \<or> link_contents s then set_state (add_hardlink ino osp digest) else skip))
     (andthen (poke inob (io + 4) OSPFS_FTYPE_REG)
     (andthen (poke inob (io + 12) mode)
     (bind (file_loop (inob, io) 0 (data_reads f)) (\<lambda>(nblk, n).
      andthen (poke inob io (of_nat (nblk * OSPFS_BLKSIZE + n))) (put_both (fst de) inob)))))))"

text \<open>The entry of a name that is too long is a null pointer, which the next access goes through.\<close>

definition writefile :: "u8 list \<Rightarrow> nat \<times> nat \<Rightarrow> u8 list \<Rightarrow> nat \<Rightarrow> u32 \<Rightarrow> host_file \<Rightarrow> (fs, unit) build" where
  "writefile garbage dirino name ino mode f =
     (if \<not> file_opens f then stop Open_failed
      else
        bind (allocdirentry dirino (last_component name)) (\<lambda>de.
        get_state (\<lambda>s.
        let digest = (if link_contents s then file_digest garbage f else None) in
        if link_contents s \<and> digest = None then skip
        else
          let hardlink_ino = (if ino \<noteq> 0 \<or> link_contents s then get_hardlink ino digest s else 0) in
          case de of
            None \<Rightarrow> stop (if hardlink_ino = 0 \<and> nextinode s = ninodes s then No_inodes else Null_pointer)
          | Some de \<Rightarrow> if hardlink_ino = 0 then new_file de ino digest mode f else link_inode de hardlink_ino)))"

section \<open>Symbolic links\<close>

definition new_symlink :: "nat \<times> nat \<Rightarrow> u8 list \<Rightarrow> nat \<Rightarrow> (fs, unit) build" where
  "new_symlink de linkbuf ino =
     bind (allocinode (Some de)) (\<lambda>(osp, inob, io).
     andthen (poke inob (io + 8) 1)
     (andthen (if ino \<noteq> 0 then set_state (add_hardlink ino osp None) else skip)
     (andthen (poke inob (io + 4) OSPFS_FTYPE_SYMLINK)
     (andthen (fill inob (io + 12) (linkbuf @ [0]))
     (andthen (poke inob io (of_nat (length linkbuf))) (put_both (fst de) inob))))))"

definition addsymlink :: "nat \<times> nat \<Rightarrow> u8 list \<Rightarrow> u8 list \<Rightarrow> nat \<Rightarrow> (fs, unit) build" where
  "addsymlink dirino name linkbuf ino =
     bind (allocdirentry dirino (last_component name)) (\<lambda>de.
     get_state (\<lambda>s.
     let hardlink_ino = (if ino \<noteq> 0 then get_hardlink ino None s else 0) in
     case de of
       None \<Rightarrow> stop (if hardlink_ino = 0 \<and> nextinode s = ninodes s then No_inodes else Null_pointer)
     | Some de \<Rightarrow> if hardlink_ino = 0 then new_symlink de linkbuf ino else link_inode de hardlink_ino))"

text \<open>\<open>readlink\<close> gives at most 52 characters here; \<open>None\<close> is a failure.\<close>

definition writesymlink :: "nat \<times> nat \<Rightarrow> u8 list \<Rightarrow> u8 list option \<Rightarrow> nat \<Rightarrow> (fs, unit) build" where
  "writesymlink dirino name readlink ino =
     (case readlink of
        None \<Rightarrow> stop Readlink_failed
      | Some target \<Rightarrow>
          if length (take (OSPFS_MAXSYMLINKLEN + 1) target) > OSPFS_MAXSYMLINKLEN then skip
          else addsymlink dirino name target ino)"

section \<open>Directories of the host\<close>

text \<open>What \<open>readdir\<close> and \<open>lstat\<close> give; \<open>Other\<close> is a special file, or one that \<open>lstat\<close> fails on.\<close>

datatype host_entry =
    Regular "u8 list" nat nat u32 host_file
  | Directory "u8 list" u32 bool "host_entry list"
  | Symlink "u8 list" nat nat "u8 list option"
  | Other "u8 list"

text \<open>The test of the name of a directory, with its characters up to the nul.\<close>

definition wanted_dir :: "u8 list \<Rightarrow> bool" where
  "wanted_dir name =
     (let d = name @ [0]; namlen = length name in
      (namlen > 1 \<or> d ! 0 \<noteq> 46) \<and>
      (namlen > 2 \<or> d ! 0 \<noteq> 46 \<or> d ! 1 \<noteq> 46) \<and>
      (namlen > 3 \<or> d ! 0 \<noteq> 67 \<or> d ! 1 \<noteq> 86 \<or> d ! 2 \<noteq> 83) \<and>
      (namlen > 4 \<or> d ! 0 \<noteq> 46 \<or> d ! 1 \<noteq> 115 \<or> d ! 2 \<noteq> 118 \<or> d ! 3 \<noteq> 110) \<and>
      (namlen > 4 \<or> d ! 0 \<noteq> 46 \<or> d ! 1 \<noteq> 103 \<or> d ! 2 \<noteq> 105 \<or> d ! 3 \<noteq> 116))"

definition path_prefix :: "u8 list \<Rightarrow> u8 list" where
  "path_prefix name = (if last name \<noteq> 47 then name @ [47] else name)"

text \<open>The inode of a directory of the host that is not the root, before its entries are read.\<close>

definition new_directory :: "nat \<times> nat \<Rightarrow> u8 list \<Rightarrow> u32 \<Rightarrow> (fs, nat \<times> nat \<times> nat) build" where
  "new_directory parentdirino name mode =
     bind (allocdirentry parentdirino (last_component name)) (\<lambda>de.
     get_state (\<lambda>s.
     case de of
       None \<Rightarrow> stop (if nextinode s = ninodes s then No_inodes else Null_pointer)
     | Some de \<Rightarrow>
         bind (allocinode (Some de)) (\<lambda>(osp, inob, io).
         get_state (\<lambda>s.
         let (pb, po) = parentdirino in
         andthen (poke pb (po + 8) (peek pb (po + 8) s + 1))
         (andthen (poke inob (io + 4) OSPFS_FTYPE_DIR)
         (andthen (poke inob io 0)
         (andthen (poke inob (io + 8) 1)
         (andthen (poke inob (io + 12) mode) (done_with (fst de, inob, io))))))))))"

function write_entries :: "u8 list \<Rightarrow> nat \<times> nat \<Rightarrow> u8 list \<Rightarrow> host_entry list \<Rightarrow> (fs, unit) build" where
  "write_entries garbage dirino path [] = skip"
| "write_entries garbage dirino path (e # es) =
     andthen
       (case e of
          Regular name nlink ino mode f \<Rightarrow>
            writefile garbage dirino (path @ name) (if nlink > 1 then ino else 0) (mode AND 0x1FF) f
        | Directory name mode opens sub \<Rightarrow>
            if \<not> wanted_dir name then skip
            else if \<not> opens then stop Open_failed
            else
              bind (new_directory dirino (path @ name) (mode AND 0x1FF)) (\<lambda>(dirb, inob, io).
              andthen (write_entries garbage (inob, io) (path_prefix (path @ name)) sub) (put_both dirb inob))
        | Symlink name nlink ino target \<Rightarrow> writesymlink dirino (path @ name) target (if nlink > 1 then ino else 0)
        | Other name \<Rightarrow> skip)
       (write_entries garbage dirino path es)"
  by pat_completeness auto
termination
  by (relation "measure (\<lambda>(garbage, dirino, path, es). size_list size es)") auto

text \<open>\<open>writedirectory\<close> for the root: its inode exists already.\<close>

definition write_root :: "u8 list \<Rightarrow> nat \<times> nat \<Rightarrow> u8 list \<Rightarrow> bool \<Rightarrow> host_entry list \<Rightarrow> (fs, unit) build" where
  "write_root garbage rootino name opens es =
     (if \<not> opens then stop Open_failed else write_entries garbage rootino (path_prefix name) es)"

section \<open>The end of the disk image\<close>

definition clear_bit :: "nat \<Rightarrow> nat \<Rightarrow> (fs, unit) build" where
  "clear_bit b i =
     get_state (\<lambda>s. poke b (4 * (i div 32)) (peek b (4 * (i div 32)) s AND NOT (push_bit (i mod 32) 1)))"

definition finishfs :: "(fs, unit) build" where
  "finishfs =
     get_state (\<lambda>s.
       andthen (count_loop (nextb s) 0 (\<lambda>i.
         bind (lift (getblk (2 + i div OSPFS_BLKBITSIZE) False BLOCK_BITS)) (\<lambda>b.
         andthen (clear_bit b (i mod OSPFS_BLKBITSIZE)) (lift (putblk b)))))
       (andthen
         (if nblocks (blocks s) \<noteq> nbitblock s * OSPFS_BLKBITSIZE then
            bind (lift (getblk (2 + nbitblock s - 1) False BLOCK_BITS)) (\<lambda>b.
            let first = nblocks (blocks s) mod OSPFS_BLKBITSIZE in
            andthen (count_loop (OSPFS_BLKBITSIZE - first) first (clear_bit b)) (lift (putblk b)))
          else skip)
       (bind (lift (getblk 1 True BLOCK_SUPER)) (\<lambda>b.
        andthen (poke b 0 (sb_magic s))
        (andthen (poke b 4 (sb_nblocks s))
        (andthen (poke b 8 (sb_ninodes s))
        (andthen (poke b 12 (sb_firstinob s)) (lift (putblk b)))))))))"

section \<open>The program\<close>

datatype request = From_directory "u8 list" bool "host_entry list" | From_files "(u8 list \<times> host_file) list"

fun write_files :: "u8 list \<Rightarrow> nat \<times> nat \<Rightarrow> (u8 list \<times> host_file) list \<Rightarrow> (fs, unit) build" where
  "write_files garbage rootino [] = skip"
| "write_files garbage rootino ((name, f) # fs) =
     andthen (writefile garbage rootino name 0 0x1B6 f) (write_files garbage rootino fs)"

text \<open>A link record: its source, the text of the link, and its destination, the name.\<close>

fun add_links :: "nat \<times> nat \<Rightarrow> (u8 list \<times> u8 list) list \<Rightarrow> (fs, unit) build" where
  "add_links rootino [] = skip"
| "add_links rootino ((source, destination) # ls) =
     andthen (addsymlink rootino destination source 0) (add_links rootino ls)"

text \<open>Inode 0, which is never used, and the root's inode.\<close>

definition root_inode :: "(fs, nat \<times> nat) build" where
  "root_inode =
     andthen (count_loop 1 0 (\<lambda>_.
       bind (allocinode None) (\<lambda>(osp, rootinob, io). andthen (poke rootinob (io + 8) 1) (lift (putblk rootinob)))))
     (bind (allocinode None) (\<lambda>(osp, rootinob, io).
      if osp \<noteq> 1 then stop Assertion
      else
        andthen (poke rootinob (io + 4) OSPFS_FTYPE_DIR)
        (andthen (poke rootinob (io + 8) 1) (andthen (poke rootinob (io + 12) 0x1FF) (done_with (rootinob, io))))))"

definition build_image :: "u8 list \<Rightarrow> bool \<Rightarrow> (u8 list \<times> u8 list) list \<Rightarrow> request \<Rightarrow> (fs, mem) build" where
  "build_image garbage open_ok links req =
     andthen (opendisk open_ok)
     (bind root_inode (\<lambda>rootino.
      andthen
        (case req of
           From_directory name opens es \<Rightarrow> write_root garbage rootino name opens es
         | From_files fs \<Rightarrow> write_files garbage rootino fs)
      (andthen (add_links rootino links)
      (andthen (lift (putblk (fst rootino)))
      (andthen finishfs (get_state (\<lambda>s. done_with (disk (flushdisk (blocks s))))))))))"

end
