(* ===== verification/FormatSeal.thy ===== *)
theory FormatSeal
  imports OspfsData FormatBuild
begin

text \<open>
  The image that \<open>finishfs\<close> and \<open>flushdisk\<close> of the image builder would write from a state of the
  build: its contents with the bitmap and the superblock put in. While files are added, this image
  is a good OSPFS disk whose free blocks are those from \<open>nextb\<close> on, and taking the next block is
  taking a free block of it.
\<close>

section \<open>The sealed image\<close>

definition put_super :: "nat \<Rightarrow> nat \<Rightarrow> mem \<Rightarrow> mem" where
  "put_super nb ni v =
     st32 (st32 (st32 (st32 (mem_set v 1024 0 1024) 1024 OSPFS_MAGIC) 1028 (of_nat nb)) 1032 (of_nat ni)) 1036 3"

definition seal_mem :: "nat \<Rightarrow> nat \<Rightarrow> nat \<Rightarrow> mem \<Rightarrow> mem" where
  "seal_mem nb ni nx v =
     (let v1 = fold (bitvector_clear FREEMAP) [0 ..< nx] v;
          v2 = (if nb \<noteq> 8192 then fold (bitvector_clear FREEMAP) [nb ..< 8192] v1 else v1)
      in put_super nb ni v2)"

lemma put_super_bytes: "x < 1024 \<or> 2048 \<le> x \<Longrightarrow> put_super nb ni v x = v x"
  by (auto simp: put_super_def st32_other_byte mem_set_def)

lemma put_super_fixed: "1024 \<le> x \<Longrightarrow> x < 2048 \<Longrightarrow> put_super nb ni v x = put_super nb ni v' x"
  by (simp add: put_super_def st32_def mem_set_def)

lemma put_super_words:
  "ld32 (put_super nb ni v) 1028 = of_nat nb" "ld32 (put_super nb ni v) 1032 = of_nat ni" "ld32 (put_super nb ni v) 1036 = 3"
  by (simp_all add: put_super_def ld32_st32_apart ld32_st32_same)

definition same_bitmap :: "mem \<Rightarrow> mem \<Rightarrow> bool" where
  "same_bitmap v v' \<longleftrightarrow> (\<forall>x. 2048 \<le> x \<longrightarrow> x < 3072 \<longrightarrow> v' x = v x)"

lemma bitmap_word:
  assumes "i < 8192"
  shows "2048 \<le> FREEMAP + 4 * (i div 32) \<and> FREEMAP + 4 * (i div 32) + 4 \<le> 3072"
proof -
  have "i div 32 < 256" using assms by (simp add: less_mult_imp_div_less)
  then show ?thesis by simp
qed

lemma clear_bytes:
  assumes i: "i < 8192"
  shows "x < 2048 \<or> 3072 \<le> x \<Longrightarrow> bitvector_clear FREEMAP i v x = v x"
    "same_bitmap v v' \<Longrightarrow> same_bitmap (bitvector_clear FREEMAP i v) (bitvector_clear FREEMAP i v')"
proof -
  note w = bitmap_word [OF i]
  show "x < 2048 \<or> 3072 \<le> x \<Longrightarrow> bitvector_clear FREEMAP i v x = v x"
    using w by (intro bitvector_other_byte(2)) linarith
  assume same: "same_bitmap v v'"
  have "ld32 v' (FREEMAP + 4 * (i div 32)) = ld32 v (FREEMAP + 4 * (i div 32))"
    using same w by (intro ld32_cong) (simp_all add: same_bitmap_def)
  then show "same_bitmap (bitvector_clear FREEMAP i v) (bitvector_clear FREEMAP i v')"
    using same by (auto simp: same_bitmap_def bitvector_clear_def Let_def st32_def)
qed

lemma clears_bytes:
  assumes "set is \<subseteq> {..< 8192}"
  shows "x < 2048 \<or> 3072 \<le> x \<Longrightarrow> fold (bitvector_clear FREEMAP) is v x = v x"
    "same_bitmap v v' \<Longrightarrow> same_bitmap (fold (bitvector_clear FREEMAP) is v) (fold (bitvector_clear FREEMAP) is v')"
    "bitvector_test (fold (bitvector_clear FREEMAP) is v) FREEMAP j \<longleftrightarrow> j \<notin> set is \<and> bitvector_test v FREEMAP j"
  using assms
  by (induction "is" arbitrary: v v') (auto simp: clear_bytes bitvector_test_clear)

lemma seal_bytes:
  assumes "nx \<le> 8192" "nb \<le> 8192"
  shows "x < 1024 \<or> 3072 \<le> x \<Longrightarrow> seal_mem nb ni nx v x = v x"
    "same_bitmap v v' \<Longrightarrow> 1024 \<le> x \<Longrightarrow> x < 3072 \<Longrightarrow> seal_mem nb ni nx v' x = seal_mem nb ni nx v x"
proof -
  have sub: "set [0 ..< nx] \<subseteq> {..< 8192}" "set [nb ..< 8192] \<subseteq> {..< 8192}" using assms by auto
  show "x < 1024 \<or> 3072 \<le> x \<Longrightarrow> seal_mem nb ni nx v x = v x"
    by (auto simp: seal_mem_def Let_def put_super_bytes clears_bytes(1) [OF sub(1)] clears_bytes(1) [OF sub(2)])
  assume same: "same_bitmap v v'" and x: "1024 \<le> x" "x < 3072"
  show "seal_mem nb ni nx v' x = seal_mem nb ni nx v x"
  proof (cases "x < 2048")
    case True
    then show ?thesis unfolding seal_mem_def Let_def using x by (intro put_super_fixed) simp_all
  next
    case False
    then have at: "same_bitmap w w' \<Longrightarrow> w' x = w x" for w w' using x by (simp add: same_bitmap_def)
    have eq: "seal_mem nb ni nx u x = (if nb \<noteq> 8192
        then fold (bitvector_clear FREEMAP) [nb ..< 8192] (fold (bitvector_clear FREEMAP) [0 ..< nx] u)
        else fold (bitvector_clear FREEMAP) [0 ..< nx] u) x" for u
      using False unfolding seal_mem_def Let_def by (intro put_super_bytes) simp
    note one = clears_bytes(2) [OF sub(1) same]
    show ?thesis
    proof (cases "nb \<noteq> 8192")
      case True
      show ?thesis unfolding eq if_P [OF True] by (rule at [OF clears_bytes(2) [OF sub(2) one]])
    next
      case False
      show ?thesis unfolding eq if_not_P [OF False] by (rule at [OF one])
    qed
  qed
qed

text \<open>A change of the contents behind the bitmap is the same change of the sealed image.\<close>

lemma seal_change:
  assumes "nx \<le> 8192" "nb \<le> 8192" "\<And>x. x < 3072 \<Longrightarrow> v' x = v x"
  shows "seal_mem nb ni nx v' = (\<lambda>x. if x < 3072 then seal_mem nb ni nx v x else v' x)"
proof
  fix x :: nat
  have same: "same_bitmap v v'" using assms(3) by (simp add: same_bitmap_def)
  consider "x < 1024" | "1024 \<le> x" "x < 3072" | "3072 \<le> x" by linarith
  then show "seal_mem nb ni nx v' x = (if x < 3072 then seal_mem nb ni nx v x else v' x)"
  proof cases
    case 1
    then show ?thesis using seal_bytes(1) [OF assms(1,2), of x] assms(3) [of x] by simp
  next
    case 2
    then show ?thesis using seal_bytes(2) [OF assms(1,2) same 2] by simp
  next
    case 3
    then show ?thesis using seal_bytes(1) [OF assms(1,2), of x] by simp
  qed
qed

lemma seal_high: "nx \<le> 8192 \<Longrightarrow> nb \<le> 8192 \<Longrightarrow> 3072 \<le> x \<Longrightarrow> seal_mem nb ni nx v x = v x"
  by (rule seal_bytes) simp_all

lemma seal_st32:
  assumes "nx \<le> 8192" "nb \<le> 8192" "3072 \<le> a"
  shows "seal_mem nb ni nx (st32 v a w) = st32 (seal_mem nb ni nx v) a w" "ld32 (seal_mem nb ni nx v) a = ld32 v a"
proof -
  show "seal_mem nb ni nx (st32 v a w) = st32 (seal_mem nb ni nx v) a w"
  proof
    fix x
    have low: "st32 v a w y = v y" if "y < 3072" for y using assms(3) that by (simp add: st32_other_byte)
    show "seal_mem nb ni nx (st32 v a w) x = st32 (seal_mem nb ni nx v) a w x"
    proof (cases "x < 3072")
      case True
      then show ?thesis using seal_change [OF assms(1,2) low] assms(3) by (simp add: st32_other_byte)
    next
      case False
      then have "seal_mem nb ni nx (st32 v a w) x = st32 v a w x" using seal_change [OF assms(1,2) low] by simp
      also have "\<dots> = st32 (seal_mem nb ni nx v) a w x"
        using seal_high [OF assms(1,2), of x ni v] False by (simp add: st32_def)
      finally show ?thesis .
    qed
  qed
  show "ld32 (seal_mem nb ni nx v) a = ld32 v a"
    by (rule ld32_cong; rule seal_high [OF assms(1,2)]; use assms(3) in simp)
qed

section \<open>The sealed image is a good disk\<close>

definition bitmap_full :: "mem \<Rightarrow> bool" where
  "bitmap_full v \<longleftrightarrow> (\<forall>x. 2048 \<le> x \<longrightarrow> x < 3072 \<longrightarrow> v x = 0xFF)"

definition first_data :: "nat \<Rightarrow> nat" where
  "first_data ni = 3 + (ni + 15) div 16"

definition sealable :: "nat \<Rightarrow> nat \<Rightarrow> nat \<Rightarrow> mem \<Rightarrow> bool" where
  "sealable nb ni nx v \<longleftrightarrow> nb \<le> 8192 \<and> first_data ni \<le> nx \<and> nx \<le> nb \<and> bitmap_full v"

lemma bitmap_full_test:
  assumes "bitmap_full v" "j < 8192"
  shows "bitvector_test v FREEMAP j"
proof -
  have w: "2048 \<le> FREEMAP + 4 * (j div 32)" "FREEMAP + 4 * (j div 32) + 4 \<le> 3072" using bitmap_word [OF assms(2)] by simp_all
  have "v (FREEMAP + 4 * (j div 32) + k) = 0xFF" if "k < 4" for k using assms(1) w that by (simp add: bitmap_full_def)
  from this [of 0] this [of 1] this [of 2] this [of 3]
  have "ld32 v (FREEMAP + 4 * (j div 32)) = 0xFFFFFFFF" by (simp add: ld32_def)
  moreover have "(0xFFFFFFFF :: u32) = - 1" by simp
  ultimately show ?thesis by (simp only: bitvector_test_bit) simp
qed

lemma seal_facts:
  assumes ok: "sealable nb ni nx v"
  defines "m \<equiv> seal_mem nb ni nx v"
  shows "unat (os_nblocks m) = nb" "unat (os_ninodes m) = ni" "unat (os_firstinob m) = 3" "data_start m = first_data ni"
    "freemap_end m = 3072" "free_set m = {nx ..< nb}" "disk_ok m"
proof -
  have b: "nb \<le> 8192" "nx \<le> 8192" "first_data ni \<le> nx" "nx \<le> nb" "bitmap_full v" using ok by (simp_all add: sealable_def)
  have ni: "ni < 2 ^ 32" using b by (simp add: first_data_def)
  show nb: "unat (os_nblocks m) = nb"
    unfolding m_def seal_mem_def Let_def os_nblocks_def put_super_words unat_of_nat using b by (simp add: take_bit_nat_eq_self)
  show ni': "unat (os_ninodes m) = ni"
    unfolding m_def seal_mem_def Let_def os_ninodes_def put_super_words unat_of_nat using ni by (simp add: take_bit_nat_eq_self)
  show fi: "unat (os_firstinob m) = 3" unfolding m_def seal_mem_def Let_def os_firstinob_def put_super_words by simp
  show start: "data_start m = first_data ni" using fi ni' by (simp add: data_start_def first_data_def)
  show "freemap_end m = 3072" using fi by (simp add: freemap_end_def)
  have sub: "set [0 ..< nx] \<subseteq> {..< 8192}" "set [nb ..< 8192] \<subseteq> {..< 8192}" using b by auto
  have bits: "bitvector_test m FREEMAP j \<longleftrightarrow> nx \<le> j \<and> j < nb" if j: "j < 8192" for j
  proof -
    have w: "ld32 m (FREEMAP + 4 * (j div 32)) = ld32 (if nb \<noteq> 8192
        then fold (bitvector_clear FREEMAP) [nb ..< 8192] (fold (bitvector_clear FREEMAP) [0 ..< nx] v)
        else fold (bitvector_clear FREEMAP) [0 ..< nx] v) (FREEMAP + 4 * (j div 32))"
      unfolding m_def seal_mem_def Let_def by (rule ld32_cong; rule put_super_bytes; simp)
    have "bitvector_test m FREEMAP j \<longleftrightarrow> bitvector_test (if nb \<noteq> 8192
        then fold (bitvector_clear FREEMAP) [nb ..< 8192] (fold (bitvector_clear FREEMAP) [0 ..< nx] v)
        else fold (bitvector_clear FREEMAP) [0 ..< nx] v) FREEMAP j"
      unfolding bitvector_test_def w ..
    also have "\<dots> \<longleftrightarrow> nx \<le> j \<and> j < nb"
    proof (cases "nb \<noteq> 8192")
      case True
      then show ?thesis
        unfolding if_P [OF True] clears_bytes(3) [OF sub(2)] clears_bytes(3) [OF sub(1)] using bitmap_full_test [OF b(5) j] j by auto
    next
      case False
      then show ?thesis
        unfolding if_not_P [OF False] clears_bytes(3) [OF sub(1)] using bitmap_full_test [OF b(5) j] j by auto
    qed
    finally show ?thesis .
  qed
  show "free_set m = {nx ..< nb}" using bits b nb by (auto simp: free_set_def)
  have "\<not> bitvector_test m FREEMAP j" if "j < first_data ni" for j using bits [of j] that b by simp
  moreover have "2 + (nb + 8191) div 8192 \<le> 3" using b(1) by simp
  ultimately show "disk_ok m" unfolding disk_ok_def nb fi start using b by auto
qed

text \<open>Taking the next block of the build is taking a free block of the sealed image.\<close>

lemma seal_grab:
  assumes ok: "sealable nb ni nx v" and nx: "nx < nb"
  shows "grabbed (seal_mem nb ni nx v) (of_nat nx) (seal_mem nb ni (nx + 1) (mem_set v (1024 * nx) 0 1024))"
    and "sealable nb ni (nx + 1) (mem_set v (1024 * nx) 0 1024)" "unat (of_nat nx :: u32) = nx"
proof -
  let ?v = "mem_set v (1024 * nx) 0 1024"
  have b: "nb \<le> 8192" "nx < 8192" "first_data ni \<le> nx" "bitmap_full v" using ok nx by (simp_all add: sealable_def)
  have three: "3 \<le> nx" using b(3) by (simp add: first_data_def)
  have low: "?v x = v x" if "x < 3072" for x using three that by (simp add: mem_set_def)
  then have "bitmap_full ?v" using b(4) by (simp add: bitmap_full_def)
  then show ok': "sealable nb ni (nx + 1) ?v" using ok nx by (simp add: sealable_def)
  show u: "unat (of_nat nx :: u32) = nx" unfolding unat_of_nat using b(2) by (simp add: take_bit_nat_eq_self)
  note f = seal_facts [OF ok] and f' = seal_facts [OF ok']
  show "grabbed (seal_mem nb ni nx v) (of_nat nx) (seal_mem nb ni (nx + 1) ?v)"
    unfolding grabbed_def u f(5)
  proof (intro conjI allI impI)
    show "super_eq (seal_mem nb ni nx v) (seal_mem nb ni (nx + 1) ?v)"
      using f(1-3) f'(1-3) unfolding super_eq_def by (metis word_unat_eq_iff)
    show "seal_mem nb ni (nx + 1) ?v x = seal_mem nb ni nx v x" if "3072 \<le> x" "\<not> in_block nx x" for x
      using that b by (auto simp: seal_high mem_set_def in_block_def)
    show "seal_mem nb ni (nx + 1) ?v x = 0" if "in_block nx x" for x
      using that b three by (simp add: seal_high mem_set_def in_block_def)
  qed (use f f' nx in auto)
qed

end
