(* ===== verification/FormatStep.thy ===== *)
theory FormatStep
  imports FormatSeal
begin

text \<open>
  The steps of the image builder on its sealed image: getting and releasing blocks, assignments
  through pointers, and the next free block. \<open>evolves\<close> collects what every step keeps: the state
  stays sealable and the pointers that are held stay good.
\<close>

definition seal :: "fs \<Rightarrow> mem" where
  "seal s = seal_mem (nblocks (blocks s)) (ninodes s) (nextb s) (view (blocks s))"

definition refs :: "fs \<Rightarrow> nat \<Rightarrow> nat \<Rightarrow> bool" where
  "refs s q no \<longleftrightarrow> slot_holds (blocks s) q no \<and> 0 < pins (blocks s) no"

definition ready :: "fs \<Rightarrow> bool" where
  "ready s \<longleftrightarrow> cache_ok (blocks s) \<and> sealable (nblocks (blocks s)) (ninodes s) (nextb s) (view (blocks s)) \<and>
     (\<forall>c. 0 < pins (blocks s) c \<longrightarrow> c < nextb s) \<and> nbitblock s = 1 \<and> sb_magic s = OSPFS_MAGIC \<and>
     sb_nblocks s = of_nat (nblocks (blocks s)) \<and> sb_ninodes s = of_nat (ninodes s) \<and> sb_firstinob s = 3"

definition evolves :: "fs \<Rightarrow> fs \<Rightarrow> bool" where
  "evolves s s' \<longleftrightarrow> ready s' \<and> (\<forall>c. pins (blocks s) c \<le> pins (blocks s') c) \<and>
     (\<forall>c. 0 < pins (blocks s) c \<longrightarrow> kind (blocks s') c = kind (blocks s) c) \<and>
     (\<forall>q c. refs s q c \<longrightarrow> slot_holds (blocks s') q c) \<and>
     nblocks (blocks s') = nblocks (blocks s) \<and> ninodes s' = ninodes s \<and> nextb s \<le> nextb s' \<and>
     nextinode s' = nextinode s \<and> hardlinks s' = hardlinks s \<and> link_contents s' = link_contents s"

lemma evolves_refl [simp]: "evolves s s \<longleftrightarrow> ready s"
  by (auto simp: evolves_def refs_def)

lemma evolves_refs:
  assumes "evolves s s'" "refs s q c"
  shows "refs s' q c"
proof -
  have "0 < pins (blocks s) c" using assms(2) by (simp add: refs_def)
  moreover have "pins (blocks s) c \<le> pins (blocks s') c" "slot_holds (blocks s') q c" using assms by (simp_all add: evolves_def)
  ultimately show ?thesis by (simp add: refs_def)
qed

lemma evolves_trans [trans]:
  assumes "evolves s s'" "evolves s' s''"
  shows "evolves s s''"
proof -
  have "pins (blocks s) c \<le> pins (blocks s'') c" for c using assms order_trans unfolding evolves_def by blast
  moreover have "kind (blocks s'') c = kind (blocks s) c" if "0 < pins (blocks s) c" for c
  proof -
    have "pins (blocks s) c \<le> pins (blocks s') c" using assms(1) by (simp add: evolves_def)
    then have "0 < pins (blocks s') c" using that by linarith
    then show ?thesis using that assms by (simp add: evolves_def)
  qed
  moreover have "slot_holds (blocks s'') q c" if "refs s q c" for q c
    using evolves_refs [OF assms(1) that] assms(2) by (simp add: evolves_def)
  ultimately show ?thesis using assms by (auto simp: evolves_def)
qed

lemma evolves_ready: "evolves s s' \<Longrightarrow> ready s'"
  by (simp add: evolves_def)

lemma ready_facts:
  assumes "ready s"
  shows "cache_ok (blocks s)" "sealable (nblocks (blocks s)) (ninodes s) (nextb s) (view (blocks s))"
    "nextb s \<le> nblocks (blocks s)" "nblocks (blocks s) \<le> 8192" "nextb s \<le> 8192" "3 \<le> nextb s" "first_data (ninodes s) \<le> nextb s"
    "0 < pins (blocks s) c \<Longrightarrow> c < nextb s"
  using assms by (auto simp: ready_def sealable_def first_data_def)

lemma seal_disk:
  assumes "ready s"
  shows "free_set (seal s) = {nextb s ..< nblocks (blocks s)}" "disk_ok (seal s)" "freemap_end (seal s) = 3072"
    "data_start (seal s) = first_data (ninodes s)" "unat (os_ninodes (seal s)) = ninodes s" "unat (os_firstinob (seal s)) = 3"
    "unat (os_nblocks (seal s)) = nblocks (blocks s)"
  using seal_facts [OF ready_facts(2) [OF assms]] by (simp_all add: seal_def)

lemma seal_byte: "ready s \<Longrightarrow> 3072 \<le> x \<Longrightarrow> seal s x = view (blocks s) x"
  unfolding seal_def using ready_facts(4,5) by (intro seal_high) blast+

lemma sealable_high:
  assumes "sealable nb ni nx v" "\<And>x. x < 3072 \<Longrightarrow> v' x = v x"
  shows "sealable nb ni nx v'"
  using assms by (simp add: sealable_def bitmap_full_def)

section \<open>Reading through a pointer\<close>

lemma peek_seal:
  assumes "ready s" "refs s q no" "3 \<le> no" "off + 4 \<le> 1024"
  shows "peek q off s = ld32 (seal s) (1024 * no + off)"
proof -
  have "peek q off s = ld32 (view (blocks s)) (1024 * no + off)"
    using reads(1) [of "blocks s" q no off] assms by (simp add: peek_def refs_def ready_def)
  also have "\<dots> = ld32 (seal s) (1024 * no + off)"
    by (rule ld32_cong; rule seal_byte [OF assms(1), symmetric]; use assms(3) in simp)
  finally show ?thesis .
qed

lemma block_no_refs: "ready s \<Longrightarrow> refs s q no \<Longrightarrow> block_no q (blocks s) = no"
  using reads(3) [of "blocks s" q no] by (simp add: refs_def ready_def)

section \<open>Assignments\<close>

lemma update_evolves:
  assumes s: "ready s" and same: "same_slots (blocks s) b" and p: "pins b = pins (blocks s)"
    and v: "\<And>x. x < 3072 \<Longrightarrow> view b x = view (blocks s) x"
  shows "evolves s (s\<lparr>blocks := b\<rparr>)" "seal (s\<lparr>blocks := b\<rparr>) = (\<lambda>x. if x < 3072 then seal s x else view b x)"
proof -
  have nb: "nblocks b = nblocks (blocks s)" using same by (simp add: same_slots_def)
  have "ready (s\<lparr>blocks := b\<rparr>)"
    using s same p sealable_high [OF ready_facts(2) [OF s] v] by (simp add: ready_def same_slots_def)
  then show "evolves s (s\<lparr>blocks := b\<rparr>)"
    using same p by (auto simp: evolves_def same_slots_def refs_def)
  show "seal (s\<lparr>blocks := b\<rparr>) = (\<lambda>x. if x < 3072 then seal s x else view b x)"
  proof -
    have "seal_mem (nblocks (blocks s)) (ninodes s) (nextb s) (view b) =
        (\<lambda>x. if x < 3072 then seal_mem (nblocks (blocks s)) (ninodes s) (nextb s) (view (blocks s)) x else view b x)"
      by (rule seal_change [OF ready_facts(5) [OF s] ready_facts(4) [OF s]]) (rule v)
    then show ?thesis unfolding seal_def by (simp add: nb)
  qed
qed

lemma poke_ends:
  assumes s: "ready s" and q: "refs s q no" and no: "3 \<le> no" "off + 4 \<le> 1024"
  shows "ends (poke q off v) s (\<lambda>_ s'. evolves s s' \<and> pins (blocks s') = pins (blocks s) \<and>
    seal s' = st32 (seal s) (1024 * no + off) v \<and> nextb s' = nextb s)"
proof -
  let ?b = "put_word q off v (blocks s)"
  have ok: "cache_ok (blocks s)" "slot_holds (blocks s) q no" using s q by (simp_all add: ready_def refs_def)
  note w = writes(1-3) [OF ok, of off v] and w3 = writes(3) [OF ok no(2), of v]
  have low: "view ?b x = view (blocks s) x" if "x < 3072" for x using w3 no that by (simp add: st32_other_byte)
  have up: "evolves s (s\<lparr>blocks := ?b\<rparr>)" "seal (s\<lparr>blocks := ?b\<rparr>) = (\<lambda>x. if x < 3072 then seal s x else view ?b x)"
    using update_evolves [of s ?b] s w low by blast+
  have "seal (s\<lparr>blocks := ?b\<rparr>) = st32 (seal s) (1024 * no + off) v"
  proof
    fix x
    show "seal (s\<lparr>blocks := ?b\<rparr>) x = st32 (seal s) (1024 * no + off) v x"
      unfolding up(2) w3 using no seal_byte [OF s, of x] by (simp add: st32_def)
  qed
  then show ?thesis using up(1) w(2) by (simp add: poke_def)
qed

lemma fill_ends:
  assumes s: "ready s" and q: "refs s q no" and no: "3 \<le> no" "off + length bs \<le> 1024"
  shows "ends (fill q off bs) s (\<lambda>_ s'. evolves s s' \<and> pins (blocks s') = pins (blocks s) \<and>
    seal s' = mem_put (seal s) (1024 * no + off) bs \<and> nextb s' = nextb s)"
proof -
  let ?b = "put_bytes q off bs (blocks s)"
  have ok: "cache_ok (blocks s)" "slot_holds (blocks s) q no" using s q by (simp_all add: ready_def refs_def)
  note w = writes(4,5) [OF ok, of off bs] and w3 = writes(6) [OF ok no(2)]
  have low: "view ?b x = view (blocks s) x" if "x < 3072" for x using w3 no that by (simp add: mem_put_out)
  have up: "evolves s (s\<lparr>blocks := ?b\<rparr>)" "seal (s\<lparr>blocks := ?b\<rparr>) = (\<lambda>x. if x < 3072 then seal s x else view ?b x)"
    using update_evolves [of s ?b] s w low by blast+
  have "seal (s\<lparr>blocks := ?b\<rparr>) = mem_put (seal s) (1024 * no + off) bs"
  proof
    fix x
    show "seal (s\<lparr>blocks := ?b\<rparr>) x = mem_put (seal s) (1024 * no + off) bs x"
      unfolding up(2) w3 using no seal_byte [OF s, of x] by (simp add: mem_put_def)
  qed
  then show ?thesis using up(1) w(2) no(2) by (simp add: fill_def)
qed

section \<open>Getting and releasing blocks\<close>

lemma pins_upd_less: "(\<forall>c. 0 < p c \<longrightarrow> c < n) \<Longrightarrow> no < n \<Longrightarrow> 0 < (p(no := k)) c \<Longrightarrow> c < (n :: nat)"
  by (cases "c = no") auto

lemma get_old:
  assumes s: "ready s" and no: "0 < no" "no < nextb s" and room: "0 < pins (blocks s) no \<or> card (pinned (blocks s)) < 16"
    and t: "kind (blocks s) no = type \<or> pins (blocks s) no = 0"
  shows "ends (lift (getblk no False type)) s (\<lambda>q s'. evolves s s' \<and> refs s' q no \<and> kind (blocks s') no = type \<and>
    pins (blocks s') = (pins (blocks s))(no := Suc (pins (blocks s) no)) \<and> seal s' = seal s \<and> nextb s' = nextb s)"
proof -
  have ok: "cache_ok (blocks s)" "no < nblocks (blocks s)" using ready_facts(1,3) [OF s] no by simp_all
  show ?thesis
    unfolding ends_lift
  proof (rule ends_mono [OF getblk_got [OF ok(1) no(1) ok(2) room t, of False]])
    fix q b
    let ?s = "s\<lparr>blocks := b\<rparr>"
    assume "got (blocks s) no False type q b"
    then have g: "cache_ok b" "slot_holds b q no" "nblocks b = nblocks (blocks s)" "view b = view (blocks s)"
      "pins b = (pins (blocks s))(no := Suc (pins (blocks s) no))" "kind b no = type"
      "\<And>c. c \<noteq> no \<Longrightarrow> 0 < pins (blocks s) c \<Longrightarrow> kind b c = kind (blocks s) c"
      "\<And>j c. slot_holds (blocks s) j c \<Longrightarrow> 0 < pins (blocks s) c \<Longrightarrow> slot_holds b j c"
      by (simp_all add: got_def)
    have less: "c < nextb s" if "0 < pins b c" for c
      using pins_upd_less [of "pins (blocks s)" "nextb s" no] that s no(2) unfolding g(5) ready_def by blast
    have ready: "ready ?s" using s g(1,3,4) less by (simp add: ready_def)
    have kinds: "kind b c = kind (blocks s) c" if "0 < pins (blocks s) c" for c
      using g(6,7) t that by (cases "c = no") auto
    have "evolves s ?s" using ready kinds g(3,5,8) by (auto simp: evolves_def refs_def)
    moreover have "seal ?s = seal s" by (simp add: seal_def g(3,4))
    ultimately show "evolves s ?s \<and> refs ?s q no \<and> kind (blocks ?s) no = type \<and>
        pins (blocks ?s) = (pins (blocks s))(no := Suc (pins (blocks s) no)) \<and> seal ?s = seal s \<and> nextb ?s = nextb s"
      using g by (simp add: refs_def)
  qed
qed

lemma next_block_ends:
  assumes s: "ready s" and nx: "nextb s < nblocks (blocks s)" and room: "card (pinned (blocks s)) < 16"
  shows "ends (next_block type) s (\<lambda>q s'. evolves s s' \<and> refs s' q (nextb s) \<and> kind (blocks s') (nextb s) = type \<and>
    pins (blocks s') = (pins (blocks s))(nextb s := 1) \<and> grabbed (seal s) (of_nat (nextb s)) (seal s') \<and> nextb s' = nextb s + 1)"
proof -
  let ?nx = "nextb s"
  have ok: "cache_ok (blocks s)" "0 < ?nx" using ready_facts(1,6) [OF s] by simp_all
  have "\<not> ?nx < ?nx" by simp
  then have zero: "pins (blocks s) ?nx = 0" using ready_facts(8) [OF s, of ?nx] by blast
  note grab = seal_grab [OF ready_facts(2) [OF s] nx]
  have eq: "ends (next_block type) s Q \<longleftrightarrow>
      ends (getblk ?nx True type) (blocks s) (\<lambda>q b. Q q (s\<lparr>nextb := ?nx + 1, blocks := b\<rparr>))" for Q
    by (simp add: next_block_def)
  show ?thesis
    unfolding eq
  proof (rule ends_mono [OF getblk_got [OF ok nx, of type True]])
    fix q b
    let ?s = "s\<lparr>nextb := ?nx + 1, blocks := b\<rparr>"
    assume "got (blocks s) ?nx True type q b"
    then have g: "cache_ok b" "slot_holds b q ?nx" "nblocks b = nblocks (blocks s)"
      "view b = mem_set (view (blocks s)) (1024 * ?nx) 0 1024"
      "pins b = (pins (blocks s))(?nx := 1)" "kind b ?nx = type"
      "\<And>c. c \<noteq> ?nx \<Longrightarrow> 0 < pins (blocks s) c \<Longrightarrow> kind b c = kind (blocks s) c"
      "\<And>j c. slot_holds (blocks s) j c \<Longrightarrow> 0 < pins (blocks s) c \<Longrightarrow> slot_holds b j c"
      using zero by (simp_all add: got_def)
    have "\<forall>c. 0 < pins (blocks s) c \<longrightarrow> c < ?nx + 1"
    proof (intro allI impI)
      show "c < ?nx + 1" if "0 < pins (blocks s) c" for c using ready_facts(8) [OF s that] by simp
    qed
    note before = this
    have less: "c < ?nx + 1" if "0 < pins b c" for c
      by (rule pins_upd_less [OF before, of ?nx 1]) (use that in \<open>simp_all add: g(5)\<close>)
    have ready: "ready ?s" using s g(1,3,4) less grab(2) by (simp add: ready_def)
    have kinds: "kind b c = kind (blocks s) c" if "0 < pins (blocks s) c" for c
      using g(7) [of c] zero that by (cases "c = ?nx") auto
    have "evolves s ?s" using ready kinds g(3,5,8) zero by (auto simp: evolves_def refs_def)
    moreover have "grabbed (seal s) (of_nat ?nx) (seal ?s)" using grab(1) by (simp add: seal_def g(3,4))
    ultimately show "evolves s ?s \<and> refs ?s q ?nx \<and> kind (blocks ?s) ?nx = type \<and>
        pins (blocks ?s) = (pins (blocks s))(?nx := 1) \<and> grabbed (seal s) (of_nat ?nx) (seal ?s) \<and> nextb ?s = ?nx + 1"
      using g by (simp add: refs_def)
  qed (use zero room in simp_all)
qed

text \<open>Releasing a block that was got since \<open>s\<close>.\<close>

lemma put_ends:
  assumes ev: "evolves s s1" and q: "refs s1 q no" and p: "pins (blocks s1) = (pins (blocks s))(no := Suc (pins (blocks s) no))"
  shows "ends (lift (putblk q)) s1 (\<lambda>_ s2. evolves s s2 \<and> pins (blocks s2) = pins (blocks s) \<and> seal s2 = seal s1 \<and>
    nextb s2 = nextb s1)"
proof -
  have s1: "ready s1" using ev by (simp add: evolves_def)
  have ok: "cache_ok (blocks s1)" "slot_holds (blocks s1) q no" using s1 q by (simp_all add: ready_def refs_def)
  show ?thesis
    unfolding ends_lift
  proof (rule ends_mono [OF putblk_ends [OF ok]])
    fix u :: unit and b
    let ?s = "s1\<lparr>blocks := b\<rparr>"
    assume "same_slots (blocks s1) b \<and> view b = view (blocks s1) \<and> pins b = (pins (blocks s1))(no := pins (blocks s1) no - 1)"
    then have b: "cache_ok b" "nblocks b = nblocks (blocks s1)" "kind b = kind (blocks s1)"
      "\<And>j c. slot_holds b j c = slot_holds (blocks s1) j c" "view b = view (blocks s1)" "pins b = pins (blocks s)"
      using p by (auto simp: same_slots_def)
    have "c < nextb s1" if "0 < pins b c" for c
    proof -
      have "pins (blocks s) c \<le> pins (blocks s1) c" using ev by (simp add: evolves_def)
      then show ?thesis using that ready_facts(8) [OF s1, of c] b(6) by simp
    qed
    then have "ready ?s" using s1 b by (simp add: ready_def)
    then have "evolves s ?s" using ev b by (auto simp: evolves_def)
    moreover have "seal ?s = seal s1" by (simp add: seal_def b)
    ultimately show "evolves s ?s \<and> pins (blocks ?s) = pins (blocks s) \<and> seal ?s = seal s1 \<and> nextb ?s = nextb s1"
      using b by simp
  qed
qed

section \<open>Pointer blocks\<close>

lemma pointer_block_old:
  assumes s: "ready s" and p: "refs s p no" "3 \<le> no" "off + 4 \<le> 1024"
    and w: "ld32 (seal s) (1024 * no + off) = w" "w \<noteq> 0" "unat w < nextb s" "pins (blocks s) (unat w) = 0"
    and room: "card (pinned (blocks s)) < 16"
  shows "ends (pointer_block_at p off) s (\<lambda>q s'. evolves s s' \<and> refs s' q (unat w) \<and>
    pins (blocks s') = (pins (blocks s))(unat w := 1) \<and> seal s' = seal s \<and> nextb s' = nextb s)"
proof -
  have peek: "peek p off s = w" using peek_seal [OF s p] w(1) by simp
  have "0 < unat w" using w(2) by (metis neq0_conv unat_eq_zero)
  note get = get_old [OF s this w(3), of BLOCK_BITS]
  have eq: "ends (pointer_block_at p off) s Q \<longleftrightarrow> ends (lift (getblk (unat w) False BLOCK_BITS)) s Q" for Q
    using peek w(2) by (simp add: pointer_block_at_def)
  show ?thesis
    unfolding eq by (rule ends_mono [OF get]) (use w(4) room in auto)
qed

lemma pointer_block_new:
  assumes s: "ready s" and p: "refs s p no" "3 \<le> no" "off + 4 \<le> 1024"
    and w: "ld32 (seal s) (1024 * no + off) = 0"
    and room: "card (pinned (blocks s)) < 16" "nextb s < nblocks (blocks s)"
  shows "ends (pointer_block_at p off) s (\<lambda>q s'. evolves s s' \<and> refs s' q (nextb s) \<and>
    pins (blocks s') = (pins (blocks s))(nextb s := 1) \<and> nextb s' = nextb s + 1 \<and>
    (\<exists>M. grabbed (seal s) (of_nat (nextb s)) M \<and> seal s' = st32 M (1024 * no + off) (of_nat (nextb s))))"
proof -
  have peek: "peek p off s = 0" using peek_seal [OF s p] w by simp
  have eq: "ends (pointer_block_at p off) s Q \<longleftrightarrow> ends (next_block BLOCK_BITS) s
      (\<lambda>q s1. ends (poke p off (of_nat (block_no q (blocks s1)))) s1 (\<lambda>_ s2. Q q s2))" for Q
    using peek by (simp add: pointer_block_at_def)
  show ?thesis
    unfolding eq
  proof (rule ends_mono [OF next_block_ends [OF s room(2,1), of BLOCK_BITS]])
    fix q s1
    assume a: "evolves s s1 \<and> refs s1 q (nextb s) \<and> kind (blocks s1) (nextb s) = BLOCK_BITS \<and>
      pins (blocks s1) = (pins (blocks s))(nextb s := 1) \<and> grabbed (seal s) (of_nat (nextb s)) (seal s1) \<and> nextb s1 = nextb s + 1"
    then have ev: "evolves s s1" by simp
    note s1 = evolves_ready [OF ev] evolves_refs [OF ev p(1)]
    have no: "block_no q (blocks s1) = nextb s" using block_no_refs [OF s1(1)] a by simp
    have *: "evolves s s2 \<and> refs s2 q (nextb s) \<and> pins (blocks s2) = (pins (blocks s))(nextb s := 1) \<and> nextb s2 = nextb s + 1 \<and>
        (\<exists>M. grabbed (seal s) (of_nat (nextb s)) M \<and> seal s2 = st32 M (1024 * no + off) (of_nat (nextb s)))"
      if "evolves s1 s2 \<and> pins (blocks s2) = pins (blocks s1) \<and> seal s2 = st32 (seal s1) (1024 * no + off) (of_nat (nextb s)) \<and>
        nextb s2 = nextb s1" for s2
      using that a evolves_trans [of s s1 s2] evolves_refs [of s1 s2 q "nextb s"] by auto
    show "ends (poke p off (of_nat (block_no q (blocks s1)))) s1 (\<lambda>_ s2. evolves s s2 \<and> refs s2 q (nextb s) \<and>
        pins (blocks s2) = (pins (blocks s))(nextb s := 1) \<and> nextb s2 = nextb s + 1 \<and>
        (\<exists>M. grabbed (seal s) (of_nat (nextb s)) M \<and> seal s2 = st32 M (1024 * no + off) (of_nat (nextb s))))"
      unfolding no by (rule ends_mono [OF poke_ends [OF s1 p(2,3), of "of_nat (nextb s)"]]) (rule *)
  qed
qed

text \<open>The last assignment into a pointer block, and its release.\<close>

lemma poke_put_ends:
  assumes ev: "evolves s s1" and q: "refs s1 q c" and p: "pins (blocks s1) = (pins (blocks s))(c := Suc (pins (blocks s) c))"
    and c: "3 \<le> c" "off + 4 \<le> 1024"
  shows "ends (andthen (poke q off v) (lift (putblk q))) s1 (\<lambda>_ s2. evolves s s2 \<and> pins (blocks s2) = pins (blocks s) \<and>
    seal s2 = st32 (seal s1) (1024 * c + off) v \<and> nextb s2 = nextb s1)"
  unfolding ends_build
proof (rule ends_mono [OF poke_ends [OF evolves_ready [OF ev] q c, of v]])
  fix u :: unit and s2
  assume a: "evolves s1 s2 \<and> pins (blocks s2) = pins (blocks s1) \<and> seal s2 = st32 (seal s1) (1024 * c + off) v \<and> nextb s2 = nextb s1"
  have "evolves s s2" "refs s2 q c" "pins (blocks s2) = (pins (blocks s))(c := Suc (pins (blocks s) c))"
    using a evolves_trans [OF ev] evolves_refs [OF _ q] p by simp_all
  from put_ends [OF this] show "ends (lift (putblk q)) s2 (\<lambda>_ s2. evolves s s2 \<and> pins (blocks s2) = pins (blocks s) \<and>
      seal s2 = st32 (seal s1) (1024 * c + off) v \<and> nextb s2 = nextb s1)"
    by (rule ends_mono) (use a in simp)
qed

end
