(* ===== verification/FormatStore.thy ===== *)
theory FormatStore
  imports FormatStep
begin

text \<open>
  \<open>storeblk\<close> of the image builder links a block into a file as \<open>add_block\<close> of the file system module
  does: the same pointer blocks are taken and the same words written. So the facts about \<open>add_block\<close>
  say that the file has the block as its last one, with its contents, and that no other file changes.
\<close>

section \<open>Contents of one block put over a memory\<close>

definition overlay :: "nat \<Rightarrow> mem \<Rightarrow> mem \<Rightarrow> mem" where
  "overlay b d m = (\<lambda>x. if in_block b x then d x else m x)"

lemma overlay_same [simp]: "overlay b m m = m"
  by (auto simp: overlay_def)

lemma overlay_byte: "\<not> in_block b x \<Longrightarrow> overlay b d m x = m x"
  by (simp add: overlay_def)

lemma in_block_word_step:
  assumes "4 dvd a" "k < 4"
  shows "in_block b (a + k) \<longleftrightarrow> in_block b a"
proof -
  obtain j where j: "a = 4 * j" using assms(1) by (rule dvdE)
  have "4 * j + k < 1024 * b + 1024 \<longleftrightarrow> 4 * j < 1024 * b + 1024"
  proof
    assume "4 * j < 1024 * b + 1024"
    then have "j < 256 * b + 256" by simp
    then have "j + 1 \<le> 256 * b + 256" by simp
    then have "4 * j + 4 \<le> 1024 * b + 1024" by simp
    then show "4 * j + k < 1024 * b + 1024" using assms(2) by linarith
  qed simp
  moreover have "1024 * b \<le> 4 * j + k \<longleftrightarrow> 1024 * b \<le> 4 * j"
  proof
    assume a: "1024 * b \<le> 4 * j + k"
    have "256 * b \<le> j"
    proof (rule ccontr)
      assume "\<not> 256 * b \<le> j"
      then have "4 * j + 4 \<le> 1024 * b" by simp
      then show False using a assms(2) by linarith
    qed
    then show "1024 * b \<le> 4 * j" by simp
  qed simp
  ultimately show ?thesis by (simp add: in_block_def j)
qed

lemma overlay_st32:
  assumes "4 dvd a" "\<not> in_block b a"
  shows "st32 (overlay b d m) a v = overlay b d (st32 m a v)"
proof
  fix x
  show "st32 (overlay b d m) a v x = overlay b d (st32 m a v) x"
  proof (cases "a \<le> x \<and> x < a + 4")
    case True
    then obtain k where k: "x = a + k" "k < 4" using le_Suc_ex [of a x] by auto
    then have "\<not> in_block b x" using in_block_word_step [OF assms(1) k(2), of b] assms(2) by simp
    then show ?thesis by (auto simp: overlay_def st32_def)
  next
    case False
    then have "x < a \<or> a + 4 \<le> x" by linarith
    then show ?thesis by (simp add: overlay_def st32_other_byte)
  qed
qed

lemma overlay_ld32:
  assumes "4 dvd a" "\<not> in_block b a"
  shows "ld32 (overlay b d m) a = ld32 m a"
proof -
  have "\<not> in_block b (a + k)" if "k < 4" for k using in_block_word_step [OF assms(1) that, of b] assms(2) by simp
  from this [of 0] this [of 1] this [of 2] this [of 3] show ?thesis by (intro ld32_cong) (simp_all add: overlay_byte)
qed

lemma overlay_disk:
  assumes "disk_ok m" "freemap_end m \<le> 1024 * b"
  shows "super_eq m (overlay b d m)" "free_set (overlay b d m) = free_set m" "disk_ok (overlay b d m)"
  by (rule low_cong [OF assms(1)], use assms(2) in \<open>simp add: overlay_def in_block_def\<close>)+

lemma overlay_grab:
  assumes m: "disk_ok m" "freemap_end m \<le> 1024 * b" and g: "grabbed (overlay b d m) a m'" and ab: "unat a \<noteq> b"
  shows "grabbed m a (overlay b m m')" "m' = overlay b d (overlay b m m')"
proof -
  note o = overlay_disk [OF m, of d]
  note g' = grabbed_facts [OF g]
  have s: "super_eq m m'" by (rule super_eq_trans [OF o(1) g'(2)])
  have f: "freemap_end (overlay b d m) = freemap_end m" "freemap_end m' = freemap_end m"
    using super_eq_simps(2) [OF o(1)] super_eq_simps(2) [OF s] by simp_all
  note o' = overlay_disk [OF g'(1), of b m, unfolded f(2), OF m(2)]
  have out: "m' x = overlay b d m x" if "freemap_end m \<le> x" "\<not> in_block (unat a) x" for x
    using g that f(1) by (simp add: grabbed_def)
  have apart: "\<not> in_block (unat a) x" if "in_block b x" for x using that ab by (auto simp: in_block_def)
  have high: "freemap_end m \<le> x" if "in_block b x" for x using that m(2) by (simp add: in_block_def)
  show "m' = overlay b d (overlay b m m')"
  proof
    fix x
    show "m' x = overlay b d (overlay b m m') x" using out [OF high apart, of x] by (simp add: overlay_def)
  qed
  show "grabbed m a (overlay b m m')"
    unfolding grabbed_def
  proof (intro conjI allI impI)
    show "unat a \<in> free_set m" using g'(4) o(2) by simp
    show "disk_ok (overlay b m m')" by (rule o'(3))
    show "free_set (overlay b m m') = free_set m - {unat a}" using o'(2) g'(3) o(2) by simp
    show "super_eq m (overlay b m m')" by (rule super_eq_trans [OF s o'(1)])
    show "overlay b m m' x = m x" if "freemap_end m \<le> x" "\<not> in_block (unat a) x" for x
      using out [OF that] by (simp add: overlay_def)
    show "overlay b m m' x = 0" if "in_block (unat a) x" for x
      using that apart [of x] grabbed_zeroes [OF g that] by (auto simp: overlay_def)
  qed
qed

end
