(* ===== verification/FormatLink.thy ===== *)
theory FormatLink
  imports FormatStore
begin

text \<open>
  What \<open>storeblk\<close> of the image builder does to the sealed image: the state the file system's
  \<open>add_block\<close> reaches before it writes the size, with the contents of the new block put over it.
\<close>

section \<open>Pointers over the contents of the new block\<close>

lemma block_apart: "no \<noteq> b \<Longrightarrow> off < 1024 \<Longrightarrow> \<not> in_block b (1024 * no + off)"
  by (auto simp: in_block_def)

lemma card_pins:
  assumes "cache_ok b" "pins b' = (pins b)(no := k)"
  shows "card (pinned b') \<le> Suc (card (pinned b))"
proof -
  have "pinned b' \<subseteq> insert no (pinned b)" using assms(2) by (auto simp: pinned_def split: if_splits)
  then have "card (pinned b') \<le> card (insert no (pinned b))" using finite_pinned [OF assms(1)] by (intro card_mono) simp_all
  also have "\<dots> \<le> Suc (card (pinned b))" by (rule card_insert_le_m1) simp_all
  finally show ?thesis .
qed

lemma pointer_over_old:
  assumes s: "ready s" and p: "refs s p no" "3 \<le> no" "off + 4 \<le> 1024" "4 dvd off"
    and img: "seal s = overlay bno d M" "no \<noteq> bno"
    and w: "ld32 M (1024 * no + off) = w" "w \<noteq> 0" "unat w < nextb s" "pins (blocks s) (unat w) = 0"
    and room: "card (pinned (blocks s)) < 16"
  shows "ends (pointer_block_at p off) s (\<lambda>q s'. evolves s s' \<and> refs s' q (unat w) \<and>
    pins (blocks s') = (pins (blocks s))(unat w := 1) \<and> nextb s' = nextb s \<and> seal s' = overlay bno d M)"
proof -
  have "ld32 (seal s) (1024 * no + off) = w"
    unfolding img(1) w(1) [symmetric] using p(3,4) block_apart [OF img(2), of off] by (intro overlay_ld32) simp_all
  from pointer_block_old [OF s p(1-3) this w(2-4) room] show ?thesis by (rule ends_mono) (simp add: img(1))
qed

lemma pointer_over_new:
  assumes s: "ready s" and p: "refs s p no" "3 \<le> no" "off + 4 \<le> 1024" "4 dvd off"
    and img: "seal s = overlay bno d M" "no \<noteq> bno" "disk_ok M" "freemap_end M \<le> 1024 * bno" "bno < nextb s"
    and w: "ld32 M (1024 * no + off) = 0"
    and room: "card (pinned (blocks s)) < 16" "nextb s < nblocks (blocks s)"
  shows "ends (pointer_block_at p off) s (\<lambda>q s'. evolves s s' \<and> refs s' q (nextb s) \<and>
    pins (blocks s') = (pins (blocks s))(nextb s := 1) \<and> nextb s' = Suc (nextb s) \<and>
    (\<exists>M3. grabbed M (of_nat (nextb s)) M3 \<and> seal s' = overlay bno d (st32 M3 (1024 * no + off) (of_nat (nextb s)))))"
proof -
  have at: "4 dvd 1024 * no + off" "\<not> in_block bno (1024 * no + off)"
    using p(3,4) block_apart [OF img(2), of off] by simp_all
  have "ld32 (seal s) (1024 * no + off) = 0" unfolding img(1) w [symmetric] by (rule overlay_ld32 [OF at])
  note new = pointer_block_new [OF s p(1-3) this room]
  have u: "unat (of_nat (nextb s) :: u32) = nextb s"
    by (rule seal_grab(3) [OF ready_facts(2) [OF s] room(2)])
  have over: "\<exists>M3. grabbed M (of_nat (nextb s)) M3 \<and> st32 G (1024 * no + off) v = overlay bno d (st32 M3 (1024 * no + off) v)"
    if g: "grabbed (seal s) (of_nat (nextb s)) G" for G v
  proof -
    have "unat (of_nat (nextb s) :: u32) \<noteq> bno" using u img(5) by simp
    note o = overlay_grab [OF img(3,4) g [unfolded img(1)] this]
    show ?thesis using o(1) overlay_st32 [OF at, of d "overlay bno M G" v] o(2) by metis
  qed
  show ?thesis by (rule ends_mono [OF new]) (use over in auto)
qed

lemma link_word:
  assumes ev: "evolves s s1" and q: "refs s1 q c" and p: "pins (blocks s1) = (pins (blocks s))(c := Suc (pins (blocks s) c))"
    and c: "3 \<le> c" "off + 4 \<le> 1024" "4 dvd off" and img: "seal s1 = overlay bno d M" "c \<noteq> bno"
  shows "ends (andthen (poke q off v) (lift (putblk q))) s1 (\<lambda>_ s2. evolves s s2 \<and> pins (blocks s2) = pins (blocks s) \<and>
    nextb s2 = nextb s1 \<and> seal s2 = overlay bno d (st32 M (1024 * c + off) v))"
proof -
  have "4 dvd 1024 * c + off" "\<not> in_block bno (1024 * c + off)" using c block_apart [OF img(2), of off] by simp_all
  then have "st32 (seal s1) (1024 * c + off) v = overlay bno d (st32 M (1024 * c + off) v)"
    unfolding img(1) by (rule overlay_st32)
  then show ?thesis by (intro ends_mono [OF poke_put_ends [OF ev q p c(1,2), of v]]) simp
qed

section \<open>The state before a block is linked\<close>

text \<open>
  Block \<open>bno\<close> has been taken from the disk \<open>m0\<close>, which gave \<open>M0\<close>, and holds the contents \<open>d\<close>;
  the inode is at \<open>oi\<close>, in the held block \<open>no\<close>; no pointer block of the file is held.
\<close>

definition storing :: "fs \<Rightarrow> nat \<Rightarrow> nat \<Rightarrow> nat \<Rightarrow> nat \<Rightarrow> nat \<Rightarrow> nat \<Rightarrow> nat \<Rightarrow> mem \<Rightarrow> mem \<Rightarrow> mem \<Rightarrow> bool" where
  "storing s ib no io oi n b bno m0 M0 d \<longleftrightarrow>
     ready s \<and> refs s ib no \<and> 3 \<le> no \<and> io + 64 \<le> 1024 \<and> 4 dvd io \<and> 1024 * no + io = oi \<and>
     refs s b bno \<and> nextb s = Suc bno \<and>
     file_ok m0 oi n \<and> ptrs_clear m0 oi n \<and> n < 65802 \<and> grabbed m0 (of_nat bno) M0 \<and> seal s = overlay bno d M0 \<and>
     free_set m0 = {bno ..< nblocks (blocks s)} \<and>
     (\<forall>y \<in> nodes n. (\<forall>i. y \<noteq> Data i) \<longrightarrow> pins (blocks s) (block_of m0 oi y) = 0) \<and>
     card (pinned (blocks s)) \<le> 14 \<and> bno + card (new_nodes n) \<le> nblocks (blocks s)"

definition stored :: "fs \<Rightarrow> nat \<Rightarrow> nat \<Rightarrow> nat \<Rightarrow> mem \<Rightarrow> mem \<Rightarrow> fs \<Rightarrow> bool" where
  "stored s oi n bno m0 d s' \<longleftrightarrow> evolves s s' \<and> pins (blocks s') = pins (blocks s) \<and>
     nextb s' = bno + card (new_nodes n) \<and> (\<exists>m1. linked m0 oi n bno m1 \<and> seal s' = overlay bno d m1)"

lemma storingD:
  assumes "storing s ib no io oi n b bno m0 M0 d"
  shows "ready s" "refs s ib no" "refs s b bno" "file_ok m0 oi n" "grabbed m0 (of_nat bno) M0" "ptrs_clear m0 oi n"
    "seal s = overlay bno d M0" "oi = 1024 * no + io" "3 \<le> no" "io + 64 \<le> 1024" "4 dvd io" "nextb s = Suc bno"
    "free_set m0 = {bno ..< nblocks (blocks s)}" "bno + card (new_nodes n) \<le> nblocks (blocks s)" "n < 65802"
    "card (pinned (blocks s)) \<le> 14"
    "\<forall>y \<in> nodes n. (\<forall>i. y \<noteq> Data i) \<longrightarrow> pins (blocks s) (block_of m0 oi y) = 0"
  using assms by (simp_all add: storing_def)

lemma storing_facts:
  assumes st: "storing s ib no io oi n b bno m0 M0 d"
  shows "unat (of_nat bno :: u32) = bno" "bno < nblocks (blocks s)" "bno < 8192" "disk_ok M0" "freemap_end M0 \<le> 1024 * bno"
    "no \<noteq> bno" "3 < bno" "\<lbrakk>oi \<le> a; a + 4 \<le> oi + 64\<rbrakk> \<Longrightarrow> ld32 M0 a = ld32 m0 a"
    "\<lbrakk>y \<in> nodes n; \<And>i. y \<noteq> Data i\<rbrakk> \<Longrightarrow> block_of m0 oi y < bno \<and> 3 \<le> block_of m0 oi y \<and> pins (blocks s) (block_of m0 oi y) = 0"
    "\<lbrakk>y \<in> nodes n; k < 256\<rbrakk> \<Longrightarrow> ld32 M0 (1024 * block_of m0 oi y + 4 * k) = ld32 m0 (1024 * block_of m0 oi y + 4 * k)"
proof -
  note D = storingD [OF st]
  note s = D(1) and fok = D(4) and grab = D(5) and img = D(7) and free = D(13) and oi = D(8,9)
  have unp: "pins (blocks s) (block_of m0 oi y) = 0" if "y \<in> nodes n" "\<And>i. y \<noteq> Data i" for y
    using D(17) that by blast
  note room = D(14)
  have "finite (new_nodes n)" "new_nodes n \<noteq> {}" by (simp_all add: new_nodes_def)
  then have "0 < card (new_nodes n)" using card_gt_0_iff by blast
  then show bno: "bno < nblocks (blocks s)" using room by linarith
  then show small: "bno < 8192" using ready_facts(4) [OF s] by linarith
  show u: "unat (of_nat bno :: u32) = bno" unfolding unat_of_nat using small by (simp add: take_bit_nat_eq_self)
  note f = file_inode [OF fok]
  have bf: "bno \<in> free_set m0" using bno free by simp
  note bd = free_is_data [OF f(1) bf]
  show "no \<noteq> bno" "3 < bno" using f(5) [OF bd] oi by auto
  note g = grabbed_facts [OF grab]
  show okM: "disk_ok M0" by (rule g(1))
  have start: "freemap_end m0 \<le> 1024 * bno" using freemap_below_data [OF f(1)] bd by (simp add: data_block_def)
  then show endM: "freemap_end M0 \<le> 1024 * bno" using super_eq_simps(2) [OF g(2)] by simp
  show "ld32 M0 a = ld32 m0 a" if "oi \<le> a" "a + 4 \<le> oi + 64" by (rule grab_inode [OF fok mid_start [OF fok] grab that])
  show "ld32 M0 (1024 * block_of m0 oi y + 4 * k) = ld32 m0 (1024 * block_of m0 oi y + 4 * k)" if "y \<in> nodes n" "k < 256"
    by (rule grab_pointer_word [OF fok mid_start [OF fok] grab that])
  have "freemap_end m0 = 3072"
    using super_eq_simps(2) [OF overlay_disk(1) [OF okM endM, of d]] super_eq_simps(2) [OF g(2)] seal_disk(3) [OF s] img by simp
  then have low: "3 \<le> data_start m0" using freemap_below_data [OF f(1)] by simp
  have nb: "unat (os_nblocks m0) = nblocks (blocks s)"
    using super_eq_simps [OF overlay_disk(1) [OF okM endM, of d]] super_eq_simps [OF g(2)] seal_disk(7) [OF s] img by simp
  show "block_of m0 oi y < bno \<and> 3 \<le> block_of m0 oi y \<and> pins (blocks s) (block_of m0 oi y) = 0"
    if "y \<in> nodes n" "\<And>i. y \<noteq> Data i"
    using file_block_facts [OF fok that(1)] unp [OF that] free low nb by (simp add: data_block_def)
qed

lemma card_new_nodes:
  "n < 10 \<Longrightarrow> new_nodes n = {Data n}" "10 < n \<Longrightarrow> n < 266 \<Longrightarrow> new_nodes n = {Data n}"
  "266 < n \<Longrightarrow> (n - 266) mod 256 \<noteq> 0 \<Longrightarrow> new_nodes n = {Data n}" "n = 10 \<Longrightarrow> new_nodes n = {Data n, Ind}"
  "266 < n \<Longrightarrow> (n - 266) mod 256 = 0 \<Longrightarrow> new_nodes n = {Data n, Sub ((n - 266) div 256)}"
  "n = 266 \<Longrightarrow> new_nodes n = {Data n, Ind2, Sub 0}"
  by (auto simp: new_nodes_def)

lemma store_direct:
  assumes st: "storing s ib no io oi n b bno m0 M0 d" and n: "n < 10"
  shows "ends (storeblk (ib, io) b n) s (\<lambda>_. stored s oi n bno m0 d)"
proof -
  note D = storingD [OF st]
  note s = D(1-3) and fok = D(4) and grab = D(5) and clear = D(6) and img = D(7) and oi = D(8-11) and nx = D(12)
  note f = storing_facts [OF st]
  let ?off = "io + 16 + 4 * n"
  have off: "?off + 4 \<le> 1024" "4 dvd ?off" using n oi by (auto intro: dvd_add)
  have a: "oi + 16 + 4 * n = 1024 * no + ?off" using oi by simp
  have "linked m0 oi n bno (set_direct oi n (of_nat bno) M0)" using add_direct_linked [OF fok clear n grab] f(1) by simp
  moreover have "st32 (seal s) (1024 * no + ?off) (of_nat bno) = overlay bno d (set_direct oi n (of_nat bno) M0)"
    unfolding img set_direct_def a using off block_apart [OF f(6), of ?off] by (intro overlay_st32) simp_all
  ultimately have "stored s oi n bno m0 d s'"
    if "evolves s s' \<and> pins (blocks s') = pins (blocks s) \<and> seal s' = st32 (seal s) (1024 * no + ?off) (of_nat bno) \<and> nextb s' = nextb s"
    for s' using that nx n by (auto simp: stored_def card_new_nodes(1))
  then have "ends (poke ib ?off (of_nat bno)) s (\<lambda>_. stored s oi n bno m0 d)"
    by (rule ends_mono [OF poke_ends [OF s(1,2) oi(2) off(1), of "of_nat bno"]])
  then show ?thesis using n block_no_refs [OF s(1,3)] by (simp add: storeblk_def Let_def)
qed

lemma next_unpinned: "ready s \<Longrightarrow> pins (blocks s) (nextb s) = 0"
  using ready_facts(8) [of s "nextb s"] by blast

lemma storedI:
  assumes "evolves s s'" "pins (blocks s') = pins (blocks s)" "nextb s' = bno + card (new_nodes n)"
    "linked m0 oi n bno m1" "seal s' = overlay bno d m1"
  shows "stored s oi n bno m0 d s'"
  using assms by (auto simp: stored_def)

lemma store_single:
  assumes st: "storing s ib no io oi n b bno m0 M0 d" and n: "10 \<le> n" "n < 266"
  shows "ends (storeblk (ib, io) b n) s (\<lambda>_. stored s oi n bno m0 d)"
proof -
  note D = storingD [OF st]
  note f = storing_facts [OF st]
  let ?v = "of_nat bno :: u32" and ?off = "4 * (n - 10)"
  have off: "io + 56 + 4 \<le> 1024" "4 dvd io + 56" using D(10,11) by (auto intro: dvd_add)
  have at: "1024 * no + (io + 56) = oi + 56" using D(8) by simp
  have word: "ld32 M0 (oi + 56) = oi_indirect m0 oi" using f(8) [of "oi + 56"] by (simp add: oi_indirect_def)
  have room: "card (pinned (blocks s)) < 16" using D(16) by simp
  have eq: "ends (storeblk (ib, io) b n) s Q \<longleftrightarrow> ends (pointer_block_at ib (io + 56)) s
      (\<lambda>q s1. ends (andthen (poke q ?off ?v) (lift (putblk q))) s1 Q)" for Q
    using n block_no_refs [OF D(1,3)] by (simp add: storeblk_def Let_def)
  have off': "?off + 4 \<le> 1024" "4 dvd ?off" using n by simp_all
  show ?thesis
  proof (cases "n = 10")
    case True
    then have zero: "ld32 M0 (1024 * no + (io + 56)) = 0" using D(6) word unfolding at by (simp add: ptrs_clear_def)
    have nb: "nextb s < nblocks (blocks s)" using D(12,14) card_new_nodes(4) [OF True] by simp
    have c: "unat (of_nat (Suc bno) :: u32) = Suc bno" using seal_grab(3) [OF ready_facts(2) [OF D(1)] nb] D(12) by simp
    show ?thesis
      unfolding eq
    proof (rule ends_mono [OF pointer_over_new [OF D(1,2,9) off D(7) f(6,4,5) _ zero room nb]])
      fix q s1
      assume a: "evolves s s1 \<and> refs s1 q (nextb s) \<and> pins (blocks s1) = (pins (blocks s))(nextb s := 1) \<and> nextb s1 = Suc (nextb s) \<and>
        (\<exists>M3. grabbed M0 (of_nat (nextb s)) M3 \<and> seal s1 = overlay bno d (st32 M3 (1024 * no + (io + 56)) (of_nat (nextb s))))"
      then obtain M3 where M3: "grabbed M0 (of_nat (Suc bno)) M3" "seal s1 = overlay bno d (st32 M3 (oi + 56) (of_nat (Suc bno)))"
        using D(12) unfolding at by auto
      have s1: "evolves s s1" "refs s1 q (Suc bno)" "pins (blocks s1) = (pins (blocks s))(Suc bno := Suc (pins (blocks s) (Suc bno)))"
        "nextb s1 = Suc (Suc bno)" using a D(12) next_unpinned [OF D(1)] by simp_all
      have "linked m0 oi n (unat ?v) (st32 (st32 M3 (oi + 56) (of_nat (Suc bno))) (1024 * unat (of_nat (Suc bno) :: u32) + 4 * offset (Data n)) ?v)"
        by (rule add_under_new_linked [OF D(4,6,15) _ _ _ D(5) M3(1)]) (use True in \<open>simp_all add: card_new_nodes\<close>)
      then have l: "linked m0 oi n bno (st32 (st32 M3 (oi + 56) (of_nat (Suc bno))) (1024 * Suc bno + ?off) ?v)"
        unfolding c f(1) using n by simp
      have c3: "3 \<le> Suc bno" "Suc bno \<noteq> bno" using f(7) by simp_all
      have nx: "nextb s1 = bno + card (new_nodes n)" using s1(4) True by (simp add: card_new_nodes(4))
      show "ends (andthen (poke q ?off ?v) (lift (putblk q))) s1 (\<lambda>_. stored s oi n bno m0 d)"
        by (rule ends_mono [OF link_word [OF s1(1-3) c3(1) off' M3(2) c3(2)]], elim conjE, rule storedI [OF _ _ _ l])
          (simp_all add: nx)
    qed (use D(12) in simp)
  next
    case False
    then have big: "10 < n" and ind: "Ind \<in> nodes n" using n by auto
    let ?I = "block_of m0 oi Ind"
    have I: "?I < bno" "3 \<le> ?I" "pins (blocks s) ?I = 0" using f(9) [OF ind] by simp_all
    have w: "ld32 M0 (1024 * no + (io + 56)) = ld32 m0 (slot m0 oi Ind)" unfolding at word by (simp add: oi_indirect_def)
    have par: "parent (Data n) = Ind" "offset (Data n) = n - 10" using n by simp_all
    have nz: "ld32 m0 (slot m0 oi Ind) \<noteq> 0" by (rule pointer_zero [OF D(4) ind])
    have "new_nodes n = {Data n}" using big n by (intro card_new_nodes(2))
    then have l: "linked m0 oi n bno (st32 M0 (1024 * ?I + ?off) ?v)" and one: "card (new_nodes n) = 1"
      using add_under_old_linked [OF D(4,6) big D(15) _ _ D(5)] ind f(1) unfolding par by simp_all
    have less: "unat (ld32 m0 (slot m0 oi Ind)) < nextb s" "pins (blocks s) (unat (ld32 m0 (slot m0 oi Ind))) = 0"
      using I D(12) by (simp_all add: block_of_def)
    show ?thesis
      unfolding eq
    proof (rule ends_mono [OF pointer_over_old [OF D(1,2,9) off D(7) f(6) w nz less room]])
      fix q s1
      assume a: "evolves s s1 \<and> refs s1 q (unat (ld32 m0 (slot m0 oi Ind))) \<and>
        pins (blocks s1) = (pins (blocks s))(unat (ld32 m0 (slot m0 oi Ind)) := 1) \<and> nextb s1 = nextb s \<and> seal s1 = overlay bno d M0"
      then have s1: "evolves s s1" "refs s1 q ?I" "pins (blocks s1) = (pins (blocks s))(?I := Suc (pins (blocks s) ?I))"
        "nextb s1 = Suc bno" "seal s1 = overlay bno d M0" using D(12) I(3) by (simp_all add: block_of_def)
      show "ends (andthen (poke q ?off ?v) (lift (putblk q))) s1 (\<lambda>_. stored s oi n bno m0 d)"
        by (rule ends_mono [OF link_word [OF s1(1-3) I(2) off' s1(5)]])
          (use I s1(4) one in \<open>auto intro!: storedI [OF _ _ _ l]\<close>)
    qed
  qed
qed

text \<open>Blocks under the doubly indirect block: two pointer blocks are held.\<close>

lemma link_word2:
  assumes ev: "evolves s s1" "refs s1 q2 c2" "pins (blocks s1) = (pins (blocks s))(c2 := Suc (pins (blocks s) c2))"
    and ev2: "evolves s1 s2" "refs s2 q c" "pins (blocks s2) = (pins (blocks s1))(c := Suc (pins (blocks s1) c))"
    and c: "3 \<le> c" "off + 4 \<le> 1024" "4 dvd off" and img: "seal s2 = overlay bno d M" "c \<noteq> bno"
  shows "ends (andthen (poke q off v) (andthen (lift (putblk q)) (lift (putblk q2)))) s2 (\<lambda>_ s3. evolves s s3 \<and>
    pins (blocks s3) = pins (blocks s) \<and> nextb s3 = nextb s2 \<and> seal s3 = overlay bno d (st32 M (1024 * c + off) v))"
proof -
  have eq: "ends (andthen (poke q off v) (andthen (lift (putblk q)) (lift (putblk q2)))) s2 Q \<longleftrightarrow>
      ends (andthen (poke q off v) (lift (putblk q))) s2 (\<lambda>_ s3. ends (lift (putblk q2)) s3 Q)" for Q
    by simp
  show ?thesis
    unfolding eq
  proof (rule ends_mono [OF link_word [OF ev2 c img, of v]])
    fix u :: unit and s3
    assume a: "evolves s1 s3 \<and> pins (blocks s3) = pins (blocks s1) \<and> nextb s3 = nextb s2 \<and>
      seal s3 = overlay bno d (st32 M (1024 * c + off) v)"
    then have "evolves s s3" "refs s3 q2 c2" "pins (blocks s3) = (pins (blocks s))(c2 := Suc (pins (blocks s) c2))"
      using evolves_trans [OF ev(1)] evolves_refs [OF _ ev(2)] ev(3) by simp_all
    from put_ends [OF this] show "ends (lift (putblk q2)) s3 (\<lambda>_ s3. evolves s s3 \<and> pins (blocks s3) = pins (blocks s) \<and>
        nextb s3 = nextb s2 \<and> seal s3 = overlay bno d (st32 M (1024 * c + off) v))"
      by (rule ends_mono) (use a in simp)
  qed
qed

lemma storeblk_double:
  assumes "ready s" "refs s b bno" "266 \<le> n" "n < 65802"
  shows "ends (storeblk (ib, io) b n) s Q \<longleftrightarrow> ends (pointer_block_at ib (io + 60)) s (\<lambda>q2 s1.
    ends (pointer_block_at q2 (4 * ((n - 266) div 256))) s1 (\<lambda>q s2.
    ends (andthen (poke q (4 * ((n - 266) mod 256)) (of_nat bno)) (andthen (lift (putblk q)) (lift (putblk q2)))) s2 Q))"
  using assms block_no_refs [OF assms(1,2)] by (simp add: storeblk_def Let_def)

text \<open>The step through the doubly indirect block of a file that has it.\<close>

lemma held_double:
  assumes st: "storing s ib no io oi n b bno m0 M0 d" and n: "266 < n"
  shows "ends (pointer_block_at ib (io + 60)) s (\<lambda>q s1. evolves s s1 \<and> refs s1 q (block_of m0 oi Ind2) \<and>
    pins (blocks s1) = (pins (blocks s))(block_of m0 oi Ind2 := Suc (pins (blocks s) (block_of m0 oi Ind2))) \<and>
    nextb s1 = Suc bno \<and> seal s1 = overlay bno d M0 \<and> card (pinned (blocks s1)) < 16 \<and> nblocks (blocks s1) = nblocks (blocks s))"
proof -
  note D = storingD [OF st]
  note f = storing_facts [OF st]
  have ind: "Ind2 \<in> nodes n" using n by simp
  have I: "block_of m0 oi Ind2 < bno" "pins (blocks s) (block_of m0 oi Ind2) = 0" using f(9) [OF ind] by simp_all
  have off: "io + 60 + 4 \<le> 1024" "4 dvd io + 60" using D(10,11) by (auto intro: dvd_add)
  have at: "1024 * no + (io + 60) = oi + 60" using D(8) by simp
  have w: "ld32 M0 (1024 * no + (io + 60)) = ld32 m0 (slot m0 oi Ind2)" unfolding at using f(8) [of "oi + 60"] by simp
  have nz: "ld32 m0 (slot m0 oi Ind2) \<noteq> 0" by (rule pointer_zero [OF D(4) ind])
  have less: "unat (ld32 m0 (slot m0 oi Ind2)) < nextb s" "pins (blocks s) (unat (ld32 m0 (slot m0 oi Ind2))) = 0"
    using I D(12) by (simp_all add: block_of_def)
  have room: "card (pinned (blocks s)) < 16" using D(16) by simp
  have cards: "card (pinned (blocks s1)) < 16" if "pins (blocks s1) = (pins (blocks s))(x := 1)" for s1 x
    using card_pins [OF ready_facts(1) [OF D(1)] that] D(16) by linarith
  show ?thesis
    by (rule ends_mono [OF pointer_over_old [OF D(1,2,9) off D(7) f(6) w nz less room]])
      (use I D(12) cards in \<open>auto simp: block_of_def evolves_def\<close>)
qed

lemma store_double_old:
  assumes st: "storing s ib no io oi n b bno m0 M0 d" and n: "266 < n" "(n - 266) mod 256 \<noteq> 0"
  shows "ends (storeblk (ib, io) b n) s (\<lambda>_. stored s oi n bno m0 d)"
proof -
  note D = storingD [OF st]
  note f = storing_facts [OF st]
  let ?j = "(n - 266) div 256" and ?k = "(n - 266) mod 256" and ?v = "of_nat bno :: u32"
  have j: "?j < 256" using D(15) by linarith
  have "266 + 256 * ?j + ?k = n" using n(1) by simp
  then have sub: "Sub ?j \<in> nodes n" and ind: "Ind2 \<in> nodes n" using n by (simp_all, linarith)
  let ?I = "block_of m0 oi Ind2" and ?S = "block_of m0 oi (Sub ?j)"
  have S: "?S < bno" "3 \<le> ?S" "pins (blocks s) ?S = 0" and I: "3 \<le> ?I" "?I < bno" using f(9) [OF sub] f(9) [OF ind] by simp_all
  have "?S \<noteq> ?I" using D(4) sub ind by (auto simp: file_ok_def dest: inj_onD)
  have slot: "slot m0 oi (Sub ?j) = 1024 * ?I + 4 * ?j" using node_address [OF D(4) ind] by (simp add: oi_indirect2_def)
  have w: "ld32 M0 (1024 * ?I + 4 * ?j) = ld32 m0 (slot m0 oi (Sub ?j))" using f(10) [OF ind j] unfolding slot .
  have nz: "ld32 m0 (slot m0 oi (Sub ?j)) \<noteq> 0" by (rule pointer_zero [OF D(4) sub])
  have off: "4 * ?j + 4 \<le> 1024" "4 dvd 4 * ?j" using j by simp_all
  have "?k < 256" by simp
  then have off': "4 * ?k + 4 \<le> 1024" "4 dvd 4 * ?k" by linarith simp
  have par: "parent (Data n) = Sub ?j" "offset (Data n) = ?k" using n by simp_all
  have nodes: "new_nodes n = {Data n}" by (rule card_new_nodes(3) [OF n])
  have "linked m0 oi n (unat ?v) (st32 M0 (1024 * block_of m0 oi (parent (Data n)) + 4 * offset (Data n)) ?v)"
    by (rule add_under_old_linked [OF D(4,6) _ D(15) _ nodes D(5)]) (use n sub in \<open>simp_all del: nodes_simps\<close>)
  then have l: "linked m0 oi n bno (st32 M0 (1024 * ?S + 4 * ?k) ?v)" unfolding par f(1) .
  show ?thesis
    unfolding storeblk_double [OF D(1,3) less_imp_le [OF n(1)] D(15)]
  proof (rule ends_mono [OF held_double [OF st n(1)]])
    fix q2 s1
    assume a: "evolves s s1 \<and> refs s1 q2 ?I \<and> pins (blocks s1) = (pins (blocks s))(?I := Suc (pins (blocks s) ?I)) \<and>
      nextb s1 = Suc bno \<and> seal s1 = overlay bno d M0 \<and> card (pinned (blocks s1)) < 16 \<and> nblocks (blocks s1) = nblocks (blocks s)"
    then have s1: "evolves s s1" "refs s1 q2 ?I" "pins (blocks s1) = (pins (blocks s))(?I := Suc (pins (blocks s) ?I))"
      "nextb s1 = Suc bno" "seal s1 = overlay bno d M0" "card (pinned (blocks s1)) < 16" by simp_all
    have less: "unat (ld32 m0 (slot m0 oi (Sub ?j))) < nextb s1" "pins (blocks s1) (unat (ld32 m0 (slot m0 oi (Sub ?j)))) = 0"
      using S s1(3,4) \<open>?S \<noteq> ?I\<close> by (simp_all add: block_of_def)
    have apart: "?I \<noteq> bno" "?S \<noteq> bno" using I S by simp_all
    note old = pointer_over_old [OF evolves_ready [OF s1(1)] s1(2) I(1) off s1(5) apart(1) w nz less s1(6)]
    show "ends (pointer_block_at q2 (4 * ?j)) s1 (\<lambda>q s2. ends (andthen (poke q (4 * ?k) ?v)
        (andthen (lift (putblk q)) (lift (putblk q2)))) s2 (\<lambda>_. stored s oi n bno m0 d))"
    proof (rule ends_mono [OF old])
      fix q s2
      assume "evolves s1 s2 \<and> refs s2 q (unat (ld32 m0 (slot m0 oi (Sub ?j)))) \<and>
        pins (blocks s2) = (pins (blocks s1))(unat (ld32 m0 (slot m0 oi (Sub ?j))) := 1) \<and> nextb s2 = nextb s1 \<and> seal s2 = overlay bno d M0"
      then have s2: "evolves s1 s2" "refs s2 q ?S" "pins (blocks s2) = (pins (blocks s1))(?S := Suc (pins (blocks s1) ?S))"
        "nextb s2 = bno + card (new_nodes n)" "seal s2 = overlay bno d M0" using less(2) s1(4) nodes by (simp_all add: block_of_def)
      show "ends (andthen (poke q (4 * ?k) ?v) (andthen (lift (putblk q)) (lift (putblk q2)))) s2 (\<lambda>_. stored s oi n bno m0 d)"
        by (rule ends_mono [OF link_word2 [OF s1(1-3) s2(1-3) S(2) off' s2(5) apart(2)]], elim conjE, rule storedI [OF _ _ _ l])
          (simp_all add: s2(4))
    qed
  qed
qed

lemma store_double_sub:
  assumes st: "storing s ib no io oi n b bno m0 M0 d" and n: "266 < n" "(n - 266) mod 256 = 0"
  shows "ends (storeblk (ib, io) b n) s (\<lambda>_. stored s oi n bno m0 d)"
proof -
  note D = storingD [OF st]
  note f = storing_facts [OF st]
  let ?j = "(n - 266) div 256" and ?k = "(n - 266) mod 256" and ?v = "of_nat bno :: u32" and ?c = "Suc bno"
  have j: "?j < 256" using D(15) by linarith
  have "266 + 256 * ?j + ?k = n" using n(1) by simp
  then have end_j: "n \<le> 266 + 256 * ?j" and ind: "Ind2 \<in> nodes n" using n by simp_all
  let ?I = "block_of m0 oi Ind2"
  have I: "3 \<le> ?I" "?I < bno" using f(9) [OF ind] by simp_all
  have w: "ld32 M0 (1024 * ?I + 4 * ?j) = 0" using f(10) [OF ind j] clear_words [OF D(4,6) n(1) j end_j] by simp
  have off: "4 * ?j + 4 \<le> 1024" "4 dvd 4 * ?j" using j by simp_all
  have off': "4 * ?k + 4 \<le> 1024" "4 dvd 4 * ?k" using n(2) by simp_all
  have par: "parent (Data n) = Sub ?j" "offset (Data n) = ?k" using n by simp_all
  have nodes: "new_nodes n = {Data n, Sub ?j}" by (rule card_new_nodes(5) [OF n])
  have nb: "nextb s < nblocks (blocks s)" using D(12,14) nodes by simp
  have c: "unat (of_nat ?c :: u32) = ?c" using seal_grab(3) [OF ready_facts(2) [OF D(1)] nb] D(12) by simp
  have c3: "3 \<le> ?c" "?c \<noteq> bno" using f(7) by simp_all
  show ?thesis
    unfolding storeblk_double [OF D(1,3) less_imp_le [OF n(1)] D(15)]
  proof (rule ends_mono [OF held_double [OF st n(1)]])
    fix q2 s1
    assume a: "evolves s s1 \<and> refs s1 q2 ?I \<and> pins (blocks s1) = (pins (blocks s))(?I := Suc (pins (blocks s) ?I)) \<and>
      nextb s1 = Suc bno \<and> seal s1 = overlay bno d M0 \<and> card (pinned (blocks s1)) < 16 \<and> nblocks (blocks s1) = nblocks (blocks s)"
    then have s1: "evolves s s1" "refs s1 q2 ?I" "pins (blocks s1) = (pins (blocks s))(?I := Suc (pins (blocks s) ?I))"
      "nextb s1 = ?c" "seal s1 = overlay bno d M0" "card (pinned (blocks s1)) < 16" by simp_all
    have bno: "bno < nextb s1" using s1(4) by simp
    have nb1: "nextb s1 < nblocks (blocks s1)" using a nb D(12) by simp
    have apart: "?I \<noteq> bno" using I by simp
    note new = pointer_over_new [OF evolves_ready [OF s1(1)] s1(2) I(1) off s1(5) apart f(4,5) bno w s1(6) nb1]
    show "ends (pointer_block_at q2 (4 * ?j)) s1 (\<lambda>q s2. ends (andthen (poke q (4 * ?k) ?v)
        (andthen (lift (putblk q)) (lift (putblk q2)))) s2 (\<lambda>_. stored s oi n bno m0 d))"
    proof (rule ends_mono [OF new])
      fix q s2
      assume b: "evolves s1 s2 \<and> refs s2 q (nextb s1) \<and> pins (blocks s2) = (pins (blocks s1))(nextb s1 := 1) \<and>
        nextb s2 = Suc (nextb s1) \<and> (\<exists>M3. grabbed M0 (of_nat (nextb s1)) M3 \<and>
        seal s2 = overlay bno d (st32 M3 (1024 * ?I + 4 * ?j) (of_nat (nextb s1))))"
      then obtain M3 where M3: "grabbed M0 (of_nat ?c) M3" "seal s2 = overlay bno d (st32 M3 (1024 * ?I + 4 * ?j) (of_nat ?c))"
        unfolding s1(4) by auto
      have s2: "evolves s1 s2" "refs s2 q ?c" "pins (blocks s2) = (pins (blocks s1))(?c := Suc (pins (blocks s1) ?c))"
        using b s1(4) next_unpinned [OF evolves_ready [OF s1(1)]] by simp_all
      have nx: "nextb s2 = bno + card (new_nodes n)" using b s1(4) nodes by simp
      have "linked m0 oi n (unat ?v) (st32 (st32 M3 (1024 * ?I + 4 * ?j) (of_nat ?c))
          (1024 * unat (of_nat ?c :: u32) + 4 * offset (Data n)) ?v)"
        by (rule add_under_new_linked [OF D(4,6,15) _ _ _ D(5) M3(1)]) (use n nodes in simp_all)
      then have l: "linked m0 oi n bno (st32 (st32 M3 (1024 * ?I + 4 * ?j) (of_nat ?c)) (1024 * ?c + 4 * ?k) ?v)"
        unfolding c f(1) par .
      show "ends (andthen (poke q (4 * ?k) ?v) (andthen (lift (putblk q)) (lift (putblk q2)))) s2 (\<lambda>_. stored s oi n bno m0 d)"
        by (rule ends_mono [OF link_word2 [OF s1(1-3) s2 c3(1) off' M3(2) c3(2)]], elim conjE, rule storedI [OF _ _ _ l])
          (simp_all add: nx)
    qed
  qed
qed

lemma store_double_first:
  assumes st: "storing s ib no io oi n b bno m0 M0 d" and n: "n = 266"
  shows "ends (storeblk (ib, io) b n) s (\<lambda>_. stored s oi n bno m0 d)"
proof -
  note D = storingD [OF st]
  note f = storing_facts [OF st]
  let ?v = "of_nat bno :: u32" and ?c2 = "Suc bno" and ?c = "Suc (Suc bno)"
  have off: "io + 60 + 4 \<le> 1024" "4 dvd io + 60" using D(10,11) by (auto intro: dvd_add)
  have at: "1024 * no + (io + 60) = oi + 60" using D(8) by simp
  have "ld32 M0 (oi + 60) = oi_indirect2 m0 oi" using f(8) [of "oi + 60"] by (simp add: oi_indirect2_def)
  then have zero: "ld32 M0 (1024 * no + (io + 60)) = 0" using D(6) n unfolding at by (simp add: ptrs_clear_def)
  have room: "card (pinned (blocks s)) < 16" using D(16) by simp
  have nodes: "card (new_nodes n) = 3" using card_new_nodes(6) [OF n] by simp
  have nb: "nextb s < nblocks (blocks s)" "Suc (nextb s) < nblocks (blocks s)" using D(12,14) nodes by simp_all
  have small: "nblocks (blocks s) \<le> 8192" by (rule ready_facts(4) [OF D(1)])
  have c: "unat (of_nat ?c2 :: u32) = ?c2" "unat (of_nat ?c :: u32) = ?c"
    unfolding unat_of_nat using nb D(12) small by (simp_all add: take_bit_nat_eq_self del: of_nat_Suc)
  have j: "(n - 266) div 256 = 0" "(n - 266) mod 256 = 0" using n by simp_all
  have new: "ends (pointer_block_at ib (io + 60)) s (\<lambda>q s1. evolves s s1 \<and> refs s1 q ?c2 \<and>
      pins (blocks s1) = (pins (blocks s))(?c2 := Suc (pins (blocks s) ?c2)) \<and> nextb s1 = ?c \<and>
      (\<exists>M3. grabbed M0 (of_nat ?c2) M3 \<and> seal s1 = overlay bno d (st32 M3 (oi + 60) (of_nat ?c2))))"
    by (rule ends_mono [OF pointer_over_new [OF D(1,2,9) off D(7) f(6,4,5) _ zero room nb(1)]])
      (use D(12) next_unpinned [OF D(1)] in \<open>simp_all add: at del: of_nat_Suc\<close>)
  show ?thesis
    unfolding storeblk_double [OF D(1,3) eq_imp_le [OF n [symmetric]] D(15)] j
  proof (rule ends_mono [OF new])
    fix q2 s1
    assume a: "evolves s s1 \<and> refs s1 q2 ?c2 \<and> pins (blocks s1) = (pins (blocks s))(?c2 := Suc (pins (blocks s) ?c2)) \<and>
      nextb s1 = ?c \<and> (\<exists>M3. grabbed M0 (of_nat ?c2) M3 \<and> seal s1 = overlay bno d (st32 M3 (oi + 60) (of_nat ?c2)))"
    then obtain M3 where M3: "grabbed M0 (of_nat ?c2) M3" "seal s1 = overlay bno d (st32 M3 (oi + 60) (of_nat ?c2))" by blast
    have s1: "evolves s s1" "refs s1 q2 ?c2" "pins (blocks s1) = (pins (blocks s))(?c2 := Suc (pins (blocks s) ?c2))"
      "nextb s1 = ?c" using a by simp_all
    let ?M4 = "st32 M3 (oi + 60) (of_nat ?c2)"
    note g = grabbed_facts [OF M3(1)]
    have end3: "freemap_end M3 = freemap_end M0" by (rule super_eq_simps(2) [OF g(2)])
    have endoi: "freemap_end M0 \<le> oi + 60" using file_inode(3) [OF D(4)] super_eq_simps(2) [OF grabbed_facts(2) [OF D(5)]] by simp
    note o = OspfsGrow.poke [OF g(1), of "oi + 60" "of_nat ?c2", unfolded end3, OF endoi]
    have img: "disk_ok ?M4" "freemap_end ?M4 \<le> 1024 * bno" using o super_eq_simps(2) [OF o(1)] end3 f(5) by simp_all
    have "oi + 64 \<le> 1024 * ?c2" using file_inode(5) [OF D(4) free_is_data [OF file_inode(1) [OF D(4)]], of bno] f(2) D(13) by simp
    then have w: "ld32 ?M4 (1024 * ?c2 + 4 * 0) = 0"
      using grabbed_zero [OF M3(1), of "1024 * ?c2"] c(1) by (simp add: ld32_st32_apart del: of_nat_Suc)
    have room1: "card (pinned (blocks s1)) < 16" using card_pins [OF ready_facts(1) [OF D(1)] s1(3)] D(16) by linarith
    have nb1: "nextb s1 < nblocks (blocks s1)" using s1 nb D(12) by (simp add: evolves_def)
    have bno: "bno < nextb s1" "?c2 \<noteq> bno" "3 \<le> ?c2" using s1(4) f(7) by simp_all
    have off': "4 * 0 + 4 \<le> (1024 :: nat)" "4 dvd 4 * (0 :: nat)" by simp_all
    note new2 = pointer_over_new [OF evolves_ready [OF s1(1)] s1(2) bno(3) off' M3(2) bno(2) img bno(1) w room1 nb1]
    show "ends (pointer_block_at q2 (4 * 0)) s1 (\<lambda>q s2. ends (andthen (poke q (4 * 0) ?v)
        (andthen (lift (putblk q)) (lift (putblk q2)))) s2 (\<lambda>_. stored s oi n bno m0 d))"
    proof (rule ends_mono [OF new2])
      fix q s2
      assume b: "evolves s1 s2 \<and> refs s2 q (nextb s1) \<and> pins (blocks s2) = (pins (blocks s1))(nextb s1 := 1) \<and>
        nextb s2 = Suc (nextb s1) \<and> (\<exists>M5. grabbed ?M4 (of_nat (nextb s1)) M5 \<and>
        seal s2 = overlay bno d (st32 M5 (1024 * ?c2 + 4 * 0) (of_nat (nextb s1))))"
      then obtain M5 where M5: "grabbed ?M4 (of_nat ?c) M5" "seal s2 = overlay bno d (st32 M5 (1024 * ?c2 + 4 * 0) (of_nat ?c))"
        unfolding s1(4) by blast
      have s2: "evolves s1 s2" "refs s2 q ?c" "pins (blocks s2) = (pins (blocks s1))(?c := Suc (pins (blocks s1) ?c))"
        using b s1(4) next_unpinned [OF evolves_ready [OF s1(1)]] by simp_all
      have nx: "nextb s2 = bno + card (new_nodes n)" using b s1(4) nodes by simp
      have c3: "3 \<le> ?c" "?c \<noteq> bno" by (use f(7) in simp_all)
      have l: "linked m0 oi n bno (st32 (st32 M5 (1024 * ?c2 + 4 * 0) (of_nat ?c)) (1024 * ?c + 4 * 0) ?v)"
        using add_first_double_linked [OF D(4,6) n D(5) M3(1) M5(1)] unfolding c f(1) by simp
      show "ends (andthen (poke q (4 * 0) ?v) (andthen (lift (putblk q)) (lift (putblk q2)))) s2 (\<lambda>_. stored s oi n bno m0 d)"
        by (rule ends_mono [OF link_word2 [OF s1(1-3) s2 c3(1) off' M5(2) c3(2)]], elim conjE, rule storedI [OF _ _ _ l])
          (simp_all only: nx)
    qed
  qed
qed

text \<open>All ranges of \<open>storeblk\<close>.\<close>

lemma storeblk_links:
  assumes st: "storing s ib no io oi n b bno m0 M0 d"
  shows "ends (storeblk (ib, io) b n) s (\<lambda>_. stored s oi n bno m0 d)"
proof -
  consider "n < 10" | "10 \<le> n" "n < 266" | "n = 266" | "266 < n" "(n - 266) mod 256 = 0" | "266 < n" "(n - 266) mod 256 \<noteq> 0"
    by linarith
  then show ?thesis
    using store_direct [OF st] store_single [OF st] store_double_first [OF st] store_double_sub [OF st] store_double_old [OF st]
    by cases
qed

end
