(* ===== verification/FormatAppend.thy ===== *)
theory FormatAppend
  imports FormatLink
begin

text \<open>
  What a new block does to the file it is linked into, and that no other file changes: the file
  keeps its blocks and bytes, its new block has the contents that were put in, and a file with
  other blocks is the same file with the same bytes.
\<close>

section \<open>The bytes of a file\<close>

definition owns :: "mem \<Rightarrow> nat \<Rightarrow> nat \<Rightarrow> nat \<Rightarrow> bool" where
  "owns m oi n x \<longleftrightarrow> oi \<le> x \<and> x < oi + 64 \<or> (\<exists>y \<in> nodes n. in_block (block_of m oi y) x)"

definition same_file :: "mem \<Rightarrow> mem \<Rightarrow> nat \<Rightarrow> nat \<Rightarrow> bool" where
  "same_file m m' oi n \<longleftrightarrow> file_ok m' oi n \<and> (\<forall>x. owns m oi n x \<longrightarrow> m' x = m x) \<and>
     (\<forall>y \<in> nodes n. block_of m' oi y = block_of m oi y) \<and> (ptrs_clear m oi n \<longrightarrow> ptrs_clear m' oi n)"

lemma in_block_words:
  assumes "in_block b a" "4 dvd a" "k < 4"
  shows "in_block b (a + k)"
  using in_block_word_step [OF assms(2,3)] assms(1) by simp

lemma ld32_frame:
  assumes "\<And>k. k < 4 \<Longrightarrow> m' (a + k) = m (a + k)"
  shows "ld32 m' a = ld32 m a"
  using assms [of 0] assms [of 1] assms [of 2] assms [of 3] by (intro ld32_cong) simp_all

text \<open>The slots of a file are in the second part of its inode and in its pointer blocks.\<close>

lemma file_frame:
  assumes fok: "file_ok m oi n" and eq: "super_eq m m'" "disk_ok m'"
    and inode: "\<forall>x. oi + 16 \<le> x \<longrightarrow> x < oi + 64 \<longrightarrow> m' x = m x"
    and ptrs: "\<forall>x. (\<exists>y \<in> nodes n. (\<forall>i. y \<noteq> Data i) \<and> in_block (block_of m oi y) x) \<longrightarrow> m' x = m x"
    and used: "\<forall>y \<in> nodes n. block_of m oi y \<notin> free_set m'"
  shows "file_ok m' oi n" "y \<in> nodes n \<Longrightarrow> block_of m' oi y = block_of m oi y"
    "k < 1024 * n \<Longrightarrow> byte_addr m' oi k = byte_addr m oi k" "ptrs_clear m oi n \<Longrightarrow> ptrs_clear m' oi n"
proof -
  have ptr: "m' x = m x" if "y \<in> nodes n" "\<forall>i. y \<noteq> Data i" "in_block (block_of m oi y) x" for x y
    using ptrs that by blast
  have word: "ld32 m' a = ld32 m a" if "oi + 16 \<le> a" "a + 4 \<le> oi + 64" for a
    by (rule ld32_frame; rule inode [rule_format]; use that in simp)
  have pword: "ld32 m' (1024 * block_of m oi y + 4 * k) = ld32 m (1024 * block_of m oi y + 4 * k)"
    if "y \<in> nodes n" "\<forall>i. y \<noteq> Data i" "k < 256" for y k
    by (rule ld32_frame; rule ptr [OF that(1,2)]; use that(3) in \<open>simp add: in_block_def\<close>)
  have slots: "ld32 m' (slot m oi x) = ld32 m (slot m oi x)" if x: "x \<in> nodes n" for x
  proof -
    consider "oi + 16 \<le> slot m oi x" "slot m oi x + 4 \<le> oi + 64"
      | y where "y \<in> nodes n" "\<forall>b. y \<noteq> Data b" "1024 * block_of m oi y \<le> slot m oi x"
        "slot m oi x + 4 \<le> 1024 * block_of m oi y + 1024"
      using slot_place [OF fok x] by blast
    then show ?thesis
    proof cases
      case (2 y)
      then show ?thesis by (intro ld32_frame ptr [OF 2(1,2)]) (simp add: in_block_def)
    qed (rule word)
  qed
  note frame = slot_frame [of n m' m oi, OF slots]
  show blocks: "block_of m' oi y = block_of m oi y" if "y \<in> nodes n" for y by (rule frame(2) [OF _ that])
  have "inj_on (block_of m' oi) (nodes n)" using fok blocks by (simp add: file_ok_def cong: inj_on_cong)
  then show "file_ok m' oi n"
    using fok eq(2) blocks used super_eq_simps [OF eq(1)] by (simp add: file_ok_def)
  show "byte_addr m' oi k = byte_addr m oi k" if "k < 1024 * n"
    using blocks [of "Data (k div 1024)"] that by (simp add: byte_addr_def less_mult_imp_div_less mult.commute)
  have ind: "oi_indirect m' oi = oi_indirect m oi" "oi_indirect2 m' oi = oi_indirect2 m oi"
    using word [of "oi + 56"] word [of "oi + 60"] by (simp_all add: oi_indirect_def oi_indirect2_def)
  have "block_of m' oi (Sub j) = block_of m oi (Sub j)" if "266 < n" "j < 256" for j
  proof -
    have n2: "Ind2 \<in> nodes n" using that by simp
    have "slot m oi (Sub j) = 1024 * block_of m oi Ind2 + 4 * j" using node_address [OF fok n2] by (simp add: oi_indirect2_def)
    then show ?thesis using pword [OF n2 _ that(2)] ind by (simp add: block_of_def)
  qed
  then show "ptrs_clear m oi n \<Longrightarrow> ptrs_clear m' oi n" using ind by (simp add: ptrs_clear_def)
qed

lemma same_fileI:
  assumes fok: "file_ok m oi n" and eq: "super_eq m m'" "disk_ok m'" and own: "\<And>x. owns m oi n x \<Longrightarrow> m' x = m x"
    and used: "\<And>y. y \<in> nodes n \<Longrightarrow> block_of m oi y \<notin> free_set m'"
  shows "same_file m m' oi n"
proof -
  have inode: "\<forall>x. oi + 16 \<le> x \<longrightarrow> x < oi + 64 \<longrightarrow> m' x = m x" using own by (simp add: owns_def)
  have ptr: "\<forall>x. (\<exists>y \<in> nodes n. (\<forall>i. y \<noteq> Data i) \<and> in_block (block_of m oi y) x) \<longrightarrow> m' x = m x"
    using own by (auto simp: owns_def)
  have "\<forall>y \<in> nodes n. block_of m oi y \<notin> free_set m'" using used by blast
  note f = file_frame [OF fok eq inode ptr this]
  show ?thesis using f own by (simp add: same_file_def)
qed

lemma same_file_refl: "file_ok m oi n \<Longrightarrow> same_file m m oi n"
  by (simp add: same_file_def)

lemma same_file_trans:
  assumes "same_file m m1 oi n" "same_file m1 m2 oi n"
  shows "same_file m m2 oi n"
proof -
  have "owns m1 oi n x = owns m oi n x" for x using assms(1) by (simp add: same_file_def owns_def)
  then show ?thesis using assms by (simp add: same_file_def)
qed

lemma same_file_bytes:
  assumes "same_file m m' oi n" "k < 1024 * n"
  shows "byte_addr m' oi k = byte_addr m oi k" "m' (byte_addr m oi k) = m (byte_addr m oi k)"
proof -
  have node: "Data (k div 1024) \<in> nodes n" using assms(2) by (simp add: less_mult_imp_div_less mult.commute)
  then show "byte_addr m' oi k = byte_addr m oi k" using assms(1) by (simp add: same_file_def byte_addr_def)
  have "in_block (block_of m oi (Data (k div 1024))) (byte_addr m oi k)" by (simp add: in_block_def byte_addr_def)
  then have "owns m oi n (byte_addr m oi k)" unfolding owns_def using node by blast
  then show "m' (byte_addr m oi k) = m (byte_addr m oi k)" using assms(1) by (simp add: same_file_def)
qed

lemma same_file_words:
  assumes "same_file m m' oi n" "oi \<le> a" "a + 4 \<le> oi + 64"
  shows "ld32 m' a = ld32 m a"
proof (rule ld32_frame)
  fix k :: nat
  assume "k < 4"
  then show "m' (a + k) = m (a + k)" using assms by (simp add: same_file_def owns_def)
qed

section \<open>A new block\<close>

definition appended :: "mem \<Rightarrow> nat \<Rightarrow> nat \<Rightarrow> nat \<Rightarrow> mem \<Rightarrow> mem \<Rightarrow> bool" where
  "appended m oi n b d m' \<longleftrightarrow> file_ok m' oi (Suc n) \<and> ptrs_clear m' oi (Suc n) \<and> super_eq m m' \<and>
     (\<forall>i < 4. ld32 m' (oi + 4 * i) = ld32 m (oi + 4 * i)) \<and>
     (\<forall>y \<in> nodes n. block_of m' oi y = block_of m oi y) \<and> block_of m' oi (Data n) = b \<and>
     block_of m' oi ` new_nodes n \<subseteq> free_set m \<and> free_set m' = free_set m - block_of m' oi ` new_nodes n \<and>
     (\<forall>x. freemap_end m \<le> x \<longrightarrow> \<not> own_bytes m oi n x \<longrightarrow> m' x = m x) \<and> (\<forall>x. in_block b x \<longrightarrow> m' x = d x)"

lemma linked_appended:
  assumes fok: "file_ok m oi n" "n < 65802" and l: "linked m oi n b m1"
  shows "appended m oi n b d (overlay b d m1)"
proof -
  let ?m = "overlay b d m1"
  have l': "block_of m1 oi (Data n) = b" "mid m oi n (block_of m1 oi ` new_nodes n) m1" "inj_on (block_of m1 oi) (new_nodes n)"
    "oi_size m1 oi = oi_size m oi" "oi_ftype m1 oi = oi_ftype m oi"
    "ld32 m1 (oi + 8) = ld32 m (oi + 8)" "ld32 m1 (oi + 12) = ld32 m (oi + 12)" "ptrs_clear m1 oi (Suc n)"
    using l by (simp_all add: linked_def)
  note ext = extend [OF fok l'(2) refl l'(3)]
  note f = mid_facts [OF l'(2)]
  have node: "Data n \<in> nodes (Suc n)" by simp
  have high: "oi + 64 \<le> 1024 * b" using file_inode(5) [OF ext(1) file_block_facts(1) [OF ext(1) node]] l'(1) by simp
  then have "freemap_end m1 \<le> 1024 * b" using file_inode(3) [OF ext(1)] by simp
  note o = overlay_disk [OF f(1) this, of d]
  have out: "?m x = m1 x" if "\<not> in_block b x" for x using that by (rule overlay_byte)
  have inode: "?m x = m1 x" if "oi \<le> x" "x < oi + 64" for x using that high by (intro out) (simp add: in_block_def)
  have ptr1: "?m x = m1 x" if ex: "\<exists>y \<in> nodes (Suc n). (\<forall>i. y \<noteq> Data i) \<and> in_block (block_of m1 oi y) x" for x
  proof (rule out)
    obtain y where that: "y \<in> nodes (Suc n)" "\<forall>i. y \<noteq> Data i" "in_block (block_of m1 oi y) x" using ex by blast
    have "block_of m1 oi y \<noteq> b" using ext(1) that(1,2) node l'(1) by (auto simp: file_ok_def dest: inj_onD)
    then show "\<not> in_block b x" using that(3) by (auto simp: in_block_def)
  qed
  have used: "\<forall>y \<in> nodes (Suc n). block_of m1 oi y \<notin> free_set ?m" using ext(1) o(2) by (simp add: file_ok_def)
  have inode': "\<forall>x. oi + 16 \<le> x \<longrightarrow> x < oi + 64 \<longrightarrow> ?m x = m1 x" using inode by simp
  have ptr: "\<forall>x. (\<exists>y \<in> nodes (Suc n). (\<forall>i. y \<noteq> Data i) \<and> in_block (block_of m1 oi y) x) \<longrightarrow> ?m x = m1 x"
    using ptr1 by blast
  note g = file_frame [OF ext(1) o(1,3) inode' ptr used]
  have "ld32 m1 (oi + 4 * i) = ld32 m (oi + 4 * i)" if "i < 4" for i
    using that l'(4-7) by (auto simp: oi_size_def oi_ftype_def less_Suc_eq numeral_eq_Suc)
  moreover have "ld32 ?m (oi + 4 * i) = ld32 m1 (oi + 4 * i)" if "i < 4" for i
    by (rule ld32_frame; rule inode; use that in simp)
  ultimately have words: "\<forall>i < 4. ld32 ?m (oi + 4 * i) = ld32 m (oi + 4 * i)" by simp
  have new: "block_of ?m oi ` new_nodes n = block_of m1 oi ` new_nodes n" by (rule image_cong) (auto intro: g(2) simp: nodes_Suc)
  have old: "block_of ?m oi y = block_of m oi y" if "y \<in> nodes n" for y
    using g(2) [of y] ext(2) [OF that] that by (simp add: nodes_Suc)
  have b: "b \<in> free_set m" using f(4) l'(1) by (auto simp: new_nodes_def)
  have frame: "?m x = m x" if "freemap_end m \<le> x" "\<not> own_bytes m oi n x" for x
  proof -
    have "\<not> in_block b x" using that(2) own_free [OF b] by blast
    then show ?thesis using out l'(2) that by (simp add: mid_def)
  qed
  show ?thesis
    unfolding appended_def new
    using g(1,4) l'(8) super_eq_trans [OF f(2) o(1)] words old g(2) [OF node] l'(1) f(3,4) o(2) frame
    by (simp add: overlay_def)
qed

lemma not_own_block:
  assumes fok: "file_ok m oi n" and x: "in_block c x" and c: "data_block m c" "c \<notin> free_set m"
    and ptr: "\<And>y. \<lbrakk>y \<in> nodes n; \<forall>i. y \<noteq> Data i\<rbrakk> \<Longrightarrow> block_of m oi y \<noteq> c"
  shows "\<not> own_bytes m oi n x" "freemap_end m \<le> x"
proof -
  have high: "oi + 64 \<le> 1024 * c" by (rule file_inode(5) [OF fok c(1)])
  then show "freemap_end m \<le> x" using file_inode(3) [OF fok] x by (simp add: in_block_def)
  show "\<not> own_bytes m oi n x"
  proof
    assume "own_bytes m oi n x"
    then consider "x < oi + 64" | b where "in_block b x" "pointer_block m oi n b \<or> b \<in> free_set m" by (auto simp: own_bytes_def)
    then show False
    proof cases
      case 1
      then show False using x high by (simp add: in_block_def)
    next
      case (2 b)
      have "b = c" using 2(1) x by (auto simp: in_block_def)
      then show False using 2(2) c(2) ptr by (auto simp: pointer_block_def)
    qed
  qed
qed

text \<open>The bytes of a file's data blocks are not among the bytes that a new block may change.\<close>

lemma data_not_own:
  assumes fok: "file_ok m oi n" and i: "i < n" and x: "in_block (block_of m oi (Data i)) x"
  shows "\<not> own_bytes m oi n x" "freemap_end m \<le> x"
proof -
  have node: "Data i \<in> nodes n" using i by simp
  have "block_of m oi y \<noteq> block_of m oi (Data i)" if "y \<in> nodes n" "\<forall>j. y \<noteq> Data j" for y
    using fok node that by (auto simp: file_ok_def dest: inj_onD)
  note no = not_own_block [OF fok x file_block_facts(1,2) [OF fok node] this]
  show "\<not> own_bytes m oi n x" "freemap_end m \<le> x" by (rule no; assumption)+
qed

lemma appended_bytes:
  assumes fok: "file_ok m oi n" and a: "appended m oi n b d m'"
  shows "k < 1024 * n \<Longrightarrow> byte_addr m' oi k = byte_addr m oi k" "k < 1024 * n \<Longrightarrow> m' (byte_addr m oi k) = m (byte_addr m oi k)"
    "j < 1024 \<Longrightarrow> m' (byte_addr m' oi (1024 * n + j)) = d (1024 * b + j)"
proof -
  assume k: "k < 1024 * n"
  have i: "k div 1024 < n" using k by (simp add: less_mult_imp_div_less mult.commute)
  then show "byte_addr m' oi k = byte_addr m oi k" using a by (simp add: appended_def byte_addr_def)
  have "in_block (block_of m oi (Data (k div 1024))) (byte_addr m oi k)" by (simp add: in_block_def byte_addr_def)
  from data_not_own [OF fok i this] show "m' (byte_addr m oi k) = m (byte_addr m oi k)" using a by (simp add: appended_def)
next
  assume j: "j < 1024"
  then have "byte_addr m' oi (1024 * n + j) = 1024 * b + j" using a by (simp add: appended_def byte_addr_def)
  then show "m' (byte_addr m' oi (1024 * n + j)) = d (1024 * b + j)" using a j by (simp add: appended_def in_block_def)
qed

text \<open>Another file, at another inode and with no block that the first has for its pointers.\<close>

lemma appended_same_file:
  assumes fok: "file_ok m oi n" and a: "appended m oi n b d m'" and other: "file_ok m oi2 n2"
    and apart: "oi2 + 64 \<le> oi \<or> oi + 64 \<le> oi2" "\<And>y z. \<lbrakk>y \<in> nodes n; z \<in> nodes n2\<rbrakk> \<Longrightarrow> block_of m oi y \<noteq> block_of m oi2 z"
  shows "same_file m m' oi2 n2"
proof (rule same_fileI [OF other])
  show "super_eq m m'" "disk_ok m'" using a by (simp_all add: appended_def file_ok_def)
  show "block_of m oi2 y \<notin> free_set m'" if "y \<in> nodes n2" for y
    using file_block_facts(2) [OF other that] a by (simp add: appended_def)
  have frame: "m' x = m x" if "freemap_end m \<le> x" "\<not> own_bytes m oi n x" for x using a that by (simp add: appended_def)
  fix x
  assume "owns m oi2 n2 x"
  then consider "oi2 \<le> x" "x < oi2 + 64" | z where "z \<in> nodes n2" "in_block (block_of m oi2 z) x" by (auto simp: owns_def)
  then show "m' x = m x"
  proof cases
    case 1
    have data: "\<not> in_block c x" if "data_block m c" for c
      using file_inode(5) [OF other that] 1 by (simp add: in_block_def)
    show ?thesis
    proof (rule frame)
      show "freemap_end m \<le> x" using file_inode(3) [OF other] 1 by simp
      show "\<not> own_bytes m oi n x"
        using 1 apart(1) data file_block_facts(1) [OF fok] free_is_data [OF file_inode(1) [OF fok]]
        by (auto simp: own_bytes_def pointer_block_def)
    qed
  next
    case (2 z)
    have "block_of m oi y \<noteq> block_of m oi2 z" if "y \<in> nodes n" "\<forall>i. y \<noteq> Data i" for y by (rule apart(2) [OF that(1) 2(1)])
    note no = not_own_block [OF fok 2(2) file_block_facts(1,2) [OF other 2(1)] this]
    show ?thesis by (rule frame; rule no; assumption)
  qed
qed

end
