(* ===== verification/FormatFile.thy ===== *)
theory FormatFile
  imports FormatAppend
begin

text \<open>
  The loop of \<open>writefile\<close> over the blocks of a file: \<open>readn\<close> fills a new block from the pieces that
  \<open>read\<close> gives, and \<open>storeblk\<close> links it. At the end the file of the image has the bytes of the host's
  file, in blocks that were free.
\<close>

section \<open>Reading a block\<close>

text \<open>A file that is read without failure, and its bytes.\<close>

definition pieces :: "answer list \<Rightarrow> bool" where
  "pieces as \<longleftrightarrow> (\<forall>a \<in> set as. \<exists>bs. a = Piece bs \<and> bs \<noteq> [])"

fun piece_bytes :: "answer \<Rightarrow> u8 list" where
  "piece_bytes (Piece bs) = bs"
| "piece_bytes Failed = []"

definition stream :: "answer list \<Rightarrow> u8 list" where
  "stream as = concat (List.map piece_bytes as)"

lemma pieces_simps [simp]:
  "pieces []" "stream [] = []" "stream (Piece bs # as) = bs @ stream as"
  "pieces (a # as) \<longleftrightarrow> (\<exists>bs. a = Piece bs \<and> bs \<noteq> []) \<and> pieces as"
  by (simp_all add: pieces_def stream_def)

lemma host_read_pieces:
  assumes "pieces as" "0 < n"
  shows "\<exists>bs as'. host_read n as = (Some bs, as') \<and> pieces as' \<and> length bs \<le> n \<and> stream as = bs @ stream as' \<and>
    (bs = [] \<longleftrightarrow> stream as = [])"
proof (cases as)
  case (Cons a rest)
  then obtain bs where "a = Piece bs" "bs \<noteq> []" "pieces rest" using assms(1) by auto
  then show ?thesis using Cons assms(2) by auto
qed simp

text \<open>Writes that follow each other.\<close>

fun runs :: "nat \<Rightarrow> (nat \<times> u8 list) list \<Rightarrow> u8 list \<Rightarrow> bool" where
  "runs t [] bs \<longleftrightarrow> bs = []"
| "runs t ((off, cs) # ws) bs \<longleftrightarrow> off = t \<and> cs \<noteq> [] \<and> take (length cs) bs = cs \<and> runs (t + length cs) ws (drop (length cs) bs)"

lemma readn_pieces:
  assumes "pieces as" "t \<le> 1024"
  shows "\<exists>bs ws as'. readn t as = (int (t + length bs), ws, as') \<and> pieces as' \<and> runs t ws bs \<and> stream as = bs @ stream as' \<and>
    t + length bs \<le> 1024 \<and> (t + length bs < 1024 \<longrightarrow> stream as' = [])"
  using assms
proof (induction "1024 - t" arbitrary: t as rule: less_induct)
  case less
  show ?case
  proof (cases "t < 1024")
    case True
    obtain cs as1 where h: "host_read (1024 - t) as = (Some cs, as1)" "pieces as1" "length cs \<le> 1024 - t"
      "stream as = cs @ stream as1" "cs = [] \<longleftrightarrow> stream as = []"
      using host_read_pieces [OF less.prems(1), of "1024 - t"] True by auto
    show ?thesis
    proof (cases "cs = []")
      case True
      then have "readn t as = (int t, [], as1)" using \<open>t < 1024\<close> h(1) by (simp add: readn.simps [of t as])
      moreover have none: "stream as = []" using h(5) True by blast
      moreover have "stream as1 = []" using h(4) none by (metis append_is_Nil_conv)
      ultimately show ?thesis using h(2) \<open>t < 1024\<close>
        by (intro exI [of _ "[]"] exI [of _ as1] conjI) simp_all
    next
      case False
      then have "1024 - (t + length cs) < 1024 - t" "t + length cs \<le> 1024" using h(3) True by (auto simp: diff_less_mono2)
      from less.hyps [OF this(1) h(2) this(2)] obtain bs ws as2 where
        r: "readn (t + length cs) as1 = (int (t + length cs + length bs), ws, as2)" "pieces as2" "runs (t + length cs) ws bs"
          "stream as1 = bs @ stream as2" "t + length cs + length bs \<le> 1024" "t + length cs + length bs < 1024 \<longrightarrow> stream as2 = []"
        by blast
      have "readn t as = (int (t + length (cs @ bs)), (t, cs) # ws, as2)"
        using True h(1) False r(1) by (simp add: readn.simps [of t as] add.assoc)
      then show ?thesis using r h(4) by (intro exI [of _ "cs @ bs"] exI [of _ "(t, cs) # ws"] exI [of _ as2] conjI) (simp_all add: False)
    qed
  next
    case False
    then have "t = 1024" using less.prems(2) by simp
    then show ?thesis using less.prems by (intro exI [of _ "[]"] exI [of _ as] conjI) (simp_all add: readn.simps)
  qed
qed

lemma runs_nil: "runs t ws [] \<Longrightarrow> ws = []"
  by (cases ws) auto

section \<open>Filling a new block\<close>

lemma mem_put_nil [simp]: "mem_put m a [] = m"
  by (intro ext mem_put_out) auto

lemma fill_all_nextb: "ends (fill_all b ws) (s\<lparr>nextb := k\<rparr>) Q \<longleftrightarrow> ends (fill_all b ws) s (\<lambda>u s'. Q u (s'\<lparr>nextb := k\<rparr>))"
proof (induction ws arbitrary: s)
  case (Cons w ws)
  obtain off bs where w: "w = (off, bs)" by (cases w)
  show ?case
  proof (cases "off + length bs > 1024")
    case False
    have eq: "s\<lparr>nextb := k, blocks := x\<rparr> = s\<lparr>blocks := x, nextb := k\<rparr>" for x by simp
    show ?thesis using False Cons.IH [of "s\<lparr>blocks := put_bytes b off bs (blocks s)\<rparr>"] by (simp add: w fill_def eq)
  qed (simp add: w fill_def)
qed simp

lemma fill_all_ends:
  assumes "ready s" "refs s b bno" "3 \<le> bno" "t + length bs \<le> 1024" "runs t ws bs"
  shows "ends (fill_all b ws) s (\<lambda>_ s'. evolves s s' \<and> pins (blocks s') = pins (blocks s) \<and>
    seal s' = mem_put (seal s) (1024 * bno + t) bs \<and> nextb s' = nextb s)"
  using assms
proof (induction ws arbitrary: s t bs)
  case Nil
  then show ?case by simp
next
  case (Cons w ws)
  obtain off cs where w: "w = (off, cs)" by (cases w)
  then have r: "off = t" "take (length cs) bs = cs" "runs (t + length cs) ws (drop (length cs) bs)" using Cons.prems(5) by auto
  obtain ds where ds: "bs = cs @ ds" using r(2) by (metis append_take_drop_id)
  then have r': "runs (t + length cs) ws ds" "t + length cs + length ds \<le> 1024" using r(3) Cons.prems(4) by simp_all
  have eq: "ends (fill_all b (w # ws)) s Q \<longleftrightarrow> ends (fill b t cs) s (\<lambda>_ s1. ends (fill_all b ws) s1 Q)" for Q
    by (simp add: w r(1))
  have t: "t + length cs \<le> 1024" using r'(2) by simp
  show ?case
    unfolding eq
  proof (rule ends_mono [OF fill_ends [OF Cons.prems(1-3) t]])
    fix u :: unit and s1
    assume a: "evolves s s1 \<and> pins (blocks s1) = pins (blocks s) \<and> seal s1 = mem_put (seal s) (1024 * bno + t) cs \<and> nextb s1 = nextb s"
    then have ev: "evolves s s1" by simp
    note ih = Cons.IH [OF evolves_ready [OF ev] evolves_refs [OF ev Cons.prems(2)] Cons.prems(3) r'(2,1)]
    have put: "mem_put (mem_put (seal s) (1024 * bno + t) cs) (1024 * bno + (t + length cs)) ds = mem_put (seal s) (1024 * bno + t) bs"
      using mem_put_append [of "seal s" "1024 * bno + t" cs ds] by (simp add: ds add.assoc)
    show "ends (fill_all b ws) s1 (\<lambda>_ s'. evolves s s' \<and> pins (blocks s') = pins (blocks s) \<and>
        seal s' = mem_put (seal s) (1024 * bno + t) bs \<and> nextb s' = nextb s)"
      by (rule ends_mono [OF ih]) (use a put evolves_trans [OF ev] in auto)
  qed
qed

text \<open>The block after the last one that is used, filled, before \<open>nextb\<close> is advanced.\<close>

definition fresh :: "fs \<Rightarrow> nat \<Rightarrow> u8 list \<Rightarrow> fs \<Rightarrow> bool" where
  "fresh s b bs s' \<longleftrightarrow> evolves s s' \<and> refs s' b (nextb s) \<and> pins (blocks s') = (pins (blocks s))(nextb s := 1) \<and>
     nextb s' = Suc (nextb s) \<and>
     (\<exists>M0. grabbed (seal s) (of_nat (nextb s)) M0 \<and> seal s' = mem_put M0 (1024 * nextb s) bs)"

lemma fresh_block:
  assumes s: "ready s" "nextb s < nblocks (blocks s)" "card (pinned (blocks s)) < 16" and bs: "length bs \<le> 1024" "runs 0 ws bs"
  shows "ends (lift (getblk (nextb s) True type)) s (\<lambda>b s1. ends (fill_all b ws) s1 (\<lambda>_ s2.
    nextb s2 = nextb s \<and> fresh s b bs (s2\<lparr>nextb := Suc (nextb s)\<rparr>)))"
proof -
  let ?Q = "\<lambda>q s'. evolves s s' \<and> refs s' q (nextb s) \<and> kind (blocks s') (nextb s) = type \<and>
    pins (blocks s') = (pins (blocks s))(nextb s := 1) \<and> grabbed (seal s) (of_nat (nextb s)) (seal s') \<and> nextb s' = nextb s + 1"
  have three: "3 \<le> nextb s" by (rule ready_facts(6) [OF s(1)])
  have "ends (next_block type) s ?Q" by (rule next_block_ends [OF s])
  then have get: "ends (getblk (nextb s) True type) (blocks s) (\<lambda>q b. ?Q q (s\<lparr>nextb := nextb s + 1, blocks := b\<rparr>))"
    by (simp add: next_block_def)
  show ?thesis
    unfolding ends_lift
  proof (rule ends_mono [OF get])
    fix q b
    let ?t = "s\<lparr>blocks := b\<rparr>" and ?s1 = "s\<lparr>nextb := nextb s + 1, blocks := b\<rparr>"
    assume a: "?Q q ?s1"
    then have ev: "evolves s ?s1" and r: "refs ?s1 q (nextb s)" by blast+
    have len: "0 + length bs \<le> 1024" using bs(1) by simp
    have t: "?s1 = ?t\<lparr>nextb := Suc (nextb s)\<rparr>" by simp
    have "ends (fill_all q ws) ?s1 (\<lambda>_ s'. fresh s q bs s')"
    proof (rule ends_mono [OF fill_all_ends [OF evolves_ready [OF ev] r three len bs(2)]])
      fix u :: unit and s'
      assume f: "evolves ?s1 s' \<and> pins (blocks s') = pins (blocks ?s1) \<and>
        seal s' = mem_put (seal ?s1) (1024 * nextb s + 0) bs \<and> nextb s' = nextb ?s1"
      then have "evolves s s'" "refs s' q (nextb s)" using evolves_trans [OF ev] evolves_refs [OF _ r] by blast+
      then show "fresh s q bs s'" using a f by (auto simp: fresh_def)
    qed
    then have "ends (fill_all q ws) ?t (\<lambda>_ s'. fresh s q bs (s'\<lparr>nextb := Suc (nextb s)\<rparr>))"
      unfolding t fill_all_nextb .
    moreover have "ends (fill_all q ws) ?t (\<lambda>_ s'. nextb s' = nextb s)"
      if "ends (fill_all q ws) ?t R" for R
      using that
    proof (induction ws arbitrary: b)
      case (Cons w ws)
      then show ?case by (cases w) (auto simp: fill_def split: if_splits)
    qed simp
    ultimately show "ends (fill_all q ws) ?t (\<lambda>_ s2. nextb s2 = nextb s \<and> fresh s q bs (s2\<lparr>nextb := Suc (nextb s)\<rparr>))"
      by (auto simp: ends_iff)
  qed
qed

text \<open>At the end of the file the block is got, found empty and released.\<close>

lemma probe_block:
  assumes s: "ready s" "nextb s < nblocks (blocks s)" "card (pinned (blocks s)) < 16"
  shows "ends (lift (getblk (nextb s) True type)) s (\<lambda>b s1. ends (lift (putblk b)) s1 (\<lambda>_ s2.
    evolves s s2 \<and> pins (blocks s2) = pins (blocks s) \<and> nextb s2 = nextb s \<and>
    seal s2 = mem_set (seal s) (1024 * nextb s) 0 1024))"
proof -
  let ?nx = "nextb s"
  have ok: "cache_ok (blocks s)" "0 < ?nx" "3 \<le> ?nx" using ready_facts(1,6) [OF s(1)] by simp_all
  note zero = next_unpinned [OF s(1)]
  have get: "ends (getblk ?nx True type) (blocks s) (got (blocks s) ?nx True type)"
    by (rule getblk_got [OF ok(1,2) s(2)]) (use zero s(3) in simp_all)
  show ?thesis
    unfolding ends_lift
  proof (rule ends_mono [OF get])
    fix q b
    assume "got (blocks s) ?nx True type q b"
    then have g: "cache_ok b" "slot_holds b q ?nx" "nblocks b = nblocks (blocks s)"
      "view b = mem_set (view (blocks s)) (1024 * ?nx) 0 1024"
      "pins b = (pins (blocks s))(?nx := 1)" "kind b ?nx = type"
      "\<And>c. c \<noteq> ?nx \<Longrightarrow> 0 < pins (blocks s) c \<Longrightarrow> kind b c = kind (blocks s) c"
      "\<And>j c. slot_holds (blocks s) j c \<Longrightarrow> 0 < pins (blocks s) c \<Longrightarrow> slot_holds b j c"
      using zero by (simp_all add: got_def)
    have "ends (putblk q) b (\<lambda>_ b'. evolves s (s\<lparr>blocks := b'\<rparr>) \<and> pins b' = pins (blocks s) \<and> nextb s = ?nx \<and>
        seal (s\<lparr>blocks := b'\<rparr>) = mem_set (seal s) (1024 * ?nx) 0 1024)"
    proof (rule ends_mono [OF putblk_ends [OF g(1,2)]])
      fix u :: unit and b'
      let ?s = "s\<lparr>blocks := b'\<rparr>"
      assume "same_slots b b' \<and> view b' = view b \<and> pins b' = (pins b)(?nx := pins b ?nx - 1)"
      then have b: "cache_ok b'" "nblocks b' = nblocks (blocks s)" "kind b' = kind b" "\<And>j c. slot_holds b' j c = slot_holds b j c"
        "view b' = mem_set (view (blocks s)) (1024 * ?nx) 0 1024" "pins b' = pins (blocks s)"
        using g zero by (auto simp: same_slots_def)
      have low: "view b' x = view (blocks s) x" if "x < 3072" for x unfolding b(5) using that ok(3) by (simp add: mem_set_def)
      have ready: "ready ?s"
        using s(1) b sealable_high [OF ready_facts(2) [OF s(1)] low] by (simp add: ready_def)
      have kinds: "kind b' c = kind (blocks s) c" if "0 < pins (blocks s) c" for c
        using g(7) [of c] zero that b(3) by (cases "c = ?nx") auto
      have ev: "evolves s ?s" using ready kinds g(8) b by (auto simp: evolves_def refs_def)
      have "seal ?s = mem_set (seal s) (1024 * ?nx) 0 1024"
      proof
        fix x
        have "seal ?s x = (if x < 3072 then seal s x else view b' x)"
          using seal_change [OF ready_facts(5) [OF s(1)] ready_facts(4) [OF s(1)], of "view b'" "view (blocks s)" "ninodes s"] low b(2)
          by (simp add: seal_def)
        then show "seal ?s x = mem_set (seal s) (1024 * ?nx) 0 1024 x"
          using seal_byte [OF s(1), of x] ok(3) by (simp add: b(5) mem_set_def)
      qed
      then show "evolves s ?s \<and> pins b' = pins (blocks s) \<and> nextb s = ?nx \<and> seal ?s = mem_set (seal s) (1024 * ?nx) 0 1024"
        using ev b(6) by simp
    qed
    then show "ends (putblk q) (blocks (s\<lparr>blocks := b\<rparr>)) (\<lambda>x b'. evolves s (s\<lparr>blocks := b, blocks := b'\<rparr>) \<and>
        pins (blocks (s\<lparr>blocks := b, blocks := b'\<rparr>)) = pins (blocks s) \<and> nextb (s\<lparr>blocks := b, blocks := b'\<rparr>) = ?nx \<and>
        seal (s\<lparr>blocks := b, blocks := b'\<rparr>) = mem_set (seal s) (1024 * ?nx) 0 1024)"
      by simp
  qed
qed

section \<open>A file that grows from nothing\<close>

text \<open>
  The file at \<open>oi\<close> has \<open>N\<close> blocks and the bytes \<open>bs\<close>, in blocks that were free in \<open>m\<close>, where it
  was empty; nothing else has changed since but blocks that were free.
\<close>

definition grown :: "mem \<Rightarrow> nat \<Rightarrow> nat \<Rightarrow> u8 list \<Rightarrow> mem \<Rightarrow> bool" where
  "grown m oi N bs m' \<longleftrightarrow> file_ok m' oi N \<and> ptrs_clear m' oi N \<and> super_eq m m' \<and>
     (\<forall>i < 4. ld32 m' (oi + 4 * i) = ld32 m (oi + 4 * i)) \<and>
     block_of m' oi ` nodes N \<subseteq> free_set m \<and> free_set m' \<subseteq> free_set m \<and>
     (\<forall>x. freemap_end m \<le> x \<longrightarrow> \<not> own_bytes m oi 0 x \<longrightarrow> m' x = m x) \<and>
     length bs \<le> 1024 * N \<and> (\<forall>k < length bs. m' (byte_addr m' oi k) = bs ! k)"

lemma in_block_unique: "in_block b x \<Longrightarrow> in_block c x \<Longrightarrow> c = b"
  by (auto simp: in_block_def)

lemma nodes_0 [simp]: "nodes 0 = {}"
  by (auto simp: nodes_def elim: in_file.elims)

lemma grown_start: "file_ok m oi 0 \<Longrightarrow> ptrs_clear m oi 0 \<Longrightarrow> grown m oi 0 [] m"
  by (simp add: grown_def)

lemma grown_append:
  assumes g: "grown m oi N bs m1" and len: "length bs = 1024 * N" and a: "appended m1 oi N b d m2"
    and cs: "length cs \<le> 1024" "\<And>j. j < length cs \<Longrightarrow> d (1024 * b + j) = cs ! j"
  shows "grown m oi (Suc N) (bs @ cs) m2"
proof -
  have g': "file_ok m1 oi N" "super_eq m m1" "\<forall>i < 4. ld32 m1 (oi + 4 * i) = ld32 m (oi + 4 * i)"
    "block_of m1 oi ` nodes N \<subseteq> free_set m" "free_set m1 \<subseteq> free_set m"
    "\<And>x. \<lbrakk>freemap_end m \<le> x; \<not> own_bytes m oi 0 x\<rbrakk> \<Longrightarrow> m1 x = m x"
    "\<And>k. k < length bs \<Longrightarrow> m1 (byte_addr m1 oi k) = bs ! k"
    using g by (simp_all add: grown_def)
  have a': "file_ok m2 oi (Suc N)" "ptrs_clear m2 oi (Suc N)" "super_eq m1 m2"
    "\<forall>i < 4. ld32 m2 (oi + 4 * i) = ld32 m1 (oi + 4 * i)" "\<forall>y \<in> nodes N. block_of m2 oi y = block_of m1 oi y"
    "block_of m2 oi ` new_nodes N \<subseteq> free_set m1" "free_set m2 = free_set m1 - block_of m2 oi ` new_nodes N"
    "\<And>x. \<lbrakk>freemap_end m1 \<le> x; \<not> own_bytes m1 oi N x\<rbrakk> \<Longrightarrow> m2 x = m1 x"
    using a by (simp_all add: appended_def)
  have "block_of m2 oi ` nodes N = block_of m1 oi ` nodes N" using a'(5) by (intro image_cong) simp_all
  then have blocks: "block_of m2 oi ` nodes (Suc N) \<subseteq> free_set m" using g'(4,5) a'(6) by (auto simp: nodes_Suc image_Un)
  have own: "own_bytes m oi 0 x" if "own_bytes m1 oi N x" for x
    using that g'(4,5) by (auto simp: own_bytes_def pointer_block_def)
  have frame: "m2 x = m x" if "freemap_end m \<le> x" "\<not> own_bytes m oi 0 x" for x
    using a'(8) [of x] g'(6) [OF that] own [of x] that super_eq_simps(2) [OF g'(2)] by auto
  have bytes: "m2 (byte_addr m2 oi k) = (bs @ cs) ! k" if k: "k < length (bs @ cs)" for k
  proof (cases "k < length bs")
    case True
    then have "k < 1024 * N" using len by simp
    then show ?thesis using appended_bytes(1,2) [OF g'(1) a] g'(7) True by (simp add: nth_append)
  next
    case False
    then obtain j where j: "k = 1024 * N + j" "j < length cs" using k len
      by (metis add_diff_inverse_nat length_append nat_add_left_cancel_less)
    then show ?thesis using appended_bytes(3) [OF g'(1) a, of j] cs len by (simp add: nth_append)
  qed
  show ?thesis
    unfolding grown_def
    using a'(1,2,4,7) super_eq_trans [OF g'(2) a'(3)] g'(3,5) blocks frame bytes cs(1) len by auto
qed

lemma mem_set_overlay: "mem_set m (1024 * b) 0 1024 = overlay b (\<lambda>_. 0) m"
  by (auto simp: mem_set_def overlay_def in_block_def)

lemma grown_probe:
  assumes g: "grown m oi N bs m1" and b: "b \<in> free_set m1"
  shows "grown m oi N bs (mem_set m1 (1024 * b) 0 1024)"
proof -
  let ?m = "overlay b (\<lambda>_. 0) m1"
  have g': "file_ok m1 oi N" "super_eq m m1" "\<forall>i < 4. ld32 m1 (oi + 4 * i) = ld32 m (oi + 4 * i)"
    "block_of m1 oi ` nodes N \<subseteq> free_set m" "free_set m1 \<subseteq> free_set m" "length bs \<le> 1024 * N" "ptrs_clear m1 oi N"
    "\<And>x. \<lbrakk>freemap_end m \<le> x; \<not> own_bytes m oi 0 x\<rbrakk> \<Longrightarrow> m1 x = m x"
    "\<And>k. k < length bs \<Longrightarrow> m1 (byte_addr m1 oi k) = bs ! k"
    using g by (simp_all add: grown_def)
  note ok = file_inode [OF g'(1)]
  note data = free_is_data [OF ok(1) b]
  have high: "oi + 64 \<le> 1024 * b" by (rule ok(5) [OF data])
  then have "freemap_end m1 \<le> 1024 * b" using ok(3) by simp
  note o = overlay_disk [OF ok(1) this, of "\<lambda>_. 0"]
  have same: "same_file m1 ?m oi N"
  proof (rule same_fileI [OF g'(1) o(1,3)])
    fix x
    assume x: "owns m1 oi N x"
    have "\<not> in_block b x"
    proof
      assume "in_block b x"
      then have "\<not> (oi \<le> x \<and> x < oi + 64)" using high by (simp add: in_block_def)
      then have "\<exists>y \<in> nodes N. block_of m1 oi y = b"
        using x in_block_unique [OF \<open>in_block b x\<close>] unfolding owns_def by blast
      then show False using file_block_facts(2) [OF g'(1)] b by blast
    qed
    then show "?m x = m1 x" by (rule overlay_byte)
  next
    show "block_of m1 oi y \<notin> free_set ?m" if "y \<in> nodes N" for y using file_block_facts(2) [OF g'(1) that] o(2) by simp
  qed
  have frame: "?m x = m x" if x: "freemap_end m \<le> x" "\<not> own_bytes m oi 0 x" for x
  proof -
    have "\<not> in_block b x" using x(2) b g'(5) own_free by blast
    then show ?thesis using g'(8) [OF x] by (simp add: overlay_byte)
  qed
  have "block_of ?m oi ` nodes N = block_of m1 oi ` nodes N" using same by (intro image_cong) (simp_all add: same_file_def)
  moreover have "ld32 ?m (oi + 4 * i) = ld32 m (oi + 4 * i)" if "i < 4" for i
    using same_file_words [OF same, of "oi + 4 * i"] g'(3) that by simp
  moreover have "?m (byte_addr ?m oi k) = bs ! k" if "k < length bs" for k
    using same_file_bytes [OF same, of k] g'(6,9) that by simp
  ultimately show ?thesis
    unfolding grown_def mem_set_overlay
    using same g'(4-7) super_eq_trans [OF g'(2) o(1)] o(2) frame by (simp add: same_file_def)
qed

text \<open>How many blocks of the disk a file of \<open>n\<close> blocks takes, with its pointer blocks.\<close>

lemma finite_nodes [simp]: "finite (nodes n)"
proof -
  have "x \<in> Data ` {..< n} \<union> {Ind, Ind2} \<union> Sub ` {..< n}" if "x \<in> nodes n" for x
    using that by (cases x) auto
  then show ?thesis by (intro finite_subset [of "nodes n" "Data ` {..< n} \<union> {Ind, Ind2} \<union> Sub ` {..< n}"]) auto
qed

lemma card_nodes_Suc: "card (nodes (Suc n)) = card (nodes n) + card (new_nodes n)"
proof -
  have "nodes n \<inter> new_nodes n = {}" by (auto simp: new_nodes_def)
  moreover have "finite (new_nodes n)" by (simp add: new_nodes_def)
  ultimately show ?thesis by (simp add: nodes_Suc card_Un_disjoint)
qed

lemma card_nodes_mono: "n \<le> k \<Longrightarrow> card (nodes n) \<le> card (nodes k)"
proof (rule card_mono)
  show "nodes n \<subseteq> nodes k" if "n \<le> k"
  proof
    show "x \<in> nodes k" if "x \<in> nodes n" for x using that \<open>n \<le> k\<close> by (cases x) auto
  qed
qed simp

end
