(* ===== verification/FormatLoop.thy ===== *)
theory FormatLoop
  imports FormatFile
begin

text \<open>
  The loop of \<open>writefile\<close>, a block at a time, and its end: the file at the inode has the bytes of
  the pieces that were read.
\<close>

text \<open>Where the loop starts, and the states in it.\<close>

definition inode_held :: "fs \<Rightarrow> nat \<Rightarrow> nat \<Rightarrow> nat \<Rightarrow> nat \<Rightarrow> bool" where
  "inode_held s ib no io oi \<longleftrightarrow> ready s \<and> refs s ib no \<and> 3 \<le> no \<and> io + 64 \<le> 1024 \<and> 4 dvd io \<and> 1024 * no + io = oi \<and>
     card (pinned (blocks s)) \<le> 13"

definition growing :: "fs \<Rightarrow> nat \<Rightarrow> nat \<Rightarrow> u8 list \<Rightarrow> fs \<Rightarrow> bool" where
  "growing s0 oi N bs s \<longleftrightarrow> evolves s0 s \<and> pins (blocks s) = pins (blocks s0) \<and> grown (seal s0) oi N bs (seal s) \<and>
     nextb s = nextb s0 + card (nodes N)"

lemma put_overlay: "length bs \<le> 1024 \<Longrightarrow> overlay b (mem_put M (1024 * b) bs) M = mem_put M (1024 * b) bs"
  by (rule ext) (auto simp: overlay_def mem_put_def in_block_def)

lemma free_next:
  assumes "ready s"
  shows "c \<in> free_set (seal s) \<longleftrightarrow> nextb s \<le> c \<and> c < nblocks (blocks s)"
  using seal_disk(1) [OF assms] by simp

lemma growing_storing:
  assumes h: "inode_held s0 ib no io oi" and g: "growing s0 oi N bs s" and f: "fresh s b cs s3"
    and M0: "grabbed (seal s) (of_nat (nextb s)) M0" "seal s3 = mem_put M0 (1024 * nextb s) cs" and cs: "length cs \<le> 1024"
    and N: "N < 65802" "nextb s0 + card (nodes (Suc N)) \<le> nblocks (blocks s0)"
  shows "storing s3 ib no io oi N b (nextb s) (seal s) M0 (seal s3)"
proof -
  have h': "ready s0" "refs s0 ib no" "3 \<le> no" "io + 64 \<le> 1024" "4 dvd io" "1024 * no + io = oi"
    "card (pinned (blocks s0)) \<le> 13" using h by (simp_all add: inode_held_def)
  have g': "evolves s0 s" "pins (blocks s) = pins (blocks s0)" "grown (seal s0) oi N bs (seal s)"
    "nextb s = nextb s0 + card (nodes N)" using g by (simp_all add: growing_def)
  have f': "evolves s s3" "refs s3 b (nextb s)" "pins (blocks s3) = (pins (blocks s))(nextb s := 1)" "nextb s3 = Suc (nextb s)"
    using f by (simp_all add: fresh_def)
  have ev: "evolves s0 s3" by (rule evolves_trans [OF g'(1) f'(1)])
  have nb: "nblocks (blocks s) = nblocks (blocks s0)" "nblocks (blocks s3) = nblocks (blocks s0)" using g'(1) ev by (simp_all add: evolves_def)
  have sealed: "seal s3 = overlay (nextb s) (seal s3) M0" unfolding M0(2) by (rule put_overlay [OF cs, symmetric])
  have unpinned: "pins (blocks s3) (block_of (seal s) oi y) = 0" if y: "y \<in> nodes N" for y
  proof -
    have "block_of (seal s) oi y \<in> free_set (seal s0)" using g'(3) y by (auto simp: grown_def)
    then have "\<not> block_of (seal s) oi y < nextb s0" using free_next [OF h'(1)] by simp
    then have zero: "pins (blocks s0) (block_of (seal s) oi y) = 0" using ready_facts(8) [OF h'(1)] by blast
    have "file_ok (seal s) oi N" using g'(3) by (simp add: grown_def)
    then have "block_of (seal s) oi y \<notin> free_set (seal s)" by (rule file_block_facts(2) [OF _ y])
    moreover have "nextb s \<in> free_set (seal s)" using grabbed_facts(4) [OF M0(1)] seal_grab(3) [OF ready_facts(2) [OF evolves_ready [OF g'(1)]]]
        free_next [OF evolves_ready [OF g'(1)]] N(2) nb card_nodes_Suc [of N] g'(4) by (simp add: new_nodes_def)
    ultimately have "block_of (seal s) oi y \<noteq> nextb s" by metis
    then show ?thesis using f'(3) g'(2) zero by simp
  qed
  have "card (pinned (blocks s)) \<le> 13" using g'(2) h'(7) by (simp add: pinned_def)
  then have pinned: "card (pinned (blocks s3)) \<le> 14"
    using card_pins [OF ready_facts(1) [OF evolves_ready [OF g'(1)]] f'(3)] by linarith
  have room: "nextb s + card (new_nodes N) \<le> nblocks (blocks s3)" using N(2) nb card_nodes_Suc [of N] g'(4) by simp
  show ?thesis
    unfolding storing_def
    using evolves_ready [OF ev] evolves_refs [OF ev h'(2)] h'(3-6) f'(2,4) g'(3) N(1) M0(1) sealed free_next [OF evolves_ready [OF g'(1)]] nb
      unpinned pinned room
    by (intro conjI) (auto simp: grown_def)
qed

text \<open>One block of the file.\<close>

lemma file_step:
  assumes h: "inode_held s0 ib no io oi" and g: "growing s0 oi N bs s" and len: "length bs = 1024 * N"
    and cs: "length cs \<le> 1024" "runs 0 ws cs" and N: "N < 65802" "nextb s0 + card (nodes (Suc N)) \<le> nblocks (blocks s0)"
  shows "ends (lift (getblk (nextb s) True BLOCK_FILE)) s (\<lambda>b s1. ends (fill_all b ws) s1 (\<lambda>_ s2.
    ends (andthen (set_state (\<lambda>s. s\<lparr>nextb := nextb s + 1\<rparr>)) (andthen (storeblk (ib, io) b N) (lift (putblk b)))) s2
      (\<lambda>_. growing s0 oi (Suc N) (bs @ cs))))"
proof -
  have g': "evolves s0 s" "pins (blocks s) = pins (blocks s0)" "grown (seal s0) oi N bs (seal s)"
    "nextb s = nextb s0 + card (nodes N)" using g by (simp_all add: growing_def)
  have s: "ready s" by (rule evolves_ready [OF g'(1)])
  have nb: "nblocks (blocks s) = nblocks (blocks s0)" using g'(1) by (simp add: evolves_def)
  have "0 < card (new_nodes N)" by (simp add: new_nodes_def card_gt_0_iff)
  then have nx: "nextb s < nblocks (blocks s)" using N(2) nb card_nodes_Suc [of N] g'(4) by linarith
  have pinned: "card (pinned (blocks s)) < 16" using g'(2) h by (simp add: pinned_def inode_held_def)
  note fr = fresh_block [OF s nx pinned cs, of BLOCK_FILE]
  have step: "ends (andthen (storeblk (ib, io) b N) (lift (putblk b))) s3 (\<lambda>_. growing s0 oi (Suc N) (bs @ cs))"
    if f: "fresh s b cs s3" for b s3
  proof -
    obtain M0 where M0: "grabbed (seal s) (of_nat (nextb s)) M0" "seal s3 = mem_put M0 (1024 * nextb s) cs"
      using f by (auto simp: fresh_def)
    have f': "evolves s s3" "refs s3 b (nextb s)" "pins (blocks s3) = (pins (blocks s))(nextb s := 1)" using f by (simp_all add: fresh_def)
    note st = growing_storing [OF h g f M0 cs(1) N]
    show ?thesis
      unfolding ends_build
    proof (rule ends_mono [OF storeblk_links [OF st]])
      fix u :: unit and s4
      assume "stored s3 oi N (nextb s) (seal s) (seal s3) s4"
      then obtain m1 where s4: "evolves s3 s4" "pins (blocks s4) = pins (blocks s3)" "nextb s4 = nextb s + card (new_nodes N)"
        "linked (seal s) oi N (nextb s) m1" "seal s4 = overlay (nextb s) (seal s3) m1" by (auto simp: stored_def)
      have ev: "evolves s s4" by (rule evolves_trans [OF f'(1) s4(1)])
      have p: "pins (blocks s4) = (pins (blocks s))(nextb s := Suc (pins (blocks s) (nextb s)))"
        using s4(2) f'(3) next_unpinned [OF s] by simp
      have "file_ok (seal s) oi N" using g'(3) by (simp add: grown_def)
      from linked_appended [OF this N(1) s4(4)] have app: "appended (seal s) oi N (nextb s) (seal s3) (seal s4)" unfolding s4(5) .
      have "seal s3 (1024 * nextb s + j) = cs ! j" if "j < length cs" for j using that by (simp add: M0(2) mem_put_def)
      note grown = grown_append [OF g'(3) len app cs(1) this]
      show "ends (lift (putblk b)) s4 (\<lambda>_. growing s0 oi (Suc N) (bs @ cs))"
        by (rule ends_mono [OF put_ends [OF ev evolves_refs [OF s4(1) f'(2)] p]])
          (use grown g' s4(3) card_nodes_Suc [of N] evolves_trans [OF g'(1)] in \<open>simp add: growing_def\<close>)
    qed
  qed
  show ?thesis
  proof (rule ends_mono [OF fr], rule ends_mono, assumption)
    fix b s1 and u :: unit and s2
    assume "nextb s2 = nextb s \<and> fresh s b cs (s2\<lparr>nextb := Suc (nextb s)\<rparr>)"
    then show "ends (andthen (set_state (\<lambda>s. s\<lparr>nextb := nextb s + 1\<rparr>)) (andthen (storeblk (ib, io) b N) (lift (putblk b)))) s2
        (\<lambda>_. growing s0 oi (Suc N) (bs @ cs))"
      using step [of b "s2\<lparr>nextb := Suc (nextb s)\<rparr>"] by simp
  qed
qed

lemma file_loop_end:
  assumes "readn 0 as = (0, [], as')"
  shows "ends (file_loop ino N as) s Q \<longleftrightarrow>
    ends (lift (getblk (nextb s) True BLOCK_FILE)) s (\<lambda>b s1. ends (lift (putblk b)) s1 (\<lambda>_. Q (N, 0)))"
  by (simp add: file_loop.simps [of ino N as] assms)

lemma file_loop_next:
  assumes "readn 0 as = (int k, ws, as')" "0 < k"
  shows "ends (file_loop ino N as) s Q \<longleftrightarrow>
    ends (lift (getblk (nextb s) True BLOCK_FILE)) s (\<lambda>b s1. ends (fill_all b ws) s1 (\<lambda>_ s2.
    ends (andthen (set_state (\<lambda>s. s\<lparr>nextb := nextb s + 1\<rparr>)) (andthen (storeblk ino b N) (lift (putblk b)))) s2
      (\<lambda>_ s3. ends (if k < 1024 then done_with (N, k) else file_loop ino (N + 1) as') s3 Q)))"
proof -
  have "\<not> int k < 0" "int k \<noteq> 0" "int k < int 1024 \<longleftrightarrow> k < 1024" "nat (int k) = k" using assms(2) by auto
  then show ?thesis by (simp add: file_loop.simps [of ino N as] assms(1))
qed

lemma growing_probe:
  assumes h: "inode_held s0 ib no io oi" and g: "growing s0 oi N bs s"
    and ev: "evolves s s2" "pins (blocks s2) = pins (blocks s)" "nextb s2 = nextb s" "seal s2 = mem_set (seal s) (1024 * nextb s) 0 1024"
    and room: "nextb s < nblocks (blocks s)"
  shows "growing s0 oi N bs s2"
proof -
  have g': "evolves s0 s" "grown (seal s0) oi N bs (seal s)" using g by (simp_all add: growing_def)
  have "nextb s \<in> free_set (seal s)" using free_next [OF evolves_ready [OF g'(1)]] room by simp
  then have "grown (seal s0) oi N bs (seal s2)" unfolding ev(4) by (rule grown_probe [OF g'(2)])
  then show ?thesis using g ev(2,3) evolves_trans [OF g'(1) ev(1)] by (simp add: growing_def)
qed

definition blocks_for :: "nat \<Rightarrow> nat" where
  "blocks_for len = (len + 1023) div 1024"

lemma blocks_for_simps:
  "blocks_for 0 = 0" "0 < k \<Longrightarrow> k < 1024 \<Longrightarrow> blocks_for k = 1" "blocks_for (1024 + k) = Suc (blocks_for k)"
  unfolding blocks_for_def by (simp, intro div_nat_eqI, simp_all)

lemma file_loop_ends:
  assumes h: "inode_held s0 ib no io oi" and g: "growing s0 oi N bs s" and len: "length bs = 1024 * N" and p: "pieces as"
    and room: "N + blocks_for (length (stream as)) \<le> 65802"
      "nextb s0 + card (nodes (N + blocks_for (length (stream as)))) < nblocks (blocks s0)"
  shows "ends (file_loop (ib, io) N as) s (\<lambda>(k, n) s'. 1024 * k + n = length (bs @ stream as) \<and>
    growing s0 oi (N + blocks_for (length (stream as))) (bs @ stream as) s')"
  using g len p room
proof (induction "length (stream as)" arbitrary: N bs s as rule: less_induct)
  case less
  note g = less.prems(1) and len = less.prems(2) and p = less.prems(3) and room = less.prems(4,5)
  let ?B = "blocks_for (length (stream as))"
  have g': "evolves s0 s" "pins (blocks s) = pins (blocks s0)" "nextb s = nextb s0 + card (nodes N)" using g by (simp_all add: growing_def)
  have nb: "nblocks (blocks s) = nblocks (blocks s0)" using g'(1) by (simp add: evolves_def)
  have pinned: "card (pinned (blocks s)) < 16" using g'(2) h by (simp add: pinned_def inode_held_def)
  have nx: "nextb s < nblocks (blocks s)" using room(2) card_nodes_mono [of N "N + ?B"] nb g'(3) by simp
  obtain cs ws as' where r: "readn 0 as = (int (length cs), ws, as')" "pieces as'" "runs 0 ws cs" "stream as = cs @ stream as'"
    "length cs \<le> 1024" "length cs < 1024 \<longrightarrow> stream as' = []"
    using readn_pieces [OF p, of 0] by auto
  show ?case
  proof (cases "cs = []")
    case True
    then have ws: "ws = []" "stream as' = []" using r(3,6) runs_nil by simp_all
    have none: "stream as = []" unfolding r(4) ws True by simp
    have rd: "readn 0 as = (0, [], as')" unfolding r(1) ws True by simp
    have "?B = 0" by (simp add: none blocks_for_def)
    show ?thesis
      unfolding file_loop_end [OF rd]
    proof (rule ends_mono [OF probe_block [OF evolves_ready [OF g'(1)] nx pinned]], rule ends_mono, assumption)
      fix b s1 and u :: unit and s2
      assume a: "evolves s s2 \<and> pins (blocks s2) = pins (blocks s) \<and> nextb s2 = nextb s \<and>
        seal s2 = mem_set (seal s) (1024 * nextb s) 0 1024"
      have "growing s0 oi N bs s2" by (rule growing_probe [OF h g _ _ _ _ nx]) (use a in blast)+
      then show "(case (N, 0) of (k, n) \<Rightarrow> \<lambda>s'. 1024 * k + n = length (bs @ stream as) \<and>
          growing s0 oi (N + ?B) (bs @ stream as) s') s2"
        using none len \<open>?B = 0\<close> by simp
    qed
  next
    case False
    then have k: "0 < length cs" by simp
    have B: "?B = Suc (blocks_for (length (stream as')))"
    proof (cases "length cs < 1024")
      case True
      then have "length (stream as) = length cs" "stream as' = []" using r(4,6) by simp_all
      then show ?thesis using k True by (simp add: blocks_for_simps)
    next
      case False
      then have "length (stream as) = 1024 + length (stream as')" using r(4,5) by simp
      then show ?thesis by (simp add: blocks_for_simps)
    qed
    have N: "N < 65802" "nextb s0 + card (nodes (Suc N)) \<le> nblocks (blocks s0)"
      using room B card_nodes_mono [of "Suc N" "N + ?B"] by simp_all
    show ?thesis
      unfolding file_loop_next [OF r(1) k]
    proof (rule ends_mono [OF file_step [OF h g len r(5,3) N]], rule ends_mono, assumption, rule ends_mono, assumption)
      fix b s1 and u v :: unit and s2 s3
      assume g3: "growing s0 oi (Suc N) (bs @ cs) s3"
      show "ends (if length cs < 1024 then done_with (N, length cs) else file_loop (ib, io) (N + 1) as') s3
          (\<lambda>(k, n) s'. 1024 * k + n = length (bs @ stream as) \<and> growing s0 oi (N + ?B) (bs @ stream as) s')"
      proof (cases "length cs < 1024")
        case True
        then have "stream as' = []" using r(6) by simp
        then show ?thesis using True g3 len r(4) B by (simp add: blocks_for_def)
      next
        case False
        then have full: "length cs = 1024" using r(5) by simp
        then have "length (stream as') < length (stream as)" "length (bs @ cs) = 1024 * Suc N" using r(4) len by simp_all
        from less.hyps [OF this(1) g3 this(2) r(2)] have ih:
          "ends (file_loop (ib, io) (Suc N) as') s3 (\<lambda>(k, n) s'. 1024 * k + n = length ((bs @ cs) @ stream as') \<and>
            growing s0 oi (Suc N + blocks_for (length (stream as'))) ((bs @ cs) @ stream as') s')"
          using room B by simp
        have "Suc N + blocks_for (length (stream as')) = N + ?B" "(bs @ cs) @ stream as' = bs @ stream as" using B r(4) by simp_all
        from ih [unfolded this] False show ?thesis by simp
      qed
    qed
  qed
qed

end
