(* ===== verification/FormatImage.thy ===== *)
theory FormatImage
  imports FormatLoop
begin

text \<open>
  What an image of a root directory with regular files looks like: the directory's bytes are the
  entries written one behind the other, each file's inode and blocks hold its bytes, and the inodes
  behind the last one are empty. The lemmas carry this picture through the changes the builder makes.
\<close>

section \<open>Changes that leave a file alone\<close>

lemma tweak:
  assumes fok: "file_ok m oi n"
    and ch: "\<forall>x. m' x \<noteq> m x \<longrightarrow> freemap_end m \<le> x \<and> \<not> (oi + 16 \<le> x \<and> x < oi + 64) \<and>
      \<not> (\<exists>y \<in> nodes n. (\<forall>i. y \<noteq> Data i) \<and> in_block (block_of m oi y) x)"
  shows "super_eq m m'" "free_set m' = free_set m" "disk_ok m'" "file_ok m' oi n" "y \<in> nodes n \<Longrightarrow> block_of m' oi y = block_of m oi y"
    "k < 1024 * n \<Longrightarrow> byte_addr m' oi k = byte_addr m oi k" "ptrs_clear m oi n \<Longrightarrow> ptrs_clear m' oi n"
proof -
  have low: "m' x = m x" if "x < freemap_end m" for x using ch that by (metis not_le)
  note l = low_cong [OF file_inode(1) [OF fok] low]
  show "super_eq m m'" "free_set m' = free_set m" "disk_ok m'" by (rule l; assumption)+
  have inode: "\<forall>x. oi + 16 \<le> x \<longrightarrow> x < oi + 64 \<longrightarrow> m' x = m x" using ch by blast
  have ptr: "\<forall>x. (\<exists>y \<in> nodes n. (\<forall>i. y \<noteq> Data i) \<and> in_block (block_of m oi y) x) \<longrightarrow> m' x = m x" using ch by blast
  have used: "\<forall>y \<in> nodes n. block_of m oi y \<notin> free_set m'" using l(2) file_block_facts(2) [OF fok] by blast
  note f = file_frame [OF fok l(1,3) inode ptr used]
  show "file_ok m' oi n" "y \<in> nodes n \<Longrightarrow> block_of m' oi y = block_of m oi y"
    "k < 1024 * n \<Longrightarrow> byte_addr m' oi k = byte_addr m oi k" "ptrs_clear m oi n \<Longrightarrow> ptrs_clear m' oi n"
    by (rule f; assumption)+
qed

text \<open>Another inode and free blocks may change.\<close>

lemma away_same_file:
  assumes other: "file_ok m oi2 n2" and ok: "file_ok m oi 0" and eq: "super_eq m m'" "disk_ok m'" "free_set m' \<subseteq> free_set m"
    and frame: "\<And>x. \<lbrakk>freemap_end m \<le> x; \<not> own_bytes m oi 0 x\<rbrakk> \<Longrightarrow> m' x = m x"
    and apart: "oi2 + 64 \<le> oi \<or> oi + 64 \<le> oi2"
  shows "same_file m m' oi2 n2"
proof (rule same_fileI [OF other eq(1,2)])
  show "block_of m oi2 y \<notin> free_set m'" if "y \<in> nodes n2" for y using file_block_facts(2) [OF other that] eq(3) by blast
  fix x
  assume "owns m oi2 n2 x"
  then consider "oi2 \<le> x" "x < oi2 + 64" | z where "z \<in> nodes n2" "in_block (block_of m oi2 z) x" by (auto simp: owns_def)
  then show "m' x = m x"
  proof cases
    case 1
    have "\<not> in_block c x" if "c \<in> free_set m" for c
      using file_inode(5) [OF other free_is_data [OF file_inode(1) [OF other] that]] 1 by (simp add: in_block_def)
    then have "\<not> own_bytes m oi 0 x" using 1 apart by (auto simp: own_bytes_def pointer_block_def)
    then show ?thesis using file_inode(3) [OF other] 1 by (intro frame) simp_all
  next
    case (2 z)
    note d = file_block_facts(1,2) [OF other 2(1)]
    have none: "block_of m oi y \<noteq> block_of m oi2 z" if "y \<in> nodes 0" "\<forall>i. y \<noteq> Data i" for y using that by simp
    note no = not_own_block [OF ok 2(2) d none]
    show ?thesis by (rule frame; rule no; assumption)
  qed
qed

section \<open>Inodes\<close>

definition ino_addr :: "nat \<Rightarrow> nat" where
  "ino_addr i = 3072 + 64 * i"

definition image :: "nat \<Rightarrow> mem \<Rightarrow> bool" where
  "image ni m \<longleftrightarrow> disk_ok m \<and> unat (os_firstinob m) = 3 \<and> unat (os_ninodes m) = ni"

lemma image_facts:
  assumes "image ni m" "i < ni"
  shows "freemap_end m = 3072" "inode_ok m (ino_addr i)" "ino_addr i + 64 \<le> 1024 * data_start m"
proof -
  show "freemap_end m = 3072" using assms by (simp add: image_def freemap_end_def)
  show ok: "inode_ok m (ino_addr i)" using assms by (auto simp: image_def inode_ok_def ino_addr_def)
  show "ino_addr i + 64 \<le> 1024 * data_start m"
    by (rule inode_ok_address(2) [OF _ ok]) (use assms in \<open>simp add: image_def\<close>)
qed

lemma image_super: "image ni m \<Longrightarrow> super_eq m m' \<Longrightarrow> disk_ok m' \<Longrightarrow> image ni m'"
  using super_eq_simps [of m m'] by (simp add: image_def super_eq_def)

lemma image_seal: "ready s \<Longrightarrow> image (ninodes s) (seal s)"
  using seal_disk [of s] by (simp add: image_def)

lemma ino_apart: "i \<noteq> j \<Longrightarrow> ino_addr i + 64 \<le> ino_addr j \<or> ino_addr j + 64 \<le> ino_addr i"
  by (auto simp: ino_addr_def)

definition empty_inode :: "mem \<Rightarrow> nat \<Rightarrow> bool" where
  "empty_inode m oi \<longleftrightarrow> (\<forall>x. oi \<le> x \<longrightarrow> x < oi + 64 \<longrightarrow> m x = 0)"

lemma empty_inode_file:
  assumes "image ni m" "i < ni" "empty_inode m (ino_addr i)"
  shows "file_ok m (ino_addr i) 0" "ptrs_clear m (ino_addr i) 0" "k < 16 \<Longrightarrow> ld32 m (ino_addr i + 4 * k) = 0"
proof -
  show "file_ok m (ino_addr i) 0" using assms(1) image_facts(2) [OF assms(1,2)] by (simp add: file_ok_def image_def)
  have zero: "ld32 m (ino_addr i + 4 * k) = 0" if "k < 16" for k
    using assms(3) that by (simp add: empty_inode_def ld32_def)
  then show "k < 16 \<Longrightarrow> ld32 m (ino_addr i + 4 * k) = 0" .
  show "ptrs_clear m (ino_addr i) 0"
    using zero [of 14] zero [of 15] by (simp add: ptrs_clear_def oi_indirect_def oi_indirect2_def)
qed

text \<open>The bytes of an inode are none of the bytes that adding a block to another file may change.\<close>

lemma inode_not_own:
  assumes im: "image ni m" "i < ni" and fok: "file_ok m oi n" and apart: "ino_addr i + 64 \<le> oi \<or> oi + 64 \<le> ino_addr i"
    and x: "ino_addr i \<le> x" "x < ino_addr i + 64"
  shows "\<not> own_bytes m oi n x" "freemap_end m \<le> x"
proof -
  show "freemap_end m \<le> x" using image_facts(1) [OF im] x by (simp add: ino_addr_def)
  have "\<not> in_block c x" if "data_block m c" for c
  proof -
    have "1024 * data_start m \<le> 1024 * c" using that by (simp add: data_block_def)
    then show ?thesis using image_facts(3) [OF im] x(2) unfolding in_block_def by linarith
  qed
  then show "\<not> own_bytes m oi n x"
    using apart x file_block_facts(1) [OF fok] free_is_data [OF file_inode(1) [OF fok]]
    by (auto simp: own_bytes_def pointer_block_def)
qed

section \<open>Directories and files\<close>

definition holds :: "mem \<Rightarrow> nat \<Rightarrow> nat \<Rightarrow> nat \<Rightarrow> (nat \<Rightarrow> u8) \<Rightarrow> bool" where
  "holds m oi n len f \<longleftrightarrow> file_ok m oi n \<and> ptrs_clear m oi n \<and> len \<le> 1024 * n \<and> (\<forall>k < len. m (byte_addr m oi k) = f k)"

lemma same_file_holds:
  assumes "same_file m m' oi n" "holds m oi n len f"
  shows "holds m' oi n len f"
  using assms same_file_bytes [OF assms(1)] by (simp add: holds_def same_file_def)

text \<open>A directory entry in 128 bytes, and the bytes of a directory with the entries \<open>es\<close>.\<close>

definition entry_mem :: "nat \<Rightarrow> u8 list \<Rightarrow> mem" where
  "entry_mem ino name = mem_put (st32 (\<lambda>_. 0) 0 (of_nat ino)) 4 name"

definition dir_byte :: "(nat \<times> u8 list) list \<Rightarrow> nat \<Rightarrow> u8" where
  "dir_byte es k = (if k div 128 < length es then entry_mem (fst (es ! (k div 128))) (snd (es ! (k div 128))) (k mod 128) else 0)"

definition header :: "mem \<Rightarrow> nat \<Rightarrow> u32 \<Rightarrow> u32 \<Rightarrow> u32 \<Rightarrow> u32 \<Rightarrow> bool" where
  "header m oi sz ftype nlink mode \<longleftrightarrow> ld32 m oi = sz \<and> ld32 m (oi + 4) = ftype \<and> ld32 m (oi + 8) = nlink \<and> ld32 m (oi + 12) = mode"

definition regular :: "mem \<Rightarrow> nat \<Rightarrow> u8 list \<Rightarrow> bool" where
  "regular m oi bs \<longleftrightarrow> holds m oi (blocks_for (length bs)) (length bs) (\<lambda>k. bs ! k) \<and>
     header m oi (of_nat (length bs)) OSPFS_FTYPE_REG 1 0x1B6"

definition root_dir :: "mem \<Rightarrow> nat \<Rightarrow> (nat \<times> u8 list) list \<Rightarrow> bool" where
  "root_dir m nd es \<longleftrightarrow> length es \<le> 8 * nd \<and> holds m (ino_addr 1) nd (1024 * nd) (dir_byte es) \<and>
     header m (ino_addr 1) (of_nat (1024 * nd)) OSPFS_FTYPE_DIR 1 0x1FF"

definition apart_from_root :: "mem \<Rightarrow> nat \<Rightarrow> nat \<Rightarrow> nat \<Rightarrow> bool" where
  "apart_from_root m nd oi n \<longleftrightarrow> (\<forall>y \<in> nodes nd. \<forall>z \<in> nodes n. block_of m (ino_addr 1) y \<noteq> block_of m oi z)"

text \<open>The root with the entries \<open>es\<close> in \<open>nd\<close> blocks, files with the bytes \<open>bss\<close>, and empty inodes from \<open>e\<close> on.\<close>

definition cat_mem :: "nat \<Rightarrow> nat \<Rightarrow> (nat \<times> u8 list) list \<Rightarrow> u8 list list \<Rightarrow> nat \<Rightarrow> mem \<Rightarrow> bool" where
  "cat_mem ni nd es bss e m \<longleftrightarrow> image ni m \<and> e \<le> ni \<and> length bss + 2 \<le> e \<and> root_dir m nd es \<and>
     (\<forall>i < length bss. regular m (ino_addr (i + 2)) (bss ! i) \<and>
        apart_from_root m nd (ino_addr (i + 2)) (blocks_for (length (bss ! i)))) \<and>
     (\<forall>i. e \<le> i \<longrightarrow> i < ni \<longrightarrow> empty_inode m (ino_addr i))"

lemma same_file_header:
  assumes "same_file m m' oi n" "header m oi a b c d"
  shows "header m' oi a b c d"
  using assms(2) same_file_words [OF assms(1), of oi] same_file_words [OF assms(1), of "oi + 4"]
    same_file_words [OF assms(1), of "oi + 8"] same_file_words [OF assms(1), of "oi + 12"] by (simp add: header_def)

lemma same_file_regular: "same_file m m' oi (blocks_for (length bs)) \<Longrightarrow> regular m oi bs \<Longrightarrow> regular m' oi bs"
  using same_file_holds same_file_header by (fastforce simp: regular_def)

lemma cat_memD:
  assumes "cat_mem ni nd es bss e m"
  shows "image ni m" "e \<le> ni" "length bss + 2 \<le> e" "root_dir m nd es" "i < length bss \<Longrightarrow> regular m (ino_addr (i + 2)) (bss ! i)"
    "i < length bss \<Longrightarrow> apart_from_root m nd (ino_addr (i + 2)) (blocks_for (length (bss ! i)))"
    "e \<le> i \<Longrightarrow> i < ni \<Longrightarrow> empty_inode m (ino_addr i)"
    "i < length bss \<Longrightarrow> file_ok m (ino_addr (i + 2)) (blocks_for (length (bss ! i)))"
    "file_ok m (ino_addr 1) nd" "ptrs_clear m (ino_addr 1) nd" "length es \<le> 8 * nd" "1 < ni"
  using assms by (simp_all add: cat_mem_def regular_def root_dir_def holds_def)

text \<open>The picture after a change of the root only.\<close>

lemma cat_memI:
  assumes c: "cat_mem ni nd es bss e m" and eq: "super_eq m m'" "disk_ok m'" and root: "root_dir m' nd' es'"
    and files: "\<And>i. i < length bss \<Longrightarrow> same_file m m' (ino_addr (i + 2)) (blocks_for (length (bss ! i))) \<and>
      apart_from_root m' nd' (ino_addr (i + 2)) (blocks_for (length (bss ! i)))"
    and e: "e \<le> e'" "e' \<le> ni" and empty: "\<And>i x. \<lbrakk>e' \<le> i; i < ni; ino_addr i \<le> x; x < ino_addr i + 64\<rbrakk> \<Longrightarrow> m' x = m x"
  shows "cat_mem ni nd' es' bss e' m'"
proof -
  note d = cat_memD [OF c]
  have "empty_inode m' (ino_addr i)" if "e' \<le> i" "i < ni" for i
    using d(7) [of i] that e(1) empty [OF that] by (simp add: empty_inode_def)
  moreover have "regular m' (ino_addr (i + 2)) (bss ! i)" if "i < length bss" for i
    using same_file_regular d(5) [OF that] files [OF that] by blast
  ultimately show ?thesis
    using image_super [OF d(1) eq] root files e d(3) by (simp add: cat_mem_def)
qed

end
