(* ===== verification/FormatMoves.thy ===== *)
theory FormatMoves
  imports FormatImage
begin

text \<open>
  The changes of the image that adding a file consists of: a block for the directory, an entry, and
  a file at the first empty inode.
\<close>

lemma outside_same_file:
  assumes fok: "file_ok m oi n" and ch: "\<And>x. m' x \<noteq> m x \<Longrightarrow> freemap_end m \<le> x \<and> \<not> owns m oi n x"
  shows "same_file m m' oi n" "super_eq m m'" "disk_ok m'" "free_set m' = free_set m"
proof -
  have low: "m' x = m x" if "x < freemap_end m" for x using ch [of x] that by auto
  note l = low_cong [OF file_inode(1) [OF fok] low]
  show eq: "super_eq m m'" "disk_ok m'" "free_set m' = free_set m" by (rule l; assumption)+
  show "same_file m m' oi n"
    by (rule same_fileI [OF fok eq(1,2)]) (use ch file_block_facts(2) [OF fok] eq(3) in auto)
qed

lemma ino_not_owned:
  assumes im: "image ni m" "i < ni" and fok: "file_ok m oi n" and apart: "ino_addr i + 64 \<le> oi \<or> oi + 64 \<le> ino_addr i"
    and x: "ino_addr i \<le> x" "x < ino_addr i + 64"
  shows "\<not> owns m oi n x"
proof
  assume "owns m oi n x"
  then obtain z where z: "z \<in> nodes n" "in_block (block_of m oi z) x" using apart x by (auto simp: owns_def)
  have "1024 * data_start m \<le> 1024 * block_of m oi z" by (rule file_block_facts(3) [OF fok z(1)])
  then show False using image_facts(3) [OF im] x(2) z(2) unfolding in_block_def by linarith
qed

section \<open>A block for the directory\<close>

lemma cat_new_block:
  assumes c: "cat_mem ni nd es bss e m" and a: "appended m (ino_addr 1) nd b d m1" and zero: "\<And>x. in_block b x \<Longrightarrow> d x = 0"
  shows "cat_mem ni (Suc nd) es bss e (st32 m1 (ino_addr 1) (of_nat (1024 * Suc nd)))"
    "block_of (st32 m1 (ino_addr 1) (of_nat (1024 * Suc nd))) (ino_addr 1) (Data nd) = b"
proof -
  let ?R = "ino_addr 1" and ?m2 = "st32 m1 (ino_addr 1) (of_nat (1024 * Suc nd))"
  note D = cat_memD [OF c]
  have a': "file_ok m1 ?R (Suc nd)" "ptrs_clear m1 ?R (Suc nd)" "super_eq m m1"
    "\<forall>i < 4. ld32 m1 (?R + 4 * i) = ld32 m (?R + 4 * i)" "\<forall>y \<in> nodes nd. block_of m1 ?R y = block_of m ?R y"
    "block_of m1 ?R ` new_nodes nd \<subseteq> free_set m"
    "\<And>x. \<lbrakk>freemap_end m \<le> x; \<not> own_bytes m ?R nd x\<rbrakk> \<Longrightarrow> m1 x = m x"
    using a by (simp_all add: appended_def)
  have im1: "image ni m1" by (rule image_super [OF D(1) a'(3) file_inode(1) [OF a'(1)]])
  have high: "freemap_end m1 \<le> ?R" by (rule file_inode(3) [OF a'(1)])
  have out: "?m2 x \<noteq> m1 x \<Longrightarrow> ?R \<le> x \<and> x < ?R + 4" for x using st32_other_byte [of x ?R m1] by (metis not_le)
  have blocks: "oi + 64 \<le> 1024 * block_of m1 oi y" if "file_ok m1 oi n" "y \<in> nodes n" for oi n y
    by (rule file_inode(5) [OF that(1) file_block_facts(1) [OF that]])
  have ch: "\<forall>x. ?m2 x \<noteq> m1 x \<longrightarrow> freemap_end m1 \<le> x \<and> \<not> (?R + 16 \<le> x \<and> x < ?R + 64) \<and>
      \<not> (\<exists>y \<in> nodes (Suc nd). (\<forall>i. y \<noteq> Data i) \<and> in_block (block_of m1 ?R y) x)"
    using out blocks [OF a'(1)] high by (fastforce simp: in_block_def)
  note t = tweak [OF a'(1) ch]
  have bytes: "?m2 (byte_addr ?m2 ?R k) = dir_byte es k" if k: "k < 1024 * Suc nd" for k
  proof -
    have "in_block (block_of m1 ?R (Data (k div 1024))) (byte_addr m1 ?R k)" by (simp add: in_block_def byte_addr_def)
    moreover have "k div 1024 < Suc nd" using k by (simp add: less_mult_imp_div_less mult.commute)
    then have "Data (k div 1024) \<in> nodes (Suc nd)" by simp
    ultimately have "?R + 64 \<le> byte_addr m1 ?R k" using blocks [OF a'(1)] by (fastforce simp: in_block_def)
    then have "?m2 (byte_addr ?m2 ?R k) = m1 (byte_addr m1 ?R k)" using t(6) [OF k] by (simp add: st32_other_byte)
    also have "\<dots> = dir_byte es k"
    proof (cases "k < 1024 * nd")
      case True
      then have "m1 (byte_addr m1 ?R k) = m (byte_addr m ?R k)" using appended_bytes(1,2) [OF D(9) a] by simp
      then show ?thesis using D(4) True by (simp add: root_dir_def holds_def)
    next
      case False
      then obtain j where j: "k = 1024 * nd + j" "j < 1024" using k by (metis add_diff_inverse_nat mult_Suc_right
            nat_add_left_cancel_less add.commute)
      have "length es \<le> k div 128" using D(11) False by (simp add: less_eq_div_iff_mult_less_eq)
      then show ?thesis using appended_bytes(3) [OF D(9) a j(2)] zero [of "1024 * b + j"] j
        by (simp add: dir_byte_def in_block_def)
    qed
    finally show ?thesis .
  qed
  have words: "ld32 ?m2 (?R + 4 * i) = ld32 m (?R + 4 * i)" if "0 < i" "i < 4" for i
    using a'(4) that by (simp add: ld32_st32_apart)
  have "header ?m2 ?R (of_nat (1024 * Suc nd)) OSPFS_FTYPE_DIR 1 0x1FF"
    using D(4) words [of 1] words [of 2] words [of 3] by (simp add: root_dir_def header_def ld32_st32_same)
  then have root: "root_dir ?m2 (Suc nd) es" using t(4,7) a'(2) bytes D(11) by (simp add: root_dir_def holds_def)
  have files: "same_file m ?m2 (ino_addr (i + 2)) (blocks_for (length (bss ! i))) \<and>
      apart_from_root ?m2 (Suc nd) (ino_addr (i + 2)) (blocks_for (length (bss ! i)))" if i: "i < length bss" for i
  proof -
    let ?oi = "ino_addr (i + 2)" and ?n = "blocks_for (length (bss ! i))"
    have apart: "?oi + 64 \<le> ?R \<or> ?R + 64 \<le> ?oi" by (rule ino_apart) simp
    note fok = D(8) [OF i] and away = D(6) [OF i]
    have one: "same_file m m1 ?oi ?n"
      by (rule appended_same_file [OF D(9) a fok apart]) (use away in \<open>auto simp: apart_from_root_def\<close>)
    then have fok1: "file_ok m1 ?oi ?n" by (simp add: same_file_def)
    have two: "same_file m1 ?m2 ?oi ?n"
    proof (rule outside_same_file(1) [OF fok1])
      show "freemap_end m1 \<le> x \<and> \<not> owns m1 ?oi ?n x" if "?m2 x \<noteq> m1 x" for x
        using out [OF that] high ino_not_owned [OF im1 D(12) fok1, of x] apart by auto
    qed
    have same: "same_file m ?m2 ?oi ?n" by (rule same_file_trans [OF one two])
    have "block_of ?m2 ?R y \<noteq> block_of ?m2 ?oi z" if yz: "y \<in> nodes (Suc nd)" "z \<in> nodes ?n" for y z
    proof -
      have z: "block_of ?m2 ?oi z = block_of m ?oi z" using same yz(2) by (simp add: same_file_def)
      consider "y \<in> nodes nd" | "y \<in> new_nodes nd" using yz(1) by (auto simp: nodes_Suc)
      then show ?thesis
      proof cases
        case 1
        then show ?thesis using t(5) [OF yz(1)] a'(5) away yz(2) z by (simp add: apart_from_root_def)
      next
        case 2
        then have "block_of m1 ?R y \<in> free_set m" using a'(6) by blast
        then show ?thesis using t(5) [OF yz(1)] file_block_facts(2) [OF fok yz(2)] z by metis
      qed
    qed
    then show ?thesis using same by (simp add: apart_from_root_def)
  qed
  have "Data nd \<in> nodes (Suc nd)" by simp
  from t(5) [OF this] show "block_of ?m2 ?R (Data nd) = b" using a by (simp add: appended_def)
  show "cat_mem ni (Suc nd) es bss e ?m2"
  proof (rule cat_memI [OF c super_eq_trans [OF a'(3) t(1)] t(3) root files order_refl D(2)])
    fix i x
    assume i: "e \<le> i" "i < ni" and x: "ino_addr i \<le> x" "x < ino_addr i + 64"
    have ne: "i \<noteq> 1" using i(1) D(3) by simp
    note no = inode_not_own [OF D(1) i(2) D(9) ino_apart [OF ne] x]
    have "?m2 x = m1 x" using x ino_apart [OF ne] by (intro st32_other_byte) auto
    also have "\<dots> = m x" by (rule a'(7) [OF no(2,1)])
    finally show "?m2 x = m x" .
  qed
qed

section \<open>Bytes of the directory\<close>

lemma cat_dir_write:
  assumes c: "cat_mem ni nd es bss e m" and i: "i < nd"
    and out: "\<And>x. m' x \<noteq> m x \<Longrightarrow> in_block (block_of m (ino_addr 1) (Data i)) x"
    and bytes: "\<And>k. k < 1024 * nd \<Longrightarrow> m' (byte_addr m (ino_addr 1) k) = dir_byte es' k" and len: "length es' \<le> 8 * nd"
  shows "cat_mem ni nd es' bss e m'" "k < 1024 * nd \<Longrightarrow> byte_addr m' (ino_addr 1) k = byte_addr m (ino_addr 1) k"
proof -
  let ?R = "ino_addr 1" and ?B = "block_of m (ino_addr 1) (Data i)"
  note D = cat_memD [OF c]
  have node: "Data i \<in> nodes nd" using i by simp
  note dB = file_block_facts(1) [OF D(9) node]
  have above: "ino_addr j + 64 \<le> 1024 * ?B" if "j < ni" for j
  proof -
    have "1024 * data_start m \<le> 1024 * ?B" using dB by (simp add: data_block_def)
    then show ?thesis using image_facts(3) [OF D(1) that] by linarith
  qed
  have high: "freemap_end m \<le> x" if "in_block ?B x" for x
    using file_inode(3) [OF D(9)] above [OF D(12)] that by (simp add: in_block_def)
  have uniq: "c = ?B" if "in_block c x" "in_block ?B x" for c x using in_block_unique [OF that(2,1)] .
  have ch: "\<forall>x. m' x \<noteq> m x \<longrightarrow> freemap_end m \<le> x \<and> \<not> (?R + 16 \<le> x \<and> x < ?R + 64) \<and>
      \<not> (\<exists>y \<in> nodes nd. (\<forall>i. y \<noteq> Data i) \<and> in_block (block_of m ?R y) x)"
  proof (intro allI impI conjI)
    fix x
    assume "m' x \<noteq> m x"
    then have x: "in_block ?B x" by (rule out)
    show "freemap_end m \<le> x" by (rule high [OF x])
    show "\<not> (?R + 16 \<le> x \<and> x < ?R + 64)" using x above [OF D(12)] by (simp add: in_block_def)
    show "\<not> (\<exists>y \<in> nodes nd. (\<forall>i. y \<noteq> Data i) \<and> in_block (block_of m ?R y) x)"
    proof
      assume "\<exists>y \<in> nodes nd. (\<forall>i. y \<noteq> Data i) \<and> in_block (block_of m ?R y) x"
      then obtain y where y: "y \<in> nodes nd" "\<forall>i. y \<noteq> Data i" "in_block (block_of m ?R y) x" by blast
      have "inj_on (block_of m ?R) (nodes nd)" using D(9) by (simp add: file_ok_def)
      from inj_onD [OF this uniq [OF y(3) x] y(1) node] show False using y(2) by blast
    qed
  qed
  note t = tweak [OF D(9) ch]
  have low: "m' x = m x" if "x < ino_addr j + 64" "j < ni" for x j
    using out [of x] above [OF that(2)] that(1) by (auto simp: in_block_def)
  have "header m' ?R (of_nat (1024 * nd)) OSPFS_FTYPE_DIR 1 0x1FF"
    using D(4) ld32_frame [of m' ?R m] ld32_frame [of m' "?R + 4" m] ld32_frame [of m' "?R + 8" m] ld32_frame [of m' "?R + 12" m]
      low [OF _ D(12)] by (simp add: root_dir_def header_def)
  then have root: "root_dir m' nd es'" using t(4,6,7) D(10) bytes len by (simp add: root_dir_def holds_def)
  have files: "same_file m m' (ino_addr (j + 2)) (blocks_for (length (bss ! j))) \<and>
      apart_from_root m' nd (ino_addr (j + 2)) (blocks_for (length (bss ! j)))" if j: "j < length bss" for j
  proof -
    let ?oi = "ino_addr (j + 2)" and ?n = "blocks_for (length (bss ! j))"
    have same: "same_file m m' ?oi ?n"
    proof (rule outside_same_file(1) [OF D(8) [OF j]])
      fix x
      assume "m' x \<noteq> m x"
      then have x: "in_block ?B x" by (rule out)
      have "x \<notin> {?oi ..< ?oi + 64}" using x above [of "j + 2"] D(2,3) j by (simp add: in_block_def)
      moreover have "\<not> in_block (block_of m ?oi z) x" if "z \<in> nodes ?n" for z
      proof
        assume "in_block (block_of m ?oi z) x"
        from uniq [OF this x] show False using D(6) [OF j] node that unfolding apart_from_root_def by metis
      qed
      ultimately show "freemap_end m \<le> x \<and> \<not> owns m ?oi ?n x" using high [OF x] by (auto simp: owns_def)
    qed
    then show ?thesis using D(6) [OF j] t(5) by (simp add: apart_from_root_def same_file_def)
  qed
  show "cat_mem ni nd es' bss e m'" by (rule cat_memI [OF c t(1,3) root files order_refl D(2)]) (use low in auto)
  show "k < 1024 * nd \<Longrightarrow> byte_addr m' ?R k = byte_addr m ?R k" by (rule t(6))
qed

text \<open>An entry lies in one block.\<close>

lemma entry_addr: "j < 128 \<Longrightarrow> byte_addr m oi (128 * n + j) = byte_addr m oi (128 * n) + j"
proof -
  assume j: "j < 128"
  have n: "n = 8 * (n div 8) + n mod 8" "n mod 8 < 8" by simp_all
  obtain q r where q: "n = 8 * q + r" "r < 8" using n by blast
  then have "128 * n + j = 1024 * q + (128 * r + j)" "128 * n = 1024 * q + 128 * r" "128 * r + j < 1024" "128 * r < 1024"
    using j by simp_all
  moreover have "(1024 * q + k) div 1024 = q \<and> (1024 * q + k) mod 1024 = k" if "k < 1024" for k using that by simp
  ultimately have "(128 * n + j) div 1024 = q" "(128 * n + j) mod 1024 = 128 * r + j" "(128 * n) div 1024 = q" "(128 * n) mod 1024 = 128 * r"
    by metis+
  then show ?thesis by (simp add: byte_addr_def)
qed

lemma cat_entry_write:
  assumes c: "cat_mem ni nd es bss e m" and n: "n < 8 * nd" and len: "length es' \<le> 8 * nd"
    and ch: "\<And>x. m' x = (if byte_addr m (ino_addr 1) (128 * n) \<le> x \<and> x < byte_addr m (ino_addr 1) (128 * n) + 128
      then entry_mem ino nm (x - byte_addr m (ino_addr 1) (128 * n)) else m x)"
    and es': "\<And>k. dir_byte es' k = (if k div 128 = n then entry_mem ino nm (k mod 128) else dir_byte es k)"
  shows "cat_mem ni nd es' bss e m'" "k < 1024 * nd \<Longrightarrow> byte_addr m' (ino_addr 1) k = byte_addr m (ino_addr 1) k"
proof -
  let ?R = "ino_addr 1"
  let ?A = "byte_addr m ?R (128 * n)"
  note D = cat_memD [OF c]
  have i: "n div 8 < nd" using n by (simp add: less_mult_imp_div_less mult.commute)
  have block: "in_block (block_of m ?R (Data (n div 8))) x" if "?A \<le> x" "x < ?A + 128" for x
  proof -
    have d: "(128 * n) div 1024 = n div 8" "(128 * n) mod 1024 = 128 * (n mod 8)"
      using div_mult2_eq [of "128 * n" 128 8] mult_mod_right [of 128 n 8] by simp_all
    have "n mod 8 < 8" by simp
    then have "128 * (n mod 8) + 128 \<le> 1024" by linarith
    then show ?thesis using that d by (simp add: byte_addr_def in_block_def)
  qed
  have out: "in_block (block_of m ?R (Data (n div 8))) x" if "m' x \<noteq> m x" for x using that ch [of x] block by metis
  have bytes: "m' (byte_addr m ?R k) = dir_byte es' k" if k: "k < 1024 * nd" for k
  proof -
    have split: "k = 128 * (k div 128) + k mod 128" by simp
    show ?thesis
    proof (cases "k div 128 = n")
      case True
      have "byte_addr m ?R k = ?A + k mod 128" using entry_addr [of "k mod 128" m ?R n] split True by simp
      then show ?thesis using ch [of "byte_addr m ?R k"] True es' [of k] by simp
    next
      case False
      have "\<not> (?A \<le> byte_addr m ?R k \<and> byte_addr m ?R k < ?A + 128)"
      proof
        assume a: "?A \<le> byte_addr m ?R k \<and> byte_addr m ?R k < ?A + 128"
        then obtain j where j: "byte_addr m ?R k = ?A + j" "j < 128" by (metis le_iff_add nat_add_left_cancel_less)
        then have "byte_addr m ?R k = byte_addr m ?R (128 * n + j)" using entry_addr [OF j(2), of m ?R n] by simp
        moreover have "128 * n + j < 1024 * nd" using n j(2) by simp
        ultimately have "k = 128 * n + j" using byte_addr_inj [OF D(9) k] by blast
        then show False using False j(2) by simp
      qed
      then have "m' (byte_addr m ?R k) = m (byte_addr m ?R k)" using ch by auto
      then show ?thesis using D(4) k False es' [of k] by (simp add: root_dir_def holds_def)
    qed
  qed
  note w = cat_dir_write [OF c i out bytes len]
  show "cat_mem ni nd es' bss e m'" by (rule w(1))
  show "k < 1024 * nd \<Longrightarrow> byte_addr m' ?R k = byte_addr m ?R k" by (rule w(2))
qed

lemma dir_byte_snoc: "dir_byte (es @ [(ino, nm)]) k = (if k div 128 = length es then entry_mem ino nm (k mod 128) else dir_byte es k)"
  by (auto simp: dir_byte_def nth_append)

lemma entry_byte:
  assumes c: "cat_mem ni nd es bss e m" and n: "n < 8 * nd" and j: "j < 128"
  shows "m (byte_addr m (ino_addr 1) (128 * n) + j) = dir_byte es (128 * n + j)"
proof -
  have "128 * n + j < 1024 * nd" using n j by simp
  moreover have "\<forall>k < 1024 * nd. m (byte_addr m (ino_addr 1) k) = dir_byte es k"
    using cat_memD(4) [OF c] by (simp add: root_dir_def holds_def)
  ultimately show ?thesis unfolding entry_addr [OF j, symmetric] by blast
qed

lemma st32_at: "j < 4 \<Longrightarrow> st32 m a v (a + j) = st32 (\<lambda>_. 0) 0 v j"
  by (auto simp: st32_def numeral_eq_Suc less_Suc_eq)

text \<open>The name goes into the next entry, then its inode number.\<close>

lemma cat_name:
  assumes c: "cat_mem ni nd es bss e m" and n: "length es < 8 * nd" and nm: "length nm \<le> 123"
  shows "cat_mem ni nd (es @ [(0, nm)]) bss e (mem_put m (byte_addr m (ino_addr 1) (128 * length es) + 4) (nm @ [0]))"
    "k < 1024 * nd \<Longrightarrow> byte_addr (mem_put m (byte_addr m (ino_addr 1) (128 * length es) + 4) (nm @ [0])) (ino_addr 1) k =
       byte_addr m (ino_addr 1) k"
proof -
  let ?A = "byte_addr m (ino_addr 1) (128 * length es)"
  have zero: "m (?A + j) = 0" if "j < 128" for j using entry_byte [OF c n that] that by (simp add: dir_byte_def)
  have ch: "mem_put m (?A + 4) (nm @ [0]) x = (if ?A \<le> x \<and> x < ?A + 128 then entry_mem 0 nm (x - ?A) else m x)" for x
  proof (cases "?A \<le> x \<and> x < ?A + 128")
    case True
    then obtain j where j: "x = ?A + j" "j < 128" by (metis le_iff_add nat_add_left_cancel_less)
    have "st32 (\<lambda>_. 0) 0 0 j = 0" by (simp add: st32_def)
    then show ?thesis using zero [OF j(2)] j nm by (auto simp: entry_mem_def mem_put_def nth_append)
  next
    case False
    then show ?thesis using nm by (auto simp: mem_put_def)
  qed
  have len: "length (es @ [(0, nm)]) \<le> 8 * nd" using n by simp
  note w = cat_entry_write [OF c n len ch dir_byte_snoc]
  show "cat_mem ni nd (es @ [(0, nm)]) bss e (mem_put m (?A + 4) (nm @ [0]))" by (rule w(1))
  show "k < 1024 * nd \<Longrightarrow> byte_addr (mem_put m (?A + 4) (nm @ [0])) (ino_addr 1) k = byte_addr m (ino_addr 1) k"
    by (rule w(2))
qed

lemma cat_number:
  assumes c: "cat_mem ni nd (es @ [(0, nm)]) bss e m" and nm: "length nm \<le> 123"
  shows "cat_mem ni nd (es @ [(ino, nm)]) bss e (st32 m (byte_addr m (ino_addr 1) (128 * length es)) (of_nat ino))"
proof -
  let ?A = "byte_addr m (ino_addr 1) (128 * length es)"
  have n: "length es < 8 * nd" using cat_memD(11) [OF c] by simp
  have old: "m (?A + j) = entry_mem 0 nm j" if "j < 128" for j
    using entry_byte [OF c n that] that by (simp add: dir_byte_snoc)
  show ?thesis
  proof (rule cat_entry_write(1) [OF c n, where ino = ino and nm = nm])
    show "st32 m ?A (of_nat ino) x = (if ?A \<le> x \<and> x < ?A + 128 then entry_mem ino nm (x - ?A) else m x)" for x
    proof (cases "?A \<le> x \<and> x < ?A + 128")
      case True
      then obtain j where j: "x = ?A + j" "j < 128" by (metis le_iff_add nat_add_left_cancel_less)
      show ?thesis
      proof (cases "j < 4")
        case True
        then show ?thesis using st32_at [OF True, of m ?A] j by (simp add: entry_mem_def mem_put_out)
      next
        case False
        then have "st32 m ?A (of_nat ino) (?A + j) = m (?A + j)" by (intro st32_other_byte) simp
        moreover have "st32 (\<lambda>_. 0) 0 v j = 0" for v using False by (intro st32_other_byte) simp
        ultimately show ?thesis using old [OF j(2)] j by (simp add: entry_mem_def mem_put_def)
      qed
    next
      case False
      then show ?thesis by (auto intro: st32_other_byte)
    qed
  qed (use n in \<open>simp_all add: dir_byte_snoc\<close>)
qed

section \<open>A file at the first empty inode\<close>

lemma cat_away:
  assumes c: "cat_mem ni nd es bss e m" and e: "e \<le> i" "i < ni" "e' = Suc i" and eq: "super_eq m m'" "disk_ok m'" "free_set m' \<subseteq> free_set m"
    and frame: "\<And>x. \<lbrakk>freemap_end m \<le> x; \<not> own_bytes m (ino_addr i) 0 x\<rbrakk> \<Longrightarrow> m' x = m x"
  shows "cat_mem ni nd es bss e' m'" "same_file m m' (ino_addr 1) nd"
proof -
  let ?oi = "ino_addr i"
  note D = cat_memD [OF c]
  have ok: "file_ok m ?oi 0" using D(1) image_facts(2) [OF D(1) e(2)] by (simp add: file_ok_def image_def)
  have away: "same_file m m' oi n" if "file_ok m oi n" "oi + 64 \<le> ?oi \<or> ?oi + 64 \<le> oi" for oi n
    using away_same_file [OF that(1) ok eq] frame that(2) by blast
  have ne: "1 \<noteq> i" using e(1) D(3) by simp
  show root: "same_file m m' (ino_addr 1) nd" by (rule away [OF D(9) ino_apart [OF ne]])
  then have r: "root_dir m' nd es" using D(4) same_file_holds same_file_header by (fastforce simp: root_dir_def)
  show "cat_mem ni nd es bss e' m'"
  proof (rule cat_memI [OF c eq(1,2) r])
    show "e \<le> e'" "e' \<le> ni" using e by simp_all
    fix j
    assume j: "j < length bss"
    have "j + 2 \<noteq> i" using e(1) D(3) j by simp
    then have "same_file m m' (ino_addr (j + 2)) (blocks_for (length (bss ! j)))" by (intro away [OF D(8) [OF j]] ino_apart)
    then show "same_file m m' (ino_addr (j + 2)) (blocks_for (length (bss ! j))) \<and>
        apart_from_root m' nd (ino_addr (j + 2)) (blocks_for (length (bss ! j)))"
      using D(6) [OF j] root by (simp add: apart_from_root_def same_file_def)
  next
    fix j x
    assume j: "e' \<le> j" "j < ni" and x: "ino_addr j \<le> x" "x < ino_addr j + 64"
    have "j \<noteq> i" using j(1) e(3) by simp
    note no = inode_not_own [OF D(1) j(2) ok ino_apart [OF this] x]
    show "m' x = m x" by (rule frame [OF no(2,1)])
  qed
qed

lemma cat_add_file:
  assumes c: "cat_mem ni nd es bss e m" and e: "e = length bss + 3" and f: "regular m (ino_addr (length bss + 2)) bs"
    "apart_from_root m nd (ino_addr (length bss + 2)) (blocks_for (length bs))"
  shows "cat_mem ni nd es (bss @ [bs]) e m"
proof -
  have "regular m (ino_addr (i + 2)) ((bss @ [bs]) ! i) \<and>
      apart_from_root m nd (ino_addr (i + 2)) (blocks_for (length ((bss @ [bs]) ! i)))" if "i < length (bss @ [bs])" for i
    using cat_memD(5,6) [OF c, of i] f that by (cases "i < length bss") (auto simp: nth_append less_Suc_eq)
  then show ?thesis using c e by (simp add: cat_mem_def)
qed

end
