(* ===== verification/FormatEntry.thy ===== *)
theory FormatEntry
  imports FormatMoves
begin

text \<open>
  \<open>allocdirentry\<close> of the image builder: the last block of the root directory, or a new one, and the
  first entry of it without an inode number.
\<close>

section \<open>Pointers and releases\<close>

lemma get_pointed:
  assumes s: "ready s" and p: "refs s p no" "3 \<le> no" "off + 4 \<le> 1024" and w: "ld32 (seal s) (1024 * no + off) = w" "unat w = c"
    and c: "0 < c" "c < nextb s" "pins (blocks s) c = 0" and room: "card (pinned (blocks s)) < 16"
  shows "ends (lift (getblk (unat (peek p off s)) False type)) s (\<lambda>q s'. evolves s s' \<and> refs s' q c \<and>
    pins (blocks s') = (pins (blocks s))(c := 1) \<and> seal s' = seal s \<and> nextb s' = nextb s)"
proof -
  have "unat (peek p off s) = c" using peek_seal [OF s p] w by simp
  then show ?thesis using ends_mono [OF get_old [OF s c(1,2), of type]] c(3) room by (simp add: ends_iff)
qed

text \<open>Releasing a block while others that were got later are held.\<close>

lemma put_keep:
  assumes ev: "evolves s s1" and q: "refs s1 q no" and mono: "\<And>c. pins (blocks s) c \<le> ((pins (blocks s1))(no := pins (blocks s1) no - 1)) c"
  shows "ends (lift (putblk q)) s1 (\<lambda>_ s2. evolves s s2 \<and> pins (blocks s2) = (pins (blocks s1))(no := pins (blocks s1) no - 1) \<and>
    seal s2 = seal s1 \<and> nextb s2 = nextb s1 \<and> (\<forall>p c. refs s1 p c \<longrightarrow> 0 < pins (blocks s2) c \<longrightarrow> refs s2 p c))"
proof -
  have s1: "ready s1" using ev by (simp add: evolves_def)
  have ok: "cache_ok (blocks s1)" "slot_holds (blocks s1) q no" using s1 q by (simp_all add: ready_def refs_def)
  show ?thesis
    unfolding ends_lift
  proof (rule ends_mono [OF putblk_ends [OF ok]])
    fix u :: unit and b
    let ?s = "s1\<lparr>blocks := b\<rparr>"
    assume "same_slots (blocks s1) b \<and> view b = view (blocks s1) \<and> pins b = (pins (blocks s1))(no := pins (blocks s1) no - 1)"
    then have b: "cache_ok b" "nblocks b = nblocks (blocks s1)" "kind b = kind (blocks s1)"
      "\<And>j c. slot_holds b j c = slot_holds (blocks s1) j c" "view b = view (blocks s1)"
      "pins b = (pins (blocks s1))(no := pins (blocks s1) no - 1)"
      by (auto simp: same_slots_def)
    have "c < nextb s1" if "0 < pins b c" for c
    proof -
      have "pins b c \<le> pins (blocks s1) c" by (simp add: b(6))
      then show ?thesis using that ready_facts(8) [OF s1, of c] by linarith
    qed
    then have "ready ?s" using s1 b by (simp add: ready_def)
    moreover have "pins (blocks s) c \<le> pins b c" for c using mono unfolding b(6) .
    ultimately have "evolves s ?s" using ev b(2-4) by (simp add: evolves_def)
    moreover have "seal ?s = seal s1" by (simp add: seal_def b)
    ultimately show "evolves s ?s \<and> pins (blocks ?s) = (pins (blocks s1))(no := pins (blocks s1) no - 1) \<and> seal ?s = seal s1 \<and>
        nextb ?s = nextb s1 \<and> (\<forall>p c. refs s1 p c \<longrightarrow> 0 < pins (blocks ?s) c \<longrightarrow> refs ?s p c)"
      using b by (simp add: refs_def)
  qed
qed

text \<open>The same with the pins that are left, and one block that stays.\<close>

lemma put_down:
  assumes ev: "evolves s s1" and q: "refs s1 q no" and P: "(pins (blocks s1))(no := pins (blocks s1) no - 1) = P"
    and mono: "\<And>c. pins (blocks s) c \<le> P c" and d: "refs s1 d c" "0 < P c" and m: "seal s1 = m" "nextb s1 = n"
  shows "ends (lift (putblk q)) s1 (\<lambda>_ s2. evolves s s2 \<and> refs s2 d c \<and> pins (blocks s2) = P \<and> seal s2 = m \<and> nextb s2 = n)"
proof (rule ends_mono [OF put_keep [OF ev q]])
  show "pins (blocks s) c \<le> ((pins (blocks s1))(no := pins (blocks s1) no - 1)) c" for c unfolding P by (rule mono)
next
  fix u :: unit and s2
  assume a: "evolves s s2 \<and> pins (blocks s2) = (pins (blocks s1))(no := pins (blocks s1) no - 1) \<and> seal s2 = seal s1 \<and>
    nextb s2 = nextb s1 \<and> (\<forall>p c. refs s1 p c \<longrightarrow> 0 < pins (blocks s2) c \<longrightarrow> refs s2 p c)"
  then have p: "pins (blocks s2) = P" unfolding P by blast
  moreover have "refs s2 d c" using a d unfolding p by blast
  ultimately show "evolves s s2 \<and> refs s2 d c \<and> pins (blocks s2) = P \<and> seal s2 = m \<and> nextb s2 = n" using a m by simp
qed

lemma count_loop_keeps:
  assumes "\<And>i s. I s \<Longrightarrow> i < n \<Longrightarrow> ends (body i) s (\<lambda>_. I)" "I s" "j + k \<le> n"
  shows "ends (count_loop k j body) s (\<lambda>_. I)"
  using assms(2,3)
proof (induction k arbitrary: j s)
  case (Suc k)
  show ?case
    unfolding count_loop.simps ends_build
    by (rule ends_mono [OF assms(1) [OF Suc.prems(1)]]) (use Suc in simp_all)
qed simp

section \<open>The state between files\<close>

text \<open>The builder holds the block of the root's inode at the slot \<open>rb\<close>.\<close>

definition filing :: "fs \<Rightarrow> nat \<Rightarrow> nat \<Rightarrow> (nat \<times> u8 list) list \<Rightarrow> u8 list list \<Rightarrow> nat \<Rightarrow> bool" where
  "filing s rb nd es bss e \<longleftrightarrow> ready s \<and> refs s rb 3 \<and> pins (blocks s) = (\<lambda>_. 0)(3 := 1) \<and> kind (blocks s) 3 = BLOCK_INODES \<and>
     cat_mem (ninodes s) nd es bss e (seal s)"

lemma filing_pinned:
  assumes "filing s rb nd es bss e"
  shows "pinned (blocks s) = {3}"
  using assms by (auto simp: filing_def pinned_def)

lemma root_block:
  assumes f: "filing s rb nd es bss e" and y: "y \<in> nodes nd"
  shows "3 < block_of (seal s) (ino_addr 1) y" "block_of (seal s) (ino_addr 1) y < nextb s"
    "pins (blocks s) (block_of (seal s) (ino_addr 1) y) = 0"
proof -
  have s: "ready s" and c: "cat_mem (ninodes s) nd es bss e (seal s)" using f by (simp_all add: filing_def)
  note fok = cat_memD(9) [OF c]
  note b = file_block_facts(1,2) [OF fok y]
  have "ino_addr 1 + 64 \<le> 1024 * block_of (seal s) (ino_addr 1) y" by (rule file_inode(5) [OF fok b(1)])
  then show three: "3 < block_of (seal s) (ino_addr 1) y" by (simp add: ino_addr_def)
  show "block_of (seal s) (ino_addr 1) y < nextb s"
    using b seal_disk(1,7) [OF s] by (auto simp: data_block_def)
  show "pins (blocks s) (block_of (seal s) (ino_addr 1) y) = 0" using f three by (simp add: filing_def)
qed

lemma last_dir_block_ends:
  assumes f: "filing s rb nd es bss e" and nd: "i < nd"
  shows "ends (last_dir_block (rb, 64) i) s (\<lambda>q s'. evolves s s' \<and> refs s' q (block_of (seal s) (ino_addr 1) (Data i)) \<and>
    pins (blocks s') = (pins (blocks s))(block_of (seal s) (ino_addr 1) (Data i) := 1) \<and> seal s' = seal s \<and> nextb s' = nextb s)"
proof -
  let ?m = "seal s" and ?R = "ino_addr 1"
  let ?b = "block_of ?m ?R"
  have s: "ready s" and rb: "refs s rb 3" and c: "cat_mem (ninodes s) nd es bss e ?m" using f by (simp_all add: filing_def)
  note fok = cat_memD(9) [OF c]
  have room: "card (pinned (blocks s)) < 15" using filing_pinned [OF f] by simp
  have node: "Data i \<in> nodes nd" using nd by simp
  note B = root_block [OF f node]
  have at: "1024 * 3 + (64 + k) = ?R + k" for k by (simp add: ino_addr_def)
  have inj: "x = y" if "x \<in> nodes nd" "y \<in> nodes nd" "?b x = ?b y" for x y
    using fok that by (auto simp: file_ok_def dest: inj_onD)
  have card1: "card (pinned (blocks s')) < 16" if "pins (blocks s') = (pins (blocks s))(k := n)" for s' k n
    using card_pins [OF ready_facts(1) [OF s] that] room by linarith
  consider "i < 10" | "10 \<le> i" "i < 266" | "266 \<le> i" by linarith
  then show ?thesis
  proof cases
    case 1
    have w: "ld32 ?m (1024 * 3 + (64 + 16 + 4 * i)) = ld32 ?m (slot ?m ?R (Data i))" using 1 at [of "16 + 4 * i"] by (simp add: add.assoc)
    have "64 + 16 + 4 * i + 4 \<le> 1024" using 1 by simp
    from get_pointed [OF s rb _ this w refl, of BLOCK_DIR] B room
    have "ends (lift (getblk (unat (peek rb (64 + 16 + 4 * i) s)) False BLOCK_DIR)) s (\<lambda>q s'. evolves s s' \<and> refs s' q (?b (Data i)) \<and>
        pins (blocks s') = (pins (blocks s))(?b (Data i) := 1) \<and> seal s' = seal s \<and> nextb s' = nextb s)"
      by (simp add: block_of_def)
    then show ?thesis using 1 by (simp add: last_dir_block_def)
  next
    case 2
    then have ind: "Ind \<in> nodes nd" using nd by simp
    note I = root_block [OF f ind]
    have ne: "?b Ind \<noteq> ?b (Data i)" using inj [OF ind node] by auto
    have w: "ld32 ?m (1024 * 3 + (64 + 56)) = ld32 ?m (slot ?m ?R Ind)" unfolding at by simp
    have get1: "ends (lift (getblk (unat (peek rb (64 + 56) s)) False BLOCK_BITS)) s (\<lambda>q s'. evolves s s' \<and> refs s' q (?b Ind) \<and>
        pins (blocks s') = (pins (blocks s))(?b Ind := 1) \<and> seal s' = seal s \<and> nextb s' = nextb s)"
      by (rule get_pointed [OF s rb _ _ w]) (use I room in \<open>simp_all add: block_of_def\<close>)
    have eq: "ends (last_dir_block (rb, 64) i) s Q \<longleftrightarrow> ends (lift (getblk (unat (peek rb (64 + 56) s)) False BLOCK_BITS)) s
        (\<lambda>q s1. ends (lift (getblk (unat (peek q (4 * (i - 10)) s1)) False BLOCK_DIR)) s1
        (\<lambda>d s2. ends (lift (putblk q)) s2 (\<lambda>_. Q d)))" for Q
      using 2 by (simp add: last_dir_block_def)
    show ?thesis
      unfolding eq
    proof (rule ends_mono [OF get1])
      fix q s1
      assume a: "evolves s s1 \<and> refs s1 q (?b Ind) \<and> pins (blocks s1) = (pins (blocks s))(?b Ind := 1) \<and> seal s1 = seal s \<and> nextb s1 = nextb s"
      have w1: "ld32 (seal s1) (1024 * ?b Ind + 4 * (i - 10)) = ld32 ?m (slot ?m ?R (Data i))"
        using a 2 node_address [OF fok ind] by (simp add: oi_indirect_def)
      have get2: "ends (lift (getblk (unat (peek q (4 * (i - 10)) s1)) False BLOCK_DIR)) s1 (\<lambda>d s2. evolves s1 s2 \<and>
          refs s2 d (?b (Data i)) \<and> pins (blocks s2) = (pins (blocks s1))(?b (Data i) := 1) \<and> seal s2 = seal s1 \<and> nextb s2 = nextb s1)"
        by (rule get_pointed [OF evolves_ready _ _ _ w1])
          (use a I B ne 2 card1 [of s1] in \<open>auto simp: block_of_def\<close>)
      show "ends (lift (getblk (unat (peek q (4 * (i - 10)) s1)) False BLOCK_DIR)) s1 (\<lambda>d s2. ends (lift (putblk q)) s2
          (\<lambda>_ s'. evolves s s' \<and> refs s' d (?b (Data i)) \<and> pins (blocks s') = (pins (blocks s))(?b (Data i) := 1) \<and>
            seal s' = seal s \<and> nextb s' = nextb s))"
      proof (rule ends_mono [OF get2])
        fix d s2
        assume b: "evolves s1 s2 \<and> refs s2 d (?b (Data i)) \<and> pins (blocks s2) = (pins (blocks s1))(?b (Data i) := 1) \<and>
          seal s2 = seal s1 \<and> nextb s2 = nextb s1"
        have ev: "evolves s s2" using a b evolves_trans by blast
        have r: "refs s2 q (?b Ind)" using a b evolves_refs by blast
        have p2: "(pins (blocks s2))(?b Ind := pins (blocks s2) (?b Ind) - 1) = (pins (blocks s))(?b (Data i) := 1)"
          using a b ne I(3) by (auto simp: fun_eq_iff)
        show "ends (lift (putblk q)) s2 (\<lambda>_ s'. evolves s s' \<and> refs s' d (?b (Data i)) \<and>
            pins (blocks s') = (pins (blocks s))(?b (Data i) := 1) \<and> seal s' = seal s \<and> nextb s' = nextb s)"
          by (rule put_down [OF ev r p2]) (use a b B(3) in simp_all)
      qed
    qed
  next
    case 3
    let ?j = "(i - 266) div 256" and ?k = "(i - 266) mod 256"
    have "266 + 256 * ?j \<le> i" using 3 by (metis le_add_diff_inverse add_le_cancel_left div_times_less_eq_dividend mult.commute)
    then have ind: "Ind2 \<in> nodes nd" and sub: "Sub ?j \<in> nodes nd" using nd 3 by simp_all
    note I = root_block [OF f ind] and S = root_block [OF f sub]
    have ne: "?b Ind2 \<noteq> ?b (Data i)" "?b (Sub ?j) \<noteq> ?b (Data i)" "?b Ind2 \<noteq> ?b (Sub ?j)"
      using inj [OF ind node] inj [OF sub node] inj [OF ind sub] by auto
    have "nd \<le> 65802" using fok by (simp add: file_ok_def)
    then have "i - 266 < 256 * 256" using nd by linarith
    then have jk: "?j < 256" "?k < 256" by (simp_all add: less_mult_imp_div_less)
    have off: "4 * ?j + 4 \<le> 1024" "4 * ?k + 4 \<le> 1024" using jk by linarith+
    have w: "ld32 ?m (1024 * 3 + (64 + 60)) = ld32 ?m (slot ?m ?R Ind2)" unfolding at by simp
    have get1: "ends (lift (getblk (unat (peek rb (64 + 60) s)) False BLOCK_BITS)) s (\<lambda>q s'. evolves s s' \<and> refs s' q (?b Ind2) \<and>
        pins (blocks s') = (pins (blocks s))(?b Ind2 := 1) \<and> seal s' = seal s \<and> nextb s' = nextb s)"
      by (rule get_pointed [OF s rb _ _ w]) (use I room in \<open>simp_all add: block_of_def\<close>)
    have eq: "ends (last_dir_block (rb, 64) i) s Q \<longleftrightarrow> ends (lift (getblk (unat (peek rb (64 + 60) s)) False BLOCK_BITS)) s
        (\<lambda>q2 s1. ends (lift (getblk (unat (peek q2 (4 * ?j) s1)) False BLOCK_BITS)) s1
        (\<lambda>q s2. ends (lift (getblk (unat (peek q (4 * ?k) s2)) False BLOCK_DIR)) s2
        (\<lambda>d s3. ends (lift (putblk q)) s3 (\<lambda>_ s4. ends (lift (putblk q2)) s4 (\<lambda>_. Q d)))))" for Q
      using 3 by (simp add: last_dir_block_def Let_def)
    show ?thesis
      unfolding eq
    proof (rule ends_mono [OF get1])
      fix q2 s1
      assume a: "evolves s s1 \<and> refs s1 q2 (?b Ind2) \<and> pins (blocks s1) = (pins (blocks s))(?b Ind2 := 1) \<and> seal s1 = seal s \<and> nextb s1 = nextb s"
      have w1: "ld32 (seal s1) (1024 * ?b Ind2 + 4 * ?j) = ld32 ?m (slot ?m ?R (Sub ?j))"
        using a node_address [OF fok ind] by (simp add: oi_indirect2_def)
      have c1: "card (pinned (blocks s1)) < 16" using a card1 by blast
      have "ends (lift (getblk (unat (peek q2 (4 * ?j) s1)) False BLOCK_BITS)) s1 (\<lambda>q s2. evolves s1 s2 \<and>
          refs s2 q (?b (Sub ?j)) \<and> pins (blocks s2) = (pins (blocks s1))(?b (Sub ?j) := 1) \<and> seal s2 = seal s1 \<and> nextb s2 = nextb s1)"
        by (rule get_pointed [OF evolves_ready _ _ off(1) w1])
          (use a I S ne c1 in \<open>auto simp: block_of_def\<close>)
      then show "ends (lift (getblk (unat (peek q2 (4 * ?j) s1)) False BLOCK_BITS)) s1
          (\<lambda>q s2. ends (lift (getblk (unat (peek q (4 * ?k) s2)) False BLOCK_DIR)) s2
          (\<lambda>d s3. ends (lift (putblk q)) s3 (\<lambda>_ s4. ends (lift (putblk q2)) s4
          (\<lambda>_ s'. evolves s s' \<and> refs s' d (?b (Data i)) \<and> pins (blocks s') = (pins (blocks s))(?b (Data i) := 1) \<and>
            seal s' = seal s \<and> nextb s' = nextb s))))"
      proof (rule ends_mono)
        fix q s2
        assume b: "evolves s1 s2 \<and> refs s2 q (?b (Sub ?j)) \<and> pins (blocks s2) = (pins (blocks s1))(?b (Sub ?j) := 1) \<and>
          seal s2 = seal s1 \<and> nextb s2 = nextb s1"
        have ev2: "evolves s s2" using a b evolves_trans by blast
        have slot: "slot ?m ?R (Data i) = 1024 * ?b (Sub ?j) + 4 * ?k"
          using 3 node_address [OF fok sub] by simp
        have w2: "ld32 (seal s2) (1024 * ?b (Sub ?j) + 4 * ?k) = ld32 ?m (slot ?m ?R (Data i))" using a b unfolding slot by simp
        have "card (pinned (blocks s1)) \<le> Suc (card (pinned (blocks s)))"
          by (rule card_pins [OF ready_facts(1) [OF s]]) (use a in blast)
        moreover have "card (pinned (blocks s2)) \<le> Suc (card (pinned (blocks s1)))"
          by (rule card_pins [OF ready_facts(1) [OF evolves_ready]]) (use a b in blast)+
        moreover have "card (pinned (blocks s)) = 1" using filing_pinned [OF f] by simp
        ultimately have c2: "card (pinned (blocks s2)) < 16" by linarith
        have r2: "refs s2 q (?b (Sub ?j))" "3 \<le> ?b (Sub ?j)" using b S(1) by simp_all
        have u: "unat (ld32 ?m (slot ?m ?R (Data i))) = ?b (Data i)" by (simp only: block_of_def)
        have nx: "0 < ?b (Data i)" "?b (Data i) < nextb s2" using a b B(1,2) by simp_all
        have "pins (blocks s2) (?b (Data i)) = ((pins (blocks s))(?b Ind2 := 1, ?b (Sub ?j) := 1)) (?b (Data i))"
          using a b by simp
        also have "\<dots> = 0" using ne B(3) by simp
        finally have z: "pins (blocks s2) (?b (Data i)) = 0" .
        have "ends (lift (getblk (unat (peek q (4 * ?k) s2)) False BLOCK_DIR)) s2 (\<lambda>d s3. evolves s2 s3 \<and>
            refs s3 d (?b (Data i)) \<and> pins (blocks s3) = (pins (blocks s2))(?b (Data i) := 1) \<and> seal s3 = seal s2 \<and> nextb s3 = nextb s2)"
          by (rule get_pointed [OF evolves_ready [OF ev2] r2 off(2) w2 u nx z c2])
        then show "ends (lift (getblk (unat (peek q (4 * ?k) s2)) False BLOCK_DIR)) s2
            (\<lambda>d s3. ends (lift (putblk q)) s3 (\<lambda>_ s4. ends (lift (putblk q2)) s4
            (\<lambda>_ s'. evolves s s' \<and> refs s' d (?b (Data i)) \<and> pins (blocks s') = (pins (blocks s))(?b (Data i) := 1) \<and>
              seal s' = seal s \<and> nextb s' = nextb s)))"
        proof (rule ends_mono)
          fix d s3
          assume g: "evolves s2 s3 \<and> refs s3 d (?b (Data i)) \<and> pins (blocks s3) = (pins (blocks s2))(?b (Data i) := 1) \<and>
            seal s3 = seal s2 \<and> nextb s3 = nextb s2"
          have ev3: "evolves s s3" using ev2 g evolves_trans by blast
          have r: "refs s3 q (?b (Sub ?j))" "refs s3 q2 (?b Ind2)" using a b g evolves_refs by blast+
          have p3: "(pins (blocks s3))(?b (Sub ?j) := pins (blocks s3) (?b (Sub ?j)) - 1) =
              (pins (blocks s))(?b Ind2 := 1, ?b (Data i) := 1)"
            using a b g ne S(3) by (auto simp: fun_eq_iff)
          have mono: "pins (blocks s) c \<le> ((pins (blocks s3))(?b (Sub ?j) := pins (blocks s3) (?b (Sub ?j)) - 1)) c" for c
            unfolding p3 using B(3) I(3) by simp
          show "ends (lift (putblk q)) s3 (\<lambda>_ s4. ends (lift (putblk q2)) s4
              (\<lambda>_ s'. evolves s s' \<and> refs s' d (?b (Data i)) \<and> pins (blocks s') = (pins (blocks s))(?b (Data i) := 1) \<and>
                seal s' = seal s \<and> nextb s' = nextb s))"
          proof (rule ends_mono [OF put_keep [OF ev3 r(1) mono]])
            fix u :: unit and s4
            assume h: "evolves s s4 \<and> pins (blocks s4) = (pins (blocks s3))(?b (Sub ?j) := pins (blocks s3) (?b (Sub ?j)) - 1) \<and>
              seal s4 = seal s3 \<and> nextb s4 = nextb s3 \<and> (\<forall>p c. refs s3 p c \<longrightarrow> 0 < pins (blocks s4) c \<longrightarrow> refs s4 p c)"
            then have p4: "pins (blocks s4) = (pins (blocks s))(?b Ind2 := 1, ?b (Data i) := 1)" unfolding p3 by blast
            then have r4: "refs s4 q2 (?b Ind2)" "refs s4 d (?b (Data i))" using h r(2) g ne by auto
            have p5: "(pins (blocks s4))(?b Ind2 := pins (blocks s4) (?b Ind2) - 1) = (pins (blocks s))(?b (Data i) := 1)"
              using p4 ne I(3) by (auto simp: fun_eq_iff)
            have ev4: "evolves s s4" using h by blast
            show "ends (lift (putblk q2)) s4
                (\<lambda>_ s'. evolves s s' \<and> refs s' d (?b (Data i)) \<and> pins (blocks s') = (pins (blocks s))(?b (Data i) := 1) \<and>
                  seal s' = seal s \<and> nextb s' = nextb s)"
              by (rule put_down [OF ev4 r4(1) p5]) (use a b g h r4(2) B(3) in simp_all)
          qed
        qed
      qed
    qed
  qed
qed

end
