(* ===== verification/FormatDirent.thy ===== *)
theory FormatDirent
  imports FormatEntry
begin

text \<open>
  \<open>allocdirentry\<close> of the image builder on the root directory: the entry it returns is the next one,
  in the last block or in a new block, and the name is in it.
\<close>

section \<open>A new block of the directory\<close>

lemma st32_zero:
  assumes "\<And>k. k < 4 \<Longrightarrow> m (a + k) = 0"
  shows "st32 m a 0 = m"
proof
  fix x
  show "st32 m a 0 x = m x"
  proof (cases "a \<le> x \<and> x < a + 4")
    case True
    then obtain k where k: "x = a + k" "k < 4" by (metis le_iff_add nat_add_left_cancel_less)
    have "st32 m a 0 (a + k) = st32 (\<lambda>_. 0) 0 0 k" by (rule st32_at [OF k(2)])
    also have "\<dots> = 0" by (simp add: st32_def)
    finally show ?thesis using assms k by simp
  qed (auto simp: st32_other_byte)
qed

lemma clear_entries:
  assumes s: "ready s" and q: "refs s q bno" "3 \<le> bno" and zero: "\<And>x. in_block bno x \<Longrightarrow> seal s x = 0"
  shows "ends (count_loop 8 0 (\<lambda>i. poke q (128 * i) 0)) s (\<lambda>_ s'. evolves s s' \<and> pins (blocks s') = pins (blocks s) \<and>
    seal s' = seal s \<and> nextb s' = nextb s)"
proof (rule count_loop_keeps [where n = 8])
  fix i s1
  assume a: "evolves s s1 \<and> pins (blocks s1) = pins (blocks s) \<and> seal s1 = seal s \<and> nextb s1 = nextb s" and i: "i < (8 :: nat)"
  have off: "128 * i + 4 \<le> 1024" using i by simp
  have ev: "evolves s s1" using a by blast
  have same: "st32 (seal s1) (1024 * bno + 128 * i) 0 = seal s1"
    by (rule st32_zero) (use a zero i in \<open>simp add: in_block_def\<close>)
  show "ends (poke q (128 * i) 0) s1 (\<lambda>_ s'. evolves s s' \<and> pins (blocks s') = pins (blocks s) \<and> seal s' = seal s \<and> nextb s' = nextb s)"
    by (rule ends_mono [OF poke_ends [OF evolves_ready [OF ev] evolves_refs [OF ev q(1)] q(2) off]])
      (use a same evolves_trans [OF ev] in simp)
qed (use s in simp_all)

lemma filing_storing:
  assumes f: "filing s rb nd es bss e" and nd: "nd < 65802" "nextb s + card (new_nodes nd) \<le> nblocks (blocks s)"
    and s2: "evolves s s2" "refs s2 q (nextb s)" "pins (blocks s2) = (pins (blocks s))(nextb s := 1)" "nextb s2 = Suc (nextb s)"
      "grabbed (seal s) (of_nat (nextb s)) (seal s2)"
  shows "storing s2 rb 3 64 (ino_addr 1) nd q (nextb s) (seal s) (seal s2) (seal s2)"
proof -
  have s: "ready s" and rb: "refs s rb 3" and c: "cat_mem (ninodes s) nd es bss e (seal s)" using f by (simp_all add: filing_def)
  have nb: "nblocks (blocks s2) = nblocks (blocks s)" using s2(1) by (simp add: evolves_def)
  have "card (pinned (blocks s2)) \<le> Suc (card (pinned (blocks s)))" by (rule card_pins [OF ready_facts(1) [OF s] s2(3)])
  then have pinned: "card (pinned (blocks s2)) \<le> 14" using filing_pinned [OF f] by simp
  have unpinned: "pins (blocks s2) (block_of (seal s) (ino_addr 1) y) = 0" if y: "y \<in> nodes nd" for y
    using root_block [OF f y] s2(3) by simp
  show ?thesis
    unfolding storing_def
    using evolves_ready [OF s2(1)] evolves_refs [OF s2(1) rb] s2 cat_memD(9,10) [OF c] nd seal_disk(1) [OF s] nb pinned unpinned
    by (simp add: ino_addr_def)
qed

text \<open>The size goes up by a block.\<close>

lemma grow_root:
  assumes s: "ready s" and rb: "refs s rb 3" and w: "ld32 (seal s) (ino_addr 1) = of_nat (1024 * nd)"
  shows "ends (get_state (\<lambda>s. let size = peek rb 64 s + of_nat OSPFS_BLKSIZE in
      andthen (poke rb 64 size) (if of_nat ((nd + 1) * OSPFS_BLKSIZE) = size then done_with q else stop Assertion))) s
    (\<lambda>r s'. r = q \<and> evolves s s' \<and> pins (blocks s') = pins (blocks s) \<and> nextb s' = nextb s \<and>
      seal s' = st32 (seal s) (ino_addr 1) (of_nat (1024 * Suc nd)))"
proof -
  have off: "3 \<le> (3 :: nat)" "64 + 4 \<le> (1024 :: nat)" by simp_all
  have at: "1024 * 3 + 64 = ino_addr 1" by (simp add: ino_addr_def)
  have size: "peek rb 64 s + of_nat 1024 = of_nat (1024 * Suc nd)"
    using peek_seal [OF s rb off] w unfolding at by simp
  have "of_nat ((nd + 1) * 1024) = (of_nat (1024 * Suc nd) :: u32)" by simp
  then show ?thesis
    unfolding ends_build Let_def size
    by (simp only: if_True ends_build) (rule ends_mono [OF poke_ends [OF s rb off]], simp add: at [simplified])
qed

lemma new_dir_block_ends:
  assumes f: "filing s rb nd es bss e" and nd: "nd < 65802" "nextb s + card (new_nodes nd) \<le> nblocks (blocks s)"
  shows "ends (new_dir_block (rb, 64) nd) s (\<lambda>q s'. evolves s s' \<and> refs s' q (nextb s) \<and>
    block_of (seal s') (ino_addr 1) (Data nd) = nextb s \<and> pins (blocks s') = (pins (blocks s))(nextb s := 1) \<and>
    cat_mem (ninodes s) (Suc nd) es bss e (seal s') \<and> nextb s' = nextb s + card (new_nodes nd))"
proof -
  let ?R = "ino_addr 1"
  have s: "ready s" and rb: "refs s rb 3" and c: "cat_mem (ninodes s) nd es bss e (seal s)" using f by (simp_all add: filing_def)
  have room: "card (pinned (blocks s)) < 16" using filing_pinned [OF f] by simp
  have "0 < card (new_nodes nd)" by (simp add: new_nodes_def card_gt_0_iff)
  then have nx: "nextb s < nblocks (blocks s)" using nd(2) by linarith
  have three: "3 \<le> nextb s" by (rule ready_facts(6) [OF s])
  have u: "unat (of_nat (nextb s) :: u32) = nextb s" by (rule seal_grab(3) [OF ready_facts(2) [OF s] nx])
  have eq: "ends (new_dir_block (rb, 64) nd) s Q \<longleftrightarrow> ends (next_block BLOCK_DIR) s (\<lambda>q s1.
      ends (count_loop 8 0 (\<lambda>i. poke q (128 * i) 0)) s1 (\<lambda>_ s2. ends (storeblk (rb, 64) q nd) s2 (\<lambda>_ s3.
      ends (get_state (\<lambda>s. let size = peek rb 64 s + of_nat OSPFS_BLKSIZE in
      andthen (poke rb 64 size) (if of_nat ((nd + 1) * OSPFS_BLKSIZE) = size then done_with q else stop Assertion))) s3 Q)))" for Q
    by (simp add: new_dir_block_def Let_def)
  show ?thesis
    unfolding eq
  proof (rule ends_mono [OF next_block_ends [OF s nx room]])
    fix q s1
    assume a: "evolves s s1 \<and> refs s1 q (nextb s) \<and> kind (blocks s1) (nextb s) = BLOCK_DIR \<and>
      pins (blocks s1) = (pins (blocks s))(nextb s := 1) \<and> grabbed (seal s) (of_nat (nextb s)) (seal s1) \<and> nextb s1 = nextb s + 1"
    have zero: "seal s1 x = 0" if "in_block (nextb s) x" for x
      using grabbed_zeroes [of "seal s" "of_nat (nextb s)" "seal s1" x] a that u by simp
    have s1: "evolves s s1" "refs s1 q (nextb s)" using a by simp_all
    note clear = clear_entries [OF evolves_ready [OF s1(1)] s1(2) three zero]
    show "ends (count_loop 8 0 (\<lambda>i. poke q (128 * i) 0)) s1 (\<lambda>_ s2. ends (storeblk (rb, 64) q nd) s2 (\<lambda>_ s3.
        ends (get_state (\<lambda>s. let size = peek rb 64 s + of_nat OSPFS_BLKSIZE in
          andthen (poke rb 64 size) (if of_nat ((nd + 1) * OSPFS_BLKSIZE) = size then done_with q else stop Assertion))) s3
        (\<lambda>q s'. evolves s s' \<and> refs s' q (nextb s) \<and>
          block_of (seal s') ?R (Data nd) = nextb s \<and> pins (blocks s') = (pins (blocks s))(nextb s := 1) \<and>
          cat_mem (ninodes s) (Suc nd) es bss e (seal s') \<and> nextb s' = nextb s + card (new_nodes nd))))"
    proof (rule ends_mono [OF clear])
      fix v :: unit and s2
      assume b: "evolves s1 s2 \<and> pins (blocks s2) = pins (blocks s1) \<and> seal s2 = seal s1 \<and> nextb s2 = nextb s1"
      have s2: "evolves s s2" "refs s2 q (nextb s)" "pins (blocks s2) = (pins (blocks s))(nextb s := 1)" "nextb s2 = Suc (nextb s)"
        "grabbed (seal s) (of_nat (nextb s)) (seal s2)"
        using a b evolves_trans [OF s1(1)] evolves_refs [OF _ s1(2)] by simp_all
      note st = filing_storing [OF f nd s2]
      show "ends (storeblk (rb, 64) q nd) s2 (\<lambda>_ s3.
          ends (get_state (\<lambda>s. let size = peek rb 64 s + of_nat OSPFS_BLKSIZE in
            andthen (poke rb 64 size) (if of_nat ((nd + 1) * OSPFS_BLKSIZE) = size then done_with q else stop Assertion))) s3
          (\<lambda>q s'. evolves s s' \<and> refs s' q (nextb s) \<and>
            block_of (seal s') ?R (Data nd) = nextb s \<and> pins (blocks s') = (pins (blocks s))(nextb s := 1) \<and>
            cat_mem (ninodes s) (Suc nd) es bss e (seal s') \<and> nextb s' = nextb s + card (new_nodes nd)))"
      proof (rule ends_mono [OF storeblk_links [OF st]])
        fix v :: unit and s3
        assume "stored s2 ?R nd (nextb s) (seal s) (seal s2) s3"
        then obtain m1 where s3: "evolves s2 s3" "pins (blocks s3) = pins (blocks s2)" "nextb s3 = nextb s + card (new_nodes nd)"
          "linked (seal s) ?R nd (nextb s) m1" "seal s3 = overlay (nextb s) (seal s2) m1" by (auto simp: stored_def)
        have app: "appended (seal s) ?R nd (nextb s) (seal s2) (seal s3)"
          unfolding s3(5) by (rule linked_appended [OF cat_memD(9) [OF c] nd(1) s3(4)])
        have zero2: "seal s2 x = 0" if "in_block (nextb s) x" for x using zero [OF that] b by simp
        note new = cat_new_block [OF c app zero2]
        have "\<forall>i < 4. ld32 (seal s3) (?R + 4 * i) = ld32 (seal s) (?R + 4 * i)" using app by (simp add: appended_def)
        from this [rule_format, of 0] have w: "ld32 (seal s3) ?R = of_nat (1024 * nd)"
          using cat_memD(4) [OF c] by (simp add: root_dir_def header_def)
        have ev3: "evolves s s3" by (rule evolves_trans [OF s2(1) s3(1)])
        show "ends (get_state (\<lambda>s. let size = peek rb 64 s + of_nat OSPFS_BLKSIZE in
            andthen (poke rb 64 size) (if of_nat ((nd + 1) * OSPFS_BLKSIZE) = size then done_with q else stop Assertion))) s3
            (\<lambda>q s'. evolves s s' \<and> refs s' q (nextb s) \<and>
              block_of (seal s') ?R (Data nd) = nextb s \<and> pins (blocks s') = (pins (blocks s))(nextb s := 1) \<and>
              cat_mem (ninodes s) (Suc nd) es bss e (seal s') \<and> nextb s' = nextb s + card (new_nodes nd))"
        proof (rule ends_mono [OF grow_root [OF evolves_ready [OF ev3] evolves_refs [OF ev3 rb] w]])
          fix r s4
          assume d: "r = q \<and> evolves s3 s4 \<and> pins (blocks s4) = pins (blocks s3) \<and> nextb s4 = nextb s3 \<and>
            seal s4 = st32 (seal s3) ?R (of_nat (1024 * Suc nd))"
          have B: "block_of (seal s4) ?R (Data nd) = nextb s" using new(2) d by simp
          have cm: "cat_mem (ninodes s) (Suc nd) es bss e (seal s4)" using new(1) d by simp
          have ev4: "evolves s s4" using d evolves_trans [OF ev3] by blast
          have "refs s4 r (nextb s)" using d evolves_refs [OF _ evolves_refs [OF s3(1) s2(2)]] by blast
          then show "evolves s s4 \<and> refs s4 r (nextb s) \<and>
              block_of (seal s4) ?R (Data nd) = nextb s \<and> pins (blocks s4) = (pins (blocks s))(nextb s := 1) \<and>
              cat_mem (ninodes s) (Suc nd) es bss e (seal s4) \<and> nextb s4 = nextb s + card (new_nodes nd)"
            using B ev4 cm d s3 s2(3) by simp
        qed
      qed
    qed
  qed
qed

section \<open>The first entry without a number\<close>

definition numbered :: "(nat \<times> u8 list) list \<Rightarrow> bool" where
  "numbered es \<longleftrightarrow> (\<forall>(i, nm) \<in> set es. 0 < i \<and> i < 2 ^ 32)"

lemma numbered_nth:
  assumes "numbered es" "n < length es"
  shows "0 < fst (es ! n) \<and> fst (es ! n) < 2 ^ 32"
proof -
  have "case es ! n of (i, nm) \<Rightarrow> 0 < i \<and> i < 2 ^ 32"
    by (rule bspec [OF assms(1) [unfolded numbered_def] nth_mem [OF assms(2)]])
  then show ?thesis by (simp only: case_prod_beta)
qed

lemma entry_number:
  assumes c: "cat_mem ni nd es bss e m" and n: "n < 8 * nd"
  shows "ld32 m (byte_addr m (ino_addr 1) (128 * n)) = (if n < length es then of_nat (fst (es ! n)) else 0)"
proof -
  let ?A = "byte_addr m (ino_addr 1) (128 * n)" and ?v = "if n < length es then of_nat (fst (es ! n)) else 0 :: u32"
  have "m (?A + j) = st32 (\<lambda>_. 0) 0 ?v j" if j: "j < 4" for j
  proof -
    have "m (?A + j) = dir_byte es (128 * n + j)" using entry_byte [OF c n, of j] j by simp
    also have "\<dots> = st32 (\<lambda>_. 0) 0 ?v j"
    proof (cases "n < length es")
      case True
      have "(128 * n + j) div 128 = n" "(128 * n + j) mod 128 = j" using j by simp_all
      then have "dir_byte es (128 * n + j) = entry_mem (fst (es ! n)) (snd (es ! n)) j" using True by (simp add: dir_byte_def)
      then show ?thesis using True j by (simp add: entry_mem_def mem_put_out)
    next
      case False
      then show ?thesis using j by (simp add: dir_byte_def st32_def)
    qed
    finally show ?thesis .
  qed
  from this [of 0] this [of 1] this [of 2] this [of 3] have "ld32 m ?A = ld32 (st32 (\<lambda>_. 0) 0 ?v) 0"
    by (simp add: ld32_def numeral_2_eq_2)
  also have "\<dots> = ?v" by (rule ld32_st32_same)
  finally show ?thesis .
qed

lemma entry_place:
  assumes "i < 8"
  shows "byte_addr m oi (128 * (8 * j + i)) = 1024 * block_of m oi (Data j) + 128 * i"
proof -
  have "128 * (8 * j + i) = 1024 * j + 128 * i" "128 * i < 1024" using assms by simp_all
  moreover have "(1024 * j + k) div 1024 = j \<and> (1024 * j + k) mod 1024 = k" if "k < 1024" for k using that by simp
  ultimately show ?thesis unfolding byte_addr_def by metis
qed

lemma find_upto:
  assumes "\<And>i. i < n \<Longrightarrow> P i \<longleftrightarrow> k \<le> i"
  shows "List.find P [0 ..< n] = (if k < n then Some k else None)"
proof (cases "k < n")
  case True
  then have "\<exists>i < length [0 ..< n]. P ([0 ..< n] ! i) \<and> k = [0 ..< n] ! i \<and> (\<forall>j < i. \<not> P ([0 ..< n] ! j))"
    using assms by (intro exI [of _ k]) auto
  then have "List.find P [0 ..< n] = Some k" by (simp only: find_Some_iff)
  then show ?thesis using True by simp
next
  case False
  then show ?thesis using assms by (auto simp: find_None_iff)
qed

lemma free_entry_next:
  assumes s: "ready s" and c: "cat_mem ni (Suc nd) es bss e (seal s)" and num: "numbered es" and len: "8 * nd \<le> length es"
    and q: "refs s q (block_of (seal s) (ino_addr 1) (Data nd))" "3 \<le> block_of (seal s) (ino_addr 1) (Data nd)"
  shows "free_entry q s = (if length es < 8 * Suc nd then Some (length es - 8 * nd) else None)"
proof -
  have "peek q (128 * i) s = 0 \<longleftrightarrow> length es - 8 * nd \<le> i" if i: "i < 8" for i
  proof -
    have off: "128 * i + 4 \<le> 1024" and n: "8 * nd + i < 8 * Suc nd" using i by simp_all
    have w: "peek q (128 * i) s = (if 8 * nd + i < length es then of_nat (fst (es ! (8 * nd + i))) else 0)"
      using peek_seal [OF s q off] entry_number [OF c n] entry_place [OF i, of "seal s" "ino_addr 1" nd] by simp
    show ?thesis
    proof (cases "8 * nd + i < length es")
      case True
      note f = numbered_nth [OF num True]
      have "unat (of_nat (fst (es ! (8 * nd + i))) :: u32) = fst (es ! (8 * nd + i))"
        unfolding unat_of_nat using f by (simp add: take_bit_nat_eq_self)
      then have "(of_nat (fst (es ! (8 * nd + i))) :: u32) \<noteq> 0" using f by (metis less_irrefl unat_0)
      then show ?thesis using w True len by simp
    next
      case False
      then show ?thesis using w len by simp
    qed
  qed
  then have "free_entry q s = (if length es - 8 * nd < 8 then Some (length es - 8 * nd) else None)"
    unfolding free_entry_def by (rule find_upto)
  moreover have "length es - 8 * nd < 8 \<longleftrightarrow> length es < 8 * Suc nd" using len by auto
  ultimately show ?thesis by simp
qed

section \<open>The entry for a name\<close>

definition dir_blocks :: "nat \<Rightarrow> nat" where
  "dir_blocks k = (k + 7) div 8"

lemma dir_blocks_Suc: "dir_blocks (Suc k) = Suc (k div 8)"
  by (simp add: dir_blocks_def)

lemma dir_blocks_cases:
  obtains "k = 8 * dir_blocks k" "dir_blocks (Suc k) = Suc (dir_blocks k)"
  | "dir_blocks (Suc k) = dir_blocks k" "0 < dir_blocks k" "8 * (dir_blocks k - 1) < k" "k < 8 * dir_blocks k"
proof -
  obtain q r where k: "k = 8 * q + r" "r < 8" by (metis mult_div_mod_eq mod_less_divisor zero_less_numeral)
  then have d: "k div 8 = q" by simp
  show thesis
  proof (cases "r = 0")
    case True
    then have "dir_blocks k = q" using k by (simp add: dir_blocks_def)
    then show thesis using that(1) True k d by (simp add: dir_blocks_Suc)
  next
    case False
    then have "k + 7 = 8 * Suc q + (r - 1)" "r - 1 < 8" using k by simp_all
    then have "dir_blocks k = Suc q" unfolding dir_blocks_def by (metis div_mult_self4 div_less add.commute add_0 zero_neq_numeral)
    then show thesis using that(2) False k d by (simp add: dir_blocks_Suc)
  qed
qed

text \<open>The room that \<open>k\<close> entries need, beyond what the directory has.\<close>

definition entry_room :: "fs \<Rightarrow> nat \<Rightarrow> nat \<Rightarrow> bool" where
  "entry_room s nd k \<longleftrightarrow> dir_blocks k \<le> 65802 \<and> nextb s + card (nodes (dir_blocks k)) \<le> nblocks (blocks s) + card (nodes nd)"

text \<open>The builder holds the entry \<open>od\<close> of the block at the slot \<open>q\<close>, which is the next free one.\<close>

definition at_entry :: "fs \<Rightarrow> nat \<Rightarrow> nat \<Rightarrow> nat \<Rightarrow> fs \<Rightarrow> bool" where
  "at_entry s k q od s' \<longleftrightarrow> evolves s s' \<and> (\<exists>B. refs s' q B \<and> 3 < B \<and> pins (blocks s) B = 0 \<and>
     pins (blocks s') = (pins (blocks s))(B := 1) \<and> 1024 * B + od = byte_addr (seal s') (ino_addr 1) (128 * k)) \<and>
     od + 128 \<le> 1024 \<and> 4 dvd od \<and>
     nextb s' + card (nodes (dir_blocks k)) = nextb s + card (nodes (dir_blocks (Suc k)))"

lemma block_count:
  assumes "nd \<le> 65802"
  shows "unat ((of_nat (1024 * nd) + of_nat 1024 - 1) div of_nat 1024 :: u32) = nd"
proof -
  have "of_nat (1024 * nd) + of_nat 1024 - (1 :: u32) = of_nat (1024 * nd + 1023)" by simp
  moreover have "unat (of_nat (1024 * nd + 1023) :: u32) = 1024 * nd + 1023"
    unfolding unat_of_nat using assms by (simp add: take_bit_nat_eq_self)
  moreover have "unat (of_nat 1024 :: u32) = 1024" by simp
  ultimately have "unat ((of_nat (1024 * nd) + of_nat 1024 - 1) div of_nat 1024 :: u32) = (1024 * nd + 1023) div 1024"
    by (simp only: unat_div)
  also have "\<dots> = nd" by (intro div_nat_eqI) simp_all
  finally show ?thesis .
qed

lemma new_block_at_entry:
  assumes f: "filing s rb nd es bss e" and len: "length es = 8 * nd" and room: "entry_room s nd (Suc (length es))"
  shows "ends (new_dir_block (rb, 64) nd) s (\<lambda>q s'. at_entry s (length es) q 0 s' \<and> cat_mem (ninodes s) (Suc nd) es bss e (seal s'))"
proof -
  have db: "dir_blocks (length es) = nd" "dir_blocks (Suc (length es)) = Suc nd" using len by (simp_all add: dir_blocks_def)
  have nd: "nd < 65802" "nextb s + card (new_nodes nd) \<le> nblocks (blocks s)"
    using room card_nodes_Suc [of nd] by (simp_all add: entry_room_def db)
  show ?thesis
  proof (rule ends_mono [OF new_dir_block_ends [OF f nd]])
    fix q s'
    assume a: "evolves s s' \<and> refs s' q (nextb s) \<and> block_of (seal s') (ino_addr 1) (Data nd) = nextb s \<and>
      pins (blocks s') = (pins (blocks s))(nextb s := 1) \<and>
      cat_mem (ninodes s) (Suc nd) es bss e (seal s') \<and> nextb s' = nextb s + card (new_nodes nd)"
    have s: "ready s" and c: "cat_mem (ninodes s) nd es bss e (seal s)" using f by (simp_all add: filing_def)
    have "3 < first_data (ninodes s)" using cat_memD(12) [OF c] by (simp add: first_data_def)
    then have B: "3 < nextb s" "pins (blocks s) (nextb s) = 0" using ready_facts(7) [OF s] next_unpinned [OF s] by simp_all
    have "1024 * nextb s + 0 = byte_addr (seal s') (ino_addr 1) (128 * length es)"
      using entry_place [of 0 "seal s'" "ino_addr 1" nd] len a by simp
    then have "\<exists>B. refs s' q B \<and> 3 < B \<and> pins (blocks s) B = 0 \<and> pins (blocks s') = (pins (blocks s))(B := 1) \<and>
        1024 * B + 0 = byte_addr (seal s') (ino_addr 1) (128 * length es)" using a B by blast
    moreover have "nextb s' + card (nodes nd) = nextb s + card (nodes (Suc nd))" using a card_nodes_Suc [of nd] by simp
    ultimately show "at_entry s (length es) q 0 s' \<and> cat_mem (ninodes s) (Suc nd) es bss e (seal s')"
      using a unfolding at_entry_def db by simp
  qed
qed

lemma name_ends:
  assumes a: "at_entry s (length es) q od s1" and c: "cat_mem (ninodes s) nd es bss e (seal s1)" and n: "length es < 8 * nd"
    and nm: "length nm \<le> 123"
  shows "ends (fill q (od + 4) (nm @ [0])) s1 (\<lambda>_ s'. at_entry s (length es) q od s' \<and>
    cat_mem (ninodes s) nd (es @ [(0, nm)]) bss e (seal s'))"
proof -
  obtain B where B: "refs s1 q B" "3 < B" "pins (blocks s) B = 0" "pins (blocks s1) = (pins (blocks s))(B := 1)"
    "1024 * B + od = byte_addr (seal s1) (ino_addr 1) (128 * length es)" using a by (auto simp: at_entry_def)
  have a': "evolves s s1" "od + 128 \<le> 1024" "4 dvd od"
    "nextb s1 + card (nodes (dir_blocks (length es))) = nextb s + card (nodes (dir_blocks (Suc (length es))))"
    using a by (simp_all add: at_entry_def)
  have fit: "od + 4 + length (nm @ [0]) \<le> 1024" "3 \<le> B" using a'(2) nm B(2) by simp_all
  have at: "1024 * B + (od + 4) = byte_addr (seal s1) (ino_addr 1) (128 * length es) + 4" using B(5) by simp
  have k: "128 * length es < 1024 * nd" using n by simp
  note name = cat_name [OF c n nm]
  show ?thesis
  proof (rule ends_mono [OF fill_ends [OF evolves_ready [OF a'(1)] B(1) fit(2,1)]])
    fix u :: unit and s'
    assume b: "evolves s1 s' \<and> pins (blocks s') = pins (blocks s1) \<and> seal s' = mem_put (seal s1) (1024 * B + (od + 4)) (nm @ [0]) \<and>
      nextb s' = nextb s1"
    then have img: "seal s' = mem_put (seal s1) (byte_addr (seal s1) (ino_addr 1) (128 * length es) + 4) (nm @ [0])" unfolding at by blast
    have "1024 * B + od = byte_addr (seal s') (ino_addr 1) (128 * length es)" unfolding img name(2) [OF k] by (rule B(5))
    moreover have "refs s' q B" using b evolves_refs [OF _ B(1)] by blast
    ultimately have "\<exists>B. refs s' q B \<and> 3 < B \<and> pins (blocks s) B = 0 \<and> pins (blocks s') = (pins (blocks s))(B := 1) \<and>
        1024 * B + od = byte_addr (seal s') (ino_addr 1) (128 * length es)" using b B(2-4) by metis
    moreover have "evolves s s'" using b evolves_trans [OF a'(1)] by blast
    moreover have "cat_mem (ninodes s) nd (es @ [(0, nm)]) bss e (seal s')" unfolding img by (rule name(1))
    ultimately show "at_entry s (length es) q od s' \<and> cat_mem (ninodes s) nd (es @ [(0, nm)]) bss e (seal s')"
      using a' b unfolding at_entry_def by simp
  qed
qed

lemma filing_evolves:
  assumes f: "filing s rb nd es bss e" and ev: "evolves s s'" and p: "pins (blocks s') = pins (blocks s)"
    and c: "cat_mem (ninodes s) nd' es' bss' e' (seal s')"
  shows "filing s' rb nd' es' bss' e'"
proof -
  have f': "refs s rb 3" "pins (blocks s) = (\<lambda>_. 0)(3 := 1)" "kind (blocks s) 3 = BLOCK_INODES" using f by (simp_all add: filing_def)
  have "ninodes s' = ninodes s" "kind (blocks s') 3 = kind (blocks s) 3" using ev f'(2) by (simp_all add: evolves_def)
  then show ?thesis using evolves_ready [OF ev] evolves_refs [OF ev f'(1)] f' p c by (simp add: filing_def)
qed

text \<open>The last block of the directory, and the next entry of it or of a new block.\<close>

lemma last_at_entry:
  assumes f: "filing s rb (Suc nd) es bss e" and len: "8 * nd \<le> length es" "length es < 8 * Suc nd" "dir_blocks (length es) = dir_blocks (Suc (length es))"
    and a: "evolves s s1" "refs s1 q (block_of (seal s) (ino_addr 1) (Data nd))"
      "pins (blocks s1) = (pins (blocks s))(block_of (seal s) (ino_addr 1) (Data nd) := 1)" "seal s1 = seal s" "nextb s1 = nextb s"
  shows "at_entry s (length es) q (128 * (length es - 8 * nd)) s1"
proof -
  have node: "Data nd \<in> nodes (Suc nd)" by simp
  note b = root_block [OF f node]
  have i: "length es - 8 * nd < 8" using len by simp
  have "1024 * block_of (seal s) (ino_addr 1) (Data nd) + 128 * (length es - 8 * nd) = byte_addr (seal s1) (ino_addr 1) (128 * length es)"
    using entry_place [OF i, of "seal s" "ino_addr 1" nd] len a(4) by simp
  then have "\<exists>B. refs s1 q B \<and> 3 < B \<and> pins (blocks s) B = 0 \<and> pins (blocks s1) = (pins (blocks s))(B := 1) \<and>
      1024 * B + 128 * (length es - 8 * nd) = byte_addr (seal s1) (ino_addr 1) (128 * length es)" using a(2,3) b by blast
  moreover have "128 * (length es - 8 * nd) + 128 \<le> 1024" "4 dvd 128 * (length es - 8 * nd)" using i by simp_all
  ultimately show ?thesis using a(1,5) len(3) unfolding at_entry_def by simp
qed

lemma allocdirentry_ends:
  assumes f: "filing s rb nd es bss e" and nd: "nd = dir_blocks (length es)" and num: "numbered es" and nm: "length nm \<le> 123"
    and room: "entry_room s nd (Suc (length es))"
  shows "ends (allocdirentry (rb, 64) nm) s (\<lambda>r s'. \<exists>q od. r = Some (q, od) \<and> at_entry s (length es) q od s' \<and>
    cat_mem (ninodes s) (dir_blocks (Suc (length es))) (es @ [(0, nm)]) bss e (seal s'))"
    (is "ends _ _ ?Q")
proof -
  let ?nd' = "dir_blocks (Suc (length es))"
  have s: "ready s" and rb: "refs s rb 3" and c: "cat_mem (ninodes s) nd es bss e (seal s)" using f by (simp_all add: filing_def)
  have off: "3 \<le> (3 :: nat)" "64 + 4 \<le> (1024 :: nat)" by simp_all
  have at: "1024 * 3 + 64 = ino_addr 1" by (simp add: ino_addr_def)
  have "ld32 (seal s) (ino_addr 1) = of_nat (1024 * nd)" using cat_memD(4) [OF c] by (simp add: root_dir_def header_def)
  then have size: "peek rb 64 s = of_nat (1024 * nd)" using peek_seal [OF s rb off] unfolding at by simp
  have "nd \<le> 65802" using cat_memD(9) [OF c] by (simp add: file_ok_def)
  from block_count [OF this]
  have n: "unat ((peek rb 64 s + of_nat 1024 - 1) div of_nat 1024 :: u32) = nd" unfolding size .
  have "length es < 8 * ?nd'" by (simp add: dir_blocks_Suc)
  note name = name_ends [OF _ _ this nm]
  have fill: "ends (fill q (od + 4) (nm @ [0])) s1 (\<lambda>_. ?Q (Some (q, od)))"
    if "at_entry s (length es) q od s1" "cat_mem (ninodes s) ?nd' es bss e (seal s1)" for q od s1
    by (rule ends_mono [OF name [OF that]]) blast
  show ?thesis
  proof (cases "nd = 0")
    case True
    have eq: "ends (allocdirentry (rb, 64) nm) s ?Q \<longleftrightarrow>
        ends (new_dir_block (rb, 64) 0) s (\<lambda>q s1. ends (fill q (0 + 4) (nm @ [0])) s1 (\<lambda>_. ?Q (Some (q, 0))))"
      using nm n True by (simp add: allocdirentry_def Let_def)
    have len: "length es = 8 * 0" using cat_memD(11) [OF c] True by simp
    then have nd': "?nd' = Suc 0" by (simp add: dir_blocks_Suc)
    show ?thesis
      unfolding eq
      by (rule ends_mono [OF new_block_at_entry [OF f [unfolded True] len room [unfolded True]]]) (rule fill, use nd' in auto)
  next
    case False
    then obtain k where k: "nd = Suc k" using not0_implies_Suc by blast
    have eq: "ends (allocdirentry (rb, 64) nm) s ?Q \<longleftrightarrow> ends (last_dir_block (rb, 64) k) s (\<lambda>q s1.
        ends (case free_entry q s1 of Some i \<Rightarrow> done_with (q, 128 * i)
          | None \<Rightarrow> andthen (lift (putblk q)) (bind (new_dir_block (rb, 64) nd) (\<lambda>q. done_with (q, 0)))) s1
          (\<lambda>(q, od) s2. ends (fill q (od + 4) (nm @ [0])) s2 (\<lambda>_. ?Q (Some (q, od)))))"
      using nm n False by (simp add: allocdirentry_def Let_def k split: option.split)
    have last: "8 * k \<le> length es" "length es < 8 * Suc k \<longleftrightarrow> ?nd' = nd"
      using dir_blocks_cases [of "length es"] nd k by (metis diff_Suc_1 less_imp_le le_add2 mult_Suc_right Suc_n_not_n less_irrefl)+
    show ?thesis
      unfolding eq
    proof (rule ends_mono [OF last_dir_block_ends [OF f, of k]])
      show "k < nd" using k by simp
      fix q s1
      let ?B = "block_of (seal s) (ino_addr 1) (Data k)"
      assume a: "evolves s s1 \<and> refs s1 q ?B \<and> pins (blocks s1) = (pins (blocks s))(?B := 1) \<and> seal s1 = seal s \<and> nextb s1 = nextb s"
      have node: "Data k \<in> nodes nd" using k by simp
      note B = root_block [OF f node]
      have "cat_mem (ninodes s) (Suc k) es bss e (seal s1)" "refs s1 q (block_of (seal s1) (ino_addr 1) (Data k))"
        "3 \<le> block_of (seal s1) (ino_addr 1) (Data k)" using a c k B(1) by simp_all
      note free = free_entry_next [OF evolves_ready this(1) num last(1) this(2,3)]
      show "ends (case free_entry q s1 of Some i \<Rightarrow> done_with (q, 128 * i)
          | None \<Rightarrow> andthen (lift (putblk q)) (bind (new_dir_block (rb, 64) nd) (\<lambda>q. done_with (q, 0)))) s1
          (\<lambda>(q, od) s2. ends (fill q (od + 4) (nm @ [0])) s2 (\<lambda>_. ?Q (Some (q, od))))"
      proof (cases "length es < 8 * Suc k")
        case True
        then have nd': "?nd' = nd" using last(2) by blast
        have "at_entry s (length es) q (128 * (length es - 8 * k)) s1"
          by (rule last_at_entry [OF f [unfolded k] last(1) True]) (use a nd nd' in auto)
        moreover have "cat_mem (ninodes s) ?nd' es bss e (seal s1)" using a c nd' by simp
        ultimately show ?thesis using fill free a True by auto
      next
        case False
        then have full: "length es = 8 * nd" using cat_memD(11) [OF c] k by simp
        have "pins (blocks s1) = (pins (blocks s))(?B := Suc (pins (blocks s) ?B))" using a B(3) by simp
        note put = put_ends [OF _ _ this]
        have none: "free_entry q s1 = None" using free [of s] a False by simp
        show ?thesis
          unfolding none option.case ends_build
        proof (rule ends_mono [OF put])
          fix u :: unit and s2
          assume b: "evolves s s2 \<and> pins (blocks s2) = pins (blocks s) \<and> seal s2 = seal s1 \<and> nextb s2 = nextb s1"
          have ev: "evolves s s2" and p: "pins (blocks s2) = pins (blocks s)" and nx: "nextb s2 = nextb s" and img: "seal s2 = seal s"
            using a b by simp_all
          have nb: "nblocks (blocks s2) = nblocks (blocks s)" "ninodes s2 = ninodes s" using ev by (simp_all add: evolves_def)
          have f2: "filing s2 rb nd es bss e" by (rule filing_evolves [OF f ev p]) (use c img in simp)
          have room2: "entry_room s2 nd (Suc (length es))" using room nb nx by (simp add: entry_room_def)
          have nd': "?nd' = Suc nd" using full nd by (simp add: dir_blocks_Suc)
          show "ends (bind (new_dir_block (rb, 64) nd) (\<lambda>q. done_with (q, 0))) s2
              (\<lambda>(q, od) s2. ends (fill q (od + 4) (nm @ [0])) s2 (\<lambda>_. ?Q (Some (q, od))))"
            unfolding ends_simps(2)
          proof (rule ends_mono [OF new_block_at_entry [OF f2 full room2]])
            fix q s3
            assume g: "at_entry s2 (length es) q 0 s3 \<and> cat_mem (ninodes s2) (Suc nd) es bss e (seal s3)"
            then have "evolves s s3" using evolves_trans [OF ev] by (simp add: at_entry_def)
            then have "at_entry s (length es) q 0 s3" using g p nx unfolding at_entry_def by simp
            then show "ends (done_with (q, 0)) s3 (\<lambda>(q, od) s2. ends (fill q (od + 4) (nm @ [0])) s2 (\<lambda>_. ?Q (Some (q, od))))"
              using fill [of q 0 s3] g nb nd' by simp
          qed
        qed (use a in simp_all)
      qed
    qed
  qed
qed

end
