(* ===== verification/FormatNew.thy ===== *)
theory FormatNew
  imports FormatDirent
begin

text \<open>
  \<open>allocinode\<close> and \<open>writefile\<close> of the image builder for a file of the root directory: the entry has the
  number of the next inode, and the inode and its blocks hold the bytes that were read.
\<close>

section \<open>The image with the inode of a new file\<close>

definition file_inode_mem :: "mem \<Rightarrow> nat \<Rightarrow> mem" where
  "file_inode_mem m oi = st32 (st32 (st32 m (oi + 8) 1) (oi + 4) OSPFS_FTYPE_REG) (oi + 12) 0x1B6"

lemma file_inode_mem_byte: "x < oi + 4 \<or> oi + 16 \<le> x \<Longrightarrow> file_inode_mem m oi x = m x"
  unfolding file_inode_mem_def by (auto simp: st32_other_byte)

lemma file_inode_mem_facts:
  assumes im: "image ni m" "i < ni" and empty: "empty_inode m (ino_addr i)"
  shows "super_eq m (file_inode_mem m (ino_addr i))" "free_set (file_inode_mem m (ino_addr i)) = free_set m"
    "disk_ok (file_inode_mem m (ino_addr i))" "file_ok (file_inode_mem m (ino_addr i)) (ino_addr i) 0"
    "ptrs_clear (file_inode_mem m (ino_addr i)) (ino_addr i) 0"
    "own_bytes (file_inode_mem m (ino_addr i)) (ino_addr i) 0 x \<longleftrightarrow> own_bytes m (ino_addr i) 0 x"
    "header (file_inode_mem m (ino_addr i)) (ino_addr i) (ld32 m (ino_addr i)) OSPFS_FTYPE_REG 1 0x1B6"
proof -
  let ?oi = "ino_addr i" and ?m = "file_inode_mem m (ino_addr i)"
  note e = empty_inode_file [OF im empty]
  have "freemap_end m \<le> ?oi" by (rule file_inode(3) [OF e(1)])
  then have ch: "\<forall>x. ?m x \<noteq> m x \<longrightarrow> freemap_end m \<le> x \<and> \<not> (?oi + 16 \<le> x \<and> x < ?oi + 64) \<and>
      \<not> (\<exists>y \<in> nodes 0. (\<forall>i. y \<noteq> Data i) \<and> in_block (block_of m ?oi y) x)"
    using file_inode_mem_byte [of _ ?oi m] by (metis add_leE empty_iff leD leI le_trans nodes_0)
  note t = tweak [OF e(1) ch]
  show "super_eq m ?m" "free_set ?m = free_set m" "disk_ok ?m" "file_ok ?m ?oi 0" by (rule t(1-4))+
  show "ptrs_clear ?m ?oi 0" by (rule t(7) [OF e(2)])
  show "own_bytes ?m ?oi 0 x \<longleftrightarrow> own_bytes m ?oi 0 x" using t(2) by (simp add: own_bytes_def pointer_block_def)
  show "header ?m ?oi (ld32 m ?oi) OSPFS_FTYPE_REG 1 0x1B6"
    by (simp add: header_def file_inode_mem_def ld32_st32_apart ld32_st32_same)
qed

lemma cat_file:
  assumes c: "cat_mem ni nd es bss e m" and e: "e = length bss + 2" "e < ni"
    and g: "grown (file_inode_mem m (ino_addr e)) (ino_addr e) (blocks_for (length bs)) bs m5"
  shows "cat_mem ni nd es (bss @ [bs]) (Suc e) (st32 m5 (ino_addr e) (of_nat (length bs)))"
proof -
  let ?oi = "ino_addr e" and ?n = "blocks_for (length bs)" and ?m = "file_inode_mem m (ino_addr e)"
  let ?m6 = "st32 m5 (ino_addr e) (of_nat (length bs))"
  note D = cat_memD [OF c]
  note F = file_inode_mem_facts [OF D(1) e(2) D(7) [OF order_refl e(2)]]
  have g': "file_ok m5 ?oi ?n" "ptrs_clear m5 ?oi ?n" "super_eq ?m m5" "\<forall>i < 4. ld32 m5 (?oi + 4 * i) = ld32 ?m (?oi + 4 * i)"
    "block_of m5 ?oi ` nodes ?n \<subseteq> free_set ?m" "free_set m5 \<subseteq> free_set ?m"
    "\<And>x. \<lbrakk>freemap_end ?m \<le> x; \<not> own_bytes ?m ?oi 0 x\<rbrakk> \<Longrightarrow> m5 x = ?m x" "length bs \<le> 1024 * ?n"
    "\<forall>k < length bs. m5 (byte_addr m5 ?oi k) = bs ! k" using g by (simp_all add: grown_def)
  have ends: "freemap_end ?m = freemap_end m" by (rule super_eq_simps(2) [OF F(1)])
  have high: "freemap_end m5 \<le> ?oi" by (rule file_inode(3) [OF g'(1)])
  have out: "?m6 x \<noteq> m5 x \<Longrightarrow> ?oi \<le> x \<and> x < ?oi + 4" for x using st32_other_byte [of x ?oi m5] by (metis not_le)
  have blocks: "?oi + 64 \<le> 1024 * block_of m5 ?oi y" if "y \<in> nodes ?n" for y
    by (rule file_inode(5) [OF g'(1) file_block_facts(1) [OF g'(1) that]])
  have ch: "\<forall>x. ?m6 x \<noteq> m5 x \<longrightarrow> freemap_end m5 \<le> x \<and> \<not> (?oi + 16 \<le> x \<and> x < ?oi + 64) \<and>
      \<not> (\<exists>y \<in> nodes ?n. (\<forall>i. y \<noteq> Data i) \<and> in_block (block_of m5 ?oi y) x)"
    using out blocks high by (fastforce simp: in_block_def)
  note t = tweak [OF g'(1) ch]
  have "super_eq m ?m6" by (rule super_eq_trans [OF super_eq_trans [OF F(1) g'(3)] t(1)])
  moreover have "free_set ?m6 \<subseteq> free_set m" using g'(6) F(2) t(2) by simp
  moreover have "?m6 x = m x" if "freemap_end m \<le> x" "\<not> own_bytes m ?oi 0 x" for x
  proof -
    have x: "\<not> (?oi \<le> x \<and> x < ?oi + 64)" using that(2) by (auto simp: own_bytes_def)
    then have "?m6 x = m5 x" by (intro st32_other_byte) auto
    also have "\<dots> = ?m x" by (rule g'(7)) (use that ends F(6) in simp_all)
    also have "\<dots> = m x" using x by (intro file_inode_mem_byte) auto
    finally show ?thesis .
  qed
  ultimately have away: "cat_mem ni nd es bss (Suc e) ?m6" "same_file m ?m6 (ino_addr 1) nd"
    using cat_away [OF c order_refl e(2) refl _ t(3)] by blast+
  have "holds ?m6 ?oi ?n (length bs) (\<lambda>k. bs ! k)"
    unfolding holds_def
  proof (intro conjI allI impI)
    show "file_ok ?m6 ?oi ?n" "ptrs_clear ?m6 ?oi ?n" "length bs \<le> 1024 * ?n" using t(4) t(7) [OF g'(2)] g'(8) by simp_all
    fix k
    assume k: "k < length bs"
    then have k': "k < 1024 * ?n" using g'(8) by simp
    then have "Data (k div 1024) \<in> nodes ?n" by (simp add: less_mult_imp_div_less mult.commute)
    then have "?oi + 64 \<le> byte_addr m5 ?oi k" using blocks by (fastforce simp: byte_addr_def)
    then show "?m6 (byte_addr ?m6 ?oi k) = bs ! k" using t(6) [OF k'] g'(9) k by (simp add: st32_other_byte)
  qed
  moreover have "header ?m6 ?oi (of_nat (length bs)) OSPFS_FTYPE_REG 1 0x1B6"
    using F(7) g'(4) [rule_format, of 1] g'(4) [rule_format, of 2] g'(4) [rule_format, of 3]
    by (simp add: header_def ld32_st32_same ld32_st32_apart)
  ultimately have reg: "regular ?m6 (ino_addr (length bss + 2)) bs" using e(1) by (simp add: regular_def)
  have "block_of ?m6 (ino_addr 1) y \<noteq> block_of ?m6 ?oi z" if "y \<in> nodes nd" "z \<in> nodes ?n" for y z
  proof -
    have "block_of ?m6 ?oi z \<in> free_set m" using g'(5) that(2) t(5) [OF that(2)] F(2) by auto
    moreover have "block_of ?m6 (ino_addr 1) y \<notin> free_set m"
      using away(2) that(1) file_block_facts(2) [OF D(9) that(1)] by (simp add: same_file_def)
    ultimately show ?thesis by metis
  qed
  then have "apart_from_root ?m6 nd (ino_addr (length bss + 2)) ?n" using e(1) by (simp add: apart_from_root_def)
  from cat_add_file [OF away(1) _ reg this] e(1) show ?thesis by simp
qed

section \<open>The state in the new file\<close>

lemma nextinode_irrelevant [simp]:
  "ready (s\<lparr>nextinode := k\<rparr>) \<longleftrightarrow> ready s" "seal (s\<lparr>nextinode := k\<rparr>) = seal s" "refs (s\<lparr>nextinode := k\<rparr>) q c \<longleftrightarrow> refs s q c"
  by (simp_all add: ready_def seal_def refs_def)

lemma nextinode_evolves: "evolves s s' \<Longrightarrow> evolves (s\<lparr>nextinode := k\<rparr>) (s'\<lparr>nextinode := k\<rparr>)"
  by (simp add: evolves_def)

lemma nextinode_filing [simp]: "filing (s\<lparr>nextinode := k\<rparr>) rb nd es bss e \<longleftrightarrow> filing s rb nd es bss e"
  by (simp add: filing_def)

text \<open>The builder holds the block of the directory at the slot \<open>q\<close> and the block of the inode \<open>e\<close> at \<open>ib\<close>.\<close>

definition at_inode :: "fs \<Rightarrow> nat \<Rightarrow> nat \<Rightarrow> nat \<Rightarrow> fs \<Rightarrow> bool" where
  "at_inode s e q ib s' \<longleftrightarrow> evolves (s\<lparr>nextinode := Suc e\<rparr>) s' \<and> refs s' ib (3 + e div 16) \<and>
     (\<exists>B. refs s' q B \<and> B \<noteq> 3 + e div 16 \<and> pins (blocks s) B = 0 \<and>
        pins (blocks s') = (pins (blocks s))(B := 1, 3 + e div 16 := Suc (pins (blocks s) (3 + e div 16))))"

lemma at_inode_evolves:
  assumes a: "at_inode s e q ib s1" and ev: "evolves s1 s2" and p: "pins (blocks s2) = pins (blocks s1)"
  shows "at_inode s e q ib s2"
proof -
  obtain B where B: "refs s1 q B" "B \<noteq> 3 + e div 16" "pins (blocks s) B = 0"
    "pins (blocks s1) = (pins (blocks s))(B := 1, 3 + e div 16 := Suc (pins (blocks s) (3 + e div 16)))"
    using a by (auto simp: at_inode_def)
  have "refs s2 q B" by (rule evolves_refs [OF ev B(1)])
  then have "\<exists>B. refs s2 q B \<and> B \<noteq> 3 + e div 16 \<and> pins (blocks s) B = 0 \<and>
        pins (blocks s2) = (pins (blocks s))(B := 1, 3 + e div 16 := Suc (pins (blocks s) (3 + e div 16)))"
    using B(2-4) p by metis
  moreover have "evolves (s\<lparr>nextinode := Suc e\<rparr>) s1" "refs s1 ib (3 + e div 16)" using a by (simp_all add: at_inode_def)
  ultimately show ?thesis unfolding at_inode_def using evolves_trans [OF _ ev] evolves_refs [OF ev] by blast
qed

lemma inode_place:
  assumes "off + 4 \<le> 64"
  shows "1024 * (3 + e div 16) + (64 * (e mod 16) + off) = ino_addr e + off" "64 * (e mod 16) + off + 4 \<le> 1024"
proof -
  have "1024 * (3 + d) + (64 * r + off) = 3072 + 64 * (16 * d + r) + off" for d r by simp
  from this [of "e div 16" "e mod 16"]
  show "1024 * (3 + e div 16) + (64 * (e mod 16) + off) = ino_addr e + off" unfolding ino_addr_def by (simp only: mult_div_mod_eq)
  have "e mod 16 < 16" by simp
  then show "64 * (e mod 16) + off + 4 \<le> 1024" using assms by linarith
qed

lemma inode_poke:
  assumes a: "at_inode s e q ib s1" and off: "off + 4 \<le> 64"
  shows "ends (poke ib (64 * (e mod 16) + off) v) s1 (\<lambda>_ s2. at_inode s e q ib s2 \<and> seal s2 = st32 (seal s1) (ino_addr e + off) v \<and>
    nextb s2 = nextb s1)"
proof -
  have a': "evolves (s\<lparr>nextinode := Suc e\<rparr>) s1" "refs s1 ib (3 + e div 16)" using a by (simp_all add: at_inode_def)
  have three: "3 \<le> 3 + e div 16" by simp
  note p = poke_ends [OF evolves_ready [OF a'(1)] a'(2) three inode_place(2) [OF off, of e], unfolded inode_place(1) [OF off]]
  show ?thesis
    by (rule ends_mono [OF p]) (simp add: at_inode_evolves [OF a])
qed

lemma put_both_ends:
  assumes a: "at_inode s e q ib s1"
  shows "ends (put_both q ib) s1 (\<lambda>_ s2. evolves (s\<lparr>nextinode := Suc e\<rparr>) s2 \<and> pins (blocks s2) = pins (blocks s) \<and>
    seal s2 = seal s1 \<and> nextb s2 = nextb s1)"
proof -
  let ?s = "s\<lparr>nextinode := Suc e\<rparr>" and ?no = "3 + e div 16"
  obtain B where B: "refs s1 q B" "B \<noteq> ?no" "pins (blocks s) B = 0"
    "pins (blocks s1) = (pins (blocks s))(B := 1, ?no := Suc (pins (blocks s) ?no))"
    using a by (auto simp: at_inode_def)
  have a': "evolves ?s s1" "refs s1 ib ?no" using a by (simp_all add: at_inode_def)
  have P: "(pins (blocks s1))(B := pins (blocks s1) B - 1) = (pins (blocks s))(?no := Suc (pins (blocks s) ?no))"
    using B by (auto simp: fun_eq_iff)
  have "ends (lift (putblk q)) s1 (\<lambda>_ s2. evolves ?s s2 \<and> refs s2 ib ?no \<and>
      pins (blocks s2) = (pins (blocks s))(?no := Suc (pins (blocks s) ?no)) \<and> seal s2 = seal s1 \<and> nextb s2 = nextb s1)"
    by (rule put_down [OF a'(1) B(1) P _ a'(2)]) simp_all
  then show ?thesis
    unfolding put_both_def ends_build
  proof (rule ends_mono)
    fix u :: unit and s2
    assume b: "evolves ?s s2 \<and> refs s2 ib ?no \<and> pins (blocks s2) = (pins (blocks s))(?no := Suc (pins (blocks s) ?no)) \<and>
      seal s2 = seal s1 \<and> nextb s2 = nextb s1"
    have "pins (blocks s2) = (pins (blocks ?s))(?no := Suc (pins (blocks ?s) ?no))" using b by simp
    from put_ends [OF _ _ this]
    show "ends (lift (putblk ib)) s2 (\<lambda>_ s2. evolves ?s s2 \<and> pins (blocks s2) = pins (blocks s) \<and> seal s2 = seal s1 \<and> nextb s2 = nextb s1)"
      using b by (auto elim!: ends_mono)
  qed
qed

section \<open>The next inode\<close>

lemma inode_block_below: "e < ni \<Longrightarrow> 3 + e div 16 < first_data ni"
  unfolding first_data_def by simp

lemma entry_block:
  assumes c: "cat_mem ni nd es bss e m" and k: "k < 8 * nd" and at: "1024 * B + od = byte_addr m (ino_addr 1) (128 * k)" "od < 1024"
  shows "data_start m \<le> B"
proof -
  have i: "128 * k div 1024 < nd" using k by (simp add: less_mult_imp_div_less mult.commute)
  have "1024 * B + od = 1024 * block_of m (ino_addr 1) (Data (128 * k div 1024)) + 128 * k mod 1024"
    using at(1) by (simp only: byte_addr_def)
  then have "(1024 * B + od) div 1024 = (1024 * block_of m (ino_addr 1) (Data (128 * k div 1024)) + 128 * k mod 1024) div 1024" by (rule arg_cong)
  then have "B = block_of m (ino_addr 1) (Data (128 * k div 1024))" using at(2) by simp
  moreover have "Data (128 * k div 1024) \<in> nodes nd" using i by simp
  ultimately show ?thesis using file_block_facts(1) [OF cat_memD(9) [OF c]] by (simp add: data_block_def)
qed

lemma allocinode_ends:
  assumes f: "filing s rb nd0 es0 bss0 e0" and a: "at_entry s (length es) q od s1"
    and c: "cat_mem (ninodes s) nd (es @ [(0, nm)]) bss e (seal s1)" and nm: "length nm \<le> 123"
    and e: "nextinode s = e" "e < ninodes s"
  shows "ends (allocinode (Some (q, od))) s1 (\<lambda>(i, ib, io) s3. i = e \<and> io = 64 * (e mod 16) \<and> at_inode s e q ib s3 \<and>
    cat_mem (ninodes s) nd (es @ [(e, nm)]) bss e (seal s3) \<and> nextb s3 = nextb s1)"
proof -
  let ?no = "3 + e div 16" and ?s = "s\<lparr>nextinode := Suc e\<rparr>" and ?s1 = "s1\<lparr>nextinode := Suc e\<rparr>"
  obtain B where B: "refs s1 q B" "3 < B" "pins (blocks s) B = 0" "pins (blocks s1) = (pins (blocks s))(B := 1)"
    "1024 * B + od = byte_addr (seal s1) (ino_addr 1) (128 * length es)" using a by (auto simp: at_entry_def)
  have a': "evolves s s1" "od + 128 \<le> 1024" using a by (simp_all add: at_entry_def)
  have s1: "ready s1" by (rule evolves_ready [OF a'(1)])
  have keep: "nextinode s1 = e" "ninodes s1 = ninodes s" using a'(1) e(1) by (simp_all add: evolves_def)
  have ev: "evolves ?s ?s1" by (rule nextinode_evolves [OF a'(1)])
  have k: "length es < 8 * nd" using cat_memD(11) [OF c] by simp
  have "data_start (seal s1) \<le> B" by (rule entry_block [OF c k B(5)]) (use a'(2) in simp)
  then have apart: "?no < first_data (ninodes s)" "first_data (ninodes s) \<le> B" "?no \<noteq> B"
    using inode_block_below [OF e(2)] seal_disk(4) [OF s1] keep(2) by simp_all
  have pins: "pins (blocks s) = (\<lambda>_. 0)(3 := 1)" "kind (blocks s) 3 = BLOCK_INODES" using f by (simp_all add: filing_def)
  have sb: "unat (sb_firstinob s1) = 3" using s1 by (simp add: ready_def)
  have eq: "ends (allocinode (Some (q, od))) s1 Q \<longleftrightarrow> ends (poke q od (of_nat e)) ?s1 (\<lambda>_ s2.
      ends (lift (getblk ?no False BLOCK_INODES)) s2 (\<lambda>ib. Q (e, ib, 64 * (e mod 16))))" for Q
    using keep e(2) sb by (simp add: allocinode_def Let_def)
  have q: "refs ?s1 q B" "3 \<le> B" "od + 4 \<le> 1024" "ready ?s1" using B(1,2) a'(2) s1 by simp_all
  show ?thesis
    unfolding eq
  proof (rule ends_mono [OF poke_ends [OF q(4,1,2,3)]])
    fix u :: unit and s2
    assume b: "evolves ?s1 s2 \<and> pins (blocks s2) = pins (blocks ?s1) \<and> seal s2 = st32 (seal ?s1) (1024 * B + od) (of_nat e) \<and>
      nextb s2 = nextb ?s1"
    then have ev2: "evolves ?s s2" and p2: "pins (blocks s2) = (pins (blocks s))(B := 1)" using evolves_trans [OF ev] B(4) by simp_all
    have s2: "ready s2" by (rule evolves_ready [OF ev2])
    have n2: "ninodes s2 = ninodes s" using ev2 by (simp add: evolves_def)
    have c2: "cat_mem (ninodes s) nd (es @ [(e, nm)]) bss e (seal s2)" using cat_number [OF c nm, of e] b B(5) by simp
    have no: "0 < ?no" "?no < nextb s2" using apart(1) ready_facts(7) [OF s2] n2 by simp_all
    have "card (pinned (blocks s2)) \<le> Suc (card (pinned (blocks s)))"
      by (rule card_pins [OF ready_facts(1) p2]) (use f in \<open>simp add: filing_def\<close>)
    then have room: "0 < pins (blocks s2) ?no \<or> card (pinned (blocks s2)) < 16" using filing_pinned [OF f] by simp
    have t: "kind (blocks s2) ?no = BLOCK_INODES \<or> pins (blocks s2) ?no = 0"
    proof (cases "?no = 3")
      case True
      have "\<forall>c. 0 < pins (blocks ?s) c \<longrightarrow> kind (blocks s2) c = kind (blocks ?s) c" using ev2 by (simp add: evolves_def)
      then have "0 < pins (blocks ?s) 3 \<longrightarrow> kind (blocks s2) 3 = kind (blocks ?s) 3" by blast
      then show ?thesis using pins True by simp
    next
      case False
      then show ?thesis using p2 pins(1) apart(3) by simp
    qed
    show "ends (lift (getblk ?no False BLOCK_INODES)) s2 (\<lambda>ib. (\<lambda>(i, ib, io) s3. i = e \<and> io = 64 * (e mod 16) \<and>
        at_inode s e q ib s3 \<and> cat_mem (ninodes s) nd (es @ [(e, nm)]) bss e (seal s3) \<and> nextb s3 = nextb s1) (e, ib, 64 * (e mod 16)))"
    proof (rule ends_mono [OF get_old [OF s2 no room t]])
      fix ib s3
      assume g: "evolves s2 s3 \<and> refs s3 ib ?no \<and> kind (blocks s3) ?no = BLOCK_INODES \<and>
        pins (blocks s3) = (pins (blocks s2))(?no := Suc (pins (blocks s2) ?no)) \<and> seal s3 = seal s2 \<and> nextb s3 = nextb s2"
      have "refs s2 q B" using b evolves_refs [OF _ q(1)] by blast
      then have "refs s3 q B" using g evolves_refs by blast
      moreover have "pins (blocks s3) = (pins (blocks s))(B := 1, ?no := Suc (pins (blocks s) ?no))"
        using g p2 apart(3) by simp
      ultimately have "\<exists>B. refs s3 q B \<and> B \<noteq> ?no \<and> pins (blocks s) B = 0 \<and>
          pins (blocks s3) = (pins (blocks s))(B := 1, ?no := Suc (pins (blocks s) ?no))" using B(3) apart(3) by metis
      moreover have "evolves ?s s3" using g evolves_trans [OF ev2] by blast
      ultimately have "at_inode s e q ib s3" using g unfolding at_inode_def by blast
      then show "(\<lambda>(i, ib, io) s3. i = e \<and> io = 64 * (e mod 16) \<and> at_inode s e q ib s3 \<and>
          cat_mem (ninodes s) nd (es @ [(e, nm)]) bss e (seal s3) \<and> nextb s3 = nextb s1) (e, ib, 64 * (e mod 16)) s3"
        using c2 g b by simp
    qed
  qed
qed

section \<open>A file of the root directory\<close>

lemma at_inode_held:
  assumes f: "filing s rb nd es bss e0" and a: "at_inode s e q ib s1"
  shows "inode_held s1 ib (3 + e div 16) (64 * (e mod 16)) (ino_addr e)"
proof -
  have a': "evolves (s\<lparr>nextinode := Suc e\<rparr>) s1" "refs s1 ib (3 + e div 16)" using a by (simp_all add: at_inode_def)
  obtain B where B: "pins (blocks s1) = (pins (blocks s))(B := 1, 3 + e div 16 := Suc (pins (blocks s) (3 + e div 16)))"
    using a by (auto simp: at_inode_def)
  have "pins (blocks s) = (\<lambda>_. 0)(3 := 1)" using f by (simp add: filing_def)
  then have "pinned (blocks s1) \<subseteq> {3, B, 3 + e div 16}" using B by (auto simp: pinned_def split: if_splits)
  then have "card (pinned (blocks s1)) \<le> card {3, B, 3 + e div 16}" by (intro card_mono) simp_all
  also have "\<dots> \<le> 3" by (simp add: card_insert_if)
  finally have "card (pinned (blocks s1)) \<le> 13" by simp
  moreover have "e mod 16 < 16" by simp
  then have "64 * (e mod 16) + 64 \<le> 1024" by linarith
  moreover have "1024 * (3 + e div 16) + 64 * (e mod 16) = ino_addr e" using inode_place(1) [of 0 e] by simp
  ultimately show ?thesis using evolves_ready [OF a'(1)] a'(2) by (simp add: inode_held_def)
qed

lemma header_ends:
  assumes a: "at_inode s e q ib s1" and lc: "\<not> link_contents s"
  shows "ends (poke ib (64 * (e mod 16) + 8) 1) s1 (\<lambda>_ s2. ends (get_state (\<lambda>s. if link_contents s then m else skip)) s2
    (\<lambda>_ s3. ends (poke ib (64 * (e mod 16) + 4) OSPFS_FTYPE_REG) s3 (\<lambda>_ s4. ends (poke ib (64 * (e mod 16) + 12) 0x1B6) s4
    (\<lambda>_ s5. at_inode s e q ib s5 \<and> nextb s5 = nextb s1 \<and> seal s5 = file_inode_mem (seal s1) (ino_addr e)))))"
proof -
  have off: "8 + 4 \<le> (64 :: nat)" "4 + 4 \<le> (64 :: nat)" "12 + 4 \<le> (64 :: nat)" by simp_all
  have three: "ends (poke ib (64 * (e mod 16) + 12) 0x1B6) s3 (\<lambda>_ s2. at_inode s e q ib s2 \<and> nextb s2 = nextb s1 \<and>
      seal s2 = file_inode_mem (seal s1) (ino_addr e))"
    if "at_inode s e q ib s3 \<and> seal s3 = st32 (st32 (seal s1) (ino_addr e + 8) 1) (ino_addr e + 4) OSPFS_FTYPE_REG \<and> nextb s3 = nextb s1" for s3
    by (rule ends_mono [OF inode_poke [OF conjunct1 [OF that] off(3)]]) (use that in \<open>simp add: file_inode_mem_def\<close>)
  have two: "ends (poke ib (64 * (e mod 16) + 4) OSPFS_FTYPE_REG) s2 (\<lambda>_ s3. at_inode s e q ib s3 \<and>
      seal s3 = st32 (st32 (seal s1) (ino_addr e + 8) 1) (ino_addr e + 4) OSPFS_FTYPE_REG \<and> nextb s3 = nextb s1)"
    if "at_inode s e q ib s2 \<and> seal s2 = st32 (seal s1) (ino_addr e + 8) 1 \<and> nextb s2 = nextb s1" for s2
    by (rule ends_mono [OF inode_poke [OF conjunct1 [OF that] off(2)]]) (use that in simp)
  have lc2: "\<not> link_contents s2" if "at_inode s e q ib s2" for s2 using that lc by (simp add: at_inode_def evolves_def)
  show ?thesis
  proof (rule ends_mono [OF inode_poke [OF a off(1)]])
    fix u :: unit and s2
    assume b: "at_inode s e q ib s2 \<and> seal s2 = st32 (seal s1) (ino_addr e + 8) 1 \<and> nextb s2 = nextb s1"
    have "ends (poke ib (64 * (e mod 16) + 4) OSPFS_FTYPE_REG) s2 (\<lambda>_ s4. ends (poke ib (64 * (e mod 16) + 12) 0x1B6) s4
        (\<lambda>_ s5. at_inode s e q ib s5 \<and> nextb s5 = nextb s1 \<and> seal s5 = file_inode_mem (seal s1) (ino_addr e)))"
      by (rule ends_mono [OF two [OF b]]) (rule three)
    then show "ends (get_state (\<lambda>s. if link_contents s then m else skip)) s2
        (\<lambda>_ s3. ends (poke ib (64 * (e mod 16) + 4) OSPFS_FTYPE_REG) s3 (\<lambda>_ s4. ends (poke ib (64 * (e mod 16) + 12) 0x1B6) s4
        (\<lambda>_ s5. at_inode s e q ib s5 \<and> nextb s5 = nextb s1 \<and> seal s5 = file_inode_mem (seal s1) (ino_addr e))))"
      using lc2 b by simp
  qed
qed

text \<open>What the loop over the blocks and the assignment of the size leave.\<close>

lemma contents_ends:
  assumes f: "filing s rb nd0 es0 bss0 e0" and a: "at_inode s e q ib s1" and c: "cat_mem (ninodes s) nd es bss e m"
    and img: "seal s1 = file_inode_mem m (ino_addr e)" and e: "e = length bss + 2" "e < ninodes s"
    and p: "pieces as" and room: "blocks_for (length (stream as)) \<le> 65802"
      "nextb s1 + card (nodes (blocks_for (length (stream as)))) < nblocks (blocks s)"
  shows "ends (file_loop (ib, 64 * (e mod 16)) 0 as) s1 (\<lambda>(nblk, n) s2.
    ends (poke ib (64 * (e mod 16)) (of_nat (nblk * OSPFS_BLKSIZE + n))) s2 (\<lambda>_ s3. at_inode s e q ib s3 \<and>
      cat_mem (ninodes s) nd es (bss @ [stream as]) (Suc e) (seal s3) \<and>
      nextb s3 = nextb s1 + card (nodes (blocks_for (length (stream as))))))"
proof -
  let ?bs = "stream as" and ?N = "blocks_for (length (stream as))" and ?oi = "ino_addr e"
  have ev: "evolves (s\<lparr>nextinode := Suc e\<rparr>) s1" using a by (simp add: at_inode_def)
  have nb: "nblocks (blocks s1) = nblocks (blocks s)" using ev by (simp add: evolves_def)
  note D = cat_memD [OF c]
  note F = file_inode_mem_facts [OF D(1) e(2) D(7) [OF order_refl e(2)]]
  note held = at_inode_held [OF f a]
  have start: "growing s1 ?oi 0 [] s1"
    using evolves_ready [OF ev] grown_start [OF F(4,5)] by (simp add: growing_def img)
  have room': "0 + ?N \<le> 65802" "nextb s1 + card (nodes (0 + ?N)) < nblocks (blocks s1)" using room nb by simp_all
  have len: "length [] = 1024 * (0 :: nat)" by simp
  show ?thesis
  proof (rule ends_mono [OF file_loop_ends [OF held start len p room']], clarify)
    fix nblk n s2
    assume size: "1024 * nblk + n = length ([] @ ?bs)" and g: "growing s1 ?oi (0 + ?N) ([] @ ?bs) s2"
    have g': "evolves s1 s2" "pins (blocks s2) = pins (blocks s1)" "grown (seal s1) ?oi ?N ?bs (seal s2)" "nextb s2 = nextb s1 + card (nodes ?N)"
      using g by (simp_all add: growing_def)
    have sz: "(of_nat (nblk * OSPFS_BLKSIZE + n) :: u32) = of_nat (length ?bs)" using size by (simp only: mult.commute append_Nil)
    have "0 + 4 \<le> (64 :: nat)" by simp
    note poke = inode_poke [OF at_inode_evolves [OF a g'(1,2)] this, of "of_nat (length ?bs)", unfolded add_0_right]
    show "ends (poke ib (64 * (e mod 16)) (of_nat (nblk * OSPFS_BLKSIZE + n))) s2 (\<lambda>_ s3. at_inode s e q ib s3 \<and>
        cat_mem (ninodes s) nd es (bss @ [?bs]) (Suc e) (seal s3) \<and> nextb s3 = nextb s1 + card (nodes ?N))"
      unfolding sz by (rule ends_mono [OF poke]) (use cat_file [OF c e g'(3) [unfolded img]] g'(4) in simp)
  qed
qed

lemma new_file_ends:
  assumes f: "filing s rb nd0 es0 bss0 e0" and a: "at_entry s (length es) q od s1"
    and c: "cat_mem (ninodes s) nd (es @ [(0, nm)]) bss e (seal s1)" and nm: "length nm \<le> 123"
    and e: "nextinode s = e" "e = length bss + 2" "e < ninodes s" and lc: "\<not> link_contents s"
    and p: "pieces (data_reads fl)" and room: "blocks_for (length (stream (data_reads fl))) \<le> 65802"
      "nextb s1 + card (nodes (blocks_for (length (stream (data_reads fl))))) < nblocks (blocks s)"
  shows "ends (new_file (q, od) 0 None 0x1B6 fl) s1 (\<lambda>_ s'. evolves (s\<lparr>nextinode := Suc e\<rparr>) s' \<and>
    filing s' rb nd (es @ [(e, nm)]) (bss @ [stream (data_reads fl)]) (Suc e) \<and>
    nextb s' = nextb s1 + card (nodes (blocks_for (length (stream (data_reads fl))))))"
    (is "ends _ _ ?Q")
proof -
  let ?as = "data_reads fl"
  have eq: "ends (new_file (q, od) 0 None 0x1B6 fl) s1 Q \<longleftrightarrow> ends (allocinode (Some (q, od))) s1 (\<lambda>(i, ib, io) s3.
      ends (poke ib (io + 8) 1) s3 (\<lambda>_ s4. ends (get_state (\<lambda>s. if link_contents s then set_state (add_hardlink 0 i None) else skip)) s4
      (\<lambda>_ s5. ends (poke ib (io + 4) OSPFS_FTYPE_REG) s5 (\<lambda>_ s6. ends (poke ib (io + 12) 0x1B6) s6
      (\<lambda>_ s7. ends (file_loop (ib, io) 0 ?as) s7 (\<lambda>(nblk, n) s8. ends (poke ib io (of_nat (nblk * OSPFS_BLKSIZE + n))) s8
      (\<lambda>_ s9. ends (put_both q ib) s9 Q)))))))" for Q
    by (simp add: new_file_def case_prod_unfold)
  show ?thesis
    unfolding eq
  proof (rule ends_mono [OF allocinode_ends [OF f a c nm e(1,3)]], clarify)
    fix i ib io s3
    assume b: "at_inode s e q ib s3" "cat_mem (ninodes s) nd (es @ [(e, nm)]) bss e (seal s3)" "nextb s3 = nextb s1"
    have room': "nextb s3 + card (nodes (blocks_for (length (stream ?as)))) < nblocks (blocks s)" using room(2) b(3) by simp
    show "ends (poke ib (64 * (e mod 16) + 8) 1) s3 (\<lambda>_ s4.
        ends (get_state (\<lambda>s. if link_contents s then set_state (add_hardlink 0 e None) else skip)) s4
        (\<lambda>_ s5. ends (poke ib (64 * (e mod 16) + 4) OSPFS_FTYPE_REG) s5 (\<lambda>_ s6. ends (poke ib (64 * (e mod 16) + 12) 0x1B6) s6
        (\<lambda>_ s7. ends (file_loop (ib, 64 * (e mod 16)) 0 ?as) s7
        (\<lambda>(nblk, n) s8. ends (poke ib (64 * (e mod 16)) (of_nat (nblk * OSPFS_BLKSIZE + n))) s8
        (\<lambda>_ s9. ends (put_both q ib) s9 ?Q))))))"
    proof (rule ends_mono [OF header_ends [OF b(1) lc]], rule ends_mono, assumption, rule ends_mono, assumption, rule ends_mono, assumption)
      fix u1 u2 u3 u4 :: unit and s4 s5 s6 s7
      assume h: "at_inode s e q ib s7 \<and> nextb s7 = nextb s3 \<and> seal s7 = file_inode_mem (seal s3) (ino_addr e)"
      have room7: "nextb s7 + card (nodes (blocks_for (length (stream ?as)))) < nblocks (blocks s)" using room' h by simp
      show "ends (file_loop (ib, 64 * (e mod 16)) 0 ?as) s7
          (\<lambda>(nblk, n) s8. ends (poke ib (64 * (e mod 16)) (of_nat (nblk * OSPFS_BLKSIZE + n))) s8 (\<lambda>_ s9. ends (put_both q ib) s9 ?Q))"
      proof (rule ends_mono [OF contents_ends [OF f _ b(2) _ e(2,3) p room(1) room7]], use h in blast, use h in blast,
          clarify, rule ends_mono, assumption, elim conjE)
        fix nblk n s8 and u :: unit and s9
        assume d: "at_inode s e q ib s9" "cat_mem (ninodes s) nd (es @ [(e, nm)]) (bss @ [stream ?as]) (Suc e) (seal s9)"
          "nextb s9 = nextb s7 + card (nodes (blocks_for (length (stream ?as))))"
        show "ends (put_both q ib) s9 ?Q"
        proof (rule ends_mono [OF put_both_ends [OF d(1)]])
          fix u :: unit and s'
          assume g: "evolves (s\<lparr>nextinode := Suc e\<rparr>) s' \<and> pins (blocks s') = pins (blocks s) \<and> seal s' = seal s9 \<and> nextb s' = nextb s9"
          have "filing (s\<lparr>nextinode := Suc e\<rparr>) rb nd0 es0 bss0 e0" using f by simp
          then have "filing s' rb nd (es @ [(e, nm)]) (bss @ [stream ?as]) (Suc e)"
            by (rule filing_evolves) (use g d(2) in simp_all)
          then show "?Q u s'" using g d(3) h b(3) by simp
        qed
      qed
    qed
  qed
qed

end
