(* ===== verification/FormatCatalog.thy ===== *)
theory FormatCatalog
  imports FormatNew
begin

text \<open>
  \<open>writefile\<close> for the files of the command line, one behind the other: the root directory has an entry
  for each, and the inodes from 2 on hold their bytes.
\<close>

section \<open>The files so far\<close>

text \<open>The files are pairs of a name and the bytes; the numbers of their inodes start at 2.\<close>

definition entries :: "(u8 list \<times> u8 list) list \<Rightarrow> (nat \<times> u8 list) list" where
  "entries fs = List.map (\<lambda>i. (i + 2, fst (fs ! i))) [0 ..< length fs]"

definition file_blocks :: "u8 list \<Rightarrow> nat" where
  "file_blocks bs = card (nodes (blocks_for (length bs)))"

text \<open>Blocks of the disk behind the inodes: the directory's and the files', with their pointer blocks.\<close>

definition space :: "(u8 list \<times> u8 list) list \<Rightarrow> nat" where
  "space fs = card (nodes (dir_blocks (length fs))) + sum_list (List.map (\<lambda>f. file_blocks (snd f)) fs)"

definition catalog :: "fs \<Rightarrow> nat \<Rightarrow> (u8 list \<times> u8 list) list \<Rightarrow> bool" where
  "catalog s rb fs \<longleftrightarrow> filing s rb (dir_blocks (length fs)) (entries fs) (List.map snd fs) (length fs + 2) \<and>
     nextinode s = length fs + 2 \<and> \<not> link_contents s \<and> nextb s = first_data (ninodes s) + space fs"

lemma entries_facts [simp]:
  "length (entries fs) = length fs" "entries (fs @ [(nm, bs)]) = entries fs @ [(length fs + 2, nm)]"
  by (simp_all add: entries_def nth_append)

lemma entries_numbered:
  assumes "length fs + 2 < 2 ^ 32"
  shows "numbered (entries fs)"
  using assms by (auto simp: numbered_def entries_def)

lemma space_snoc:
  "space (fs @ [(nm, bs)]) + card (nodes (dir_blocks (length fs))) =
    space fs + card (nodes (dir_blocks (Suc (length fs)))) + file_blocks bs"
  by (simp add: space_def)

lemma dir_blocks_mono: "j \<le> k \<Longrightarrow> dir_blocks j \<le> dir_blocks k"
  unfolding dir_blocks_def by (intro div_le_mono) simp

lemma space_append: "space fs \<le> space (fs @ gs)"
  using card_nodes_mono [OF dir_blocks_mono, of "length fs" "length fs + length gs"] by (simp add: space_def)

lemma card_nodes_ge: "n \<le> card (nodes n)"
proof -
  have "card (Data ` {..< n}) \<le> card (nodes n)" by (intro card_mono) auto
  moreover have "inj_on Data {..< n}" by (auto intro: inj_onI)
  ultimately show ?thesis by (simp add: card_image)
qed

section \<open>Writing a file\<close>

lemma writefile_ends:
  assumes c: "catalog s rb fs" and f: "file_opens f" "pieces (data_reads f)" and nm: "length (last_component name) \<le> 123"
    and room: "length fs + 2 < ninodes s"
      "first_data (ninodes s) + space (fs @ [(last_component name, stream (data_reads f))]) < nblocks (blocks s)"
  shows "ends (writefile garbage (rb, 64) name 0 0x1B6 f) s (\<lambda>_ s'. catalog s' rb (fs @ [(last_component name, stream (data_reads f))]) \<and>
    ninodes s' = ninodes s \<and> nblocks (blocks s') = nblocks (blocks s))"
    (is "ends _ _ ?Q")
proof -
  let ?nm = "last_component name" and ?bs = "stream (data_reads f)" and ?n = "length fs"
  have c': "filing s rb (dir_blocks ?n) (entries fs) (List.map snd fs) (?n + 2)" "nextinode s = ?n + 2" "\<not> link_contents s"
    "nextb s = first_data (ninodes s) + space fs" using c by (simp_all add: catalog_def)
  have s: "ready s" using c'(1) by (simp add: filing_def)
  have small: "nblocks (blocks s) \<le> 8192" "first_data (ninodes s) \<le> 8192" using ready_facts(4,5,7) [OF s] by linarith+
  then have "?n + 2 < 2 ^ 32" using room(1) by (simp add: first_data_def)
  note num = entries_numbered [OF this]
  have total: "nextb s + card (nodes (dir_blocks (Suc ?n))) + file_blocks ?bs < nblocks (blocks s) + card (nodes (dir_blocks ?n))"
    using room(2) space_snoc [of fs ?nm ?bs] c'(4) by linarith
  have old: "card (nodes (dir_blocks ?n)) \<le> nextb s" using c'(4) by (simp add: space_def)
  have dir: "dir_blocks (Suc ?n) \<le> 65802" using card_nodes_ge [of "dir_blocks (Suc ?n)"] total small(1) old by linarith
  have len: "blocks_for (length ?bs) \<le> 65802"
    using card_nodes_ge [of "blocks_for (length ?bs)"] total small(1) old by (simp add: file_blocks_def)
  have er: "entry_room s (dir_blocks ?n) (Suc (length (entries fs)))" using total dir by (simp add: entry_room_def)
  have nd: "dir_blocks ?n = dir_blocks (length (entries fs))" by simp
  have step: "ends (allocdirentry (rb, 64) ?nm) s (\<lambda>r s1. \<exists>q od. r = Some (q, od) \<and> \<not> link_contents s1 \<and>
      ends (new_file (q, od) 0 None 0x1B6 f) s1 ?Q)"
  proof (rule ends_mono [OF allocdirentry_ends [OF c'(1) nd num nm er]], elim exE conjE)
    fix r s1 q od
    assume r: "r = Some (q, od)" and a: "at_entry s (length (entries fs)) q od s1"
      and cm: "cat_mem (ninodes s) (dir_blocks (Suc (length (entries fs)))) (entries fs @ [(0, ?nm)]) (List.map snd fs) (?n + 2) (seal s1)"
    have a': "evolves s s1" "nextb s1 + card (nodes (dir_blocks ?n)) = nextb s + card (nodes (dir_blocks (Suc ?n)))"
      using a by (simp_all add: at_entry_def)
    have lc: "\<not> link_contents s1" using a'(1) c'(3) by (simp add: evolves_def)
    have room1: "nextb s1 + card (nodes (blocks_for (length ?bs))) < nblocks (blocks s)"
      using total a'(2) by (simp add: file_blocks_def)
    have e: "?n + 2 = length (List.map snd fs) + 2" by simp
    have "ends (new_file (q, od) 0 None 0x1B6 f) s1 ?Q"
    proof (rule ends_mono [OF new_file_ends [OF c'(1) a cm nm c'(2) e room(1) c'(3) f(2) len room1]], elim conjE)
      fix u :: unit and s'
      assume ev: "evolves (s\<lparr>nextinode := Suc (?n + 2)\<rparr>) s'"
        and fl: "filing s' rb (dir_blocks (Suc (length (entries fs)))) (entries fs @ [(?n + 2, ?nm)]) (List.map snd fs @ [?bs]) (Suc (?n + 2))"
        and nx: "nextb s' = nextb s1 + card (nodes (blocks_for (length ?bs)))"
      have keep: "nextinode s' = Suc (?n + 2)" "\<not> link_contents s'" "ninodes s' = ninodes s" "nblocks (blocks s') = nblocks (blocks s)"
        using ev c'(3) by (simp_all add: evolves_def)
      have "nextb s' = first_data (ninodes s') + space (fs @ [(?nm, ?bs)])"
        using nx a'(2) c'(4) space_snoc [of fs ?nm ?bs] keep(3) by (simp add: file_blocks_def)
      then show "?Q u s'" using fl keep by (simp add: catalog_def)
    qed
    then show "\<exists>q od. r = Some (q, od) \<and> \<not> link_contents s1 \<and> ends (new_file (q, od) 0 None 0x1B6 f) s1 ?Q"
      using r lc by blast
  qed
  show ?thesis
    unfolding writefile_def if_not_P [OF not_not [THEN iffD2, OF f(1)]] ends_simps(2)
  proof (rule ends_mono [OF step], elim exE conjE)
    fix r s1 q od
    assume "r = Some (q, od)" "\<not> link_contents s1" "ends (new_file (q, od) 0 None 0x1B6 f) s1 ?Q"
    then show "ends (get_state (\<lambda>s. let digest = if link_contents s then file_digest garbage f else None in
        if link_contents s \<and> digest = None then skip
        else let hardlink_ino = if (0 :: nat) \<noteq> 0 \<or> link_contents s then get_hardlink 0 digest s else 0 in
          case r of None \<Rightarrow> stop (if hardlink_ino = 0 \<and> nextinode s = ninodes s then No_inodes else Null_pointer)
          | Some de \<Rightarrow> if hardlink_ino = 0 then new_file de 0 digest 0x1B6 f else link_inode de hardlink_ino)) s1 ?Q"
      by simp
  qed
qed

text \<open>The files of the command line.\<close>

definition named :: "(u8 list \<times> host_file) list \<Rightarrow> (u8 list \<times> u8 list) list" where
  "named fs = List.map (\<lambda>(name, f). (last_component name, stream (data_reads f))) fs"

definition writable :: "(u8 list \<times> host_file) list \<Rightarrow> bool" where
  "writable fs \<longleftrightarrow> (\<forall>(name, f) \<in> set fs. file_opens f \<and> pieces (data_reads f) \<and> length (last_component name) \<le> 123)"

lemma write_files_ends:
  assumes "catalog s rb done" "writable fs" "length done + length fs + 2 \<le> ninodes s"
    "first_data (ninodes s) + space (done @ named fs) < nblocks (blocks s)"
  shows "ends (write_files garbage (rb, 64) fs) s (\<lambda>_ s'. catalog s' rb (done @ named fs) \<and>
    ninodes s' = ninodes s \<and> nblocks (blocks s') = nblocks (blocks s))"
  using assms
proof (induction fs arbitrary: s "done")
  case (Cons x fs)
  obtain name f where x: "x = (name, f)" by (cases x)
  let ?y = "(last_component name, stream (data_reads f))"
  have w: "file_opens f" "pieces (data_reads f)" "length (last_component name) \<le> 123" "writable fs"
    using Cons.prems(2) x by (simp_all add: writable_def)
  have n: "named (x # fs) = ?y # named fs" by (simp add: named_def x)
  have room: "length done + 2 < ninodes s" "first_data (ninodes s) + space (done @ [?y]) < nblocks (blocks s)"
    using Cons.prems(3,4) n space_append [of "done @ [?y]" "named fs"] by simp_all
  show ?case
    unfolding x write_files.simps ends_build
  proof (rule ends_mono [OF writefile_ends [OF Cons.prems(1) w(1,2,3) room]])
    fix u :: unit and s1
    assume a: "catalog s1 rb (done @ [?y]) \<and> ninodes s1 = ninodes s \<and> nblocks (blocks s1) = nblocks (blocks s)"
    have "ends (write_files garbage (rb, 64) fs) s1 (\<lambda>_ s'. catalog s' rb ((done @ [?y]) @ named fs) \<and>
        ninodes s' = ninodes s1 \<and> nblocks (blocks s') = nblocks (blocks s1))"
      by (rule Cons.IH) (use a w(4) Cons.prems(3,4) n in simp_all)
    then show "ends (write_files garbage (rb, 64) fs) s1 (\<lambda>_ s'. catalog s' rb (done @ named ((name, f) # fs)) \<and>
        ninodes s' = ninodes s \<and> nblocks (blocks s') = nblocks (blocks s))"
      using a n x by simp
  qed
qed (simp add: named_def)

end
