(* ===== verification/FormatEnds.thy ===== *)
theory FormatEnds
  imports FormatCatalog
begin

text \<open>
  The beginning and the end of a run of the image builder. There one block is held at a time, so a
  state is the contents of the disk and the globals; \<open>finishfs\<close> makes the contents the sealed image.
\<close>

section \<open>One block at a time\<close>

text \<open>\<open>s\<close> has the globals of \<open>s0\<close> and the contents \<open>v\<close>; no block is held, or block \<open>no\<close> once, at \<open>b\<close>.\<close>

definition quiet :: "fs \<Rightarrow> mem \<Rightarrow> fs \<Rightarrow> bool" where
  "quiet s0 v s \<longleftrightarrow> s = s0\<lparr>blocks := blocks s\<rparr> \<and> cache_ok (blocks s) \<and> pins (blocks s) = (\<lambda>_. 0) \<and> view (blocks s) = v \<and>
     nblocks (blocks s) = nblocks (blocks s0)"

definition holding :: "fs \<Rightarrow> nat \<Rightarrow> block_type \<Rightarrow> nat \<Rightarrow> mem \<Rightarrow> fs \<Rightarrow> bool" where
  "holding s0 no t b v s \<longleftrightarrow> s = s0\<lparr>blocks := blocks s\<rparr> \<and> cache_ok (blocks s) \<and> slot_holds (blocks s) b no \<and>
     pins (blocks s) = (\<lambda>_. 0)(no := 1) \<and> kind (blocks s) no = t \<and> view (blocks s) = v \<and> nblocks (blocks s) = nblocks (blocks s0)"

lemma same_globals: "s = s0\<lparr>blocks := blocks s\<rparr> \<Longrightarrow> s\<lparr>blocks := b\<rparr> = s0\<lparr>blocks := blocks (s\<lparr>blocks := b\<rparr>)\<rparr>"
  by (drule arg_cong [where f = "\<lambda>s. s\<lparr>blocks := b\<rparr>"]) simp

lemma quiet_get:
  assumes q: "quiet s0 v s" and no: "0 < no" "no < nblocks (blocks s0)"
  shows "ends (lift (getblk no clr type)) s (\<lambda>b. holding s0 no type b (if clr then mem_set v (1024 * no) 0 1024 else v))"
proof -
  have q': "cache_ok (blocks s)" "pins (blocks s) = (\<lambda>_. 0)" "view (blocks s) = v" "nblocks (blocks s) = nblocks (blocks s0)"
    using q by (simp_all add: quiet_def)
  have room: "0 < pins (blocks s) no \<or> card (pinned (blocks s)) < 16" using q'(2) by (simp add: pinned_def)
  have t: "kind (blocks s) no = type \<or> pins (blocks s) no = 0" using q'(2) by simp
  have g: "s = s0\<lparr>blocks := blocks s\<rparr>" using q by (simp add: quiet_def)
  show ?thesis
    unfolding ends_lift
  proof (rule ends_mono [OF getblk_got [OF q'(1) no(1) _ room t, of clr]])
    show "no < nblocks (blocks s)" using no q' by simp
    fix b c
    assume "got (blocks s) no clr type b c"
    then show "holding s0 no type b (if clr then mem_set v (1024 * no) 0 1024 else v) (s\<lparr>blocks := c\<rparr>)"
      using q' same_globals [OF g, of c] by (simp add: holding_def got_def)
  qed
qed

lemma holding_put:
  assumes h: "holding s0 no t b v s"
  shows "ends (lift (putblk b)) s (\<lambda>_. quiet s0 v)"
proof -
  have h': "cache_ok (blocks s)" "slot_holds (blocks s) b no" "s = s0\<lparr>blocks := blocks s\<rparr>" using h by (simp_all add: holding_def)
  show ?thesis
    unfolding ends_lift
    by (rule ends_mono [OF putblk_ends [OF h'(1,2)]])
      (use h same_globals [OF h'(3)] in \<open>auto simp: quiet_def holding_def same_slots_def\<close>)
qed

lemma holding_peek:
  assumes h: "holding s0 no t b v s" and off: "off + 4 \<le> 1024"
  shows "peek b off s = ld32 v (1024 * no + off)"
  using reads(1) [of "blocks s" b no off] h off by (simp add: holding_def peek_def)

lemma holding_poke:
  assumes h: "holding s0 no t b v s" and off: "off + 4 \<le> 1024"
  shows "ends (poke b off w) s (\<lambda>_. holding s0 no t b (st32 v (1024 * no + off) w))"
proof -
  have h': "cache_ok (blocks s)" "slot_holds (blocks s) b no" "s = s0\<lparr>blocks := blocks s\<rparr>" using h by (simp_all add: holding_def)
  note w = writes(1-3) [OF h'(1,2), of off w]
  show ?thesis
    using h w off same_globals [OF h'(3), of "put_word b off w (blocks s)"] by (simp add: poke_def holding_def same_slots_def)
qed

lemma holding_fill:
  assumes h: "holding s0 no t b v s" and off: "off + length bs \<le> 1024"
  shows "ends (fill b off bs) s (\<lambda>_. holding s0 no t b (mem_put v (1024 * no + off) bs))"
proof -
  have h': "cache_ok (blocks s)" "slot_holds (blocks s) b no" "s = s0\<lparr>blocks := blocks s\<rparr>" using h by (simp_all add: holding_def)
  note w = writes(4-6) [OF h'(1,2), of off bs]
  show ?thesis
    using h w off same_globals [OF h'(3), of "put_bytes b off bs (blocks s)"] by (simp add: fill_def holding_def same_slots_def)
qed

lemma count_loop_fold:
  assumes "\<forall>i v s. i < n \<longrightarrow> I v s \<longrightarrow> ends (body i) s (\<lambda>_. I (g i v))" "I v s" "j + k \<le> n"
  shows "ends (count_loop k j body) s (\<lambda>_. I (fold g [j ..< j + k] v))"
  using assms(2,3)
proof (induction k arbitrary: j v s)
  case (Suc k)
  have j: "j < n" using Suc.prems(2) by simp
  have up: "[j ..< j + Suc k] = j # [Suc j ..< Suc j + k]" by (simp add: upt_conv_Cons)
  show ?case
    unfolding count_loop.simps ends_build up fold_simps
    by (rule ends_mono [OF assms(1) [rule_format, OF j Suc.prems(1)]]) (use Suc.IH [of "g j v" _ "Suc j"] Suc.prems(2) in simp)
qed simp

section \<open>The bitmap and the superblock\<close>

lemma clear_bit_ends:
  assumes h: "holding s0 2 t b v s" and i: "i < 8192"
  shows "ends (clear_bit b i) s (\<lambda>_. holding s0 2 t b (bitvector_clear FREEMAP i v))"
proof -
  have "i div 32 < 256" using i by (simp add: less_mult_imp_div_less)
  then have off: "4 * (i div 32) + 4 \<le> 1024" by linarith
  have "bitvector_clear FREEMAP i v = st32 v (1024 * 2 + 4 * (i div 32)) (ld32 v (1024 * 2 + 4 * (i div 32)) AND NOT (push_bit (i mod 32) 1))"
    by (simp add: bitvector_clear_def Let_def)
  then show ?thesis
    using holding_poke [OF h off, of "ld32 v (1024 * 2 + 4 * (i div 32)) AND NOT (push_bit (i mod 32) 1)"] holding_peek [OF h off]
    by (simp add: clear_bit_def)
qed

lemma clear_used:
  assumes q: "quiet s0 v s" and n: "n \<le> 8192" and nb: "2 < nblocks (blocks s0)"
  shows "ends (count_loop n 0 (\<lambda>i. bind (lift (getblk (2 + i div OSPFS_BLKBITSIZE) False BLOCK_BITS)) (\<lambda>b.
    andthen (clear_bit b (i mod OSPFS_BLKBITSIZE)) (lift (putblk b))))) s (\<lambda>_. quiet s0 (fold (bitvector_clear FREEMAP) [0 ..< n] v))"
proof -
  have two: "0 < (2 :: nat)" by simp
  have "ends (bind (lift (getblk (2 + i div 8192) False BLOCK_BITS)) (\<lambda>b. andthen (clear_bit b (i mod 8192)) (lift (putblk b)))) s1
      (\<lambda>_. quiet s0 (bitvector_clear FREEMAP i w))" if i: "i < n" and q1: "quiet s0 w s1" for i w s1
  proof -
    have i': "i < 8192" using i n by simp
    have "ends (lift (getblk 2 False BLOCK_BITS)) s1 (\<lambda>b s2. ends (clear_bit b i) s2 (\<lambda>_ s3. ends (lift (putblk b)) s3
        (\<lambda>_. quiet s0 (bitvector_clear FREEMAP i w))))"
      by (rule ends_mono [OF quiet_get [OF q1 two nb, of False BLOCK_BITS]], unfold if_False,
          rule ends_mono [OF clear_bit_ends [OF _ i']], assumption, rule holding_put)
    then show ?thesis using i' by simp
  qed
  then have body: "\<forall>i w s1. i < n \<longrightarrow> quiet s0 w s1 \<longrightarrow> ends (bind (lift (getblk (2 + i div 8192) False BLOCK_BITS)) (\<lambda>b.
      andthen (clear_bit b (i mod 8192)) (lift (putblk b)))) s1 (\<lambda>_. quiet s0 (bitvector_clear FREEMAP i w))" by blast
  have le: "0 + n \<le> n" by simp
  note loop = count_loop_fold [where I = "quiet s0" and n = n and g = "bitvector_clear FREEMAP", OF body q le]
  from loop show ?thesis by (simp only: add_0)
qed

lemma clear_tail:
  assumes q: "quiet s0 v s" and nb: "2 < nblocks (blocks s0)" "nblocks (blocks s0) < 8192"
  shows "ends (lift (getblk 2 False BLOCK_BITS)) s (\<lambda>b s1. ends (count_loop (8192 - nblocks (blocks s0)) (nblocks (blocks s0)) (clear_bit b)) s1
    (\<lambda>_ s2. ends (lift (putblk b)) s2 (\<lambda>_. quiet s0 (fold (bitvector_clear FREEMAP) [nblocks (blocks s0) ..< 8192] v))))"
proof -
  have two: "0 < (2 :: nat)" by simp
  show ?thesis
  proof (rule ends_mono [OF quiet_get [OF q two nb(1), of False BLOCK_BITS]], unfold if_False)
    fix b s1
    assume h: "holding s0 2 BLOCK_BITS b v s1"
    have le: "nblocks (blocks s0) + (8192 - nblocks (blocks s0)) \<le> 8192" and eq: "nblocks (blocks s0) + (8192 - nblocks (blocks s0)) = 8192"
      using nb(2) by simp_all
    have "ends (clear_bit b i) s2 (\<lambda>_. holding s0 2 BLOCK_BITS b (bitvector_clear FREEMAP i w))"
      if "i < 8192" "holding s0 2 BLOCK_BITS b w s2" for i w s2 by (rule clear_bit_ends [OF that(2,1)])
    then have body: "\<forall>i w s2. i < 8192 \<longrightarrow> holding s0 2 BLOCK_BITS b w s2 \<longrightarrow> ends (clear_bit b i) s2
        (\<lambda>_. holding s0 2 BLOCK_BITS b (bitvector_clear FREEMAP i w))" by blast
    note loop = count_loop_fold [where I = "\<lambda>w. holding s0 2 BLOCK_BITS b w" and n = 8192, OF body h le, unfolded eq]
    show "ends (count_loop (8192 - nblocks (blocks s0)) (nblocks (blocks s0)) (clear_bit b)) s1
        (\<lambda>_ s2. ends (lift (putblk b)) s2 (\<lambda>_. quiet s0 (fold (bitvector_clear FREEMAP) [nblocks (blocks s0) ..< 8192] v)))"
      by (rule ends_mono [OF loop]) (rule holding_put)
  qed
qed

lemma super_ends:
  assumes q: "quiet s0 v s" and nb: "1 < nblocks (blocks s0)"
    and sb: "sb_magic s0 = OSPFS_MAGIC" "sb_nblocks s0 = of_nat n" "sb_ninodes s0 = of_nat ni" "sb_firstinob s0 = 3"
  shows "ends (lift (getblk 1 True BLOCK_SUPER)) s (\<lambda>b s1. ends (poke b 0 (sb_magic s0)) s1 (\<lambda>_ s2. ends (poke b 4 (sb_nblocks s0)) s2
    (\<lambda>_ s3. ends (poke b 8 (sb_ninodes s0)) s3 (\<lambda>_ s4. ends (poke b 12 (sb_firstinob s0)) s4 (\<lambda>_ s5. ends (lift (putblk b)) s5
    (\<lambda>_. quiet s0 (put_super n ni v)))))))"
proof -
  have one: "0 < (1 :: nat)" by simp
  have off: "0 + 4 \<le> (1024 :: nat)" "4 + 4 \<le> (1024 :: nat)" "8 + 4 \<le> (1024 :: nat)" "12 + 4 \<le> (1024 :: nat)" by simp_all
  have eq: "put_super n ni v = st32 (st32 (st32 (st32 (mem_set v (1024 * 1) 0 1024) (1024 * 1 + 0) (sb_magic s0)) (1024 * 1 + 4) (sb_nblocks s0))
      (1024 * 1 + 8) (sb_ninodes s0)) (1024 * 1 + 12) (sb_firstinob s0)" by (simp add: put_super_def sb)
  show ?thesis
    unfolding eq
    by (rule ends_mono [OF quiet_get [OF q one nb, of True BLOCK_SUPER]], unfold if_True,
        rule ends_mono [OF holding_poke [OF _ off(1)]], assumption, rule ends_mono [OF holding_poke [OF _ off(2)]], assumption,
        rule ends_mono [OF holding_poke [OF _ off(3)]], assumption, rule ends_mono [OF holding_poke [OF _ off(4)]], assumption,
        rule holding_put)
qed

lemma quiet_globals:
  assumes "quiet s0 v s"
  shows "nextb s = nextb s0" "nbitblock s = nbitblock s0" "sb_magic s = sb_magic s0" "sb_nblocks s = sb_nblocks s0"
    "sb_ninodes s = sb_ninodes s0" "sb_firstinob s = sb_firstinob s0" "nblocks (blocks s) = nblocks (blocks s0)" "nextinode s = nextinode s0"
    "ninodes s = ninodes s0" "link_contents s = link_contents s0"
proof -
  have e: "s = s0\<lparr>blocks := blocks s\<rparr>" using assms by (simp add: quiet_def)
  obtain b where "blocks s = b" by simp
  with e have "s = s0\<lparr>blocks := b\<rparr>" by simp
  then show "nextb s = nextb s0" "nbitblock s = nbitblock s0" "sb_magic s = sb_magic s0" "sb_nblocks s = sb_nblocks s0"
    "sb_ninodes s = sb_ninodes s0" "sb_firstinob s = sb_firstinob s0" "nextinode s = nextinode s0"
    "ninodes s = ninodes s0" "link_contents s = link_contents s0" by simp_all
  show "nblocks (blocks s) = nblocks (blocks s0)" using assms by (simp add: quiet_def)
qed

text \<open>\<open>finishfs\<close> puts the bitmap and the superblock of the sealed image into the contents.\<close>

lemma finishfs_ends:
  assumes s0: "ready s0" and q: "quiet s0 (view (blocks s0)) s"
  shows "ends finishfs s (\<lambda>_. quiet s0 (seal s0))"
proof -
  let ?nb = "nblocks (blocks s0)" and ?n = "nextb s0" and ?v = "view (blocks s0)"
  let ?v1 = "fold (bitvector_clear FREEMAP) [0 ..< nextb s0] ?v"
  let ?v2 = "if ?nb \<noteq> 8192 then fold (bitvector_clear FREEMAP) [?nb ..< 8192] ?v1 else ?v1"
  note g = quiet_globals [OF q]
  have r: "?n \<le> 8192" "?nb \<le> 8192" "2 < ?nb" using ready_facts(3-6) [OF s0] by linarith+
  have sb: "nbitblock s0 = 1" "sb_magic s0 = OSPFS_MAGIC" "sb_nblocks s0 = of_nat ?nb" "sb_ninodes s0 = of_nat (ninodes s0)" "sb_firstinob s0 = 3"
    using s0 by (simp_all add: ready_def)
  have seal: "seal s0 = put_super ?nb (ninodes s0) ?v2" by (simp add: seal_def seal_mem_def Let_def)
  have super: "ends (bind (lift (getblk 1 True BLOCK_SUPER)) (\<lambda>b.
        andthen (poke b 0 (sb_magic s0)) (andthen (poke b 4 (sb_nblocks s0)) (andthen (poke b 8 (sb_ninodes s0))
        (andthen (poke b 12 (sb_firstinob s0)) (lift (putblk b))))))) s2 (\<lambda>_. quiet s0 (seal s0))"
    if "quiet s0 ?v2 s2" for s2
    using super_ends [OF that _ sb(2-5)] r(3) unfolding seal ends_build ends_simps(2) by simp
  have tail: "ends (if ?nb \<noteq> nbitblock s0 * OSPFS_BLKBITSIZE then
            bind (lift (getblk (2 + nbitblock s0 - 1) False BLOCK_BITS)) (\<lambda>b.
            let first = ?nb mod OSPFS_BLKBITSIZE in
            andthen (count_loop (OSPFS_BLKBITSIZE - first) first (clear_bit b)) (lift (putblk b)))
          else skip) s1 (\<lambda>_. quiet s0 ?v2)" if q1: "quiet s0 ?v1 s1" for s1
  proof (cases "?nb = 8192")
    case True
    then show ?thesis using q1 sb(1) by simp
  next
    case False
    then have lt: "?nb < 8192" using r(2) by simp
    then have "?nb mod 8192 = ?nb" by simp
    then show ?thesis using clear_tail [OF q1 r(3) lt] False sb(1) by (simp add: Let_def)
  qed
  show ?thesis
    unfolding finishfs_def ends_build g
    by (rule ends_mono [OF clear_used [OF q r(1,3)]], rule ends_mono [OF tail], assumption, rule super)
qed

end
