(* ===== verification/FormatStart.thy ===== *)
theory FormatStart
  imports FormatEnds
begin

text \<open>
  \<open>opendisk\<close> and the first two inodes: the bitmap is all ones, the inode blocks are empty but for the
  unused inode 0 and the root, and the block of the root's inode is held.
\<close>

section \<open>The empty disk\<close>

definition blank :: mem where
  "blank = mem_put (\<lambda>_. 0) 2048 (replicate 1024 0xFF)"

lemma blank_byte: "3072 \<le> x \<Longrightarrow> blank x = 0" "2048 \<le> x \<Longrightarrow> x < 3072 \<Longrightarrow> blank x = 0xFF"
  by (simp_all add: blank_def mem_put_def)

lemma quiet_self:
  assumes "cache_ok (blocks s)" "pins (blocks s) = (\<lambda>_. 0)"
  shows "quiet s (view (blocks s)) s"
  using assms by (simp add: quiet_def)

lemma fill_bitmap:
  assumes q: "quiet s0 (\<lambda>_. 0) s" and nb: "2 < nblocks (blocks s0)"
  shows "ends (count_loop 1 0 (\<lambda>i. bind (lift (getblk (2 + i) False BLOCK_BITS)) (\<lambda>b.
    andthen (fill b 0 (replicate 1024 0xFF)) (lift (putblk b))))) s (\<lambda>_. quiet s0 blank)"
proof -
  have two: "0 < (2 :: nat)" and fit: "0 + length (replicate 1024 (0xFF :: u8)) \<le> 1024" by simp_all
  have "ends (lift (getblk 2 False BLOCK_BITS)) s (\<lambda>b s1. ends (fill b 0 (replicate 1024 0xFF)) s1
      (\<lambda>_ s2. ends (lift (putblk b)) s2 (\<lambda>_. quiet s0 (mem_put (\<lambda>_. 0) (1024 * 2 + 0) (replicate 1024 0xFF)))))"
    by (rule ends_mono [OF quiet_get [OF q two nb, of False BLOCK_BITS]], unfold if_False,
        rule ends_mono [OF holding_fill [OF _ fit]], assumption, rule holding_put)
  then show ?thesis by (simp add: blank_def numeral_2_eq_2)
qed

lemma clear_inodes:
  assumes q: "quiet s0 blank s" and nb: "3 + k \<le> nblocks (blocks s0)"
  shows "ends (count_loop k 0 (\<lambda>i. bind (lift (getblk (2 + 1 + i) True BLOCK_INODES)) (\<lambda>b. lift (putblk b)))) s (\<lambda>_. quiet s0 blank)"
proof (rule count_loop_keeps [where n = k])
  fix i s1
  assume q1: "quiet s0 blank s1" and i: "i < k"
  have no: "0 < 2 + 1 + i" "2 + 1 + i < nblocks (blocks s0)" using i nb by simp_all
  have same: "mem_set blank (1024 * (2 + 1 + i)) 0 1024 = blank" by (auto simp: mem_set_def blank_byte)
  show "ends (bind (lift (getblk (2 + 1 + i) True BLOCK_INODES)) (\<lambda>b. lift (putblk b))) s1 (\<lambda>_. quiet s0 blank)"
    unfolding ends_simps(2)
    by (rule ends_mono [OF quiet_get [OF q1 no, of True BLOCK_INODES]], unfold if_True same, rule holding_put)
qed (use q in simp_all)

definition opened :: "nat \<Rightarrow> nat \<Rightarrow> fs \<Rightarrow> bool" where
  "opened nb ni s \<longleftrightarrow> ready s \<and> quiet s blank s \<and> nextb s = first_data ni \<and> nextinode s = 0 \<and> ninodes s = ni \<and>
     nblocks (blocks s) = nb \<and> \<not> link_contents s"

lemma opendisk_ends:
  assumes nb: "nb \<le> 8192" "first_data ni \<le> nb"
  shows "ends (opendisk True) (start_state nb ni False) (\<lambda>_. opened nb ni)"
proof -
  let ?s = "(start_state nb ni False)\<lparr>nbitblock := 1\<rparr>" and ?k = "(ni + 16 - 1) div 16"
  have k: "3 + ?k = first_data ni" by (simp add: first_data_def)
  have three: "2 < nb" "0 < nb" using nb(2) k by simp_all
  have bits: "(nb + 8192 - 1) div 8192 = 1" by (rule div_nat_eqI) (use nb(1) three in simp_all)
  have start: "nblocks (blocks (start_state nb ni False)) = nb" "ninodes (start_state nb ni False) = ni"
    by (simp_all add: start_state_def empty_store_def)
  have blk: "blocks ?s = empty_store nb" by (simp add: start_state_def)
  have q: "quiet ?s (\<lambda>_. 0) ?s" unfolding quiet_def blk using empty_store_ok [of nb] blk by (auto simp: fun_eq_iff)
  have n: "2 < nblocks (blocks ?s)" "3 + ?k \<le> nblocks (blocks ?s)" using three(1) nb(2) k empty_store_ok(4) [of nb] unfolding blk by simp_all
  let ?f = "\<lambda>s. s\<lparr>nextb := 2 + 1 + ?k, nextinode := 0, sb_magic := OSPFS_MAGIC,
             sb_nblocks := of_nat (nblocks (blocks s)), sb_ninodes := of_nat (ninodes s), sb_firstinob := of_nat (2 + 1)\<rparr>"
  have eq: "ends (opendisk True) (start_state nb ni False) Q \<longleftrightarrow>
      ends (count_loop 1 0 (\<lambda>i. bind (lift (getblk (2 + i) False BLOCK_BITS)) (\<lambda>b.
        andthen (fill b 0 (replicate 1024 0xFF)) (lift (putblk b))))) ?s
      (\<lambda>_ s1. ends (count_loop ?k 0 (\<lambda>i. bind (lift (getblk (2 + 1 + i) True BLOCK_INODES)) (\<lambda>b. lift (putblk b)))) s1
      (\<lambda>_ s2. Q () (?f s2)))" for Q
    by (simp only: opendisk_def Let_def not_True_eq_False if_False ends_build start bits)
  have fin: "opened nb ni (?f s2)" if q2: "quiet ?s blank s2" for s2
  proof -
    note g = quiet_globals [OF q2]
    have b: "cache_ok (blocks s2)" "pins (blocks s2) = (\<lambda>_. 0)" "view (blocks s2) = blank" "nblocks (blocks s2) = nb"
      using q2 empty_store_ok(4) [of nb] unfolding quiet_def blk by simp_all
    have "sealable nb ni (first_data ni) blank" using nb by (simp add: sealable_def bitmap_full_def blank_byte)
    moreover have "ninodes s2 = ni" "nbitblock s2 = 1" "\<not> link_contents s2" using g by (simp_all add: start_state_def)
    moreover have "quiet (?f s2) blank (?f s2)" using quiet_self [of "?f s2"] b by simp
    ultimately show ?thesis using b k by (simp add: opened_def ready_def)
  qed
  show ?thesis
    unfolding eq
    by (rule ends_mono [OF fill_bitmap [OF q n(1)]], rule ends_mono [OF clear_inodes [OF _ n(2)]], assumption, rule fin)
qed

section \<open>The root\<close>

text \<open>The contents with the inodes 0 and 1.\<close>

definition rooted :: mem where
  "rooted = st32 (st32 (st32 (st32 blank 3080 1) 3140 OSPFS_FTYPE_DIR) 3144 1) 3148 0x1FF"

lemma allocinode_none:
  assumes e: "nextinode s = e" "e \<noteq> ninodes s" "e < 16" and sb: "sb_firstinob s = 3"
  shows "ends (allocinode None) s Q \<longleftrightarrow>
    ends (lift (getblk 3 False BLOCK_INODES)) (s\<lparr>nextinode := Suc e\<rparr>) (\<lambda>ib. Q (e, ib, 64 * e))"
  using e sb by (simp add: allocinode_def Let_def)

lemma ends_unless: "ends (if c then stop e else m) s Q \<longleftrightarrow> \<not> c \<and> ends m s Q"
  by simp

lemma quiet_nextinode:
  assumes "quiet s0 v s"
  shows "quiet (s0\<lparr>nextinode := k\<rparr>) v (s\<lparr>nextinode := k\<rparr>)"
proof -
  obtain b where b: "blocks s = b" by simp
  with assms have "s = s0\<lparr>blocks := b\<rparr>" by (simp add: quiet_def)
  then show ?thesis using assms b by (simp add: quiet_def)
qed

lemma root_inode_ends:
  assumes o: "opened nb ni s" and ni: "2 \<le> ni"
  shows "ends root_inode s (\<lambda>(rb, io) s'. io = 64 \<and> holding (s\<lparr>nextinode := 2\<rparr>) 3 BLOCK_INODES rb rooted s')"
proof -
  let ?s1 = "s\<lparr>nextinode := 1\<rparr>" and ?s2 = "s\<lparr>nextinode := 2\<rparr>"
  have o': "ready s" "quiet s blank s" "nextinode s = 0" "ninodes s = ni" using o by (simp_all add: opened_def)
  have sb: "sb_firstinob s = 3" using o'(1) by (simp add: ready_def)
  have "3 < nblocks (blocks s)" using o ni ready_facts(3,7) [OF o'(1)] by (simp add: opened_def first_data_def)
  then have no: "0 < (3 :: nat)" "3 < nblocks (blocks ?s1)" "3 < nblocks (blocks ?s2)" by simp_all
  have off: "8 + 4 \<le> (1024 :: nat)" "68 + 4 \<le> (1024 :: nat)" "72 + 4 \<le> (1024 :: nat)" "76 + 4 \<le> (1024 :: nat)" by simp_all
  have q1: "quiet ?s1 blank ?s1" by (rule quiet_nextinode [OF o'(2)])
  have eq: "ends root_inode s Q \<longleftrightarrow> ends (allocinode None) s (\<lambda>(osp, ib, io) s1. ends (poke ib (io + 8) 1) s1
      (\<lambda>_ s2. ends (lift (putblk ib)) s2 (\<lambda>_ s3. ends (allocinode None) s3 (\<lambda>(osp, rb, io) s4. osp = 1 \<and>
      ends (poke rb (io + 4) OSPFS_FTYPE_DIR) s4 (\<lambda>_ s5. ends (poke rb (io + 8) 1) s5 (\<lambda>_ s6. ends (poke rb (io + 12) 0x1FF) s6
      (\<lambda>_. Q (rb, io))))))))" for Q
    by (simp add: root_inode_def case_prod_unfold ends_unless)
  have second: "ends (allocinode None) s3 (\<lambda>(osp, rb, io) s4. osp = 1 \<and>
      ends (poke rb (io + 4) OSPFS_FTYPE_DIR) s4 (\<lambda>_ s5. ends (poke rb (io + 8) 1) s5 (\<lambda>_ s6. ends (poke rb (io + 12) 0x1FF) s6
      (\<lambda>_ s'. io = 64 \<and> holding ?s2 3 BLOCK_INODES rb rooted s'))))"
    if q3: "quiet ?s1 (st32 blank (1024 * 3 + 8) 1) s3" for s3
  proof -
    note g = quiet_globals [OF q3]
    have e: "nextinode s3 = 1" "1 \<noteq> ninodes s3" "1 < (16 :: nat)" "sb_firstinob s3 = 3" using g o'(4) ni sb by simp_all
    have "quiet (?s1\<lparr>nextinode := Suc 1\<rparr>) (st32 blank (1024 * 3 + 8) 1) (s3\<lparr>nextinode := Suc 1\<rparr>)" by (rule quiet_nextinode [OF q3])
    then have q4: "quiet ?s2 (st32 blank (1024 * 3 + 8) 1) (s3\<lparr>nextinode := Suc 1\<rparr>)" by (simp add: numeral_2_eq_2)
    have r: "rooted = st32 (st32 (st32 (st32 blank (1024 * 3 + 8) 1) (1024 * 3 + 68) OSPFS_FTYPE_DIR) (1024 * 3 + 72) 1) (1024 * 3 + 76) 0x1FF"
      by (simp add: rooted_def)
    have steps: "ends (poke rb 68 OSPFS_FTYPE_DIR) s4 (\<lambda>_ s5. ends (poke rb 72 1) s5 (\<lambda>_ s6. ends (poke rb 76 0x1FF) s6
        (\<lambda>_ s'. holding ?s2 3 BLOCK_INODES rb rooted s')))"
      if h: "holding ?s2 3 BLOCK_INODES rb (st32 blank (1024 * 3 + 8) 1) s4" for rb s4
      unfolding r
      by (rule ends_mono [OF holding_poke [OF h off(2)]], rule ends_mono [OF holding_poke [OF _ off(3)]], assumption,
          rule holding_poke [OF _ off(4)])
    show ?thesis
      unfolding allocinode_none [OF e]
      by (rule ends_mono [OF quiet_get [OF q4 no(1,3), of False BLOCK_INODES]]) (use steps in simp)
  qed
  have first: "nextinode s = 0" "0 \<noteq> ninodes s" "0 < (16 :: nat)" using o' ni by simp_all
  show ?thesis
    unfolding eq
  proof (unfold allocinode_none [OF first sb], unfold One_nat_def [symmetric] case_prod_conv,
      rule ends_mono [OF quiet_get [OF q1 no(1,2), of False BLOCK_INODES]], unfold if_False)
    fix ib s1
    assume h: "holding ?s1 3 BLOCK_INODES ib blank s1"
    show "ends (poke ib (64 * 0 + 8) 1) s1 (\<lambda>_ s2. ends (lift (putblk ib)) s2 (\<lambda>_ s3. ends (allocinode None) s3 (\<lambda>(osp, rb, io) s4. osp = 1 \<and>
      ends (poke rb (io + 4) OSPFS_FTYPE_DIR) s4 (\<lambda>_ s5. ends (poke rb (io + 8) 1) s5 (\<lambda>_ s6. ends (poke rb (io + 12) 0x1FF) s6
      (\<lambda>_ s'. io = 64 \<and> holding ?s2 3 BLOCK_INODES rb rooted s'))))))"
      unfolding mult_0_right add_0
      by (rule ends_mono [OF holding_poke [OF h off(1)]], rule ends_mono [OF holding_put], assumption, rule second)
  qed
qed

section \<open>The empty root directory\<close>

lemma rooted_byte: "x < 3072 \<Longrightarrow> rooted x = blank x" "3200 \<le> x \<Longrightarrow> rooted x = 0"
  by (simp_all add: rooted_def st32_other_byte blank_byte)

lemma blank_word: "3072 \<le> a \<Longrightarrow> ld32 blank a = 0"
  by (simp add: ld32_def blank_byte)

lemma rooted_words:
  "ld32 rooted 3136 = 0" "ld32 rooted 3140 = OSPFS_FTYPE_DIR" "ld32 rooted 3144 = 1" "ld32 rooted 3148 = 0x1FF"
  "ld32 rooted 3192 = 0" "ld32 rooted 3196 = 0"
  by (simp_all add: rooted_def ld32_st32_same ld32_st32_apart blank_word)

lemma rooted_root:
  assumes im: "image ni m" "1 < ni" and m: "\<And>x. 3072 \<le> x \<Longrightarrow> m x = rooted x"
  shows "cat_mem ni 0 [] [] 2 m"
proof -
  have w: "ld32 m a = ld32 rooted a" if "3072 \<le> a" for a by (rule ld32_cong; rule m; use that in simp)
  have fok: "file_ok m (ino_addr 1) 0" using im(1) image_facts(2) [OF im] by (simp add: file_ok_def image_def)
  have "ptrs_clear m (ino_addr 1) 0"
    using w [of 3192] w [of 3196] rooted_words(5,6) by (simp add: ptrs_clear_def oi_indirect_def oi_indirect2_def ino_addr_def)
  moreover have "header m (ino_addr 1) 0 OSPFS_FTYPE_DIR 1 0x1FF"
    using w [of 3136] w [of 3140] w [of 3144] w [of 3148] rooted_words by (simp add: header_def ino_addr_def)
  ultimately have "root_dir m 0 []" using fok by (simp add: root_dir_def holds_def)
  moreover have "empty_inode m (ino_addr i)" if "2 \<le> i" for i
    using that m rooted_byte(2) by (simp add: empty_inode_def ino_addr_def)
  ultimately show ?thesis using im by (simp add: cat_mem_def)
qed

text \<open>Before the first file.\<close>

lemma root_catalog:
  assumes o: "opened nb ni s" and ni: "2 \<le> ni" and h: "holding (s\<lparr>nextinode := 2\<rparr>) 3 BLOCK_INODES rb rooted s'"
  shows "catalog s' rb []" "ninodes s' = ni" "nblocks (blocks s') = nb"
proof -
  have o': "ready s" "quiet s blank s" "nextb s = first_data ni" "ninodes s = ni" "nblocks (blocks s) = nb" "\<not> link_contents s"
    using o by (simp_all add: opened_def)
  have h': "cache_ok (blocks s')" "slot_holds (blocks s') rb 3" "pins (blocks s') = (\<lambda>_. 0)(3 := 1)" "kind (blocks s') 3 = BLOCK_INODES"
    "view (blocks s') = rooted" "nblocks (blocks s') = nb" using h o'(5) by (simp_all add: holding_def)
  obtain b where b: "blocks s' = b" by simp
  with h have s': "s' = s\<lparr>nextinode := 2, blocks := b\<rparr>" by (simp add: holding_def)
  have three: "3 < first_data ni" using ni by (simp add: first_data_def)
  have "view (blocks s) = blank" using o'(2) by (simp add: quiet_def)
  then have "sealable nb ni (first_data ni) rooted"
    using sealable_high [of nb ni "first_data ni" blank rooted] ready_facts(2) [OF o'(1)] o' rooted_byte(1) by simp
  then have ready: "ready s'" using o' h' three unfolding s' by (simp add: ready_def b)
  have n: "ninodes s' = ni" "nextb s' = first_data ni" using o' by (simp_all add: s')
  have "image ni (seal s')" using image_seal [OF ready] n by simp
  moreover have "seal s' x = rooted x" if "3072 \<le> x" for x using seal_byte [OF ready that] h'(5) by simp
  ultimately have "cat_mem ni 0 [] [] 2 (seal s')" using ni by (intro rooted_root) simp_all
  then have "filing s' rb 0 [] [] 2" using ready h' n by (simp add: filing_def refs_def)
  moreover have "\<not> link_contents s'" "nextinode s' = 2" using o'(6) by (simp_all add: s')
  ultimately show "catalog s' rb []"
    using n by (simp add: catalog_def dir_blocks_def entries_def space_def numeral_2_eq_2)
  show "ninodes s' = ni" "nblocks (blocks s') = nb" by (rule n h')+
qed

section \<open>The whole run\<close>

text \<open>The image that is written has the files of the command line.\<close>

lemma build_image_catalog:
  assumes nb: "nb \<le> 8192" "first_data ni + space (named fs) < nb" and ni: "length fs + 2 \<le> ni" and fs: "writable fs"
  shows "ends (build_image garbage True [] (From_files fs)) (start_state nb ni False) (\<lambda>m _.
    cat_mem ni (dir_blocks (length fs)) (entries (named fs)) (List.map snd (named fs)) (length fs + 2) m \<and>
    unat (os_nblocks m) = nb)"
proof -
  have open_nb: "first_data ni \<le> nb" using nb(2) by simp
  have two: "2 \<le> ni" using ni by simp
  have len: "length (named fs) = length fs" by (simp add: named_def)
  have eq: "ends (build_image garbage True [] (From_files fs)) s Q \<longleftrightarrow> ends (opendisk True) s (\<lambda>_ s1. ends root_inode s1 (\<lambda>r s2.
      ends (write_files garbage r fs) s2 (\<lambda>_ s3. ends (lift (putblk (fst r))) s3 (\<lambda>_ s4. ends finishfs s4
      (\<lambda>_ s5. Q (disk (flushdisk (blocks s5))) s5)))))" for s Q
    by (simp add: build_image_def)
  let ?Q = "\<lambda>m. cat_mem ni (dir_blocks (length fs)) (entries (named fs)) (List.map snd (named fs)) (length fs + 2) m \<and> unat (os_nblocks m) = nb"
  have written: "ends (lift (putblk rb)) s3 (\<lambda>_ s4. ends finishfs s4 (\<lambda>_ s5. ?Q (disk (flushdisk (blocks s5)))))"
    if c: "catalog s3 rb (named fs)" and n: "ninodes s3 = ni" "nblocks (blocks s3) = nb" for s3 rb
  proof -
    have f: "filing s3 rb (dir_blocks (length fs)) (entries (named fs)) (List.map snd (named fs)) (length fs + 2)"
      using c len by (simp add: catalog_def)
    then have s3: "ready s3" by (simp add: filing_def)
    have "holding s3 3 BLOCK_INODES rb (view (blocks s3)) s3" using f by (simp add: holding_def filing_def refs_def ready_def)
    note put = holding_put [OF this]
    have "?Q (seal s3)" using f n seal_disk(7) [OF s3] by (simp add: filing_def)
    then have fin: "?Q (disk (flushdisk (blocks s5)))" if "quiet s3 (seal s3) s5" for s5
      using that flushdisk_view(1) [of "blocks s5"] by (simp add: quiet_def)
    show ?thesis
      by (rule ends_mono [OF put], rule ends_mono [OF finishfs_ends [OF s3]], assumption, rule fin)
  qed
  show ?thesis
    unfolding eq
  proof (rule ends_mono [OF opendisk_ends [OF nb(1) open_nb]])
    fix u :: unit and s1
    assume o: "opened nb ni s1"
    show "ends root_inode s1 (\<lambda>r s2. ends (write_files garbage r fs) s2 (\<lambda>_ s3. ends (lift (putblk (fst r))) s3 (\<lambda>_ s4. ends finishfs s4
        (\<lambda>_ s5. ?Q (disk (flushdisk (blocks s5)))))))"
    proof (rule ends_mono [OF root_inode_ends [OF o two]])
      fix r :: "nat \<times> nat" and s2
      assume "(\<lambda>(rb, io) s'. io = 64 \<and> holding (s1\<lparr>nextinode := 2\<rparr>) 3 BLOCK_INODES rb rooted s') r s2"
      then obtain rb where r: "r = (rb, 64)" and h: "holding (s1\<lparr>nextinode := 2\<rparr>) 3 BLOCK_INODES rb rooted s2" by (cases r) auto
      note c = root_catalog [OF o two h]
      have "ends (write_files garbage (rb, 64) fs) s2 (\<lambda>_ s'. catalog s' rb ([] @ named fs) \<and>
          ninodes s' = ninodes s2 \<and> nblocks (blocks s') = nblocks (blocks s2))"
        by (rule write_files_ends [OF c(1) fs]) (use c nb(2) ni in simp_all)
      then show "ends (write_files garbage r fs) s2 (\<lambda>_ s3. ends (lift (putblk (fst r))) s3 (\<lambda>_ s4. ends finishfs s4
          (\<lambda>_ s5. ?Q (disk (flushdisk (blocks s5))))))"
        unfolding r fst_conv by (rule ends_mono) (use written c(2,3) in auto)
    qed
  qed
qed

end
