(* ===== verification/FormatBack.thy ===== *)
theory FormatBack
  imports FormatStart OspfsDir
begin

text \<open>
  The image of the builder under the file system module: \<open>ospfs_dir_lookup\<close> finds the files of the
  command line by their names, and no others, and \<open>ospfs_read\<close> gives their bytes.
\<close>

section \<open>Entries\<close>

lemma entry_field:
  assumes c: "cat_mem ni nd es bss e m" and n: "n < length es" and j: "j < 128"
  shows "m (byte_addr m (ino_addr 1) (128 * n) + j) = entry_mem (fst (es ! n)) (snd (es ! n)) j"
proof -
  have "n < 8 * nd" using n cat_memD(11) [OF c] by simp
  moreover have "(128 * n + j) div 128 = n" "(128 * n + j) mod 128 = j" using j by simp_all
  ultimately show ?thesis using entry_byte [OF c _ j] n by (simp add: dir_byte_def)
qed

lemma name_field:
  assumes c: "cat_mem ni nd es bss e m" and n: "n < length es" and nm: "length (snd (es ! n)) \<le> 123" "0 \<notin> set (snd (es ! n))"
  shows "k \<le> 124 \<Longrightarrow> mem_get m (byte_addr m (ino_addr 1) (128 * n) + 4) k =
      take k (snd (es ! n) @ replicate (124 - length (snd (es ! n))) 0)"
    "od_name m (byte_addr m (ino_addr 1) (128 * n)) = snd (es ! n)"
proof -
  let ?A = "byte_addr m (ino_addr 1) (128 * n)" and ?nm = "snd (es ! n)"
  have get: "mem_get m (?A + 4) k = take k (?nm @ replicate (124 - length ?nm) 0)" if k: "k \<le> 124" for k
  proof (rule nth_equalityI)
    show "length (mem_get m (?A + 4) k) = length (take k (?nm @ replicate (124 - length ?nm) 0))"
      using k nm(1) by (simp add: mem_get_def)
    fix i
    assume "i < length (mem_get m (?A + 4) k)"
    then have i: "i < k" by (simp add: mem_get_def)
    have "m (?A + 4 + i) = entry_mem (fst (es ! n)) ?nm (4 + i)" using entry_field [OF c n, of "4 + i"] i k by (simp add: add.assoc)
    also have "\<dots> = (?nm @ replicate (124 - length ?nm) 0) ! i"
      using i k by (simp add: entry_mem_def mem_put_def nth_append st32_def)
    finally show "mem_get m (?A + 4) k ! i = take k (?nm @ replicate (124 - length ?nm) 0) ! i"
      using i by (simp only: mem_get_def nth_take) simp
  qed
  then show "k \<le> 124 \<Longrightarrow> mem_get m (?A + 4) k = take k (?nm @ replicate (124 - length ?nm) 0)" .
  have "124 - length ?nm = Suc (123 - length ?nm)" using nm(1) by simp
  then have "mem_get m (?A + 4) 124 = ?nm @ 0 # replicate (123 - length ?nm) 0" using get [of 124] nm(1) by simp
  then show "od_name m ?A = ?nm" using cstr_append_nul [OF nm(2)] by (simp add: od_name_def)
qed

text \<open>Names that the program was given end at their nul.\<close>

definition names_ok :: "(nat \<times> u8 list) list \<Rightarrow> bool" where
  "names_ok es \<longleftrightarrow> (\<forall>(i, nm) \<in> set es. length nm \<le> 123 \<and> 0 \<notin> set nm)"

lemma names_ok_nth:
  assumes "names_ok es" "n < length es"
  shows "length (snd (es ! n)) \<le> 123" "0 \<notin> set (snd (es ! n))"
proof -
  have "case es ! n of (i, nm) \<Rightarrow> length nm \<le> 123 \<and> 0 \<notin> set nm"
    by (rule bspec [OF assms(1) [unfolded names_ok_def] nth_mem [OF assms(2)]])
  then show "length (snd (es ! n)) \<le> 123" "0 \<notin> set (snd (es ! n))" by (simp_all add: case_prod_beta)
qed

lemma entry_matches_iff:
  assumes c: "cat_mem ni nd es bss e m" and n: "n < 8 * nd" and num: "numbered es" and ok: "names_ok es" and len: "length name \<le> 123"
  shows "entry_matches m (byte_addr m (ino_addr 1) (128 * n)) name \<longleftrightarrow> n < length es \<and> snd (es ! n) = name"
proof (cases "n < length es")
  case True
  note f = numbered_nth [OF num True] and nm = names_ok_nth [OF ok True]
  have "unat (of_nat (fst (es ! n)) :: u32) = fst (es ! n)" unfolding unat_of_nat using f by (simp add: take_bit_nat_eq_self)
  then have "(of_nat (fst (es ! n)) :: u32) \<noteq> 0" using f by (metis less_irrefl unat_0)
  then have "od_ino m (byte_addr m (ino_addr 1) (128 * n)) \<noteq> 0" using entry_number [OF c n] True by (simp add: od_ino_def)
  moreover have "length name \<le> 124" using len by simp
  ultimately show ?thesis using True name_field [OF c True nm] by (auto simp: entry_matches_def)
next
  case False
  then have "od_ino m (byte_addr m (ino_addr 1) (128 * n)) = 0" using entry_number [OF c n] by (simp add: od_ino_def)
  then show ?thesis using False by (simp add: entry_matches_def)
qed

section \<open>Lookup\<close>

lemma search_entry_find:
  assumes c: "cat_mem ni nd es bss e m" and num: "numbered es" and ok: "names_ok es" and len: "length name \<le> 123" and j: "j \<le> 8 * nd"
  shows "search_entry m (ino_addr 1) name (of_nat (128 * j)) =
    Some (map_option (\<lambda>k. byte_addr m (ino_addr 1) (128 * k)) (List.find (\<lambda>k. k < length es \<and> snd (es ! k) = name) [j ..< 8 * nd]))"
  using j
proof (induction "8 * nd - j" arbitrary: j)
  case 0
  let ?R = "ino_addr 1"
  have size: "oi_size m ?R = of_nat (1024 * nd)" using cat_memD(4) [OF c] by (simp add: root_dir_def header_def oi_size_def)
  have "j = 8 * nd" using 0 by simp
  then show ?case using size by (subst search_entry.simps) simp
next
  case (Suc d)
  let ?R = "ino_addr 1"
  have jn: "j < 8 * nd" using Suc.hyps(2) by simp
  have nd: "nd \<le> 65802" using cat_memD(9) [OF c] by (simp add: file_ok_def)
  have size: "oi_size m ?R = of_nat (1024 * nd)" and dir: "oi_ftype m ?R = OSPFS_FTYPE_DIR"
    using cat_memD(4) [OF c] by (simp_all add: root_dir_def header_def oi_size_def oi_ftype_def)
  have u: "unat (of_nat (1024 * nd) :: u32) = 1024 * nd" "unat (of_nat (128 * j) :: u32) = 128 * j"
    unfolding unat_of_nat using nd jn by (simp_all add: take_bit_nat_eq_self)
  have lt: "(of_nat (128 * j) :: u32) < oi_size m ?R" unfolding size word_less_nat_alt u using jn by simp
  have df: "data_file m ?R nd" using cat_memD(9) [OF c] dir
    unfolding data_file_def size u(1) by (simp add: OSPFS_FTYPE_DIR_def OSPFS_FTYPE_SYMLINK_def)
  have inside: "128 * j < unat (oi_size m ?R)" unfolding size u(1) using jn by simp
  have "unat (of_nat (128 * j) mod 1024 :: u32) = 128 * j mod 1024" using u(2) by (simp only: unat_mod) simp
  then have at: "ospfs_inode_data m ?R (of_nat (128 * j)) = byte_addr m ?R (128 * j)"
    using inode_data_addr [OF df inside] by (simp add: ospfs_inode_data_def)
  have step: "of_nat (128 * j) + 128 = (of_nat (128 * Suc j) :: u32)" by simp
  have up: "[j ..< 8 * nd] = j # [Suc j ..< 8 * nd]" using jn by (simp add: upt_conv_Cons)
  have "search_entry m ?R name (of_nat (128 * Suc j)) =
    Some (map_option (\<lambda>k. byte_addr m ?R (128 * k)) (List.find (\<lambda>k. k < length es \<and> snd (es ! k) = name) [Suc j ..< 8 * nd]))"
    using Suc.hyps(1) [of "Suc j"] Suc.hyps(2) jn by simp
  then show ?case
    unfolding up using lt entry_matches_iff [OF c jn num ok len]
    by (subst search_entry.simps) (simp only: Let_def at step if_True list.simps(3) find.simps split: if_split, auto)
qed

lemma find_unique:
  assumes "k < n" "P k" "\<And>i. i < n \<Longrightarrow> P i \<Longrightarrow> i = k"
  shows "List.find P [0 ..< n] = Some k"
  unfolding find_Some_iff
proof (intro exI [of _ k] conjI allI impI)
  show "\<not> P ([0 ..< n] ! j)" if "j < k" for j using assms(3) [of j] assms(1) that by auto
qed (use assms(1,2) in simp_all)

lemma image_inode:
  assumes "image ni m" "i < ni"
  shows "inode_at m i = ino_addr i" "ospfs_inode m i = Some (ino_addr i)"
proof -
  have "unat (os_firstinob m) = unat (3 :: u32)" using assms(1) by (simp add: image_def)
  then have three: "os_firstinob m = 3" by (simp only: word_unat_eq_iff)
  show "inode_at m i = ino_addr i" by (simp add: inode_at_def three ospfs_block_def ino_addr_def)
  show "ospfs_inode m i = Some (ino_addr i)"
    using assms by (simp add: ospfs_inode_def three ospfs_block_def ino_addr_def image_def)
qed

text \<open>The inode that Linux sees of a file of \<open>n\<close> bytes.\<close>

definition plain_inode :: "nat \<Rightarrow> nat \<Rightarrow> linux_inode" where
  "plain_inode i n = \<lparr>i_ino = i, i_size = of_nat n, i_mode = 0x1B6 OR S_IFREG, i_nlink = 1\<rparr>"

lemma lookup_entry:
  assumes c: "cat_mem ni nd es bss e m" and num: "numbered es" and ok: "names_ok es" and len: "length name \<le> 123"
  shows "ospfs_dir_lookup True m (ino_addr 1) name =
    (case List.find (\<lambda>k. k < length es \<and> snd (es ! k) = name) [0 ..< 8 * nd] of
       None \<Rightarrow> Some (Inr None)
     | Some k \<Rightarrow> (case ospfs_mk_linux_inode True m (fst (es ! k)) of
         No_inode \<Rightarrow> Some (Inl EINVAL) | Inode i \<Rightarrow> Some (Inr (Some i)) | Panic \<Rightarrow> None))"
proof (cases "List.find (\<lambda>k. k < length es \<and> snd (es ! k) = name) [0 ..< 8 * nd]")
  case None
  then show ?thesis using search_entry_find [OF c num ok len, of 0] len by (simp add: ospfs_dir_lookup_def)
next
  case (Some k)
  then have k: "k < length es" "k < 8 * nd" by (auto simp: find_Some_iff)
  note f = numbered_nth [OF num k(1)]
  have "od_ino m (byte_addr m (ino_addr 1) (128 * k)) = of_nat (fst (es ! k))" using entry_number [OF c k(2)] k(1) by (simp add: od_ino_def)
  then have "unat (od_ino m (byte_addr m (ino_addr 1) (128 * k))) = fst (es ! k)"
    unfolding unat_of_nat [symmetric] using f by (simp add: unat_of_nat take_bit_nat_eq_self)
  then show ?thesis using search_entry_find [OF c num ok len, of 0] len Some by (simp add: ospfs_dir_lookup_def)
qed

lemma regular_linux_inode:
  assumes c: "cat_mem ni nd es bss e m" and i: "i < length bss"
  shows "ospfs_mk_linux_inode True m (i + 2) = Inode (plain_inode (i + 2) (length (bss ! i)))"
proof -
  have "i + 2 < ni" using i cat_memD(2,3) [OF c] by linarith
  note a = image_inode [OF cat_memD(1) [OF c] this]
  have "header m (ino_addr (i + 2)) (of_nat (length (bss ! i))) OSPFS_FTYPE_REG 1 0x1B6"
    using cat_memD(5) [OF c i] by (simp add: regular_def)
  then show ?thesis
    using a(2) by (simp add: ospfs_mk_linux_inode_def plain_inode_def header_def oi_size_def oi_ftype_def oi_nlink_def oi_mode_def)
qed

section \<open>Reading\<close>

lemma regular_read:
  assumes c: "cat_mem ni nd es bss e m" and i: "i < length bss" and p: "p \<le> length (bss ! i)"
  shows "ospfs_read (\<lambda>_ _. True) m (ino_addr (i + 2)) buffer count p u =
    (let bs = take count (drop p (bss ! i)) in (Inr (length bs), p + length bs, mem_put u buffer bs))"
proof -
  let ?bs = "bss ! i"
  define oi where "oi = ino_addr (i + 2)"
  let ?n = "blocks_for (length ?bs)" and ?k = "min count (length ?bs - p)"
  have reg: "holds m oi ?n (length ?bs) (\<lambda>k. ?bs ! k)" "header m oi (of_nat (length ?bs)) OSPFS_FTYPE_REG 1 0x1B6"
    using cat_memD(5) [OF c i] unfolding oi_def regular_def by blast+
  have h: "file_ok m oi ?n" "length ?bs \<le> 1024 * ?n" "\<And>k. k < length ?bs \<Longrightarrow> m (byte_addr m oi k) = ?bs ! k"
    using reg(1) by (simp_all add: holds_def)
  have "?n \<le> 65802" using h(1) by (simp add: file_ok_def)
  then have small: "length ?bs < 2 ^ 32" using h(2) by simp
  have size: "oi_size m oi = of_nat (length ?bs)" "oi_ftype m oi = OSPFS_FTYPE_REG" using reg(2) by (simp_all add: header_def oi_size_def oi_ftype_def)
  have u: "unat (of_nat (length ?bs) :: u32) = length ?bs" "unat (of_nat p :: u32) = p"
    unfolding unat_of_nat using small p by (simp_all add: take_bit_nat_eq_self)
  have df: "data_file m oi ?n"
    using h(1,2) unfolding data_file_def size u(1) by (simp add: OSPFS_FTYPE_REG_def OSPFS_FTYPE_SYMLINK_def)
  have diff: "unat (of_nat (length ?bs) - of_nat p :: u32) = length ?bs - p"
    using p u by (subst unat_sub_no_wrap) (simp_all add: word_le_nat_alt)
  have fb: "file_bytes m oi p ?k = take count (drop p ?bs)"
    by (rule nth_equalityI) (use h(3) p in auto)
  have rl: "read_loop (\<lambda>_ _. True) m oi buffer ?k p u = (None, p + ?k, mem_put u buffer (file_bytes m oi p ?k))"
    by (rule read_loop_bytes [OF df]) (use p in \<open>simp_all add: size(1) u(1)\<close>)
  have k: "(if count + p > length ?bs then length ?bs - p else count) = ?k" using p by auto
  have len: "length (take count (drop p ?bs)) = ?k" by (simp add: min.commute)
  show ?thesis
    unfolding oi_def [symmetric] ospfs_read_def Let_def size(1) u(1) diff k rl fb len by simp
qed

section \<open>From the files of the host to the file system\<close>

lemma named_facts:
  assumes "writable fs" "\<forall>(nm, bs) \<in> set (named fs). 0 \<notin> set nm"
  shows "names_ok (entries (named fs))" "i < length fs \<Longrightarrow> length (fst (named fs ! i)) \<le> 123"
proof -
  have nth: "length (fst (named fs ! i)) \<le> 123 \<and> 0 \<notin> set (fst (named fs ! i))" if i: "i < length fs" for i
  proof -
    have mem: "fs ! i \<in> set fs" "named fs ! i \<in> set (named fs)" using i by (simp_all add: named_def)
    have "case fs ! i of (name, f) \<Rightarrow> length (last_component name) \<le> 123" 
      using bspec [OF assms(1) [unfolded writable_def] mem(1)] by (simp add: case_prod_beta)
    moreover have "named fs ! i = (case fs ! i of (name, f) \<Rightarrow> (last_component name, stream (data_reads f)))"
      using i by (simp add: named_def)
    moreover have "case named fs ! i of (nm, bs) \<Rightarrow> 0 \<notin> set nm" by (rule bspec [OF assms(2) mem(2)])
    ultimately show ?thesis by (simp add: case_prod_beta)
  qed
  then show "i < length fs \<Longrightarrow> length (fst (named fs ! i)) \<le> 123" by blast
  have len: "length (named fs) = length fs" by (simp add: named_def)
  have "case e of (i, nm) \<Rightarrow> length nm \<le> 123 \<and> 0 \<notin> set nm" if e: "e \<in> set (entries (named fs))" for e
  proof -
    obtain k where "k < length fs" "e = (k + 2, fst (named fs ! k))" using e len by (auto simp: entries_def)
    then show ?thesis using nth [of k] by simp
  qed
  then show "names_ok (entries (named fs))" unfolding names_ok_def by blast
qed


text \<open>A file \<open>a\<close> with two bytes that come in two pieces, on a disk of 16 blocks.\<close>

definition small_file :: host_file where
  "small_file = \<lparr>file_opens = True, digest_reads = [], seek_works = True, data_reads = [Piece [104], Piece [105]]\<rparr>"

lemma small_file_facts:
  "named [([47, 97], small_file)] = [([97], [104, 105])]" "writable [([47, 97], small_file)]"
  "first_data 16 + space [([97], [104, 105])] < 16"
proof -
  have name: "last_component [47, 97] = [97]" by (simp add: last_component_def)
  then show "named [([47, 97], small_file)] = [([97], [104, 105])]" "writable [([47, 97], small_file)]"
    by (simp_all add: named_def writable_def small_file_def)
  have "card (nodes (Suc 0)) = 1" using card_nodes_Suc [of 0] by (simp add: new_nodes_def)
  moreover have "blocks_for (Suc (Suc 0)) = Suc 0" "dir_blocks (Suc 0) = Suc 0" by (simp_all add: blocks_for_def dir_blocks_def)
  ultimately show "first_data 16 + space [([97], [104, 105])] < 16" by (simp add: space_def file_blocks_def first_data_def)
qed


end
