(* ===== verification/Spec2Isabelle.thy ===== *)
theory Spec2Isabelle
  imports WeensyPrint MposTable SchedosKern OsprdEdge OspfsDir OspfsData ShellMain P2pMain Md5Test FormatBack
begin

text \<open>
  The programs of the CS 111 repository and what is proved of them. The repository holds six C
  programs that share no code but the \<open>md5\<close> sources: a shell (lab 1), a RAM disk driver (lab 2),
  a file system module with its image builder (lab 3), a peer of a file-sharing network (lab 4)
  and two small kernels (WeensyOS 1 and 2). Every theory translates one part of one program from
  its source; the theories of a program import each other in the order the code calls.

  \<^bold>\<open>Conventions.\<close> Integers are words of the width the C type has, and \<open>int\<close> or \<open>nat\<close> where the
  code cannot reach the width, which is said there. Memory that the code addresses by number (the
  kernels' memory, the disk image) is the byte map \<open>mem\<close> of \<^theory_text>\<open>Prelude\<close> with its little-endian
  32-bit accesses. A structure is a record, a return through an error path is a constructor of a
  result type or an errno value, and undefined behaviour (an access outside an array, a double
  free) and recursion without end are values of their own. A loop that may run for ever is a
  \<open>partial_function (option)\<close>, or takes fuel, so that not returning is \<open>None\<close>. What the
  environment decides (bytes of a socket or a file, exit statuses of programs, signals, addresses
  of allocations) is an argument.

  \<^bold>\<open>WeensyOS\<close> (\<open>src/weensyos1\<close>, \<open>src/weensyos2\<close>).
  \<^item> \<^theory_text>\<open>WeensyLib\<close>: the byte and string routines of \<open>lib.c\<close>, with what each leaves in memory.
    \<^theory_text>\<open>WeensyPrint\<close>: the console printer, which stays on the screen and prints numbers in decimal.
  \<^item> \<^theory_text>\<open>X86\<close>: the register block and the process states. \<^theory_text>\<open>RoundRobin\<close>: the contract of a cyclic
    scan of the process table as the locale \<open>round_robin\<close>, which both kernels' schedulers
    interpret.
  \<^item> \<^theory_text>\<open>MposKern\<close>: \<open>mpos-kern.c\<close>; \<open>start\<close>, \<open>interrupt\<close> with its system calls, \<open>schedule\<close>,
    \<open>do_fork\<close> with \<open>copy_stack\<close>, \<open>do_newthread\<close>. The scheduler terminates because the running
    process or an interrupted one is runnable; the invariant of all reachable states is by rule
    induction. \<^theory_text>\<open>MposTable\<close>: an abstract process table, and the simulation of every system call.
  \<^item> \<^theory_text>\<open>SchedosKern\<close>: \<open>schedos-kern.c\<close>; the traps and the five scheduling algorithms, which
    algorithms end, and whom they starve.

  \<^bold>\<open>RAM disk\<close> (\<open>src/lab2/osprd.c\<close>).
  \<^item> \<^theory_text>\<open>Osprd\<close>: the device record, open and close, the three lock commands, the block requests; one
    definition for each section under the mutex. \<^theory_text>\<open>OsprdLock\<close>: the system of tasks, tickets and wait
    queue as a step relation; mutual exclusion of writers and the order of tickets as invariants
    of the reachable states, and what a refused request and the reader list do to the lock.
    \<^theory_text>\<open>OsprdEdge\<close>: the mutex, lost wakeups, races between sections, requests past the end.

  \<^bold>\<open>File system\<close> (\<open>src/lab3/ospfsmod.c\<close>, \<open>ospfs.h\<close>).
  \<^item> \<^theory_text>\<open>OspfsDisk\<close>: layout, bit vectors, inodes, block of an offset, over the image as \<open>mem\<close>.
    \<^theory_text>\<open>OspfsAlloc\<close>: the bitmap, with the locale \<open>allocator\<close> and its interpretation.
  \<^item> \<^theory_text>\<open>OspfsFile\<close>: block indices, \<open>add_block\<close>, \<open>remove_block\<close>, \<open>change_size\<close>, \<open>notify_change\<close>, \<open>read\<close>,
    \<open>write\<close>. \<^theory_text>\<open>OspfsIndex\<close>: the block number splits into the three indices and is computed back from
    them. \<^theory_text>\<open>OspfsNodes\<close>: the block tree of a file; \<^theory_text>\<open>OspfsGrow\<close>, \<^theory_text>\<open>OspfsAddBlock\<close>: \<open>add_block\<close> keeps it
    well formed. \<^theory_text>\<open>OspfsData\<close>: what is read is what was written.
  \<^item> \<^theory_text>\<open>OspfsDir\<close>: lookup, readdir, unlink, link, create, symlink and follow\_link.

  \<^bold>\<open>Image builder\<close> (\<open>src/lab3/ospfsformat.c\<close>), which writes the disk that the module mounts.
  \<^item> \<^theory_text>\<open>FormatCache\<close>: the block cache; the locale \<open>block_store\<close>, a memory of blocks that are pinned while
    the program holds pointers to them, and its interpretation by the sixteen slots over the image
    file. \<^theory_text>\<open>FormatBuild\<close>: every operation from \<open>opendisk\<close> to \<open>finishfs\<close>, with the host's files as lists of
    the answers of \<open>read\<close>; \<open>build_image\<close> is \<open>main\<close> behind its options. An abort is a value, and \<open>ends\<close>
    states that a run returns and what holds then.
  \<^item> \<^theory_text>\<open>FormatSeal\<close>: the image that \<open>finishfs\<close> would write from a state, which is a good disk whose free
    blocks are those from \<open>nextb\<close> on. \<^theory_text>\<open>FormatStep\<close>, \<^theory_text>\<open>FormatStore\<close>, \<^theory_text>\<open>FormatLink\<close>: the steps on this image;
    \<open>storeblk\<close> does to it what the module's \<open>add_block\<close> does, in all five ranges of block numbers.
  \<^item> \<^theory_text>\<open>FormatAppend\<close>, \<^theory_text>\<open>FormatFile\<close>, \<^theory_text>\<open>FormatLoop\<close>: a block that is linked changes no other file, and the
    loop of \<open>writefile\<close> leaves the bytes that were read, in whatever pieces. \<^theory_text>\<open>FormatImage\<close>,
    \<^theory_text>\<open>FormatMoves\<close>: a root directory with files as a predicate on the image, and the changes that
    add to it. \<^theory_text>\<open>FormatEntry\<close>, \<^theory_text>\<open>FormatDirent\<close>, \<^theory_text>\<open>FormatNew\<close>, \<^theory_text>\<open>FormatCatalog\<close>: the entry, the inode and the
    file, then all files by induction.
  \<^item> \<^theory_text>\<open>FormatEnds\<close>, \<^theory_text>\<open>FormatStart\<close>: the beginning and the end of a run. \<^theory_text>\<open>FormatBack\<close>: the module finds the
    files in the finished image and reads their bytes back.

  \<^bold>\<open>Shell\<close> (\<open>src/lab1\<close>).
  \<^item> \<^theory_text>\<open>ShellParse\<close>: \<open>read-command.c\<close>, over the buffer, an index and a line number. The recursive
    descent takes a number of frames and yields \<open>Deep\<close> when it needs more; the round trip holds
    for every number above the depth of the command. \<^theory_text>\<open>ShellText\<close>, \<^theory_text>\<open>ShellScan\<close>, \<^theory_text>\<open>ShellRound\<close>,
    \<^theory_text>\<open>ShellParseRound\<close>, \<^theory_text>\<open>ShellScript\<close>: the parser reads back what \<open>printcmd\<close> writes, first the
    words, then a command, then a script. \<^theory_text>\<open>ShellBad\<close>: scripts it runs off the buffer on, recurses
    for ever on, or never leaves.
  \<^item> \<^theory_text>\<open>ShellExec\<close>: \<open>execute-command.c\<close> and \<open>print-command.c\<close>; the seven execute functions with fork
    (a failed \<open>execvp\<close> makes the child run on), over fuel. \<^theory_text>\<open>ShellRun\<close>: more fuel does not change
    a result, and where the executor departs from a shell. \<^theory_text>\<open>ShellSpec\<close>: a reference semantics and
    the refinement to it. \<^theory_text>\<open>ShellMain\<close>: \<open>main\<close>, from the bytes of a script to the exit status.

  \<^bold>\<open>Peer\<close> (\<open>src/lab4\<close>).
  \<^item> \<^theory_text>\<open>P2pBuffer\<close>: the ring of a task. \<^theory_text>\<open>P2pTransfer\<close>: the locale \<open>fifo_buffer\<close>, a first-in first-out
    queue with a bound, its interpretation by the ring, and the two transfer loops.
  \<^item> \<^theory_text>\<open>P2pWire\<close>: \<open>writescan.c\<close>; the message writer and scanner, their round trip and limits.
  \<^item> \<^theory_text>\<open>P2pTracker\<close>: responses that arrive in pieces. \<^theory_text>\<open>P2pPeers\<close>: tasks, their freeing, the start of
    a download. \<^theory_text>\<open>P2pDownload\<close>, \<^theory_text>\<open>P2pUpload\<close>: the two tasks, with the answers of the tracker, the
    peer and the disk as lists.
  \<^item> \<^theory_text>\<open>P2pRegister\<close>: sockets, the tracker's greeting, the port to listen on and what the tracker is
    told of the directory. \<^theory_text>\<open>P2pOptions\<close>: the options of \<open>main\<close>. \<^theory_text>\<open>P2pMain\<close>: the rest of \<open>main\<close>
    and \<open>task_listen\<close> as a state machine over the answers of the system calls, with the children it
    forks; the invariant of all reachable states is by rule induction.
  \<^item> \<^theory_text>\<open>Md5\<close>, \<^theory_text>\<open>Md5Old\<close>: \<open>lab4/md5.c\<close> and \<open>lab3/md5.c\<close>, two implementations that are shown to
    compute the padded digest for messages below \<open>2 ^ 29\<close> bytes; \<^theory_text>\<open>Md5Test\<close>: a test value of the
    source, evaluated; \<^theory_text>\<open>Md5Text\<close>: the printable digests.

  \<^bold>\<open>Not modelled.\<close> Boot sectors, loaders, port input and output, interrupt tables and assembly stubs
  of WeensyOS. The registration of the RAM
  disk with the block layer. The clock and resource figures of the shell's profile, and its
  failure branches of \<open>fork\<close>, \<open>pipe\<close> and \<open>dup2\<close>. Of the peer, the
  comparison of a checksum, which no download of a file with a name reaches. The options of the image builder's \<open>main\<close>, and machines that are not
  little-endian; what is proved of a whole run is for files named on the command line, without \<open>-c\<close>
  and links. The converter of images into C arrays. Tests and build files.
\<close>

end
